(* ===== verification/Coco_Prelude.thy ===== *)
theory Coco_Prelude
  imports Main "HOL-Library.Word" "HOL-Library.Sublist"
begin

text \<open>
  What every component shares: bytes, C strings and \<open>snprintf\<close>, the type of a call that
  answers 0 or 1 over an explicit state (or waits for ever on its environment), the rule
  collections for such calls, and the interfaces \<open>duplex\<close> and \<open>codec\<close> through which the
  protocol layers use the transport and each other.
\<close>

unbundle bit_operations_syntax

named_theorems keeps_rules \<open>rules that carry an invariant through a call\<close>
named_theorems moves_rules \<open>rules that carry a preorder on states through a call\<close>
named_theorems act_defs \<open>the combinators calls are written with\<close>

type_synonym byte = "8 word"

text \<open>The value of an \<open>int\<close> after arithmetic, wrapped to 32 bits.\<close>

definition c_int :: "int \<Rightarrow> int" where
  "c_int x = signed_take_bit 31 x"

lemma c_int_id: "- (2 ^ 31) \<le> x \<Longrightarrow> x < 2 ^ 31 \<Longrightarrow> c_int x = x"
  by (simp add: c_int_def signed_take_bit_int_eq_self)

text \<open>The same for \<open>int64_t\<close>, with the product of a list computed factor by factor.\<close>

definition c_long :: "int \<Rightarrow> int" where
  "c_long x = signed_take_bit 63 x"

lemma c_long_eq_iff: "c_long x = c_long y \<longleftrightarrow> x mod 2 ^ 64 = y mod 2 ^ 64"
  by (simp add: c_long_def signed_take_bit_eq_iff_take_bit_eq take_bit_eq_mod)

lemma c_long_mult [simp]: "c_long (c_long x * y) = c_long (x * y)" "c_long (x * c_long y) = c_long (x * y)"
proof -
  have "c_long x mod 2 ^ 64 = x mod 2 ^ 64" for x
    using take_bit_signed_take_bit [of 64 63 x] by (simp add: c_long_def take_bit_eq_mod)
  then show "c_long (c_long x * y) = c_long (x * y)" "c_long (x * c_long y) = c_long (x * y)"
    unfolding c_long_eq_iff by (metis mod_mult_left_eq, metis mod_mult_right_eq)
qed

lemma c_long_c_long [simp]: "c_long (c_long x) = c_long x"
  using c_long_mult(1) [of x 1] by simp

definition c_product :: "int list \<Rightarrow> int" where
  "c_product xs = foldl (\<lambda>t x. c_long (t * x)) 1 xs"

lemma c_product_eq: "c_product xs = c_long (prod_list xs)"
proof -
  have "foldl (\<lambda>t x. c_long (t * x)) (c_long c) xs = c_long (c * prod_list xs)" for c
    by (induction xs arbitrary: c) (simp_all add: mult.assoc)
  from this [of 1] show ?thesis by (simp add: c_product_def c_long_def)
qed

section \<open>C strings\<close>

text \<open>
  A C string is the list of its characters before the terminating NUL. What comes off the
  wire may hold NULs; \<open>cstr\<close> is what a C function reading such a buffer as a string sees.
\<close>

definition bytes_of :: "string \<Rightarrow> byte list" where
  "bytes_of s = map (\<lambda>c. word_of_nat (of_char c)) s"

definition string_of :: "byte list \<Rightarrow> string" where
  "string_of bs = map (\<lambda>b. char_of (unat b)) bs"

definition cstr :: "string \<Rightarrow> string" where
  "cstr s = takeWhile (\<lambda>c. c \<noteq> CHR 0x00) s"

definition strlen :: "string \<Rightarrow> nat" where
  "strlen s = length (cstr s)"

text \<open>\<open>snprintf(buf, cap, "%s", s)\<close>: at most \<open>cap - 1\<close> characters arrive.\<close>

definition snprintf_s :: "nat \<Rightarrow> string \<Rightarrow> string" where
  "snprintf_s cap s = take (cap - 1) (cstr s)"

lemma length_bytes_of [simp]: "length (bytes_of s) = length s"
  by (simp add: bytes_of_def)

lemma length_string_of [simp]: "length (string_of bs) = length bs"
  by (simp add: string_of_def)

lemma bytes_of_append [simp]: "bytes_of (s @ t) = bytes_of s @ bytes_of t"
  by (simp add: bytes_of_def)

lemma bytes_of_Nil [simp]: "bytes_of [] = []"
  by (simp add: bytes_of_def)

lemma bytes_of_eq_Nil [simp]: "bytes_of s = [] \<longleftrightarrow> s = []"
  by (simp add: bytes_of_def)

lemma char_of_unat_word_of_char [simp]:
  "char_of (unat (word_of_nat (of_char c) :: byte)) = (c :: char)"
proof -
  have "unat (word_of_nat (of_char c) :: byte) = of_char c mod 256"
    by (simp add: unat_of_nat)
  moreover have "(of_char c :: nat) < 256"
    using nat_of_char_less_256 by blast
  ultimately show ?thesis by simp
qed

lemma string_of_bytes_of [simp]: "string_of (bytes_of s) = s"
  by (simp add: string_of_def bytes_of_def comp_def)

lemma bytes_of_string_of [simp]: "bytes_of (string_of bs) = bs"
proof -
  have "word_of_nat (of_char (char_of (unat b) :: char)) = b" for b :: byte
  proof -
    have "unat b < 256" using unsigned_less [of b] by simp
    then have "of_char (char_of (unat b) :: char) = unat b" by simp
    then show ?thesis by simp
  qed
  then show ?thesis
    by (simp add: string_of_def bytes_of_def comp_def)
qed

lemma cstr_idem [simp]: "cstr (cstr s) = cstr s"
  by (simp add: cstr_def takeWhile_idem)

lemma length_cstr_le: "length (cstr s) \<le> length s"
  by (simp add: cstr_def length_takeWhile_le)

lemma NUL_notin_cstr [simp]: "CHR 0x00 \<notin> set (cstr s)"
  using set_takeWhileD by (fastforce simp: cstr_def)

lemma cstr_ident: "CHR 0x00 \<notin> set s \<Longrightarrow> cstr s = s"
  by (simp add: cstr_def takeWhile_eq_all_conv) metis

lemma strlen_cstr [simp]: "strlen (cstr s) = strlen s"
  by (simp add: strlen_def)

lemma snprintf_s_length: "0 < cap \<Longrightarrow> length (snprintf_s cap s) < cap"
  by (simp add: snprintf_s_def)

lemma snprintf_s_fits: "CHR 0x00 \<notin> set s \<Longrightarrow> length s < cap \<Longrightarrow> snprintf_s cap s = s"
  by (simp add: snprintf_s_def cstr_ident)

text \<open>\<open>%d\<close>: numbers in decimal.\<close>

fun show_nat :: "nat \<Rightarrow> string" where
  "show_nat n = (if n < 10 then [char_of (48 + n)] else show_nat (n div 10) @ [char_of (48 + n mod 10)])"

declare show_nat.simps [simp del]

definition show_int :: "int \<Rightarrow> string" where
  "show_int i = (if i < 0 then ''-'' @ show_nat (nat (- i)) else show_nat (nat i))"

section \<open>Calls\<close>

text \<open>
  A call of the client answers 1 (with what it hands back) or 0, and leaves a state; or it is
  still waiting for its environment, in the state it waits in. What a call has written
  through its output parameters when it answers 0 is not modelled: no caller reads it.
\<close>

datatype ('s, 'a) outcome = Waits 's | Zero 's | One 'a 's

type_synonym ('s, 'a) act = "'s \<Rightarrow> ('s, 'a) outcome"

fun final :: "('s, 'a) outcome \<Rightarrow> 's" where
  "final (Waits s) = s"
| "final (Zero s) = s"
| "final (One v s) = s"

definition ret :: "'a \<Rightarrow> ('s, 'a) act" where
  "ret v s = One v s"

definition modify :: "('s \<Rightarrow> 's) \<Rightarrow> ('s, unit) act" where
  "modify f s = One () (f s)"

definition fetch :: "('s \<Rightarrow> 'a) \<Rightarrow> ('s, 'a) act" where
  "fetch f s = One (f s) s"

text \<open>\<open>if (!m) return 0;\<close> and then the rest, with what \<open>m\<close> handed back.\<close>

definition andthen :: "('s, 'a) act \<Rightarrow> ('a \<Rightarrow> ('s, 'b) act) \<Rightarrow> ('s, 'b) act" where
  "andthen m f s = (case m s of Waits t \<Rightarrow> Waits t | Zero t \<Rightarrow> Zero t | One v t \<Rightarrow> f v t)"

text \<open>\<open>ok = m;\<close> for a caller that goes on either way: the answer becomes a value.\<close>

definition attempt :: "('s, 'a) act \<Rightarrow> ('s, 'a option) act" where
  "attempt m s = (case m s of Waits t \<Rightarrow> Waits t | Zero t \<Rightarrow> One None t | One v t \<Rightarrow> One (Some v) t)"

text \<open>\<open>for (i = 0; i < n; i++) if (!m) return 0;\<close>, keeping what each round handed back.\<close>

primrec times :: "nat \<Rightarrow> ('s, 'a) act \<Rightarrow> ('s, 'a list) act" where
  "times 0 m = ret []"
| "times (Suc n) m = andthen m (\<lambda>x. andthen (times n m) (\<lambda>xs. ret (x # xs)))"

text \<open>The same over the elements of an array.\<close>

primrec for_each :: "'a list \<Rightarrow> ('a \<Rightarrow> ('s, unit) act) \<Rightarrow> ('s, unit) act" where
  "for_each [] f = ret ()"
| "for_each (x # xs) f = andthen (f x) (\<lambda>_. for_each xs f)"

lemmas act_combinators [act_defs] = ret_def modify_def fetch_def andthen_def attempt_def

lemma andthen_ret [simp]: "andthen (ret v) f = f v"
  by (rule ext) (simp add: andthen_def ret_def)

lemma andthen_One: "m s = One v t \<Longrightarrow> andthen m f s = f v t"
  by (simp add: andthen_def)

lemma andthen_Zero: "m s = Zero t \<Longrightarrow> andthen m f s = Zero t"
  by (simp add: andthen_def)

lemma andthen_Waits: "m s = Waits t \<Longrightarrow> andthen m f s = Waits t"
  by (simp add: andthen_def)

lemma andthen_OneE:
  assumes "andthen m f s = One w u"
  obtains v t where "m s = One v t" and "f v t = One w u"
  using assms by (auto simp: andthen_def split: outcome.splits)

subsection \<open>Invariants of calls\<close>

text \<open>\<open>keeps P m\<close>: however \<open>m\<close> ends, \<open>P\<close> holds where it held before.\<close>

definition keeps :: "('s \<Rightarrow> bool) \<Rightarrow> ('s, 'a) act \<Rightarrow> bool" where
  "keeps P m \<longleftrightarrow> (\<forall>s. P s \<longrightarrow> P (final (m s)))"

lemma keepsI: "(\<And>s. P s \<Longrightarrow> P (final (m s))) \<Longrightarrow> keeps P m"
  by (simp add: keeps_def)

lemma keepsD: "keeps P m \<Longrightarrow> P s \<Longrightarrow> P (final (m s))"
  by (simp add: keeps_def)

lemma keeps_One: "keeps P m \<Longrightarrow> P s \<Longrightarrow> m s = One v t \<Longrightarrow> P t"
  using keepsD by fastforce

lemma keeps_ret [keeps_rules]: "keeps P (ret v)"
  by (simp add: keeps_def ret_def)

lemma keeps_fetch [keeps_rules]: "keeps P (fetch f)"
  by (simp add: keeps_def fetch_def)

lemma keeps_modify: "(\<And>s. P s \<Longrightarrow> P (f s)) \<Longrightarrow> keeps P (modify f)"
  by (simp add: keeps_def modify_def)

lemma keeps_andthen [keeps_rules]:
  "keeps P m \<Longrightarrow> (\<And>v. keeps P (f v)) \<Longrightarrow> keeps P (andthen m f)"
  by (force simp: keeps_def andthen_def split: outcome.splits)

lemma keeps_attempt [keeps_rules]: "keeps P m \<Longrightarrow> keeps P (attempt m)"
  by (force simp: keeps_def attempt_def split: outcome.splits)

lemma keeps_if [keeps_rules]:
  "(b \<Longrightarrow> keeps P m) \<Longrightarrow> (\<not> b \<Longrightarrow> keeps P k) \<Longrightarrow> keeps P (if b then m else k)"
  by simp

lemma keeps_case_option [keeps_rules]:
  "(x = None \<Longrightarrow> keeps P m) \<Longrightarrow> (\<And>v. x = Some v \<Longrightarrow> keeps P (k v)) \<Longrightarrow>
    keeps P (case x of None \<Rightarrow> m | Some v \<Rightarrow> k v)"
  by (cases x) auto

lemma keeps_times [keeps_rules]: "keeps P m \<Longrightarrow> keeps P (times n m)"
  by (induction n) (auto intro: keeps_rules)

lemma keeps_for_each [keeps_rules]: "(\<And>x. keeps P (f x)) \<Longrightarrow> keeps P (for_each xs f)"
  by (induction xs) (auto intro: keeps_rules)

text \<open>\<open>moves R m\<close>: however \<open>m\<close> ends, it ends in a state \<open>R\<close>-above the one it started in.\<close>

definition moves :: "('s \<Rightarrow> 's \<Rightarrow> bool) \<Rightarrow> ('s, 'a) act \<Rightarrow> bool" where
  "moves R m \<longleftrightarrow> (\<forall>s. R s (final (m s)))"

lemma movesI: "(\<And>s. R s (final (m s))) \<Longrightarrow> moves R m"
  by (simp add: moves_def)

lemma movesD: "moves R m \<Longrightarrow> R s (final (m s))"
  by (simp add: moves_def)

lemma moves_One: "moves R m \<Longrightarrow> m s = One v t \<Longrightarrow> R s t"
  by (metis movesD final.simps(3))

lemma moves_ret: "reflp R \<Longrightarrow> moves R (ret v)"
  by (simp add: moves_def ret_def reflpD)

lemma moves_andthen:
  assumes "transp R" and "moves R m" and "\<And>v. moves R (f v)"
  shows "moves R (andthen m f)"
proof (rule movesI)
  fix s
  show "R s (final (andthen m f s))"
  proof (cases "m s")
    case (One v t)
    then have "R s t" using assms(2) by (rule moves_One [rotated])
    moreover have "R t (final (f v t))" using assms(3) by (rule movesD)
    ultimately show ?thesis using assms(1) One by (auto simp: andthen_def dest: transpD)
  qed (use movesD [OF assms(2), of s] in \<open>auto simp: andthen_def\<close>)
qed

section \<open>Conversations\<close>

text \<open>
  \<open>talks good emitted pending frame m obs ibs v\<close>: from any good state whose pending input
  starts with \<open>ibs\<close>, the call \<open>m\<close> answers 1 with \<open>v\<close>, has put exactly \<open>obs\<close> behind what was
  emitted before, has taken exactly \<open>ibs\<close> off the input, and has left the frame alone.
\<close>

definition talks :: "('s \<Rightarrow> bool) \<Rightarrow> ('s \<Rightarrow> byte list) \<Rightarrow> ('s \<Rightarrow> byte list) \<Rightarrow> ('s \<Rightarrow> 'f) \<Rightarrow>
    ('s, 'a) act \<Rightarrow> byte list \<Rightarrow> byte list \<Rightarrow> 'a \<Rightarrow> bool" where
  "talks good emitted pending frame m obs ibs v \<longleftrightarrow>
     (\<forall>s rest. good s \<and> pending s = ibs @ rest \<longrightarrow>
        (\<exists>t. m s = One v t \<and> good t \<and> emitted t = emitted s @ obs \<and> pending t = rest \<and>
             frame t = frame s))"

lemma talksI:
  assumes "\<And>s rest. good s \<Longrightarrow> pending s = ibs @ rest \<Longrightarrow>
    \<exists>t. m s = One v t \<and> good t \<and> emitted t = emitted s @ obs \<and> pending t = rest \<and> frame t = frame s"
  shows "talks good emitted pending frame m obs ibs v"
  using assms by (auto simp: talks_def)

lemma talksE:
  assumes "talks good emitted pending frame m obs ibs v" and "good s" and "pending s = ibs @ rest"
  obtains t where "m s = One v t" "good t" "emitted t = emitted s @ obs" "pending t = rest"
    "frame t = frame s"
  using assms unfolding talks_def by blast

lemma talksD:
  assumes "talks good emitted pending frame m obs ibs v" and "good s" and "pending s = ibs @ rest"
  shows "\<exists>t. m s = One v t \<and> good t \<and> emitted t = emitted s @ obs \<and> pending t = rest"
  using assms unfolding talks_def by blast

lemma talks_ret: "talks good emitted pending frame (ret v) [] [] v"
  by (auto simp: talks_def ret_def)

lemma talks_fetch: "(\<And>s. good s \<Longrightarrow> f s = v) \<Longrightarrow> talks good emitted pending frame (fetch f) [] [] v"
  by (auto simp: talks_def fetch_def)

lemma talks_andthen:
  assumes "talks good emitted pending frame m o1 i1 v"
    and "talks good emitted pending frame (f v) o2 i2 w"
  shows "talks good emitted pending frame (andthen m f) (o1 @ o2) (i1 @ i2) w"
proof (rule talksI)
  fix s rest
  assume "good s" and "pending s = (i1 @ i2) @ rest"
  then have "pending s = i1 @ (i2 @ rest)" by simp
  with assms(1) \<open>good s\<close> obtain t where t: "m s = One v t" "good t" "emitted t = emitted s @ o1"
      "pending t = i2 @ rest" "frame t = frame s"
    by (rule talksE)
  from assms(2) t(2,4) obtain u where "f v t = One w u" "good u" "emitted u = emitted t @ o2"
      "pending u = rest" "frame u = frame t"
    by (rule talksE)
  with t show "\<exists>t. andthen m f s = One w t \<and> good t \<and> emitted t = emitted s @ o1 @ o2 \<and>
      pending t = rest \<and> frame t = frame s"
    by (auto simp: andthen_def)
qed

lemma talks_cong: "talks good emitted pending frame m obs ibs v \<Longrightarrow> obs = obs' \<Longrightarrow> ibs = ibs' \<Longrightarrow>
    v = v' \<Longrightarrow> talks good emitted pending frame m obs' ibs' v'"
  by simp

lemma talks_eq:
  assumes "\<And>s. good s \<Longrightarrow> m s = k s" and "talks good emitted pending frame k obs ibs v"
  shows "talks good emitted pending frame m obs ibs v"
  using assms by (fastforce simp: talks_def)

text \<open>
  What the protocol layers rely on: a transport that reads exactly as many bytes as it is
  asked for and puts what it is given behind what went before.
\<close>

locale duplex =
  fixes good :: "'s \<Rightarrow> bool" and emitted :: "'s \<Rightarrow> byte list" and pending :: "'s \<Rightarrow> byte list"
    and frame :: "'s \<Rightarrow> 'f"
    and rd :: "nat \<Rightarrow> ('s, byte list) act" and wr :: "byte list \<Rightarrow> ('s, unit) act"
  assumes rd_exact: "length bs = n \<Longrightarrow> talks good emitted pending frame (rd n) [] bs bs"
    and wr_exact: "talks good emitted pending frame (wr bs) bs [] ()"
begin

lemma rd_then:
  assumes "length bs = n" and "talks good emitted pending frame (f bs) obs ibs v"
  shows "talks good emitted pending frame (andthen (rd n) f) obs (bs @ ibs) v"
  using talks_andthen [where f = f, OF rd_exact [OF assms(1)] assms(2)] by simp

lemma wr_then:
  assumes "talks good emitted pending frame (f ()) obs ibs v"
  shows "talks good emitted pending frame (andthen (wr bs) f) (bs @ obs) ibs v"
  using talks_andthen [where f = f, OF wr_exact assms] by simp

lemma times_talks:
  assumes "\<And>x. x \<in> set xs \<Longrightarrow> talks good emitted pending frame m [] (enc x) (val x)"
  shows "talks good emitted pending frame (times (length xs) m) [] (concat (map enc xs)) (map val xs)"
  using assms
proof (induction xs)
  case Nil
  show ?case by (simp add: talks_ret)
next
  case (Cons x xs)
  have "talks good emitted pending frame (times (length xs) m) [] (concat (map enc xs)) (map val xs)"
    using Cons by simp
  then have "talks good emitted pending frame
      (andthen (times (length xs) m) (\<lambda>ys. ret (val x # ys))) [] (concat (map enc xs)) (val x # map val xs)"
    using talks_andthen [OF _ talks_ret] by fastforce
  with Cons.prems have "talks good emitted pending frame (times (Suc (length xs)) m) ([] @ [])
      (enc x @ concat (map enc xs)) (val x # map val xs)"
    unfolding times.simps by (intro talks_andthen) auto
  then show ?case by simp
qed

lemma for_each_talks:
  assumes "\<And>x. x \<in> set xs \<Longrightarrow> talks good emitted pending frame (f x) (enc x) [] ()"
  shows "talks good emitted pending frame (for_each xs f) (concat (map enc xs)) [] ()"
  using assms
proof (induction xs)
  case Nil
  show ?case by (simp add: talks_ret)
next
  case (Cons x xs)
  have "talks good emitted pending frame (for_each xs f) (concat (map enc xs)) [] ()"
    using Cons by simp
  with Cons.prems show ?case
    using talks_andthen [of good emitted pending frame "f x" "enc x" "[]" "()" "\<lambda>_. for_each xs f"]
    by fastforce
qed

end

text \<open>
  A way to write a value and a way to read it over the same wire form; \<open>got v\<close> is what reading
  back \<open>v\<close> hands over. What is written to one end reads back from the other, value by value,
  with nothing left over.
\<close>

locale codec = duplex +
  fixes ok :: "'v \<Rightarrow> bool" and enc :: "'v \<Rightarrow> byte list" and got :: "'v \<Rightarrow> 'w"
    and put :: "'v \<Rightarrow> ('s, unit) act" and get :: "('s, 'w) act"
  assumes put_exact: "ok v \<Longrightarrow> talks good emitted pending frame (put v) (enc v) [] ()"
    and get_exact: "ok v \<Longrightarrow> talks good emitted pending frame get [] (enc v) (got v)"
begin

lemma put_all: "list_all ok vs \<Longrightarrow>
    talks good emitted pending frame (for_each vs put) (concat (map enc vs)) [] ()"
  by (rule for_each_talks) (simp add: put_exact list_all_iff)

lemma get_all: "list_all ok vs \<Longrightarrow>
    talks good emitted pending frame (times (length vs) get) [] (concat (map enc vs)) (map got vs)"
  using times_talks [of vs get enc got] by (simp add: get_exact list_all_iff)

text \<open>Two ends: what the first one wrote is what the second one has coming in.\<close>

lemma round_trip:
  assumes "list_all ok vs" and "good s" and "good r"
    and "pending r = drop (length (emitted s)) (emitted (final (for_each vs put s))) @ rest"
  shows "\<exists>t u. for_each vs put s = One () t \<and> good t \<and>
    times (length vs) get r = One (map got vs) u \<and> good u \<and> pending u = rest"
proof -
  obtain t where t: "for_each vs put s = One () t" "good t" "emitted t = emitted s @ concat (map enc vs)"
    using put_all [OF assms(1)] assms(2) by (rule talksE) auto
  then have "pending r = concat (map enc vs) @ rest" using assms(4) by simp
  with get_all [OF assms(1)] assms(3) obtain u where
    "times (length vs) get r = One (map got vs) u" "good u" "pending u = rest"
    by (rule talksE)
  with t show ?thesis by blast
qed

end

end
