(* ===== verification/Byte_Order.thy ===== *)
theory Byte_Order
  imports Coco_Prelude
begin

text \<open>
  Byte order (client/zigurat.c, ``primitives''): how a value sits in the host's memory, the
  run-time test for the host's byte order, the in-place reversal \<open>reorder\<close>, and the facts
  that what goes on the wire is big-endian on either kind of host and reads back as the
  value that was written.
\<close>

section \<open>Values in memory\<close>

text \<open>The \<open>n\<close> bytes of a value below \<open>256 ^ n\<close>, least significant first.\<close>

primrec le_bytes :: "nat \<Rightarrow> nat \<Rightarrow> byte list" where
  "le_bytes 0 v = []"
| "le_bytes (Suc n) v = word_of_nat v # le_bytes n (v div 256)"

primrec le_val :: "byte list \<Rightarrow> nat" where
  "le_val [] = 0"
| "le_val (b # bs) = unat b + 256 * le_val bs"

definition be_bytes :: "nat \<Rightarrow> nat \<Rightarrow> byte list" where
  "be_bytes n v = rev (le_bytes n v)"

definition be_val :: "byte list \<Rightarrow> nat" where
  "be_val bs = le_val (rev bs)"

text \<open>What \<open>memcpy(tmp, &v, n)\<close> copies, and what \<open>*(T *)p\<close> reads, on a host of either kind.\<close>

definition mem_of :: "bool \<Rightarrow> nat \<Rightarrow> nat \<Rightarrow> byte list" where
  "mem_of big n v = (if big then be_bytes n v else le_bytes n v)"

definition val_at :: "bool \<Rightarrow> byte list \<Rightarrow> nat" where
  "val_at big bs = (if big then be_val bs else le_val bs)"

definition host_is_big_endian :: "bool \<Rightarrow> bool" where
  "host_is_big_endian big \<longleftrightarrow> mem_of big 2 1 ! 0 = 0"

function reorder_loop :: "nat \<Rightarrow> byte list \<Rightarrow> byte list" where
  "reorder_loop i b =
     (if i < length b div 2
      then reorder_loop (Suc i) (b[i := b ! (length b - 1 - i), length b - 1 - i := b ! i])
      else b)"
  by pat_completeness auto
termination
  by (relation "measure (\<lambda>(i, b). length b div 2 - i)") auto

declare reorder_loop.simps [simp del]

definition reorder :: "bool \<Rightarrow> byte list \<Rightarrow> byte list" where
  "reorder big b = (if host_is_big_endian big then b else reorder_loop 0 b)"

section \<open>The loop reverses\<close>

lemma reorder_loop_nth:
  "i \<le> length b div 2 \<Longrightarrow> length (reorder_loop i b) = length b \<and>
    (\<forall>j < length b. reorder_loop i b ! j =
       (if i \<le> j \<and> j < length b - i then b ! (length b - 1 - j) else b ! j))"
proof (induction i b rule: reorder_loop.induct)
  case (1 i b)
  show ?case
  proof (cases "i < length b div 2")
    case True
    let ?b = "b[i := b ! (length b - 1 - i), length b - 1 - i := b ! i]"
    have swap: "?b ! j = (if j = i \<or> j = length b - 1 - i then b ! (length b - 1 - j) else b ! j)"
      if "j < length b" for j
      using that True by (auto simp: nth_list_update)
    have IH: "length (reorder_loop (Suc i) ?b) = length b \<and>
      (\<forall>j < length b. reorder_loop (Suc i) ?b ! j =
         (if Suc i \<le> j \<and> j < length b - Suc i then ?b ! (length b - 1 - j) else ?b ! j))"
      using "1.IH" True by simp
    have "reorder_loop (Suc i) ?b ! j =
        (if i \<le> j \<and> j < length b - i then b ! (length b - 1 - j) else b ! j)"
      if j: "j < length b" for j
    proof (cases "Suc i \<le> j \<and> j < length b - Suc i")
      case inner: True
      have "length b - 1 - j \<noteq> i" "length b - 1 - j \<noteq> length b - 1 - i"
        using inner by auto
      then have "?b ! (length b - 1 - j) = b ! (length b - 1 - j)"
        by (simp add: nth_list_update)
      then show ?thesis using IH inner j by auto
    next
      case outer: False
      then have "(j = i \<or> j = length b - 1 - i) = (i \<le> j \<and> j < length b - i)"
        using True j by auto
      moreover have "reorder_loop (Suc i) ?b ! j =
          (if Suc i \<le> j \<and> j < length b - Suc i then ?b ! (length b - 1 - j) else ?b ! j)"
        using IH j by blast
      ultimately show ?thesis using swap [OF j] outer by (simp only: if_not_P if_False refl)
    qed
    then show ?thesis using IH True by (simp add: reorder_loop.simps [of i b])
  next
    case False
    with "1.prems" have "i = length b div 2" by simp
    then have "b ! j = b ! (length b - 1 - j)"
      if "i \<le> j" "j < length b - i" for j
    proof -
      have "length b < 2 * i + 2" using \<open>i = length b div 2\<close> by simp
      then have "j = length b - 1 - j" using that by linarith
      then show ?thesis by simp
    qed
    with False show ?thesis by (auto simp: reorder_loop.simps [of i b])
  qed
qed

lemma reorder_loop_rev: "reorder_loop 0 b = rev b"
  using reorder_loop_nth [of 0 b] by (auto intro: nth_equalityI simp: rev_nth)

section \<open>Encoding and decoding\<close>

lemma length_le_bytes [simp]: "length (le_bytes n v) = n"
  by (induction n arbitrary: v) auto

lemma length_be_bytes [simp]: "length (be_bytes n v) = n"
  by (simp add: be_bytes_def)

lemma length_mem_of [simp]: "length (mem_of big n v) = n"
  by (simp add: mem_of_def)

lemma le_val_le_bytes: "v < 256 ^ n \<Longrightarrow> le_val (le_bytes n v) = v"
proof (induction n arbitrary: v)
  case (Suc n)
  have "v div 256 < 256 ^ n"
    using Suc.prems by (simp add: less_mult_imp_div_less mult.commute)
  then have "le_val (le_bytes n (v div 256)) = v div 256" by (rule Suc.IH)
  then show ?case by (simp add: unat_of_nat)
qed simp

lemma le_bytes_le_val: "le_bytes (length bs) (le_val bs) = bs"
proof (induction bs)
  case (Cons b bs)
  have "unat b < 256" using unsigned_less [of b] by simp
  then have "(unat b + 256 * le_val bs) div 256 = le_val bs" by simp
  moreover have "word_of_nat (unat b + 256 * le_val bs) = b"
  proof -
    have zero: "(256 :: byte) = 0" by (simp add: word_eq_iff_unsigned)
    have "word_of_nat (unat b + 256 * le_val bs) = b + (256 :: byte) * word_of_nat (le_val bs)"
      by simp
    also have "\<dots> = b" by (simp only: zero mult_zero_left add_0_right)
    finally show ?thesis .
  qed
  ultimately show ?case using Cons.IH by simp
qed simp

lemma le_val_less: "le_val bs < 256 ^ length bs"
proof (induction bs)
  case (Cons b bs)
  have "unat b < 256" using unsigned_less [of b] by simp
  with Cons show ?case by simp
qed simp

lemma be_val_be_bytes: "v < 256 ^ n \<Longrightarrow> be_val (be_bytes n v) = v"
  by (simp add: be_val_def be_bytes_def le_val_le_bytes)

lemma be_bytes_be_val: "be_bytes (length bs) (be_val bs) = bs"
  using le_bytes_le_val [of "rev bs"] by (simp add: be_val_def be_bytes_def)

lemma be_val_less: "be_val bs < 256 ^ length bs"
  using le_val_less [of "rev bs"] by (simp add: be_val_def)

lemma host_is_big_endian_iff [simp]: "host_is_big_endian big \<longleftrightarrow> big"
  by (simp add: host_is_big_endian_def mem_of_def be_bytes_def numeral_2_eq_2)

text \<open>On either kind of host the reversed memory image is the big-endian one, and back.\<close>

lemma reorder_mem_of [simp]: "reorder big (mem_of big n v) = be_bytes n v"
  by (simp add: reorder_def mem_of_def reorder_loop_rev be_bytes_def)

lemma val_at_reorder [simp]: "val_at big (reorder big bs) = be_val bs"
  by (simp add: reorder_def val_at_def reorder_loop_rev be_val_def)

lemma length_reorder [simp]: "length (reorder big bs) = length bs"
  by (simp add: reorder_def reorder_loop_rev)

lemma be_bytes_1 [simp]: "be_bytes (Suc 0) v = [word_of_nat v]"
  by (simp add: be_bytes_def)

lemma be_val_single [simp]: "be_val [b] = unat b"
  by (simp add: be_val_def)

end
