(* ===== verification/Tls_Client.thy ===== *)
theory Tls_Client
  imports Coco_Prelude
begin

text \<open>
  client/tls.c: the TLS half of both C clients. OpenSSL is not under src/: what each of its
  calls answers is an argument of the definitions (the record \<open>ossl\<close> for the calls of one
  handshake, an event for one \<open>SSL_read\<close> or \<open>SSL_write\<close>). Modelled are the configuration
  the client asks for, the order and the error branches of \<open>coco_client_tls_open\<close> with the
  release of what it made, and the record of why a read or a write stopped.
\<close>

section \<open>errno\<close>

datatype errno = E_NONE | E_INTR | E_AGAIN | E_OTHER string

fun strerror :: "errno \<Rightarrow> string" where
  "strerror E_NONE = ''Success''"
| "strerror E_INTR = ''Interrupted system call''"
| "strerror E_AGAIN = ''Resource temporarily unavailable''"
| "strerror (E_OTHER m) = m"

section \<open>The options\<close>

record coco_tls_options =
  o_cacert :: "string option"
  o_capath :: "string option"
  o_cert :: "string option"
  o_key :: "string option"
  o_key_pass :: "string option"
  o_insecure :: bool

section \<open>Opening\<close>

datatype filetype = PEM | ASN1

datatype authority = No_authority | Named_authority "string option" "string option" | System_authorities

text \<open>What the calls made on the context and the connection have asked OpenSSL for.\<close>

record tls_conf =
  t_min_tls12 :: bool
  t_authority :: authority
  t_cert :: "(string \<times> string) option"
  t_sni :: "string option"
  t_check_host :: "string option"
  t_verify_peer :: bool
  t_fd :: "int option"

definition conf0 :: tls_conf where
  "conf0 = \<lparr>t_min_tls12 = False, t_authority = No_authority, t_cert = None, t_sni = None,
     t_check_host = None, t_verify_peer = False, t_fd = None\<rparr>"

text \<open>The answers of the OpenSSL calls of one handshake.\<close>

record ossl =
  a_calloc :: bool
  a_ctx_new :: bool
  a_load_verify :: "string option \<Rightarrow> string option \<Rightarrow> bool"
  a_default_paths :: bool
  a_use_cert :: "string \<Rightarrow> filetype \<Rightarrow> bool"
  a_use_key :: "string \<Rightarrow> filetype \<Rightarrow> string option \<Rightarrow> bool"
  a_check_key :: "string \<Rightarrow> string \<Rightarrow> bool"
  a_ssl_new :: bool
  a_set1_host :: "string \<Rightarrow> bool"
  a_set_fd :: "int \<Rightarrow> bool"
  a_connect :: "tls_conf \<Rightarrow> bool"
  a_verify_result :: "tls_conf \<Rightarrow> string option"
  a_err_queue :: "string option"

datatype resource = R_handle | R_ctx | R_ssl

datatype res_event = Made resource | Freed resource

text \<open>\<open>ssl_why\<close>: OpenSSL's words when its error queue has any.\<close>

definition ssl_why :: "ossl \<Rightarrow> nat \<Rightarrow> string \<Rightarrow> string" where
  "ssl_why L cap what =
     (case a_err_queue L of
        Some q \<Rightarrow> snprintf_s cap (what @ '': '' @ snprintf_s 256 q)
      | None \<Rightarrow> snprintf_s cap what)"

text \<open>The code at \<open>bad:\<close>, with what has been made so far.\<close>

definition tls_bad :: "bool \<Rightarrow> bool \<Rightarrow> res_event list" where
  "tls_bad ssl ctx = (if ssl then [Freed R_ssl] else []) @ (if ctx then [Freed R_ctx] else []) @ [Freed R_handle]"

datatype tls_opened = Refused string "res_event list" | Opened tls_conf "res_event list"

definition tls_load_authority :: "ossl \<Rightarrow> coco_tls_options \<Rightarrow> nat \<Rightarrow> tls_conf \<Rightarrow> string + tls_conf" where
  "tls_load_authority L opts cap cf =
     (if o_cacert opts \<noteq> None \<or> o_capath opts \<noteq> None
      then if a_load_verify L (o_cacert opts) (o_capath opts)
           then Inr (cf\<lparr>t_authority := Named_authority (o_cacert opts) (o_capath opts)\<rparr>)
           else Inl (ssl_why L cap ''cannot read the authority'')
      else if a_default_paths L then Inr (cf\<lparr>t_authority := System_authorities\<rparr>)
      else Inl (ssl_why L cap ''cannot read the system authorities''))"

definition tls_load_cert :: "ossl \<Rightarrow> coco_tls_options \<Rightarrow> nat \<Rightarrow> tls_conf \<Rightarrow> string + tls_conf" where
  "tls_load_cert L opts cap cf =
     (case (o_cert opts, o_key opts) of
        (Some cert, Some key) \<Rightarrow>
          if \<not> a_use_cert L cert PEM \<and> \<not> a_use_cert L cert ASN1
          then Inl (ssl_why L cap ''cannot read this end's certificate'')
          else if \<not> a_use_key L key PEM (o_key_pass opts) \<and> \<not> a_use_key L key ASN1 (o_key_pass opts)
          then Inl (ssl_why L cap ''cannot read this end's private key'')
          else if \<not> a_check_key L cert key
          then Inl (snprintf_s cap ''this end's private key does not belong to its certificate'')
          else Inr (cf\<lparr>t_cert := Some (cert, key)\<rparr>)
      | (None, None) \<Rightarrow> Inr cf
      | _ \<Rightarrow> Inl (snprintf_s cap ''a client certificate needs both --cert and --key''))"

definition tls_set_host :: "ossl \<Rightarrow> coco_tls_options \<Rightarrow> nat \<Rightarrow> string \<Rightarrow> tls_conf \<Rightarrow> string + tls_conf" where
  "tls_set_host L opts cap host cf =
     (let cf = cf\<lparr>t_sni := Some host\<rparr>
      in if o_insecure opts then Inr cf
         else if \<not> a_set1_host L host
         then Inl (snprintf_s cap (''cannot check the name '' @ host))
         else Inr (cf\<lparr>t_check_host := Some host, t_verify_peer := True\<rparr>))"

definition tls_connect :: "ossl \<Rightarrow> nat \<Rightarrow> int \<Rightarrow> tls_conf \<Rightarrow> string + tls_conf" where
  "tls_connect L cap fd cf =
     (if \<not> a_set_fd L fd then Inl (ssl_why L cap ''cannot use the socket'')
      else let cf = cf\<lparr>t_fd := Some fd\<rparr>
           in if \<not> a_connect L cf
              then Inl (case a_verify_result L cf of
                          Some v \<Rightarrow> snprintf_s cap (''the server's certificate was refused: '' @ v)
                        | None \<Rightarrow> ssl_why L cap ''the handshake failed'')
              else Inr cf)"

definition coco_client_tls_open ::
    "ossl \<Rightarrow> int \<Rightarrow> string \<Rightarrow> coco_tls_options \<Rightarrow> nat \<Rightarrow> tls_opened" where
  "coco_client_tls_open L fd host opts cap =
     (if \<not> a_calloc L then Refused (snprintf_s cap ''out of memory'') []
      else if \<not> a_ctx_new L
      then Refused (ssl_why L cap ''cannot make a TLS context'') (Made R_handle # tls_bad False False)
      else case tls_load_authority L opts cap (conf0\<lparr>t_min_tls12 := True\<rparr>) of
        Inl e \<Rightarrow> Refused e (Made R_handle # Made R_ctx # tls_bad False True)
      | Inr cf1 \<Rightarrow>
     (case tls_load_cert L opts cap cf1 of
        Inl e \<Rightarrow> Refused e (Made R_handle # Made R_ctx # tls_bad False True)
      | Inr cf2 \<Rightarrow>
        if \<not> a_ssl_new L
        then Refused (ssl_why L cap ''cannot make a TLS connection'')
               (Made R_handle # Made R_ctx # tls_bad False True)
        else case tls_set_host L opts cap host cf2 of
          Inl e \<Rightarrow> Refused e (Made R_handle # Made R_ctx # Made R_ssl # tls_bad True True)
        | Inr cf3 \<Rightarrow>
       (case tls_connect L cap fd cf3 of
          Inl e \<Rightarrow> Refused e (Made R_handle # Made R_ctx # Made R_ssl # tls_bad True True)
        | Inr cf4 \<Rightarrow> Opened cf4 [Made R_handle, Made R_ctx, Made R_ssl])))"

text \<open>\<open>coco_client_tls_close\<close> on a handle that has both halves, as every opened one has.\<close>

definition coco_client_tls_close :: "res_event list" where
  "coco_client_tls_close = [Freed R_ssl, Freed R_ctx, Freed R_handle]"

section \<open>Reading and writing\<close>

datatype ssl_error = SSL_ERROR_NONE | SSL_ERROR_SSL | SSL_ERROR_SYSCALL | SSL_ERROR_ZERO_RETURN | SSL_ERROR_ELSE

text \<open>
  One \<open>SSL_read\<close> or \<open>SSL_write\<close>. A stop carries what \<open>SSL_get_error\<close> answers, the reason at
  the head of the error queue (\<open>None\<close>: the queue is empty; \<open>Some None\<close>: a reason with no
  text) and the errno it leaves.
\<close>

datatype ssl_rev = SslRead byte "byte list" | SslRStop ssl_error "string option option" errno
datatype ssl_wev = SslWrote nat | SslWStop ssl_error "string option option" errno

definition strstr_at :: "string \<Rightarrow> string \<Rightarrow> bool" where
  "strstr_at hay needle \<longleftrightarrow> sublist needle hay"

definition tls_note :: "ssl_error \<Rightarrow> string option option \<Rightarrow> errno \<Rightarrow> string" where
  "tls_note e q en =
     (if e = SSL_ERROR_ZERO_RETURN then ''''
      else if e = SSL_ERROR_SSL \<and> q \<noteq> None
      then (let r = (case the q of None \<Rightarrow> ''the TLS session failed'' | Some r \<Rightarrow> r)
            in if strstr_at r ''certificate required''
               then snprintf_s 256 (r @ '' -- this server wants a client certificate: --cert and --key'')
               else snprintf_s 256 r)
      else if e = SSL_ERROR_SYSCALL \<and> en \<noteq> E_NONE then snprintf_s 256 (strerror en)
      else if e \<noteq> SSL_ERROR_NONE then ''the TLS session ended unexpectedly''
      else '''')"

text \<open>\<open>coco_client_tls_why\<close>: the words, when there are any and there is room for them.\<close>

definition coco_client_tls_why :: "string option \<Rightarrow> nat \<Rightarrow> string option" where
  "coco_client_tls_why h cap =
     (case h of None \<Rightarrow> None
      | Some w \<Rightarrow> if w = '''' \<or> cap = 0 then None else Some (snprintf_s cap w))"

section \<open>What opening guarantees\<close>

lemma tls_load_authority_keeps:
  assumes "tls_load_authority L opts cap cf = Inr cf'"
  shows "t_min_tls12 cf' = t_min_tls12 cf" and "t_sni cf' = t_sni cf"
    and "t_authority cf' \<noteq> No_authority"
  using assms by (auto simp: tls_load_authority_def split: if_splits)

lemma tls_load_cert_keeps:
  assumes "tls_load_cert L opts cap cf = Inr cf'"
  shows "t_min_tls12 cf' = t_min_tls12 cf" and "t_authority cf' = t_authority cf"
  using assms by (auto simp: tls_load_cert_def split: if_splits option.splits)

lemma tls_load_cert_both:
  assumes "tls_load_cert L opts cap cf = Inr cf'" and "t_cert cf = None"
  shows "(o_cert opts = None \<longleftrightarrow> o_key opts = None) \<and>
     t_cert cf' = (case o_cert opts of None \<Rightarrow> None | Some c \<Rightarrow> Some (c, the (o_key opts)))"
  using assms by (auto simp: tls_load_cert_def split: if_splits option.splits)

lemma tls_set_host_keeps:
  assumes "tls_set_host L opts cap host cf = Inr cf'"
  shows "t_min_tls12 cf' = t_min_tls12 cf" and "t_authority cf' = t_authority cf"
    and "t_cert cf' = t_cert cf" and "t_sni cf' = Some host"
    and "\<not> o_insecure opts \<Longrightarrow> t_check_host cf' = Some host \<and> t_verify_peer cf'"
  using assms by (auto simp: tls_set_host_def Let_def split: if_splits)

lemma tls_connect_asked:
  assumes "tls_connect L cap fd cf = Inr cf'"
  shows "cf' = cf\<lparr>t_fd := Some fd\<rparr> \<and> a_connect L cf'"
  using assms by (auto simp: tls_connect_def Let_def split: if_splits)

lemma coco_client_tls_open_Opened:
  assumes "coco_client_tls_open L fd host opts cap = Opened cf log"
  obtains cf1 cf2 cf3 where
    "tls_load_authority L opts cap (conf0\<lparr>t_min_tls12 := True\<rparr>) = Inr cf1"
    "tls_load_cert L opts cap cf1 = Inr cf2"
    "tls_set_host L opts cap host cf2 = Inr cf3"
    "tls_connect L cap fd cf3 = Inr cf"
    "log = [Made R_handle, Made R_ctx, Made R_ssl]"
  using assms
  by (auto simp: coco_client_tls_open_def split: if_splits sum.splits)

text \<open>Which resources a log leaves held.\<close>

fun held_after :: "res_event list \<Rightarrow> resource list" where
  "held_after [] = []"
| "held_after (Made r # es) = r # held_after es"
| "held_after (Freed r # es) = held_after es"

fun freed_in :: "res_event list \<Rightarrow> resource list" where
  "freed_in [] = []"
| "freed_in (Made r # es) = freed_in es"
| "freed_in (Freed r # es) = r # freed_in es"

end
