(* ===== verification/Zg_State.thy ===== *)
theory Zg_State
  imports Byte_Order Tls_Client
begin

text \<open>
  The state the binary client works on (client/zigurat.c): the connection \<open>struct zg_conn\<close>,
  the process-wide TLS setting, the calling thread's list of embedded sessions, and the
  environment: what the kernel, the lock file and the TLS library answer next, as lists of
  events consumed in order, and what the socket has accepted so far. The embedded engine
  (embed/embed.o, reached through weak symbols) is the record \<open>engine\<close> of its entry points
  over a state of its own, an argument of the calls that reach it.
\<close>

section \<open>Constants\<close>

definition ZG_MAX_STRING :: nat where "ZG_MAX_STRING = 255"
definition ZG_MAX_TEXT :: nat where "ZG_MAX_TEXT = 65535"
definition ZG_OUT_SIZE :: nat where "ZG_OUT_SIZE = 1024"
definition ZG_IN_SIZE :: nat where "ZG_IN_SIZE = 8192"

definition TDB_IS_NULL :: byte where "TDB_IS_NULL = 0x80"
definition TDB_SCALE_MASK :: byte where "TDB_SCALE_MASK = 0x60"
definition TDB_SCALE_ATOM :: byte where "TDB_SCALE_ATOM = 0x00"
definition TDB_SCALE_BYTE :: byte where "TDB_SCALE_BYTE = 0x20"
definition TDB_SCALE_WORD :: byte where "TDB_SCALE_WORD = 0x40"
definition TDB_SCALE_DWRD :: byte where "TDB_SCALE_DWRD = 0x60"
definition TDB_TYPE_MASK :: byte where "TDB_TYPE_MASK = 0x07"
definition TDB_BOOL :: byte where "TDB_BOOL = 0x09"
definition TDB_INT :: byte where "TDB_INT = 0x0B"
definition TDB_LONG :: byte where "TDB_LONG = 0x0C"
definition TDB_DOUBLE :: byte where "TDB_DOUBLE = 0x1C"
definition TDB_STRING :: byte where "TDB_STRING = 0x29"
definition TDB_TEXT :: byte where "TDB_TEXT = 0x49"

lemmas tdb_defs = TDB_IS_NULL_def TDB_SCALE_MASK_def TDB_SCALE_ATOM_def TDB_SCALE_BYTE_def
  TDB_SCALE_WORD_def TDB_SCALE_DWRD_def TDB_TYPE_MASK_def TDB_BOOL_def TDB_INT_def
  TDB_LONG_def TDB_DOUBLE_def TDB_STRING_def TDB_TEXT_def

section \<open>The environment\<close>

text \<open>
  \<open>recv\<close> answers bytes (none: the end of the stream) or an errno; with no event left it
  waits. \<open>send\<close> accepts up to so many bytes or answers an errno; with no event left it
  accepts everything. \<open>flock(LOCK_EX | LOCK_NB)\<close> takes the lock or answers an errno; with no
  event left it takes it.
\<close>

datatype recv_ev = RData "byte list" | RErr errno
datatype send_ev = SOk nat | SErr errno
datatype flock_ev = FGot | FErr errno

text \<open>One address of a dial: the descriptor \<open>socket\<close> gives, whether \<open>connect\<close> succeeds, the
  errno after the attempt, and what the connected socket then answers.\<close>

record addr_try =
  ad_fd :: int
  ad_connects :: bool
  ad_errno :: errno
  ad_recv :: "recv_ev list"
  ad_send :: "send_ev list"
  ad_sslr :: "ssl_rev list"
  ad_sslw :: "ssl_wev list"

datatype dial_ev = No_address string | Addresses "addr_try list" ossl

text \<open>The entry points of the embedded engine; \<open>ce_linked\<close> is whether the build carries it.\<close>

record 'e engine =
  ce_linked :: bool
  ce_page_size :: "'e \<Rightarrow> int"
  ce_engine_open :: "string \<Rightarrow> 'e \<Rightarrow> string option \<times> 'e"
  ce_engine_close :: "'e \<Rightarrow> 'e"
  ce_session_new :: "'e \<Rightarrow> nat option \<times> 'e"
  ce_session_free :: "nat \<Rightarrow> 'e \<Rightarrow> 'e"
  ce_error :: "nat option \<Rightarrow> 'e \<Rightarrow> string"
  ce_call :: "nat \<Rightarrow> string \<Rightarrow> 'e \<Rightarrow> bool \<times> 'e"
  ce_write_num :: "nat \<Rightarrow> byte \<Rightarrow> 64 word \<Rightarrow> 'e \<Rightarrow> bool \<times> 'e"
  ce_write_str :: "nat \<Rightarrow> byte \<Rightarrow> string \<Rightarrow> 'e \<Rightarrow> bool \<times> 'e"
  ce_write_dvector :: "nat \<Rightarrow> 64 word list \<Rightarrow> 'e \<Rightarrow> bool \<times> 'e"
  ce_read_dvector :: "nat \<Rightarrow> nat \<Rightarrow> 'e \<Rightarrow> 64 word list option \<times> 'e"
  ce_result :: "nat \<Rightarrow> 'e \<Rightarrow> int option \<times> 'e"
  ce_columns :: "nat \<Rightarrow> nat \<Rightarrow> 'e \<Rightarrow> byte list option \<times> 'e"
  ce_read_num :: "nat \<Rightarrow> 'e \<Rightarrow> 64 word option \<times> 'e"
  ce_read_str :: "nat \<Rightarrow> nat \<Rightarrow> 'e \<Rightarrow> byte list option \<times> 'e"
  ce_read_str_alloc :: "nat \<Rightarrow> 'e \<Rightarrow> byte list option \<times> 'e"
  ce_skip :: "nat \<Rightarrow> 'e \<Rightarrow> bool \<times> 'e"
  ce_commit :: "nat \<Rightarrow> 'e \<Rightarrow> bool \<times> 'e"
  ce_rollback :: "nat \<Rightarrow> 'e \<Rightarrow> bool \<times> 'e"
  ce_isolate :: "nat \<Rightarrow> nat \<Rightarrow> 'e \<Rightarrow> bool \<times> 'e"
  ce_reset :: "nat \<Rightarrow> 'e \<Rightarrow> bool \<times> 'e"

section \<open>The state\<close>

text \<open>
  \<open>w_\<close>: the environment; \<open>t_\<close>: the calling thread; \<open>g_\<close>: process-wide; \<open>c_\<close>: the fields of
  \<open>struct zg_conn\<close>. \<open>c_out\<close> and \<open>c_in\<close> are the filled parts of the two buffers, so \<open>nout\<close> and
  \<open>nin\<close> are their lengths; \<open>c_tls\<close> is the TLS handle with the \<open>why\<close> text it keeps;
  \<open>c_id\<close> stands for the address of the connection. \<open>w_locked\<close> is the kernel's side of the turn: whether the exclusive
  \<open>flock\<close> on the file of turns is with the open file behind \<open>c_lockfd\<close>; \<open>w_slept\<close> is how many microseconds the process has
  spent in \<open>usleep\<close>.
\<close>

record 'e zsys =
  w_big :: bool
  w_errno :: errno
  w_recv :: "recv_ev list"
  w_send :: "send_ev list"
  w_sslr :: "ssl_rev list"
  w_sslw :: "ssl_wev list"
  w_sent :: "byte list"
  w_flock :: "flock_ev list"
  w_locked :: bool
  w_slept :: nat
  w_dials :: "dial_ev list"
  w_mallocs :: "bool list"
  w_closed :: "int list"
  w_eng :: 'e
  t_self :: nat
  t_slots :: "(nat \<times> nat) list"
  t_key :: "(nat \<times> nat) list"
  g_tls :: coco_tls_options
  g_tls_on :: bool
  c_id :: nat
  c_fd :: int
  c_tls :: "string option"
  c_embed :: bool
  c_owner :: nat
  c_tid :: "64 word"
  c_err :: string
  c_lockfd :: int
  c_held :: bool
  c_lockwait :: int
  c_out :: "byte list"
  c_in :: "byte list"
  c_pin :: nat

type_synonym ('e, 'a) zact = "('e zsys, 'a) act"

section \<open>Errors\<close>

text \<open>\<open>say\<close> and \<open>say2\<close> leave a message in the 512 bytes of \<open>err\<close> and answer 0.\<close>

definition say :: "string \<Rightarrow> ('e, 'a) zact" where
  "say what s = Zero (s\<lparr>c_err := snprintf_s 512 what\<rparr>)"

definition say2 :: "string \<Rightarrow> string \<Rightarrow> ('e, 'a) zact" where
  "say2 what detail s = Zero (s\<lparr>c_err := snprintf_s 512 (what @ '': '' @ cstr detail)\<rparr>)"

text \<open>The questions a caller asks a handle; \<open>None\<close> is the null handle.\<close>

definition zg_error :: "'e zsys option \<Rightarrow> string" where
  "zg_error c = (case c of None \<Rightarrow> ''no connection'' | Some s \<Rightarrow> c_err s)"

definition zg_is_open :: "'e zsys option \<Rightarrow> bool" where
  "zg_is_open c = (case c of None \<Rightarrow> False | Some s \<Rightarrow> c_embed s \<or> c_fd s \<ge> 0)"

definition zg_transaction_id :: "'e zsys option \<Rightarrow> 64 word" where
  "zg_transaction_id c = (case c of None \<Rightarrow> 0 | Some s \<Rightarrow> c_tid s)"

definition zg_embedded :: "'e zsys option \<Rightarrow> bool" where
  "zg_embedded c = (case c of None \<Rightarrow> False | Some s \<Rightarrow> c_embed s)"

definition zg_owns :: "'e zsys option \<Rightarrow> bool" where
  "zg_owns c = (case c of None \<Rightarrow> True | Some s \<Rightarrow> \<not> c_embed s \<or> c_owner s = t_self s)"

definition zg_page_size :: "'e engine \<Rightarrow> 'e zsys option \<Rightarrow> int" where
  "zg_page_size E c =
     (case c of None \<Rightarrow> 0
      | Some s \<Rightarrow> if \<not> c_embed s then 0 else if \<not> ce_linked E then 0 else ce_page_size E (w_eng s))"

definition zg_tls_configure_flat ::
    "string option \<Rightarrow> string option \<Rightarrow> string option \<Rightarrow> string option \<Rightarrow> string option \<Rightarrow> bool \<Rightarrow>
     'e zsys \<Rightarrow> 'e zsys" where
  "zg_tls_configure_flat cacert capath cert key key_pass insecure s =
     s\<lparr>g_tls := \<lparr>o_cacert = cacert, o_capath = capath, o_cert = cert, o_key = key,
          o_key_pass = key_pass, o_insecure = insecure\<rparr>, g_tls_on := True\<rparr>"

section \<open>Frames\<close>

lemma keeps_say: "(\<And>s m. P s \<Longrightarrow> P (s\<lparr>c_err := m\<rparr>)) \<Longrightarrow> keeps P (say what)"
  by (simp add: keeps_def say_def)

lemma keeps_say2: "(\<And>s m. P s \<Longrightarrow> P (s\<lparr>c_err := m\<rparr>)) \<Longrightarrow> keeps P (say2 what detail)"
  by (simp add: keeps_def say2_def)

lemma say_not_One [simp]: "say w s \<noteq> One v t" "say w s \<noteq> Waits t"
  by (simp_all add: say_def)

lemma say2_not_One [simp]: "say2 w d s \<noteq> One v t" "say2 w d s \<noteq> Waits t"
  by (simp_all add: say2_def)

end
