(* ===== verification/Zg_Turn.thy ===== *)
theory Zg_Turn
  imports Zg_State
begin

text \<open>
  Taking turns (client/zigurat.c): the processes on one machine that share a store take an
  \<open>flock\<close> on one file before they speak to the server. Modelled are the bounded poll
  \<open>take_turn\<close>, \<open>give_turn\<close> and \<open>zg_serialise\<close>, each with what it asks of the kernel: the lock and the sleep.
\<close>

section \<open>What is asked of the kernel\<close>

text \<open>\<open>flock(fd, LOCK_EX | LOCK_NB)\<close>, with the answers in \<open>w_flock\<close>; \<open>flock(fd, LOCK_UN)\<close>; \<open>usleep\<close>. Closing the descriptor
  releases the lock, too.\<close>

definition flock_ex :: "'e zsys \<Rightarrow> errno option \<times> 'e zsys" where
  "flock_ex s =
     (case w_flock s of
        [] \<Rightarrow> (None, s\<lparr>w_locked := True\<rparr>)
      | FGot # r \<Rightarrow> (None, s\<lparr>w_flock := r, w_locked := True\<rparr>)
      | FErr e # r \<Rightarrow> (Some e, s\<lparr>w_flock := r, w_errno := e\<rparr>))"

definition flock_un :: "'e zsys \<Rightarrow> 'e zsys" where
  "flock_un s = s\<lparr>w_locked := False\<rparr>"

definition usleep :: "nat \<Rightarrow> 'e zsys \<Rightarrow> 'e zsys" where
  "usleep us s = s\<lparr>w_slept := w_slept s + us\<rparr>"

definition close_lockfd :: "'e zsys \<Rightarrow> 'e zsys" where
  "close_lockfd s = s\<lparr>w_closed := c_lockfd s # w_closed s, w_locked := False, c_lockfd := -1\<rparr>"

declare flock_un_def [simp]

lemma flock_ex_asked: "flock_ex s = (Some e, t) \<Longrightarrow> length (w_flock t) < length (w_flock s)"
  by (auto simp: flock_ex_def split: list.splits flock_ev.splits)

section \<open>The operations\<close>

function take_turn_poll :: "int \<Rightarrow> ('e, unit) zact" where
  "take_turn_poll waited_ms s =
     (case flock_ex s of
        (None, t) \<Rightarrow> One () (t\<lparr>c_held := True\<rparr>)
      | (Some e, t) \<Rightarrow>
          if e \<noteq> E_AGAIN \<and> e \<noteq> E_INTR then say2 ''cannot take the turn'' (strerror e) t
          else if c_lockwait t > 0 \<and> waited_ms \<ge> c_int (c_lockwait t * 1000)
          then say ''timed out waiting for another cocolog process'' t
          else take_turn_poll (c_int (waited_ms + 2)) (usleep 2000 t))"
  by pat_completeness auto
termination
  by (relation "measure (\<lambda>(w, s). length (w_flock s))") (auto simp: usleep_def dest: flock_ex_asked [OF sym])

declare take_turn_poll.simps [simp del]

definition take_turn :: "('e, unit) zact" where
  "take_turn s = (if c_lockfd s < 0 \<or> c_held s then One () s else take_turn_poll 0 s)"

definition give_turn :: "'e zsys \<Rightarrow> 'e zsys" where
  "give_turn s = (if c_lockfd s \<ge> 0 \<and> c_held s then (flock_un s)\<lparr>c_held := False\<rparr> else s)"

text \<open>\<open>answer\<close> is what \<open>open(path, O_RDWR | O_CREAT, 0666)\<close> answers.\<close>

definition zg_serialise :: "errno + int \<Rightarrow> string option \<Rightarrow> int \<Rightarrow> ('e, unit) zact" where
  "zg_serialise answer path wait_seconds s =
     (if c_embed s then One () s
      else let s = (if c_lockfd s \<ge> 0 then close_lockfd (give_turn s) else s)
           in if path = None \<or> path = Some '''' then One () s
              else case answer of
                Inl e \<Rightarrow> say2 ''cannot open the turn file'' (strerror e) s
              | Inr fd \<Rightarrow> One () (s\<lparr>c_lockfd := fd, c_lockwait := wait_seconds\<rparr>))"

section \<open>What a poll does\<close>

text \<open>One try, by what the lock answers.\<close>

lemma take_turn_poll_cases:
  "take_turn_poll w s =
     (case w_flock s of
        [] \<Rightarrow> One () (s\<lparr>w_locked := True, c_held := True\<rparr>)
      | FGot # r \<Rightarrow> One () (s\<lparr>w_flock := r, w_locked := True, c_held := True\<rparr>)
      | FErr e # r \<Rightarrow>
          (if e \<noteq> E_AGAIN \<and> e \<noteq> E_INTR then say2 ''cannot take the turn'' (strerror e) (s\<lparr>w_flock := r, w_errno := e\<rparr>)
           else if c_lockwait s > 0 \<and> w \<ge> c_int (c_lockwait s * 1000)
           then say ''timed out waiting for another cocolog process'' (s\<lparr>w_flock := r, w_errno := e\<rparr>)
           else take_turn_poll (c_int (w + 2)) (s\<lparr>w_flock := r, w_errno := e, w_slept := w_slept s + 2000\<rparr>)))"
  by (subst take_turn_poll.simps) (auto simp: flock_ex_def usleep_def split: list.split flock_ev.split)

lemma take_turn_poll_induct [case_names free got refused late again]:
  assumes "\<And>w s. w_flock s = [] \<Longrightarrow> P w s (One () (s\<lparr>w_locked := True, c_held := True\<rparr>))"
    and "\<And>w s r. w_flock s = FGot # r \<Longrightarrow> P w s (One () (s\<lparr>w_flock := r, w_locked := True, c_held := True\<rparr>))"
    and "\<And>w s e r. w_flock s = FErr e # r \<Longrightarrow> e \<noteq> E_AGAIN \<and> e \<noteq> E_INTR \<Longrightarrow>
      P w s (say2 ''cannot take the turn'' (strerror e) (s\<lparr>w_flock := r, w_errno := e\<rparr>))"
    and "\<And>w s e r. w_flock s = FErr e # r \<Longrightarrow> e = E_AGAIN \<or> e = E_INTR \<Longrightarrow> c_lockwait s > 0 \<Longrightarrow> w \<ge> c_int (c_lockwait s * 1000) \<Longrightarrow>
      P w s (say ''timed out waiting for another cocolog process'' (s\<lparr>w_flock := r, w_errno := e\<rparr>))"
    and "\<And>w s e r. w_flock s = FErr e # r \<Longrightarrow> e = E_AGAIN \<or> e = E_INTR \<Longrightarrow> \<not> (c_lockwait s > 0 \<and> w \<ge> c_int (c_lockwait s * 1000)) \<Longrightarrow>
      P (c_int (w + 2)) (s\<lparr>w_flock := r, w_errno := e, w_slept := w_slept s + 2000\<rparr>)
        (take_turn_poll (c_int (w + 2)) (s\<lparr>w_flock := r, w_errno := e, w_slept := w_slept s + 2000\<rparr>)) \<Longrightarrow>
      P w s (take_turn_poll (c_int (w + 2)) (s\<lparr>w_flock := r, w_errno := e, w_slept := w_slept s + 2000\<rparr>))"
  shows "P w s (take_turn_poll w s)"
proof (induction "length (w_flock s)" arbitrary: w s)
  case 0
  then show ?case using assms(1) by (simp add: take_turn_poll_cases [of w s])
next
  case (Suc n)
  then obtain ev r where r: "w_flock s = ev # r" "n = length r" by (cases "w_flock s") auto
  show ?case
  proof (cases ev)
    case FGot
    then show ?thesis using r assms(2) by (simp add: take_turn_poll_cases [of w s])
  next
    case (FErr e)
    then show ?thesis using r assms(3-5) Suc(1) [of "s\<lparr>w_flock := r, w_errno := e, w_slept := w_slept s + 2000\<rparr>" "c_int (w + 2)"]
      by (auto simp: take_turn_poll_cases [of w s])
  qed
qed

text \<open>A poll changes nothing but the turn, the message, the errno, the answers and the sleep.\<close>

definition unturned :: "'e zsys \<Rightarrow> 'e zsys" where
  "unturned s = s\<lparr>w_flock := [], w_locked := False, w_slept := 0, w_errno := E_NONE, c_err := '''', c_held := False\<rparr>"

lemma take_turn_poll_frame: "unturned (final (take_turn_poll w s)) = unturned s"
  by (induction w s rule: take_turn_poll_induct) (simp_all add: unturned_def say_def say2_def)

lemma take_turn_frame: "unturned (final (take_turn s)) = unturned s"
  by (simp add: take_turn_def take_turn_poll_frame)

lemma take_turn_poll_One: "take_turn_poll w s = One v t \<Longrightarrow> c_held t"
  by (induction w s rule: take_turn_poll_induct) (auto simp: say_def say2_def)

lemma take_turn_poll_returns: "take_turn_poll w s \<noteq> Waits t"
  by (induction w s rule: take_turn_poll_induct) (auto simp: say_def say2_def)

lemma give_turn_idem [simp]: "give_turn (give_turn s) = give_turn s"
  by (simp add: give_turn_def flock_un_def)

lemma give_turn_released: "c_lockfd s \<ge> 0 \<Longrightarrow> \<not> c_held (give_turn s)"
  by (simp add: give_turn_def)

lemma give_turn_only: "give_turn s = s\<lparr>c_held := c_held (give_turn s), w_locked := w_locked (give_turn s)\<rparr>"
  by (simp add: give_turn_def flock_un_def)

section \<open>The wait is bounded\<close>

text \<open>Against a lock that stays busy, a connection with a bound \<open>lockwait\<close> gives up after the
  poll that finds \<open>1000 * lockwait\<close> milliseconds gone by, two at a time.\<close>

lemma take_turn_poll_busy:
  assumes "c_lockwait s > 0" and "c_lockwait s * 1000 < 2 ^ 31" and "w_flock s = replicate (Suc m) (FErr E_AGAIN) @ rest"
    and "0 \<le> w" and "w + 2 * int m = c_lockwait s * 1000"
  shows "take_turn_poll w s =
     Zero (s\<lparr>w_flock := rest, w_errno := E_AGAIN, w_slept := w_slept s + 2000 * m,
       c_err := ''timed out waiting for another cocolog process''\<rparr>)"
  using assms
proof (induction m arbitrary: w s)
  case 0
  then show ?case
    by (simp add: take_turn_poll_cases [of "c_lockwait s * 1000" s] c_int_id say_def snprintf_s_def cstr_def)
next
  case (Suc m)
  let ?t = "s\<lparr>w_flock := replicate (Suc m) (FErr E_AGAIN) @ rest, w_errno := E_AGAIN, w_slept := w_slept s + 2000\<rparr>"
  have "take_turn_poll w s = take_turn_poll (w + 2) ?t"
    using Suc.prems by (simp add: take_turn_poll_cases [of w s] c_int_id)
  also have "\<dots> = Zero (?t\<lparr>w_flock := rest, w_errno := E_AGAIN, w_slept := w_slept ?t + 2000 * m,
       c_err := ''timed out waiting for another cocolog process''\<rparr>)"
    using Suc.prems by (intro Suc.IH) simp_all
  finally show ?case by simp
qed

section \<open>The turn and the lock\<close>

text \<open>A connection that believes to have the turn has the lock of the kernel.\<close>

definition turn_backed :: "'e zsys \<Rightarrow> bool" where
  "turn_backed s \<longleftrightarrow> (c_held s \<longrightarrow> c_lockfd s \<ge> 0 \<and> w_locked s)"

lemma take_turn_poll_backed: "c_lockfd s \<ge> 0 \<Longrightarrow> turn_backed s \<Longrightarrow> turn_backed (final (take_turn_poll w s))"
  by (induction w s rule: take_turn_poll_induct) (simp_all add: turn_backed_def say_def say2_def)

lemma take_turn_backed: "turn_backed s \<Longrightarrow> turn_backed (final (take_turn s))"
  by (simp add: take_turn_def take_turn_poll_backed)

lemma give_turn_backed: "turn_backed s \<Longrightarrow> turn_backed (give_turn s)"
  by (simp add: give_turn_def turn_backed_def)

lemma zg_serialise_backed: "turn_backed s \<Longrightarrow> turn_backed (final (zg_serialise answer path wait s))"
  by (auto simp: turn_backed_def zg_serialise_def Let_def give_turn_def close_lockfd_def say2_def split: sum.splits)

end
