(* ===== verification/Zg_Socket.thy ===== *)
theory Zg_Socket
  imports Zg_Turn
begin

text \<open>
  The socket layer of client/zigurat.c: the read-ahead buffer and the held-back request.
  \<open>rd\<close> reads exactly \<open>n\<close> bytes whatever way the stream is cut up, \<open>wr\<close> gathers a request and
  \<open>flush_out\<close>/\<open>wr_now\<close> put it on the wire, \<open>lost\<close> ends a connection whose transfer failed.
\<close>

section \<open>The transport\<close>

text \<open>\<open>recv(fd, in, cap, 0)\<close>: the count it answers, the bytes, the state; \<open>None\<close> while it waits.
  More bytes than the buffer holds stay in the kernel.\<close>

definition os_recv :: "nat \<Rightarrow> 'e zsys \<Rightarrow> (int \<times> byte list \<times> 'e zsys) option" where
  "os_recv cap s =
     (case w_recv s of
        [] \<Rightarrow> None
      | RData bs # r \<Rightarrow>
          Some (if length bs \<le> cap then (int (length bs), bs, s\<lparr>w_recv := r\<rparr>)
                else (int cap, take cap bs, s\<lparr>w_recv := RData (drop cap bs) # r\<rparr>))
      | RErr e # r \<Rightarrow> Some (-1, [], s\<lparr>w_recv := r, w_errno := e\<rparr>))"

text \<open>\<open>coco_client_tls_recv\<close>: 0 for every stop, with the reason noted in the handle.\<close>

definition coco_client_tls_recv :: "nat \<Rightarrow> 'e zsys \<Rightarrow> (int \<times> byte list \<times> 'e zsys) option" where
  "coco_client_tls_recv cap s =
     (case w_sslr s of
        [] \<Rightarrow> None
      | SslRead b bs # r \<Rightarrow>
          Some (if length (b # bs) \<le> cap then (int (length (b # bs)), b # bs, s\<lparr>w_sslr := r\<rparr>)
                else (int cap, take cap (b # bs),
                      s\<lparr>w_sslr := SslRead (hd (drop cap (b # bs))) (tl (drop cap (b # bs))) # r\<rparr>))
      | SslRStop e q en # r \<Rightarrow>
          Some (0, [], s\<lparr>w_sslr := r, w_errno := en, c_tls := Some (tls_note e q en)\<rparr>))"

definition transport_recv :: "nat \<Rightarrow> 'e zsys \<Rightarrow> (int \<times> byte list \<times> 'e zsys) option" where
  "transport_recv cap s = (if c_tls s \<noteq> None then coco_client_tls_recv cap s else os_recv cap s)"

text \<open>\<open>send\<close> and \<open>coco_client_tls_send\<close> on a piece that is not empty: how many bytes went.\<close>

definition os_send :: "byte list \<Rightarrow> 'e zsys \<Rightarrow> int \<times> 'e zsys" where
  "os_send bs s =
     (case w_send s of
        [] \<Rightarrow> (int (length bs), s\<lparr>w_sent := w_sent s @ bs\<rparr>)
      | SOk k # r \<Rightarrow> (int (min k (length bs)), s\<lparr>w_send := r, w_sent := w_sent s @ take k bs\<rparr>)
      | SErr e # r \<Rightarrow> (-1, s\<lparr>w_send := r, w_errno := e\<rparr>))"

definition coco_client_tls_send :: "byte list \<Rightarrow> 'e zsys \<Rightarrow> int \<times> 'e zsys" where
  "coco_client_tls_send bs s =
     (case w_sslw s of
        [] \<Rightarrow> (int (length bs), s\<lparr>w_sent := w_sent s @ bs\<rparr>)
      | SslWrote k # r \<Rightarrow>
          (int (min (Suc k) (length bs)), s\<lparr>w_sslw := r, w_sent := w_sent s @ take (Suc k) bs\<rparr>)
      | SslWStop e q en # r \<Rightarrow>
          (-1, s\<lparr>w_sslw := r, w_errno := en, c_tls := Some (tls_note e q en)\<rparr>))"

definition transport_send :: "byte list \<Rightarrow> 'e zsys \<Rightarrow> int \<times> 'e zsys" where
  "transport_send bs s = (if c_tls s \<noteq> None then coco_client_tls_send bs s else os_send bs s)"

section \<open>Losing a connection\<close>

definition close_fd :: "'e zsys \<Rightarrow> 'e zsys" where
  "close_fd s = (if c_fd s \<ge> 0 then s\<lparr>w_closed := c_fd s # w_closed s, c_fd := -1\<rparr> else s)"

definition lost :: "string \<Rightarrow> string option \<Rightarrow> ('e, 'a) zact" where
  "lost what detail s =
     (let t = give_turn ((close_fd s)\<lparr>c_in := [], c_pin := 0\<rparr>)
      in case detail of Some d \<Rightarrow> say2 what d t | None \<Rightarrow> say what t)"

text \<open>Why a read or a write stopped, in the words of whichever layer knows.\<close>

definition why :: "'e zsys \<Rightarrow> string" where
  "why s = (case coco_client_tls_why (c_tls s) 256 of Some w \<Rightarrow> w | None \<Rightarrow> strerror (w_errno s))"

section \<open>Writing\<close>

function wr_now_loop :: "byte list \<Rightarrow> ('e, unit) zact" where
  "wr_now_loop bs s =
     (if bs = [] then One () s
      else let (k, t) = transport_send bs s
           in if k \<le> 0
              then if k < 0 \<and> w_errno t = E_INTR
                   then wr_now_loop bs t
                   else lost ''write failed'' (Some (why t)) t
              else wr_now_loop (drop (nat k) bs) t)"
  by pat_completeness auto
termination
  by (relation "measures [\<lambda>(bs, s). length (w_send s) + length (w_sslw s), \<lambda>(bs, s). length bs]")
    (auto simp: transport_send_def os_send_def coco_client_tls_send_def
      split: if_splits list.splits send_ev.splits ssl_wev.splits)

declare wr_now_loop.simps [simp del]

definition wr_now :: "byte list \<Rightarrow> ('e, unit) zact" where
  "wr_now bs s = (if c_fd s < 0 then say ''the connection is closed'' s else wr_now_loop bs s)"

text \<open>The request is cleared before it is sent: a flush that fails ends the connection, and its
  bytes must not go out a second time.\<close>

definition flush_out :: "('e, unit) zact" where
  "flush_out s = (if c_out s = [] then One () s else wr_now (c_out s) (s\<lparr>c_out := []\<rparr>))"

definition wr :: "byte list \<Rightarrow> ('e, unit) zact" where
  "wr bs s =
     (if c_fd s < 0 then say ''the connection is closed'' s
      else if length bs \<ge> ZG_OUT_SIZE then andthen flush_out (\<lambda>_. wr_now bs) s
      else andthen (if length (c_out s) + length bs > ZG_OUT_SIZE then flush_out else ret ())
             (\<lambda>_. modify (\<lambda>t. t\<lparr>c_out := c_out t @ bs\<rparr>)) s)"

section \<open>Reading\<close>

text \<open>What the transport still has to say, in events and bytes: each \<open>recv\<close> uses some of it up.\<close>

fun recv_weight :: "recv_ev list \<Rightarrow> nat" where
  "recv_weight [] = 0"
| "recv_weight (RData bs # r) = Suc (length bs + recv_weight r)"
| "recv_weight (RErr e # r) = Suc (recv_weight r)"

fun sslr_weight :: "ssl_rev list \<Rightarrow> nat" where
  "sslr_weight [] = 0"
| "sslr_weight (SslRead b bs # r) = Suc (Suc (length bs) + sslr_weight r)"
| "sslr_weight (SslRStop e q en # r) = Suc (sslr_weight r)"

definition in_weight :: "'e zsys \<Rightarrow> nat" where
  "in_weight s = recv_weight (w_recv s) + sslr_weight (w_sslr s)"

lemma give_turn_in [simp]:
  "w_recv (give_turn s) = w_recv s" "w_sslr (give_turn s) = w_sslr s"
  "c_in (give_turn s) = c_in s" "c_pin (give_turn s) = c_pin s" "c_fd (give_turn s) = c_fd s"
  "c_out (give_turn s) = c_out s" "c_tls (give_turn s) = c_tls s"
  "w_sent (give_turn s) = w_sent s" "w_send (give_turn s) = w_send s" "w_sslw (give_turn s) = w_sslw s"
  by (simp_all add: give_turn_def)

lemma close_fd_in [simp]:
  "w_recv (close_fd s) = w_recv s" "w_sslr (close_fd s) = w_sslr s"
  "c_out (close_fd s) = c_out s" "c_tls (close_fd s) = c_tls s"
  "w_sent (close_fd s) = w_sent s" "w_send (close_fd s) = w_send s" "w_sslw (close_fd s) = w_sslw s"
  by (simp_all add: close_fd_def)

lemma lost_Zero: "\<exists>t. lost w d s = Zero t"
  by (auto simp: lost_def Let_def say_def say2_def split: option.split)

lemma lost_final [simp]:
  "w_recv (final (lost w d s)) = w_recv s" "w_sslr (final (lost w d s)) = w_sslr s"
  "w_sent (final (lost w d s)) = w_sent s" "c_out (final (lost w d s)) = c_out s"
  "c_in (final (lost w d s)) = []" "c_pin (final (lost w d s)) = 0"
  by (auto simp: lost_def Let_def say_def say2_def split: option.split)

lemma transport_send_in [simp]:
  "w_recv (snd (transport_send bs s)) = w_recv s" "w_sslr (snd (transport_send bs s)) = w_sslr s"
  "c_in (snd (transport_send bs s)) = c_in s" "c_pin (snd (transport_send bs s)) = c_pin s"
  "c_out (snd (transport_send bs s)) = c_out s"
  by (auto simp: transport_send_def os_send_def coco_client_tls_send_def
      split: list.splits send_ev.splits ssl_wev.splits)

lemma wr_now_loop_in:
  "w_recv (final (wr_now_loop bs s)) = w_recv s \<and> w_sslr (final (wr_now_loop bs s)) = w_sslr s \<and>
   c_out (final (wr_now_loop bs s)) = c_out s"
proof (induction bs s rule: wr_now_loop.induct)
  case (1 bs s)
  obtain k t where kt: "transport_send bs s = (k, t)" by fastforce
  have t: "w_recv t = w_recv s" "w_sslr t = w_sslr s" "c_out t = c_out s"
    using transport_send_in [of bs s] kt by simp_all
  show ?case
    using "1.IH" [OF _ kt [symmetric] refl] t
    by (auto simp: wr_now_loop.simps [of bs s] kt split: if_splits)
qed

lemma flush_out_in:
  "w_recv (final (flush_out s)) = w_recv s \<and> w_sslr (final (flush_out s)) = w_sslr s \<and>
   c_out (final (flush_out s)) = []"
  using wr_now_loop_in [of "c_out s" "s\<lparr>c_out := []\<rparr>"]
  by (auto simp: flush_out_def wr_now_def say_def)

lemma flush_out_in_weight: "in_weight (final (flush_out s)) = in_weight s"
  using flush_out_in [of s] by (simp add: in_weight_def)

lemma transport_recv_weight:
  "transport_recv cap s = Some (k, bs, t) \<Longrightarrow> 0 < cap \<Longrightarrow> in_weight t < in_weight s"
  by (auto simp: transport_recv_def os_recv_def coco_client_tls_recv_def in_weight_def
      split: list.splits recv_ev.splits ssl_rev.splits if_splits)

function rd_loop :: "nat \<Rightarrow> byte list \<Rightarrow> ('e, byte list) zact" where
  "rd_loop n got s =
     (if length got \<ge> n then One got s
      else if length (c_in s) - c_pin s > 0
      then (let tk = min (length (c_in s) - c_pin s) (n - length got)
            in rd_loop n (got @ take tk (drop (c_pin s) (c_in s))) (s\<lparr>c_pin := c_pin s + tk\<rparr>))
      else case flush_out s of
        Waits t \<Rightarrow> Waits t
      | Zero t \<Rightarrow> Zero t
      | One _ t0 \<Rightarrow>
         (let t = t0\<lparr>c_in := [], c_pin := 0\<rparr>
          in case transport_recv ZG_IN_SIZE t of
            None \<Rightarrow> Waits t
          | Some (k, bs, u) \<Rightarrow>
              if k \<le> 0
              then if k < 0 \<and> w_errno u = E_INTR then rd_loop n got u
                   else if k = 0 \<and> coco_client_tls_why (c_tls u) 256 = None
                   then lost ''the server closed the connection'' None u
                   else lost ''read failed'' (Some (why u)) u
              else rd_loop n got (u\<lparr>c_in := bs\<rparr>)))"
  by pat_completeness auto
termination
proof (relation "measures [\<lambda>(n, got, s). in_weight s, \<lambda>(n, got, s). n - length got]", goal_cases)
  case (3 n got s v t0 t x k y bs u)
  then show ?case
    using transport_recv_weight [of ZG_IN_SIZE t k bs u] flush_out_in_weight [of s]
    by (simp add: in_weight_def ZG_IN_SIZE_def)
next
  case (4 n got s v t0 t x k y bs u)
  then show ?case
    using transport_recv_weight [of ZG_IN_SIZE t k bs u] flush_out_in_weight [of s]
    by (simp add: in_weight_def ZG_IN_SIZE_def)
qed (auto simp: in_weight_def)

declare rd_loop.simps [simp del]

definition rd :: "nat \<Rightarrow> ('e, byte list) zact" where
  "rd n s = (if c_fd s < 0 then say ''the connection is closed'' s else rd_loop n [] s)"

text \<open>\<open>skip\<close> pours what nobody wants into a pail of 512 bytes.\<close>

function skip :: "nat \<Rightarrow> ('e, unit) zact" where
  "skip n = (if n > 0 then andthen (rd (min n 512)) (\<lambda>_. skip (n - min n 512)) else ret ())"
  by pat_completeness auto
termination
  by (relation "measure (\<lambda>n. n)") auto

declare skip.simps [simp del]

section \<open>The stream behind the buffers\<close>

text \<open>The bytes still to come in: interrupted calls aside, up to the end of the stream or the
  first failure.\<close>

fun recv_stream :: "recv_ev list \<Rightarrow> byte list" where
  "recv_stream [] = []"
| "recv_stream (RData bs # r) = (if bs = [] then [] else bs @ recv_stream r)"
| "recv_stream (RErr e # r) = (if e = E_INTR then recv_stream r else [])"

fun sslr_stream :: "ssl_rev list \<Rightarrow> byte list" where
  "sslr_stream [] = []"
| "sslr_stream (SslRead b bs # r) = (b # bs) @ sslr_stream r"
| "sslr_stream (SslRStop e q en # r) = []"

definition inbound :: "'e zsys \<Rightarrow> byte list" where
  "inbound s = drop (c_pin s) (c_in s) @
     (if c_tls s \<noteq> None then sslr_stream (w_sslr s) else recv_stream (w_recv s))"

definition emitted :: "'e zsys \<Rightarrow> byte list" where
  "emitted s = w_sent s @ c_out s"

text \<open>A line that is open and whose sending side only ever cuts a request up or is interrupted.\<close>

fun send_fine :: "send_ev \<Rightarrow> bool" where
  "send_fine (SOk k) = (k > 0)"
| "send_fine (SErr e) = (e = E_INTR)"

fun sslw_fine :: "ssl_wev \<Rightarrow> bool" where
  "sslw_fine (SslWrote k) = True"
| "sslw_fine (SslWStop e q en) = (en = E_INTR)"

definition line_ok :: "'e zsys \<Rightarrow> bool" where
  "line_ok s \<longleftrightarrow> c_fd s \<ge> 0 \<and> \<not> c_embed s \<and>
     (if c_tls s \<noteq> None then list_all sslw_fine (w_sslw s) else list_all send_fine (w_send s))"

text \<open>Everything the socket layer does not touch while the line holds.\<close>

definition still :: "'e zsys \<Rightarrow> 'e zsys" where
  "still s = s\<lparr>w_errno := E_NONE, w_recv := [], w_send := [], w_sslr := [], w_sslw := [], w_sent := [],
     c_tls := map_option (\<lambda>_. '''') (c_tls s), c_out := [], c_in := [], c_pin := 0\<rparr>"

lemma nat_1_plus_int [simp]: "nat (1 + int n) = Suc n"
  by simp

lemma transport_send_ok:
  assumes "line_ok s" and "bs \<noteq> []" and "transport_send bs s = (k, t)"
  shows "line_ok t" and "still t = still s"
    and "k < 0 \<and> w_errno t = E_INTR \<and> w_sent t = w_sent s \<or>
         0 < k \<and> nat k \<le> length bs \<and> w_sent t = w_sent s @ take (nat k) bs"
    and "c_in t = c_in s" "c_pin t = c_pin s" "c_out t = c_out s" "w_recv t = w_recv s"
      "w_sslr t = w_sslr s" "c_tls t = None \<longleftrightarrow> c_tls s = None"
  using assms
  by (auto simp: line_ok_def still_def transport_send_def os_send_def coco_client_tls_send_def min_def
      split: list.splits send_ev.splits ssl_wev.splits if_splits)

lemma wr_now_loop_ok:
  assumes "line_ok s"
  shows "\<exists>t. wr_now_loop bs s = One () t \<and> line_ok t \<and> still t = still s \<and> w_sent t = w_sent s @ bs \<and>
     c_in t = c_in s \<and> c_pin t = c_pin s \<and> c_out t = c_out s \<and> w_recv t = w_recv s \<and>
     w_sslr t = w_sslr s \<and> (c_tls t = None \<longleftrightarrow> c_tls s = None)"
  using assms
proof (induction bs s rule: wr_now_loop.induct)
  case (1 bs s)
  show ?case
  proof (cases "bs = []")
    case True
    then show ?thesis using "1.prems" by (simp add: wr_now_loop.simps [of "[]" s])
  next
    case False
    obtain k t where kt: "transport_send bs s = (k, t)" by fastforce
    note ok = transport_send_ok [OF "1.prems" False kt]
    from ok(3) show ?thesis
    proof
      assume k: "k < 0 \<and> w_errno t = E_INTR \<and> w_sent t = w_sent s"
      then have "wr_now_loop bs s = wr_now_loop bs t"
        using False kt by (simp add: wr_now_loop.simps [of bs s])
      then show ?thesis
        using "1.IH"(1) [OF False kt [symmetric] refl] k ok by auto
    next
      assume k: "0 < k \<and> nat k \<le> length bs \<and> w_sent t = w_sent s @ take (nat k) bs"
      then have "wr_now_loop bs s = wr_now_loop (drop (nat k) bs) t"
        using False kt by (simp add: wr_now_loop.simps [of bs s])
      then show ?thesis
        using "1.IH"(2) [OF False kt [symmetric] refl] k ok by (auto simp: append_assoc)
    qed
  qed
qed

lemma wr_now_loop_okE:
  assumes "line_ok s"
  obtains t where "wr_now_loop bs s = One () t" "line_ok t" "still t = still s"
      "w_sent t = w_sent s @ bs" "c_out t = c_out s" "c_in t = c_in s" "c_pin t = c_pin s"
      "inbound t = inbound s"
  using wr_now_loop_ok [OF assms, of bs] that by (auto simp: inbound_def)

lemma flush_out_ok:
  assumes "line_ok s"
  shows "\<exists>t. flush_out s = One () t \<and> line_ok t \<and> still t = still s \<and> w_sent t = emitted s \<and>
     c_out t = [] \<and> c_in t = c_in s \<and> c_pin t = c_pin s \<and> inbound t = inbound s"
proof (cases "c_out s = []")
  case True
  with assms show ?thesis by (simp add: flush_out_def emitted_def)
next
  case False
  let ?s = "s\<lparr>c_out := []\<rparr>"
  have "line_ok ?s" using assms by (simp add: line_ok_def)
  then obtain t where t: "wr_now_loop (c_out s) ?s = One () t" "line_ok t" "still t = still ?s"
      "w_sent t = w_sent ?s @ c_out s" "c_out t = c_out ?s" "c_in t = c_in ?s" "c_pin t = c_pin ?s"
      "inbound t = inbound ?s"
    by (rule wr_now_loop_okE)
  have "still ?s = still s" by (simp add: still_def)
  moreover have "flush_out s = wr_now_loop (c_out s) ?s"
    using False assms by (simp add: flush_out_def wr_now_def line_ok_def)
  moreover have "inbound t = inbound s" using t(8) by (simp add: inbound_def)
  moreover have "w_sent t = emitted s" using t(4) by (simp add: emitted_def)
  ultimately show ?thesis using t by (intro exI [of _ t]) simp
qed

lemma line_ok_out [simp]: "line_ok (s\<lparr>c_out := x\<rparr>) = line_ok s"
  by (simp add: line_ok_def)

lemma still_out [simp]: "still (s\<lparr>c_out := x\<rparr>) = still s"
  by (simp add: still_def)

lemma inbound_out [simp]: "inbound (s\<lparr>c_out := x\<rparr>) = inbound s"
  by (simp add: inbound_def)

lemma wr_ok: "talks line_ok emitted inbound still (wr bs) bs [] ()"
proof (rule talksI)
  fix s :: "'e zsys" and rest
  assume ok: "line_ok s" and pend: "inbound s = [] @ rest"
  obtain t where t: "flush_out s = One () t" "line_ok t" "still t = still s" "w_sent t = emitted s"
      "c_out t = []" "c_in t = c_in s" "c_pin t = c_pin s" "inbound t = inbound s"
    using flush_out_ok [OF ok] by blast
  have fd: "\<not> c_fd s < 0" and fdt: "\<not> c_fd t < 0" using ok t(2) by (auto simp: line_ok_def)
  consider (big) "ZG_OUT_SIZE \<le> length bs"
    | (full) "length bs < ZG_OUT_SIZE" "ZG_OUT_SIZE < length (c_out s) + length bs"
    | (room) "length bs < ZG_OUT_SIZE" "length (c_out s) + length bs \<le> ZG_OUT_SIZE"
    by linarith
  then show "\<exists>t. wr bs s = One () t \<and> line_ok t \<and> emitted t = emitted s @ bs \<and> inbound t = rest \<and>
      still t = still s"
  proof cases
    case big
    obtain u where "wr_now_loop bs t = One () u" "line_ok u" "still u = still t"
        "w_sent u = w_sent t @ bs" "c_out u = c_out t" "inbound u = inbound t"
      using t(2) by (rule wr_now_loop_okE)
    moreover have "wr bs s = wr_now_loop bs t"
      using big t(1) fd fdt by (simp add: wr_def andthen_def wr_now_def)
    ultimately show ?thesis using t pend by (intro exI [of _ u]) (simp add: emitted_def)
  next
    case full
    with t fd pend show ?thesis by (simp add: wr_def andthen_def modify_def emitted_def)
  next
    case room
    with ok fd pend show ?thesis by (simp add: wr_def andthen_def modify_def ret_def emitted_def)
  qed
qed

lemma transport_recv_ok:
  assumes "line_ok t" and "c_in t = []" and "c_pin t = 0" and "inbound t \<noteq> []"
  shows "\<exists>k bs u. transport_recv ZG_IN_SIZE t = Some (k, bs, u) \<and> line_ok u \<and> still u = still t \<and>
     emitted u = emitted t \<and> c_in u = [] \<and> c_pin u = 0 \<and>
     (k < 0 \<and> w_errno u = E_INTR \<and> inbound u = inbound t \<or>
      0 < k \<and> inbound (u\<lparr>c_in := bs\<rparr>) = inbound t)"
proof (cases "c_tls t")
  case None
  with assms obtain ev r where ev: "w_recv t = ev # r"
    by (cases "w_recv t") (auto simp: inbound_def)
  show ?thesis
    using assms None ev
    by (cases ev) (auto simp: inbound_def transport_recv_def os_recv_def line_ok_def still_def
        emitted_def ZG_IN_SIZE_def split: if_splits)
next
  case (Some w)
  with assms obtain ev r where ev: "w_sslr t = ev # r"
    by (cases "w_sslr t") (auto simp: inbound_def)
  show ?thesis
    using assms Some ev
    by (cases ev) (auto simp: inbound_def transport_recv_def coco_client_tls_recv_def line_ok_def
        still_def emitted_def ZG_IN_SIZE_def drop_Cons' take_Cons' neq_Nil_conv split: if_splits)
qed

lemma line_ok_in [simp]: "line_ok (s\<lparr>c_in := x\<rparr>) = line_ok s" "line_ok (s\<lparr>c_pin := i\<rparr>) = line_ok s"
  by (simp_all add: line_ok_def)

lemma still_in [simp]: "still (s\<lparr>c_in := x\<rparr>) = still s" "still (s\<lparr>c_pin := i\<rparr>) = still s"
  by (simp_all add: still_def)

lemma emitted_in [simp]: "emitted (s\<lparr>c_in := x\<rparr>) = emitted s" "emitted (s\<lparr>c_pin := i\<rparr>) = emitted s"
  by (simp_all add: emitted_def)

lemma inbound_emptied: "length (c_in t) \<le> c_pin t \<Longrightarrow> inbound (t\<lparr>c_in := [], c_pin := 0\<rparr>) = inbound t"
  by (simp add: inbound_def)

lemma rd_loop_ok:
  assumes "line_ok s" and "inbound s = bs @ rest" and "length got + length bs = n"
  shows "\<exists>t. rd_loop n got s = One (got @ bs) t \<and> line_ok t \<and> emitted t = emitted s \<and>
     inbound t = rest \<and> still t = still s"
  using assms
proof (induction n got s arbitrary: bs rule: rd_loop.induct)
  case (1 n got s)
  consider (complete) "n \<le> length got"
    | (buffered) "\<not> n \<le> length got" "0 < length (c_in s) - c_pin s"
    | (need) "\<not> n \<le> length got" "\<not> 0 < length (c_in s) - c_pin s"
    by linarith
  then show ?case
  proof cases
    case complete
    then have "length bs = 0" using "1.prems"(3) by linarith
    with complete "1.prems" show ?thesis by (simp add: rd_loop.simps [of n got s])
  next
    case buffered
    define tk where "tk = min (length (c_in s) - c_pin s) (n - length got)"
    let ?b = "take tk (drop (c_pin s) (c_in s))" and ?s = "s\<lparr>c_pin := c_pin s + tk\<rparr>"
    have step: "rd_loop n got s = rd_loop n (got @ ?b) ?s"
      using buffered by (simp add: rd_loop.simps [of n got s] tk_def Let_def)
    have len: "length ?b = tk" using buffered by (simp add: tk_def)
    have split: "inbound s = ?b @ inbound ?s"
      by (simp add: inbound_def add.commute flip: drop_drop)
    have "tk \<le> length bs" using "1.prems"(3) by (simp add: tk_def)
    moreover have "?b @ inbound ?s = bs @ rest" using "1.prems"(2) split by simp
    ultimately have front: "?b = take tk bs" and behind: "inbound ?s = drop tk bs @ rest"
      using len by (simp_all add: append_eq_append_conv_if)
    define bs' where "bs' = drop tk bs"
    have bs': "bs = ?b @ bs'" unfolding front bs'_def by simp
    have "inbound ?s = bs' @ rest" using behind by (simp add: bs'_def)
    moreover have "length (got @ ?b) + length bs' = n" using "1.prems"(3) bs' by (metis add.assoc length_append)
    ultimately show ?thesis
      using "1.IH"(1) [OF buffered tk_def, of bs'] "1.prems"(1) bs' step by simp
  next
    case need
    obtain t0 where t0: "flush_out s = One () t0" "line_ok t0" "still t0 = still s"
        "w_sent t0 = emitted s" "c_out t0 = []" "c_in t0 = c_in s" "c_pin t0 = c_pin s"
        "inbound t0 = inbound s"
      using flush_out_ok [OF "1.prems"(1)] by blast
    let ?t = "t0\<lparr>c_in := [], c_pin := 0\<rparr>"
    have em: "emitted ?t = emitted s" using t0(4,5) by (simp add: emitted_def)
    have inb: "inbound ?t = inbound s"
      using t0(6-8) need(2) inbound_emptied [of t0] by simp
    have ne: "inbound ?t \<noteq> []" using "1.prems"(2,3) need(1) inb by auto
    obtain k d u where u: "transport_recv ZG_IN_SIZE ?t = Some (k, d, u)" "line_ok u"
        "still u = still ?t" "emitted u = emitted ?t"
        "k < 0 \<and> w_errno u = E_INTR \<and> inbound u = inbound ?t \<or>
         0 < k \<and> inbound (u\<lparr>c_in := d\<rparr>) = inbound ?t"
      using transport_recv_ok [of ?t] t0(2) ne by auto
    from u(5) show ?thesis
    proof
      assume k: "k < 0 \<and> w_errno u = E_INTR \<and> inbound u = inbound ?t"
      then have "rd_loop n got s = rd_loop n got u"
        using need t0(1) u(1) by (simp add: rd_loop.simps [of n got s])
      then show ?thesis
        using "1.IH"(2) [OF need t0(1) refl u(1) refl refl, of bs] k u t0 em inb "1.prems" by simp
    next
      assume k: "0 < k \<and> inbound (u\<lparr>c_in := d\<rparr>) = inbound ?t"
      then have "rd_loop n got s = rd_loop n got (u\<lparr>c_in := d\<rparr>)"
        using need t0(1) u(1) by (simp add: rd_loop.simps [of n got s])
      then show ?thesis
        using "1.IH"(3) [OF need t0(1) refl u(1) refl refl, of bs] k u t0 em inb "1.prems" by simp
    qed
  qed
qed

lemma rd_ok: "length bs = n \<Longrightarrow> talks line_ok emitted inbound still (rd n) [] bs bs"
proof (rule talksI)
  fix s :: "'e zsys" and rest
  assume "length bs = n" and s: "line_ok s" "inbound s = bs @ rest"
  then have "rd n s = rd_loop n [] s" by (simp add: rd_def line_ok_def)
  then show "\<exists>t. rd n s = One bs t \<and> line_ok t \<and> emitted t = emitted s @ [] \<and> inbound t = rest \<and>
      still t = still s"
    using rd_loop_ok [OF s, of "[]" n] \<open>length bs = n\<close> by simp
qed

text \<open>The socket layer is the transport the protocol layers ask for, over plain TCP and over TLS.\<close>

interpretation wire: duplex line_ok emitted inbound still rd wr
  by unfold_locales (auto intro: rd_ok wr_ok)

lemma skip_ok:
  "length bs = n \<Longrightarrow> talks line_ok emitted inbound still (skip n :: ('e, unit) zact) [] bs ()"
proof (induction n arbitrary: bs rule: skip.induct)
  case (1 n)
  show ?case
  proof (cases "n > 0")
    case True
    let ?m = "min n 512"
    have "talks line_ok emitted inbound still (skip (n - ?m) :: ('e, unit) zact) [] (drop ?m bs) ()"
      by (rule "1.IH") (use "1.prems" True in auto)
    then have "talks line_ok emitted inbound still
        (andthen (rd ?m) (\<lambda>_. skip (n - ?m)) :: ('e, unit) zact) []
        (take ?m bs @ drop ?m bs) ()"
      by (rule wire.rd_then [rotated]) (use "1.prems" in auto)
    then show ?thesis using True by (simp add: skip.simps [of n])
  next
    case False
    with "1.prems" show ?thesis by (simp add: skip.simps [of 0] talks_ret)
  qed
qed

section \<open>When a transfer fails\<close>

text \<open>A connection that has been given up: no descriptor, nothing read ahead, no turn.\<close>

definition ended :: "'e zsys \<Rightarrow> bool" where
  "ended s \<longleftrightarrow> c_fd s < 0 \<and> c_in s = [] \<and> c_pin s = 0 \<and> \<not> (c_lockfd s \<ge> 0 \<and> c_held s)"

lemma lost_ended: "lost w d s = Zero t \<Longrightarrow> ended t"
  by (auto simp: lost_def Let_def say_def say2_def ended_def give_turn_def close_fd_def
      split: option.splits if_splits)

lemma lost_not_One [simp]: "lost w d s \<noteq> One v t" "lost w d s \<noteq> Waits t"
  by (auto simp: lost_def Let_def split: option.splits)

lemma lost_ends: "\<exists>t. lost w d s = Zero t \<and> ended t \<and> w_sent t = w_sent s"
  by (auto simp: lost_def Let_def say_def say2_def ended_def give_turn_def close_fd_def
      split: option.splits)

lemma lost_case [simp]: "case lost w d s of Waits t \<Rightarrow> P t | Zero t \<Rightarrow> ended t | One v t \<Rightarrow> Q v t"
  by (auto split: outcome.split dest: lost_ended)

lemma transport_send_sent:
  "transport_send bs s = (k, t) \<Longrightarrow> bs \<noteq> [] \<Longrightarrow>
     w_sent t = w_sent s @ (if k > 0 then take (nat k) bs else [])"
  by (auto simp: transport_send_def os_send_def coco_client_tls_send_def min_def
      split: list.splits send_ev.splits ssl_wev.splits if_splits)

text \<open>What reaches the wire is always the front of what was given, and all of it on success.\<close>

lemma wr_now_loop_sent:
  "\<exists>p. prefix p bs \<and> w_sent (final (wr_now_loop bs s)) = w_sent s @ p \<and>
     (case wr_now_loop bs s of One _ _ \<Rightarrow> p = bs | Zero t \<Rightarrow> ended t | Waits _ \<Rightarrow> False)"
proof (induction bs s rule: wr_now_loop.induct)
  case (1 bs s)
  show ?case
  proof (cases "bs = []")
    case True
    then show ?thesis by (simp add: wr_now_loop.simps [of "[]" s])
  next
    case False
    obtain k t where kt: "transport_send bs s = (k, t)" by fastforce
    note sent = transport_send_sent [OF kt False]
    consider (intr) "k < 0" "w_errno t = E_INTR" | (fail) "k \<le> 0" "\<not> (k < 0 \<and> w_errno t = E_INTR)"
      | (some) "k > 0" by linarith
    then show ?thesis
    proof cases
      case intr
      then have step: "wr_now_loop bs s = wr_now_loop bs t"
        using False kt by (simp add: wr_now_loop.simps [of bs s])
      have "w_sent t = w_sent s" using sent intr by simp
      then show ?thesis
        unfolding step using "1.IH"(1) [OF False kt [symmetric] refl] intr by simp
    next
      case fail
      have "wr_now_loop bs s = lost ''write failed'' (Some (why t)) t"
        using False kt fail by (auto simp: wr_now_loop.simps [of bs s])
      then obtain u where "wr_now_loop bs s = Zero u" "ended u" "w_sent u = w_sent t"
        using lost_ends by metis
      then show ?thesis using sent fail by (intro exI [of _ "[]"]) simp
    next
      case some
      then have step: "wr_now_loop bs s = wr_now_loop (drop (nat k) bs) t"
        using False kt by (simp add: wr_now_loop.simps [of bs s])
      obtain p where p: "prefix p (drop (nat k) bs)"
          "w_sent (final (wr_now_loop (drop (nat k) bs) t)) = w_sent t @ p"
          "case wr_now_loop (drop (nat k) bs) t of One _ _ \<Rightarrow> p = drop (nat k) bs
           | Zero t \<Rightarrow> ended t | Waits _ \<Rightarrow> False"
        using "1.IH"(2) [OF False kt [symmetric] refl] some by auto
      have "prefix (take (nat k) bs @ p) bs"
        using p(1) same_prefix_prefix [of "take (nat k) bs" p "drop (nat k) bs"] by simp
      then show ?thesis
        unfolding step using p sent some
        by (intro exI [of _ "take (nat k) bs @ p"]) (auto split: outcome.splits)
    qed
  qed
qed

lemma wr_now_loop_not_Waits [simp]: "wr_now_loop bs s \<noteq> Waits t"
  using wr_now_loop_sent [of bs s] by (auto split: outcome.splits)

lemma wr_now_loop_One: "wr_now_loop bs s = One v t \<Longrightarrow> w_sent t = w_sent s @ bs"
  using wr_now_loop_sent [of bs s] by auto

lemma wr_now_loop_Zero: "wr_now_loop bs s = Zero t \<Longrightarrow> ended t"
  using wr_now_loop_sent [of bs s] by auto

lemma flush_out_One: "flush_out s = One v t \<Longrightarrow> c_out t = [] \<and> w_sent t = emitted s"
  using flush_out_in [of s]
  by (auto simp: flush_out_def wr_now_def emitted_def say_def split: if_splits dest: wr_now_loop_One)

lemma flush_out_not_Waits [simp]: "flush_out s \<noteq> Waits t"
  by (simp add: flush_out_def wr_now_def)

lemma flush_out_Zero: "flush_out s = Zero t \<Longrightarrow> c_fd s \<ge> 0 \<Longrightarrow> ended t"
  by (auto simp: flush_out_def wr_now_def split: if_splits dest: wr_now_loop_Zero)

lemma transport_recv_out:
  "transport_recv cap s = Some (k, bs, t) \<Longrightarrow>
     c_out t = c_out s \<and> w_sent t = w_sent s \<and> c_fd t = c_fd s \<and> length bs \<le> cap \<and>
     c_in t = c_in s \<and> c_pin t = c_pin s"
  by (auto simp: transport_recv_def os_recv_def coco_client_tls_recv_def
      split: list.splits recv_ev.splits ssl_rev.splits if_splits)

lemma wr_now_loop_fd: "wr_now_loop bs s = One v t \<Longrightarrow> c_fd t = c_fd s"
proof (induction bs s rule: wr_now_loop.induct)
  case (1 bs s)
  obtain k t' where kt: "transport_send bs s = (k, t')" by fastforce
  then have "c_fd t' = c_fd s"
    by (auto simp: transport_send_def os_send_def coco_client_tls_send_def
        split: list.splits send_ev.splits ssl_wev.splits if_splits)
  with "1.IH" [OF _ kt [symmetric] refl] "1.prems" kt show ?case
    by (auto simp: wr_now_loop.simps [of bs s] split: if_splits)
qed

lemma flush_out_fd: "flush_out s = One v t \<Longrightarrow> c_fd t = c_fd s"
  by (auto simp: flush_out_def wr_now_def split: if_splits dest: wr_now_loop_fd)

text \<open>How a read ends: with exactly the bytes asked for; with the connection given up; or
  waiting, and then everything this end had to say has been said.\<close>

lemma rd_loop_ends:
  assumes "c_fd s \<ge> 0" and "length got \<le> n"
  shows "case rd_loop n got s of
      One bs t \<Rightarrow> length bs = n \<and> emitted t = emitted s \<and> c_fd t = c_fd s
    | Zero t \<Rightarrow> ended t
    | Waits t \<Rightarrow> c_out t = [] \<and> w_sent t = emitted s \<and> c_fd t = c_fd s"
  using assms
proof (induction n got s rule: rd_loop.induct)
  case (1 n got s)
  consider (complete) "n \<le> length got"
    | (buffered) "\<not> n \<le> length got" "0 < length (c_in s) - c_pin s"
    | (need) "\<not> n \<le> length got" "\<not> 0 < length (c_in s) - c_pin s"
    by linarith
  then show ?case
  proof cases
    case complete
    with "1.prems" show ?thesis by (simp add: rd_loop.simps [of n got s])
  next
    case buffered
    define tk where "tk = min (length (c_in s) - c_pin s) (n - length got)"
    have "rd_loop n got s = rd_loop n (got @ take tk (drop (c_pin s) (c_in s))) (s\<lparr>c_pin := c_pin s + tk\<rparr>)"
      using buffered by (simp add: rd_loop.simps [of n got s] tk_def Let_def)
    moreover have "length got + tk \<le> n" "tk \<le> length (c_in s) - c_pin s"
      using buffered by (simp_all add: tk_def)
    ultimately show ?thesis
      using "1.IH"(1) [OF buffered tk_def] "1.prems" by (simp add: min_absorb2 cong: outcome.case_cong)
  next
    case need
    show ?thesis
    proof (cases "flush_out s")
      case (Zero t)
      with need flush_out_Zero [OF Zero] "1.prems" show ?thesis
        by (simp add: rd_loop.simps [of n got s])
    next
      case (One v t0)
      let ?t = "t0\<lparr>c_in := [], c_pin := 0\<rparr>"
      have out: "c_out ?t = []" "w_sent ?t = emitted s" "c_fd ?t = c_fd s"
        using flush_out_One [OF One] flush_out_fd [OF One] by simp_all
      show ?thesis
      proof (cases "transport_recv ZG_IN_SIZE ?t")
        case None
        with need One out show ?thesis by (simp add: rd_loop.simps [of n got s])
      next
        case (Some r)
        then obtain k d u where r: "transport_recv ZG_IN_SIZE ?t = Some (k, d, u)"
          by (cases r) auto
        note u = transport_recv_out [OF r]
        have em: "emitted u = emitted s" using u out by (simp add: emitted_def)
        consider (intr) "k < 0" "w_errno u = E_INTR" | (fail) "k \<le> 0" "\<not> (k < 0 \<and> w_errno u = E_INTR)"
          | (some) "k > 0" by linarith
        then show ?thesis
        proof cases
          case intr
          then have "rd_loop n got s = rd_loop n got u"
            using need One r by (simp add: rd_loop.simps [of n got s])
          then show ?thesis
            using "1.IH"(2) [OF need One refl r refl refl] intr "1.prems" u out em by (simp cong: outcome.case_cong)
        next
          case fail
          then have "rd_loop n got s =
              (if k = 0 \<and> coco_client_tls_why (c_tls u) 256 = None
               then lost ''the server closed the connection'' None u
               else lost ''read failed'' (Some (why u)) u)"
            using need One r by (auto simp: rd_loop.simps [of n got s])
          then show ?thesis by (simp split: if_splits)
        next
          case some
          then have "rd_loop n got s = rd_loop n got (u\<lparr>c_in := d\<rparr>)"
            using need One r by (simp add: rd_loop.simps [of n got s])
          then show ?thesis
            using "1.IH"(3) [OF need One refl r refl refl] some "1.prems" u out em by (simp cong: outcome.case_cong)
        qed
      qed
    qed simp
  qed
qed

lemma rd_One: "rd n s = One bs t \<Longrightarrow> length bs = n \<and> emitted t = emitted s \<and> c_fd t = c_fd s"
  using rd_loop_ends [of s "[]" n] by (auto simp: rd_def split: if_splits)

lemma rd_Zero: "rd n s = Zero t \<Longrightarrow> c_fd s \<ge> 0 \<Longrightarrow> ended t"
  using rd_loop_ends [of s "[]" n] by (auto simp: rd_def split: if_splits)

lemma rd_Waits: "rd n s = Waits t \<Longrightarrow> c_out t = [] \<and> w_sent t = emitted s"
  using rd_loop_ends [of s "[]" n] by (auto simp: rd_def split: if_splits)

lemma wr_One: "wr bs s = One v t \<Longrightarrow> emitted t = emitted s @ bs \<and> c_fd t = c_fd s"
proof -
  assume "wr bs s = One v t"
  then consider
      (big) u where "flush_out s = One () u" "wr_now bs u = One v t"
    | (full) u where "flush_out s = One () u" "t = u\<lparr>c_out := c_out u @ bs\<rparr>"
    | (room) "t = s\<lparr>c_out := c_out s @ bs\<rparr>"
    by (auto simp: wr_def modify_def ret_def split: if_splits elim!: andthen_OneE)
  then show ?thesis
  proof cases
    case big
    then have w: "wr_now_loop bs u = One v t" by (simp add: wr_now_def split: if_splits)
    moreover have "c_out t = c_out u" using wr_now_loop_in [of bs u] w by simp
    ultimately show ?thesis
      using flush_out_One [OF big(1)] flush_out_fd [OF big(1)] wr_now_loop_One wr_now_loop_fd
      by (fastforce simp: emitted_def)
  next
    case full
    then show ?thesis using flush_out_One [OF full(1)] flush_out_fd [OF full(1)]
      by (simp add: emitted_def)
  qed (simp add: emitted_def)
qed

lemma wr_Zero: "wr bs s = Zero t \<Longrightarrow> c_fd s \<ge> 0 \<Longrightarrow> ended t"
  by (auto simp: wr_def andthen_def modify_def ret_def wr_now_def
      split: if_splits outcome.splits dest: flush_out_Zero wr_now_loop_Zero flush_out_fd)

lemma wr_not_Waits [simp]: "wr bs s \<noteq> Waits t"
  by (auto simp: wr_def andthen_def modify_def ret_def wr_now_def split: outcome.splits)

text \<open>Whatever becomes of a write, what the peer has been sent is the front of the request.\<close>

lemma flush_out_sent: "\<exists>p. prefix p (c_out s) \<and> w_sent (final (flush_out s)) = w_sent s @ p"
  using wr_now_loop_sent [of "c_out s" "s\<lparr>c_out := []\<rparr>"]
  by (auto simp: flush_out_def wr_now_def say_def)

lemma wr_prefix: "\<exists>p. prefix p (c_out s @ bs) \<and> w_sent (final (wr bs s)) = w_sent s @ p"
proof (cases "c_fd s < 0")
  case True
  then show ?thesis by (intro exI [of _ "[]"]) (simp add: wr_def say_def)
next
  case open_fd: False
  obtain p where p: "prefix p (c_out s)" "w_sent (final (flush_out s)) = w_sent s @ p"
    using flush_out_sent by blast
  have p': "prefix p (c_out s @ bs)" using p(1) by (simp add: prefix_prefix)
  show ?thesis
  proof (cases "flush_out s")
    case (One v u)
    then have u: "w_sent u = w_sent s @ c_out s" using flush_out_One [OF One] by (simp add: emitted_def)
    obtain q where q: "prefix q bs" "w_sent (final (wr_now_loop bs u)) = w_sent u @ q"
      using wr_now_loop_sent [of bs u] by blast
    have big: "\<exists>p. prefix p (c_out s @ bs) \<and> w_sent (final (wr_now bs u)) = w_sent s @ p"
      using q u flush_out_fd [OF One] open_fd by (intro exI [of _ "c_out s @ q"]) (simp add: wr_now_def)
    have small: "\<exists>p. prefix p (c_out s @ bs) \<and> w_sent u = w_sent s @ p" "\<exists>p. prefix p (c_out s @ bs) \<and> w_sent s = w_sent s @ p"
      using u by (auto intro: exI [of _ "c_out s"] exI [of _ "[]"])
    show ?thesis using One open_fd big small by (simp add: wr_def andthen_def modify_def ret_def)
  qed (use p p' open_fd in \<open>auto simp: wr_def andthen_def modify_def ret_def intro: exI [of _ "[]"]\<close>)
qed

section \<open>The buffers hold\<close>

text \<open>No write runs past the 1024 bytes of \<open>out\<close> or the 8192 of \<open>in\<close>, and the read position stays
  inside what has been filled.\<close>

definition bufs_ok :: "'e zsys \<Rightarrow> bool" where
  "bufs_ok s \<longleftrightarrow> length (c_out s) \<le> ZG_OUT_SIZE \<and> length (c_in s) \<le> ZG_IN_SIZE \<and> c_pin s \<le> length (c_in s)"

lemma bufs_ok_err [simp]: "bufs_ok (s\<lparr>c_err := m\<rparr>) = bufs_ok s"
  by (simp add: bufs_ok_def)

lemma bufs_ok_lost: "bufs_ok s \<Longrightarrow> bufs_ok (final (lost w d s))"
  by (simp add: bufs_ok_def)

lemma bufs_ok_send: "bufs_ok s \<Longrightarrow> bufs_ok (snd (transport_send bs s))"
  by (simp add: bufs_ok_def)

lemma bufs_ok_wr_now_loop: "bufs_ok s \<Longrightarrow> bufs_ok (final (wr_now_loop bs s))"
proof (induction bs s rule: wr_now_loop.induct)
  case (1 bs s)
  obtain k t where kt: "transport_send bs s = (k, t)" by fastforce
  then have "bufs_ok t" using bufs_ok_send [OF "1.prems", of bs] by simp
  then show ?case
    using "1.IH" [OF _ kt [symmetric] refl] "1.prems" kt bufs_ok_lost
    by (auto simp: wr_now_loop.simps [of bs s] split: if_splits)
qed

lemma bufs_ok_flush_out: "bufs_ok s \<Longrightarrow> bufs_ok (final (flush_out s))"
  using bufs_ok_wr_now_loop [of "s\<lparr>c_out := []\<rparr>" "c_out s"]
  by (auto simp: flush_out_def wr_now_def say_def bufs_ok_def)

lemma bufs_ok_rd_loop: "bufs_ok s \<Longrightarrow> bufs_ok (final (rd_loop n got s))"
proof (induction n got s rule: rd_loop.induct)
  case (1 n got s)
  show ?case
  proof (cases "\<not> n \<le> length got \<and> 0 < length (c_in s) - c_pin s")
    case True
    define tk where "tk = min (length (c_in s) - c_pin s) (n - length got)"
    have "bufs_ok (s\<lparr>c_pin := c_pin s + tk\<rparr>)" using "1.prems" True by (auto simp: bufs_ok_def tk_def)
    with True "1.IH"(1) [OF _ _ tk_def] show ?thesis
      by (simp add: rd_loop.simps [of n got s] tk_def Let_def)
  next
    case buffer: False
    have f: "bufs_ok (final (flush_out s))" by (rule bufs_ok_flush_out) fact
    have r: "bufs_ok u \<and> bufs_ok (u\<lparr>c_in := d\<rparr>)"
      if "flush_out s = One () t0" "transport_recv ZG_IN_SIZE (t0\<lparr>c_in := [], c_pin := 0\<rparr>) = Some (k, d, u)"
      for t0 k d u
      using f that(1) transport_recv_out [OF that(2)] by (simp add: bufs_ok_def)
    have w: "bufs_ok (t0\<lparr>c_in := [], c_pin := 0\<rparr>)" if "flush_out s = One () t0" for t0
      using f that by (simp add: bufs_ok_def)
    show ?thesis
    proof (cases "n \<le> length got")
      case True
      with "1.prems" show ?thesis by (simp add: rd_loop.simps [of n got s])
    next
      case False
      with buffer have need: "\<not> n \<le> length got" "\<not> 0 < length (c_in s) - c_pin s" by simp_all
      show ?thesis
      proof (cases "flush_out s")
        case (One v t0)
        let ?t = "t0\<lparr>c_in := [], c_pin := 0\<rparr>"
        show ?thesis
        proof (cases "transport_recv ZG_IN_SIZE ?t")
          case None
          with need One w show ?thesis by (simp add: rd_loop.simps [of n got s])
        next
          case (Some x)
          then obtain k d u where x: "transport_recv ZG_IN_SIZE ?t = Some (k, d, u)"
            by (cases x) auto
          have u: "bufs_ok u" "bufs_ok (u\<lparr>c_in := d\<rparr>)" using r [of t0 k d u] One x by simp_all
          consider (intr) "k < 0" "w_errno u = E_INTR"
            | (fail) "k \<le> 0" "\<not> (k < 0 \<and> w_errno u = E_INTR)" | (some) "k > 0" by linarith
          then show ?thesis
          proof cases
            case intr
            with need One x "1.IH"(2) [OF need One refl x refl refl] u show ?thesis
              by (simp add: rd_loop.simps [of n got s])
          next
            case fail
            with need One x u show ?thesis
              by (auto simp: rd_loop.simps [of n got s] bufs_ok_lost)
          next
            case some
            with need One x "1.IH"(3) [OF need One refl x refl refl] u show ?thesis
              by (simp add: rd_loop.simps [of n got s])
          qed
        qed
      qed (use need f in \<open>simp_all add: rd_loop.simps [of n got s]\<close>)
    qed
  qed
qed

lemma keeps_bufs_rd [keeps_rules]: "keeps bufs_ok (rd n)"
  by (rule keepsI) (simp add: rd_def bufs_ok_rd_loop say_def)

lemma keeps_bufs_wr [keeps_rules]: "keeps bufs_ok (wr bs)"
proof (rule keepsI)
  fix s :: "'e zsys"
  assume s: "bufs_ok s"
  have f: "bufs_ok (final (flush_out s))" using s by (rule bufs_ok_flush_out)
  show "bufs_ok (final (wr bs s))"
  proof (cases "flush_out s")
    case (One v t)
    with f have t: "bufs_ok t" by simp
    have "c_out t = []" using flush_out_in [of s] One by simp
    with t s One bufs_ok_wr_now_loop [OF t, of bs] show ?thesis
      by (auto simp: wr_def andthen_def wr_now_def say_def modify_def ret_def bufs_ok_def)
  qed (use f s in \<open>auto simp: wr_def andthen_def modify_def ret_def say_def bufs_ok_def\<close>)
qed

lemma keeps_bufs_say [keeps_rules]: "keeps bufs_ok (say w)"
  by (rule keeps_say) simp

lemma keeps_bufs_say2 [keeps_rules]: "keeps bufs_ok (say2 w d)"
  by (rule keeps_say2) simp

lemma keeps_bufs_skip [keeps_rules]: "keeps bufs_ok (skip n)"
  by (induction n rule: skip.induct) (subst skip.simps, auto intro!: keeps_rules)

end
