(* ===== verification/Zg_Wire.thy ===== *)
theory Zg_Wire
  imports Zg_Socket
begin

text \<open>
  The wire primitives of client/zigurat.c: values of a fixed width in the wire's byte order, and
  the two counted strings. A \<open>size_t\<close> is eight bytes wide, as on every platform the server is
  built for. Values are natural numbers at the width they travel with; the counted strings hand
  back the bytes before the NUL the code adds behind them.
\<close>

section \<open>Primitives\<close>

definition rd_be :: "nat \<Rightarrow> ('e, nat) zact" where
  "rd_be n = andthen (rd n) (\<lambda>v s. One (val_at (w_big s) (reorder (w_big s) v)) s)"

definition wr_be :: "nat \<Rightarrow> nat \<Rightarrow> ('e, unit) zact" where
  "wr_be n v s =
     (if n > 16 then say ''a value wider than the protocol carries'' s
      else wr (reorder (w_big s) (mem_of (w_big s) n v)) s)"

definition rd_u8 :: "('e, byte) zact" where
  "rd_u8 = andthen (rd 1) (\<lambda>v. ret (hd v))"

definition rd_u16 :: "('e, 16 word) zact" where
  "rd_u16 = andthen (rd_be 2) (\<lambda>v. ret (word_of_nat v))"

definition rd_u32 :: "('e, 32 word) zact" where
  "rd_u32 = andthen (rd_be 4) (\<lambda>v. ret (word_of_nat v))"

definition rd_sz :: "('e, 64 word) zact" where
  "rd_sz = andthen (rd_be 8) (\<lambda>v. ret (word_of_nat v))"

definition wr_u8 :: "byte \<Rightarrow> ('e, unit) zact" where
  "wr_u8 v = wr [v]"

definition wr_u16 :: "16 word \<Rightarrow> ('e, unit) zact" where
  "wr_u16 v = wr_be 2 (unat v)"

definition wr_std_string :: "string \<Rightarrow> ('e, unit) zact" where
  "wr_std_string s =
     (let n = strlen s
      in if n > ZG_MAX_STRING then say ''a String is limited to 255 bytes''
         else andthen (wr_u8 (word_of_nat n)) (\<lambda>_. if n \<noteq> 0 then wr (bytes_of (cstr s)) else ret ()))"

definition rd_std_string :: "nat \<Rightarrow> ('e, byte list) zact" where
  "rd_std_string cap =
     andthen rd_u8 (\<lambda>n.
       if unat n + 1 > cap
       then andthen (skip (unat n)) (\<lambda>_. say ''the answer does not fit in the buffer given'')
       else if n \<noteq> 0 then rd (unat n) else ret [])"

definition wr_std_text :: "string \<Rightarrow> ('e, unit) zact" where
  "wr_std_text s =
     (let n = strlen s
      in if n > ZG_MAX_TEXT then say ''a Text is limited to 65535 bytes''
         else andthen (wr_u16 (word_of_nat n)) (\<lambda>_. if n \<noteq> 0 then wr (bytes_of (cstr s)) else ret ()))"

section \<open>Their wire forms\<close>

definition str_bytes :: "byte list \<Rightarrow> byte list" where
  "str_bytes bs = word_of_nat (length bs) # bs"

definition text_bytes :: "byte list \<Rightarrow> byte list" where
  "text_bytes bs = be_bytes 2 (length bs) @ bs"

text \<open>The line does not depend on the message, the turn or the transaction.\<close>

lemma line_frame [simp]:
  "line_ok (s\<lparr>c_err := m\<rparr>) = line_ok s" "line_ok (s\<lparr>c_held := h\<rparr>) = line_ok s"
  "line_ok (s\<lparr>w_locked := h\<rparr>) = line_ok s" "line_ok (s\<lparr>w_slept := n\<rparr>) = line_ok s" "line_ok (s\<lparr>w_flock := f\<rparr>) = line_ok s" "line_ok (s\<lparr>w_errno := e\<rparr>) = line_ok s"
  "line_ok (s\<lparr>c_tid := i\<rparr>) = line_ok s"
  "emitted (s\<lparr>c_err := m\<rparr>) = emitted s" "emitted (s\<lparr>c_held := h\<rparr>) = emitted s"
  "emitted (s\<lparr>w_locked := h\<rparr>) = emitted s" "emitted (s\<lparr>w_slept := n\<rparr>) = emitted s" "emitted (s\<lparr>w_flock := f\<rparr>) = emitted s" "emitted (s\<lparr>w_errno := e\<rparr>) = emitted s"
  "emitted (s\<lparr>c_tid := i\<rparr>) = emitted s"
  "inbound (s\<lparr>c_err := m\<rparr>) = inbound s" "inbound (s\<lparr>c_held := h\<rparr>) = inbound s"
  "inbound (s\<lparr>w_locked := h\<rparr>) = inbound s" "inbound (s\<lparr>w_slept := n\<rparr>) = inbound s" "inbound (s\<lparr>w_flock := f\<rparr>) = inbound s" "inbound (s\<lparr>w_errno := e\<rparr>) = inbound s"
  "inbound (s\<lparr>c_tid := i\<rparr>) = inbound s"
  by (simp_all add: line_ok_def emitted_def inbound_def)

lemma rd_be_ok:
  assumes "length bs = n"
  shows "talks line_ok emitted inbound still (rd_be n) [] bs (be_val bs)"
proof -
  have "talks line_ok emitted inbound still
      (\<lambda>s. One (val_at (w_big s) (reorder (w_big s) bs)) s) [] [] (be_val bs)"
    by (rule talksI) simp
  then show ?thesis unfolding rd_be_def using wire.rd_then [OF assms] by fastforce
qed

lemma wr_be_ok: "n \<le> 16 \<Longrightarrow> talks line_ok emitted inbound still (wr_be n v) (be_bytes n v) [] ()"
  by (rule talks_eq [OF _ wire.wr_exact]) (simp add: wr_be_def)

lemma rd_u8_ok: "talks line_ok emitted inbound still rd_u8 [] [b] b"
  unfolding rd_u8_def using wire.rd_then [of "[b]" 1 "\<lambda>v. ret (hd v)", OF _ talks_ret] by simp

lemma wr_u8_ok: "talks line_ok emitted inbound still (wr_u8 b) [b] [] ()"
  unfolding wr_u8_def by (rule wire.wr_exact)

lemma word_of_be_ok:
  assumes "v < 256 ^ n" and "f v = w"
  shows "talks line_ok emitted inbound still (andthen (rd_be n) (\<lambda>v. ret (f v))) [] (be_bytes n v) w"
  using talks_andthen [where f = "\<lambda>v. ret (f v)", OF rd_be_ok [of "be_bytes n v" n] talks_ret] assms
  by (simp add: be_val_be_bytes)

lemma rd_u16_ok: "talks line_ok emitted inbound still rd_u16 [] (be_bytes 2 (unat n)) n"
  unfolding rd_u16_def by (rule word_of_be_ok) (use unsigned_less [of n] in simp_all)

lemma rd_u32_ok: "talks line_ok emitted inbound still rd_u32 [] (be_bytes 4 (unat n)) n"
  unfolding rd_u32_def by (rule word_of_be_ok) (use unsigned_less [of n] in simp_all)

lemma rd_sz_ok: "talks line_ok emitted inbound still rd_sz [] (be_bytes 8 (unat n)) n"
  unfolding rd_sz_def by (rule word_of_be_ok) (use unsigned_less [of n] in simp_all)

lemma wr_u16_ok: "talks line_ok emitted inbound still (wr_u16 n) (be_bytes 2 (unat n)) [] ()"
  unfolding wr_u16_def by (rule wr_be_ok) simp

lemma u8_then:
  "talks line_ok emitted inbound still (f b) obs ibs v \<Longrightarrow>
    talks line_ok emitted inbound still (andthen rd_u8 f) obs (b # ibs) v"
  using talks_andthen [where f = f, OF rd_u8_ok] by fastforce

lemma u16_then:
  "talks line_ok emitted inbound still (f n) obs ibs v \<Longrightarrow>
    talks line_ok emitted inbound still (andthen rd_u16 f) obs (be_bytes 2 (unat n) @ ibs) v"
  using talks_andthen [where f = f, OF rd_u16_ok] by fastforce

lemma u32_then:
  "talks line_ok emitted inbound still (f n) obs ibs v \<Longrightarrow>
    talks line_ok emitted inbound still (andthen rd_u32 f) obs (be_bytes 4 (unat n) @ ibs) v"
  using talks_andthen [where f = f, OF rd_u32_ok] by fastforce

lemma put_u8_then:
  "talks line_ok emitted inbound still (f ()) obs ibs v \<Longrightarrow>
    talks line_ok emitted inbound still (andthen (wr_u8 b) f) (b # obs) ibs v"
  using talks_andthen [where f = f, OF wr_u8_ok] by fastforce

section \<open>Counted strings\<close>

lemma unat_small_byte [simp]: "n < 256 \<Longrightarrow> unat (word_of_nat n :: byte) = n"
  by (simp add: unat_of_nat)

lemma unat_small_16 [simp]: "n < 65536 \<Longrightarrow> unat (word_of_nat n :: 16 word) = n"
  by (simp add: unat_of_nat)

lemma unat_small_32 [simp]: "n < 4294967296 \<Longrightarrow> unat (word_of_nat n :: 32 word) = n"
  by (simp add: unat_of_nat)

lemma put_u16_then:
  "talks line_ok emitted inbound still (f ()) obs ibs v \<Longrightarrow>
    talks line_ok emitted inbound still (andthen (wr_u16 n) f) (be_bytes 2 (unat n) @ obs) ibs v"
  using talks_andthen [where f = f, OF wr_u16_ok] by fastforce

lemma wr_if_any: "length bs = n \<Longrightarrow>
    talks line_ok emitted inbound still (if n \<noteq> 0 then wr bs else ret ()) bs [] ()"
  using wire.wr_exact [of bs] talks_ret by auto

lemma rd_if_any: "length bs = n \<Longrightarrow>
    talks line_ok emitted inbound still (if n \<noteq> 0 then rd n else ret []) [] bs bs"
  using wire.rd_exact [of bs n] talks_ret by auto

lemma wr_std_string_ok:
  assumes "strlen s \<le> ZG_MAX_STRING"
  shows "talks line_ok emitted inbound still (wr_std_string s) (str_bytes (bytes_of (cstr s))) [] ()"
proof -
  have len: "length (bytes_of (cstr s)) = strlen s" by (simp add: strlen_def)
  show ?thesis
    unfolding str_bytes_def len wr_std_string_def Let_def using assms
    by (simp only: linorder_not_less [symmetric] if_False) (rule put_u8_then, rule wr_if_any, rule len)
qed

lemma rd_std_string_ok:
  assumes "length bs < cap" and "length bs \<le> ZG_MAX_STRING"
  shows "talks line_ok emitted inbound still (rd_std_string cap) [] (str_bytes bs) bs"
proof -
  let ?n = "word_of_nat (length bs) :: byte"
  have n: "unat ?n = length bs" using assms(2) by (simp add: ZG_MAX_STRING_def)
  have any: "(?n \<noteq> 0) = (length bs \<noteq> 0)" using n by (metis unat_eq_zero)
  have fits: "\<not> unat ?n + 1 > cap" using n assms(1) by simp
  show ?thesis
    unfolding rd_std_string_def str_bytes_def
    by (rule u8_then, simp only: fits if_False any) (simp only: n, rule rd_if_any, rule refl)
qed

lemma wr_std_text_ok:
  assumes "strlen s \<le> ZG_MAX_TEXT"
  shows "talks line_ok emitted inbound still (wr_std_text s) (text_bytes (bytes_of (cstr s))) [] ()"
proof -
  have len: "length (bytes_of (cstr s)) = strlen s" by (simp add: strlen_def)
  have n: "unat (word_of_nat (strlen s) :: 16 word) = strlen s"
    using assms by (simp add: ZG_MAX_TEXT_def)
  have fits: "\<not> strlen s > ZG_MAX_TEXT" using assms by simp
  have "talks line_ok emitted inbound still (wr_std_text s)
      (be_bytes 2 (unat (word_of_nat (strlen s) :: 16 word)) @ bytes_of (cstr s)) [] ()"
    unfolding wr_std_text_def Let_def
    by (simp only: fits if_False) (rule put_u16_then, rule wr_if_any, rule len)
  then show ?thesis by (simp only: n text_bytes_def len)
qed

text \<open>An answer wider than the buffer is refused, and its bytes are off the wire all the same.\<close>

lemma talks_say:
  assumes "talks line_ok emitted inbound still m obs ibs v" and "line_ok s" and "inbound s = ibs @ rest"
  shows "\<exists>t. andthen m (\<lambda>_. say what) s = Zero t \<and> line_ok t \<and> emitted t = emitted s @ obs \<and>
    inbound t = rest \<and> c_err t = snprintf_s 512 what"
proof -
  obtain t where "m s = One v t" "line_ok t" "emitted t = emitted s @ obs" "inbound t = rest"
    using assms by (rule talksE)
  then show ?thesis
    by (simp add: andthen_def say_def)
qed

lemma rd_std_string_wide:
  assumes "length bs \<ge> cap" and "length bs \<le> ZG_MAX_STRING"
    and "line_ok s" and "inbound s = str_bytes bs @ rest"
  shows "\<exists>t. rd_std_string cap s = Zero t \<and> line_ok t \<and> emitted t = emitted s \<and> inbound t = rest \<and>
    c_err t = snprintf_s 512 ''the answer does not fit in the buffer given''"
proof -
  let ?n = "word_of_nat (length bs) :: byte"
  have n: "unat ?n = length bs" using assms(2) by (simp add: ZG_MAX_STRING_def)
  obtain t where t: "rd_u8 s = One ?n t" "line_ok t" "emitted t = emitted s @ []" "inbound t = bs @ rest"
    using rd_u8_ok assms(3) by (rule talksE [of _ _ _ _ _ _ _ _ _ "bs @ rest"])
      (use assms(4) in \<open>simp add: str_bytes_def\<close>)
  have "rd_std_string cap s =
      andthen (skip (length bs)) (\<lambda>_. say ''the answer does not fit in the buffer given'') t"
    using t(1) n assms(1) by (simp add: rd_std_string_def andthen_One)
  then show ?thesis
    using talks_say [OF skip_ok [OF refl] t(2,4)] t(3) by simp
qed

section \<open>The invariant of the buffers\<close>

lemma keeps_bufs_rd_be [keeps_rules]: "keeps bufs_ok (rd_be n)"
  unfolding rd_be_def by (intro keeps_rules) (simp add: keeps_def)

lemma keeps_bufs_wr_be [keeps_rules]: "keeps bufs_ok (wr_be n v)"
  using keepsD [OF keeps_bufs_wr] by (auto simp: keeps_def wr_be_def say_def)

lemma keeps_bufs_wire [keeps_rules]:
  "keeps bufs_ok rd_u8" "keeps bufs_ok rd_u16" "keeps bufs_ok rd_u32" "keeps bufs_ok rd_sz"
  "keeps bufs_ok (wr_u8 b)" "keeps bufs_ok (wr_u16 h)"
  unfolding rd_u8_def rd_u16_def rd_u32_def rd_sz_def wr_u8_def wr_u16_def
  by (intro keeps_rules)+

lemma keeps_bufs_strings [keeps_rules]:
  "keeps bufs_ok (wr_std_string s)" "keeps bufs_ok (rd_std_string cap)" "keeps bufs_ok (wr_std_text s)"
  unfolding wr_std_string_def rd_std_string_def wr_std_text_def Let_def
  by (intro keeps_rules)+

section \<open>What the socket layer leaves alone\<close>

text \<open>A property that survives each thing the socket layer does to the state survives every call
  built on it.\<close>

definition lost_state :: "string \<Rightarrow> string option \<Rightarrow> 'e zsys \<Rightarrow> 'e zsys" where
  "lost_state w d s = final (lost w d s :: ('e zsys, unit) outcome)"

lemma final_lost: "final (lost w d s) = lost_state w d s"
  by (auto simp: lost_state_def lost_def Let_def say_def say2_def split: option.split)

definition socket_frame :: "('e zsys \<Rightarrow> bool) \<Rightarrow> bool" where
  "socket_frame P \<longleftrightarrow> (\<forall>s. P s \<longrightarrow>
     (\<forall>bs. P (snd (transport_send bs s))) \<and>
     (\<forall>cap k d u. transport_recv cap s = Some (k, d, u) \<longrightarrow> P u) \<and>
     (\<forall>w d. P (lost_state w d s)) \<and>
     (\<forall>x. P (s\<lparr>c_in := x\<rparr>)) \<and> (\<forall>x. P (s\<lparr>c_pin := x\<rparr>)) \<and>
     (\<forall>x. P (s\<lparr>c_out := x\<rparr>)) \<and> (\<forall>x. P (s\<lparr>c_err := x\<rparr>)))"

lemma socket_frameD:
  assumes "socket_frame P" and "P s"
  shows "transport_send bs s = (k, t) \<Longrightarrow> P t"
    and "transport_recv cap s = Some (i, d, u) \<Longrightarrow> P u"
    and "P (lost_state w e s)" "P (s\<lparr>c_in := x\<rparr>)" "P (s\<lparr>c_pin := n\<rparr>)" "P (s\<lparr>c_out := x\<rparr>)" "P (s\<lparr>c_err := m\<rparr>)"
  using assms unfolding socket_frame_def by (metis snd_conv | blast)+

lemma frame_wr_now_loop:
  assumes "socket_frame P"
  shows "P s \<Longrightarrow> P (final (wr_now_loop bs s))"
proof (induction bs s rule: wr_now_loop.induct)
  case (1 bs s)
  obtain k t where kt: "transport_send bs s = (k, t)" by fastforce
  then have "P t" using socket_frameD(1) assms "1.prems" by blast
  then show ?case
    using "1.IH" [OF _ kt [symmetric] refl] "1.prems" kt socket_frameD(3) [OF assms]
    by (auto simp: wr_now_loop.simps [of bs s] final_lost split: if_splits)
qed

lemma frame_flush_out: "socket_frame P \<Longrightarrow> P s \<Longrightarrow> P (final (flush_out s))"
proof -
  assume fr: "socket_frame P" and s: "P s"
  have o: "P (s\<lparr>c_out := []\<rparr>)" using fr s by (rule socket_frameD(6))
  then show ?thesis
    using s frame_wr_now_loop [OF fr o, of "c_out s"] socket_frameD(7) [OF fr o]
    by (simp add: flush_out_def wr_now_def say_def)
qed

lemma frame_rd_loop:
  assumes fr: "socket_frame P"
  shows "P s \<Longrightarrow> P (final (rd_loop n got s))"
proof (induction n got s rule: rd_loop.induct)
  case (1 n got s)
  consider (complete) "n \<le> length got"
    | (buffered) "\<not> n \<le> length got" "0 < length (c_in s) - c_pin s"
    | (need) "\<not> n \<le> length got" "\<not> 0 < length (c_in s) - c_pin s"
    by linarith
  then show ?case
  proof cases
    case complete
    with "1.prems" show ?thesis by (simp add: rd_loop.simps [of n got s])
  next
    case buffered
    with "1.IH"(1) [OF buffered refl] socket_frameD(5) [OF fr "1.prems"] show ?thesis
      by (simp add: rd_loop.simps [of n got s] Let_def)
  next
    case need
    have f: "P (final (flush_out s))" using frame_flush_out fr "1.prems" by blast
    show ?thesis
    proof (cases "flush_out s")
      case (One v t0)
      let ?t = "t0\<lparr>c_in := [], c_pin := 0\<rparr>"
      have t: "P ?t" using f One socket_frameD(4,5) [OF fr] by simp
      show ?thesis
      proof (cases "transport_recv ZG_IN_SIZE ?t")
        case None
        with need One t show ?thesis by (simp add: rd_loop.simps [of n got s])
      next
        case (Some x)
        then obtain k d u where x: "transport_recv ZG_IN_SIZE ?t = Some (k, d, u)" by (cases x) auto
        have u: "P u" "P (u\<lparr>c_in := d\<rparr>)" using socket_frameD(2,4) [OF fr] t x by blast+
        have ih: "k < 0 \<Longrightarrow> w_errno u = E_INTR \<Longrightarrow> P (final (rd_loop n got u))"
          "0 < k \<Longrightarrow> P (final (rd_loop n got (u\<lparr>c_in := d\<rparr>)))"
          using "1.IH"(2,3) [OF need One refl x refl refl] u by simp_all
        have "rd_loop n got s =
            (if k \<le> 0
             then if k < 0 \<and> w_errno u = E_INTR then rd_loop n got u
                  else if k = 0 \<and> coco_client_tls_why (c_tls u) 256 = None
                  then lost ''the server closed the connection'' None u
                  else lost ''read failed'' (Some (why u)) u
             else rd_loop n got (u\<lparr>c_in := d\<rparr>))"
          using need One x by (simp add: rd_loop.simps [of n got s])
        then show ?thesis using ih socket_frameD(3) [OF fr u(1)] by (simp add: final_lost)
      qed
    qed (use need f in \<open>simp_all add: rd_loop.simps [of n got s]\<close>)
  qed
qed

lemma frame_rd: "socket_frame P \<Longrightarrow> keeps P (rd n)"
  by (rule keepsI) (simp add: rd_def frame_rd_loop say_def socket_frameD(7))

lemma frame_wr: "socket_frame P \<Longrightarrow> keeps P (wr bs)"
proof (rule keepsI)
  fix s
  assume fr: "socket_frame P" and s: "P s"
  have f: "P (final (flush_out s))" using frame_flush_out fr s by blast
  show "P (final (wr bs s))"
  proof (cases "flush_out s")
    case (One v t)
    then have "P t" using f by simp
    then show ?thesis
      using One s frame_wr_now_loop [OF fr, of t bs] socket_frameD(6,7) [OF fr]
      by (auto simp: wr_def andthen_def wr_now_def say_def modify_def ret_def)
  qed (use f s socket_frameD(6,7) [OF fr] in \<open>auto simp: wr_def andthen_def modify_def ret_def say_def\<close>)
qed

lemma frame_say: "socket_frame P \<Longrightarrow> keeps P (say w)"
  by (rule keeps_say) (rule socket_frameD(7))

lemma frame_say2: "socket_frame P \<Longrightarrow> keeps P (say2 w d)"
  by (rule keeps_say2) (rule socket_frameD(7))

lemma frame_skip: "socket_frame P \<Longrightarrow> keeps P (skip n)"
  by (induction n rule: skip.induct) (subst skip.simps, auto intro!: keeps_rules frame_rd)

lemma frame_rd_be: "socket_frame P \<Longrightarrow> keeps P (rd_be n)"
  unfolding rd_be_def by (intro keeps_rules frame_rd) (simp_all add: keeps_def)

lemma frame_wr_be: "socket_frame P \<Longrightarrow> keeps P (wr_be n v)"
  using keepsD [OF frame_wr] socket_frameD(7) by (fastforce simp: keeps_def wr_be_def say_def)

lemmas frame_socket = frame_rd frame_wr frame_say frame_say2 frame_skip frame_rd_be frame_wr_be

lemma frame_wire:
  assumes "socket_frame P"
  shows "keeps P rd_u8" "keeps P rd_u16" "keeps P rd_u32" "keeps P rd_sz" "keeps P (wr_u8 b)"
    "keeps P (wr_u16 h)" "keeps P (wr_std_string s)" "keeps P (rd_std_string cap)" "keeps P (wr_std_text s)"
  unfolding rd_u8_def rd_u16_def rd_u32_def rd_sz_def wr_u8_def wr_u16_def wr_std_string_def
    rd_std_string_def wr_std_text_def Let_def
  by (intro keeps_rules frame_socket assms)+

text \<open>Once there is a TLS session, no call takes it away: nothing falls back to plain text.\<close>

lemma transport_tls:
  "c_tls s \<noteq> None \<Longrightarrow> c_tls (snd (transport_send bs s)) \<noteq> None"
  "c_tls s \<noteq> None \<Longrightarrow> transport_recv cap s = Some (k, d, u) \<Longrightarrow> c_tls u \<noteq> None"
  by (auto simp: transport_send_def coco_client_tls_send_def transport_recv_def coco_client_tls_recv_def
      split: list.splits ssl_wev.splits ssl_rev.splits if_splits)

lemma lost_state_fields [simp]:
  "c_tls (lost_state w d s) = c_tls s" "c_embed (lost_state w d s) = c_embed s"
  "c_lockfd (lost_state w d s) = c_lockfd s"
  by (auto simp: lost_state_def lost_def Let_def say_def say2_def give_turn_def close_fd_def split: option.split)

lemma socket_frame_tls: "socket_frame (\<lambda>s. c_tls s \<noteq> None)"
  using transport_tls unfolding socket_frame_def by fastforce

end
