(* ===== verification/Zg_Session.thy ===== *)
theory Zg_Session
  imports Zg_Wire
begin

text \<open>
  The embedded sessions of client/zigurat.c. A session belongs to a thread: each thread keeps a
  list of slots, one per connection it has used, made on first use and freed by the connection's
  close or by the thread's end. The threads of a process over one engine are a step relation,
  and no session is ever in the hands of two of them.
\<close>

section \<open>The calling thread's slots\<close>

definition take_malloc :: "'e zsys \<Rightarrow> bool \<times> 'e zsys" where
  "take_malloc s = (case w_mallocs s of [] \<Rightarrow> (True, s) | b # r \<Rightarrow> (b, s\<lparr>w_mallocs := r\<rparr>))"

definition ce_of :: "'e engine \<Rightarrow> 'e zsys \<Rightarrow> nat option \<times> 'e zsys" where
  "ce_of E s =
     (case map_of (t_slots s) (c_id s) of
        Some ce \<Rightarrow> (Some ce, s)
      | None \<Rightarrow>
          if \<not> ce_linked E then (None, s)
          else (case take_malloc s of
             (False, s) \<Rightarrow> (None, s)
           | (True, s) \<Rightarrow>
               (case ce_session_new E (w_eng s) of
                  (None, e) \<Rightarrow> (None, s\<lparr>w_eng := e\<rparr>)
                | (Some ce, e) \<Rightarrow>
                    (let slots = (c_id s, ce) # t_slots s
                     in (Some ce, s\<lparr>w_eng := e, t_slots := slots, t_key := slots\<rparr>)))))"

text \<open>The slots before the first one of connection \<open>c\<close>, its session, and the slots behind it.\<close>

fun slot_split :: "nat \<Rightarrow> (nat \<times> nat) list \<Rightarrow> (nat \<times> (nat \<times> nat) list) option" where
  "slot_split c [] = None"
| "slot_split c ((d, ce) # r) =
     (if d = c then Some (ce, r)
      else case slot_split c r of None \<Rightarrow> None | Some (x, r') \<Rightarrow> Some (x, (d, ce) # r'))"

definition ce_forget :: "'e engine \<Rightarrow> 'e zsys \<Rightarrow> 'e zsys" where
  "ce_forget E s =
     (case slot_split (c_id s) (t_slots s) of
        None \<Rightarrow> s
      | Some (ce, slots) \<Rightarrow>
          s\<lparr>w_eng := (if ce_linked E then ce_session_free E ce (w_eng s) else w_eng s),
            t_slots := slots, t_key := slots\<rparr>)"

primrec ce_thread_slots_free :: "'e engine \<Rightarrow> (nat \<times> nat) list \<Rightarrow> 'e \<Rightarrow> 'e" where
  "ce_thread_slots_free E [] e = e"
| "ce_thread_slots_free E (s # n) e =
     ce_thread_slots_free E n (if ce_linked E then ce_session_free E (snd s) e else e)"

definition ce_no_session :: string where
  "ce_no_session = ''cannot begin an embedded session''"

text \<open>\<open>void *sess = ce_of(c); if (!sess) return say(c, ce_no_session);\<close> opens every embedded branch.\<close>

definition with_session :: "'e engine \<Rightarrow> (nat \<Rightarrow> ('e, 'a) zact) \<Rightarrow> ('e, 'a) zact" where
  "with_session E f s =
     (case ce_of E s of (None, t) \<Rightarrow> say ce_no_session t | (Some sess, t) \<Rightarrow> f sess t)"

definition emb :: "'e engine \<Rightarrow> bool \<Rightarrow> ('e, unit) zact" where
  "emb E ok s =
     (if ok then One () s
      else (case ce_of E s of (sess, t) \<Rightarrow> say (ce_error E sess (w_eng t)) t))"

text \<open>\<open>return emb(c, f(sess));\<close> and \<open>if (!f(sess, \<dots>)) return say(c, ce_error(sess));\<close>.\<close>

definition ce_do :: "'e engine \<Rightarrow> (nat \<Rightarrow> 'e \<Rightarrow> bool \<times> 'e) \<Rightarrow> ('e, unit) zact" where
  "ce_do E f = with_session E (\<lambda>sess s. case f sess (w_eng s) of (ok, e) \<Rightarrow> emb E ok (s\<lparr>w_eng := e\<rparr>))"

definition ce_ask :: "'e engine \<Rightarrow> (nat \<Rightarrow> 'e \<Rightarrow> 'a option \<times> 'e) \<Rightarrow> ('e, 'a) zact" where
  "ce_ask E f = with_session E (\<lambda>sess s.
     case f sess (w_eng s) of
       (None, e) \<Rightarrow> say (ce_error E (Some sess) e) (s\<lparr>w_eng := e\<rparr>)
     | (Some v, e) \<Rightarrow> One v (s\<lparr>w_eng := e\<rparr>))"

section \<open>The slots of one thread\<close>

definition slots_ok :: "'e zsys \<Rightarrow> bool" where
  "slots_ok s \<longleftrightarrow> distinct (map fst (t_slots s)) \<and> t_key s = t_slots s"

lemma take_malloc_frame:
  "take_malloc s = (b, t) \<Longrightarrow> t = s\<lparr>w_mallocs := w_mallocs t\<rparr>"
  by (auto simp: take_malloc_def split: list.splits)

lemma take_malloc_slots [simp]:
  assumes "take_malloc s = (b, t)"
  shows "t_slots t = t_slots s" "c_id t = c_id s" "w_eng t = w_eng s" "t_key t = t_key s"
  using assms by (auto simp: take_malloc_def split: list.splits)

text \<open>The ways a session is come by: it is there, it is refused, or it is made.\<close>

lemma ce_of_cases:
  obtains (had) ce where "ce_of E s = (Some ce, s)" "map_of (t_slots s) (c_id s) = Some ce"
  | (refused) t where "ce_of E s = (None, t)" "map_of (t_slots s) (c_id s) = None"
      "t_slots t = t_slots s" "t_key t = t_key s" "c_id t = c_id s"
      "w_eng t = w_eng s \<or> ce_linked E \<and> ce_session_new E (w_eng s) = (None, w_eng t)"
  | (made) ce e t where "ce_of E s = (Some ce, t)" "map_of (t_slots s) (c_id s) = None" "c_id t = c_id s"
      "ce_linked E" "ce_session_new E (w_eng s) = (Some ce, e)" "w_eng t = e"
      "t_slots t = (c_id s, ce) # t_slots s" "t_key t = (c_id s, ce) # t_slots s"
proof (cases "map_of (t_slots s) (c_id s)")
  case (Some ce)
  then show ?thesis by (intro had) (simp_all add: ce_of_def)
next
  case None
  show ?thesis
  proof (cases "ce_linked E")
    case False
    then show ?thesis using None by (intro refused [of s]) (simp_all add: ce_of_def)
  next
    case True
    obtain b t where bt: "take_malloc s = (b, t)" by fastforce
    note t = take_malloc_slots [OF bt]
    obtain r e where re: "ce_session_new E (w_eng s) = (r, e)" by fastforce
    show ?thesis
    proof (cases b)
      case False
      then show ?thesis using None True bt t by (intro refused [of t]) (simp_all add: ce_of_def)
    next
      case b: True
      show ?thesis
      proof (cases r)
        case None': None
        then show ?thesis using None True bt b re t
          by (intro refused [of "t\<lparr>w_eng := e\<rparr>"]) (simp_all add: ce_of_def)
      next
        case (Some ce)
        then show ?thesis using None True bt b re t
          by (intro made [of ce "t\<lparr>w_eng := e, t_slots := (c_id s, ce) # t_slots s,
                t_key := (c_id s, ce) # t_slots s\<rparr>" e]) (simp_all add: ce_of_def Let_def)
      qed
    qed
  qed
qed

lemma ce_of_slots_ok: "slots_ok s \<Longrightarrow> ce_of E s = (r, t) \<Longrightarrow> slots_ok t"
  by (rule ce_of_cases [of E s]) (auto simp: slots_ok_def map_of_eq_None_iff)

text \<open>A session once made is the one every later use of the connection gets.\<close>

lemma ce_of_again: "ce_of E s = (Some ce, t) \<Longrightarrow> ce_of E t = (Some ce, t)"
  by (rule ce_of_cases [of E s]) (auto simp: ce_of_def)

lemma slot_split_Some:
  "slot_split c xs = Some (ce, ys) \<Longrightarrow>
    \<exists>as bs. xs = as @ (c, ce) # bs \<and> ys = as @ bs \<and> c \<notin> fst ` set as"
proof (induction xs arbitrary: ys)
  case (Cons x xs)
  obtain d y where x: "x = (d, y)" by fastforce
  show ?case
  proof (cases "d = c")
    case True
    then show ?thesis using Cons.prems x by (intro exI [of _ "[]"] exI [of _ xs]) auto
  next
    case False
    then obtain zs where zs: "slot_split c xs = Some (ce, zs)" "ys = (d, y) # zs"
      using Cons.prems x by (auto split: option.splits)
    then obtain as bs where "xs = as @ (c, ce) # bs" "zs = as @ bs" "c \<notin> fst ` set as"
      using Cons.IH by blast
    then show ?thesis using zs x False by (intro exI [of _ "(d, y) # as"] exI [of _ bs]) auto
  qed
qed simp

lemma slot_split_None: "slot_split c xs = None \<longleftrightarrow> c \<notin> fst ` set xs"
  by (induction c xs rule: slot_split.induct) (auto split: option.splits)

lemma ce_forget_slots_ok: "slots_ok s \<Longrightarrow> slots_ok (ce_forget E s)"
  by (auto simp: ce_forget_def slots_ok_def split: option.splits dest!: slot_split_Some)

lemma ce_forget_gone: "slots_ok s \<Longrightarrow> c_id s \<notin> fst ` set (t_slots (ce_forget E s))"
  by (force simp: ce_forget_def slots_ok_def slot_split_None split: option.splits dest!: slot_split_Some)

section \<open>The threads of a process\<close>

text \<open>
  What the client relies on of the engine: a new session is none of the live ones, and freeing a
  session ends that one and no other.
\<close>

definition fresh_sessions :: "'e engine \<Rightarrow> ('e \<Rightarrow> nat set) \<Rightarrow> bool" where
  "fresh_sessions E live \<longleftrightarrow>
     (\<forall>e ce e'. ce_session_new E e = (Some ce, e') \<longrightarrow> ce \<notin> live e \<and> live e' = insert ce (live e)) \<and>
     (\<forall>e e'. ce_session_new E e = (None, e') \<longrightarrow> live e' = live e) \<and>
     (\<forall>e ce. live (ce_session_free E ce e) = live e - {ce})"

record 'e process =
  p_eng :: 'e
  p_slots :: "nat \<Rightarrow> (nat \<times> nat) list"
  p_key :: "nat \<Rightarrow> (nat \<times> nat) list"

definition as_thread :: "'e process \<Rightarrow> nat \<Rightarrow> 'e zsys \<Rightarrow> 'e zsys" where
  "as_thread p i s = s\<lparr>w_eng := p_eng p, t_self := i, t_slots := p_slots p i, t_key := p_key p i\<rparr>"

definition came_back :: "'e process \<Rightarrow> nat \<Rightarrow> 'e zsys \<Rightarrow> 'e process" where
  "came_back p i s = \<lparr>p_eng = w_eng s, p_slots = (p_slots p)(i := t_slots s), p_key = (p_key p)(i := t_key s)\<rparr>"

text \<open>A thread uses a connection, works in the engine, lets a connection go, or ends: the key's
  destructor then frees what \<open>pthread_setspecific\<close> stored last.\<close>

inductive session_step :: "'e engine \<Rightarrow> ('e \<Rightarrow> nat set) \<Rightarrow> 'e process \<Rightarrow> 'e process \<Rightarrow> bool"
  for E live where
  uses: "ce_of E (as_thread p i s) = (r, t) \<Longrightarrow> session_step E live p (came_back p i t)"
| works: "live e = live (p_eng p) \<Longrightarrow> session_step E live p (p\<lparr>p_eng := e\<rparr>)"
| forgets: "session_step E live p (came_back p i (ce_forget E (as_thread p i s)))"
| exits: "session_step E live p
    \<lparr>p_eng = ce_thread_slots_free E (p_key p i) (p_eng p),
     p_slots = (p_slots p)(i := []), p_key = (p_key p)(i := [])\<rparr>"

inductive_cases session_stepE: "session_step E live p q"

definition session_start :: "'e process \<Rightarrow> bool" where
  "session_start p \<longleftrightarrow> p_slots p = (\<lambda>_. []) \<and> p_key p = (\<lambda>_. [])"

definition sessions_apart :: "('e \<Rightarrow> nat set) \<Rightarrow> 'e process \<Rightarrow> bool" where
  "sessions_apart live p \<longleftrightarrow>
     (\<forall>i. distinct (map fst (p_slots p i)) \<and> p_key p i = p_slots p i \<and>
          snd ` set (p_slots p i) \<subseteq> live (p_eng p)) \<and>
     (\<forall>i j x y. x \<in> set (p_slots p i) \<longrightarrow> y \<in> set (p_slots p j) \<longrightarrow> snd x = snd y \<longrightarrow> i = j \<and> x = y)"

lemma sessions_apartD:
  assumes "sessions_apart live p"
  shows "distinct (map fst (p_slots p i))" "p_key p i = p_slots p i"
    "x \<in> set (p_slots p i) \<Longrightarrow> snd x \<in> live (p_eng p)"
    "x \<in> set (p_slots p i) \<Longrightarrow> y \<in> set (p_slots p j) \<Longrightarrow> snd x = snd y \<Longrightarrow> i = j \<and> x = y"
  using assms unfolding sessions_apart_def by blast+

lemma sessions_apartI:
  assumes "\<And>i. distinct (map fst (p_slots p i))" and "\<And>i. p_key p i = p_slots p i"
    and "\<And>i x. x \<in> set (p_slots p i) \<Longrightarrow> snd x \<in> live (p_eng p)"
    and "\<And>i j x y. x \<in> set (p_slots p i) \<Longrightarrow> y \<in> set (p_slots p j) \<Longrightarrow> snd x = snd y \<Longrightarrow> i = j \<and> x = y"
  shows "sessions_apart live p"
  unfolding sessions_apart_def
proof (intro conjI allI impI)
  fix i j x y
  assume "x \<in> set (p_slots p i)" "y \<in> set (p_slots p j)" "snd x = snd y"
  then show "i = j" "x = y" using assms(4) [of x i y j] by simp_all
qed (use assms(1-3) in auto)

lemma live_slots_free:
  assumes "fresh_sessions E live" and "ce_linked E"
  shows "live (ce_thread_slots_free E xs e) = live e - snd ` set xs"
  using assms by (induction xs arbitrary: e) (auto simp: fresh_sessions_def)

lemma sessions_apart_uses:
  assumes "fresh_sessions E live" and p: "sessions_apart live p" and "ce_of E (as_thread p i s) = (r, t)"
  shows "sessions_apart live (came_back p i t)"
proof (cases rule: ce_of_cases [of E "as_thread p i s"])
  case (had ce)
  then have "t = as_thread p i s" using assms(3) by simp
  then have "came_back p i t = p" by (simp add: came_back_def as_thread_def)
  then show ?thesis using p by simp
next
  case (refused u)
  then have "u = t" using assms(3) by simp
  have "live (w_eng t) = live (p_eng p)"
    using refused(6) assms(1) \<open>u = t\<close> by (auto simp: as_thread_def fresh_sessions_def)
  moreover have "came_back p i t = p\<lparr>p_eng := w_eng t\<rparr>"
    using refused \<open>u = t\<close> by (simp add: came_back_def as_thread_def)
  ultimately show ?thesis using p by (simp add: sessions_apart_def)
next
  case (made ce e u)
  then have "u = t" using assms(3) by simp
  have fresh: "ce \<notin> live (p_eng p)" "live (w_eng t) = insert ce (live (p_eng p))"
    using made(5,6) assms(1) \<open>u = t\<close> by (auto simp: as_thread_def fresh_sessions_def)
  have new: "c_id s \<notin> fst ` set (p_slots p i)" using made(2) by (simp add: as_thread_def map_of_eq_None_iff)
  have others: "snd x \<noteq> ce" if "x \<in> set (p_slots p j)" for x j
    using sessions_apartD(3) [OF p that] fresh(1) by auto
  let ?q = "came_back p i t"
  have slots: "p_slots ?q j = (if j = i then (c_id s, ce) # p_slots p i else p_slots p j)" for j
    using made(7) \<open>u = t\<close> by (simp add: came_back_def as_thread_def)
  have key: "p_key ?q j = (if j = i then (c_id s, ce) # p_slots p i else p_key p j)" for j
    using made(8) \<open>u = t\<close> by (simp add: came_back_def as_thread_def)
  have apart: "x = (c_id s, ce) \<and> j = i \<or> x \<in> set (p_slots p j) \<and> snd x \<noteq> ce"
    if "x \<in> set (p_slots ?q j)" for x j
    using that others [of x j] by (auto simp: slots split: if_splits)
  show ?thesis
  proof (rule sessions_apartI)
    fix j k x y
    show "distinct (map fst (p_slots ?q j))" using new sessions_apartD(1) [OF p] by (simp add: slots)
    show "p_key ?q j = p_slots ?q j" using sessions_apartD(2) [OF p] by (simp add: slots key)
    show "snd x \<in> live (p_eng ?q)" if "x \<in> set (p_slots ?q j)"
      using apart [OF that] by (rule disjE) (use fresh(2) sessions_apartD(3) [OF p, of x j] in \<open>simp_all add: came_back_def\<close>)
    show "j = k \<and> x = y" if "x \<in> set (p_slots ?q j)" "y \<in> set (p_slots ?q k)" "snd x = snd y"
      by (rule disjE [OF apart [OF that(1)]]; rule disjE [OF apart [OF that(2)]])
        (use that(3) sessions_apartD(4) [OF p, of x j y k] in simp_all)
  qed
qed

lemma sessions_apart_forgets:
  assumes fresh: "fresh_sessions E live" and p: "sessions_apart live p" and linked: "ce_linked E"
  shows "sessions_apart live (came_back p i (ce_forget E (as_thread p i s)))"
proof (cases "slot_split (c_id s) (p_slots p i)")
  case None
  then have "came_back p i (ce_forget E (as_thread p i s)) = p"
    by (simp add: ce_forget_def as_thread_def came_back_def)
  then show ?thesis using p by simp
next
  case (Some r)
  then obtain ce ys where sp: "slot_split (c_id s) (p_slots p i) = Some (ce, ys)" by (cases r) auto
  then obtain as bs where ab: "p_slots p i = as @ (c_id s, ce) # bs" "ys = as @ bs"
    using slot_split_Some by blast
  let ?q = "\<lparr>p_eng = ce_session_free E ce (p_eng p), p_slots = (p_slots p)(i := ys), p_key = (p_key p)(i := ys)\<rparr>"
  have q: "came_back p i (ce_forget E (as_thread p i s)) =
      \<lparr>p_eng = ce_session_free E ce (p_eng p), p_slots = (p_slots p)(i := ys), p_key = (p_key p)(i := ys)\<rparr>"
    using sp linked by (simp add: ce_forget_def as_thread_def came_back_def)
  have live: "live (ce_session_free E ce (p_eng p)) = live (p_eng p) - {ce}"
    using fresh by (simp add: fresh_sessions_def)
  have sub: "set ys \<subseteq> set (p_slots p i)" and mem: "(c_id s, ce) \<in> set (p_slots p i)"
    using ab by auto
  have dist: "distinct (map fst ys)" and out: "(c_id s, ce) \<notin> set ys"
    using sessions_apartD(1) [OF p, of i] ab by force+
  have keep: "snd x \<noteq> ce" if "x \<in> set (((p_slots p)(i := ys)) j)" for x j
    using that sub out mem sessions_apartD(4) [OF p _ mem, of x j] by (auto split: if_splits)
  have inside: "x \<in> set (p_slots p j)" if "x \<in> set (((p_slots p)(i := ys)) j)" for x j
    using that sub by (auto split: if_splits)
  show ?thesis
    unfolding q
  proof (rule sessions_apartI)
    fix j x y k
    show "distinct (map fst (p_slots ?q j))" using dist sessions_apartD(1) [OF p] by simp
    show "p_key ?q j = p_slots ?q j" using sessions_apartD(2) [OF p] by simp
    show "snd x \<in> live (p_eng ?q)" if "x \<in> set (p_slots ?q j)"
      using that keep [of x j] inside [of x j] sessions_apartD(3) [OF p, of x j] live by simp
    show "j = k \<and> x = y" if "x \<in> set (p_slots ?q j)" "y \<in> set (p_slots ?q k)" "snd x = snd y"
      using that inside [of x j] inside [of y k] sessions_apartD(4) [OF p, of x j y k] by simp
  qed
qed

lemma sessions_apart_exits:
  assumes fresh: "fresh_sessions E live" and p: "sessions_apart live p" and linked: "ce_linked E"
  shows "sessions_apart live \<lparr>p_eng = ce_thread_slots_free E (p_key p i) (p_eng p),
     p_slots = (p_slots p)(i := []), p_key = (p_key p)(i := [])\<rparr>"
proof -
  have live: "live (ce_thread_slots_free E (p_key p i) (p_eng p)) = live (p_eng p) - snd ` set (p_slots p i)"
    using live_slots_free [OF fresh linked] sessions_apartD(2) [OF p] by simp
  have "snd x \<notin> snd ` set (p_slots p i)" if "x \<in> set (p_slots p j)" "j \<noteq> i" for x j
    using sessions_apartD(4) [OF p that(1)] that(2) by blast
  then show ?thesis
    unfolding sessions_apart_def using sessions_apartD [OF p] live by (auto split: if_splits)
qed

lemma session_step_apart:
  assumes "fresh_sessions E live" and "ce_linked E" and "session_step E live p q" and "sessions_apart live p"
  shows "sessions_apart live q"
  using assms(3)
proof cases
  case uses
  then show ?thesis using sessions_apart_uses assms by blast
next
  case works
  then show ?thesis using assms(4) by (simp add: sessions_apart_def)
next
  case forgets
  then show ?thesis using sessions_apart_forgets assms by blast
next
  case exits
  then show ?thesis using sessions_apart_exits assms by blast
qed

inductive session_reachable :: "'e engine \<Rightarrow> ('e \<Rightarrow> nat set) \<Rightarrow> 'e process \<Rightarrow> bool"
  for E live where
  start: "session_start p \<Longrightarrow> session_reachable E live p"
| step: "session_reachable E live p \<Longrightarrow> session_step E live p q \<Longrightarrow> session_reachable E live q"

lemma session_reachable_apart:
  assumes "fresh_sessions E live" and "ce_linked E" and "session_reachable E live p"
  shows "sessions_apart live p"
  using assms(3)
proof induction
  case (start p)
  then show ?case by (simp add: session_start_def sessions_apart_def)
next
  case (step p q)
  then show ?case using session_step_apart assms by blast
qed

text \<open>Once a thread has ended, none of the sessions it had is live.\<close>

lemma thread_exit_frees:
  assumes "fresh_sessions E live" and "ce_linked E" and "session_reachable E live p"
    and "(c, ce) \<in> set (p_slots p i)"
  shows "ce \<notin> live (ce_thread_slots_free E (p_key p i) (p_eng p))"
  using sessions_apartD(2) [OF session_reachable_apart [OF assms(1-3)], of i] assms(4)
    live_slots_free [OF assms(1,2), of "p_key p i" "p_eng p"] by force

section \<open>What the embedded calls keep\<close>

text \<open>Coming by a session touches the allocator, the engine and the thread's slots.\<close>

definition unsessioned :: "'e zsys \<Rightarrow> 'e \<Rightarrow> 'e zsys" where
  "unsessioned s e = s\<lparr>w_mallocs := [], w_eng := e, t_slots := [], t_key := []\<rparr>"

lemma ce_of_frame: "ce_of E s = (r, t) \<Longrightarrow> unsessioned t e = unsessioned s e"
proof -
  assume ce: "ce_of E s = (r, t)"
  obtain b u where u: "take_malloc s = (b, u)" by fastforce
  then have us: "unsessioned u e = unsessioned s e"
    by (auto simp: take_malloc_def unsessioned_def split: list.splits)
  from ce u us show ?thesis
    unfolding ce_of_def unsessioned_def
    by (cases b) (auto simp: Let_def split: option.splits prod.splits if_splits)
qed

lemma ce_of_bufs: "ce_of E s = (r, t) \<Longrightarrow> bufs_ok t = bufs_ok s"
  using arg_cong [OF ce_of_frame [of E s r t "w_eng s"], of bufs_ok]
  by (simp add: bufs_ok_def unsessioned_def)

lemma bufs_ok_eng [simp]: "bufs_ok (s\<lparr>w_eng := e\<rparr>) = bufs_ok s"
  by (simp add: bufs_ok_def)

lemma keeps_bufs_with_session [keeps_rules]:
  "(\<And>ce. keeps bufs_ok (f ce)) \<Longrightarrow> keeps bufs_ok (with_session E f)"
  by (auto simp: keeps_def with_session_def say_def ce_of_bufs split: prod.splits option.splits)

lemma keeps_bufs_emb [keeps_rules]: "keeps bufs_ok (emb E ok)"
  by (auto simp: keeps_def emb_def say_def ce_of_bufs split: prod.splits)

lemma keeps_bufs_ce_do [keeps_rules]: "keeps bufs_ok (ce_do E f)"
  unfolding ce_do_def
  by (rule keeps_bufs_with_session)
    (auto simp: keeps_def split: prod.splits intro: keepsD [OF keeps_bufs_emb])

lemma keeps_bufs_ce_ask [keeps_rules]: "keeps bufs_ok (ce_ask E f)"
  unfolding ce_ask_def
  by (rule keeps_bufs_with_session) (auto simp: keeps_def say_def split: prod.splits option.splits)

end
