(* ===== verification/Zg_Open.thy ===== *)
theory Zg_Open
  imports Zg_Session
begin

text \<open>
  Opening and closing (client/zigurat.c): the dial that \<open>zg_open\<close> and \<open>zg_reopen\<close> share, the
  embedded opening, and \<open>zg_close\<close>. Whatever the old connection was in the middle of is over when
  a dial begins, a dial that fails leaves the connection closed, and with TLS asked for there is
  no connection without it.
\<close>

section \<open>The dial\<close>

text \<open>Whether \<open>client/tls.o\<close> is linked, and whether it was compiled with OpenSSL or as the stub.\<close>

datatype tls_build = Tls_absent | Tls_stub | Tls_openssl

definition hang_up :: "'e zsys \<Rightarrow> 'e zsys" where
  "hang_up s =
     (let s = close_fd (s\<lparr>c_tls := None\<rparr>); s = give_turn s
      in s\<lparr>c_out := [], c_in := [], c_pin := 0, c_tid := 0\<rparr>)"

primrec dial_loop :: "addr_try list \<Rightarrow> 'e zsys \<Rightarrow> 'e zsys" where
  "dial_loop [] s = s"
| "dial_loop (a # ai) s =
     (if ad_fd a < 0 then dial_loop ai (s\<lparr>w_errno := ad_errno a\<rparr>)
      else if ad_connects a
      then s\<lparr>c_fd := ad_fd a, w_recv := ad_recv a, w_send := ad_send a, w_sslr := ad_sslr a,
             w_sslw := ad_sslw a, w_sent := []\<rparr>
      else dial_loop ai (s\<lparr>w_errno := ad_errno a, w_closed := ad_fd a # w_closed s\<rparr>))"

definition dial_tls :: "tls_build \<Rightarrow> ossl \<Rightarrow> string \<Rightarrow> ('e, unit) zact" where
  "dial_tls B L host s =
     (if \<not> g_tls_on s then One () s
      else case B of
        Tls_absent \<Rightarrow> say ''this build has no TLS'' (close_fd s)
      | Tls_stub \<Rightarrow> Zero ((close_fd s)\<lparr>c_err := snprintf_s 512
          ''this cocolog was built without TLS -- rebuild where OpenSSL headers are present''\<rparr>)
      | Tls_openssl \<Rightarrow>
          (case coco_client_tls_open L (c_fd s) host (g_tls s) 512 of
             Refused e _ \<Rightarrow> Zero ((close_fd s)\<lparr>c_err := e\<rparr>)
           | Opened _ _ \<Rightarrow> One () (s\<lparr>c_tls := Some ''''\<rparr>)))"

text \<open>The server speaks first: the id of the transaction this connection is.\<close>

definition dial_greeting :: "('e, unit) zact" where
  "dial_greeting s =
     (case rd_sz s of
        Waits t \<Rightarrow> Waits t
      | Zero t \<Rightarrow> Zero (close_fd t)
      | One tid t \<Rightarrow> One () (t\<lparr>c_tid := tid, c_err := ''''\<rparr>))"

text \<open>\<open>w_dials\<close> is what \<open>getaddrinfo\<close> and the sockets answer; with nothing left it waits.\<close>

definition dial :: "tls_build \<Rightarrow> string \<Rightarrow> ('e, unit) zact" where
  "dial B host s0 =
     (let s = hang_up s0
      in case w_dials s of
        [] \<Rightarrow> Waits s
      | No_address m # r \<Rightarrow> say2 ''cannot resolve the server'' m (s\<lparr>w_dials := r\<rparr>)
      | Addresses as L # r \<Rightarrow>
          (let t = dial_loop as (s\<lparr>w_dials := r\<rparr>)
           in if c_fd t < 0 then say2 ''cannot connect'' (strerror (w_errno t)) t
              else andthen (dial_tls B L host) (\<lambda>_. dial_greeting) t))"

section \<open>Opening and closing a handle\<close>

text \<open>\<open>calloc\<close> and the three fields set behind it; \<open>i\<close> is the address it gives.\<close>

definition new_conn :: "nat \<Rightarrow> 'e zsys \<Rightarrow> 'e zsys" where
  "new_conn i s = s\<lparr>w_locked := False, c_id := i, c_fd := -1, c_tls := None, c_embed := False, c_owner := 0, c_tid := 0,
     c_err := '''', c_lockfd := -1, c_held := False, c_lockwait := 0, c_out := [], c_in := [], c_pin := 0\<rparr>"

text \<open>An opening answers whether there is a handle, and the text it leaves in the caller's \<open>err\<close>.\<close>

definition zg_open :: "tls_build \<Rightarrow> nat \<Rightarrow> string \<Rightarrow> nat \<Rightarrow> ('e, bool \<times> string) zact" where
  "zg_open B i host errcap s =
     (case take_malloc s of
        (False, t) \<Rightarrow> One (False, snprintf_s errcap ''out of memory'') t
      | (True, t) \<Rightarrow>
          (case dial B host (new_conn i t) of
             Waits u \<Rightarrow> Waits u
           | Zero u \<Rightarrow> One (False, snprintf_s errcap (c_err u)) u
           | One _ u \<Rightarrow> One (True, '''') u))"

definition zg_open_embed :: "'e engine \<Rightarrow> nat \<Rightarrow> string \<Rightarrow> nat \<Rightarrow> ('e, bool \<times> string) zact" where
  "zg_open_embed E i dir errcap s =
     (if \<not> ce_linked E
      then One (False, snprintf_s errcap ''this build carries no embedded engine (see embed/build.sh)'') s
      else case take_malloc s of
        (False, t) \<Rightarrow> One (False, snprintf_s errcap ''out of memory'') t
      | (True, t0) \<Rightarrow>
          (let t = new_conn i t0
           in case ce_engine_open E dir (w_eng t) of
             (Some e, eng) \<Rightarrow> One (False, snprintf_s errcap (snprintf_s 512 e)) (t\<lparr>w_eng := eng, c_err := snprintf_s 512 e\<rparr>)
           | (None, eng) \<Rightarrow>
               (case ce_of E (t\<lparr>w_eng := eng, c_embed := True, c_owner := t_self t\<rparr>) of
                  (None, u) \<Rightarrow> One (False, snprintf_s errcap ''cannot begin an embedded session'')
                                  (u\<lparr>w_eng := ce_engine_close E (w_eng u)\<rparr>)
                | (Some _, u) \<Rightarrow> One (True, '''') u)))"

definition zg_reopen :: "'e engine \<Rightarrow> tls_build \<Rightarrow> string \<Rightarrow> ('e, unit) zact" where
  "zg_reopen E B host s = (if c_embed s then ce_do E (ce_reset E) s else dial B host s)"

definition zg_close :: "'e engine \<Rightarrow> 'e zsys \<Rightarrow> 'e zsys" where
  "zg_close E s =
     (if c_embed s
      then (let t = ce_forget E s in t\<lparr>w_eng := ce_engine_close E (w_eng t)\<rparr>)
      else let t = give_turn s;
               u = (if c_lockfd t \<ge> 0 then close_lockfd t else t)
           in (close_fd (u\<lparr>c_tls := None\<rparr>))\<lparr>c_fd := -1, c_lockfd := -1\<rparr>)"

section \<open>What a dial leaves\<close>

lemma hang_up_state [simp]:
  "c_fd (hang_up s) < 0" "c_tls (hang_up s) = None" "c_out (hang_up s) = []" "c_in (hang_up s) = []"
  "c_pin (hang_up s) = 0" "c_tid (hang_up s) = 0" "w_dials (hang_up s) = w_dials s"
  "g_tls_on (hang_up s) = g_tls_on s" "g_tls (hang_up s) = g_tls s" "c_embed (hang_up s) = c_embed s"
  "c_lockfd (hang_up s) = c_lockfd s"
  by (auto simp: hang_up_def Let_def close_fd_def give_turn_def)

lemma hang_up_turn: "\<not> (c_lockfd (hang_up s) \<ge> 0 \<and> c_held (hang_up s))"
  by (auto simp: hang_up_def Let_def close_fd_def give_turn_def)

lemma dial_loop_frame [simp]:
  "c_tls (dial_loop as s) = c_tls s" "c_out (dial_loop as s) = c_out s" "c_in (dial_loop as s) = c_in s"
  "c_pin (dial_loop as s) = c_pin s" "c_lockfd (dial_loop as s) = c_lockfd s" "c_held (dial_loop as s) = c_held s"
  "g_tls_on (dial_loop as s) = g_tls_on s" "g_tls (dial_loop as s) = g_tls s"
  "c_embed (dial_loop as s) = c_embed s"
  by (induction as arbitrary: s) auto

text \<open>The addresses are tried in order and the first that connects is the connection.\<close>

fun first_up :: "addr_try list \<Rightarrow> addr_try option" where
  "first_up [] = None"
| "first_up (a # as) = (if ad_fd a \<ge> 0 \<and> ad_connects a then Some a else first_up as)"

lemma dial_loop_up:
  "first_up as = Some a \<Longrightarrow>
     c_fd (dial_loop as s) = ad_fd a \<and> ad_fd a \<ge> 0 \<and> w_recv (dial_loop as s) = ad_recv a \<and>
     w_send (dial_loop as s) = ad_send a \<and> w_sslr (dial_loop as s) = ad_sslr a \<and>
     w_sslw (dial_loop as s) = ad_sslw a \<and> w_sent (dial_loop as s) = []"
  by (induction as arbitrary: s) (auto split: if_splits)

lemma dial_loop_down: "first_up as = None \<Longrightarrow> c_fd (dial_loop as s) = c_fd s"
  by (induction as arbitrary: s) (auto split: if_splits)

lemma close_fd_ended:
  "c_in s = [] \<Longrightarrow> c_pin s = 0 \<Longrightarrow> \<not> (c_lockfd s \<ge> 0 \<and> c_held s) \<Longrightarrow> ended (close_fd s)"
  by (auto simp: ended_def close_fd_def)

lemma ended_err [simp]: "ended (s\<lparr>c_err := m\<rparr>) = ended s"
  by (simp add: ended_def)

lemma rd_be_Zero: "rd_be n s = Zero t \<Longrightarrow> c_fd s \<ge> 0 \<Longrightarrow> ended t"
  by (auto simp: rd_be_def andthen_def split: outcome.splits dest: rd_Zero)

lemma dial_greeting_Zero: "dial_greeting s = Zero t \<Longrightarrow> c_fd s \<ge> 0 \<Longrightarrow> ended t"
  by (auto simp: dial_greeting_def rd_sz_def andthen_def ret_def close_fd_def ended_def
      split: outcome.splits dest!: rd_be_Zero)

lemma dial_tls_Zero:
  "dial_tls B L host s = Zero t \<Longrightarrow> c_in s = [] \<Longrightarrow> c_pin s = 0 \<Longrightarrow> \<not> (c_lockfd s \<ge> 0 \<and> c_held s) \<Longrightarrow> ended t"
  by (auto simp: dial_tls_def say_def close_fd_ended split: if_splits tls_build.splits tls_opened.splits)

lemma dial_tls_One:
  "dial_tls B L host s = One v t \<Longrightarrow>
     if g_tls_on s
     then B = Tls_openssl \<and> (\<exists>cf log. coco_client_tls_open L (c_fd s) host (g_tls s) 512 = Opened cf log) \<and>
       t = s\<lparr>c_tls := Some ''''\<rparr>
     else t = s"
  by (auto simp: dial_tls_def split: if_splits tls_build.splits tls_opened.splits)

lemma dial_fails_closed: "dial B host s = Zero t \<Longrightarrow> ended t"
proof -
  assume d: "dial B host s = Zero t"
  let ?s = "hang_up s"
  note st = hang_up_turn [of s] hang_up_state [of s]
  show ?thesis
  proof (cases "w_dials s")
    case Nil
    then show ?thesis using d by (simp add: dial_def)
  next
    case (Cons ev r)
    show ?thesis
    proof (cases ev)
      case (No_address m)
      then show ?thesis using d Cons st by (auto simp: dial_def say2_def ended_def)
    next
      case (Addresses as L)
      let ?t = "dial_loop as (?s\<lparr>w_dials := r\<rparr>)"
      have t: "c_in ?t = []" "c_pin ?t = 0" "\<not> (c_lockfd ?t \<ge> 0 \<and> c_held ?t)"
        using hang_up_turn [of s] by simp_all
      show ?thesis
      proof (cases "c_fd ?t < 0")
        case True
        then show ?thesis using d Cons Addresses t by (auto simp: dial_def Let_def say2_def ended_def)
      next
        case False
        then have "andthen (dial_tls B L host) (\<lambda>_. dial_greeting) ?t = Zero t"
          using d Cons Addresses by (simp add: dial_def Let_def)
        then consider "dial_tls B L host ?t = Zero t"
          | v u where "dial_tls B L host ?t = One v u" "dial_greeting u = Zero t"
          by (auto simp: andthen_def split: outcome.splits)
        then show ?thesis
        proof cases
          case 1
          then show ?thesis using dial_tls_Zero t by blast
        next
          case 2
          have "c_fd u \<ge> 0" using dial_tls_One [OF 2(1)] False by (auto split: if_splits)
          then show ?thesis using dial_greeting_Zero 2(2) by blast
        qed
      qed
    qed
  qed
qed

text \<open>A dial that succeeds: the new socket has been read up to its greeting and nothing has been
  written to it, whatever the old connection had in its buffers.\<close>

definition answers_with :: "tls_build \<Rightarrow> string \<Rightarrow> ossl \<Rightarrow> addr_try \<Rightarrow> byte list \<Rightarrow> 'e zsys \<Rightarrow> bool" where
  "answers_with B host L a bs s \<longleftrightarrow>
     (if g_tls_on s
      then B = Tls_openssl \<and> (case coco_client_tls_open L (ad_fd a) host (g_tls s) 512 of Opened _ _ \<Rightarrow> True | _ \<Rightarrow> False) \<and>
        list_all sslw_fine (ad_sslw a) \<and> sslr_stream (ad_sslr a) = bs
      else list_all send_fine (ad_send a) \<and> recv_stream (ad_recv a) = bs)"

lemma still_held: "still (u :: 'e zsys) = still s \<Longrightarrow> c_held u = c_held s \<and> c_lockfd u = c_lockfd s"
proof -
  have "c_held (still v) = c_held v" "c_lockfd (still v) = c_lockfd v" for v :: "'e zsys"
    by (simp_all add: still_def)
  then show "still u = still s \<Longrightarrow> c_held u = c_held s \<and> c_lockfd u = c_lockfd s" by metis
qed

lemma dial_greeting_ok:
  assumes "line_ok s" and "inbound s = be_bytes 8 (unat tid) @ rest"
  shows "\<exists>t. dial_greeting s = One () t \<and> line_ok t \<and> emitted t = emitted s \<and> inbound t = rest \<and>
    c_tid t = tid \<and> c_err t = '''' \<and> c_held t = c_held s \<and> c_lockfd t = c_lockfd s"
proof -
  obtain u where "rd_sz s = One tid u" "line_ok u" "emitted u = emitted s @ []" "inbound u = rest" "still u = still s"
    using rd_sz_ok assms by (rule talksE)
  then show ?thesis using still_held [of u s] by (simp add: dial_greeting_def)
qed

lemma dial_ok:
  assumes "w_dials s = Addresses as L # r" and up: "first_up as = Some a" and "\<not> c_embed s"
    and "answers_with B host L a (be_bytes 8 (unat tid) @ rest) s"
  shows "\<exists>t. dial B host s = One () t \<and> line_ok t \<and> emitted t = [] \<and> inbound t = rest \<and> c_tid t = tid \<and>
    c_err t = '''' \<and> \<not> (c_lockfd t \<ge> 0 \<and> c_held t)"
proof -
  let ?t = "dial_loop as ((hang_up s)\<lparr>w_dials := r\<rparr>)"
  note t = dial_loop_up [OF up, of "(hang_up s)\<lparr>w_dials := r\<rparr>"]
  have dial: "dial B host s = andthen (dial_tls B L host) (\<lambda>_. dial_greeting) ?t"
    using assms(1) t by (simp add: dial_def Let_def)
  define u where "u = (if g_tls_on s then ?t\<lparr>c_tls := Some ''''\<rparr> else ?t)"
  have "dial_tls B L host ?t = One () u"
    using assms(4) t by (auto simp: dial_tls_def u_def answers_with_def split: tls_opened.splits if_splits)
  then have greet: "dial B host s = dial_greeting u" using dial by (simp add: andthen_One)
  have "line_ok u" "emitted u = []" "inbound u = be_bytes 8 (unat tid) @ rest"
    using assms(3,4) t by (auto simp: u_def line_ok_def emitted_def inbound_def answers_with_def)
  moreover have "\<not> (c_lockfd u \<ge> 0 \<and> c_held u)" using hang_up_turn [of s] by (simp add: u_def)
  ultimately show ?thesis using dial_greeting_ok [of u tid rest] greet by auto
qed

text \<open>With TLS asked for, there is no connection without a handshake that succeeded.\<close>

lemma dial_greeting_tls: "c_tls s \<noteq> None \<Longrightarrow> dial_greeting s = One v t \<Longrightarrow> c_tls t \<noteq> None"
  using keeps_One [OF frame_wire(4) [OF socket_frame_tls], of s]
  by (auto simp: dial_greeting_def split: outcome.splits)

lemma dial_loop_fd: "c_fd (dial_loop as s) = c_fd s \<or> c_fd (dial_loop as s) \<in> ad_fd ` set as"
proof (induction as arbitrary: s)
  case (Cons a as)
  then show ?case
    using Cons.IH [of "s\<lparr>w_errno := ad_errno a\<rparr>"]
      Cons.IH [of "s\<lparr>w_errno := ad_errno a, w_closed := ad_fd a # w_closed s\<rparr>"] by auto
qed simp

lemma dial_tls_on:
  assumes "dial B host s = One v t" and "g_tls_on s"
  shows "B = Tls_openssl \<and> c_tls t \<noteq> None \<and>
    (\<exists>as L r fd cf log. w_dials s = Addresses as L # r \<and> fd \<in> ad_fd ` set as \<and>
       coco_client_tls_open L fd host (g_tls s) 512 = Opened cf log)"
proof -
  obtain as L r where d: "w_dials s = Addresses as L # r"
    using assms(1) by (auto simp: dial_def Let_def split: list.splits dial_ev.splits)
  let ?t = "dial_loop as ((hang_up s)\<lparr>w_dials := r\<rparr>)"
  have "andthen (dial_tls B L host) (\<lambda>_. dial_greeting) ?t = One v t" and up: "\<not> c_fd ?t < 0"
    using assms(1) d by (simp_all add: dial_def Let_def split: if_splits)
  then obtain w u where "dial_tls B L host ?t = One w u" "dial_greeting u = One v t"
    by (blast elim: andthen_OneE)
  moreover have "c_fd ?t \<in> ad_fd ` set as"
    using up dial_loop_fd [of as "(hang_up s)\<lparr>w_dials := r\<rparr>"] by auto
  moreover have "g_tls_on ?t" "g_tls ?t = g_tls s" using assms(2) by simp_all
  ultimately show ?thesis
    using d dial_tls_One [of B L host ?t w u] dial_greeting_tls [of u v t]
    by (simp split: if_splits) (metis image_iff)
qed

text \<open>Closing gives the turn back and closes both descriptors.\<close>

lemma zg_close_socket:
  assumes "\<not> c_embed s"
  shows "c_fd (zg_close E s) = -1" "c_lockfd (zg_close E s) = -1" "c_tls (zg_close E s) = None"
    "set (w_closed (zg_close E s)) = set (w_closed s) \<union> {fd \<in> {c_fd s, c_lockfd s}. fd \<ge> 0}"
    "c_lockfd s \<ge> 0 \<Longrightarrow> \<not> c_held (zg_close E s)"
  using assms by (auto simp: close_lockfd_def zg_close_def Let_def close_fd_def give_turn_def)

lemma keeps_bufs_dial: "keeps bufs_ok (dial B host)"
proof (rule keepsI)
  fix s :: "'e zsys"
  have h: "bufs_ok (hang_up s)" by (simp add: bufs_ok_def)
  have l: "bufs_ok (dial_loop as ((hang_up s)\<lparr>w_dials := r\<rparr>))" for as r by (simp add: bufs_ok_def)
  have c: "bufs_ok (close_fd t) = bufs_ok t" for t :: "'e zsys" by (simp add: bufs_ok_def close_fd_def)
  have m: "bufs_ok (t\<lparr>c_tls := x\<rparr>) = bufs_ok t" "bufs_ok (t\<lparr>c_tid := i\<rparr>) = bufs_ok t" for t :: "'e zsys" and x i
    by (simp_all add: bufs_ok_def)
  have "keeps bufs_ok (dial_tls B L host :: ('e, unit) zact)" for L
    by (auto simp: keeps_def dial_tls_def c m say_def split: tls_build.splits tls_opened.splits)
  moreover have "keeps bufs_ok (dial_greeting :: ('e, unit) zact)"
  proof (rule keepsI)
    fix t :: "'e zsys"
    assume "bufs_ok t"
    then show "bufs_ok (final (dial_greeting t))"
      using keepsD [OF keeps_bufs_wire(4), of t] by (cases "rd_sz t") (auto simp: dial_greeting_def c m)
  qed
  ultimately have "keeps bufs_ok (andthen (dial_tls B L host) (\<lambda>_. dial_greeting) :: ('e, unit) zact)" for L
    by (intro keeps_andthen)
  from keepsD [OF this l] show "bufs_ok (final (dial B host s))"
    using h l [of _ "_"] by (auto simp: dial_def Let_def say2_def bufs_ok_def split: list.splits dial_ev.splits)
qed

end
