(* ===== verification/Zg_Verbs.thy ===== *)
theory Zg_Verbs
  imports Zg_Open
begin

text \<open>
  Results and verbs (client/zigurat.c). A verb takes the turn, names itself, and waits for the
  server to take it; \<open>zg_call_send\<close> and \<open>zg_call_wait\<close> are the same call with the waiting put
  off; commit and rollback give the turn back.
\<close>

section \<open>Results\<close>

definition ZG_SUCCESSFUL_DONE :: int where "ZG_SUCCESSFUL_DONE = 0"
definition ZG_CURSOR_OPEN :: int where "ZG_CURSOR_OPEN = 1"
definition ZG_CURSOR_FETCH :: int where "ZG_CURSOR_FETCH = 2"
definition ZG_CURSOR_CLOSE :: int where "ZG_CURSOR_CLOSE = 3"
definition ZG_RETURN_VALUE :: int where "ZG_RETURN_VALUE = 4"
definition ZG_EXCEPTION_THROWN :: int where "ZG_EXCEPTION_THROWN = 5"

lemmas result_defs = ZG_SUCCESSFUL_DONE_def ZG_CURSOR_OPEN_def ZG_CURSOR_FETCH_def
  ZG_CURSOR_CLOSE_def ZG_RETURN_VALUE_def ZG_EXCEPTION_THROWN_def

definition zg_result :: "'e engine \<Rightarrow> ('e, int) zact" where
  "zg_result E s =
     (if c_embed s then ce_ask E (ce_result E) s
      else andthen rd_u8 (\<lambda>r.
        if uint r = ZG_EXCEPTION_THROWN
        then andthen (rd_std_string (ZG_MAX_STRING + 1)) (\<lambda>msg. lost ''the server refused it'' (Some (string_of msg)))
        else ret (uint r)) s)"

definition verb :: "'e engine \<Rightarrow> string \<Rightarrow> ('e, unit) zact" where
  "verb E name s =
     andthen take_turn (\<lambda>_. andthen (wr_std_string name) (\<lambda>_. andthen (zg_result E) (\<lambda>r.
       if r \<noteq> ZG_SUCCESSFUL_DONE then say2 ''the server would not take the verb'' name else ret ())))
     (s\<lparr>c_err := ''''\<rparr>)"

section \<open>Verbs\<close>

text \<open>\<open>zg_result(c, &r) && r == ZG_SUCCESSFUL_DONE\<close>: 0 with nothing said when it was another result.\<close>

definition result_done :: "'e engine \<Rightarrow> ('e, unit) zact" where
  "result_done E = andthen (zg_result E) (\<lambda>r. if r = ZG_SUCCESSFUL_DONE then ret () else Zero)"

text \<open>\<open>if (!ok && c->err[0] == '\0') return \<dots>; return ok;\<close>\<close>

definition or_say :: "('e, unit) zact \<Rightarrow> ('e, unit) zact \<Rightarrow> ('e, unit) zact" where
  "or_say m refuse s =
     (case m s of Waits t \<Rightarrow> Waits t | One v t \<Rightarrow> One v t
      | Zero t \<Rightarrow> if c_err t = '''' then refuse t else Zero t)"

definition zg_echo :: "'e engine \<Rightarrow> string \<Rightarrow> nat \<Rightarrow> ('e, byte list) zact" where
  "zg_echo E txt outcap =
     (if strlen txt > ZG_MAX_STRING then say ''a String is limited to 255 bytes''
      else andthen (verb E ''echo'') (\<lambda>_. andthen (wr_std_string txt) (\<lambda>_. rd_std_string outcap)))"

definition zg_compile :: "'e engine \<Rightarrow> string \<Rightarrow> ('e, unit) zact" where
  "zg_compile E suite =
     (if strlen suite > ZG_MAX_TEXT then say ''a Text is limited to 65535 bytes''
      else andthen (verb E ''compile'') (\<lambda>_.
        or_say (andthen (wr_std_text suite) (\<lambda>_. result_done E)) (say ''the suite would not compile'')))"

definition zg_call :: "'e engine \<Rightarrow> string \<Rightarrow> ('e, unit) zact" where
  "zg_call E procedure s =
     (if strlen procedure > ZG_MAX_STRING then say ''a String is limited to 255 bytes'' s
      else if c_embed s then ce_do E (\<lambda>sess. ce_call E sess procedure) s
      else andthen (verb E ''call'') (\<lambda>_. andthen (wr_std_string procedure) (\<lambda>_. andthen (zg_result E) (\<lambda>r.
        if r \<noteq> ZG_SUCCESSFUL_DONE then say2 ''the server would not call'' procedure else ret ()))) s)"

definition zg_call_send :: "'e engine \<Rightarrow> string \<Rightarrow> ('e, unit) zact" where
  "zg_call_send E procedure s =
     (if c_embed s then zg_call E procedure s
      else if strlen procedure > ZG_MAX_STRING then say ''a String is limited to 255 bytes'' s
      else andthen take_turn (\<lambda>_. andthen (wr_std_string ''call'') (\<lambda>_. wr_std_string procedure))
             (s\<lparr>c_err := ''''\<rparr>))"

definition zg_call_wait :: "'e engine \<Rightarrow> string \<Rightarrow> ('e, unit) zact" where
  "zg_call_wait E procedure s =
     (if c_embed s then One () s
      else andthen (zg_result E) (\<lambda>r.
        if r \<noteq> ZG_SUCCESSFUL_DONE then say2 ''the server would not take the verb'' ''call''
        else andthen (zg_result E) (\<lambda>r.
          if r \<noteq> ZG_SUCCESSFUL_DONE then say2 ''the server would not call'' procedure else ret ())) s)"

definition zg_auto_commit :: "'e engine \<Rightarrow> bool \<Rightarrow> ('e, unit) zact" where
  "zg_auto_commit E b s =
     (if c_embed s then One () s
      else andthen (verb E ''auto_commit'') (\<lambda>_.
        or_say (andthen (wr [if b then 1 else 0]) (\<lambda>_. result_done E)) (say ''auto_commit was refused'')) s)"

definition zg_isolate :: "'e engine \<Rightarrow> nat \<Rightarrow> ('e, unit) zact" where
  "zg_isolate E level s =
     (if c_embed s then ce_do E (\<lambda>sess. ce_isolate E sess level) s
      else andthen (verb E ''isolate'') (\<lambda>_.
        or_say (andthen (wr_u8 (word_of_nat level)) (\<lambda>_. result_done E))
          (say ''the isolation level was refused'')) s)"

definition simple_verb :: "'e engine \<Rightarrow> string \<Rightarrow> ('e, unit) zact" where
  "simple_verb E name =
     andthen (verb E name) (\<lambda>_. or_say
       (\<lambda>s. case result_done E s of
          Waits t \<Rightarrow> Waits t | Zero t \<Rightarrow> Zero (give_turn t) | One v t \<Rightarrow> One v (give_turn t))
       (say2 ''refused'' name))"

definition zg_commit :: "'e engine \<Rightarrow> ('e, unit) zact" where
  "zg_commit E s = (if c_embed s then ce_do E (ce_commit E) s else simple_verb E ''commit'' s)"

definition zg_rollback :: "'e engine \<Rightarrow> ('e, unit) zact" where
  "zg_rollback E s = (if c_embed s then ce_do E (ce_rollback E) s else simple_verb E ''rollback'' s)"

definition zg_columns :: "'e engine \<Rightarrow> nat \<Rightarrow> ('e, byte list) zact" where
  "zg_columns E outcap s =
     (if c_embed s then ce_ask E (\<lambda>sess. ce_columns E sess outcap) s else rd_std_string outcap s)"

section \<open>A line on which a verb goes through\<close>

text \<open>The turn is not wanted, is held, or can be had: the lock is free now, or it comes free and
  the wait has no limit.\<close>

fun flock_free :: "bool \<Rightarrow> flock_ev \<Rightarrow> bool" where
  "flock_free patient FGot = True"
| "flock_free patient (FErr e) = (patient \<and> (e = E_AGAIN \<or> e = E_INTR))"

definition turn_ok :: "'e zsys \<Rightarrow> bool" where
  "turn_ok s \<longleftrightarrow> c_lockfd s < 0 \<or> c_held s \<or> list_all (flock_free (c_lockwait s \<le> 0)) (w_flock s)"

definition verb_ok :: "'e zsys \<Rightarrow> bool" where
  "verb_ok s \<longleftrightarrow> line_ok s \<and> turn_ok s"

definition verb_still :: "'e zsys \<Rightarrow> 'e zsys" where
  "verb_still s = (still s)\<lparr>c_err := '''', c_held := False, w_flock := [], w_locked := False, w_slept := 0\<rparr>"

lemma still_fields:
  "c_held (still s) = c_held s" "c_lockfd (still s) = c_lockfd s" "c_lockwait (still s) = c_lockwait s"
  "w_flock (still s) = w_flock s" "c_embed (still s) = c_embed s"
  by (simp_all add: still_def)

lemma turn_ok_still: "still t = still s \<Longrightarrow> turn_ok t = turn_ok s"
  by (metis turn_ok_def still_fields)

lemma verb_still_still: "still t = still s \<Longrightarrow> verb_still t = verb_still s"
  by (simp add: verb_still_def)

lemma talks_verb:
  assumes "talks line_ok emitted inbound still (m :: ('e, 'a) zact) obs ibs v"
  shows "talks verb_ok emitted inbound verb_still m obs ibs v"
proof (rule talksI)
  fix s :: "'e zsys" and rest
  assume s: "verb_ok s" "inbound s = ibs @ rest"
  then have "line_ok s" by (simp add: verb_ok_def)
  with assms obtain t where "m s = One v t" "line_ok t" "emitted t = emitted s @ obs" "inbound t = rest"
      "still t = still s"
    using s(2) by (rule talksE)
  then show "\<exists>t. m s = One v t \<and> verb_ok t \<and> emitted t = emitted s @ obs \<and> inbound t = rest \<and>
      verb_still t = verb_still s"
    using s turn_ok_still verb_still_still by (auto simp: verb_ok_def)
qed

lemma take_turn_poll_ok:
  "list_all (flock_free (c_lockwait s \<le> 0)) (w_flock s) \<Longrightarrow>
    \<exists>fl e n. take_turn_poll w s = One () (s\<lparr>w_flock := fl, w_errno := e, w_slept := n, w_locked := True, c_held := True\<rparr>)"
proof (induction w s rule: take_turn_poll_induct)
  case (free w s)
  then show ?case by (intro exI [of _ "w_flock s"] exI [of _ "w_errno s"] exI [of _ "w_slept s"]) simp
next
  case (got w s r)
  then show ?case by (intro exI [of _ r] exI [of _ "w_errno s"] exI [of _ "w_slept s"]) simp
qed auto

lemma take_turn_ok: "talks verb_ok emitted inbound verb_still take_turn [] [] ()"
proof (rule talksI)
  fix s :: "'e zsys" and rest
  assume s: "verb_ok s" "inbound s = [] @ rest"
  show "\<exists>t. take_turn s = One () t \<and> verb_ok t \<and> emitted t = emitted s @ [] \<and> inbound t = rest \<and>
      verb_still t = verb_still s"
  proof (cases "c_lockfd s < 0 \<or> c_held s")
    case True
    then show ?thesis using s by (simp add: take_turn_def)
  next
    case False
    then obtain fl e n where "take_turn s = One () (s\<lparr>w_flock := fl, w_errno := e, w_slept := n, w_locked := True, c_held := True\<rparr>)"
      using take_turn_poll_ok [of s 0] s(1) by (auto simp: take_turn_def verb_ok_def turn_ok_def)
    then show ?thesis using s by (simp add: verb_ok_def turn_ok_def verb_still_def still_def)
  qed
qed

lemma zg_result_ok:
  assumes "uint r \<noteq> ZG_EXCEPTION_THROWN"
  shows "talks line_ok emitted inbound still (zg_result E) [] [r] (uint r)"
proof (rule talks_eq [OF _ u8_then])
  show "talks line_ok emitted inbound still
      (if uint r = ZG_EXCEPTION_THROWN
       then andthen (rd_std_string (ZG_MAX_STRING + 1)) (\<lambda>msg. lost ''the server refused it'' (Some (string_of msg)))
       else ret (uint r)) [] [] (uint r)"
    using assms by (simp add: talks_ret)
qed (simp add: zg_result_def line_ok_def)

lemma verb_clear: "talks verb_ok emitted inbound verb_still (m :: ('e, 'a) zact) obs ibs v \<Longrightarrow>
    talks verb_ok emitted inbound verb_still (\<lambda>s. m (s\<lparr>c_err := ''''\<rparr>)) obs ibs v"
proof (rule talksI)
  fix s :: "'e zsys" and rest
  assume m: "talks verb_ok emitted inbound verb_still m obs ibs v" and s: "verb_ok s" "inbound s = ibs @ rest"
  have "verb_ok (s\<lparr>c_err := ''''\<rparr>)" "inbound (s\<lparr>c_err := ''''\<rparr>) = ibs @ rest"
    using s by (simp_all add: verb_ok_def turn_ok_def)
  with m obtain t where "m (s\<lparr>c_err := ''''\<rparr>) = One v t" "verb_ok t" "emitted t = emitted (s\<lparr>c_err := ''''\<rparr>) @ obs"
      "inbound t = rest" "verb_still t = verb_still (s\<lparr>c_err := ''''\<rparr>)"
    by (rule talksE)
  then show "\<exists>t. m (s\<lparr>c_err := ''''\<rparr>) = One v t \<and> verb_ok t \<and> emitted t = emitted s @ obs \<and> inbound t = rest \<and>
      verb_still t = verb_still s"
    by (simp add: verb_still_def still_def)
qed

lemma talks_done_or:
  assumes "talks verb_ok emitted inbound verb_still (m :: ('e, int) zact) obs ibs ZG_SUCCESSFUL_DONE"
  shows "talks verb_ok emitted inbound verb_still
    (andthen m (\<lambda>r. if r \<noteq> ZG_SUCCESSFUL_DONE then k else ret ())) obs ibs ()"
  using talks_andthen [OF assms, of "\<lambda>r. if r \<noteq> ZG_SUCCESSFUL_DONE then k else ret ()" "[]" "[]" "()"]
  by (simp add: talks_ret)

lemma result_0: "talks verb_ok emitted inbound verb_still (zg_result E) [] [0] ZG_SUCCESSFUL_DONE"
  using talks_verb [OF zg_result_ok [of 0 E]] by (simp add: result_defs)

definition name_ok :: "string \<Rightarrow> bool" where
  "name_ok s \<longleftrightarrow> strlen s \<le> ZG_MAX_STRING"

definition name_bytes :: "string \<Rightarrow> byte list" where
  "name_bytes s = str_bytes (bytes_of (cstr s))"

lemma wr_name: "name_ok s \<Longrightarrow> talks verb_ok emitted inbound verb_still (wr_std_string s) (name_bytes s) [] ()"
  unfolding name_ok_def name_bytes_def by (rule talks_verb [OF wr_std_string_ok])

text \<open>A verb the server takes: its name goes out and one zero byte comes in.\<close>

lemma verb_talks:
  assumes "name_ok name"
  shows "talks verb_ok emitted inbound verb_still (verb E name) (name_bytes name) [0] ()"
proof -
  let ?k = "say2 ''the server would not take the verb'' name"
  have "talks verb_ok emitted inbound verb_still
      (andthen take_turn (\<lambda>_. andthen (wr_std_string name) (\<lambda>_. andthen (zg_result E) (\<lambda>r.
        if r \<noteq> ZG_SUCCESSFUL_DONE then ?k else ret ()))))
      ([] @ name_bytes name @ []) ([] @ [] @ [0]) ()"
    by (intro talks_andthen [OF take_turn_ok] talks_andthen [OF wr_name [OF assms]] talks_done_or result_0)
  from verb_clear [OF this] show ?thesis by (simp add: verb_def [abs_def])
qed

lemma name_ok_literals [simp]:
  "name_ok ''call''" "name_ok ''echo''" "name_ok ''compile''" "name_ok ''commit''" "name_ok ''rollback''"
  "name_ok ''isolate''" "name_ok ''auto_commit''"
  by (simp_all add: name_ok_def strlen_def cstr_def ZG_MAX_STRING_def)

lemma verb_ok_embed: "verb_ok s \<Longrightarrow> \<not> c_embed s"
  by (simp add: verb_ok_def line_ok_def)

definition call_bytes :: "string \<Rightarrow> byte list" where
  "call_bytes p = name_bytes ''call'' @ name_bytes p"

lemma zg_call_talks:
  assumes "name_ok p"
  shows "talks verb_ok emitted inbound verb_still (zg_call E p) (call_bytes p) [0, 0] ()"
proof (rule talks_eq)
  let ?m = "andthen (verb E ''call'') (\<lambda>_. andthen (wr_std_string p) (\<lambda>_. andthen (zg_result E) (\<lambda>r.
        if r \<noteq> ZG_SUCCESSFUL_DONE then say2 ''the server would not call'' p else ret ())))"
  show "zg_call E p s = ?m s" if "verb_ok s" for s
    using that assms by (auto simp: zg_call_def name_ok_def dest: verb_ok_embed)
  have "talks verb_ok emitted inbound verb_still ?m (name_bytes ''call'' @ name_bytes p @ []) ([0] @ [] @ [0]) ()"
    by (intro talks_andthen [OF verb_talks] talks_andthen [OF wr_name [OF assms]] talks_done_or result_0) simp
  then show "talks verb_ok emitted inbound verb_still ?m (call_bytes p) [0, 0] ()"
    by (simp add: call_bytes_def)
qed

lemma zg_call_send_talks:
  assumes "name_ok p"
  shows "talks verb_ok emitted inbound verb_still (zg_call_send E p) (call_bytes p) [] ()"
proof (rule talks_eq)
  let ?m = "\<lambda>s. andthen take_turn (\<lambda>_. andthen (wr_std_string ''call'') (\<lambda>_. wr_std_string p)) (s\<lparr>c_err := ''''\<rparr>)"
  show "zg_call_send E p s = ?m s" if "verb_ok s" for s
    using that assms by (auto simp: zg_call_send_def name_ok_def dest: verb_ok_embed)
  have "talks verb_ok emitted inbound verb_still
      (andthen take_turn (\<lambda>_. andthen (wr_std_string ''call'') (\<lambda>_. wr_std_string p)))
      ([] @ name_bytes ''call'' @ name_bytes p) ([] @ [] @ []) ()"
    by (intro talks_andthen [OF take_turn_ok] talks_andthen [OF wr_name] wr_name assms) simp
  from verb_clear [OF this] show "talks verb_ok emitted inbound verb_still ?m (call_bytes p) [] ()"
    by (simp add: call_bytes_def)
qed

lemma zg_call_wait_talks: "talks verb_ok emitted inbound verb_still (zg_call_wait E p) [] [0, 0] ()"
proof (rule talks_eq)
  let ?m = "andthen (zg_result E) (\<lambda>r.
        if r \<noteq> ZG_SUCCESSFUL_DONE then say2 ''the server would not take the verb'' ''call''
        else andthen (zg_result E) (\<lambda>r.
          if r \<noteq> ZG_SUCCESSFUL_DONE then say2 ''the server would not call'' p else ret ()))"
  show "zg_call_wait E p s = ?m s" if "verb_ok s" for s
    using that by (auto simp: zg_call_wait_def dest: verb_ok_embed)
  have "talks verb_ok emitted inbound verb_still ?m ([] @ []) ([0] @ [0]) ()"
    by (rule talks_andthen [OF result_0]) (simp add: talks_done_or [OF result_0, simplified])
  then show "talks verb_ok emitted inbound verb_still ?m [] [0, 0] ()" by simp
qed

section \<open>Pipelining\<close>

text \<open>Sending every call and then waiting for every one is the same conversation as calling one
  after the other.\<close>

lemma for_each_both:
  assumes "\<And>x. x \<in> set xs \<Longrightarrow> talks good emitted pending frame (f x) (out x) (inp x) ()"
  shows "talks good emitted pending frame (for_each xs f) (concat (map out xs)) (concat (map inp xs)) ()"
  using assms
proof (induction xs)
  case Nil
  show ?case by (simp add: talks_ret)
next
  case (Cons x xs)
  then have "talks good emitted pending frame (andthen (f x) (\<lambda>_. for_each xs f))
      (out x @ concat (map out xs)) (inp x @ concat (map inp xs)) ()"
    by (intro talks_andthen) auto
  then show ?case by simp
qed

definition acks :: "'a list \<Rightarrow> byte list" where
  "acks ps = concat (map (\<lambda>_. [0, 0]) ps)"

lemma calls_one_by_one:
  assumes "list_all name_ok ps"
  shows "talks verb_ok emitted inbound verb_still (for_each ps (zg_call E)) (concat (map call_bytes ps)) (acks ps) ()"
  unfolding acks_def using assms by (intro for_each_both zg_call_talks) (simp add: list_all_iff)

lemma calls_pipelined:
  assumes "list_all name_ok ps"
  shows "talks verb_ok emitted inbound verb_still
    (andthen (for_each ps (zg_call_send E)) (\<lambda>_. for_each ps (zg_call_wait E)))
    (concat (map call_bytes ps)) (acks ps) ()"
proof -
  have "talks verb_ok emitted inbound verb_still (for_each ps (zg_call_send E))
      (concat (map call_bytes ps)) (concat (map (\<lambda>_. []) ps)) ()"
    using assms by (intro for_each_both zg_call_send_talks) (simp add: list_all_iff)
  moreover have "talks verb_ok emitted inbound verb_still (for_each ps (zg_call_wait E))
      (concat (map (\<lambda>_. []) ps)) (acks ps) ()"
    unfolding acks_def by (intro for_each_both zg_call_wait_talks)
  ultimately have "talks verb_ok emitted inbound verb_still
      (andthen (for_each ps (zg_call_send E)) (\<lambda>_. for_each ps (zg_call_wait E)))
      (concat (map call_bytes ps) @ concat (map (\<lambda>_. []) ps)) (concat (map (\<lambda>_. []) ps) @ acks ps) ()"
    by (rule talks_andthen)
  moreover have "concat (map (\<lambda>_. []) ps) = ([] :: byte list)" by (induction ps) simp_all
  ultimately show ?thesis by simp
qed

section \<open>The other verbs\<close>

lemma result_done_talks: "talks verb_ok emitted inbound verb_still (result_done E) [] [0] ()"
  using talks_andthen [OF result_0, of "\<lambda>r. if r = ZG_SUCCESSFUL_DONE then ret () else Zero" "[]" "[]" "()"]
  by (simp add: result_done_def talks_ret)

lemma or_say_talks: "talks verb_ok emitted inbound verb_still (m :: ('e, unit) zact) obs ibs () \<Longrightarrow>
    talks verb_ok emitted inbound verb_still (or_say m k) obs ibs ()"
  by (fastforce simp: talks_def or_say_def)

lemma zg_compile_talks:
  assumes "strlen suite \<le> ZG_MAX_TEXT"
  shows "talks verb_ok emitted inbound verb_still (zg_compile E suite)
    (name_bytes ''compile'' @ text_bytes (bytes_of (cstr suite))) [0, 0] ()"
proof -
  let ?k = "say ''the suite would not compile''"
  have "talks verb_ok emitted inbound verb_still
      (andthen (verb E ''compile'') (\<lambda>_. or_say (andthen (wr_std_text suite) (\<lambda>_. result_done E)) ?k))
      (name_bytes ''compile'' @ text_bytes (bytes_of (cstr suite)) @ []) ([0] @ [] @ [0]) ()"
    by (intro talks_andthen [OF verb_talks] or_say_talks talks_andthen [OF talks_verb [OF wr_std_text_ok]]
        result_done_talks assms) simp
  then show ?thesis using assms by (simp add: zg_compile_def)
qed

lemma zg_echo_talks:
  assumes "name_ok txt" and "length bs < cap" and "length bs \<le> ZG_MAX_STRING"
  shows "talks verb_ok emitted inbound verb_still (zg_echo E txt cap)
    (name_bytes ''echo'' @ name_bytes txt) (0 # str_bytes bs) bs"
proof -
  have "talks verb_ok emitted inbound verb_still
      (andthen (verb E ''echo'') (\<lambda>_. andthen (wr_std_string txt) (\<lambda>_. rd_std_string cap)))
      (name_bytes ''echo'' @ name_bytes txt @ []) ([0] @ [] @ str_bytes bs) bs"
    by (intro talks_andthen [OF verb_talks] talks_andthen [OF wr_name [OF assms(1)]]
        talks_verb [OF rd_std_string_ok [OF assms(2,3)]]) simp
  then show ?thesis using assms(1) by (simp add: zg_echo_def name_ok_def)
qed

lemma zg_isolate_talks:
  "talks verb_ok emitted inbound verb_still (zg_isolate E level)
     (name_bytes ''isolate'' @ [word_of_nat level]) [0, 0] ()"
proof (rule talks_eq)
  let ?m = "andthen (verb E ''isolate'') (\<lambda>_.
        or_say (andthen (wr_u8 (word_of_nat level)) (\<lambda>_. result_done E)) (say ''the isolation level was refused''))"
  show "zg_isolate E level s = ?m s" if "verb_ok s" for s
    using verb_ok_embed [OF that] by (simp add: zg_isolate_def)
  have "talks verb_ok emitted inbound verb_still ?m (name_bytes ''isolate'' @ [word_of_nat level] @ []) ([0] @ [] @ [0]) ()"
    by (intro talks_andthen [OF verb_talks] or_say_talks talks_andthen [OF talks_verb [OF wr_u8_ok]] result_done_talks)
      simp
  then show "talks verb_ok emitted inbound verb_still ?m (name_bytes ''isolate'' @ [word_of_nat level]) [0, 0] ()" by simp
qed

lemma zg_auto_commit_talks:
  "talks verb_ok emitted inbound verb_still (zg_auto_commit E b)
     (name_bytes ''auto_commit'' @ [if b then 1 else 0]) [0, 0] ()"
proof (rule talks_eq)
  let ?m = "andthen (verb E ''auto_commit'') (\<lambda>_.
        or_say (andthen (wr [if b then 1 else 0]) (\<lambda>_. result_done E)) (say ''auto_commit was refused''))"
  show "zg_auto_commit E b s = ?m s" if "verb_ok s" for s
    using verb_ok_embed [OF that] by (simp add: zg_auto_commit_def)
  have "talks verb_ok emitted inbound verb_still ?m (name_bytes ''auto_commit'' @ [if b then 1 else 0] @ []) ([0] @ [] @ [0]) ()"
    by (intro talks_andthen [OF verb_talks] or_say_talks talks_andthen [OF talks_verb [OF wire.wr_exact]] result_done_talks)
      simp
  then show "talks verb_ok emitted inbound verb_still ?m (name_bytes ''auto_commit'' @ [if b then 1 else 0]) [0, 0] ()" by simp
qed

text \<open>Commit and rollback: the turn is free again when the call is over.\<close>

lemma give_turn_line [simp]:
  "line_ok (give_turn s) = line_ok s" "emitted (give_turn s) = emitted s" "inbound (give_turn s) = inbound s"
  by (simp_all add: give_turn_def flock_un_def)

lemma give_turn_free: "\<not> (c_lockfd (give_turn s) \<ge> 0 \<and> c_held (give_turn s))"
  by (auto simp: give_turn_def)

lemma simple_verb_ok:
  assumes "name_ok name" and "verb_ok s" and "inbound s = [0, 0] @ rest"
  shows "\<exists>t. simple_verb E name s = One () t \<and> line_ok t \<and> emitted t = emitted s @ name_bytes name \<and>
    inbound t = rest \<and> \<not> (c_lockfd t \<ge> 0 \<and> c_held t)"
proof -
  obtain u where u: "verb E name s = One () u" "verb_ok u" "emitted u = emitted s @ name_bytes name" "inbound u = [0] @ rest"
    using verb_talks [OF assms(1)] assms(2) by (rule talksE [of _ _ _ _ _ _ _ _ _ "[0] @ rest"]) (simp add: assms(3))
  obtain w where w: "result_done E u = One () w" "verb_ok w" "emitted w = emitted u @ []" "inbound w = rest"
    using result_done_talks u(2,4) by (rule talksE)
  have "simple_verb E name s = One () (give_turn w)"
    using u(1) w(1) by (simp add: simple_verb_def andthen_One or_say_def)
  then show ?thesis using u w give_turn_free [of w] by (auto simp: verb_ok_def)
qed

lemma simple_verb_frees:
  assumes "verb E name s = One v t" and "simple_verb E name s = One w u \<or> simple_verb E name s = Zero u"
  shows "\<not> (c_lockfd u \<ge> 0 \<and> c_held u)"
proof -
  let ?m = "\<lambda>s. case result_done E s of
      Waits t \<Rightarrow> Waits t | Zero t \<Rightarrow> Zero (give_turn t) | One v t \<Rightarrow> One v (give_turn t)"
  have "simple_verb E name s = or_say ?m (say2 ''refused'' name) t"
    using assms(1) by (simp add: simple_verb_def andthen_def)
  then show ?thesis
    using assms(2) give_turn_free
    by (cases "result_done E t") (auto simp: or_say_def say2_def split: if_splits)
qed

section \<open>Refusals\<close>

text \<open>An exception of the server ends the connection, in the server's words.\<close>

lemma zg_result_exception:
  assumes "line_ok s" and "inbound s = 5 # str_bytes msg @ rest" and "length msg \<le> ZG_MAX_STRING"
  shows "\<exists>t. zg_result E s = Zero t \<and> ended t \<and>
    c_err t = snprintf_s 512 (''the server refused it: '' @ cstr (string_of msg))"
proof -
  obtain u where u: "rd_u8 s = One 5 u" "line_ok u" "inbound u = str_bytes msg @ rest"
    using rd_u8_ok assms(1) by (rule talksE [of _ _ _ _ _ _ _ _ _ "str_bytes msg @ rest"]) (simp add: assms(2))
  have fits: "length msg < ZG_MAX_STRING + 1" using assms(3) by simp
  obtain w where w: "rd_std_string (ZG_MAX_STRING + 1) u = One msg w"
    using rd_std_string_ok [OF fits assms(3)] u(2,3) by (rule talksE)
  have "zg_result E s = lost ''the server refused it'' (Some (string_of msg)) w"
    using u(1) w assms(1) by (simp add: zg_result_def line_ok_def andthen_def ZG_EXCEPTION_THROWN_def)
  moreover obtain t where "lost ''the server refused it'' (Some (string_of msg)) w = (Zero t :: ('a zsys, int) outcome)" "ended t"
    using lost_ends by metis
  moreover have "c_err t = snprintf_s 512 (''the server refused it: '' @ cstr (string_of msg))"
    using calculation(2) by (auto simp: lost_def Let_def say2_def)
  ultimately show ?thesis by auto
qed

text \<open>A value that is too long is refused before anything happens.\<close>

lemma too_long_string:
  assumes "strlen p > ZG_MAX_STRING"
  shows "zg_echo E p cap s = Zero (s\<lparr>c_err := ''a String is limited to 255 bytes''\<rparr>)"
    and "zg_call E p s = Zero (s\<lparr>c_err := ''a String is limited to 255 bytes''\<rparr>)"
    and "zg_call_send E p s = Zero (s\<lparr>c_err := ''a String is limited to 255 bytes''\<rparr>)"
  using assms by (simp_all add: zg_echo_def zg_call_def zg_call_send_def say_def snprintf_s_def cstr_def)

lemma too_long_suite:
  "strlen suite > ZG_MAX_TEXT \<Longrightarrow> zg_compile E suite s = Zero (s\<lparr>c_err := ''a Text is limited to 65535 bytes''\<rparr>)"
  by (simp add: zg_compile_def say_def snprintf_s_def cstr_def)

text \<open>A verb on a connection that is closed takes the turn and leaves with it.\<close>

lemma closed_verb_keeps_turn:
  assumes "c_fd s < 0" and "c_lockfd s \<ge> 0" and "\<not> c_held s" and "w_flock s = []" and "name_ok name"
  shows "verb E name s = Zero (s\<lparr>c_err := ''the connection is closed'', w_locked := True, c_held := True\<rparr>)"
proof -
  have "take_turn (s\<lparr>c_err := ''''\<rparr>) = One () (s\<lparr>c_err := '''', w_locked := True, c_held := True\<rparr>)"
    using assms by (simp add: take_turn_def take_turn_poll_cases)
  moreover have "wr_std_string name u = Zero (u\<lparr>c_err := ''the connection is closed''\<rparr>)" if "c_fd u < 0" for u :: "'a zsys"
    using that assms(5)
    by (simp add: wr_std_string_def Let_def name_ok_def wr_u8_def wr_def andthen_def say_def snprintf_s_def cstr_def)
  ultimately show ?thesis using assms(1) by (simp add: verb_def andthen_def)
qed

section \<open>The invariant of the buffers\<close>

lemma keeps_bufs_lost [keeps_rules]: "keeps bufs_ok (lost w d)"
  by (simp add: keeps_def bufs_ok_lost)

lemma bufs_ok_turn [simp]: "bufs_ok (give_turn s) = bufs_ok s"
  by (simp add: bufs_ok_def)

lemma keeps_bufs_take_turn [keeps_rules]: "keeps bufs_ok take_turn"
proof (rule keepsI)
  fix s :: "'e zsys"
  assume "bufs_ok s"
  moreover have "bufs_ok (unturned t) = bufs_ok t" for t :: "'e zsys" by (simp add: bufs_ok_def unturned_def)
  ultimately show "bufs_ok (final (take_turn s))" using take_turn_frame by metis
qed

lemma keeps_clear: "(\<And>s m. P (s\<lparr>c_err := m\<rparr>) = P s) \<Longrightarrow> keeps P m \<Longrightarrow> keeps P (\<lambda>s. m (s\<lparr>c_err := x\<rparr>))"
  by (simp add: keeps_def)

lemma keeps_cond: "keeps P m \<Longrightarrow> keeps P k \<Longrightarrow> keeps P (\<lambda>s. if b s then m s else k s)"
  by (simp add: keeps_def)

lemma keeps_Zero [keeps_rules]: "keeps P Zero"
  by (simp add: keeps_def)

lemma keeps_One_unit [keeps_rules]: "keeps P (One ())"
  by (simp add: keeps_def)

lemma keeps_or_say [keeps_rules]: "keeps P m \<Longrightarrow> keeps P k \<Longrightarrow> keeps P (or_say m k)"
  by (force simp: keeps_def or_say_def split: outcome.splits)

lemma keeps_bufs_result [keeps_rules]: "keeps bufs_ok (zg_result E)"
  unfolding zg_result_def [abs_def] by (intro keeps_cond keeps_rules)

lemma keeps_bufs_verb [keeps_rules]: "keeps bufs_ok (verb E name)"
  unfolding verb_def [abs_def] by (intro keeps_clear keeps_rules) simp

lemma keeps_bufs_result_done [keeps_rules]: "keeps bufs_ok (result_done E)"
  unfolding result_done_def by (intro keeps_rules)

lemma keeps_bufs_simple_verb [keeps_rules]: "keeps bufs_ok (simple_verb (E :: 'e engine) name)"
proof -
  let ?m = "\<lambda>s. case result_done E s of
      Waits t \<Rightarrow> Waits t | Zero t \<Rightarrow> Zero (give_turn t) | One v t \<Rightarrow> One v (give_turn t)"
  have "keeps bufs_ok ?m"
  proof (rule keepsI)
    fix s :: "'e zsys"
    assume "bufs_ok s"
    then show "bufs_ok (final (?m s))"
      using keepsD [OF keeps_bufs_result_done [of E], of s] by (cases "result_done E s") auto
  qed
  then show ?thesis unfolding simple_verb_def by (intro keeps_rules)
qed

lemma keeps_bufs_verbs [keeps_rules]:
  "keeps bufs_ok (zg_echo E txt cap)" "keeps bufs_ok (zg_compile E suite)" "keeps bufs_ok (zg_call E p)"
  "keeps bufs_ok (zg_call_wait E p)" "keeps bufs_ok (zg_auto_commit E b)" "keeps bufs_ok (zg_isolate E l)"
  "keeps bufs_ok (zg_commit E)" "keeps bufs_ok (zg_rollback E)" "keeps bufs_ok (zg_columns E cap)"
  unfolding zg_echo_def zg_compile_def zg_call_def [abs_def] zg_call_wait_def [abs_def] zg_auto_commit_def [abs_def]
    zg_isolate_def [abs_def] zg_commit_def [abs_def] zg_rollback_def [abs_def] zg_columns_def [abs_def]
  by (intro keeps_cond keeps_rules)+

lemma keeps_bufs_call_send [keeps_rules]: "keeps bufs_ok (zg_call_send E p)"
  unfolding zg_call_send_def [abs_def] by (intro keeps_cond keeps_clear keeps_rules) simp

lemma keeps_bufs_reopen [keeps_rules]: "keeps bufs_ok (zg_reopen E B host)"
  unfolding zg_reopen_def [abs_def] by (intro keeps_cond keeps_bufs_dial keeps_rules)

end
