(* ===== verification/Zg_Fields.thy ===== *)
theory Zg_Fields
  imports Zg_Verbs
begin

text \<open>
  Parameters and fields (client/zigurat.c): a field is a descriptor byte and a value in the wire's
  byte order. Doubles are their 64 bits. A reader hands back \<open>None\<close> for a null field. The skip of a
  field whose type nobody knows recurses into vectors, and the drain reads a result to its end.
\<close>

section \<open>Writing parameters\<close>

definition wr_field :: "byte \<Rightarrow> nat \<Rightarrow> nat \<Rightarrow> ('e, unit) zact" where
  "wr_field tdb n v = andthen (wr_u8 tdb) (\<lambda>_. wr_be n v)"

definition zg_write_bool :: "bool \<Rightarrow> ('e, unit) zact" where
  "zg_write_bool v = wr_field TDB_BOOL 1 (if v then 1 else 0)"

definition zg_write_int :: "'e engine \<Rightarrow> 32 word \<Rightarrow> ('e, unit) zact" where
  "zg_write_int E v s =
     (if c_embed s then ce_do E (\<lambda>sess. ce_write_num E sess TDB_INT (word_of_int (sint v))) s
      else wr_field TDB_INT 4 (unat v) s)"

definition zg_write_long :: "'e engine \<Rightarrow> 64 word \<Rightarrow> ('e, unit) zact" where
  "zg_write_long E v s =
     (if c_embed s then ce_do E (\<lambda>sess. ce_write_num E sess TDB_LONG v) s
      else wr_field TDB_LONG 8 (unat v) s)"

definition zg_write_double :: "64 word \<Rightarrow> ('e, unit) zact" where
  "zg_write_double v = wr_field TDB_DOUBLE 8 (unat v)"

definition zg_write_string :: "'e engine \<Rightarrow> string \<Rightarrow> ('e, unit) zact" where
  "zg_write_string E x s =
     (if strlen x > ZG_MAX_STRING then say ''a String is limited to 255 bytes'' s
      else if c_embed s then ce_do E (\<lambda>sess. ce_write_str E sess TDB_STRING x) s
      else andthen (wr_u8 TDB_STRING) (\<lambda>_. wr_std_string x) s)"

definition zg_write_text :: "'e engine \<Rightarrow> string \<Rightarrow> ('e, unit) zact" where
  "zg_write_text E x s =
     (if strlen x > ZG_MAX_TEXT then say ''a Text is limited to 65535 bytes'' s
      else if c_embed s then ce_do E (\<lambda>sess. ce_write_str E sess TDB_TEXT x) s
      else andthen (wr_u8 TDB_TEXT) (\<lambda>_. wr_std_text x) s)"

text \<open>The \<open>n\<close> doubles at \<open>v\<close> are the list; \<open>n\<close> is a \<open>uint32_t\<close>, so its length is below \<open>2 ^ 32\<close>.\<close>

definition zg_write_dvector :: "'e engine \<Rightarrow> 64 word list \<Rightarrow> ('e, unit) zact" where
  "zg_write_dvector E v s =
     (if c_embed s then ce_do E (\<lambda>sess. ce_write_dvector E sess v) s
      else andthen (wr_u8 (TDB_SCALE_DWRD OR TDB_DOUBLE)) (\<lambda>_.
        andthen (wr_be 4 (length v)) (\<lambda>_.
          for_each v (\<lambda>x. andthen (wr_u8 TDB_DOUBLE) (\<lambda>_. wr_be 8 (unat x))))) s)"

section \<open>Reading fields\<close>

definition field_head :: "('e, byte \<times> bool) zact" where
  "field_head = andthen rd_u8 (\<lambda>tdb. ret (tdb, tdb AND TDB_IS_NULL \<noteq> 0))"

definition rd_scalar :: "nat \<Rightarrow> ('e, nat option) zact" where
  "rd_scalar n = andthen field_head (\<lambda>(tdb, null).
     if null then ret None else andthen (rd_be n) (\<lambda>v. ret (Some v)))"

text \<open>A null Bool also writes 0 to \<open>*v\<close>; the caller is told it was null.\<close>

definition zg_read_bool :: "('e, bool option) zact" where
  "zg_read_bool = andthen (rd_scalar 1) (\<lambda>b. ret (map_option (\<lambda>b. b \<noteq> 0) b))"

definition zg_read_int :: "'e engine \<Rightarrow> ('e, 32 word option) zact" where
  "zg_read_int E s =
     (if c_embed s then andthen (ce_ask E (ce_read_num E)) (\<lambda>n. ret (Some (word_of_int (uint n)))) s
      else andthen (rd_scalar 4) (\<lambda>v. ret (map_option word_of_nat v)) s)"

definition zg_read_long :: "'e engine \<Rightarrow> ('e, 64 word option) zact" where
  "zg_read_long E s =
     (if c_embed s then andthen (ce_ask E (ce_read_num E)) (\<lambda>n. ret (Some n)) s
      else andthen (rd_scalar 8) (\<lambda>v. ret (map_option word_of_nat v)) s)"

definition zg_read_double :: "('e, 64 word option) zact" where
  "zg_read_double = andthen (rd_scalar 8) (\<lambda>v. ret (map_option word_of_nat v))"

definition zg_read_string :: "'e engine \<Rightarrow> nat \<Rightarrow> ('e, byte list option) zact" where
  "zg_read_string E cap s =
     (if c_embed s then andthen (ce_ask E (\<lambda>sess. ce_read_str E sess cap)) (\<lambda>v. ret (Some v)) s
      else andthen field_head (\<lambda>(tdb, null).
        if null then ret None else andthen (rd_std_string cap) (\<lambda>v. ret (Some v))) s)"

text \<open>\<open>uint16\<close> count and bytes into a buffer of \<open>cap\<close>: the tail of \<open>zg_read_text\<close> and of the Text
  case of \<open>zg_read_field\<close>.\<close>

definition rd_text_body :: "nat \<Rightarrow> ('e, byte list) zact" where
  "rd_text_body cap = andthen rd_u16 (\<lambda>n.
     if unat n + 1 > cap
     then andthen (skip (unat n)) (\<lambda>_. say ''the Text does not fit in the buffer given'')
     else if n \<noteq> 0 then rd (unat n) else ret [])"

definition zg_read_text :: "'e engine \<Rightarrow> nat \<Rightarrow> ('e, byte list option) zact" where
  "zg_read_text E cap s =
     (if c_embed s then andthen (ce_ask E (\<lambda>sess. ce_read_str E sess cap)) (\<lambda>v. ret (Some v)) s
      else andthen field_head (\<lambda>(tdb, null).
        if null then ret None else andthen (rd_text_body cap) (\<lambda>v. ret (Some v))) s)"

definition zg_read_text_alloc :: "'e engine \<Rightarrow> ('e, byte list option) zact" where
  "zg_read_text_alloc E s =
     (if c_embed s then andthen (ce_ask E (ce_read_str_alloc E)) (\<lambda>v. ret (Some v)) s
      else andthen field_head (\<lambda>(tdb, null).
        if null then ret None
        else andthen rd_u16 (\<lambda>n s. case take_malloc s of
            (False, t) \<Rightarrow> andthen (attempt (skip (unat n))) (\<lambda>_. say ''out of memory reading a Text'') t
          | (True, t) \<Rightarrow> andthen (if n \<noteq> 0 then rd (unat n) else ret []) (\<lambda>v. ret (Some v)) t)) s)"

definition zg_read_dvector :: "'e engine \<Rightarrow> nat \<Rightarrow> ('e, 64 word list option) zact" where
  "zg_read_dvector E cap s =
     (if c_embed s then andthen (ce_ask E (\<lambda>sess. ce_read_dvector E sess cap)) (\<lambda>v. ret (Some v)) s
      else andthen field_head (\<lambda>(tdb, null).
        if null then ret None
        else if tdb AND TDB_SCALE_MASK \<noteq> TDB_SCALE_DWRD then say ''the field is not a vector''
        else andthen rd_u32 (\<lambda>count.
          if unat count > cap then say ''a vector wider than the caller's buffer''
          else andthen (times (unat count) (andthen rd_u8 (\<lambda>etdb. andthen (rd_be 8) (\<lambda>v. ret (word_of_nat v)))))
                 (\<lambda>vs. ret (Some vs)))) s)"

text \<open>The kinds \<open>zg_read_field\<close> tells, with what it puts in the caller's \<open>*i\<close>, \<open>*d\<close>, \<open>text\<close> and
  \<open>*veclen\<close>.\<close>

datatype fval = ZG_F_NULL | ZG_F_LONG "64 word" | ZG_F_DOUBLE "64 word" | ZG_F_TEXT "byte list" | ZG_F_VECTOR "32 word"

definition zg_read_field :: "'e engine \<Rightarrow> nat \<Rightarrow> ('e, fval) zact" where
  "zg_read_field E cap s =
     (if c_embed s
      then say (''reading a field without naming its type needs the wire's'' @
             '' descriptors; an embedded connection has none to offer'') s
      else andthen field_head (\<lambda>(tdb, null).
        if null then ret ZG_F_NULL
        else if tdb = TDB_BOOL then andthen (rd_be 1) (\<lambda>b. ret (ZG_F_LONG (if b \<noteq> 0 then 1 else 0)))
        else if tdb = TDB_INT then andthen (rd_be 4) (\<lambda>v. ret (ZG_F_LONG (word_of_int (sint (word_of_nat v :: 32 word)))))
        else if tdb = TDB_LONG then andthen (rd_be 8) (\<lambda>v. ret (ZG_F_LONG (word_of_nat v)))
        else if tdb = TDB_DOUBLE then andthen (rd_be 8) (\<lambda>v. ret (ZG_F_DOUBLE (word_of_nat v)))
        else if tdb = TDB_STRING then andthen (rd_std_string cap) (\<lambda>v. ret (ZG_F_TEXT v))
        else if tdb = TDB_TEXT then andthen (rd_text_body cap) (\<lambda>v. ret (ZG_F_TEXT v))
        else if tdb AND TDB_SCALE_MASK = TDB_SCALE_DWRD then andthen rd_u32 (\<lambda>n. ret (ZG_F_VECTOR n))
        else say ''a field arrived with a type this client does not know'') s)"

section \<open>Skipping\<close>

text \<open>\<open>1u << (class - 1)\<close> bytes an element, none for class 0.\<close>

definition tdb_esize :: "byte \<Rightarrow> nat" where
  "tdb_esize tdb =
     (if tdb AND TDB_TYPE_MASK \<noteq> 0 then unat (push_bit (unat (tdb AND TDB_TYPE_MASK) - 1) (1 :: 32 word)) else 0)"

function (sequential) zg_skip_field :: "'e engine \<Rightarrow> ('e, unit) zact"
  and skip_fields :: "'e engine \<Rightarrow> nat \<Rightarrow> ('e, unit) zact" where
  "zg_skip_field E s =
     (if c_embed s then ce_do E (ce_skip E) s
      else case field_head s of
        Waits t \<Rightarrow> Waits t
      | Zero t \<Rightarrow> Zero t
      | One (tdb, null) t \<Rightarrow>
          if null then One () t
          else let esize = tdb_esize tdb; scale = tdb AND TDB_SCALE_MASK
               in if scale = TDB_SCALE_ATOM then skip esize t
                  else if scale = TDB_SCALE_BYTE then andthen rd_u8 (\<lambda>n. skip (unat n * esize)) t
                  else if scale = TDB_SCALE_WORD then andthen rd_u16 (\<lambda>n. skip (unat n * esize)) t
                  else if scale = TDB_SCALE_DWRD
                  then (case rd_u32 t of
                          Waits u \<Rightarrow> Waits u
                        | Zero u \<Rightarrow> Zero u
                        | One n u \<Rightarrow> skip_fields E (unat n) u)
                  else say ''a field arrived with a type this client does not know'' t)"
| "skip_fields E n s =
     (if n = 0 then One () s
      else case zg_skip_field E s of
        Waits t \<Rightarrow> Waits t
      | Zero t \<Rightarrow> Zero t
      | One _ t \<Rightarrow> skip_fields E (n - 1) t)"
  by pat_completeness auto

text \<open>What is still to come bounds the recursion: every field takes its descriptor byte off it.\<close>

definition budget :: "'e zsys \<Rightarrow> nat" where
  "budget s = (length (c_in s) - c_pin s) + in_weight s"

lemma transport_recv_budget:
  "transport_recv cap s = Some (k, d, u) \<Longrightarrow> in_weight u + length d \<le> in_weight s"
  by (auto simp: transport_recv_def os_recv_def coco_client_tls_recv_def in_weight_def
      split: list.splits recv_ev.splits ssl_rev.splits if_splits)

lemma rd_loop_budget:
  "rd_loop n got s = One bs t \<Longrightarrow> budget t + (n - length got) \<le> budget s"
proof (induction n got s arbitrary: bs t rule: rd_loop.induct)
  case (1 n got s)
  consider (complete) "n \<le> length got"
    | (buffered) "\<not> n \<le> length got" "0 < length (c_in s) - c_pin s"
    | (need) "\<not> n \<le> length got" "\<not> 0 < length (c_in s) - c_pin s"
    by linarith
  then show ?case
  proof cases
    case complete
    with "1.prems" show ?thesis by (simp add: rd_loop.simps [of n got s])
  next
    case buffered
    define tk where "tk = min (length (c_in s) - c_pin s) (n - length got)"
    let ?b = "take tk (drop (c_pin s) (c_in s))" and ?s = "s\<lparr>c_pin := c_pin s + tk\<rparr>"
    have "rd_loop n (got @ ?b) ?s = One bs t"
      using "1.prems" buffered by (simp add: rd_loop.simps [of n got s] tk_def Let_def)
    from "1.IH"(1) [OF buffered tk_def this]
    have "budget t + (n - (length got + tk)) \<le> budget ?s" by (simp add: tk_def)
    moreover have "budget ?s + tk = budget s" "tk \<le> n - length got"
      by (simp_all add: budget_def in_weight_def tk_def)
    ultimately show ?thesis by linarith
  next
    case need
    obtain v t0 where t0: "flush_out s = One v t0"
      using "1.prems" need by (auto simp: rd_loop.simps [of n got s] split: outcome.splits)
    let ?t = "t0\<lparr>c_in := [], c_pin := 0\<rparr>"
    obtain k d u where r: "transport_recv ZG_IN_SIZE ?t = Some (k, d, u)"
      using "1.prems" need t0 by (auto simp: rd_loop.simps [of n got s] Let_def split: option.splits)
    have w: "in_weight u + length d \<le> in_weight s"
      using transport_recv_budget [OF r] flush_out_in_weight [of s] t0 by (simp add: in_weight_def)
    have u: "c_in u = []" "c_pin u = 0" using transport_recv_out [OF r] by simp_all
    consider (intr) "k < 0" "w_errno u = E_INTR" | (fail) "k \<le> 0" "\<not> (k < 0 \<and> w_errno u = E_INTR)"
      | (some) "k > 0" by linarith
    then show ?thesis
    proof cases
      case intr
      then have "rd_loop n got u = One bs t"
        using "1.prems" need t0 r by (simp add: rd_loop.simps [of n got s])
      with "1.IH"(2) [OF need t0 refl r refl refl] intr show ?thesis using w u by (simp add: budget_def)
    next
      case fail
      with "1.prems" need t0 r show ?thesis
        by (auto simp: rd_loop.simps [of n got s] split: if_splits)
    next
      case some
      then have "rd_loop n got (u\<lparr>c_in := d\<rparr>) = One bs t"
        using "1.prems" need t0 r by (simp add: rd_loop.simps [of n got s])
      with "1.IH"(3) [OF need t0 refl r refl refl] some have "budget t + (n - length got) \<le> budget (u\<lparr>c_in := d\<rparr>)"
        by simp
      then show ?thesis using w u need by (simp add: budget_def in_weight_def)
    qed
  qed
qed

lemma rd_budget: "rd n s = One bs t \<Longrightarrow> budget t + n \<le> budget s"
  using rd_loop_budget [of n "[]" s bs t] by (simp add: rd_def split: if_splits)

lemma rd_u8_budget: "rd_u8 s = One b t \<Longrightarrow> budget t < budget s"
  by (auto simp: rd_u8_def ret_def elim!: andthen_OneE dest!: rd_budget)

lemma rd_be_budget: "rd_be n s = One v t \<Longrightarrow> budget t \<le> budget s"
  by (auto simp: rd_be_def elim!: andthen_OneE dest!: rd_budget)

lemma rd_wide_budget:
  "rd_u16 s = One h t \<Longrightarrow> budget t \<le> budget s" "rd_u32 s = One w t \<Longrightarrow> budget t \<le> budget s"
  by (auto simp: rd_u16_def rd_u32_def ret_def elim!: andthen_OneE dest!: rd_be_budget)

lemma skip_budget: "skip n s = One v t \<Longrightarrow> budget t \<le> budget s"
proof (induction n arbitrary: s rule: skip.induct)
  case (1 n)
  show ?case
  proof (cases "n > 0")
    case True
    with "1.prems" obtain bs u where "rd (min n 512) s = One bs u" "skip (n - min n 512) u = One v t"
      by (subst (asm) skip.simps) (auto elim!: andthen_OneE)
    with "1.IH" True rd_budget show ?thesis by fastforce
  next
    case False
    with "1.prems" show ?thesis by (simp add: skip.simps [of n] ret_def)
  qed
qed

lemma field_head_budget: "field_head s = One v t \<Longrightarrow> budget t < budget s"
  by (auto simp: field_head_def ret_def elim!: andthen_OneE dest!: rd_u8_budget)

lemma ce_of_budget: "ce_of E s = (r, t) \<Longrightarrow> budget t = budget s"
  using arg_cong [OF ce_of_frame [of E s r t "w_eng s"], of budget]
  by (simp add: budget_def in_weight_def unsessioned_def)

lemma budget_eng [simp]: "budget (s\<lparr>w_eng := e\<rparr>) = budget s"
  by (simp add: budget_def in_weight_def)

lemma ce_do_budget: "ce_do E f s = One v t \<Longrightarrow> budget t = budget s"
  by (auto simp: ce_do_def with_session_def emb_def split: prod.splits option.splits if_splits dest: ce_of_budget)

text \<open>One field spends its descriptor byte at least, whatever skips the elements of a vector.\<close>

lemma skip_step_budget:
  assumes "field_head s = One (tdb, null) u"
    and "\<And>n w. \<lbrakk>\<not> null; tdb AND TDB_SCALE_MASK \<noteq> TDB_SCALE_ATOM; tdb AND TDB_SCALE_MASK \<noteq> TDB_SCALE_BYTE;
      tdb AND TDB_SCALE_MASK \<noteq> TDB_SCALE_WORD; tdb AND TDB_SCALE_MASK = TDB_SCALE_DWRD; rd_u32 u = One n w;
      g n w = One v t\<rbrakk> \<Longrightarrow> budget t \<le> budget w"
    and "(if null then One () u
          else let esize = tdb_esize tdb; scale = tdb AND TDB_SCALE_MASK
               in if scale = TDB_SCALE_ATOM then skip esize u
                  else if scale = TDB_SCALE_BYTE then andthen rd_u8 (\<lambda>n. skip (unat n * esize)) u
                  else if scale = TDB_SCALE_WORD then andthen rd_u16 (\<lambda>n. skip (unat n * esize)) u
                  else if scale = TDB_SCALE_DWRD
                  then (case rd_u32 u of Waits w \<Rightarrow> Waits w | Zero w \<Rightarrow> Zero w | One n w \<Rightarrow> g n w)
                  else say m u) = One v t"
  shows "budget t \<le> budget s"
proof -
  have vec: "budget t \<le> budget u" if "\<not> null" "tdb AND TDB_SCALE_MASK \<noteq> TDB_SCALE_ATOM"
    "tdb AND TDB_SCALE_MASK \<noteq> TDB_SCALE_BYTE" "tdb AND TDB_SCALE_MASK \<noteq> TDB_SCALE_WORD"
    "tdb AND TDB_SCALE_MASK = TDB_SCALE_DWRD" "rd_u32 u = One n w" "g n w = One v t" for n w
    using assms(2) [OF that] rd_wide_budget(2) [OF that(6)] by simp
  have "budget t \<le> budget u"
    using assms(3)
    by (auto simp: Let_def split: if_splits outcome.splits elim!: andthen_OneE
        dest!: skip_budget rd_u8_budget rd_wide_budget(1) intro: vec)
  with field_head_budget [OF assms(1)] show ?thesis by simp
qed

lemma zg_skip_field_budget_dom:
  "zg_skip_field_skip_fields_dom (Inl (E, s)) \<Longrightarrow> zg_skip_field E s = One v t \<Longrightarrow> budget t \<le> budget s"
  "zg_skip_field_skip_fields_dom (Inr (E, n, s)) \<Longrightarrow> skip_fields E n s = One v t \<Longrightarrow> budget t \<le> budget s"
proof (induction E s and E n s arbitrary: v t and v t rule: zg_skip_field_skip_fields.pinduct)
  case (1 E s)
  show ?case
  proof (cases "c_embed s")
    case False
    then obtain tdb null u where h: "field_head s = One (tdb, null) u"
      using "1.prems" "1.hyps" by (auto simp: zg_skip_field.psimps split: outcome.splits)
    show ?thesis
      by (rule skip_step_budget [OF h, where g = "\<lambda>n. skip_fields E (unat n)"])
        (use "1.IH" [OF False h refl _ refl refl] "1.prems" False h in
          \<open>auto simp: zg_skip_field.psimps [OF "1.hyps"]\<close>)
  qed (use "1.prems" "1.hyps" in \<open>simp add: zg_skip_field.psimps ce_do_budget\<close>)
qed (fastforce simp: skip_fields.psimps split: if_splits outcome.splits)

termination zg_skip_field
proof (relation "measures [\<lambda>x. case x of Inl (E, s) \<Rightarrow> budget s | Inr (E, n, s) \<Rightarrow> budget s,
    \<lambda>x. case x of Inl _ \<Rightarrow> 0 | Inr (E, n, s) \<Rightarrow> n]", goal_cases)
  case (2 E s v t tdb null)
  then show ?case using field_head_budget [of s] rd_wide_budget(2) by fastforce
next
  case (4 E n s v t)
  then show ?case using zg_skip_field_budget_dom(1) [of E s] by fastforce
qed simp_all

declare zg_skip_field.simps [simp del] skip_fields.simps [simp del]

lemma skip_fields_budgets:
  "zg_skip_field E s = One v t \<Longrightarrow> budget t \<le> budget s"
  "skip_fields E n s = One v t \<Longrightarrow> budget t \<le> budget s"
proof (induction E s and E n s arbitrary: v t and v t rule: zg_skip_field_skip_fields.induct)
  case (1 E s)
  show ?case
  proof (cases "c_embed s")
    case False
    then obtain tdb null u where h: "field_head s = One (tdb, null) u"
      using "1.prems" by (auto simp: zg_skip_field.simps [of E s] split: outcome.splits)
    show ?thesis
      by (rule skip_step_budget [OF h, where g = "\<lambda>n. skip_fields E (unat n)"])
        (use "1.IH" [OF False h refl _ refl refl] "1.prems" False h in
          \<open>auto simp: zg_skip_field.simps [of E s]\<close>)
  qed (use "1.prems" in \<open>simp add: zg_skip_field.simps [of E s] ce_do_budget\<close>)
next
  case (2 E n s)
  then show ?case
    by (fastforce simp: skip_fields.simps [of E n s] split: if_splits outcome.splits)
qed

lemmas zg_skip_field_budget = skip_fields_budgets(1)
  and skip_fields_budget = skip_fields_budgets(2)

section \<open>Draining\<close>

text \<open>One result that is not the last one: what follows it is read and thrown away.\<close>

definition drain_step :: "'e engine \<Rightarrow> nat \<Rightarrow> int \<Rightarrow> ('e, unit) zact" where
  "drain_step E row_fields r =
     (if r = ZG_CURSOR_OPEN then andthen (zg_columns E (ZG_MAX_STRING + 1)) (\<lambda>_. ret ())
      else if r = ZG_CURSOR_FETCH then skip_fields E row_fields
      else if r = ZG_RETURN_VALUE then zg_skip_field E
      else ret ())"

text \<open>\<open>None\<close> would be a loop without end, which only an engine that never finishes can cause.\<close>

partial_function (option) zg_drain :: "'e engine \<Rightarrow> nat \<Rightarrow> 'e zsys \<Rightarrow> ('e zsys, unit) outcome option" where
  "zg_drain E row_fields s =
     (case zg_result E s of
        Waits t \<Rightarrow> Some (Waits t)
      | Zero t \<Rightarrow> Some (Zero t)
      | One r t \<Rightarrow>
          if r = ZG_SUCCESSFUL_DONE then Some (One () t)
          else (case drain_step E row_fields r t of
                  Waits u \<Rightarrow> Some (Waits u)
                | Zero u \<Rightarrow> Some (Zero u)
                | One _ u \<Rightarrow> zg_drain E row_fields u))"

section \<open>The wire form of fields\<close>

text \<open>What a field is, whatever its type: a null, one value, a counted run of elements, or a
  vector of whole fields.\<close>

datatype field = Null byte | Atom byte "byte list" | Run8 byte nat "byte list" | Run16 byte nat "byte list"
  | Vec byte "field list"

fun enc_field :: "field \<Rightarrow> byte list" where
  "enc_field (Null t) = [t]"
| "enc_field (Atom t bs) = t # bs"
| "enc_field (Run8 t n bs) = t # word_of_nat n # bs"
| "enc_field (Run16 t n bs) = t # be_bytes 2 n @ bs"
| "enc_field (Vec t fs) = t # be_bytes 4 (length fs) @ concat (map enc_field fs)"

text \<open>The bytes of an element of each type class.\<close>

definition element_bytes :: "byte \<Rightarrow> nat" where
  "element_bytes t = [0, 1, 2, 4, 8, 16, 32, 64] ! unat (t AND TDB_TYPE_MASK)"

fun field_ok :: "field \<Rightarrow> bool" where
  "field_ok (Null t) = (t AND TDB_IS_NULL \<noteq> 0)"
| "field_ok (Atom t bs) = (t AND TDB_IS_NULL = 0 \<and> t AND TDB_SCALE_MASK = TDB_SCALE_ATOM \<and> length bs = element_bytes t)"
| "field_ok (Run8 t n bs) = (t AND TDB_IS_NULL = 0 \<and> t AND TDB_SCALE_MASK = TDB_SCALE_BYTE \<and>
     n < 256 \<and> length bs = n * element_bytes t)"
| "field_ok (Run16 t n bs) = (t AND TDB_IS_NULL = 0 \<and> t AND TDB_SCALE_MASK = TDB_SCALE_WORD \<and>
     n < 65536 \<and> length bs = n * element_bytes t)"
| "field_ok (Vec t fs) = (t AND TDB_IS_NULL = 0 \<and> t AND TDB_SCALE_MASK = TDB_SCALE_DWRD \<and>
     length fs < 4294967296 \<and> list_all field_ok fs)"

lemma element_bytes_eq [simp]: "element_bytes t = tdb_esize t"
proof -
  have "t AND 7 \<le> 7" by (simp add: word_and_le1)
  then have "t AND 7 < 8" by (simp add: word_less_nat_alt word_le_nat_alt)
  then have "unat (t AND 7) \<in> {0, 1, 2, 3, 4, 5, 6, 7}" by (auto simp: word_less_nat_alt)
  moreover have "t AND 7 = 0 \<longleftrightarrow> unat (t AND 7) = 0" by (simp add: unat_eq_zero)
  ultimately show ?thesis
    by (simp add: element_bytes_def tdb_esize_def TDB_TYPE_MASK_def) (elim disjE; simp)
qed

lemma scales_differ [simp]:
  "TDB_SCALE_BYTE \<noteq> TDB_SCALE_ATOM" "TDB_SCALE_WORD \<noteq> TDB_SCALE_ATOM" "TDB_SCALE_DWRD \<noteq> TDB_SCALE_ATOM"
  "TDB_SCALE_WORD \<noteq> TDB_SCALE_BYTE" "TDB_SCALE_DWRD \<noteq> TDB_SCALE_BYTE" "TDB_SCALE_DWRD \<noteq> TDB_SCALE_WORD"
  by (simp_all add: tdb_defs)

lemma field_head_ok: "talks line_ok emitted inbound still field_head [] [t] (t, t AND TDB_IS_NULL \<noteq> 0)"
  unfolding field_head_def by (rule u8_then) (rule talks_ret)

lemma head_then:
  assumes "talks line_ok emitted inbound still (f (t, t AND TDB_IS_NULL \<noteq> 0)) obs ibs v"
  shows "talks line_ok emitted inbound still (andthen field_head f) obs (t # ibs) v"
  using talks_andthen [where f = f, OF field_head_ok assms] by simp

text \<open>The skip as a conversation: the recursion written with the combinators.\<close>

lemma zg_skip_field_act:
  "\<not> c_embed s \<Longrightarrow> zg_skip_field E s = andthen field_head (\<lambda>(tdb, null).
     if null then ret ()
     else let esize = tdb_esize tdb; scale = tdb AND TDB_SCALE_MASK
          in if scale = TDB_SCALE_ATOM then skip esize
             else if scale = TDB_SCALE_BYTE then andthen rd_u8 (\<lambda>n. skip (unat n * esize))
             else if scale = TDB_SCALE_WORD then andthen rd_u16 (\<lambda>n. skip (unat n * esize))
             else if scale = TDB_SCALE_DWRD then andthen rd_u32 (\<lambda>n. skip_fields E (unat n))
             else say ''a field arrived with a type this client does not know'') s"
  by (simp add: zg_skip_field.simps [of E s] andthen_def ret_def Let_def split: outcome.splits)

lemma skip_fields_act: "skip_fields E (Suc n) = andthen (zg_skip_field E) (\<lambda>_. skip_fields E n)"
  by (rule ext) (simp add: skip_fields.simps [of E "Suc n"] andthen_def split: outcome.split)

lemma skip_fields_0 [simp]: "skip_fields E 0 = ret ()"
  by (rule ext) (simp add: skip_fields.simps [of E 0] ret_def)

lemma skip_fields_ok:
  assumes "\<And>f. f \<in> set fs \<Longrightarrow> talks line_ok emitted inbound still (zg_skip_field E) [] (enc_field f) ()"
  shows "talks line_ok emitted inbound still (skip_fields E (length fs)) [] (concat (map enc_field fs)) ()"
  using assms
proof (induction fs)
  case Nil
  show ?case by (simp add: talks_ret)
next
  case (Cons f fs)
  then have "talks line_ok emitted inbound still (andthen (zg_skip_field E) (\<lambda>_. skip_fields E (length fs)))
      ([] @ []) (enc_field f @ concat (map enc_field fs)) ()"
    by (intro talks_andthen) auto
  then show ?case by (simp add: skip_fields_act)
qed

lemma line_ok_embed: "line_ok s \<Longrightarrow> \<not> c_embed s"
  by (simp add: line_ok_def)

lemma zg_skip_field_ok:
  assumes "field_ok f"
  shows "talks line_ok emitted inbound still (zg_skip_field E) [] (enc_field f) ()"
  using assms
proof (induction f)
  case (Null t)
  show ?case
    by (rule talks_eq [OF zg_skip_field_act [OF line_ok_embed]], assumption, unfold enc_field.simps, rule head_then)
      (use Null in \<open>simp add: talks_ret\<close>)
next
  case (Atom t bs)
  show ?case
    by (rule talks_eq [OF zg_skip_field_act [OF line_ok_embed]], assumption, unfold enc_field.simps, rule head_then)
      (use Atom in \<open>simp add: skip_ok\<close>)
next
  case (Run8 t n bs)
  show ?case
    by (rule talks_eq [OF zg_skip_field_act [OF line_ok_embed]], assumption, unfold enc_field.simps, rule head_then)
      (use Run8 in \<open>simp add: u8_then skip_ok\<close>)
next
  case (Run16 t n bs)
  have n: "n = unat (word_of_nat n :: 16 word)" using Run16 by simp
  have "talks line_ok emitted inbound still (andthen rd_u16 (\<lambda>m. skip (unat m * tdb_esize t))) []
      (be_bytes 2 (unat (word_of_nat n :: 16 word)) @ bs) ()"
    by (rule u16_then, rule skip_ok) (use Run16 in simp)
  then have body: "talks line_ok emitted inbound still (andthen rd_u16 (\<lambda>m. skip (unat m * tdb_esize t))) []
      (be_bytes 2 n @ bs) ()" using n by simp
  show ?case
    by (rule talks_eq [OF zg_skip_field_act [OF line_ok_embed]], assumption, unfold enc_field.simps, rule head_then)
      (use Run16 body in simp)
next
  case (Vec t fs)
  have "talks line_ok emitted inbound still (zg_skip_field E) [] (enc_field f) ()" if "f \<in> set fs" for f
    using Vec that by (simp add: list_all_iff)
  note fs = skip_fields_ok [OF this]
  have n: "length fs = unat (word_of_nat (length fs) :: 32 word)" using Vec.prems by simp
  have "talks line_ok emitted inbound still (andthen rd_u32 (\<lambda>m. skip_fields E (unat m))) []
      (be_bytes 4 (unat (word_of_nat (length fs) :: 32 word)) @ concat (map enc_field fs)) ()"
    by (rule u32_then) (use fs n in simp)
  then have body: "talks line_ok emitted inbound still (andthen rd_u32 (\<lambda>m. skip_fields E (unat m))) []
      (be_bytes 4 (length fs) @ concat (map enc_field fs)) ()" using n by simp
  show ?case
    by (rule talks_eq [OF zg_skip_field_act [OF line_ok_embed]], assumption, unfold enc_field.simps, rule head_then)
      (use Vec.prems body in simp)
qed

section \<open>What a skip keeps\<close>

lemma keeps_skip_fields:
  assumes "keeps P (field_head :: ('e, byte \<times> bool) zact)" and "\<And>n. keeps P (skip n)" and "keeps P rd_u8"
    and "keeps P rd_u16" and "keeps P rd_u32" and "\<And>w. keeps P (say w :: ('e, unit) zact)"
    and "\<And>s. P s \<Longrightarrow> c_embed s \<Longrightarrow> P (final (ce_do E (ce_skip E) s))"
  shows "P s \<Longrightarrow> P (final (zg_skip_field E s))" and "P s \<Longrightarrow> P (final (skip_fields E n s))"
proof (induction E\<equiv>E s and E\<equiv>E n s rule: zg_skip_field_skip_fields.induct)
  case (1 s)
  show ?case
  proof (cases "c_embed s")
    case True
    then show ?thesis using assms(7) "1.prems" by (simp add: zg_skip_field.simps [of E s])
  next
    case False
    have h: "P (final (field_head s))" using assms(1) "1.prems" by (rule keepsD)
    show ?thesis
    proof (cases "field_head s")
      case (One v t)
      obtain tdb null where v: "v = (tdb, null)" by fastforce
      have t: "P t" using h One by simp
      have sk: "P (final (skip n t))" for n using assms(2) t by (rule keepsD)
      have "keeps P (andthen rd_u8 (\<lambda>n. skip (unat n * k)) :: ('e, unit) zact)"
        "keeps P (andthen rd_u16 (\<lambda>n. skip (unat n * k)) :: ('e, unit) zact)" for k
        using assms(2-4) by (auto intro: keeps_rules)
      note runs = this [THEN keepsD, OF t]
      have w: "P (final (rd_u32 t))" using assms(5) t by (rule keepsD)
      show ?thesis
      proof (cases "\<not> null \<and> tdb AND TDB_SCALE_MASK = TDB_SCALE_DWRD")
        case True
        show ?thesis
        proof (cases "rd_u32 t")
          case (One n u)
          have "P (final (skip_fields E (unat n) u))"
            using "1.hyps" [OF False \<open>field_head s = One v t\<close> v [symmetric] _ refl refl _ _ _ _ One] True w One by simp
          then show ?thesis using False True v One \<open>field_head s = One v t\<close>
            by (simp add: zg_skip_field.simps [of E s] Let_def)
        qed (use False True v w \<open>field_head s = One v t\<close> in \<open>simp_all add: zg_skip_field.simps [of E s] Let_def\<close>)
      next
        case other: False
        then show ?thesis
          using False One v t sk runs keepsD [OF assms(6) t]
          by (auto simp: zg_skip_field.simps [of E s] Let_def)
      qed
    qed (use False h in \<open>simp_all add: zg_skip_field.simps [of E s]\<close>)
  qed
next
  case (2 n s)
  show ?case
  proof (cases "n = 0")
    case True
    then show ?thesis using "2.prems" by (simp add: ret_def)
  next
    case False
    have "P (final (zg_skip_field E s))" using "2.hyps"(1) False "2.prems" by blast
    then show ?thesis
      using False "2.hyps"(2) [OF False] by (cases "zg_skip_field E s") (simp_all add: skip_fields.simps [of E n])
  qed
qed

lemma frame_field_head: "socket_frame P \<Longrightarrow> keeps P field_head"
  unfolding field_head_def by (intro keeps_rules frame_wire)

lemma frame_skip_field:
  assumes "socket_frame P" and "\<And>s. P s \<Longrightarrow> \<not> c_embed s"
  shows "keeps P (zg_skip_field E)" and "keeps P (skip_fields E n)"
  using keeps_skip_fields [OF frame_field_head frame_skip frame_wire(1) frame_wire(2) frame_wire(3) frame_say, of P E]
    assms by (auto intro!: keepsI)

lemma keeps_bufs_head [keeps_rules]: "keeps bufs_ok field_head"
  unfolding field_head_def by (intro keeps_rules)

lemma keeps_bufs_skip_field [keeps_rules]: "keeps bufs_ok (zg_skip_field E)" "keeps bufs_ok (skip_fields E n)"
proof -
  note k = keeps_skip_fields [of bufs_ok E, OF keeps_bufs_head keeps_bufs_skip keeps_bufs_wire(1)
      keeps_bufs_wire(2) keeps_bufs_wire(3) keeps_bufs_say keepsD [OF keeps_bufs_ce_do]]
  show "keeps bufs_ok (zg_skip_field E)" by (rule keepsI) (rule k(1))
  show "keeps bufs_ok (skip_fields E n)" by (rule keepsI) (rule k(2))
qed

section \<open>The drain comes to an end\<close>

lemma socket_frame_embed: "socket_frame (\<lambda>s. \<not> c_embed s)"
  unfolding socket_frame_def
  by (auto simp: transport_send_def os_send_def coco_client_tls_send_def transport_recv_def os_recv_def
      coco_client_tls_recv_def split: list.splits send_ev.splits ssl_wev.splits recv_ev.splits ssl_rev.splits if_splits)

lemma zg_result_budget:
  assumes "\<not> c_embed s" and "zg_result E s = One r t"
  shows "budget t < budget s"
  using assms by (auto simp: zg_result_def ret_def elim!: andthen_OneE split: if_splits dest: rd_u8_budget)

lemma keeps_socket_result: "keeps (\<lambda>s. \<not> c_embed s) (zg_result E)"
proof -
  have k: "keeps (\<lambda>s. \<not> c_embed s) (andthen rd_u8 (\<lambda>r.
        if uint r = ZG_EXCEPTION_THROWN
        then andthen (rd_std_string (ZG_MAX_STRING + 1)) (\<lambda>msg. lost ''the server refused it'' (Some (string_of msg)))
        else ret (uint r)) :: ('a, int) zact)"
    by (intro keeps_rules frame_wire socket_frame_embed) (simp add: keeps_def final_lost)
  show ?thesis
    by (rule keepsI) (use keepsD [OF k] in \<open>simp add: zg_result_def\<close>)
qed

lemma drain_step_socket:
  assumes "\<not> c_embed s" and "drain_step E n r s = One v t"
  shows "\<not> c_embed t" and "budget t \<le> budget s"
proof -
  have columns: "zg_columns E cap s = rd_std_string cap s" for cap
    using assms(1) by (simp add: zg_columns_def)
  have b: "budget u \<le> budget s" if "rd_std_string cap s = One bs u" for cap bs u
    using that by (auto simp: rd_std_string_def ret_def elim!: andthen_OneE split: if_splits
        dest!: rd_u8_budget rd_budget skip_budget)
  have e: "\<not> c_embed u" if "rd_std_string cap s = One bs u" for cap bs u
    using keeps_One [OF frame_wire(8) [OF socket_frame_embed] _ that] assms(1) by simp
  have f: "\<not> c_embed t" if "zg_skip_field E s = One v t \<or> skip_fields E n s = One v t"
    using that frame_skip_field [OF socket_frame_embed, of E] assms(1) by (auto dest: keeps_One)
  from assms(2) consider (cols) bs where "rd_std_string (ZG_MAX_STRING + 1) s = One bs t"
    | (row) "skip_fields E n s = One v t" | (one) "zg_skip_field E s = One v t" | (none) "t = s"
    by (auto simp: drain_step_def andthen_def ret_def columns split: if_splits outcome.splits)
  note cases = this
  show "\<not> c_embed t" by (cases rule: cases) (use assms(1) e f in auto)
  show "budget t \<le> budget s"
    by (cases rule: cases) (use b in \<open>auto dest: zg_skip_field_budget skip_fields_budget\<close>)
qed

text \<open>On a socket every result takes a byte off what is still to come.\<close>

lemma zg_drain_returns: "\<not> c_embed s \<Longrightarrow> \<exists>r. zg_drain E n s = Some r"
proof (induction "budget s" arbitrary: s rule: less_induct)
  case less
  show ?case
  proof (cases "zg_result E s")
    case (One r t)
    have t: "\<not> c_embed t" "budget t < budget s"
      using keeps_One [OF keeps_socket_result less.prems One] zg_result_budget [OF less.prems One] by simp_all
    show ?thesis
    proof (cases "drain_step E n r t")
      case (One v u)
      then have "\<not> c_embed u" "budget u < budget s" using drain_step_socket [OF t(1) One] t(2) by simp_all
      then show ?thesis
        using less.hyps [of u] \<open>zg_result E s = One r t\<close> One by (simp add: zg_drain.simps [of E n s])
    qed (use One in \<open>simp_all add: zg_drain.simps [of E n s]\<close>)
  qed (simp_all add: zg_drain.simps [of E n s])
qed

section \<open>The drain leaves the stream in step\<close>

text \<open>What the server sends before the byte that ends a call.\<close>

datatype answer = Cursor "byte list" | Row "field list" | Cursor_end | Value field

fun enc_answer :: "answer \<Rightarrow> byte list" where
  "enc_answer (Cursor cols) = 1 # str_bytes cols"
| "enc_answer (Row fs) = 2 # concat (map enc_field fs)"
| "enc_answer Cursor_end = [3]"
| "enc_answer (Value f) = 4 # enc_field f"

fun answer_ok :: "nat \<Rightarrow> answer \<Rightarrow> bool" where
  "answer_ok n (Cursor cols) = (length cols \<le> ZG_MAX_STRING)"
| "answer_ok n (Row fs) = (length fs = n \<and> list_all field_ok fs)"
| "answer_ok n Cursor_end = True"
| "answer_ok n (Value f) = field_ok f"

definition drain_one :: "'e engine \<Rightarrow> nat \<Rightarrow> ('e, unit) zact" where
  "drain_one E n = andthen (zg_result E) (drain_step E n)"

lemma columns_ok:
  assumes "length cols \<le> ZG_MAX_STRING"
  shows "talks line_ok emitted inbound still (andthen (zg_columns E (ZG_MAX_STRING + 1)) (\<lambda>_. ret ())) [] (str_bytes cols) ()"
proof -
  have "talks line_ok emitted inbound still (rd_std_string (ZG_MAX_STRING + 1) :: ('a, byte list) zact) [] (str_bytes cols) cols"
    by (rule rd_std_string_ok) (use assms in simp_all)
  then have "talks line_ok emitted inbound still (zg_columns E (ZG_MAX_STRING + 1)) [] (str_bytes cols) cols"
    by (rule talks_eq [rotated]) (simp add: zg_columns_def line_ok_embed)
  from talks_andthen [where f = "\<lambda>_. ret ()", OF this talks_ret] show ?thesis by simp
qed

lemma drain_one_ok:
  assumes "answer_ok n a"
  shows "talks line_ok emitted inbound still (drain_one E n) [] (enc_answer a) ()"
proof -
  have step: "talks line_ok emitted inbound still (drain_one E n) [] (b # ibs) ()"
    if "uint b \<noteq> ZG_EXCEPTION_THROWN" "talks line_ok emitted inbound still (drain_step E n (uint b)) [] ibs ()" for b ibs
    using talks_andthen [where f = "drain_step E n", OF zg_result_ok [OF that(1), of E] that(2)] by (simp add: drain_one_def)
  show ?thesis
  proof (cases a)
    case (Cursor cols)
    then show ?thesis using assms columns_ok [of cols E] by (simp, intro step) (simp_all add: drain_step_def result_defs)
  next
    case (Row fs)
    have "talks line_ok emitted inbound still (skip_fields E (length fs)) [] (concat (map enc_field fs)) ()"
      by (rule skip_fields_ok, rule zg_skip_field_ok) (use Row assms in \<open>simp add: list_all_iff\<close>)
    then show ?thesis using Row assms by (simp, intro step) (simp_all add: drain_step_def result_defs)
  next
    case Cursor_end
    then show ?thesis by (simp, intro step) (simp_all add: drain_step_def result_defs talks_ret)
  next
    case (Value f)
    then show ?thesis using assms zg_skip_field_ok [of f E] by (simp, intro step) (simp_all add: drain_step_def result_defs)
  qed
qed

lemma zg_drain_step:
  "drain_one E n s = One v u \<Longrightarrow> zg_result E s = One r t \<Longrightarrow> r \<noteq> ZG_SUCCESSFUL_DONE \<Longrightarrow>
     zg_drain E n s = zg_drain E n u"
  by (simp add: zg_drain.simps [of E n s] drain_one_def andthen_def)

lemma enc_answer_head: "\<exists>b bs. enc_answer a = b # bs \<and> uint b \<noteq> ZG_EXCEPTION_THROWN \<and> uint b \<noteq> ZG_SUCCESSFUL_DONE"
  by (cases a) (simp_all add: result_defs)

lemma zg_drain_ok:
  assumes "list_all (answer_ok n) as" and "line_ok s" and "inbound s = concat (map enc_answer as) @ 0 # rest"
  shows "\<exists>t. zg_drain E n s = Some (One () t) \<and> line_ok t \<and> emitted t = emitted s \<and> inbound t = rest \<and>
    still t = still s"
  using assms
proof (induction as arbitrary: s)
  case Nil
  obtain t where "zg_result E s = One (uint (0 :: byte)) t" "line_ok t" "emitted t = emitted s @ []" "inbound t = rest"
      "still t = still s"
    using zg_result_ok [of 0 E] Nil.prems(2) by (rule talksE) (use Nil.prems(3) in \<open>simp_all add: result_defs\<close>)
  then show ?case by (simp add: zg_drain.simps [of E n s] result_defs)
next
  case (Cons a as)
  obtain b bs where b: "enc_answer a = b # bs" "uint b \<noteq> ZG_EXCEPTION_THROWN" "uint b \<noteq> ZG_SUCCESSFUL_DONE"
    using enc_answer_head by blast
  obtain w where w: "zg_result E s = One (uint b) w"
    using zg_result_ok [OF b(2), of E] Cons.prems(2) by (rule talksE [where rest = "bs @ concat (map enc_answer as) @ 0 # rest"])
      (use Cons.prems(3) b in simp)
  have "answer_ok n a" using Cons.prems(1) by simp
  obtain t where t: "drain_one E n s = One () t" "line_ok t" "emitted t = emitted s @ []"
      "inbound t = concat (map enc_answer as) @ 0 # rest" "still t = still s"
    using drain_one_ok [OF \<open>answer_ok n a\<close>, of E] Cons.prems(2) by (rule talksE) (use Cons.prems(3) in simp)
  have "zg_drain E n s = zg_drain E n t" using t(1) w b(3) by (rule zg_drain_step)
  then show ?case using Cons.IH [of t] Cons.prems(1) t by simp
qed

end
