(* ===== verification/Zg_Codec.thy ===== *)
theory Zg_Codec
  imports Zg_Fields
begin

text \<open>
  Writers against readers (client/zigurat.c). Each typed writer and its reader are a \<open>codec\<close> over
  the socket layer, and so are the writers together with \<open>zg_read_field\<close>, the reader that is not
  told the type. What a writer puts on the wire is one field in the sense of \<open>zg_skip_field\<close>.
\<close>

section \<open>Scalars\<close>

definition enc_scalar :: "byte \<Rightarrow> nat \<Rightarrow> nat \<Rightarrow> byte list" where
  "enc_scalar tdb n v = tdb # be_bytes n v"

lemma tdbs_not_null [simp]:
  "TDB_BOOL AND TDB_IS_NULL = 0" "TDB_INT AND TDB_IS_NULL = 0" "TDB_LONG AND TDB_IS_NULL = 0"
  "TDB_DOUBLE AND TDB_IS_NULL = 0" "TDB_STRING AND TDB_IS_NULL = 0" "TDB_TEXT AND TDB_IS_NULL = 0"
  "(TDB_SCALE_DWRD OR TDB_DOUBLE) AND TDB_IS_NULL = 0"
  by (simp_all add: tdb_defs)

lemma wr_field_ok: "n \<le> 16 \<Longrightarrow> talks line_ok emitted inbound still (wr_field t n v) (enc_scalar t n v) [] ()"
  unfolding wr_field_def enc_scalar_def by (rule put_u8_then) (rule wr_be_ok)

lemma rd_be_then:
  assumes "v < 256 ^ n" and "talks line_ok emitted inbound still (f v) obs ibs w"
  shows "talks line_ok emitted inbound still (andthen (rd_be n) f) obs (be_bytes n v @ ibs) w"
  using talks_andthen [where f = f, OF rd_be_ok [of "be_bytes n v" n]] assms by (simp add: be_val_be_bytes)

lemma rd_be_ret:
  assumes "v < 256 ^ n"
  shows "talks line_ok emitted inbound still (andthen (rd_be n) (\<lambda>v. ret (f v))) [] (be_bytes n v) (f v)"
  using rd_be_then [where f = "\<lambda>v. ret (f v)", OF assms talks_ret] by simp

lemma rd_scalar_ok:
  assumes "t AND TDB_IS_NULL = 0" and "v < 256 ^ n"
  shows "talks line_ok emitted inbound still (rd_scalar n) [] (enc_scalar t n v) (Some v)"
  unfolding rd_scalar_def enc_scalar_def by (rule head_then) (simp add: assms rd_be_ret)

lemma scalar_then:
  assumes "t AND TDB_IS_NULL = 0" and "v < 256 ^ n" and "f (Some v) = w"
  shows "talks line_ok emitted inbound still (andthen (rd_scalar n) (\<lambda>v. ret (f v))) [] (enc_scalar t n v) w"
  using talks_andthen [where f = "\<lambda>v. ret (f v)", OF rd_scalar_ok [OF assms(1,2)] talks_ret] assms(3) by simp

lemma unat_32_less: "unat (v :: 32 word) < 256 ^ 4" and unat_64_less: "unat (w :: 64 word) < 256 ^ 8"
  using unsigned_less [of v] unsigned_less [of w] by simp_all

definition enc_bool :: "bool \<Rightarrow> byte list" where
  "enc_bool b = enc_scalar TDB_BOOL 1 (if b then 1 else 0)"

definition enc_int :: "32 word \<Rightarrow> byte list" where
  "enc_int v = enc_scalar TDB_INT 4 (unat v)"

definition enc_long :: "64 word \<Rightarrow> byte list" where
  "enc_long v = enc_scalar TDB_LONG 8 (unat v)"

definition enc_double :: "64 word \<Rightarrow> byte list" where
  "enc_double v = enc_scalar TDB_DOUBLE 8 (unat v)"

text \<open>A call that branches on \<open>c->embed\<close> first is its other branch on a socket.\<close>

lemma on_socket:
  assumes "talks line_ok emitted inbound still k obs ibs v" and "\<And>s. \<not> c_embed s \<Longrightarrow> m s = k s"
  shows "talks line_ok emitted inbound still m obs ibs v"
  using assms(2) line_ok_embed by (intro talks_eq [OF _ assms(1)]) blast

interpretation bool_field: codec line_ok emitted inbound still rd wr "\<lambda>_. True" enc_bool Some zg_write_bool zg_read_bool
proof unfold_locales
  fix v
  show "talks line_ok emitted inbound still (zg_write_bool v) (enc_bool v) [] ()"
    unfolding zg_write_bool_def enc_bool_def by (rule wr_field_ok) simp
  show "talks line_ok emitted inbound still zg_read_bool [] (enc_bool v) (Some v)"
    unfolding zg_read_bool_def enc_bool_def by (rule scalar_then) simp_all
qed

interpretation int_field: codec line_ok emitted inbound still rd wr "\<lambda>_. True" enc_int Some "zg_write_int E" "zg_read_int E" for E
proof unfold_locales
  fix v
  show "talks line_ok emitted inbound still (zg_write_int E v) (enc_int v) [] ()"
    unfolding enc_int_def by (rule on_socket [OF wr_field_ok]) (simp_all add: zg_write_int_def)
  show "talks line_ok emitted inbound still (zg_read_int E) [] (enc_int v) (Some v)"
    unfolding enc_int_def
    by (rule on_socket [OF scalar_then [where f = "map_option word_of_nat"]])
      (simp_all add: zg_read_int_def unat_32_less [simplified])
qed

interpretation long_field: codec line_ok emitted inbound still rd wr "\<lambda>_. True" enc_long Some "zg_write_long E" "zg_read_long E" for E
proof unfold_locales
  fix v
  show "talks line_ok emitted inbound still (zg_write_long E v) (enc_long v) [] ()"
    unfolding enc_long_def by (rule on_socket [OF wr_field_ok]) (simp_all add: zg_write_long_def)
  show "talks line_ok emitted inbound still (zg_read_long E) [] (enc_long v) (Some v)"
    unfolding enc_long_def
    by (rule on_socket [OF scalar_then [where f = "map_option word_of_nat"]])
      (simp_all add: zg_read_long_def unat_64_less [simplified])
qed

interpretation double_field: codec line_ok emitted inbound still rd wr "\<lambda>_. True" enc_double Some zg_write_double zg_read_double
proof unfold_locales
  fix v
  show "talks line_ok emitted inbound still (zg_write_double v) (enc_double v) [] ()"
    unfolding zg_write_double_def enc_double_def by (rule wr_field_ok) simp
  show "talks line_ok emitted inbound still zg_read_double [] (enc_double v) (Some v)"
    unfolding zg_read_double_def enc_double_def
    by (rule scalar_then) (simp_all add: unat_64_less [simplified])
qed

section \<open>Strings\<close>

definition str_val :: "string \<Rightarrow> byte list" where
  "str_val x = bytes_of (cstr x)"

lemma length_str_val [simp]: "length (str_val x) = strlen x"
  by (simp add: str_val_def strlen_def)

definition enc_string :: "string \<Rightarrow> byte list" where
  "enc_string x = TDB_STRING # str_bytes (str_val x)"

definition enc_text :: "string \<Rightarrow> byte list" where
  "enc_text x = TDB_TEXT # text_bytes (str_val x)"

definition string_fits :: "nat \<Rightarrow> string \<Rightarrow> bool" where
  "string_fits cap x \<longleftrightarrow> strlen x \<le> ZG_MAX_STRING \<and> strlen x < cap"

definition text_fits :: "nat \<Rightarrow> string \<Rightarrow> bool" where
  "text_fits cap x \<longleftrightarrow> strlen x \<le> ZG_MAX_TEXT \<and> strlen x < cap"

lemma ret_then:
  assumes "talks line_ok emitted inbound still m obs ibs v"
  shows "talks line_ok emitted inbound still (andthen m (\<lambda>v. ret (f v))) obs ibs (f v)"
  using talks_andthen [where f = "\<lambda>v. ret (f v)", OF assms talks_ret] by simp

lemma zg_write_string_ok:
  assumes "strlen x \<le> ZG_MAX_STRING"
  shows "talks line_ok emitted inbound still (zg_write_string E x) (enc_string x) [] ()"
  unfolding enc_string_def str_val_def
  by (rule on_socket [OF put_u8_then [where f = "\<lambda>_. wr_std_string x", OF wr_std_string_ok [OF assms]]])
    (use assms in \<open>simp add: zg_write_string_def\<close>)

lemma zg_write_text_ok:
  assumes "strlen x \<le> ZG_MAX_TEXT"
  shows "talks line_ok emitted inbound still (zg_write_text E x) (enc_text x) [] ()"
  unfolding enc_text_def str_val_def
  by (rule on_socket [OF put_u8_then [where f = "\<lambda>_. wr_std_text x", OF wr_std_text_ok [OF assms]]])
    (use assms in \<open>simp add: zg_write_text_def\<close>)

lemma rd_text_body_ok:
  assumes "length bs < cap" and "length bs \<le> ZG_MAX_TEXT"
  shows "talks line_ok emitted inbound still (rd_text_body cap) [] (text_bytes bs) bs"
proof -
  let ?n = "word_of_nat (length bs) :: 16 word"
  have n: "unat ?n = length bs" using assms(2) by (simp add: ZG_MAX_TEXT_def)
  have any: "(?n \<noteq> 0) = (length bs \<noteq> 0)" using n by (metis unat_eq_zero)
  have fits: "\<not> unat ?n + 1 > cap" using n assms(1) by simp
  have "talks line_ok emitted inbound still (rd_text_body cap) [] (be_bytes 2 (unat ?n) @ bs) bs"
    unfolding rd_text_body_def
    by (rule u16_then, simp only: fits if_False any) (simp only: n, rule rd_if_any, rule refl)
  then show ?thesis by (simp only: n text_bytes_def)
qed

interpretation string_field: codec line_ok emitted inbound still rd wr "string_fits cap" enc_string
  "\<lambda>x. Some (str_val x)" "zg_write_string E" "zg_read_string E cap" for E cap
proof unfold_locales
  fix x
  assume x: "string_fits cap x"
  then show "talks line_ok emitted inbound still (zg_write_string E x) (enc_string x) [] ()"
    by (intro zg_write_string_ok) (simp add: string_fits_def)
  have "talks line_ok emitted inbound still (rd_std_string cap :: ('a, byte list) zact) [] (str_bytes (str_val x)) (str_val x)"
    by (rule rd_std_string_ok) (use x in \<open>simp_all add: string_fits_def\<close>)
  then show "talks line_ok emitted inbound still (zg_read_string E cap) [] (enc_string x) (Some (str_val x))"
    unfolding enc_string_def
    by (intro on_socket [OF head_then [where f = "\<lambda>(tdb, null).
          if null then ret None else andthen (rd_std_string cap) (\<lambda>v. ret (Some v))"]])
      (simp_all add: ret_then zg_read_string_def)
qed

interpretation text_field: codec line_ok emitted inbound still rd wr "text_fits cap" enc_text
  "\<lambda>x. Some (str_val x)" "zg_write_text E" "zg_read_text E cap" for E cap
proof unfold_locales
  fix x
  assume x: "text_fits cap x"
  then show "talks line_ok emitted inbound still (zg_write_text E x) (enc_text x) [] ()"
    by (intro zg_write_text_ok) (simp add: text_fits_def)
  have "talks line_ok emitted inbound still (rd_text_body cap :: ('a, byte list) zact) [] (text_bytes (str_val x)) (str_val x)"
    by (rule rd_text_body_ok) (use x in \<open>simp_all add: text_fits_def\<close>)
  then show "talks line_ok emitted inbound still (zg_read_text E cap) [] (enc_text x) (Some (str_val x))"
    unfolding enc_text_def
    by (intro on_socket [OF head_then [where f = "\<lambda>(tdb, null).
          if null then ret None else andthen (rd_text_body cap) (\<lambda>v. ret (Some v))"]])
      (simp_all add: ret_then zg_read_text_def)
qed

section \<open>Vectors of doubles\<close>

definition enc_dvector :: "64 word list \<Rightarrow> byte list" where
  "enc_dvector vs = (TDB_SCALE_DWRD OR TDB_DOUBLE) # be_bytes 4 (length vs) @ concat (map enc_double vs)"

definition dvector_fits :: "nat \<Rightarrow> 64 word list \<Rightarrow> bool" where
  "dvector_fits cap vs \<longleftrightarrow> length vs \<le> cap \<and> length vs < 4294967296"

lemma dvector_scale [simp]: "(TDB_SCALE_DWRD OR TDB_DOUBLE) AND TDB_SCALE_MASK = TDB_SCALE_DWRD"
  by (simp add: tdb_defs)

lemma zg_write_dvector_ok: "talks line_ok emitted inbound still (zg_write_dvector E vs) (enc_dvector vs) [] ()"
proof (rule on_socket)
  let ?el = "\<lambda>x. andthen (wr_u8 TDB_DOUBLE) (\<lambda>_. wr_be 8 (unat x))"
  have "talks line_ok emitted inbound still (?el x :: ('a, unit) zact) (enc_double x) [] ()" for x
    unfolding enc_double_def enc_scalar_def by (rule put_u8_then) (simp add: wr_be_ok)
  then have els: "talks line_ok emitted inbound still (for_each vs ?el :: ('a, unit) zact) (concat (map enc_double vs)) [] ()"
    by (intro wire.for_each_talks)
  have "talks line_ok emitted inbound still (andthen (wr_be 4 (length vs)) (\<lambda>_. for_each vs ?el) :: ('a, unit) zact)
      (be_bytes 4 (length vs) @ concat (map enc_double vs)) ([] @ []) ()"
    by (rule talks_andthen [OF wr_be_ok els]) simp
  then show "talks line_ok emitted inbound still
      (andthen (wr_u8 (TDB_SCALE_DWRD OR TDB_DOUBLE)) (\<lambda>_. andthen (wr_be 4 (length vs)) (\<lambda>_. for_each vs ?el)) :: ('a, unit) zact)
      (enc_dvector vs) [] ()"
    unfolding enc_dvector_def by (intro put_u8_then) simp
qed (simp add: zg_write_dvector_def)

lemma rd_doubles_ok:
  "talks line_ok emitted inbound still
     (times (length vs) (andthen rd_u8 (\<lambda>etdb. andthen (rd_be 8) (\<lambda>v. ret (word_of_nat v)))))
     [] (concat (map enc_double vs)) vs"
proof -
  have "talks line_ok emitted inbound still
     (andthen rd_u8 (\<lambda>etdb. andthen (rd_be 8) (\<lambda>v. ret (word_of_nat v)))) [] (enc_double x) (id x)" for x :: "64 word"
    unfolding enc_double_def enc_scalar_def
    using rd_be_ret [of "unat x" 8 "word_of_nat :: nat \<Rightarrow> 64 word"] by (intro u8_then) (simp add: unat_64_less [simplified])
  from wire.times_talks [where val = id, OF this] show ?thesis by simp
qed

interpretation dvector_field: codec line_ok emitted inbound still rd wr "dvector_fits cap" enc_dvector Some
  "zg_write_dvector E" "zg_read_dvector E cap" for E cap
proof unfold_locales
  fix vs
  show "talks line_ok emitted inbound still (zg_write_dvector E vs) (enc_dvector vs) [] ()"
    by (rule zg_write_dvector_ok)
  assume fits: "dvector_fits cap vs"
  let ?n = "word_of_nat (length vs) :: 32 word"
  have n: "unat ?n = length vs" using fits by (simp add: dvector_fits_def)
  let ?el = "andthen rd_u8 (\<lambda>etdb. andthen (rd_be 8) (\<lambda>v. ret (word_of_nat v)))"
  let ?body = "\<lambda>count. if unat count > cap then say ''a vector wider than the caller's buffer''
          else andthen (times (unat count) ?el) (\<lambda>vs. ret (Some vs))"
  have "talks line_ok emitted inbound still (?body ?n :: ('a, 64 word list option) zact) [] (concat (map enc_double vs)) (Some vs)"
    using ret_then [OF rd_doubles_ok [of vs], of Some] fits n by (simp add: dvector_fits_def)
  then have "talks line_ok emitted inbound still (andthen rd_u32 ?body :: ('a, 64 word list option) zact) []
      (be_bytes 4 (unat ?n) @ concat (map enc_double vs)) (Some vs)"
    by (rule u32_then)
  then have body: "talks line_ok emitted inbound still (andthen rd_u32 ?body :: ('a, 64 word list option) zact) []
      (be_bytes 4 (length vs) @ concat (map enc_double vs)) (Some vs)" by (simp only: n)
  show "talks line_ok emitted inbound still (zg_read_dvector E cap) [] (enc_dvector vs) (Some vs)"
    unfolding enc_dvector_def
    by (rule on_socket [OF head_then [where f = "\<lambda>(tdb, null).
          if null then ret None
          else if tdb AND TDB_SCALE_MASK \<noteq> TDB_SCALE_DWRD then say ''the field is not a vector''
          else andthen rd_u32 ?body"]])
      (use body in \<open>simp_all add: zg_read_dvector_def\<close>)
qed

section \<open>Rows whose types the reader is not told\<close>

datatype cell = CBool bool | CInt "32 word" | CLong "64 word" | CDouble "64 word" | CString string | CText string

definition write_cell :: "'e engine \<Rightarrow> cell \<Rightarrow> ('e, unit) zact" where
  "write_cell E c =
     (case c of CBool b \<Rightarrow> zg_write_bool b | CInt v \<Rightarrow> zg_write_int E v | CLong v \<Rightarrow> zg_write_long E v
      | CDouble v \<Rightarrow> zg_write_double v | CString x \<Rightarrow> zg_write_string E x | CText x \<Rightarrow> zg_write_text E x)"

definition enc_cell :: "cell \<Rightarrow> byte list" where
  "enc_cell c =
     (case c of CBool b \<Rightarrow> enc_bool b | CInt v \<Rightarrow> enc_int v | CLong v \<Rightarrow> enc_long v
      | CDouble v \<Rightarrow> enc_double v | CString x \<Rightarrow> enc_string x | CText x \<Rightarrow> enc_text x)"

definition cell_val :: "cell \<Rightarrow> fval" where
  "cell_val c =
     (case c of CBool b \<Rightarrow> ZG_F_LONG (if b then 1 else 0) | CInt v \<Rightarrow> ZG_F_LONG (word_of_int (sint v))
      | CLong v \<Rightarrow> ZG_F_LONG v | CDouble v \<Rightarrow> ZG_F_DOUBLE v
      | CString x \<Rightarrow> ZG_F_TEXT (str_val x) | CText x \<Rightarrow> ZG_F_TEXT (str_val x))"

definition cell_fits :: "nat \<Rightarrow> cell \<Rightarrow> bool" where
  "cell_fits cap c =
     (case c of CString x \<Rightarrow> string_fits cap x | CText x \<Rightarrow> text_fits cap x | _ \<Rightarrow> True)"

lemma tdbs_differ [simp]:
  "TDB_INT \<noteq> TDB_BOOL" "TDB_LONG \<noteq> TDB_BOOL" "TDB_LONG \<noteq> TDB_INT" "TDB_DOUBLE \<noteq> TDB_BOOL"
  "TDB_DOUBLE \<noteq> TDB_INT" "TDB_DOUBLE \<noteq> TDB_LONG" "TDB_STRING \<noteq> TDB_BOOL" "TDB_STRING \<noteq> TDB_INT"
  "TDB_STRING \<noteq> TDB_LONG" "TDB_STRING \<noteq> TDB_DOUBLE" "TDB_TEXT \<noteq> TDB_BOOL" "TDB_TEXT \<noteq> TDB_INT"
  "TDB_TEXT \<noteq> TDB_LONG" "TDB_TEXT \<noteq> TDB_DOUBLE" "TDB_TEXT \<noteq> TDB_STRING"
  by (simp_all add: tdb_defs)

lemma write_cell_ok: "cell_fits cap c \<Longrightarrow> talks line_ok emitted inbound still (write_cell E c) (enc_cell c) [] ()"
  by (cases c)
    (simp_all add: write_cell_def enc_cell_def cell_fits_def bool_field.put_exact int_field.put_exact
      long_field.put_exact double_field.put_exact string_field.put_exact text_field.put_exact)

text \<open>\<open>zg_read_field\<close> behind its descriptor byte.\<close>

definition field_body :: "nat \<Rightarrow> byte \<Rightarrow> ('e, fval) zact" where
  "field_body cap tdb =
     (if tdb = TDB_BOOL then andthen (rd_be 1) (\<lambda>b. ret (ZG_F_LONG (if b \<noteq> 0 then 1 else 0)))
      else if tdb = TDB_INT then andthen (rd_be 4) (\<lambda>v. ret (ZG_F_LONG (word_of_int (sint (word_of_nat v :: 32 word)))))
      else if tdb = TDB_LONG then andthen (rd_be 8) (\<lambda>v. ret (ZG_F_LONG (word_of_nat v)))
      else if tdb = TDB_DOUBLE then andthen (rd_be 8) (\<lambda>v. ret (ZG_F_DOUBLE (word_of_nat v)))
      else if tdb = TDB_STRING then andthen (rd_std_string cap) (\<lambda>v. ret (ZG_F_TEXT v))
      else if tdb = TDB_TEXT then andthen (rd_text_body cap) (\<lambda>v. ret (ZG_F_TEXT v))
      else if tdb AND TDB_SCALE_MASK = TDB_SCALE_DWRD then andthen rd_u32 (\<lambda>n. ret (ZG_F_VECTOR n))
      else say ''a field arrived with a type this client does not know'')"

lemma zg_read_field_then:
  assumes "t AND TDB_IS_NULL = 0" and "talks line_ok emitted inbound still (field_body cap t :: ('e, fval) zact) [] ibs v"
  shows "talks line_ok emitted inbound still (zg_read_field (E :: 'e engine) cap) [] (t # ibs) v"
proof (rule on_socket [OF head_then [where f = "\<lambda>(tdb, null). if null then ret ZG_F_NULL else field_body cap tdb"]])
  show "talks line_ok emitted inbound still
      ((\<lambda>(tdb, null). if null then ret ZG_F_NULL else field_body cap tdb :: ('e, fval) zact) (t, t AND TDB_IS_NULL \<noteq> 0))
      [] ibs v"
    using assms by simp
qed (unfold field_body_def zg_read_field_def, simp)

lemma scalar_body:
  assumes "t AND TDB_IS_NULL = 0" and "v < 256 ^ n"
    and "field_body cap t = (andthen (rd_be n) (\<lambda>v. ret (f v)) :: ('e, fval) zact)"
  shows "talks line_ok emitted inbound still (zg_read_field (E :: 'e engine) cap) [] (enc_scalar t n v) (f v)"
  unfolding enc_scalar_def
  by (rule zg_read_field_then [OF assms(1)]) (simp only: assms(3) rd_be_ret [OF assms(2)])

lemma read_cell_ok:
  assumes "cell_fits cap c"
  shows "talks line_ok emitted inbound still (zg_read_field E cap) [] (enc_cell c) (cell_val c)"
proof (cases c)
  case (CBool b)
  have "talks line_ok emitted inbound still (zg_read_field E cap) [] (enc_scalar TDB_BOOL 1 (if b then 1 else 0))
      (ZG_F_LONG (if (if b then 1 else 0 :: nat) \<noteq> 0 then 1 else 0))"
    by (rule scalar_body) (simp_all add: field_body_def)
  then show ?thesis using CBool by (simp add: enc_cell_def cell_val_def enc_bool_def split: if_splits)
next
  case (CInt v)
  have "talks line_ok emitted inbound still (zg_read_field E cap) [] (enc_scalar TDB_INT 4 (unat v))
      (ZG_F_LONG (word_of_int (sint (word_of_nat (unat v) :: 32 word))))"
    by (rule scalar_body) (simp_all add: field_body_def unat_32_less [simplified])
  then show ?thesis using CInt by (simp add: enc_cell_def cell_val_def enc_int_def)
next
  case (CLong v)
  have "talks line_ok emitted inbound still (zg_read_field E cap) [] (enc_scalar TDB_LONG 8 (unat v))
      (ZG_F_LONG (word_of_nat (unat v)))"
    by (rule scalar_body) (simp_all add: field_body_def unat_64_less [simplified])
  then show ?thesis using CLong by (simp add: enc_cell_def cell_val_def enc_long_def)
next
  case (CDouble v)
  have "talks line_ok emitted inbound still (zg_read_field E cap) [] (enc_scalar TDB_DOUBLE 8 (unat v))
      (ZG_F_DOUBLE (word_of_nat (unat v)))"
    by (rule scalar_body) (simp_all add: field_body_def unat_64_less [simplified])
  then show ?thesis using CDouble by (simp add: enc_cell_def cell_val_def enc_double_def)
next
  case (CString x)
  have "talks line_ok emitted inbound still (rd_std_string cap :: ('a, byte list) zact) [] (str_bytes (str_val x)) (str_val x)"
    by (rule rd_std_string_ok) (use CString assms in \<open>simp_all add: cell_fits_def string_fits_def\<close>)
  from ret_then [OF this, of ZG_F_TEXT] show ?thesis using CString
    by (simp add: enc_cell_def cell_val_def enc_string_def zg_read_field_then field_body_def)
next
  case (CText x)
  have "talks line_ok emitted inbound still (rd_text_body cap :: ('a, byte list) zact) [] (text_bytes (str_val x)) (str_val x)"
    by (rule rd_text_body_ok) (use CText assms in \<open>simp_all add: cell_fits_def text_fits_def\<close>)
  from ret_then [OF this, of ZG_F_TEXT] show ?thesis using CText
    by (simp add: enc_cell_def cell_val_def enc_text_def zg_read_field_then field_body_def)
qed

interpretation row: codec line_ok emitted inbound still rd wr "cell_fits cap" enc_cell cell_val
  "write_cell E" "zg_read_field E cap" for E cap
  by unfold_locales (auto intro: write_cell_ok read_cell_ok)

section \<open>What is written is a field\<close>

definition field_of_cell :: "cell \<Rightarrow> field" where
  "field_of_cell c =
     (case c of CBool b \<Rightarrow> Atom TDB_BOOL (be_bytes 1 (if b then 1 else 0)) | CInt v \<Rightarrow> Atom TDB_INT (be_bytes 4 (unat v))
      | CLong v \<Rightarrow> Atom TDB_LONG (be_bytes 8 (unat v)) | CDouble v \<Rightarrow> Atom TDB_DOUBLE (be_bytes 8 (unat v))
      | CString x \<Rightarrow> Run8 TDB_STRING (strlen x) (str_val x) | CText x \<Rightarrow> Run16 TDB_TEXT (strlen x) (str_val x))"

lemma tdb_scales [simp]:
  "TDB_BOOL AND TDB_SCALE_MASK = TDB_SCALE_ATOM" "TDB_INT AND TDB_SCALE_MASK = TDB_SCALE_ATOM"
  "TDB_LONG AND TDB_SCALE_MASK = TDB_SCALE_ATOM" "TDB_DOUBLE AND TDB_SCALE_MASK = TDB_SCALE_ATOM"
  "TDB_STRING AND TDB_SCALE_MASK = TDB_SCALE_BYTE" "TDB_TEXT AND TDB_SCALE_MASK = TDB_SCALE_WORD"
  by (simp_all add: tdb_defs)

lemma tdb_esizes [simp]:
  "tdb_esize TDB_BOOL = 1" "tdb_esize TDB_INT = 4" "tdb_esize TDB_LONG = 8" "tdb_esize TDB_DOUBLE = 8"
  "tdb_esize TDB_STRING = 1" "tdb_esize TDB_TEXT = 1"
  by (simp_all add: tdb_esize_def tdb_defs)

lemma enc_field_of_cell: "enc_field (field_of_cell c) = enc_cell c"
  by (cases c) (simp_all add: field_of_cell_def enc_cell_def enc_bool_def enc_int_def enc_long_def enc_double_def
      enc_scalar_def enc_string_def enc_text_def str_bytes_def text_bytes_def)

lemma field_of_cell_ok: "cell_fits cap c \<Longrightarrow> field_ok (field_of_cell c)"
  by (cases c) (simp_all add: field_of_cell_def cell_fits_def string_fits_def text_fits_def ZG_MAX_STRING_def ZG_MAX_TEXT_def)

definition field_of_dvector :: "64 word list \<Rightarrow> field" where
  "field_of_dvector vs = Vec (TDB_SCALE_DWRD OR TDB_DOUBLE) (map (\<lambda>v. field_of_cell (CDouble v)) vs)"

lemma enc_field_of_dvector: "enc_field (field_of_dvector vs) = enc_dvector vs"
  by (simp add: field_of_dvector_def enc_dvector_def comp_def enc_field_of_cell enc_cell_def)

lemma field_of_dvector_ok: "length vs < 4294967296 \<Longrightarrow> field_ok (field_of_dvector vs)"
  by (simp add: field_of_dvector_def list_all_iff field_of_cell_def)

section \<open>Nulls and refusals\<close>

lemma null_head:
  assumes "t AND TDB_IS_NULL \<noteq> 0"
  shows "talks line_ok emitted inbound still (andthen field_head (\<lambda>(tdb, null). if null then ret v else f tdb)) [] [t] v"
  by (rule head_then) (simp add: assms talks_ret)

text \<open>A null field of any type is its descriptor byte and nothing else, to every reader.\<close>

lemma null_readers:
  assumes "t AND TDB_IS_NULL \<noteq> 0"
  shows "talks line_ok emitted inbound still zg_read_bool [] [t] None"
    and "talks line_ok emitted inbound still (zg_read_int E) [] [t] None"
    and "talks line_ok emitted inbound still (zg_read_long E) [] [t] None"
    and "talks line_ok emitted inbound still zg_read_double [] [t] None"
    and "talks line_ok emitted inbound still (zg_read_string E cap) [] [t] None"
    and "talks line_ok emitted inbound still (zg_read_text E cap) [] [t] None"
    and "talks line_ok emitted inbound still (zg_read_text_alloc E) [] [t] None"
    and "talks line_ok emitted inbound still (zg_read_dvector E cap) [] [t] None"
    and "talks line_ok emitted inbound still (zg_read_field E cap) [] [t] ZG_F_NULL"
    and "talks line_ok emitted inbound still (zg_skip_field E) [] [t] ()"
proof -
  have sc: "talks line_ok emitted inbound still (rd_scalar n) [] [t] None" for n
    unfolding rd_scalar_def using assms by (rule null_head)
  show "talks line_ok emitted inbound still zg_read_bool [] [t] None"
    using ret_then [OF sc, of 1 "map_option (\<lambda>b. b \<noteq> 0)"] by (simp add: zg_read_bool_def)
  show "talks line_ok emitted inbound still zg_read_double [] [t] None"
    using ret_then [OF sc, of 8 "map_option word_of_nat"] by (simp add: zg_read_double_def)
  show "talks line_ok emitted inbound still (zg_read_int E) [] [t] None"
    by (rule on_socket [where k = "andthen (rd_scalar 4) (\<lambda>v. ret (map_option word_of_nat v))"])
      (use ret_then [OF sc, of 4 "map_option word_of_nat"] in \<open>simp_all add: zg_read_int_def\<close>)
  show "talks line_ok emitted inbound still (zg_read_long E) [] [t] None"
    by (rule on_socket [where k = "andthen (rd_scalar 8) (\<lambda>v. ret (map_option word_of_nat v))"])
      (use ret_then [OF sc, of 8 "map_option word_of_nat"] in \<open>simp_all add: zg_read_long_def\<close>)
  show "talks line_ok emitted inbound still (zg_read_string E cap) [] [t] None"
    by (rule on_socket [OF null_head [OF assms]]) (simp add: zg_read_string_def)
  show "talks line_ok emitted inbound still (zg_read_text E cap) [] [t] None"
    by (rule on_socket [OF null_head [OF assms]]) (simp add: zg_read_text_def)
  show "talks line_ok emitted inbound still (zg_read_text_alloc E) [] [t] None"
    by (rule on_socket [OF null_head [OF assms]]) (simp add: zg_read_text_alloc_def)
  show "talks line_ok emitted inbound still (zg_read_dvector E cap) [] [t] None"
    by (rule on_socket [OF null_head [OF assms]]) (simp add: zg_read_dvector_def)
  show "talks line_ok emitted inbound still (zg_read_field E cap) [] [t] ZG_F_NULL"
    by (rule on_socket [OF null_head [OF assms]]) (simp add: zg_read_field_def)
  show "talks line_ok emitted inbound still (zg_skip_field E) [] [t] ()"
    using zg_skip_field_ok [of "Null t" E] assms by simp
qed

text \<open>A Text wider than the buffer is refused, and it is off the wire all the same.\<close>

lemma rd_text_body_wide:
  assumes "length bs \<ge> cap" and "length bs \<le> ZG_MAX_TEXT" and "line_ok s" and "inbound s = text_bytes bs @ rest"
  shows "\<exists>t. rd_text_body cap s = Zero t \<and> line_ok t \<and> emitted t = emitted s \<and> inbound t = rest \<and>
    c_err t = snprintf_s 512 ''the Text does not fit in the buffer given''"
proof -
  let ?n = "word_of_nat (length bs) :: 16 word"
  have n: "unat ?n = length bs" using assms(2) by (simp add: ZG_MAX_TEXT_def)
  obtain t where t: "rd_u16 s = One ?n t" "line_ok t" "emitted t = emitted s @ []" "inbound t = bs @ rest"
    using rd_u16_ok [of ?n] assms(3) by (rule talksE [of _ _ _ _ _ _ _ _ _ "bs @ rest"])
      (use assms(4) n in \<open>simp add: text_bytes_def\<close>)
  have "rd_text_body cap s = andthen (skip (length bs)) (\<lambda>_. say ''the Text does not fit in the buffer given'') t"
    using t(1) n assms(1) by (simp add: rd_text_body_def andthen_One)
  then show ?thesis using talks_say [OF skip_ok [OF refl] t(2,4)] t(3) by simp
qed

lemma zg_read_text_wide:
  assumes "strlen x \<ge> cap" and "strlen x \<le> ZG_MAX_TEXT" and "line_ok s" and "inbound s = enc_text x @ rest"
  shows "\<exists>t. zg_read_text E cap s = Zero t \<and> line_ok t \<and> emitted t = emitted s \<and> inbound t = rest \<and>
    c_err t = snprintf_s 512 ''the Text does not fit in the buffer given''"
proof -
  obtain u where u: "field_head s = One (TDB_TEXT, False) u" "line_ok u" "emitted u = emitted s @ []"
      "inbound u = text_bytes (str_val x) @ rest"
    using field_head_ok [of TDB_TEXT] assms(3) by (rule talksE [where rest = "text_bytes (str_val x) @ rest"])
      (use assms(4) in \<open>simp_all add: enc_text_def\<close>)
  obtain t where t: "rd_text_body cap u = Zero t" "line_ok t" "emitted t = emitted u" "inbound t = rest"
      "c_err t = snprintf_s 512 ''the Text does not fit in the buffer given''"
    using rd_text_body_wide [OF _ _ u(2,4), of cap] assms(1,2) by auto
  then show ?thesis using u assms(3) by (simp add: zg_read_text_def line_ok_embed andthen_def)
qed

text \<open>A vector wider than the caller's buffer is refused with its elements still on the wire.\<close>

lemma zg_read_dvector_wide:
  assumes "length vs > cap" and "length vs < 4294967296" and "line_ok s" and "inbound s = enc_dvector vs @ rest"
  shows "\<exists>t. zg_read_dvector E cap s = Zero t \<and> line_ok t \<and> inbound t = concat (map enc_double vs) @ rest"
proof -
  let ?n = "word_of_nat (length vs) :: 32 word"
  let ?t = "TDB_SCALE_DWRD OR TDB_DOUBLE"
  have n: "unat ?n = length vs" using assms(2) by simp
  obtain u where u: "field_head s = One (?t, False) u" "line_ok u" "inbound u = be_bytes 4 (length vs) @ concat (map enc_double vs) @ rest"
    using field_head_ok [of ?t] assms(3) by (rule talksE [where rest = "be_bytes 4 (length vs) @ concat (map enc_double vs) @ rest"])
      (use assms(4) in \<open>simp_all add: enc_dvector_def\<close>)
  obtain t where t: "rd_u32 u = One ?n t" "line_ok t" "inbound t = concat (map enc_double vs) @ rest"
    using rd_u32_ok [of ?n] u(2) by (rule talksE [of _ _ _ _ _ _ _ _ _ "concat (map enc_double vs) @ rest"])
      (use u(3) n in simp)
  show ?thesis
    using u(1) t n assms(1,3) by (simp add: zg_read_dvector_def line_ok_embed andthen_def say_def)
qed

lemma too_long_parameter:
  "strlen x > ZG_MAX_STRING \<Longrightarrow> zg_write_string E x s = Zero (s\<lparr>c_err := ''a String is limited to 255 bytes''\<rparr>)"
  "strlen x > ZG_MAX_TEXT \<Longrightarrow> zg_write_text E x s = Zero (s\<lparr>c_err := ''a Text is limited to 65535 bytes''\<rparr>)"
  by (simp_all add: zg_write_string_def zg_write_text_def say_def snprintf_s_def cstr_def)

section \<open>The invariant of the buffers\<close>

lemma keeps_bufs_scalar [keeps_rules]: "keeps bufs_ok (rd_scalar n)" "keeps bufs_ok (wr_field t n v)"
  unfolding rd_scalar_def wr_field_def by (auto intro!: keeps_rules split: prod.splits)

lemma keeps_bufs_text_body [keeps_rules]: "keeps bufs_ok (rd_text_body cap)"
  unfolding rd_text_body_def by (intro keeps_rules)

lemma keeps_case_prod [keeps_rules]: "(\<And>a b. x = (a, b) \<Longrightarrow> keeps P (f a b)) \<Longrightarrow> keeps P (case x of (a, b) \<Rightarrow> f a b)"
  by (cases x) simp

lemma keeps_bufs_writers [keeps_rules]:
  "keeps bufs_ok (zg_write_bool b)" "keeps bufs_ok (zg_write_int E i)" "keeps bufs_ok (zg_write_long E l)"
  "keeps bufs_ok (zg_write_double d)" "keeps bufs_ok (zg_write_string E x)" "keeps bufs_ok (zg_write_text E x)"
  "keeps bufs_ok (zg_write_dvector E vs)"
  unfolding zg_write_bool_def zg_write_int_def [abs_def] zg_write_long_def [abs_def] zg_write_double_def
    zg_write_string_def [abs_def] zg_write_text_def [abs_def] zg_write_dvector_def [abs_def]
  by (intro keeps_cond keeps_rules)+

lemma keeps_bufs_readers [keeps_rules]:
  "keeps bufs_ok zg_read_bool" "keeps bufs_ok (zg_read_int E)" "keeps bufs_ok (zg_read_long E)"
  "keeps bufs_ok zg_read_double" "keeps bufs_ok (zg_read_string E cap)" "keeps bufs_ok (zg_read_text E cap)"
  "keeps bufs_ok (zg_read_dvector E cap)" "keeps bufs_ok (zg_read_field E cap)"
  unfolding zg_read_bool_def zg_read_int_def [abs_def] zg_read_long_def [abs_def] zg_read_double_def
    zg_read_string_def [abs_def] zg_read_text_def [abs_def] zg_read_dvector_def [abs_def] zg_read_field_def [abs_def]
  by (intro keeps_cond keeps_rules)+

lemma keeps_bufs_text_alloc [keeps_rules]: "keeps bufs_ok (zg_read_text_alloc E)"
proof -
  have m: "bufs_ok t = bufs_ok s" if "take_malloc s = (b, t)" for b and s t :: "'a zsys"
    using that by (auto simp: take_malloc_def bufs_ok_def split: list.splits)
  have k: "keeps bufs_ok (\<lambda>s. case take_malloc s of (False, t) \<Rightarrow> f t | (True, t) \<Rightarrow> g t)"
    if "keeps bufs_ok f" "keeps bufs_ok g" for f g :: "('a, byte list option) zact"
    using that m by (auto simp: keeps_def split: prod.splits bool.splits)
  show ?thesis
    unfolding zg_read_text_alloc_def [abs_def] by (intro keeps_cond keeps_rules k)
qed

end
