(* ===== verification/Zg_Calls.thy ===== *)
theory Zg_Calls
  imports Zg_Codec
begin

text \<open>
  The calls of the client (client/zigurat.h) as one relation, and the processes that share a file of turns as a system whose
  steps are the operations on the turn. The kernel grants the exclusive lock on a file to one open file at a time; that nobody
  else has the turn then is what the code makes of it.
\<close>

section \<open>Every call\<close>

text \<open>One rule for each function of the header that changes a state; the questions (\<open>zg_error\<close>, \<open>zg_is_open\<close>, \<open>zg_owns\<close>,
  \<open>zg_embedded\<close>, \<open>zg_page_size\<close>, \<open>zg_transaction_id\<close>) change none.\<close>

inductive client_call :: "'e engine \<Rightarrow> tls_build \<Rightarrow> 'e zsys \<Rightarrow> 'e zsys \<Rightarrow> bool" for E B where
  "client_call E B s (zg_tls_configure_flat cacert capath cert key key_pass insecure s)"
| "client_call E B s (final (zg_open B i host errcap s))"
| "client_call E B s (final (zg_open_embed E i dir errcap s))"
| "client_call E B s (zg_close E s)"
| "client_call E B s (final (zg_reopen E B host s))"
| "client_call E B s (final (zg_serialise answer path wait s))"
| "client_call E B s (final (zg_echo E txt cap s))"
| "client_call E B s (final (zg_compile E txt s))"
| "client_call E B s (final (zg_call E txt s))"
| "client_call E B s (final (zg_call_send E txt s))"
| "client_call E B s (final (zg_call_wait E txt s))"
| "client_call E B s (final (zg_auto_commit E on s))"
| "client_call E B s (final (zg_isolate E level s))"
| "client_call E B s (final (zg_commit E s))"
| "client_call E B s (final (zg_rollback E s))"
| "client_call E B s (final (zg_result E s))"
| "client_call E B s (final (zg_columns E cap s))"
| drain: "zg_drain E n s = Some r \<Longrightarrow> client_call E B s (final r)"
| "client_call E B s (final (zg_write_bool b s))"
| "client_call E B s (final (zg_write_int E v32 s))"
| "client_call E B s (final (zg_write_long E v64 s))"
| "client_call E B s (final (zg_write_double d s))"
| "client_call E B s (final (zg_write_string E txt s))"
| "client_call E B s (final (zg_write_text E txt s))"
| "client_call E B s (final (zg_write_dvector E vs s))"
| "client_call E B s (final (zg_read_bool s))"
| "client_call E B s (final (zg_read_int E s))"
| "client_call E B s (final (zg_read_long E s))"
| "client_call E B s (final (zg_read_double s))"
| "client_call E B s (final (zg_read_string E cap s))"
| "client_call E B s (final (zg_read_text E cap s))"
| "client_call E B s (final (zg_read_text_alloc E s))"
| "client_call E B s (final (zg_read_dvector E cap s))"
| "client_call E B s (final (zg_skip_field E s))"
| "client_call E B s (final (zg_read_field E cap s))"

section \<open>The buffers through every call\<close>

lemma bufs_ok_irrelevant [simp]:
  "bufs_ok (s\<lparr>g_tls := opts\<rparr>) = bufs_ok s" "bufs_ok (s\<lparr>g_tls_on := b\<rparr>) = bufs_ok s" "bufs_ok (s\<lparr>c_lockfd := i\<rparr>) = bufs_ok s"
  "bufs_ok (s\<lparr>c_lockwait := j\<rparr>) = bufs_ok s" "bufs_ok (s\<lparr>c_tls := x\<rparr>) = bufs_ok s" "bufs_ok (s\<lparr>c_fd := i\<rparr>) = bufs_ok s"
  "bufs_ok (close_lockfd s) = bufs_ok s" "bufs_ok (close_fd s) = bufs_ok s" "bufs_ok (new_conn k s)"
  by (simp_all add: bufs_ok_def close_lockfd_def close_fd_def new_conn_def)

lemma bufs_ok_forget [simp]: "bufs_ok (ce_forget E s) = bufs_ok s"
  by (auto simp: ce_forget_def bufs_ok_def split: option.splits prod.splits)

lemma bufs_ok_opening:
  assumes "bufs_ok s"
  shows "bufs_ok (final (zg_open B i host errcap s))" and "bufs_ok (final (zg_open_embed E i dir errcap s))"
    and "bufs_ok (zg_close E s)" and "bufs_ok (final (zg_serialise answer path wait s))"
    and "bufs_ok (zg_tls_configure_flat cacert capath cert key key_pass insecure s)"
proof -
  have m: "bufs_ok t" if "take_malloc s = (b, t)" for b t
    using that assms by (auto simp: take_malloc_def bufs_ok_def split: list.splits)
  show "bufs_ok (final (zg_open B i host errcap s))"
  proof (cases "take_malloc s")
    case (Pair b t)
    have "bufs_ok (final (dial B host (new_conn i t)))" by (rule keepsD [OF keeps_bufs_dial]) simp
    then show ?thesis using Pair m [OF Pair] by (cases b; cases "dial B host (new_conn i t)") (simp_all add: zg_open_def)
  qed
  show "bufs_ok (final (zg_open_embed E i dir errcap s))"
    using assms m ce_of_bufs [of E] by (fastforce simp: zg_open_embed_def Let_def bufs_ok_def new_conn_def split: prod.splits option.splits bool.splits)
qed (use assms in \<open>auto simp: zg_close_def zg_serialise_def zg_tls_configure_flat_def Let_def say2_def split: sum.splits\<close>)

lemma keeps_bufs_drain_step: "keeps bufs_ok (drain_step E n r)"
  unfolding drain_step_def by (intro keeps_rules) 

lemma bufs_ok_drain:
  assumes "zg_drain E n s = Some r"
  shows "bufs_ok s \<longrightarrow> bufs_ok (final r)"
proof (rule zg_drain.raw_induct [where P = "\<lambda>E n s r. bufs_ok s \<longrightarrow> bufs_ok (final r)", OF _ assms], rule impI)
  fix drain and E :: "'a engine" and n s r
  assume ih: "\<And>E n s r. drain E n s = Some r \<Longrightarrow> bufs_ok s \<longrightarrow> bufs_ok (final r)" and s: "bufs_ok s"
    and eq: "(case zg_result E s of Waits t \<Rightarrow> Some (Waits t) | Zero t \<Rightarrow> Some (Zero t)
      | One k t \<Rightarrow> if k = ZG_SUCCESSFUL_DONE then Some (One () t)
          else (case drain_step E n k t of Waits u \<Rightarrow> Some (Waits u) | Zero u \<Rightarrow> Some (Zero u) | One _ u \<Rightarrow> drain E n u)) = Some r"
  show "bufs_ok (final r)"
  proof (cases "zg_result E s")
    case (One k t)
    then have "bufs_ok t" using keepsD [OF keeps_bufs_result s, of E] by simp
    moreover from this have "bufs_ok (final (drain_step E n k t))" by (rule keepsD [OF keeps_bufs_drain_step])
    ultimately show ?thesis using eq One by (cases "drain_step E n k t"; cases r) (auto split: if_splits dest!: ih)
  qed (use eq keepsD [OF keeps_bufs_result s, of E] in auto)
qed

lemma bufs_ok_call: "client_call E B s t \<Longrightarrow> bufs_ok s \<Longrightarrow> bufs_ok t"
proof (induction rule: client_call.induct)
  case (drain n s r)
  then show ?case using bufs_ok_drain by blast
qed (simp_all add: bufs_ok_opening keepsD [OF keeps_bufs_reopen] keepsD [OF keeps_bufs_result] keepsD [OF keeps_bufs_call_send]
    keepsD [OF keeps_bufs_text_alloc] keeps_bufs_verbs [THEN keepsD] keeps_bufs_writers [THEN keepsD] keeps_bufs_readers [THEN keepsD]
    keeps_bufs_skip_field [THEN keepsD])

section \<open>Processes over one file of turns\<close>

text \<open>
  Every process has a connection of its own. A process tries for the turn, gives it, serialises anew, closes its connection, does
  anything that leaves the turn, its descriptor and the lock alone, or dies, which closes its files. A try that the kernel
  refuses changes nothing another process can see, so the tries of one call of \<open>take_turn\<close> are one step; what the call answers and
  believes afterwards is up to the code. Of the kernel only this is asked: it does not give the lock to an open file while another one
  has it.
\<close>

definition flock_allows :: "(nat \<Rightarrow> 'e zsys) \<Rightarrow> nat \<Rightarrow> 'e zsys \<Rightarrow> bool" where
  "flock_allows T p s \<longleftrightarrow> (w_locked s \<and> \<not> w_locked (T p) \<longrightarrow> (\<forall>q. q \<noteq> p \<longrightarrow> \<not> w_locked (T q)))"

inductive turn_step :: "'e engine \<Rightarrow> (nat \<Rightarrow> 'e zsys) \<Rightarrow> (nat \<Rightarrow> 'e zsys) \<Rightarrow> bool" for E where
  takes: "flock_allows T p (final (take_turn (T p))) \<Longrightarrow> turn_step E T (T(p := final (take_turn (T p))))"
| gives: "turn_step E T (T(p := give_turn (T p)))"
| serialises: "turn_step E T (T(p := final (zg_serialise answer path wait (T p))))"
| closes: "turn_step E T (T(p := zg_close E (T p)))"
| works: "c_held s = c_held (T p) \<Longrightarrow> c_lockfd s = c_lockfd (T p) \<Longrightarrow> w_locked s = w_locked (T p) \<Longrightarrow> turn_step E T (T(p := s))"
| dies: "turn_step E T (T(p := (T p)\<lparr>c_held := False, c_lockfd := -1, w_locked := False\<rparr>))"

inductive_cases turn_stepE: "turn_step E T U"

inductive turn_reachable :: "'e engine \<Rightarrow> (nat \<Rightarrow> 'e zsys) \<Rightarrow> bool" for E where
  start: "(\<And>p. \<not> c_held (T p) \<and> \<not> w_locked (T p)) \<Longrightarrow> turn_reachable E T"
| step: "turn_reachable E T \<Longrightarrow> turn_step E T U \<Longrightarrow> turn_reachable E U"

definition turns_agree :: "(nat \<Rightarrow> 'e zsys) \<Rightarrow> bool" where
  "turns_agree T \<longleftrightarrow> (\<forall>p. turn_backed (T p)) \<and> (\<forall>p q. w_locked (T p) \<longrightarrow> w_locked (T q) \<longrightarrow> p = q)"

lemma turns_agree_update:
  assumes "turns_agree T" and "turn_backed s" and "flock_allows T p s"
  shows "turns_agree (T(p := s))"
  using assms unfolding turns_agree_def flock_allows_def by (metis fun_upd_def)

lemma zg_close_backed: "turn_backed s \<Longrightarrow> turn_backed (zg_close E s)"
  by (auto simp: turn_backed_def zg_close_def Let_def give_turn_def close_lockfd_def close_fd_def ce_forget_def split: option.splits prod.splits)

lemma lock_not_taken:
  "w_locked (give_turn s) \<Longrightarrow> w_locked s" "w_locked (zg_close E s) \<Longrightarrow> w_locked s" "w_locked (final (zg_serialise answer path wait s)) \<Longrightarrow> w_locked s"
  by (auto simp: zg_close_def zg_serialise_def Let_def give_turn_def close_lockfd_def close_fd_def ce_forget_def say2_def
      split: option.splits prod.splits sum.splits if_splits)

lemma turn_step_agree: "turn_step E T U \<Longrightarrow> turns_agree T \<Longrightarrow> turns_agree U"
proof (induction rule: turn_step.induct)
  case (takes T p)
  then show ?case by (intro turns_agree_update take_turn_backed) (simp_all add: turns_agree_def)
next
  case (gives T p)
  then show ?case by (intro turns_agree_update give_turn_backed) (auto simp: turns_agree_def flock_allows_def dest: lock_not_taken)
next
  case (serialises T p answer path wait)
  then show ?case by (intro turns_agree_update zg_serialise_backed) (auto simp: turns_agree_def flock_allows_def dest: lock_not_taken)
next
  case (closes T p)
  then show ?case by (intro turns_agree_update zg_close_backed) (auto simp: turns_agree_def flock_allows_def dest: lock_not_taken)
qed (auto intro!: turns_agree_update simp: turn_backed_def flock_allows_def turns_agree_def)

lemma turn_reachable_agree: "turn_reachable E T \<Longrightarrow> turns_agree T"
proof (induction rule: turn_reachable.induct)
  case (start T)
  then show ?case by (simp add: turns_agree_def turn_backed_def)
next
  case (step T U)
  then show ?case by (blast intro: turn_step_agree)
qed

end
