(* ===== verification/Zeytun_Text.thy ===== *)
theory Zeytun_Text
  imports Coco_Prelude
begin

text \<open>
  The text of Zeytun pages (client/zeytun.c): \<open>zt_unescape\<close>, which undoes the five HTML escapes in
  place, and \<open>zt_urlencode\<close>, which writes a value of a query string into a buffer of a given size.
  Each is compared with a function on whole strings.
\<close>

section \<open>Unescaping in place\<close>

text \<open>The buffer is a list with a NUL in it; \<open>r\<close> and \<open>w\<close> are the read and the write position. The
  answer is the buffer and the length of the string in it.\<close>

function zt_unescape_loop :: "nat \<Rightarrow> nat \<Rightarrow> string \<Rightarrow> string \<times> nat" where
  "zt_unescape_loop r w s =
     (if r < length s \<and> s ! r \<noteq> CHR 0x00
      then if s ! r = CHR ''&'' \<and> prefix ''&amp;'' (drop r s) then zt_unescape_loop (r + 5) (w + 1) (s[w := CHR ''&''])
           else if s ! r = CHR ''&'' \<and> prefix ''&lt;'' (drop r s) then zt_unescape_loop (r + 4) (w + 1) (s[w := CHR ''<''])
           else if s ! r = CHR ''&'' \<and> prefix ''&gt;'' (drop r s) then zt_unescape_loop (r + 4) (w + 1) (s[w := CHR ''>''])
           else if s ! r = CHR ''&'' \<and> prefix ''&quot;'' (drop r s) then zt_unescape_loop (r + 6) (w + 1) (s[w := CHR 0x22])
           else if s ! r = CHR ''&'' \<and> prefix ''&#39;'' (drop r s) then zt_unescape_loop (r + 5) (w + 1) (s[w := CHR 0x27])
           else zt_unescape_loop (r + 1) (w + 1) (s[w := s ! r])
      else (s[w := CHR 0x00], w))"
  by pat_completeness auto
termination
  by (relation "measure (\<lambda>(r, w, s). length s - r)") auto

declare zt_unescape_loop.simps [simp del]

definition zt_unescape :: "string \<Rightarrow> string \<times> nat" where
  "zt_unescape s = zt_unescape_loop 0 0 s"

text \<open>The same on whole strings.\<close>

definition entities :: "(string \<times> char) list" where
  "entities = [(''&amp;'', CHR ''&''), (''&lt;'', CHR ''<''), (''&gt;'', CHR ''>''), (''&quot;'', CHR 0x22), (''&#39;'', CHR 0x27)]"

definition entity_at :: "string \<Rightarrow> (string \<times> char) option" where
  "entity_at s = List.find (\<lambda>(e, c). prefix e s) entities"

function unescape :: "string \<Rightarrow> string" where
  "unescape s =
     (case s of [] \<Rightarrow> []
      | c # r \<Rightarrow> (case entity_at s of Some (e, d) \<Rightarrow> d # unescape (drop (length e - 1) r) | None \<Rightarrow> c # unescape r))"
  by pat_completeness auto
termination
  by (relation "measure length") auto

declare unescape.simps [simp del]

text \<open>What Zeytun's escaper does to a page.\<close>

definition escape_char :: "char \<Rightarrow> string" where
  "escape_char c =
     (if c = CHR ''&'' then ''&amp;'' else if c = CHR ''<'' then ''&lt;'' else if c = CHR ''>'' then ''&gt;''
      else if c = CHR 0x22 then ''&quot;'' else if c = CHR 0x27 then ''&#39;'' else [c])"

definition escape :: "string \<Rightarrow> string" where
  "escape s = concat (map escape_char s)"

lemma entity_at_not_amp: "c \<noteq> CHR ''&'' \<Longrightarrow> entity_at (c # r) = None"
  by (auto simp: entity_at_def entities_def)

lemma entity_at_nonempty: "entity_at s = Some (e, c) \<Longrightarrow> prefix e s \<and> (\<exists>t. e = CHR ''&'' # t)"
  by (auto simp: entity_at_def entities_def split: if_splits)

lemma unescape_Nil [simp]: "unescape [] = []"
  by (simp add: unescape.simps [of "[]"])

lemma unescape_None: "entity_at (c # r) = None \<Longrightarrow> unescape (c # r) = c # unescape r"
  by (subst unescape.simps) simp

lemma unescape_Some: "entity_at (c # r) = Some (e, d) \<Longrightarrow> unescape (c # r) = d # unescape (drop (length e - 1) r)"
  by (subst unescape.simps) simp

lemma unescape_plain: "c \<noteq> CHR ''&'' \<Longrightarrow> unescape (c # r) = c # unescape r"
  by (simp add: unescape.simps [of "c # r"] entity_at_not_amp)

lemma unescape_escape_char: "unescape (escape_char c @ r) = c # unescape r"
  by (auto simp: escape_char_def unescape_plain unescape.simps [of "CHR ''&'' # _"] entity_at_def entities_def)

lemma unescape_escape: "unescape (escape s) = s"
  by (induction s) (simp_all add: escape_def unescape_escape_char)

lemma length_unescape: "length (unescape s) \<le> length s"
proof (induction s rule: unescape.induct)
  case (1 s)
  show ?case
  proof (cases s)
    case (Cons c r)
    show ?thesis
    proof (cases "entity_at s")
      case None
      then show ?thesis using 1(1) [OF Cons None] Cons by (simp add: unescape_None)
    next
      case (Some p)
      obtain e d where p: "p = (e, d)" by fastforce
      have "length (drop (length e - 1) r) \<le> length r" by simp
      then show ?thesis using 1(2) [OF Cons Some p [symmetric]] Cons Some p by (simp add: unescape_Some)
    qed
  qed simp
qed

text \<open>A step of the loop, in terms of the entity at the read position.\<close>

lemma zt_unescape_loop_step:
  assumes "r < length s" and "s ! r \<noteq> CHR 0x00"
  shows "zt_unescape_loop r w s =
    (case entity_at (drop r s) of
       Some (e, c) \<Rightarrow> zt_unescape_loop (r + length e) (w + 1) (s[w := c])
     | None \<Rightarrow> zt_unescape_loop (r + 1) (w + 1) (s[w := s ! r]))"
proof (cases "s ! r = CHR ''&''")
  case True
  then show ?thesis using assms
    by (simp add: zt_unescape_loop.simps [of r w s] entity_at_def entities_def eval_nat_numeral)
next
  case False
  have "drop r s = s ! r # drop (Suc r) s" using assms(1) by (simp add: Cons_nth_drop_Suc)
  then have "entity_at (drop r s) = None" using False by (simp add: entity_at_not_amp)
  then show ?thesis using assms False by (simp add: zt_unescape_loop.simps [of r w s])
qed

text \<open>Entities hold no NUL, so one that starts inside the C string ends inside it.\<close>

lemma entity_no_NUL: "entity_at s = Some (e, c) \<Longrightarrow> CHR 0x00 \<notin> set e"
  by (auto simp: entity_at_def entities_def split: if_splits)

lemma cstr_append_no_NUL: "CHR 0x00 \<notin> set e \<Longrightarrow> cstr (e @ t) = e @ cstr t"
  by (induction e) (auto simp: cstr_def)

lemma prefix_cstr: "CHR 0x00 \<notin> set e \<Longrightarrow> prefix e (cstr s) \<longleftrightarrow> prefix e s"
proof
  assume "CHR 0x00 \<notin> set e" "prefix e s"
  then show "prefix e (cstr s)" by (auto simp: prefix_def cstr_append_no_NUL)
next
  assume "prefix e (cstr s)"
  moreover have "prefix (cstr s) s" by (simp add: cstr_def takeWhile_is_prefix)
  ultimately show "prefix e s" by (rule prefix_order.trans)
qed

lemma entity_at_cstr: "entity_at (cstr s) = entity_at s"
proof -
  have "prefix e (cstr s) = prefix e s" if "(e, c) \<in> set entities" for e c
    by (rule prefix_cstr) (use that in \<open>auto simp: entities_def\<close>)
  then show ?thesis by (simp add: entity_at_def entities_def)
qed

lemma cstr_Cons: "c \<noteq> CHR 0x00 \<Longrightarrow> cstr (c # r) = c # cstr r"
  by (simp add: cstr_def)

lemma unescape_cstr_drop:
  assumes "r < length s" and "s ! r \<noteq> CHR 0x00"
  shows "unescape (cstr (drop r s)) =
    (case entity_at (drop r s) of
       Some (e, c) \<Rightarrow> c # unescape (cstr (drop (r + length e) s))
     | None \<Rightarrow> s ! r # unescape (cstr (drop (r + 1) s)))"
proof -
  let ?d = "drop (Suc r) s"
  have d: "drop r s = s ! r # ?d" using assms(1) by (simp add: Cons_nth_drop_Suc)
  have c: "cstr (drop r s) = s ! r # cstr ?d" using d assms(2) by (simp add: cstr_Cons)
  show ?thesis
  proof (cases "entity_at (drop r s)")
    case None
    then have "entity_at (s ! r # cstr ?d) = None" using entity_at_cstr [of "drop r s"] c by simp
    then show ?thesis using None by (simp add: c unescape_None)
  next
    case (Some p)
    obtain e x where p: "p = (e, x)" by fastforce
    note e = entity_no_NUL [OF Some [unfolded p]] entity_at_nonempty [OF Some [unfolded p]]
    then obtain u where u: "drop r s = e @ u" by (auto simp: prefix_def)
    then have "cstr (drop r s) = e @ cstr u" using e(1) by (simp add: cstr_append_no_NUL)
    moreover obtain f where f: "e = CHR ''&'' # f" using e(2) by blast
    ultimately have "cstr ?d = f @ cstr u" using c by simp
    moreover have "drop (r + length e) s = u"
      by (metis add.commute append_eq_conv_conj drop_drop u)
    moreover have "entity_at (s ! r # cstr ?d) = Some (e, x)" using Some p entity_at_cstr [of "drop r s"] c by simp
    ultimately show ?thesis using Some p f by (simp add: c unescape_Some)
  qed
qed

lemma entity_at_length: "entity_at (drop r s) = Some (e, c) \<Longrightarrow> r < length s \<Longrightarrow> r + length e \<le> length s \<and> 0 < length e"
  using entity_at_nonempty [of "drop r s" e c] prefix_length_le [of e "drop r s"] by fastforce

text \<open>What is still to be read is never written on: the write position stays behind the read one.\<close>

lemma zt_unescape_loop_spec:
  assumes "w \<le> r" and "CHR 0x00 \<in> set (drop r s)"
  shows "case zt_unescape_loop r w s of (t, n) \<Rightarrow>
    length t = length s \<and> n = w + length (unescape (cstr (drop r s))) \<and>
    take n t = take w s @ unescape (cstr (drop r s)) \<and> n < length t \<and> t ! n = CHR 0x00"
  using assms
proof (induction "length s - r" arbitrary: r w s rule: less_induct)
  case less
  have r: "r < length s" using less.prems(2) by (metis drop_eq_Nil2 empty_iff empty_set not_less)
  show ?case
  proof (cases "s ! r = CHR 0x00")
    case True
    then have "cstr (drop r s) = []" using r by (simp add: cstr_def Cons_nth_drop_Suc [symmetric])
    moreover have "zt_unescape_loop r w s = (s[w := CHR 0x00], w)"
      using True by (simp add: zt_unescape_loop.simps [of r w s])
    ultimately show ?thesis using r less.prems(1) by simp
  next
    case False
    let ?k = "case entity_at (drop r s) of Some (e, c) \<Rightarrow> length e | None \<Rightarrow> 1"
    let ?c = "case entity_at (drop r s) of Some (e, c) \<Rightarrow> c | None \<Rightarrow> s ! r"
    let ?s = "s[w := ?c]"
    have step: "zt_unescape_loop r w s = zt_unescape_loop (r + ?k) (w + 1) ?s"
      using zt_unescape_loop_step [OF r False] by (auto split: option.splits prod.splits)
    have un: "unescape (cstr (drop r s)) = ?c # unescape (cstr (drop (r + ?k) s))"
      using unescape_cstr_drop [OF r False] by (auto split: option.splits prod.splits)
    have k: "0 < ?k" "r + ?k \<le> length s"
      using entity_at_length [of r s] r by (auto split: option.splits prod.splits)
    have same: "drop (r + ?k) ?s = drop (r + ?k) s" using k less.prems(1) by simp
    have nul: "CHR 0x00 \<in> set (drop (r + ?k) s)"
    proof -
      have "CHR 0x00 \<notin> set (take ?k (drop r s))"
      proof (cases "entity_at (drop r s)")
        case None
        then show ?thesis using False r by (simp add: Cons_nth_drop_Suc [symmetric])
      next
        case (Some p)
        obtain e c where p: "p = (e, c)" by fastforce
        have "take (length e) (drop r s) = e"
          using entity_at_nonempty [OF Some [unfolded p]] by (auto simp: prefix_def)
        then show ?thesis using Some p entity_no_NUL by auto
      qed
      moreover have "drop r s = take ?k (drop r s) @ drop (r + ?k) s" by (simp add: add.commute [of r] flip: drop_drop)
      ultimately show ?thesis using less.prems(2) by (metis Un_iff set_append)
    qed
    have "case zt_unescape_loop (r + ?k) (w + 1) ?s of (t, n) \<Rightarrow>
      length t = length ?s \<and> n = w + 1 + length (unescape (cstr (drop (r + ?k) ?s))) \<and>
      take n t = take (w + 1) ?s @ unescape (cstr (drop (r + ?k) ?s)) \<and> n < length t \<and> t ! n = CHR 0x00"
      by (rule less.hyps) (use k r same nul less.prems(1) in auto)
    moreover have "take (w + 1) ?s = take w s @ [?c]"
      using r less.prems(1) by (simp add: take_Suc_conv_app_nth)
    ultimately show ?thesis
      unfolding step un same by (simp split: prod.splits)
  qed
qed

text \<open>In place, it is the function on whole strings, and it never makes the string longer.\<close>

lemma zt_unescape_spec:
  assumes "CHR 0x00 \<in> set s" and "zt_unescape s = (t, n)"
  shows "cstr t = unescape (cstr s)" and "n = length (unescape (cstr s))" and "length t = length s"
proof -
  note sp = zt_unescape_loop_spec [of 0 0 s]
  have t: "length t = length s" "n = length (unescape (cstr s))" "take n t = unescape (cstr s)" "n < length t" "t ! n = CHR 0x00"
    using sp assms by (auto simp: zt_unescape_def)
  then show "n = length (unescape (cstr s))" "length t = length s" by simp_all
  have no: "CHR 0x00 \<notin> set (unescape x)" if "CHR 0x00 \<notin> set x" for x
    using that
  proof (induction x rule: unescape.induct)
    case (1 x)
    show ?case
    proof (cases x)
      case (Cons c r)
      show ?thesis
      proof (cases "entity_at x")
        case None
        then show ?thesis using 1(1) [OF Cons None] Cons "1.prems" by (simp add: unescape_None)
      next
        case (Some p)
        obtain e d where p: "p = (e, d)" by fastforce
        have d: "d \<noteq> CHR 0x00" using Some p by (auto simp: entity_at_def entities_def split: if_splits)
        have "CHR 0x00 \<notin> set (drop (length e - 1) r)" using Cons "1.prems" by (auto dest: in_set_dropD)
        then show ?thesis using 1(2) [OF Cons Some p [symmetric]] Cons Some p d by (simp add: unescape_Some)
      qed
    qed simp
  qed
  have "t = unescape (cstr s) @ CHR 0x00 # drop (Suc n) t"
    using t(3,4,5) by (metis id_take_nth_drop)
  moreover have "cstr (u @ CHR 0x00 # v) = u" if "CHR 0x00 \<notin> set u" for u v
    using cstr_append_no_NUL [OF that, of "CHR 0x00 # v"] by (simp add: cstr_def)
  ultimately show "cstr t = unescape (cstr s)" using no by (metis NUL_notin_cstr)
qed

section \<open>URL encoding\<close>

definition url_safe :: "char \<Rightarrow> bool" where
  "url_safe c \<longleftrightarrow>
     (let n = of_char c :: nat
      in (n \<ge> of_char (CHR ''a'') \<and> n \<le> of_char (CHR ''z'')) \<or> (n \<ge> of_char (CHR ''A'') \<and> n \<le> of_char (CHR ''Z'')) \<or>
         (n \<ge> of_char (CHR ''0'') \<and> n \<le> of_char (CHR ''9'')) \<or>
         c = CHR ''-'' \<or> c = CHR ''_'' \<or> c = CHR ''.'' \<or> c = CHR ''~'')"

definition hex_digits :: string where
  "hex_digits = ''0123456789ABCDEF''"

text \<open>\<open>out\<close> is what has been written, so \<open>w\<close> is its length; \<open>None\<close> is the answer 0.\<close>

fun zt_urlencode_loop :: "nat \<Rightarrow> string \<Rightarrow> string \<Rightarrow> string option" where
  "zt_urlencode_loop cap out [] = (if length out + 1 > cap then None else Some out)"
| "zt_urlencode_loop cap out (c # p) =
     (if url_safe c
      then if length out + 2 > cap then None else zt_urlencode_loop cap (out @ [c]) p
      else if length out + 4 > cap then None
      else zt_urlencode_loop cap
             (out @ [CHR ''%'', hex_digits ! (of_char c div 16), hex_digits ! (of_char c mod 16)]) p)"

definition zt_urlencode :: "string \<Rightarrow> nat \<Rightarrow> string option" where
  "zt_urlencode inp cap = zt_urlencode_loop cap [] (cstr inp)"

text \<open>The encoding of a whole string as RFC 3986 has it, with its unreserved characters and its hexadecimal digits, and the inverse.\<close>

definition unreserved :: string where
  "unreserved = ''ABCDEFGHIJKLMNOPQRSTUVWXYZabcdefghijklmnopqrstuvwxyz0123456789-._~''"

definition urlencode_char :: "char \<Rightarrow> string" where
  "urlencode_char c =
     (if c \<in> set unreserved then [c]
      else [CHR ''%'', ''0123456789ABCDEF'' ! (of_char c div 16), ''0123456789ABCDEF'' ! (of_char c mod 16)])"

definition urlencode :: "string \<Rightarrow> string" where
  "urlencode s = concat (map urlencode_char s)"

definition hex_val :: "char \<Rightarrow> nat" where
  "hex_val c = (let n = of_char c :: nat in if n \<le> 57 then n - 48 else n - 55)"

fun urldecode :: "string \<Rightarrow> string" where
  "urldecode [] = []"
| "urldecode (c # r) =
     (if c = CHR ''%''
      then case r of a # b # r' \<Rightarrow> char_of (16 * hex_val a + hex_val b) # urldecode r' | _ \<Rightarrow> c # urldecode r
      else c # urldecode r)"

lemma unreserved_codes: "map of_char unreserved = [65..<91] @ [97..<123] @ [48..<58] @ [45, 46, 95, 126 :: nat]"
  by code_simp

lemma url_safe_unreserved: "url_safe c \<longleftrightarrow> c \<in> set unreserved"
proof -
  define n :: nat where "n = of_char c"
  have c: "c = CHR ''-'' \<longleftrightarrow> n = 45" "c = CHR ''.'' \<longleftrightarrow> n = 46" "c = CHR ''_'' \<longleftrightarrow> n = 95" "c = CHR ''~'' \<longleftrightarrow> n = 126"
    using of_char_eq_iff [where 'a = nat, of c "CHR ''-''"] of_char_eq_iff [where 'a = nat, of c "CHR ''.''"] of_char_eq_iff [where 'a = nat, of c "CHR ''_''"]
      of_char_eq_iff [where 'a = nat, of c "CHR ''~''"] by (simp_all add: n_def)
  have b: "of_char (CHR ''a'') = (97 :: nat)" "of_char (CHR ''z'') = (122 :: nat)" "of_char (CHR ''A'') = (65 :: nat)" "of_char (CHR ''Z'') = (90 :: nat)"
    "of_char (CHR ''0'') = (48 :: nat)" "of_char (CHR ''9'') = (57 :: nat)" by simp_all
  have "c \<in> set unreserved \<longleftrightarrow> n \<in> set (map of_char unreserved)" by (auto simp: image_iff n_def)
  then have u: "c \<in> set unreserved \<longleftrightarrow> 65 \<le> n \<and> n < 91 \<or> 97 \<le> n \<and> n < 123 \<or> 48 \<le> n \<and> n < 58 \<or> n = 45 \<or> n = 46 \<or> n = 95 \<or> n = 126"
    by (simp only: unreserved_codes set_append set_upt Un_iff atLeastLessThan_iff list.set insert_iff empty_iff simp_thms)
  show ?thesis unfolding u url_safe_def Let_def b c n_def [symmetric] by linarith
qed

lemma zt_urlencode_loop_eq:
  "zt_urlencode_loop cap out p = (if length (out @ urlencode p) + 1 > cap then None else Some (out @ urlencode p))"
  by (induction p arbitrary: out) (auto simp: urlencode_def urlencode_char_def url_safe_unreserved hex_digits_def)

text \<open>It answers 1 exactly when the whole encoding and its NUL fit.\<close>

lemma zt_urlencode_eq:
  "zt_urlencode s cap = (if length (urlencode (cstr s)) + 1 \<le> cap then Some (urlencode (cstr s)) else None)"
  by (simp add: zt_urlencode_def zt_urlencode_loop_eq)

lemma hex_val_digit: "n < 16 \<Longrightarrow> hex_val (hex_digits ! n) = n"
proof -
  have "\<forall>n \<in> set [0..<16]. hex_val (hex_digits ! n) = n" by code_simp
  then show "n < 16 \<Longrightarrow> hex_val (hex_digits ! n) = n" by simp
qed

lemma of_char_div_16 [simp]: "(of_char c :: nat) div 16 < 16"
  by (rule less_mult_imp_div_less) (use nat_of_char_less_256 [of c] in linarith)

lemma urldecode_char: "urldecode (urlencode_char c @ r) = c # urldecode r"
proof (cases "c \<in> set unreserved")
  case True
  then have "c \<noteq> CHR ''%''" by (auto simp: unreserved_def)
  then show ?thesis using True by (simp add: urlencode_char_def)
next
  case False
  have "hex_val (hex_digits ! (of_char c div 16)) = of_char c div 16" "hex_val (hex_digits ! (of_char c mod 16)) = of_char c mod 16"
    by (auto intro!: hex_val_digit)
  then show ?thesis using False by (simp add: urlencode_char_def hex_digits_def)
qed

lemma urldecode_urlencode: "urldecode (urlencode s) = s"
  by (induction s) (simp_all add: urlencode_def urldecode_char)

text \<open>Nothing but unreserved characters and escapes comes out, so no value can end the request line.\<close>

lemma hex_digits_safe: "n < 16 \<Longrightarrow> ''0123456789ABCDEF'' ! n \<in> set unreserved"
proof -
  have "\<forall>n \<in> set [0..<16]. ''0123456789ABCDEF'' ! n \<in> set unreserved" by code_simp
  then show "n < 16 \<Longrightarrow> ''0123456789ABCDEF'' ! n \<in> set unreserved" by simp
qed

lemma urlencode_safe: "c \<in> set (urlencode s) \<Longrightarrow> c \<in> set unreserved \<or> c = CHR ''%''"
proof -
  have "c \<in> set unreserved \<or> c = CHR ''%''" if "c \<in> set (urlencode_char x)" for c x
  proof -
    have "of_char x div 16 < (16 :: nat)" "of_char x mod 16 < (16 :: nat)" by auto
    then show ?thesis using that hex_digits_safe by (auto simp: urlencode_char_def split: if_splits)
  qed
  then show "c \<in> set (urlencode s) \<Longrightarrow> c \<in> set unreserved \<or> c = CHR ''%''" by (auto simp: urlencode_def)
qed

end
