(* ===== verification/Zeytun_Http.thy ===== *)
theory Zeytun_Http
  imports Zg_Open Zeytun_Text
begin

text \<open>
  Reading a Zeytun page (client/zeytun.c): the dial, the request, the reader of a response that
  stops at Content-Length, and \<open>zt_get2\<close>. The kernel and the TLS library are event lists as for the
  binary client. What is read is kept as a list of characters; the C string functions see it up
  to its first NUL.
\<close>

section \<open>C string functions\<close>

primrec strstr :: "string \<Rightarrow> string \<Rightarrow> nat option" where
  "strstr p [] = (if p = [] then Some 0 else None)"
| "strstr p (c # h) = (if prefix p (c # h) then Some 0 else map_option Suc (strstr p h))"

primrec strchr :: "char \<Rightarrow> string \<Rightarrow> nat option" where
  "strchr x [] = None"
| "strchr x (c # h) = (if c = x then Some 0 else map_option Suc (strchr x h))"

definition is_space :: "char \<Rightarrow> bool" where
  "is_space c \<longleftrightarrow> (let n = of_char c :: nat in n = 32 \<or> 9 \<le> n \<and> n \<le> 13)"

definition is_digit :: "char \<Rightarrow> bool" where
  "is_digit c \<longleftrightarrow> (let n = of_char c :: nat in 48 \<le> n \<and> n \<le> 57)"

definition dec_val :: "string \<Rightarrow> nat" where
  "dec_val ds = foldl (\<lambda>a c. 10 * a + (of_char c - 48)) 0 ds"

text \<open>\<open>strtol(s, NULL, 10)\<close>: white space, a sign, digits; out of range it answers the nearest bound.\<close>

definition strtol10 :: "string \<Rightarrow> int" where
  "strtol10 s =
     (let s = dropWhile is_space s;
          (neg, s) = (case s of CHR ''-'' # r \<Rightarrow> (True, r) | CHR ''+'' # r \<Rightarrow> (False, r) | _ \<Rightarrow> (False, s));
          v = int (dec_val (takeWhile is_digit s))
      in if neg then max (- (2 ^ 63)) (- v) else min (2 ^ 63 - 1) v)"

definition crlf :: string where "crlf = [CHR 0x0D, CHR 0x0A]"
definition crlf2 :: string where "crlf2 = crlf @ crlf"

section \<open>The state\<close>

text \<open>\<open>h_fd\<close> and \<open>h_tls\<close> are the \<open>zt_conn\<close>, \<open>h_err\<close> the caller's error buffer; the rest is the
  environment. \<open>h_sent\<close> is what the peer was sent, through TLS or not; \<open>h_plain\<close> is everything that went out by \<open>send\<close>, in plain text.\<close>

record zt_sys =
  h_errno :: errno
  h_recv :: "recv_ev list"
  h_send :: "send_ev list"
  h_sslr :: "ssl_rev list"
  h_sslw :: "ssl_wev list"
  h_sent :: "byte list"
  h_plain :: "byte list"
  h_dials :: "dial_ev list"
  h_mallocs :: "bool list"
  h_closed :: "int list"
  h_fd :: int
  h_tls :: "string option"
  h_err :: string
  h_g_tls :: "coco_tls_options"
  h_g_tls_on :: bool

type_synonym 'a hact = "(zt_sys, 'a) act"

definition fail :: "nat \<Rightarrow> string \<Rightarrow> string option \<Rightarrow> 'a hact" where
  "fail cap what detail s =
     Zero (if cap > 0
           then s\<lparr>h_err := (case detail of Some d \<Rightarrow> snprintf_s cap (what @ '': '' @ cstr d) | None \<Rightarrow> snprintf_s cap what)\<rparr>
           else s)"

definition zt_malloc :: "zt_sys \<Rightarrow> bool \<times> zt_sys" where
  "zt_malloc s = (case h_mallocs s of [] \<Rightarrow> (True, s) | b # r \<Rightarrow> (b, s\<lparr>h_mallocs := r\<rparr>))"

section \<open>The dial and the transport\<close>

text \<open>The loop over the addresses leaves the descriptor of the last attempt.\<close>

primrec zt_dial_loop :: "addr_try list \<Rightarrow> zt_sys \<Rightarrow> zt_sys" where
  "zt_dial_loop [] s = s"
| "zt_dial_loop (a # ai) s =
     (if ad_fd a < 0 then zt_dial_loop ai (s\<lparr>h_fd := ad_fd a, h_errno := ad_errno a\<rparr>)
      else if ad_connects a
      then s\<lparr>h_fd := ad_fd a, h_recv := ad_recv a, h_send := ad_send a, h_sslr := ad_sslr a,
             h_sslw := ad_sslw a, h_sent := []\<rparr>
      else zt_dial_loop ai (s\<lparr>h_fd := -1, h_errno := ad_errno a, h_closed := ad_fd a # h_closed s\<rparr>))"

text \<open>It hands back the answers of the TLS library that belong to the socket it has opened.\<close>

definition zt_dial :: "nat \<Rightarrow> ossl hact" where
  "zt_dial errcap s =
     (case h_dials s of
        [] \<Rightarrow> Waits s
      | No_address m # r \<Rightarrow> fail errcap ''cannot resolve'' (Some m) (s\<lparr>h_dials := r\<rparr>)
      | Addresses as L # r \<Rightarrow>
          (let t = zt_dial_loop as (s\<lparr>h_dials := r, h_fd := -1\<rparr>)
           in if h_fd t < 0 then fail errcap ''cannot connect'' (Some (strerror (h_errno t))) t
              else One L t))"

definition zt_write :: "byte list \<Rightarrow> zt_sys \<Rightarrow> int \<times> zt_sys" where
  "zt_write bs s =
     (if h_tls s \<noteq> None
      then (case h_sslw s of
          [] \<Rightarrow> (int (length bs), s\<lparr>h_sent := h_sent s @ bs\<rparr>)
        | SslWrote k # r \<Rightarrow> (int (min (Suc k) (length bs)), s\<lparr>h_sslw := r, h_sent := h_sent s @ take (Suc k) bs\<rparr>)
        | SslWStop e q en # r \<Rightarrow> (-1, s\<lparr>h_sslw := r, h_errno := en, h_tls := Some (tls_note e q en)\<rparr>))
      else (case h_send s of
          [] \<Rightarrow> (int (length bs), s\<lparr>h_sent := h_sent s @ bs, h_plain := h_plain s @ bs\<rparr>)
        | SOk k # r \<Rightarrow> (int (min k (length bs)), s\<lparr>h_send := r, h_sent := h_sent s @ take k bs, h_plain := h_plain s @ take k bs\<rparr>)
        | SErr e # r \<Rightarrow> (-1, s\<lparr>h_send := r, h_errno := e\<rparr>)))"

definition zt_read :: "nat \<Rightarrow> zt_sys \<Rightarrow> (int \<times> byte list \<times> zt_sys) option" where
  "zt_read cap s =
     (if h_tls s \<noteq> None
      then (case h_sslr s of
          [] \<Rightarrow> None
        | SslRead b bs # r \<Rightarrow>
            Some (if length (b # bs) \<le> cap then (int (length (b # bs)), b # bs, s\<lparr>h_sslr := r\<rparr>)
                  else (int cap, take cap (b # bs),
                        s\<lparr>h_sslr := SslRead (hd (drop cap (b # bs))) (tl (drop cap (b # bs))) # r\<rparr>))
        | SslRStop e q en # r \<Rightarrow> Some (0, [], s\<lparr>h_sslr := r, h_errno := en, h_tls := Some (tls_note e q en)\<rparr>))
      else (case h_recv s of
          [] \<Rightarrow> None
        | RData bs # r \<Rightarrow>
            Some (if length bs \<le> cap then (int (length bs), bs, s\<lparr>h_recv := r\<rparr>)
                  else (int cap, take cap bs, s\<lparr>h_recv := RData (drop cap bs) # r\<rparr>))
        | RErr e # r \<Rightarrow> Some (-1, [], s\<lparr>h_recv := r, h_errno := e\<rparr>)))"

definition zt_hangup :: "zt_sys \<Rightarrow> zt_sys" where
  "zt_hangup s =
     (let t = (if h_fd s \<ge> 0 then s\<lparr>h_closed := h_fd s # h_closed s\<rparr> else s)
      in t\<lparr>h_tls := None, h_fd := -1\<rparr>)"

section \<open>The response\<close>

text \<open>Once the blank line is there: where the headers end, and what Content-Length says. Both
  searches are over everything read so far.\<close>

definition scan_headers :: "string \<Rightarrow> nat \<times> int" where
  "scan_headers buf =
     (case strstr crlf2 (cstr buf) of
        None \<Rightarrow> (0, -1)
      | Some e \<Rightarrow>
          (e + 4,
           case (case strstr (crlf @ ''Content-Length:'') (cstr buf) of
                   Some i \<Rightarrow> Some i | None \<Rightarrow> strstr (crlf @ ''content-length:'') (cstr buf)) of
             None \<Rightarrow> -1
           | Some i \<Rightarrow>
               (case strchr CHR 0x3A (drop (i + 2) (cstr buf)) of
                  None \<Rightarrow> -1 | Some j \<Rightarrow> strtol10 (drop (i + 2 + j + 1) (cstr buf)))))"

text \<open>\<open>while (len + 4096 > ncap) ncap *= 2;\<close> The capacity starts at 8192 and only doubles: the case of
  a capacity of 0 is there to make the function total.\<close>

function slurp_ncap :: "nat \<Rightarrow> nat \<Rightarrow> nat" where
  "slurp_ncap len ncap = (if ncap = 0 then len + 4096 else if len + 4096 > ncap then slurp_ncap len (ncap * 2) else ncap)"
  by pat_completeness auto
termination
  by (relation "measure (\<lambda>(len, ncap). len + 4096 - ncap)") auto

declare slurp_ncap.simps [simp del]

text \<open>Room for 4096 more bytes, or \<open>None\<close> when \<open>realloc\<close> refuses.\<close>

definition slurp_room :: "nat \<Rightarrow> nat \<Rightarrow> zt_sys \<Rightarrow> nat option \<times> zt_sys" where
  "slurp_room cap len s =
     (if len + 4096 > cap
      then (case zt_malloc s of (True, t) \<Rightarrow> (Some (slurp_ncap len (cap * 2)), t) | (False, t) \<Rightarrow> (None, t))
      else (Some cap, s))"

definition h_weight :: "zt_sys \<Rightarrow> nat" where
  "h_weight s = recv_weight (h_recv s) + sslr_weight (h_sslr s)"

lemma zt_malloc_weight [simp]: "zt_malloc s = (b, t) \<Longrightarrow> h_weight t = h_weight s"
  by (auto simp: zt_malloc_def h_weight_def split: list.splits)

lemma slurp_ncap_room: "len + 4096 \<le> slurp_ncap len ncap"
proof (induction len ncap rule: slurp_ncap.induct)
  case (1 len ncap)
  then show ?case by (subst slurp_ncap.simps) auto
qed

lemma slurp_room_Some:
  assumes "slurp_room cap len s = (Some n, t)"
  shows "len + 4096 \<le> n" and "h_weight t = h_weight s"
  using assms slurp_ncap_room [of len "cap * 2"]
  by (auto simp: slurp_room_def split: if_splits prod.splits bool.splits)

lemma zt_read_weight: "zt_read cap s = Some (k, d, u) \<Longrightarrow> 0 < cap \<Longrightarrow> h_weight u < h_weight s"
  by (auto simp: zt_read_def h_weight_def split: list.splits recv_ev.splits ssl_rev.splits if_splits)

lemma slurp_read_weight:
  "(Some n, t) = slurp_room cap len s \<Longrightarrow> zt_read (n - Suc len) t = Some (k, d, u) \<Longrightarrow> h_weight u < h_weight s"
  using zt_read_weight [of "n - len - 1" t k d u] slurp_room_Some [of cap len s n t] by simp

function slurp_loop :: "nat \<Rightarrow> nat \<Rightarrow> string \<Rightarrow> nat \<Rightarrow> int \<Rightarrow> string hact" where
  "slurp_loop errcap cap buf header_len content_length s =
     (if header_len > 0 \<and> content_length \<ge> 0 \<and> length buf \<ge> header_len + nat content_length then One buf s
      else case slurp_room cap (length buf) s of
        (None, t) \<Rightarrow> fail errcap ''out of memory'' None t
      | (Some ncap, t) \<Rightarrow>
          (case zt_read (ncap - length buf - 1) t of
             None \<Rightarrow> Waits t
           | Some (k, d, u) \<Rightarrow>
               if k = 0 then One buf u
               else if k < 0
               then if h_errno u = E_INTR then slurp_loop errcap ncap buf header_len content_length u
                    else fail errcap ''read failed'' (Some (strerror (h_errno u))) u
               else let nbuf = buf @ string_of d;
                        (hl, cl) = (if header_len = 0 then scan_headers nbuf else (header_len, content_length))
                    in slurp_loop errcap ncap nbuf hl cl u))"
  by pat_completeness auto
termination
  by (relation "measure (\<lambda>(errcap, cap, buf, hl, cl, s). h_weight s)") (auto intro: slurp_read_weight)

declare slurp_loop.simps [simp del]

definition slurp :: "nat \<Rightarrow> string hact" where
  "slurp errcap s =
     (case zt_malloc s of (False, t) \<Rightarrow> fail errcap ''out of memory'' None t
      | (True, t) \<Rightarrow> slurp_loop errcap 8192 [] 0 (-1) t)"

section \<open>One GET\<close>

definition default_port :: "string \<Rightarrow> bool" where
  "default_port service \<longleftrightarrow> service \<in> set [''80'', ''443'', ''http'', ''https'']"

definition zt_request :: "string \<Rightarrow> string \<Rightarrow> string \<Rightarrow> string" where
  "zt_request path host service =
     ''GET '' @ path @ '' HTTP/1.1'' @ crlf @ ''Host: '' @ host @ (if default_port service then '''' else '':'' @ service) @ crlf @
     ''User-Agent: cocolog/1'' @ crlf @ ''Accept: text/plain'' @ crlf @ ''Connection: close'' @ crlf2"

definition zt_open_tls :: "tls_build \<Rightarrow> ossl \<Rightarrow> string \<Rightarrow> coco_tls_options option \<Rightarrow> nat \<Rightarrow> unit hact" where
  "zt_open_tls B L host tls errcap s =
     (case tls of
        None \<Rightarrow> One () s
      | Some opts \<Rightarrow>
          (let closed = s\<lparr>h_closed := h_fd s # h_closed s\<rparr>
           in case B of
             Tls_absent \<Rightarrow> fail errcap ''this build has no TLS'' None closed
           | Tls_stub \<Rightarrow> Zero (closed\<lparr>h_err := snprintf_s errcap
               ''this cocolog was built without TLS -- rebuild where OpenSSL headers are present''\<rparr>)
           | Tls_openssl \<Rightarrow>
               (case coco_client_tls_open L (h_fd s) host opts errcap of
                  Refused e _ \<Rightarrow> Zero (closed\<lparr>h_err := e\<rparr>)
                | Opened _ _ \<Rightarrow> One () (s\<lparr>h_tls := Some ''''\<rparr>))))"

function zt_send_loop :: "nat \<Rightarrow> byte list \<Rightarrow> unit hact" where
  "zt_send_loop errcap bs s =
     (if bs = [] then One () s
      else let (k, t) = zt_write bs s
           in if k \<le> 0
              then if k < 0 \<and> h_errno t = E_INTR then zt_send_loop errcap bs t
                   else fail errcap ''write failed'' (Some (strerror (h_errno t))) (zt_hangup t)
              else zt_send_loop errcap (drop (nat k) bs) t)"
  by pat_completeness auto
termination
  by (relation "measures [\<lambda>(c, bs, s). length (h_send s) + length (h_sslw s), \<lambda>(c, bs, s). length bs]")
    (auto simp: zt_write_def split: if_splits list.splits send_ev.splits ssl_wev.splits)

declare zt_send_loop.simps [simp del]

definition zt_parse :: "nat \<Rightarrow> string \<Rightarrow> string hact" where
  "zt_parse errcap raw s =
     (case strstr crlf (cstr raw) of
        None \<Rightarrow> fail errcap ''no status line'' None s
      | Some k \<Rightarrow>
          if \<not> prefix ''HTTP/1.'' raw \<or> strstr '' 200 '' (cstr raw) \<noteq> Some 8
          then fail errcap ''the server answered'' (Some (take (min k 255) raw)) s
          else case strstr crlf2 (cstr raw) of
            None \<Rightarrow> fail errcap ''no end of headers'' None s
          | Some e \<Rightarrow>
              (case zt_malloc s of (False, t) \<Rightarrow> fail errcap ''out of memory'' None t
               | (True, t) \<Rightarrow> One (drop (e + 4) raw) t))"

definition zt_get2 :: "tls_build \<Rightarrow> string \<Rightarrow> string \<Rightarrow> string \<Rightarrow> coco_tls_options option \<Rightarrow> nat \<Rightarrow> string hact" where
  "zt_get2 B host service path tls errcap s0 =
     (let s = s0\<lparr>h_err := (if errcap > 0 then '''' else h_err s0), h_fd := -1, h_tls := None\<rparr>;
          request = zt_request path host service
      in if length request \<ge> 2048 then fail errcap ''the request line is too long'' (Some path) s
         else andthen (zt_dial errcap) (\<lambda>L. andthen (zt_open_tls B L host tls errcap) (\<lambda>_.
           andthen (zt_send_loop errcap (bytes_of request)) (\<lambda>_ t.
             case slurp errcap t of
               Waits u \<Rightarrow> Waits u
             | Zero u \<Rightarrow> Zero (zt_hangup u)
             | One raw u \<Rightarrow> zt_parse errcap raw (zt_hangup u)))) s)"

definition coco_client_tls_configure :: "coco_tls_options option \<Rightarrow> zt_sys \<Rightarrow> zt_sys" where
  "coco_client_tls_configure opt s =
     (case opt of None \<Rightarrow> s\<lparr>h_g_tls_on := False\<rparr> | Some g \<Rightarrow> s\<lparr>h_g_tls := g, h_g_tls_on := True\<rparr>)"

definition coco_client_tls_configure_flat ::
    "string option \<Rightarrow> string option \<Rightarrow> string option \<Rightarrow> string option \<Rightarrow> string option \<Rightarrow> bool \<Rightarrow>
     zt_sys \<Rightarrow> zt_sys" where
  "coco_client_tls_configure_flat cacert capath cert key key_pass insecure s =
     coco_client_tls_configure (Some \<lparr>o_cacert = cacert, o_capath = capath, o_cert = cert, o_key = key,
       o_key_pass = key_pass, o_insecure = insecure\<rparr>) s"

definition zt_get :: "tls_build \<Rightarrow> string \<Rightarrow> string \<Rightarrow> string \<Rightarrow> nat \<Rightarrow> string hact" where
  "zt_get B host service path errcap s =
     zt_get2 B host service path (if h_g_tls_on s then Some (h_g_tls s) else None) errcap s"

section \<open>Searching\<close>

lemma strstr_bound: "strstr p h = Some i \<Longrightarrow> i + length p \<le> length h"
  by (induction h arbitrary: i) (auto split: if_splits dest: prefix_length_le)

lemma strstr_prefix: "strstr p h = Some i \<Longrightarrow> prefix p (drop i h)"
  by (induction h arbitrary: i) (auto split: if_splits)

lemma prefix_append_short: "length p \<le> length h \<Longrightarrow> prefix p (h @ x) \<longleftrightarrow> prefix p h"
  by (auto simp: prefix_append)

text \<open>An occurrence stays the first one when more is appended.\<close>

lemma strstr_append: "strstr p h = Some i \<Longrightarrow> strstr p (h @ x) = Some i"
proof (induction h arbitrary: i)
  case Nil
  then show ?case by (cases x) (auto split: if_splits)
next
  case (Cons c h)
  show ?case
  proof (cases "prefix p (c # h)")
    case True
    then have "prefix p (c # h @ x)" by (metis append_Cons prefix_append_short prefix_length_le)
    then show ?thesis using True Cons.prems by simp
  next
    case False
    then obtain j where j: "strstr p h = Some j" "i = Suc j" using Cons.prems by auto
    have "length p \<le> length (c # h)" using strstr_bound [OF j(1)] by simp
    then have "\<not> prefix p (c # h @ x)" using False prefix_append_short [of p "c # h" x] by simp
    then show ?thesis using Cons.IH [OF j(1)] j False by simp
  qed
qed

text \<open>The blank line that ends \<open>H\<close> is not seen in anything shorter.\<close>

lemma strstr_shorter:
  assumes "strstr p (b @ x) = Some i" and "length b < i + length p"
  shows "strstr p b = None"
proof (rule ccontr)
  assume "strstr p b \<noteq> None"
  then obtain j where j: "strstr p b = Some j" by blast
  then have "j = i" using strstr_append [OF j, of x] assms(1) by simp
  then show False using strstr_bound [OF j] assms(2) by simp
qed

section \<open>A response is read to its Content-Length and no further\<close>

text \<open>A head: no NUL, one blank line at its end, and the first Content-Length field says \<open>n\<close>.\<close>

definition http_head :: "string \<Rightarrow> nat \<Rightarrow> bool" where
  "http_head H n \<longleftrightarrow> CHR 0x00 \<notin> set H \<and> strstr crlf2 H = Some (length H - 4) \<and>
     (case strstr (crlf @ ''Content-Length:'') H of
        None \<Rightarrow> False
      | Some i \<Rightarrow>
          (let v = dropWhile (\<lambda>c. c = CHR '' '') (drop (i + 17) H); ds = takeWhile is_digit v
           in ds \<noteq> [] \<and> length ds < length v \<and> dec_val ds = n \<and> n < 2 ^ 63))"

lemma space_is_space: "c = CHR '' '' \<Longrightarrow> is_space c"
  by (simp add: is_space_def)

lemma digit_not_space: "is_digit c \<Longrightarrow> \<not> is_space c \<and> c \<noteq> CHR ''-'' \<and> c \<noteq> CHR ''+''"
  by (auto simp: is_digit_def is_space_def Let_def)

lemma length_crlf [simp]: "length crlf = 2" "length crlf2 = 4"
  by (simp_all add: crlf_def crlf2_def)

lemma dropWhile_more: "(\<And>c. P c \<Longrightarrow> Q c) \<Longrightarrow> dropWhile Q s = dropWhile Q (dropWhile P s)"
  by (induction s) auto

lemma strtol10_digits:
  assumes "v = dropWhile (\<lambda>c. c = CHR '' '') s" and "takeWhile is_digit v \<noteq> []"
    and "dec_val (takeWhile is_digit v) < 2 ^ 63"
  shows "strtol10 s = int (dec_val (takeWhile is_digit v))"
proof -
  obtain d r where v: "v = d # r" "is_digit d" using assms(2) by (cases v) (auto split: if_splits)
  have "dropWhile is_space s = dropWhile is_space v" unfolding assms(1) by (rule dropWhile_more) (rule space_is_space)
  then have s: "dropWhile is_space s = v" using v digit_not_space by simp
  have "(case v of CHR ''-'' # r \<Rightarrow> (True, r) | CHR ''+'' # r \<Rightarrow> (False, r) | _ \<Rightarrow> (False, v)) = (False, v)"
    using v digit_not_space [OF v(2)] by (auto split: char.splits bool.splits)
  moreover have "int (dec_val (takeWhile is_digit v)) < 2 ^ 63" using assms(3) by (simp add: of_nat_less_numeral_power_cancel_iff)
  ultimately show ?thesis by (simp add: strtol10_def s)
qed

lemma strchr_colon: "prefix ''Content-Length:'' s \<Longrightarrow> strchr CHR 0x3A s = Some 14"
  by (auto simp: prefix_def)

lemma takeWhile_append_stop: "length (takeWhile P v) < length v \<Longrightarrow> takeWhile P (v @ x) = takeWhile P v"
  by (induction v) auto

lemma dropWhile_append_stop: "dropWhile P v \<noteq> [] \<Longrightarrow> dropWhile P (v @ x) = dropWhile P v @ x"
  by (induction v) auto

lemma scan_headers_full:
  assumes "http_head H n"
  shows "scan_headers (H @ b) = (length H, int n)"
proof -
  obtain i where i: "strstr (crlf @ ''Content-Length:'') H = Some i" and nul: "CHR 0x00 \<notin> set H"
    and e: "strstr crlf2 H = Some (length H - 4)"
    using assms by (auto simp: http_head_def split: option.splits)
  define v where "v = dropWhile (\<lambda>c. c = CHR '' '') (drop (i + 17) H)"
  have ds: "takeWhile is_digit v \<noteq> []" "length (takeWhile is_digit v) < length v"
    "dec_val (takeWhile is_digit v) = n" "n < 2 ^ 63"
    using assms i by (auto simp: http_head_def v_def Let_def)
  have c: "cstr (H @ b) = H @ cstr b" using nul by (rule cstr_append_no_NUL)
  have len: "4 \<le> length H" using strstr_bound [OF e] by simp
  have bound: "i + 17 \<le> length H" using strstr_bound [OF i] by simp
  have "prefix (crlf @ ''Content-Length:'') (drop i H)" using i by (rule strstr_prefix)
  then obtain z where "drop i H = crlf @ ''Content-Length:'' @ z" by (auto simp: prefix_def)
  then have "drop i (H @ cstr b) = crlf @ ''Content-Length:'' @ z @ cstr b" using bound by simp
  then have "drop 2 (drop i (H @ cstr b)) = ''Content-Length:'' @ z @ cstr b" by (simp add: crlf_def)
  then have "prefix ''Content-Length:'' (drop (i + 2) (H @ cstr b))"
    unfolding drop_drop by (metis add.commute prefixI)
  then have colon: "strchr CHR 0x3A (drop (i + 2) (H @ cstr b)) = Some 14" by (rule strchr_colon)
  have "v \<noteq> []" using ds(1) by auto
  then have "dropWhile (\<lambda>c. c = CHR '' '') (drop (i + 17) H @ cstr b) = v @ cstr b"
    unfolding v_def by (rule dropWhile_append_stop)
  moreover have "takeWhile is_digit (v @ cstr b) = takeWhile is_digit v" using ds(2) by (rule takeWhile_append_stop)
  ultimately have "strtol10 (drop (i + 17) H @ cstr b) = int n"
    using strtol10_digits [of "v @ cstr b" "drop (i + 17) H @ cstr b"] ds by simp
  then show ?thesis
    using strstr_append [OF e, of "cstr b"] strstr_append [OF i, of "cstr b"] colon bound len
    by (simp add: scan_headers_def c add.commute [of i])
qed

lemma scan_headers_short:
  assumes "http_head H n" and "H = b @ x" and "x \<noteq> []"
  shows "scan_headers b = (0, -1)"
proof -
  have "strstr crlf2 (b @ x) = Some (length H - 4)" using assms(1,2) by (auto simp: http_head_def)
  moreover have "4 \<le> length H" using strstr_bound [of crlf2 H] assms(1) by (auto simp: http_head_def)
  moreover have "length b < length H" using assms(2,3) by simp
  ultimately have "strstr crlf2 b = None" using strstr_shorter [of crlf2 b x "length H - 4"] by simp
  moreover have "cstr b = b" using assms(1,2) by (intro cstr_ident) (auto simp: http_head_def)
  ultimately show ?thesis by (simp add: scan_headers_def)
qed

lemma scan_headers_cases:
  assumes "http_head H (length B)" and "prefix b (H @ B)"
  shows "scan_headers b = (if length H \<le> length b then (length H, int (length B)) else (0, -1))"
proof (cases "length H \<le> length b")
  case True
  then have "prefix H b" using assms(2) by (meson prefixI prefix_length_prefix)
  then obtain c where "b = H @ c" by (auto simp: prefix_def)
  then show ?thesis using scan_headers_full [OF assms(1)] True by simp
next
  case False
  then have "prefix b H" using assms(2) prefix_append_short [of b H B] by simp
  then obtain x where "H = b @ x" by (auto simp: prefix_def)
  then show ?thesis using scan_headers_short [OF assms(1)] False by auto
qed

text \<open>A server that keeps the connection alive: its data, interrupted calls among it, and then
  nothing more.\<close>

fun recv_fine :: "recv_ev \<Rightarrow> bool" where
  "recv_fine (RData bs) = (bs \<noteq> [])"
| "recv_fine (RErr e) = (e = E_INTR)"

fun sslr_fine :: "ssl_rev \<Rightarrow> bool" where
  "sslr_fine (SslRead b bs) = True"
| "sslr_fine (SslRStop e q en) = False"

definition h_stream :: "zt_sys \<Rightarrow> byte list" where
  "h_stream s = (if h_tls s \<noteq> None then sslr_stream (h_sslr s) else recv_stream (h_recv s))"

definition h_fine :: "zt_sys \<Rightarrow> bool" where
  "h_fine s \<longleftrightarrow> (if h_tls s \<noteq> None then list_all sslr_fine (h_sslr s) else list_all recv_fine (h_recv s))"

lemma zt_read_fine:
  assumes "h_fine s" and "h_stream s \<noteq> []" and "0 < cap"
  shows "\<exists>k d u. zt_read cap s = Some (k, d, u) \<and> h_fine u \<and>
    h_mallocs u = h_mallocs s \<and> h_sent u = h_sent s \<and> h_fd u = h_fd s \<and> h_closed u = h_closed s \<and>
    (k < 0 \<and> h_errno u = E_INTR \<and> h_stream u = h_stream s \<or> 0 < k \<and> h_stream s = d @ h_stream u)"
proof (cases "h_tls s")
  case None
  show ?thesis
  proof (cases "h_recv s")
    case Nil
    then show ?thesis using assms(2) None by (simp add: h_stream_def)
  next
    case (Cons ev r)
    show ?thesis
    proof (cases ev)
      case (RData bs)
      then show ?thesis using Cons assms None by (auto simp: zt_read_def h_stream_def h_fine_def)
    next
      case (RErr e)
      then show ?thesis using Cons assms None by (auto simp: zt_read_def h_stream_def h_fine_def)
    qed
  qed
next
  case (Some why)
  show ?thesis
  proof (cases "h_sslr s")
    case Nil
    then show ?thesis using assms(2) Some by (simp add: h_stream_def)
  next
    case (Cons ev r)
    then obtain b bs where ev: "ev = SslRead b bs" using assms(1) Some by (cases ev) (auto simp: h_fine_def)
    show ?thesis
    proof (cases "length (b # bs) \<le> cap")
      case True
      then show ?thesis using Cons ev assms Some by (auto simp: zt_read_def h_stream_def h_fine_def)
    next
      case False
      let ?d = "drop cap (b # bs)"
      have "?d \<noteq> []" using False by simp
      then have d: "hd ?d # tl ?d = ?d" by simp
      have "zt_read cap s = Some (int cap, take cap (b # bs), s\<lparr>h_sslr := SslRead (hd ?d) (tl ?d) # r\<rparr>)"
        using Cons ev Some False by (simp add: zt_read_def)
      moreover have "h_stream s = take cap (b # bs) @ h_stream (s\<lparr>h_sslr := SslRead (hd ?d) (tl ?d) # r\<rparr>)"
        using Cons ev Some d by (simp add: h_stream_def)
      ultimately show ?thesis using Cons ev Some assms by (simp add: h_fine_def)
    qed
  qed
qed

lemma slurp_room_fine: "h_mallocs s = [] \<Longrightarrow> \<exists>n. slurp_room cap len s = (Some n, s) \<and> len + 4096 \<le> n"
  using slurp_ncap_room [of len "cap * 2"] by (auto simp: slurp_room_def zt_malloc_def)

lemma slurp_loop_ok:
  assumes "http_head H (length B)" and "h_mallocs s = []" and "h_fine s" and "buf @ string_of (h_stream s) = H @ B"
    and "(hl, cl) = scan_headers buf"
  shows "\<exists>t. slurp_loop errcap cap buf hl cl s = One (H @ B) t \<and> h_fd t = h_fd s \<and> h_closed t = h_closed s \<and>
    h_sent t = h_sent s \<and> h_mallocs t = []"
  using assms(2-)
proof (induction "h_weight s" arbitrary: cap buf hl cl s rule: less_induct)
  case less
  have pre: "prefix buf (H @ B)" using less.prems(3) by (metis prefixI)
  have sc: "(hl, cl) = (if length H \<le> length buf then (length H, int (length B)) else (0, -1))"
    using scan_headers_cases [OF assms(1) pre] less.prems(4) by simp
  have pos: "0 < length H" using assms(1) strstr_bound [of crlf2 H] by (auto simp: http_head_def)
  show ?case
  proof (cases "length (H @ B) \<le> length buf")
    case True
    moreover have "length buf + length (string_of (h_stream s)) = length (H @ B)"
      using less.prems(3) by (metis length_append)
    ultimately have "length (string_of (h_stream s)) = 0" by linarith
    then have "buf = H @ B" using less.prems(3) by (simp del: length_string_of)
    then show ?thesis using sc pos less.prems(1)
      by (simp add: slurp_loop.simps [of errcap cap "H @ B" "length H" "int (length B)" s])
  next
    case False
    then have go: "\<not> (hl > 0 \<and> cl \<ge> 0 \<and> length buf \<ge> hl + nat cl)" using sc by (auto split: if_splits)
    obtain n where n: "slurp_room cap (length buf) s = (Some n, s)" "length buf + 4096 \<le> n"
      using slurp_room_fine [OF less.prems(1)] by blast
    have "h_stream s \<noteq> []" using less.prems(3) False by (auto simp: string_of_def)
    then obtain k d u where u: "zt_read (n - length buf - 1) s = Some (k, d, u)" "h_fine u" "h_mallocs u = h_mallocs s" "h_sent u = h_sent s" "h_fd u = h_fd s"
        "h_closed u = h_closed s"
        "k < 0 \<and> h_errno u = E_INTR \<and> h_stream u = h_stream s \<or>
         0 < k \<and> h_stream s = d @ h_stream u"
      using zt_read_fine [OF less.prems(2), of "n - length buf - 1"] n(2) by auto
    have w: "h_weight u < h_weight s" using zt_read_weight [OF u(1)] n(2) by simp
    from u(7) show ?thesis
    proof
      assume k: "k < 0 \<and> h_errno u = E_INTR \<and> h_stream u = h_stream s"
      then have "slurp_loop errcap cap buf hl cl s = slurp_loop errcap n buf hl cl u"
        using go n(1) u(1) by (auto simp: slurp_loop.simps [of errcap cap buf hl cl s])
      then show ?thesis using less.hyps [OF w, of buf hl cl n] less.prems u k by simp
    next
      assume k: "0 < k \<and> h_stream s = d @ h_stream u"
      let ?b = "buf @ string_of d"
      have st: "?b @ string_of (h_stream u) = H @ B"
        using less.prems(3) k by (simp add: string_of_def)
      obtain hl' cl' where hc: "(hl', cl') = (if hl = 0 then scan_headers ?b else (hl, cl))" by (metis surj_pair)
      have "prefix ?b (H @ B)" using st by (metis prefixI)
      then have sc': "(hl', cl') = scan_headers ?b"
        using hc sc scan_headers_cases [OF assms(1)] pos by (auto split: if_splits)
      have "slurp_loop errcap cap buf hl cl s = slurp_loop errcap n ?b hl' cl' u"
        using go n(1) u(1) k hc by (auto simp: slurp_loop.simps [of errcap cap buf hl cl s] Let_def split: prod.splits if_splits)
      then show ?thesis using less.hyps [OF w _ _ st sc', of n] less.prems u by simp
    qed
  qed
qed

lemma slurp_ok:
  assumes "http_head H (length B)" and "h_mallocs s = []" and "h_fine s" and "string_of (h_stream s) = H @ B"
  shows "\<exists>t. slurp errcap s = One (H @ B) t \<and> h_fd t = h_fd s \<and> h_closed t = h_closed s \<and> h_sent t = h_sent s \<and>
    h_mallocs t = []"
proof -
  have "(0, -1) = scan_headers []" by (simp add: scan_headers_def cstr_def crlf2_def crlf_def)
  then show ?thesis
    using slurp_loop_ok [OF assms(1-3), of "[]" 0 "-1" errcap 8192] assms(2,4) by (simp add: slurp_def zt_malloc_def)
qed

section \<open>A page is fetched\<close>

definition h_sends :: "zt_sys \<Rightarrow> bool" where
  "h_sends s \<longleftrightarrow> (if h_tls s \<noteq> None then list_all sslw_fine (h_sslw s) else list_all send_fine (h_send s))"

lemma zt_write_fine:
  assumes "h_sends s" and "bs \<noteq> []" and "zt_write bs s = (k, t)"
  shows "h_sends t" and "h_fine t = h_fine s" and "h_stream t = h_stream s" and "h_mallocs t = h_mallocs s"
    and "h_fd t = h_fd s" and "h_closed t = h_closed s"
    and "k < 0 \<and> h_errno t = E_INTR \<and> h_sent t = h_sent s \<or>
         0 < k \<and> nat k \<le> length bs \<and> h_sent t = h_sent s @ take (nat k) bs"
  using assms
  by (auto simp: zt_write_def h_sends_def h_fine_def h_stream_def min_def
      split: list.splits send_ev.splits ssl_wev.splits if_splits)

lemma zt_send_loop_ok:
  assumes "h_sends s"
  shows "\<exists>t. zt_send_loop errcap bs s = One () t \<and> h_fine t = h_fine s \<and> h_stream t = h_stream s \<and>
    h_sent t = h_sent s @ bs \<and> h_mallocs t = h_mallocs s \<and> h_fd t = h_fd s \<and> h_closed t = h_closed s"
  using assms
proof (induction errcap bs s rule: zt_send_loop.induct)
  case (1 errcap bs s)
  show ?case
  proof (cases "bs = []")
    case True
    then show ?thesis using "1.prems" by (simp add: zt_send_loop.simps [of errcap "[]" s])
  next
    case False
    obtain k t where kt: "zt_write bs s = (k, t)" by fastforce
    note ok = zt_write_fine [OF "1.prems" False kt]
    from ok(7) show ?thesis
    proof
      assume k: "k < 0 \<and> h_errno t = E_INTR \<and> h_sent t = h_sent s"
      then have "zt_send_loop errcap bs s = zt_send_loop errcap bs t"
        using False kt by (simp add: zt_send_loop.simps [of errcap bs s])
      then show ?thesis using "1.IH"(1) [OF False kt [symmetric] refl] k ok by simp
    next
      assume k: "0 < k \<and> nat k \<le> length bs \<and> h_sent t = h_sent s @ take (nat k) bs"
      then have "zt_send_loop errcap bs s = zt_send_loop errcap (drop (nat k) bs) t"
        using False kt by (simp add: zt_send_loop.simps [of errcap bs s])
      then show ?thesis using "1.IH"(2) [OF False kt [symmetric] refl] k ok by simp
    qed
  qed
qed

lemma zt_dial_loop_up:
  "first_up as = Some a \<Longrightarrow>
     h_fd (zt_dial_loop as s) = ad_fd a \<and> ad_fd a \<ge> 0 \<and> h_recv (zt_dial_loop as s) = ad_recv a \<and>
     h_send (zt_dial_loop as s) = ad_send a \<and> h_sslr (zt_dial_loop as s) = ad_sslr a \<and>
     h_sslw (zt_dial_loop as s) = ad_sslw a \<and> h_sent (zt_dial_loop as s) = [] \<and>
     h_tls (zt_dial_loop as s) = h_tls s \<and> h_mallocs (zt_dial_loop as s) = h_mallocs s"
  by (induction as arbitrary: s) (auto split: if_splits)

text \<open>A peer that answers with \<open>bs\<close>, over the transport that was asked for.\<close>

definition page_from :: "tls_build \<Rightarrow> string \<Rightarrow> ossl \<Rightarrow> coco_tls_options option \<Rightarrow> nat \<Rightarrow> addr_try \<Rightarrow> byte list \<Rightarrow> bool" where
  "page_from Bd host L tls errcap a bs \<longleftrightarrow>
     (case tls of
        None \<Rightarrow> list_all send_fine (ad_send a) \<and> list_all recv_fine (ad_recv a) \<and> recv_stream (ad_recv a) = bs
      | Some opts \<Rightarrow> Bd = Tls_openssl \<and>
          (case coco_client_tls_open L (ad_fd a) host opts errcap of Opened _ _ \<Rightarrow> True | _ \<Rightarrow> False) \<and>
          list_all sslw_fine (ad_sslw a) \<and> list_all sslr_fine (ad_sslr a) \<and> sslr_stream (ad_sslr a) = bs)"

lemma http_head_parse:
  assumes "http_head H n" and "prefix ''HTTP/1.'' H" and "strstr '' 200 '' H = Some 8" and "h_mallocs s = []"
  shows "zt_parse errcap (H @ B) s = One B s"
proof -
  have e: "strstr crlf2 H = Some (length H - 4)" and nul: "CHR 0x00 \<notin> set H"
    using assms(1) by (simp_all add: http_head_def)
  have c: "cstr (H @ B) = H @ cstr B" using nul by (rule cstr_append_no_NUL)
  have "prefix crlf2 (drop (length H - 4) H)" using e by (rule strstr_prefix)
  have "strstr crlf H \<noteq> None"
  proof -
    have "strstr p (a @ p @ b) \<noteq> None" for p a b :: string
    proof (induction a)
      case Nil
      have "prefix p (p @ b)" by simp
      then show ?case by (cases "p @ b") auto
    next
      case (Cons x a)
      then show ?case by auto
    qed
    moreover obtain a b where "H = a @ crlf @ b"
      using \<open>prefix crlf2 _\<close> by (metis append_assoc append_take_drop_id crlf2_def prefixE)
    ultimately show ?thesis by metis
  qed
  then obtain k where k: "strstr crlf H = Some k" by blast
  have len: "4 \<le> length H" using strstr_bound [OF e] by simp
  show ?thesis
    using strstr_append [OF k, of "cstr B"] strstr_append [OF e, of "cstr B"] strstr_append [OF assms(3), of "cstr B"] assms(2,4) len
    by (simp add: zt_parse_def c zt_malloc_def prefix_append)
qed

lemma zt_get2_ok:
  assumes "length (zt_request path host service) < 2048" and "h_mallocs s = []"
    and "h_dials s = Addresses as L # r" and up: "first_up as = Some a"
    and "page_from Bd host L tls errcap a (bytes_of (H @ B))"
    and "http_head H (length B)" and "prefix ''HTTP/1.'' H" and "strstr '' 200 '' H = Some 8"
  shows "\<exists>t. zt_get2 Bd host service path tls errcap s = One B t \<and>
    h_sent t = bytes_of (zt_request path host service) \<and> h_fd t = -1 \<and> ad_fd a \<in> set (h_closed t)"
proof -
  let ?s = "s\<lparr>h_err := (if errcap > 0 then '''' else h_err s), h_fd := -1, h_tls := None\<rparr>"
  let ?req = "bytes_of (zt_request path host service)"
  define y where "y = zt_dial_loop as (?s\<lparr>h_dials := r, h_fd := -1\<rparr>)"
  have t: "h_fd y = ad_fd a" "ad_fd a \<ge> 0" "h_recv y = ad_recv a" "h_send y = ad_send a" "h_sslr y = ad_sslr a"
    "h_sslw y = ad_sslw a" "h_sent y = []" "h_tls y = None" "h_mallocs y = h_mallocs s"
    using zt_dial_loop_up [OF up, of "?s\<lparr>h_dials := r, h_fd := -1\<rparr>"] by (simp_all add: y_def)
  have d: "zt_dial errcap ?s = One L y" using assms(3) t(1,2) by (simp add: zt_dial_def Let_def y_def)
  define x where "x = (if tls = None then y else y\<lparr>h_tls := Some ''''\<rparr>)"
  have x: "zt_open_tls Bd L host tls errcap y = One () x"
    using assms(5) t by (auto simp: zt_open_tls_def x_def page_from_def Let_def split: option.splits tls_opened.splits)
  have xs: "h_sends x" "h_fine x" "string_of (h_stream x) = H @ B" "h_sent x = []" "h_mallocs x = []" "h_fd x = ad_fd a"
    using assms(2,5) t by (auto simp: x_def page_from_def h_sends_def h_fine_def h_stream_def
        simp del: bytes_of_append split: option.splits)
  obtain u where u: "zt_send_loop errcap ?req x = One () u" "h_fine u" "h_stream u = h_stream x" "h_sent u = ?req"
      "h_mallocs u = []" "h_fd u = ad_fd a"
    using zt_send_loop_ok [OF xs(1), of errcap ?req] xs by auto
  obtain v where v: "slurp errcap u = One (H @ B) v" "h_fd v = ad_fd a" "h_sent v = ?req" "h_mallocs v = []"
    using slurp_ok [OF assms(6), of u errcap] u xs by auto
  have "h_mallocs (zt_hangup v) = []" using v(4) by (simp add: zt_hangup_def Let_def)
  then have p: "zt_parse errcap (H @ B) (zt_hangup v) = One B (zt_hangup v)"
    using http_head_parse [OF assms(6-8)] by blast
  have "zt_get2 Bd host service path tls errcap s = One B (zt_hangup v)"
    using assms(1) d x u(1) v(1) p by (simp add: zt_get2_def Let_def andthen_def)
  then show ?thesis using v t by (auto simp: zt_hangup_def Let_def)
qed

text \<open>With TLS asked for, nothing is sent before a handshake that succeeded, and nothing in plain text behind it.\<close>

lemma zt_dial_loop_first: "h_fd (zt_dial_loop as s) \<ge> 0 \<Longrightarrow> h_fd s < 0 \<Longrightarrow> \<exists>a. first_up as = Some a"
proof (induction as arbitrary: s)
  case (Cons a as)
  then show ?case
    using Cons.IH [of "s\<lparr>h_fd := ad_fd a, h_errno := ad_errno a\<rparr>"]
      Cons.IH [of "s\<lparr>h_fd := -1, h_errno := ad_errno a, h_closed := ad_fd a # h_closed s\<rparr>"] by (auto split: if_splits)
qed simp

lemma zt_dial_loop_plain: "h_plain (zt_dial_loop as s) = h_plain s"
  by (induction as arbitrary: s) simp_all

lemma zt_dial_One:
  assumes "zt_dial errcap s = One L u"
  obtains as r a where "h_dials s = Addresses as L # r" "first_up as = Some a" "h_fd u = ad_fd a" "h_recv u = ad_recv a" "h_plain u = h_plain s"
proof -
  obtain as r where d: "h_dials s = Addresses as L # r"
    and u: "u = zt_dial_loop as (s\<lparr>h_dials := r, h_fd := -1\<rparr>)" "\<not> h_fd u < 0"
    using assms by (auto simp: zt_dial_def fail_def Let_def split: list.splits dial_ev.splits if_splits)
  then obtain a where a: "first_up as = Some a" using zt_dial_loop_first [of as "s\<lparr>h_dials := r, h_fd := -1\<rparr>"] by auto
  show ?thesis by (rule that [OF d a]) (use zt_dial_loop_up [OF a] zt_dial_loop_plain u(1) in simp_all)
qed

lemma zt_dial_plain: "h_plain (final (zt_dial errcap s)) = h_plain s"
  by (auto simp: zt_dial_def fail_def Let_def zt_dial_loop_plain split: list.split dial_ev.split option.split)

text \<open>Behind a handshake: what the call has sent and read in plain text is what it was.\<close>

definition veiled :: "byte list \<Rightarrow> recv_ev list \<Rightarrow> zt_sys \<Rightarrow> bool" where
  "veiled bs evs s \<longleftrightarrow> h_tls s \<noteq> None \<and> h_plain s = bs \<and> h_recv s = evs"

lemma zt_write_veiled: "veiled bs evs s \<Longrightarrow> zt_write xs s = (k, t) \<Longrightarrow> veiled bs evs t"
  by (auto simp: zt_write_def veiled_def split: list.splits ssl_wev.splits)

lemma zt_read_veiled: "veiled bs evs s \<Longrightarrow> zt_read cap s = Some (k, d, t) \<Longrightarrow> veiled bs evs t"
  by (auto simp: zt_read_def veiled_def split: list.splits ssl_rev.splits if_splits)

definition open_text :: "byte list \<Rightarrow> recv_ev list \<Rightarrow> zt_sys \<Rightarrow> bool" where
  "open_text bs evs s \<longleftrightarrow> h_plain s = bs \<and> h_recv s = evs"

lemma veiled_open: "veiled bs evs s \<Longrightarrow> open_text bs evs s"
  by (simp add: veiled_def open_text_def)

lemma open_text_fail: "open_text bs evs (final (fail cap w d s)) = open_text bs evs s"
  by (simp add: fail_def open_text_def)

lemma open_text_hangup [simp]: "open_text bs evs (zt_hangup s) = open_text bs evs s"
  by (simp add: zt_hangup_def open_text_def Let_def)

lemma zt_send_loop_veiled:
  "veiled bs evs s \<Longrightarrow> open_text bs evs (final (zt_send_loop errcap xs s)) \<and> (\<forall>t. zt_send_loop errcap xs s = One () t \<longrightarrow> veiled bs evs t)"
proof (induction errcap xs s rule: zt_send_loop.induct)
  case (1 errcap xs s)
  obtain k t where kt: "zt_write xs s = (k, t)" by fastforce
  have t: "veiled bs evs t" by (rule zt_write_veiled [OF 1(3) kt])
  show ?case
  proof (cases "xs = []")
    case True
    then show ?thesis using 1(3) veiled_open [OF 1(3)] by (simp add: zt_send_loop.simps [of errcap "[]" s])
  next
    case False
    have "zt_send_loop errcap xs s =
        (if k \<le> 0 then if k < 0 \<and> h_errno t = E_INTR then zt_send_loop errcap xs t
           else fail errcap ''write failed'' (Some (strerror (h_errno t))) (zt_hangup t)
         else zt_send_loop errcap (drop (nat k) xs) t)"
      using False kt by (simp add: zt_send_loop.simps [of errcap xs s])
    then show ?thesis using 1(1) [OF False kt [symmetric] refl] 1(2) [OF False kt [symmetric] refl] t veiled_open [OF t] open_text_fail
      by (auto simp: fail_def)
  qed
qed

lemma zt_malloc_veiled: "veiled bs evs s \<Longrightarrow> zt_malloc s = (b, t) \<Longrightarrow> veiled bs evs t"
  by (auto simp: zt_malloc_def veiled_def split: list.splits)

lemma slurp_loop_veiled:
  "veiled bs evs s \<Longrightarrow> open_text bs evs (final (slurp_loop errcap cap buf hl cl s))"
proof (induction errcap cap buf hl cl s rule: slurp_loop.induct)
  case (1 errcap cap buf hl cl s)
  show ?case
  proof (cases "hl > 0 \<and> cl \<ge> 0 \<and> length buf \<ge> hl + nat cl")
    case True
    then show ?thesis using veiled_open [OF 1(3)] by (simp add: slurp_loop.simps [of errcap cap buf hl cl s])
  next
    case False
    obtain m t where m: "slurp_room cap (length buf) s = (m, t)" by fastforce
    have t: "veiled bs evs t" using m 1(3) zt_malloc_veiled [OF 1(3)] by (auto simp: slurp_room_def split: if_splits prod.splits bool.splits)
    show ?thesis
    proof (cases m)
      case None
      then have "slurp_loop errcap cap buf hl cl s = fail errcap ''out of memory'' None t" using False m by (subst slurp_loop.simps) auto
      then show ?thesis using veiled_open [OF t] by (simp add: open_text_fail)
    next
      case (Some n)
      show ?thesis
      proof (cases "zt_read (n - length buf - 1) t")
        case None
        then have "slurp_loop errcap cap buf hl cl s = Waits t" using False m Some by (subst slurp_loop.simps) auto
        then show ?thesis using veiled_open [OF t] by simp
      next
        case (Some x)
        obtain k d u where x: "x = (k, d, u)" by (cases x)
        have u: "veiled bs evs u" using zt_read_veiled [OF t] Some x by simp
        let ?b = "buf @ string_of d"
        obtain hl' cl' where h: "(if hl = 0 then scan_headers ?b else (hl, cl)) = (hl', cl')" by fastforce
        have "slurp_loop errcap cap buf hl cl s =
            (if k = 0 then One buf u
             else if k < 0 then if h_errno u = E_INTR then slurp_loop errcap n buf hl cl u
               else fail errcap ''read failed'' (Some (strerror (h_errno u))) u
             else slurp_loop errcap n ?b hl' cl' u)"
          using False m \<open>m = Some n\<close> Some x h by (subst slurp_loop.simps) (auto simp: Let_def)
        then show ?thesis
          using 1(1) [OF False m [symmetric] \<open>m = Some n\<close> Some x [symmetric] refl] 1(2) [OF False m [symmetric] \<open>m = Some n\<close> Some x [symmetric] refl _ _ refl h [symmetric] refl] u veiled_open [OF u]
          by (auto simp: open_text_fail)
      qed
    qed
  qed
qed

lemma slurp_veiled: "veiled bs evs s \<Longrightarrow> open_text bs evs (final (slurp errcap s))"
  using slurp_loop_veiled zt_malloc_veiled veiled_open by (fastforce simp: slurp_def open_text_fail split: prod.split bool.split)

lemma zt_parse_open: "open_text bs evs s \<Longrightarrow> open_text bs evs (final (zt_parse errcap raw s))"
  by (auto simp: zt_parse_def open_text_def fail_def zt_malloc_def split: option.splits prod.splits bool.splits list.splits)

lemma zt_open_tls_One:
  assumes "zt_open_tls B L host (Some opts) errcap s = One v t"
  shows "B = Tls_openssl" "\<exists>cf log. coco_client_tls_open L (h_fd s) host opts errcap = Opened cf log" "veiled (h_plain s) (h_recv s) t"
  using assms by (auto simp: zt_open_tls_def Let_def fail_def veiled_def split: tls_build.splits tls_opened.splits if_splits)

lemma zt_open_tls_Zero: "zt_open_tls B L host (Some opts) errcap s = Zero t \<Longrightarrow> h_plain t = h_plain s"
  by (auto simp: zt_open_tls_def Let_def fail_def split: tls_build.splits tls_opened.splits if_splits)

lemma zt_open_tls_returns: "zt_open_tls B L host tls errcap s \<noteq> Waits t"
  by (auto simp: zt_open_tls_def Let_def fail_def split: option.split tls_build.split tls_opened.split)

lemma zt_get2_behind:
  assumes "veiled bs evs s"
  shows "open_text bs evs (final (andthen (zt_send_loop errcap req) (\<lambda>_ t. case slurp errcap t of
    Waits u \<Rightarrow> Waits u | Zero u \<Rightarrow> Zero (zt_hangup u) | One raw u \<Rightarrow> zt_parse errcap raw (zt_hangup u)) s))" (is "open_text bs evs (final (andthen _ ?k s))")
proof -
  have k: "open_text bs evs (final (?k () t))" if "veiled bs evs t" for t
    using slurp_veiled [OF that, of errcap] zt_parse_open by (cases "slurp errcap t") simp_all
  show ?thesis using zt_send_loop_veiled [OF assms, of errcap req] k by (cases "zt_send_loop errcap req s") (auto simp: andthen_def)
qed

lemma zt_get2_tls:
  assumes r_def: "r = zt_get2 B host service path (Some opts) errcap s"
  shows "h_plain (final r) = h_plain s"
    and "r = One body t \<Longrightarrow> B = Tls_openssl \<and> (\<exists>as L ds a cf log. h_dials s = Addresses as L # ds \<and> first_up as = Some a \<and>
      coco_client_tls_open L (ad_fd a) host opts errcap = Opened cf log \<and> h_recv t = ad_recv a)"
proof -
  let ?s = "s\<lparr>h_err := (if errcap > 0 then '''' else h_err s), h_fd := -1, h_tls := None\<rparr>"
  let ?req = "zt_request path host service"
  show "h_plain (final r) = h_plain s"
  proof (cases "length ?req \<ge> 2048")
    case True
    then show ?thesis by (simp add: r_def zt_get2_def Let_def fail_def)
  next
    case False
    show ?thesis
    proof (cases "zt_dial errcap ?s")
      case (One L u)
      then have u: "h_plain u = h_plain s" using zt_dial_plain [of errcap ?s] by simp
      show ?thesis
      proof (cases "zt_open_tls B L host (Some opts) errcap u")
        case o: (One v w)
        show ?thesis using zt_get2_behind [OF zt_open_tls_One(3) [OF o], of errcap "bytes_of ?req"] u One o False
          by (simp add: r_def zt_get2_def Let_def andthen_def open_text_def)
      qed (use One False u zt_open_tls_Zero zt_open_tls_returns in \<open>auto simp: r_def zt_get2_def Let_def andthen_def\<close>)
    qed (use False zt_dial_plain [of errcap ?s] in \<open>simp_all add: r_def zt_get2_def Let_def andthen_def\<close>)
  qed
  assume r: "r = One body t"
  let ?k = "andthen (zt_send_loop errcap (bytes_of ?req)) (\<lambda>_ t. case slurp errcap t of
      Waits u \<Rightarrow> Waits u | Zero u \<Rightarrow> Zero (zt_hangup u) | One raw u \<Rightarrow> zt_parse errcap raw (zt_hangup u))"
  have "andthen (zt_dial errcap) (\<lambda>L. andthen (zt_open_tls B L host (Some opts) errcap) (\<lambda>_. ?k)) ?s = One body t"
    using r unfolding r_def zt_get2_def Let_def by (simp add: fail_def split: if_splits)
  then obtain L u where d: "zt_dial errcap ?s = One L u" and "andthen (zt_open_tls B L host (Some opts) errcap) (\<lambda>_. ?k) u = One body t"
    by (rule andthen_OneE)
  from this(2) obtain v w where o: "zt_open_tls B L host (Some opts) errcap u = One v w" and k: "?k w = One body t" by (rule andthen_OneE)
  have "h_recv t = h_recv u" using zt_get2_behind [OF zt_open_tls_One(3) [OF o], of errcap "bytes_of ?req"] unfolding k by (simp add: open_text_def)
  moreover obtain as ds a where "h_dials ?s = Addresses as L # ds" "first_up as = Some a" "h_fd u = ad_fd a" "h_recv u = ad_recv a"
    using zt_dial_One [OF d] by blast
  ultimately show "B = Tls_openssl \<and> (\<exists>as L ds a cf log. h_dials s = Addresses as L # ds \<and> first_up as = Some a \<and>
      coco_client_tls_open L (ad_fd a) host opts errcap = Opened cf log \<and> h_recv t = ad_recv a)"
    using zt_open_tls_One(1,2) [OF o] by auto
qed

end
