(* ===== verification/Pil_Image.thy ===== *)
theory Pil_Image
  imports Byte_Order "HOL-Library.Multiset"
begin

text \<open>
  The images of the resampler (modules/opencv/pil/Imaging.h and the shim of libImaging in
  pil-resample.c): an image is one block of lines, a pixel is one byte or four. The state
  is the answers of the allocator, the blocks handed out and those freed, and the message kept
  for the caller. A block has an identity, the number of blocks handed out before it, which
  travels with the pointer to it and is what \<open>free\<close> is told. \<open>Zero\<close> is a NULL answer.
\<close>

section \<open>Arrays written in a loop\<close>

text \<open>The writes \<open>d[a] = v\<close> of a loop, in the order the loop makes them.\<close>

definition pokes :: "'a list \<Rightarrow> (nat \<times> 'a) list \<Rightarrow> 'a list" where
  "pokes d ps = fold (\<lambda>(a, v) d. d[a := v]) ps d"

lemma length_pokes [simp]: "length (pokes d ps) = length d"
  by (induction ps arbitrary: d) (auto simp: pokes_def)

lemma pokes_Nil [simp]: "pokes d [] = d"
  by (simp add: pokes_def)

lemma pokes_Cons [simp]: "pokes d ((a, v) # ps) = pokes (d[a := v]) ps"
  by (simp add: pokes_def)

lemma pokes_append: "pokes d (ps @ qs) = pokes (pokes d ps) qs"
  by (simp add: pokes_def)

lemma nth_pokes_other: "i \<notin> fst ` set ps \<Longrightarrow> pokes d ps ! i = d ! i"
  by (induction ps arbitrary: d) (auto simp: pokes_def)

lemma nth_pokes:
  "distinct (map fst ps) \<Longrightarrow> (i, v) \<in> set ps \<Longrightarrow> i < length d \<Longrightarrow> pokes d ps ! i = v"
proof (induction ps arbitrary: d)
  case (Cons p ps)
  obtain a w where p: "p = (a, w)" by (cases p)
  show ?case
  proof (cases "p = (i, v)")
    case True
    then have "i \<notin> fst ` set ps" using Cons.prems p by (auto simp: image_iff)
    then show ?thesis using True Cons.prems nth_pokes_other [of i ps "d[i := v]"] by simp
  qed (use Cons p in auto)
qed simp

text \<open>\<open>memcpy\<close> of \<open>n\<close> bytes from \<open>s + j\<close> to \<open>d + i\<close>, as the writes it makes.\<close>

definition memcpy_ps :: "nat \<Rightarrow> 'a list \<Rightarrow> nat \<Rightarrow> nat \<Rightarrow> (nat \<times> 'a) list" where
  "memcpy_ps i s j n = map (\<lambda>k. (i + k, s ! (j + k))) [0..<n]"

lemma set_memcpy_ps: "set (memcpy_ps i s j n) = (\<lambda>k. (i + k, s ! (j + k))) ` {..<n}"
  by (auto simp: memcpy_ps_def)

section \<open>The allocator and the message\<close>

text \<open>A block, by its number; \<open>None\<close> is NULL. A pointer to a block that holds something is the
  block with what it holds.\<close>

type_synonym block = nat
type_synonym 'a pointer = "block \<times> 'a"

record pil_sys =
  p_mallocs :: "bool list"
  p_next :: block
  p_freed :: "block multiset"
  p_error :: "string option"

type_synonym 'a pact = "(pil_sys, 'a) act"

text \<open>Whether the next allocations succeed is in \<open>p_mallocs\<close>; with no answer left they do. \<open>p_freed\<close> keeps
  every block given to \<open>free\<close>, as often as it was given; \<open>free(NULL)\<close> is nothing.\<close>

definition p_alloc :: "pil_sys \<Rightarrow> block option \<times> pil_sys" where
  "p_alloc s =
     (case p_mallocs s of
        [] \<Rightarrow> (Some (p_next s), s\<lparr>p_next := p_next s + 1\<rparr>)
      | True # r \<Rightarrow> (Some (p_next s), s\<lparr>p_mallocs := r, p_next := p_next s + 1\<rparr>)
      | False # r \<Rightarrow> (None, s\<lparr>p_mallocs := r\<rparr>))"

definition p_free :: "block option \<Rightarrow> pil_sys \<Rightarrow> pil_sys" where
  "p_free b s = (case b of None \<Rightarrow> s | Some a \<Rightarrow> s\<lparr>p_freed := add_mset a (p_freed s)\<rparr>)"

definition free_at :: "'a pointer \<Rightarrow> pil_sys \<Rightarrow> pil_sys" where
  "free_at p = p_free (Some (fst p))"

definition ImagingError_MemoryError :: "'a pact" where
  "ImagingError_MemoryError s = Zero (s\<lparr>p_error := Some ''out of memory''\<rparr>)"

definition ImagingError_ModeError :: "'a pact" where
  "ImagingError_ModeError s = Zero (s\<lparr>p_error := Some ''unsupported image mode''\<rparr>)"

definition ImagingError_ValueError :: "string \<Rightarrow> 'a pact" where
  "ImagingError_ValueError message s = Zero (s\<lparr>p_error := Some message\<rparr>)"

section \<open>Images\<close>

definition IMAGING_TYPE_UINT8 :: nat where "IMAGING_TYPE_UINT8 = 0"
definition IMAGING_TYPE_INT32 :: nat where "IMAGING_TYPE_INT32 = 1"
definition IMAGING_TYPE_FLOAT32 :: nat where "IMAGING_TYPE_FLOAT32 = 2"
definition IMAGING_TYPE_SPECIAL :: nat where "IMAGING_TYPE_SPECIAL = 3"
definition IMAGING_MODE_LENGTH :: nat where "IMAGING_MODE_LENGTH = 7"

lemmas imaging_types = IMAGING_TYPE_UINT8_def IMAGING_TYPE_INT32_def IMAGING_TYPE_FLOAT32_def
  IMAGING_TYPE_SPECIAL_def

text \<open>\<open>im_self\<close> is the block of the record itself, \<open>im_block\<close> the block of lines with its bytes, unless its
  allocation failed, and \<open>im_lines\<close> the array of line pointers, \<open>image\<close>. \<open>image8\<close> is set when a pixel is
  one byte, \<open>image32\<close> otherwise.\<close>

record imaging =
  im_self :: block
  im_mode :: string
  im_type :: nat
  im_bands :: nat
  im_xsize :: int
  im_ysize :: int
  im_pixelsize :: int
  im_linesize :: int
  im_lines :: "block option"
  im_block :: "byte list pointer option"

definition image8 :: "imaging \<Rightarrow> bool" where
  "image8 im \<longleftrightarrow> im_pixelsize im = 1"

lemma c_int_sint: "c_int x = sint (word_of_int x :: 32 word)"
  by (simp add: c_int_def signed_of_int)

definition the_block :: "imaging \<Rightarrow> byte list" where
  "the_block im = (case im_block im of None \<Rightarrow> [] | Some b \<Rightarrow> snd b)"

text \<open>The byte \<open>i\<close> of the line \<open>image[y]\<close>, and its place in the block.\<close>

definition im_at :: "imaging \<Rightarrow> int \<Rightarrow> int \<Rightarrow> nat" where
  "im_at im y i = nat (y * im_linesize im + i)"

definition im_get :: "imaging \<Rightarrow> int \<Rightarrow> int \<Rightarrow> byte" where
  "im_get im y i = the_block im ! im_at im y i"

definition im_write :: "imaging \<Rightarrow> (nat \<times> byte) list \<Rightarrow> imaging" where
  "im_write im ps = im\<lparr>im_block := map_option (\<lambda>(a, b). (a, pokes b ps)) (im_block im)\<rparr>"

definition ImagingDelete :: "imaging option \<Rightarrow> pil_sys \<Rightarrow> pil_sys" where
  "ImagingDelete im s =
     (case im of
        None \<Rightarrow> s
      | Some im \<Rightarrow> p_free (Some (im_self im)) (p_free (im_lines im) (p_free (map_option fst (im_block im)) s)))"

definition ImagingNewDirty :: "string \<Rightarrow> int \<Rightarrow> int \<Rightarrow> imaging pact" where
  "ImagingNewDirty mode xsize ysize s =
     (if xsize < 0 \<or> ysize < 0 \<or> strlen mode \<ge> IMAGING_MODE_LENGTH
      then ImagingError_ValueError ''bad image size or mode'' s
      else case p_alloc s of
        (None, t) \<Rightarrow> ImagingError_MemoryError t
      | (Some self, t) \<Rightarrow>
          (let bands = strlen mode;
               pixelsize = (if bands = 1 then 1 else 4);
               linesize = c_int (xsize * pixelsize);
               (b, t) = p_alloc t;
               (l, t) = p_alloc t;
               im = \<lparr>im_self = self, im_mode = mode, im_type = IMAGING_TYPE_UINT8, im_bands = bands, im_xsize = xsize,
                     im_ysize = ysize, im_pixelsize = pixelsize, im_linesize = linesize, im_lines = l,
                     im_block = map_option (\<lambda>a. (a, replicate (nat (max 1 ysize) * nat (max 1 linesize)) 0)) b\<rparr>
           in if b = None \<or> l = None then ImagingError_MemoryError (ImagingDelete (Some im) t) else One im t))"

definition ImagingCopy :: "imaging \<Rightarrow> imaging pact" where
  "ImagingCopy im =
     andthen (ImagingNewDirty (im_mode im) (im_xsize im) (im_ysize im)) (\<lambda>out.
       ret (if im_ysize im > 0 \<and> im_linesize im > 0
            then im_write out (memcpy_ps 0 (the_block im) 0 (nat (im_ysize im) * nat (im_linesize im)))
            else out))"

end
