(* ===== verification/Pil_Resample.thy ===== *)
theory Pil_Resample
  imports Pil_Image Complex_Main "HOL-Library.Signed_Division"
begin

text \<open>
  Pillow's resampling (modules/opencv/pil/Resample.c) and the entry library(opencv) calls
  (\<open>pil_resample_8u\<close> in pil-resample.c). The arithmetic of \<open>double\<close> and \<open>float\<close> is a parameter:
  the record \<open>fp\<close> of its operations. Everything else, down to the buffer that holds doubles
  and then, in place, 32-bit integers, is written out.
\<close>

section \<open>Floating point\<close>

text \<open>
  \<open>f_lit\<close> and \<open>f_lit32\<close> are the values of a double and of a float literal, \<open>f_int\<close> is the cast
  \<open>(int)\<close>, \<open>f_round32\<close> rounds to \<open>float\<close>, \<open>f_cells\<close> and \<open>f_of_cells\<close> are a double as the two
  32-bit cells it occupies in memory, \<open>f_of_f32\<close> and \<open>f_to_f32\<close> read and store a \<open>float\<close>.
\<close>

record 'd fp =
  f_lit :: "rat \<Rightarrow> 'd"
  f_lit32 :: "rat \<Rightarrow> 'd"
  f_of_int :: "int \<Rightarrow> 'd"
  f_add :: "'d \<Rightarrow> 'd \<Rightarrow> 'd"
  f_sub :: "'d \<Rightarrow> 'd \<Rightarrow> 'd"
  f_mul :: "'d \<Rightarrow> 'd \<Rightarrow> 'd"
  f_div :: "'d \<Rightarrow> 'd \<Rightarrow> 'd"
  f_neg :: "'d \<Rightarrow> 'd"
  f_lt :: "'d \<Rightarrow> 'd \<Rightarrow> bool"
  f_le :: "'d \<Rightarrow> 'd \<Rightarrow> bool"
  f_eq :: "'d \<Rightarrow> 'd \<Rightarrow> bool"
  f_ceil :: "'d \<Rightarrow> 'd"
  f_int :: "'d \<Rightarrow> int"
  f_sin :: "'d \<Rightarrow> 'd"
  f_cos :: "'d \<Rightarrow> 'd"
  f_pi :: 'd
  f_round32 :: "'d \<Rightarrow> 'd"
  f_cells :: "'d \<Rightarrow> 32 word list"
  f_of_cells :: "32 word list \<Rightarrow> 'd"
  f_of_f32 :: "32 word \<Rightarrow> 'd"
  f_to_f32 :: "'d \<Rightarrow> 32 word"

definition ROUND_UP :: "'d fp \<Rightarrow> 'd \<Rightarrow> int" where
  "ROUND_UP F f = f_int F (if f_le F (f_lit F 0) f then f_add F f (f_lit32 F (1/2)) else f_sub F f (f_lit32 F (1/2)))"

section \<open>Filters\<close>

definition box_filter :: "'d fp \<Rightarrow> 'd \<Rightarrow> 'd" where
  "box_filter F x = (if f_lt F (f_lit F (-1/2)) x \<and> f_le F x (f_lit F (1/2)) then f_lit F 1 else f_lit F 0)"

definition f_abs :: "'d fp \<Rightarrow> 'd \<Rightarrow> 'd" where
  "f_abs F x = (if f_lt F x (f_lit F 0) then f_neg F x else x)"

definition bilinear_filter :: "'d fp \<Rightarrow> 'd \<Rightarrow> 'd" where
  "bilinear_filter F x =
     (let x = f_abs F x in if f_lt F x (f_lit F 1) then f_sub F (f_lit F 1) x else f_lit F 0)"

definition hamming_filter :: "'d fp \<Rightarrow> 'd \<Rightarrow> 'd" where
  "hamming_filter F x =
     (let x = f_abs F x
      in if f_eq F x (f_lit F 0) then f_lit F 1
         else if f_le F (f_lit F 1) x then f_lit F 0
         else let x = f_mul F x (f_pi F)
              in f_mul F (f_div F (f_sin F x) x)
                   (f_add F (f_lit32 F (54/100)) (f_mul F (f_lit32 F (46/100)) (f_cos F x))))"

definition bicubic_filter :: "'d fp \<Rightarrow> 'd \<Rightarrow> 'd" where
  "bicubic_filter F x =
     (let a = f_lit F (-1/2); x = f_abs F x
      in if f_lt F x (f_lit F 1)
         then f_add F
           (f_mul F (f_mul F (f_sub F (f_mul F (f_add F a (f_lit F 2)) x) (f_add F a (f_lit F 3))) x) x)
           (f_of_int F 1)
         else if f_lt F x (f_lit F 2)
         then f_mul F
           (f_sub F (f_mul F (f_add F (f_mul F (f_sub F x (f_of_int F 5)) x) (f_of_int F 8)) x) (f_of_int F 4)) a
         else f_lit F 0)"

definition sinc_filter :: "'d fp \<Rightarrow> 'd \<Rightarrow> 'd" where
  "sinc_filter F x =
     (if f_eq F x (f_lit F 0) then f_lit F 1
      else let x = f_mul F x (f_pi F) in f_div F (f_sin F x) x)"

definition lanczos_filter :: "'d fp \<Rightarrow> 'd \<Rightarrow> 'd" where
  "lanczos_filter F x =
     (if f_le F (f_lit F (-3)) x \<and> f_lt F x (f_lit F 3)
      then f_mul F (sinc_filter F x) (sinc_filter F (f_div F x (f_of_int F 3))) else f_lit F 0)"

record 'd pil_filter =
  fl_filter :: "'d \<Rightarrow> 'd"
  fl_support :: 'd

definition IMAGING_TRANSFORM_LANCZOS :: int where "IMAGING_TRANSFORM_LANCZOS = 1"
definition IMAGING_TRANSFORM_BILINEAR :: int where "IMAGING_TRANSFORM_BILINEAR = 2"
definition IMAGING_TRANSFORM_BICUBIC :: int where "IMAGING_TRANSFORM_BICUBIC = 3"
definition IMAGING_TRANSFORM_BOX :: int where "IMAGING_TRANSFORM_BOX = 4"
definition IMAGING_TRANSFORM_HAMMING :: int where "IMAGING_TRANSFORM_HAMMING = 5"

definition filter_of :: "'d fp \<Rightarrow> int \<Rightarrow> 'd pil_filter option" where
  "filter_of F which =
     (if which = IMAGING_TRANSFORM_BOX then Some \<lparr>fl_filter = box_filter F, fl_support = f_lit F (1/2)\<rparr>
      else if which = IMAGING_TRANSFORM_BILINEAR then Some \<lparr>fl_filter = bilinear_filter F, fl_support = f_lit F 1\<rparr>
      else if which = IMAGING_TRANSFORM_HAMMING then Some \<lparr>fl_filter = hamming_filter F, fl_support = f_lit F 1\<rparr>
      else if which = IMAGING_TRANSFORM_BICUBIC then Some \<lparr>fl_filter = bicubic_filter F, fl_support = f_lit F 2\<rparr>
      else if which = IMAGING_TRANSFORM_LANCZOS then Some \<lparr>fl_filter = lanczos_filter F, fl_support = f_lit F 3\<rparr>
      else None)"

section \<open>Saturation by table\<close>

definition PRECISION_BITS :: nat where "PRECISION_BITS = 32 - 8 - 2"

text \<open>The 1280 entries of the table: 640 zeros, 0 to 255, and 384 times 255.\<close>

definition clip8_lookups :: "byte list" where
  "clip8_lookups = replicate 640 0 @ map word_of_nat [0..<256] @ replicate 384 255"

definition clip8 :: "32 word \<Rightarrow> byte" where
  "clip8 in' = clip8_lookups ! nat (640 + sint (signed_drop_bit PRECISION_BITS in'))"

definition CLIP8 :: "int \<Rightarrow> byte" where
  "CLIP8 v = (if v \<le> 0 then 0 else if v < 256 then word_of_int v else 255)"

section \<open>Coefficients\<close>

definition INT_MAX :: int where "INT_MAX = 2 ^ 31 - 1"

text \<open>The coefficients of one output position: where they start, how many there are, and their values.\<close>

definition coeff_row :: "'d fp \<Rightarrow> 'd pil_filter \<Rightarrow> int \<Rightarrow> 'd \<Rightarrow> 'd \<Rightarrow> 'd \<Rightarrow> 'd \<Rightarrow> nat \<Rightarrow> (int \<times> int) \<times> 'd list" where
  "coeff_row F fl inSize in0 scale filterscale support xx =
     (let center = f_add F in0 (f_mul F (f_add F (f_of_int F (int xx)) (f_lit F (1/2))) scale);
          ss = f_div F (f_lit F 1) filterscale;
          xmin = max 0 (f_int F (f_add F (f_sub F center support) (f_lit F (1/2))));
          xmax = c_int (min inSize (f_int F (f_add F (f_add F center support) (f_lit F (1/2)))) - xmin);
          ws = map (\<lambda>x. fl_filter fl
                 (f_mul F (f_add F (f_sub F (f_of_int F (int x + xmin)) center) (f_lit F (1/2))) ss)) [0..<nat xmax];
          ww = foldl (f_add F) (f_lit F 0) ws
      in ((xmin, xmax), if f_eq F ww (f_lit F 0) then ws else map (\<lambda>w. f_div F w ww) ws))"

text \<open>What is written to the row of \<open>ksize\<close> coefficients: the values, and zeros behind them.\<close>

definition row_writes :: "'d fp \<Rightarrow> nat \<Rightarrow> nat \<Rightarrow> 'd list \<Rightarrow> (nat \<times> 'd) list" where
  "row_writes F ksize xx ws =
     map (\<lambda>x. (xx * ksize + x, if x < length ws then ws ! x else f_lit F 0)) [0..<max ksize (length ws)]"

definition precompute_coeffs ::
    "'d fp \<Rightarrow> int \<Rightarrow> 'd \<Rightarrow> 'd \<Rightarrow> int \<Rightarrow> 'd pil_filter \<Rightarrow> (int \<times> (int \<times> int) list pointer \<times> 'd list pointer) pact" where
  "precompute_coeffs F inSize in0 in1 outSize fl s =
     (let scale = f_div F (f_round32 F (f_sub F in1 in0)) (f_of_int F outSize);
          filterscale = (if f_lt F scale (f_lit F 1) then f_lit F 1 else scale);
          support = f_mul F (fl_support fl) filterscale;
          ksize = c_int (f_int F (f_ceil F support) * 2 + 1)
      in if outSize > INT_MAX sdiv c_int (ksize * 8) then ImagingError_MemoryError s
         else case p_alloc s of
           (None, t) \<Rightarrow> ImagingError_MemoryError t
         | (Some kp, t) \<Rightarrow>
             (case p_alloc t of
                (None, u) \<Rightarrow> ImagingError_MemoryError (p_free (Some kp) u)
              | (Some bp, u) \<Rightarrow>
                  (let rows = map (coeff_row F fl inSize in0 scale filterscale support) [0..<nat outSize];
                       kk = pokes (replicate (nat outSize * nat ksize) (f_lit F 0))
                         (concat (map (\<lambda>xx. row_writes F (nat ksize) xx (snd (rows ! xx))) [0..<nat outSize]))
                   in One (ksize, (bp, map fst rows), (kp, kk)) u)))"

text \<open>A coefficient as a fixed-point number with \<open>PRECISION_BITS\<close> bits behind the point.\<close>

definition norm8 :: "'d fp \<Rightarrow> 'd \<Rightarrow> 32 word" where
  "norm8 F k =
     (let p = f_mul F k (f_of_int F (2 ^ PRECISION_BITS))
      in word_of_int (f_int F (if f_lt F k (f_lit F 0) then f_add F (f_lit F (-1/2)) p else f_add F (f_lit F (1/2)) p)))"

text \<open>The same buffer holds the doubles on entry and the integers on exit: cell \<open>x\<close> is written after the
  cells \<open>2 x\<close> and \<open>2 x + 1\<close> of the double \<open>x\<close> have been read.\<close>

definition normalize_coeffs_8bpc :: "'d fp \<Rightarrow> nat \<Rightarrow> 32 word list \<Rightarrow> 32 word list" where
  "normalize_coeffs_8bpc F n buf =
     fold (\<lambda>x buf. buf[x := norm8 F (f_of_cells F [buf ! (2 * x), buf ! (2 * x + 1)])]) [0..<n] buf"

section \<open>The passes\<close>

definition MAKE_UINT32 :: "bool \<Rightarrow> byte \<Rightarrow> byte \<Rightarrow> byte \<Rightarrow> byte \<Rightarrow> 32 word" where
  "MAKE_UINT32 big u0 u1 u2 u3 =
     (if big then ucast u3 OR push_bit 8 (ucast u2) OR push_bit 16 (ucast u1) OR push_bit 24 (ucast u0)
      else ucast u0 OR push_bit 8 (ucast u1) OR push_bit 16 (ucast u2) OR push_bit 24 (ucast u3))"

text \<open>\<open>ss = 1 << (PRECISION_BITS - 1); for (x = 0; x < xmax; x++) ss += px[x] * k[x];\<close> on 32-bit
  integers: an overflow, which C leaves undefined, wraps around here.\<close>

definition sum8 :: "(int \<Rightarrow> byte) \<Rightarrow> 32 word list \<Rightarrow> nat \<Rightarrow> int \<Rightarrow> 32 word" where
  "sum8 px kk k xmax =
     fold (\<lambda>x ss. ss + ucast (px (int x)) * kk ! (k + x)) [0..<nat xmax] (push_bit (PRECISION_BITS - 1) 1)"

text \<open>A four-byte pixel of so many bands from the saturated sum of each band.\<close>

definition pixel4 :: "bool \<Rightarrow> nat \<Rightarrow> (int \<Rightarrow> byte) \<Rightarrow> byte list" where
  "pixel4 big bands u =
     mem_of big 4 (unat
       (if bands = 2 then MAKE_UINT32 big (u 0) 0 0 (u 3)
        else if bands = 3 then MAKE_UINT32 big (u 0) (u 1) (u 2) 0
        else MAKE_UINT32 big (u 0) (u 1) (u 2) (u 3)))"

text \<open>Two nested loops over the pixels of the image written, rows outside.\<close>

definition pixels :: "imaging \<Rightarrow> (int \<Rightarrow> int \<Rightarrow> (nat \<times> byte) list) \<Rightarrow> (nat \<times> byte) list" where
  "pixels im f = concat (map (\<lambda>(yy, xx). f (int yy) (int xx))
     (List.product [0..<nat (im_ysize im)] [0..<nat (im_xsize im)]))"

definition ImagingResampleHorizontal_8bpc ::
    "'d fp \<Rightarrow> bool \<Rightarrow> imaging \<Rightarrow> imaging \<Rightarrow> int \<Rightarrow> int \<Rightarrow> (int \<times> int) list \<Rightarrow> 'd list \<Rightarrow> imaging" where
  "ImagingResampleHorizontal_8bpc F big imOut imIn offset ksize bounds prekk =
     (let kk = normalize_coeffs_8bpc F (nat (im_xsize imOut) * nat ksize) (concat (map (f_cells F) prekk));
          sum = (\<lambda>yy xx ps b. let (xmin, xmax) = bounds ! nat xx
                   in clip8 (sum8 (\<lambda>x. im_get imIn (yy + offset) ((x + xmin) * ps + b)) kk (nat xx * nat ksize) xmax))
      in im_write imOut
           (if image8 imIn then pixels imOut (\<lambda>yy xx. [(im_at imOut yy xx, sum yy xx 1 0)])
            else if im_type imIn = IMAGING_TYPE_UINT8
            then pixels imOut (\<lambda>yy xx. memcpy_ps (im_at imOut yy (xx * 4)) (pixel4 big (im_bands imIn) (sum yy xx 4)) 0 4)
            else []))"

definition ImagingResampleVertical_8bpc ::
    "'d fp \<Rightarrow> bool \<Rightarrow> imaging \<Rightarrow> imaging \<Rightarrow> int \<Rightarrow> int \<Rightarrow> (int \<times> int) list \<Rightarrow> 'd list \<Rightarrow> imaging" where
  "ImagingResampleVertical_8bpc F big imOut imIn offset ksize bounds prekk =
     (let kk = normalize_coeffs_8bpc F (nat (im_ysize imOut) * nat ksize) (concat (map (f_cells F) prekk));
          sum = (\<lambda>yy xx ps b. let (ymin, ymax) = bounds ! nat yy
                   in clip8 (sum8 (\<lambda>y. im_get imIn (y + ymin) (xx * ps + b)) kk (nat yy * nat ksize) ymax))
      in im_write imOut
           (if image8 imIn then pixels imOut (\<lambda>yy xx. [(im_at imOut yy xx, sum yy xx 1 0)])
            else if im_type imIn = IMAGING_TYPE_UINT8
            then pixels imOut (\<lambda>yy xx. memcpy_ps (im_at imOut yy (xx * 4)) (pixel4 big (im_bands imIn) (sum yy xx 4)) 0 4)
            else []))"

text \<open>\<open>for (x = 0; x < xmax; x++) ss += px[x] * k[x];\<close> in doubles, for the wider pixels.\<close>

definition sumd :: "'d fp \<Rightarrow> (int \<Rightarrow> 'd) \<Rightarrow> 'd list \<Rightarrow> nat \<Rightarrow> int \<Rightarrow> 'd" where
  "sumd F px kk k xmax =
     fold (\<lambda>x ss. f_add F ss (f_mul F (px (int x)) (kk ! (k + x)))) [0..<nat xmax] (f_lit F 0)"

definition mode_bigendian :: "bool \<Rightarrow> imaging \<Rightarrow> bool" where
  "mode_bigendian big im \<longleftrightarrow> im_mode im = ''I;16N'' \<or> big \<and> im_mode im = ''I;16B''"

definition get16 :: "bool \<Rightarrow> imaging \<Rightarrow> int \<Rightarrow> int \<Rightarrow> int" where
  "get16 be im y x =
     uint (im_get im y (x * 2 + of_bool be)) + uint (im_get im y (x * 2 + of_bool (\<not> be))) * 2 ^ 8"

definition put16 :: "bool \<Rightarrow> imaging \<Rightarrow> int \<Rightarrow> int \<Rightarrow> int \<Rightarrow> (nat \<times> byte) list" where
  "put16 be im y x v =
     [(im_at im y (x * 2 + of_bool be), CLIP8 (v smod 256)), (im_at im y (x * 2 + of_bool (\<not> be)), CLIP8 (v div 2 ^ 8))]"

definition ImagingResampleHorizontal_16bpc ::
    "'d fp \<Rightarrow> bool \<Rightarrow> imaging \<Rightarrow> imaging \<Rightarrow> int \<Rightarrow> int \<Rightarrow> (int \<times> int) list \<Rightarrow> 'd list \<Rightarrow> imaging" where
  "ImagingResampleHorizontal_16bpc F big imOut imIn offset ksize bounds kk =
     (let be = mode_bigendian big imIn
      in im_write imOut (pixels imOut (\<lambda>yy xx.
           let (xmin, xmax) = bounds ! nat xx;
               ss = sumd F (\<lambda>x. f_of_int F (get16 be imIn (yy + offset) (x + xmin))) kk (nat xx * nat ksize) xmax
           in put16 be imOut yy xx (ROUND_UP F ss))))"

definition ImagingResampleVertical_16bpc ::
    "'d fp \<Rightarrow> bool \<Rightarrow> imaging \<Rightarrow> imaging \<Rightarrow> int \<Rightarrow> int \<Rightarrow> (int \<times> int) list \<Rightarrow> 'd list \<Rightarrow> imaging" where
  "ImagingResampleVertical_16bpc F big imOut imIn offset ksize bounds kk =
     (let be = mode_bigendian big imIn
      in im_write imOut (pixels imOut (\<lambda>yy xx.
           let (ymin, ymax) = bounds ! nat yy;
               ss = sumd F (\<lambda>y. f_of_int F (get16 be imIn (y + ymin) xx)) kk (nat yy * nat ksize) ymax
           in put16 be imOut yy xx (ROUND_UP F ss))))"

text \<open>The four bytes of \<open>IMAGING_PIXEL_I\<close> and \<open>IMAGING_PIXEL_F\<close>.\<close>

definition get32 :: "bool \<Rightarrow> imaging \<Rightarrow> int \<Rightarrow> int \<Rightarrow> 32 word" where
  "get32 big im x y = word_of_nat (val_at big (map (\<lambda>i. im_get im y (x * 4 + i)) [0, 1, 2, 3]))"

definition put32 :: "bool \<Rightarrow> imaging \<Rightarrow> int \<Rightarrow> int \<Rightarrow> 32 word \<Rightarrow> (nat \<times> byte) list" where
  "put32 big im x y v = memcpy_ps (im_at im y (x * 4)) (mem_of big 4 (unat v)) 0 4"

definition pixel32 :: "'d fp \<Rightarrow> imaging \<Rightarrow> 32 word \<Rightarrow> 'd" where
  "pixel32 F im v = (if im_type im = IMAGING_TYPE_INT32 then f_of_int F (sint v) else f_of_f32 F v)"

definition store32 :: "'d fp \<Rightarrow> imaging \<Rightarrow> 'd \<Rightarrow> 32 word" where
  "store32 F im ss = (if im_type im = IMAGING_TYPE_INT32 then word_of_int (ROUND_UP F ss) else f_to_f32 F ss)"

definition ImagingResampleHorizontal_32bpc ::
    "'d fp \<Rightarrow> bool \<Rightarrow> imaging \<Rightarrow> imaging \<Rightarrow> int \<Rightarrow> int \<Rightarrow> (int \<times> int) list \<Rightarrow> 'd list \<Rightarrow> imaging" where
  "ImagingResampleHorizontal_32bpc F big imOut imIn offset ksize bounds kk =
     (if im_type imIn = IMAGING_TYPE_INT32 \<or> im_type imIn = IMAGING_TYPE_FLOAT32
      then im_write imOut (pixels imOut (\<lambda>yy xx.
             let (xmin, xmax) = bounds ! nat xx;
                 ss = sumd F (\<lambda>x. pixel32 F imIn (get32 big imIn (x + xmin) (yy + offset))) kk (nat xx * nat ksize) xmax
             in put32 big imOut xx yy (store32 F imIn ss)))
      else imOut)"

definition ImagingResampleVertical_32bpc ::
    "'d fp \<Rightarrow> bool \<Rightarrow> imaging \<Rightarrow> imaging \<Rightarrow> int \<Rightarrow> int \<Rightarrow> (int \<times> int) list \<Rightarrow> 'd list \<Rightarrow> imaging" where
  "ImagingResampleVertical_32bpc F big imOut imIn offset ksize bounds kk =
     (if im_type imIn = IMAGING_TYPE_INT32 \<or> im_type imIn = IMAGING_TYPE_FLOAT32
      then im_write imOut (pixels imOut (\<lambda>yy xx.
             let (ymin, ymax) = bounds ! nat yy;
                 ss = sumd F (\<lambda>y. pixel32 F imIn (get32 big imIn xx (y + ymin))) kk (nat yy * nat ksize) ymax
             in put32 big imOut xx yy (store32 F imIn ss)))
      else imOut)"

section \<open>Resampling\<close>

type_synonym 'd resample_function =
  "imaging \<Rightarrow> imaging \<Rightarrow> int \<Rightarrow> int \<Rightarrow> (int \<times> int) list \<Rightarrow> 'd list \<Rightarrow> imaging"

text \<open>The vertical pass of the two: over the original image or over the horizontally resampled one, which is
  deleted behind it (\<open>imTemp\<close>, unless it is NULL).\<close>

definition resample_vertical ::
    "'d resample_function \<Rightarrow> int \<Rightarrow> int \<Rightarrow> (int \<times> int) list pointer \<Rightarrow> 'd list pointer \<Rightarrow> bool \<Rightarrow> imaging option \<Rightarrow> imaging \<Rightarrow>
     imaging pact" where
  "resample_vertical V ysize ksize_vert bounds_vert kk_vert need_vertical imTemp imIn s =
     (if need_vertical
      then (case ImagingNewDirty (im_mode imIn) (im_xsize imIn) ysize s of
              Waits t \<Rightarrow> Waits t
            | Zero t \<Rightarrow> Zero (free_at kk_vert (free_at bounds_vert (ImagingDelete imTemp t)))
            | One imOut t \<Rightarrow> One (V imOut imIn 0 ksize_vert (snd bounds_vert) (snd kk_vert))
                (free_at kk_vert (free_at bounds_vert (ImagingDelete imTemp t))))
      else (let t = free_at kk_vert (free_at bounds_vert s)
            in case imTemp of Some imOut \<Rightarrow> One imOut t | None \<Rightarrow> ImagingCopy imIn t))"

definition ImagingResampleInner ::
    "'d fp \<Rightarrow> imaging \<Rightarrow> int \<Rightarrow> int \<Rightarrow> 'd pil_filter \<Rightarrow> 'd \<times> 'd \<times> 'd \<times> 'd \<Rightarrow>
     'd resample_function \<Rightarrow> 'd resample_function \<Rightarrow> imaging pact" where
  "ImagingResampleInner F imIn xsize ysize fl box H V s =
     (case box of (b0, b1, b2, b3) \<Rightarrow>
        let need_horizontal = (xsize \<noteq> im_xsize imIn \<or> \<not> f_eq F b0 (f_lit F 0) \<or> \<not> f_eq F b2 (f_round32 F (f_of_int F xsize)));
            need_vertical = (ysize \<noteq> im_ysize imIn \<or> \<not> f_eq F b1 (f_lit F 0) \<or> \<not> f_eq F b3 (f_round32 F (f_of_int F ysize)))
        in case precompute_coeffs F (im_xsize imIn) b0 b2 xsize fl s of
             Waits t \<Rightarrow> Waits t
           | Zero t \<Rightarrow> Zero t
           | One (ksize_horiz, bounds_horiz, kk_horiz) t \<Rightarrow>
             (case precompute_coeffs F (im_ysize imIn) b1 b3 ysize fl t of
                Waits u \<Rightarrow> Waits u
              | Zero u \<Rightarrow> Zero (free_at kk_horiz (free_at bounds_horiz u))
              | One (ksize_vert, bounds_vert, kk_vert) u \<Rightarrow>
                (let ybox_first = fst (snd bounds_vert ! 0);
                     (first, count) = snd bounds_vert ! (nat ysize - 1);
                     ybox_last = first + count
                 in if need_horizontal
                    then (let bounds_vert = apsnd (map (\<lambda>(y, n). (y - ybox_first, n))) bounds_vert
                          in case ImagingNewDirty (im_mode imIn) xsize (ybox_last - ybox_first) u of
                               Waits v \<Rightarrow> Waits v
                             | Zero v \<Rightarrow> Zero (free_at kk_vert (free_at bounds_vert
                                           (free_at kk_horiz (free_at bounds_horiz v))))
                             | One imTemp v \<Rightarrow>
                                 (let imTemp = H imTemp imIn ybox_first ksize_horiz (snd bounds_horiz) (snd kk_horiz)
                                  in resample_vertical V ysize ksize_vert bounds_vert kk_vert need_vertical
                                       (Some imTemp) imTemp (free_at kk_horiz (free_at bounds_horiz v))))
                    else resample_vertical V ysize ksize_vert bounds_vert kk_vert need_vertical
                           None imIn (free_at kk_horiz (free_at bounds_horiz u)))))"

definition ImagingResample ::
    "'d fp \<Rightarrow> bool \<Rightarrow> imaging \<Rightarrow> int \<Rightarrow> int \<Rightarrow> int \<Rightarrow> 'd \<times> 'd \<times> 'd \<times> 'd \<Rightarrow> imaging pact" where
  "ImagingResample F big imIn xsize ysize which box =
     (if im_mode imIn = ''P'' \<or> im_mode imIn = ''1'' then ImagingError_ModeError
      else
        let inner = (\<lambda>(H, V). case filter_of F which of
              None \<Rightarrow> ImagingError_ValueError ''unsupported resampling filter''
            | Some fl \<Rightarrow> ImagingResampleInner F imIn xsize ysize fl box H V);
            fun8 = (ImagingResampleHorizontal_8bpc F big, ImagingResampleVertical_8bpc F big);
            fun16 = (ImagingResampleHorizontal_16bpc F big, ImagingResampleVertical_16bpc F big);
            fun32 = (ImagingResampleHorizontal_32bpc F big, ImagingResampleVertical_32bpc F big)
        in if im_type imIn = IMAGING_TYPE_SPECIAL
           then if take 4 (im_mode imIn) = ''I;16'' then inner fun16 else ImagingError_ModeError
           else if image8 imIn \<or> im_type imIn = IMAGING_TYPE_UINT8 then inner fun8
           else if im_type imIn = IMAGING_TYPE_INT32 \<or> im_type imIn = IMAGING_TYPE_FLOAT32 then inner fun32
           else ImagingError_ModeError)"

section \<open>The entry\<close>

definition mode_of :: "int \<Rightarrow> string option" where
  "mode_of channels =
     (if channels = 1 then Some ''L'' else if channels = 3 then Some ''RGB'' else if channels = 4 then Some ''RGBA'' else None)"

text \<open>Laying the rows of the caller into the image, and taking them back. A pixel of three or four
  channels has four bytes in the image.\<close>

definition lay_in :: "byte list \<Rightarrow> int \<Rightarrow> nat \<Rightarrow> imaging \<Rightarrow> imaging" where
  "lay_in src channels step im =
     im_write im (concat (map (\<lambda>y.
       if channels = 1 then memcpy_ps (im_at im (int y) 0) src (y * step) (nat (im_xsize im))
       else concat (map (\<lambda>x. map (\<lambda>c.
         (im_at im (int y) (int (x * 4 + c)), src ! (y * step + x * nat channels + c))) [0..<nat channels])
           [0..<nat (im_xsize im)])) [0..<nat (im_ysize im)]))"

definition take_out :: "imaging \<Rightarrow> int \<Rightarrow> int \<Rightarrow> int \<Rightarrow> byte list \<Rightarrow> nat \<Rightarrow> byte list" where
  "take_out im channels outw outh dst dststep =
     pokes dst (concat (map (\<lambda>y.
       if channels = 1 then memcpy_ps (y * dststep) (the_block im) (im_at im (int y) 0) (nat outw)
       else concat (map (\<lambda>x. map (\<lambda>c.
         (y * dststep + x * nat channels + c, im_get im (int y) (int (x * 4 + c)))) [0..<nat channels])
           [0..<nat outw])) [0..<nat outh]))"

text \<open>The answer is NULL or the message, with the destination as it was left.\<close>

definition pil_resample_8u ::
    "'d fp \<Rightarrow> bool \<Rightarrow> byte list \<Rightarrow> int \<Rightarrow> int \<Rightarrow> int \<Rightarrow> nat \<Rightarrow> int \<Rightarrow> int \<Rightarrow> int \<Rightarrow> byte list \<Rightarrow> nat \<Rightarrow>
     pil_sys \<Rightarrow> (string option \<times> byte list) \<times> pil_sys" where
  "pil_resample_8u F big src w h channels step outw outh which dst dststep s =
     (case mode_of channels of
        None \<Rightarrow> ((Some ''cv_resample: 1, 3 or 4 channels of 8 bits'', dst), s)
      | Some mode \<Rightarrow>
        if outw < 1 \<or> outh < 1 then ((Some ''cv_resample: the size must be positive'', dst), s)
        else
          let fault = (\<lambda>what t. ((Some (case p_error t of Some e \<Rightarrow> e | None \<Rightarrow> what), dst), t))
          in case ImagingNewDirty mode w h (s\<lparr>p_error := None\<rparr>) of
               Waits t \<Rightarrow> ((None, dst), t)
             | Zero t \<Rightarrow> fault ''cv_resample: out of memory'' t
             | One im t \<Rightarrow>
                 (let im = lay_in src channels step im;
                      box = (f_of_int F 0, f_of_int F 0, f_round32 F (f_of_int F w), f_round32 F (f_of_int F h))
                  in case ImagingResample F big im outw outh which box t of
                       Waits u \<Rightarrow> ((None, dst), u)
                     | Zero u \<Rightarrow> fault ''cv_resample: resampling failed'' (ImagingDelete (Some im) u)
                     | One out u \<Rightarrow>
                         ((None, take_out out channels outw outh dst dststep),
                          ImagingDelete (Some out) (ImagingDelete (Some im) u))))"

end
