(* ===== verification/Pil_Correct.thy ===== *)
theory Pil_Correct
  imports Pil_Resample
begin

text \<open>
  What the resampler guarantees: the table saturates exactly as the comparison would and is
  never read outside; the conversion of the coefficients in place reads every double before
  it is overwritten; each pass leaves, in each byte of each pixel, the rounded and saturated
  weighted sum; resampling to the same size gives the picture back; and every path frees
  what it allocated.
\<close>

section \<open>Saturation\<close>

lemma clip8_index: "- 512 \<le> sint v div 2 ^ 22" "sint v div 2 ^ 22 \<le> 511" for v :: "32 word"
  using sint_lt [of v] sint_ge [of v] by simp_all

lemma clip8_lookups_nth:
  assumes "- 640 \<le> q" and "q \<le> 639"
  shows "clip8_lookups ! nat (640 + q) = CLIP8 q"
proof -
  consider "q < 0" | "0 \<le> q" "q < 256" | "256 \<le> q" by linarith
  then show ?thesis
    by cases (use assms in \<open>auto simp: clip8_lookups_def CLIP8_def nth_append nat_add_distrib nat_less_iff
      not_less le_nat_iff word_of_nat_eq_0_iff split: if_splits\<close>)
qed

lemma clip8_eq: "clip8 v = CLIP8 (sint v div 2 ^ 22)"
proof -
  have "sint (signed_drop_bit PRECISION_BITS v) = sint v div 2 ^ 22"
    by (simp add: PRECISION_BITS_def sint_signed_drop_bit_eq drop_bit_eq_div)
  then show ?thesis
    using clip8_lookups_nth [of "sint v div 2 ^ 22"] clip8_index [of v] by (simp add: clip8_def)
qed

section \<open>The sum\<close>

definition weighted :: "(int \<Rightarrow> byte) \<Rightarrow> (nat \<Rightarrow> int) \<Rightarrow> nat \<Rightarrow> int" where
  "weighted px k n = (\<Sum>x<n. uint (px (int x)) * k x)"

definition weights_fit :: "(nat \<Rightarrow> int) \<Rightarrow> nat \<Rightarrow> bool" where
  "weights_fit k n \<longleftrightarrow> 255 * (\<Sum>x<n. \<bar>k x\<bar>) + 2 ^ 21 < 2 ^ 31"

lemma uint_byte: "uint (b :: byte) \<le> 255"
  using uint_bounded [of b] by simp

lemma weighted_bound: "\<bar>weighted px k n\<bar> \<le> 255 * (\<Sum>x<n. \<bar>k x\<bar>)"
proof -
  have "\<bar>weighted px k n\<bar> \<le> (\<Sum>x<n. \<bar>uint (px (int x)) * k x\<bar>)"
    unfolding weighted_def by (rule sum_abs)
  also have "\<dots> \<le> (\<Sum>x<n. 255 * \<bar>k x\<bar>)"
    using uint_byte by (intro sum_mono) (simp add: abs_mult mult_right_mono)
  finally show ?thesis by (simp add: sum_distrib_left)
qed

lemma sum8_word: "sum8 px kk k xmax = word_of_int (2 ^ 21 + weighted px (\<lambda>x. sint (kk ! (k + x))) (nat xmax))"
proof -
  have "fold (\<lambda>x ss. ss + ucast (px (int x)) * kk ! (k + x)) [0..<n] w =
      w + word_of_int (weighted px (\<lambda>x. sint (kk ! (k + x))) n)" for n w
  proof (induction n arbitrary: w)
    case (Suc n)
    have "ucast (px (int n)) * kk ! (k + n) = word_of_int (uint (px (int n)) * sint (kk ! (k + n)))"
      by (simp only: ucast_eq of_int_mult of_int_sint scast_id)
    then show ?case using Suc by (simp add: weighted_def algebra_simps)
  qed (simp add: weighted_def)
  then show ?thesis by (simp add: sum8_def PRECISION_BITS_def push_bit_eq_mult)
qed

lemma sum8_exact:
  assumes "weights_fit (\<lambda>x. sint (kk ! (k + x))) (nat xmax)"
  shows "sint (sum8 px kk k xmax) = 2 ^ 21 + weighted px (\<lambda>x. sint (kk ! (k + x))) (nat xmax)"
  using assms weighted_bound [of px "\<lambda>x. sint (kk ! (k + x))" "nat xmax"] c_int_id
  unfolding sum8_word c_int_sint weights_fit_def by (simp del: of_int_add)

section \<open>The coefficients in place\<close>

text \<open>What the memory layout of a double has to satisfy.\<close>

definition cells_ok :: "'d fp \<Rightarrow> bool" where
  "cells_ok F \<longleftrightarrow> (\<forall>d. length (f_cells F d) = 2 \<and> f_of_cells F (f_cells F d) = d)"

lemma length_concat_cells: "cells_ok F \<Longrightarrow> length (concat (map (f_cells F) ds)) = 2 * length ds"
  by (induction ds) (auto simp: cells_ok_def)

lemma concat_cells_nth:
  assumes "cells_ok F" and "x < length ds"
  shows "[concat (map (f_cells F) ds) ! (2 * x), concat (map (f_cells F) ds) ! (2 * x + 1)] = f_cells F (ds ! x)"
  using assms(2)
proof (induction ds arbitrary: x)
  case (Cons d ds)
  have "length (f_cells F d) = Suc (Suc 0)" using assms(1) by (simp add: cells_ok_def)
  then obtain a b where "f_cells F d = [a, b]" by (auto simp: length_Suc_conv)
  then show ?case using Cons.IH [of "x - 1"] Cons.prems by (cases x) auto
qed simp

lemma normalize_coeffs_8bpc_nth:
  assumes "cells_ok F" and "n \<le> length ds"
  shows "length (normalize_coeffs_8bpc F n (concat (map (f_cells F) ds))) = 2 * length ds \<and>
    (\<forall>x < 2 * length ds. normalize_coeffs_8bpc F n (concat (map (f_cells F) ds)) ! x =
       (if x < n then norm8 F (ds ! x) else concat (map (f_cells F) ds) ! x))"
  using assms(2)
proof (induction n)
  case 0
  then show ?case using length_concat_cells [OF assms(1)] by (simp add: normalize_coeffs_8bpc_def)
next
  case (Suc n)
  let ?b = "concat (map (f_cells F) ds)"
  have step: "normalize_coeffs_8bpc F (Suc n) ?b = (normalize_coeffs_8bpc F n ?b)
      [n := norm8 F (f_of_cells F [normalize_coeffs_8bpc F n ?b ! (2 * n), normalize_coeffs_8bpc F n ?b ! (2 * n + 1)])]"
    by (simp add: normalize_coeffs_8bpc_def)
  have n: "n < length ds" using Suc.prems by simp
  have "[normalize_coeffs_8bpc F n ?b ! (2 * n), normalize_coeffs_8bpc F n ?b ! (2 * n + 1)] = f_cells F (ds ! n)"
    using Suc n concat_cells_nth [OF assms(1) n] by simp
  then have "normalize_coeffs_8bpc F (Suc n) ?b = (normalize_coeffs_8bpc F n ?b)[n := norm8 F (ds ! n)]"
    unfolding step using assms(1) by (simp add: cells_ok_def)
  then show ?case using Suc n by (auto simp: nth_list_update)
qed

section \<open>The shape of an image\<close>

definition image_ok :: "imaging \<Rightarrow> bool" where
  "image_ok im \<longleftrightarrow> im_xsize im \<ge> 0 \<and> im_ysize im \<ge> 0 \<and>
     im_pixelsize im = (if im_bands im = 1 then 1 else 4) \<and> im_linesize im = im_xsize im * im_pixelsize im \<and>
     im_type im = IMAGING_TYPE_UINT8 \<and> im_lines im \<noteq> None \<and>
     (\<exists>a b. im_block im = Some (a, b) \<and> nat (im_ysize im * im_linesize im) \<le> length b)"

lemma image_ok_block: "image_ok im \<Longrightarrow> nat (im_ysize im * im_linesize im) \<le> length (the_block im)"
  by (auto simp: image_ok_def the_block_def)

lemma im_write_fields [simp]:
  "im_mode (im_write im ps) = im_mode im" "im_type (im_write im ps) = im_type im"
  "im_bands (im_write im ps) = im_bands im" "im_xsize (im_write im ps) = im_xsize im"
  "im_ysize (im_write im ps) = im_ysize im" "im_pixelsize (im_write im ps) = im_pixelsize im"
  "im_linesize (im_write im ps) = im_linesize im" "im_lines (im_write im ps) = im_lines im"
  "im_self (im_write im ps) = im_self im" "map_option fst (im_block (im_write im ps)) = map_option fst (im_block im)"
  "im_at (im_write im ps) = im_at im" "image8 (im_write im ps) = image8 im"
  by (simp_all add: im_write_def im_at_def image8_def fun_eq_iff option.map_comp comp_def case_prod_beta')

lemma image_ok_write: "image_ok im \<Longrightarrow> image_ok (im_write im ps)"
  by (auto simp: image_ok_def) (auto simp: im_write_def)

lemma the_block_write: "image_ok im \<Longrightarrow> the_block (im_write im ps) = pokes (the_block im) ps"
  by (auto simp: image_ok_def the_block_def im_write_def)

text \<open>Different bytes of an image are different places of its block, and all of them are inside.\<close>

lemma im_at_less:
  assumes "image_ok im" and "0 \<le> y" "y < im_ysize im" and "0 \<le> i" "i < im_linesize im"
  shows "im_at im y i < nat (im_ysize im * im_linesize im)"
proof -
  have "y * im_linesize im + i < (y + 1) * im_linesize im" using assms(5) by (simp add: algebra_simps)
  also have "\<dots> \<le> im_ysize im * im_linesize im"
    using assms by (intro mult_right_mono) auto
  finally show ?thesis using assms by (auto simp: im_at_def nat_less_eq_zless)
qed

lemma im_at_inject:
  assumes "im_at im y i = im_at im z j" and "0 \<le> y" "0 \<le> z" and "0 \<le> i" "i < im_linesize im" and "0 \<le> j" "j < im_linesize im"
  shows "y = z \<and> i = j"
proof -
  have eq: "y * im_linesize im + i = z * im_linesize im + j"
    using assms by (auto simp: im_at_def eq_nat_nat_iff)
  have "y = (y * im_linesize im + i) div im_linesize im" "z = (z * im_linesize im + j) div im_linesize im"
    using assms by simp_all
  with eq show ?thesis by simp
qed

section \<open>The passes\<close>

lemma concat_map_product:
  "concat (map (\<lambda>p. map (\<lambda>c. h (p, c)) C) P) = map h (List.product P C)"
  by (induction P) (auto simp: comp_def)

lemma pokes_map:
  assumes "inj_on a (set L)" and "distinct L" and "z \<in> set L" and "a z < length d"
  shows "pokes d (map (\<lambda>z. (a z, v z)) L) ! a z = v z"
proof (rule nth_pokes)
  show "distinct (map fst (map (\<lambda>z. (a z, v z)) L))"
    using assms(1,2) by (simp add: comp_def distinct_map)
qed (use assms in auto)

lemma pixels_get:
  assumes ok: "image_ok im" and f: "\<And>y x. 0 \<le> y \<Longrightarrow> 0 \<le> x \<Longrightarrow>
      f y x = map (\<lambda>b. (im_at im y (x * im_pixelsize im + int b), g y x b)) [0..<nb]"
    and "0 \<le> y" "y < im_ysize im" and "0 \<le> x" "x < im_xsize im" and "b < nb" and nb: "nb \<le> nat (im_pixelsize im)"
  shows "im_get (im_write im (pixels im f)) y (x * im_pixelsize im + int b) = g y x b"
proof -
  let ?ps = "im_pixelsize im"
  let ?L = "List.product (List.product [0..<nat (im_ysize im)] [0..<nat (im_xsize im)]) [0..<nb]"
  let ?a = "\<lambda>((y, x), b). im_at im (int y) (int x * ?ps + int b)"
  let ?v = "\<lambda>((y, x), b). g (int y) (int x) b"
  have ps: "?ps > 0" and ls: "im_linesize im = im_xsize im * ?ps"
    using ok by (auto simp: image_ok_def split: if_splits)
  have "pixels im f = concat (map (\<lambda>p. map (\<lambda>b. (?a (p, b), ?v (p, b))) [0..<nb])
      (List.product [0..<nat (im_ysize im)] [0..<nat (im_xsize im)]))"
    unfolding pixels_def by (rule arg_cong [where f = concat], rule map_cong) (auto simp: f)
  also have "\<dots> = map (\<lambda>z. (?a z, ?v z)) ?L"
    by (rule concat_map_product [where h = "\<lambda>z. (?a z, ?v z)"])
  finally have px: "pixels im f = map (\<lambda>z. (?a z, ?v z)) ?L" .
  have inside: "0 \<le> int x * ?ps + int b" "int x * ?ps + int b < im_linesize im"
    if "int x < im_xsize im" "b < nb" for x b
  proof -
    have "int x * ?ps + int b < (int x + 1) * ?ps" using that nb by (simp add: algebra_simps)
    also have "\<dots> \<le> im_xsize im * ?ps" using that ps by (intro mult_right_mono) auto
    finally show "int x * ?ps + int b < im_linesize im" by (simp add: ls)
  qed (use ps in simp)
  have "inj_on ?a (set ?L)"
  proof (rule inj_onI, clarsimp simp: nat_less_iff zless_nat_eq_int_zless)
    fix y x b z w c
    assume *: "int y < im_ysize im" "int x < im_xsize im" "b < nb" "int z < im_ysize im" "int w < im_xsize im" "c < nb"
      "im_at im (int y) (int x * ?ps + int b) = im_at im (int z) (int w * ?ps + int c)"
    then have "int y = int z \<and> int x * ?ps + int b = int w * ?ps + int c"
      using inside [of x b] inside [of w c] by (intro im_at_inject) (auto simp: nat_less_iff zless_nat_eq_int_zless)
    moreover have "int x = (int x * ?ps + int b) div ?ps" "int w = (int w * ?ps + int c) div ?ps"
      using * nb by simp_all
    ultimately show "y = z \<and> x = w \<and> b = c" by auto
  qed
  moreover have "((nat y, nat x), b) \<in> set ?L" using assms by auto
  moreover have "?a ((nat y, nat x), b) < length (the_block im)"
    using im_at_less [OF ok, of y "x * ?ps + int b"] inside [of "nat x" b] image_ok_block [OF ok] assms(3-7) by simp
  ultimately have "pokes (the_block im) (map (\<lambda>z. (?a z, ?v z)) ?L) ! ?a ((nat y, nat x), b) = ?v ((nat y, nat x), b)"
    by (intro pokes_map) (auto simp: distinct_product)
  then show ?thesis using assms(3,5) by (simp add: im_get_def the_block_write [OF ok] px)
qed

text \<open>Whatever the byte order of the host, the bytes of a pixel are its bands in order.\<close>

lemma le_bytes_nth: "i < n \<Longrightarrow> le_bytes n v ! i = word_of_nat (v div 256 ^ i)"
proof (induction n arbitrary: v i)
  case (Suc n)
  then show ?case by (cases i) (auto simp: div_mult2_eq)
qed simp

lemma mem_of_nth: "i < 4 \<Longrightarrow> mem_of big 4 (unat v) ! i = ucast (drop_bit (if big then 24 - 8 * i else 8 * i) v)"
  for v :: "32 word"
proof -
  assume i: "i < 4"
  have "unat v div 256 ^ j = unat (drop_bit (8 * j) v)" for j
    unfolding unat_drop_bit_eq by (simp add: drop_bit_eq_div power_mult)
  then have "word_of_nat (unat v div 256 ^ j) = (ucast (drop_bit (8 * j) v) :: byte)" for j by simp
  moreover have "8 * (3 - i) = 24 - 8 * i" by simp
  ultimately show ?thesis
    using i by (auto simp: mem_of_def be_bytes_def rev_nth le_bytes_nth)
qed

lemma bit_MAKE_UINT32:
  "bit (MAKE_UINT32 False u0 u1 u2 u3) n =
     (if n < 8 then bit u0 n else if n < 16 then bit u1 (n - 8) else if n < 24 then bit u2 (n - 16) else bit u3 (n - 24))"
proof -
  have hi: "\<not> bit u m" if "8 \<le> m" for u :: byte and m
    using bit_imp_le_length [of u m] that by auto
  consider "n < 8" | "8 \<le> n" "n < 16" | "16 \<le> n" "n < 24" | "24 \<le> n" "n < 32" | "32 \<le> n" by linarith
  then show ?thesis
    unfolding MAKE_UINT32_def if_False bit_or_iff bit_push_bit_iff bit_ucast_iff by cases (simp_all add: hi less_diff_conv2)
qed

lemma MAKE_UINT32_swap: "MAKE_UINT32 True u0 u1 u2 u3 = MAKE_UINT32 False u3 u2 u1 u0"
  by (simp add: MAKE_UINT32_def)

lemma MAKE_UINT32_byte:
  "ucast (drop_bit 0 (MAKE_UINT32 False u0 u1 u2 u3)) = u0" "ucast (drop_bit 8 (MAKE_UINT32 False u0 u1 u2 u3)) = u1"
  "ucast (drop_bit 16 (MAKE_UINT32 False u0 u1 u2 u3)) = u2" "ucast (drop_bit 24 (MAKE_UINT32 False u0 u1 u2 u3)) = u3"
  by (rule bit_word_eqI; simp add: bit_ucast_iff bit_drop_bit_eq bit_MAKE_UINT32)+

lemma pixel4_nth:
  assumes "i < 4"
  shows "pixel4 big bands u ! i =
    (if bands = 2 \<and> (i = 1 \<or> i = 2) \<or> bands = 3 \<and> i = 3 then 0 else u (int i))"
proof -
  have "ucast (drop_bit (if big then 24 - 8 * i else 8 * i) (MAKE_UINT32 big u0 u1 u2 u3)) =
      [u0, u1, u2, u3] ! i" for u0 u1 u2 u3
  proof -
    consider "i = 0" | "i = 1" | "i = 2" | "i = 3" using assms by linarith
    then show ?thesis
      by cases (cases big; simp only: MAKE_UINT32_swap; simp add: MAKE_UINT32_byte MAKE_UINT32_byte(1) [simplified])+
  qed
  then have byte: "mem_of big 4 (unat (MAKE_UINT32 big u0 u1 u2 u3)) ! i = [u0, u1, u2, u3] ! i" for u0 u1 u2 u3
    using assms by (simp only: mem_of_nth)
  consider "i = 0" | "i = 1" | "i = 2" | "i = 3" using assms by linarith
  then show ?thesis
    by cases (use byte in \<open>simp_all add: pixel4_def\<close>)
qed

lemma length_pixel4 [simp]: "length (pixel4 big bands u) = 4"
  by (simp add: pixel4_def)

lemma sum8_cong:
  assumes "\<And>x. x < nat xmax \<Longrightarrow> kk ! (k + x) = ll ! (k + x)"
  shows "sum8 px kk k xmax = sum8 px ll k xmax"
  unfolding sum8_def using assms by (intro fold_cong) auto

lemma upt_4: "[0..<4] = [0, 1, 2, 3 :: nat]"
  by (simp add: upt_rec)

text \<open>Both passes write, for every pixel, the bytes \<open>u y x b\<close>.\<close>

lemma pass_writes:
  assumes ok: "image_ok imOut" "image_ok imIn" and bands: "im_bands imOut = im_bands imIn" "im_bands imIn \<in> {1, 3, 4}"
    and at: "0 \<le> yy" "yy < im_ysize imOut" "0 \<le> xx" "xx < im_xsize imOut" "b < im_bands imIn"
  shows "im_get (im_write imOut
      (if image8 imIn then pixels imOut (\<lambda>yy xx. [(im_at imOut yy xx, u yy xx 1 0)])
       else if im_type imIn = IMAGING_TYPE_UINT8
       then pixels imOut (\<lambda>yy xx. memcpy_ps (im_at imOut yy (xx * 4)) (pixel4 big (im_bands imIn) (u yy xx 4)) 0 4)
       else [])) yy (xx * im_pixelsize imOut + int b) = u yy xx (im_pixelsize imIn) (int b)"
proof (cases "im_bands imIn = 1")
  case True
  then have one: "im_pixelsize imOut = 1" "im_pixelsize imIn = 1" "image8 imIn" "b = 0"
    using ok bands at by (auto simp: image_ok_def image8_def)
  show ?thesis
    using pixels_get [OF ok(1), of "\<lambda>yy xx. [(im_at imOut yy xx, u yy xx 1 0)]" "\<lambda>yy xx b. u yy xx 1 0" 1 yy xx 0] at one
    by simp
next
  case False
  then have four: "im_pixelsize imOut = 4" "im_pixelsize imIn = 4" "\<not> image8 imIn" "im_type imIn = IMAGING_TYPE_UINT8"
    using ok bands by (auto simp: image_ok_def image8_def)
  have ls: "im_linesize imOut \<ge> 0" using ok(1) by (auto simp: image_ok_def)
  have w: "memcpy_ps (im_at imOut y (x * 4)) p 0 4 = map (\<lambda>b. (im_at imOut y (x * 4 + int b), p ! b)) [0..<4]"
    if "0 \<le> y" "0 \<le> x" for y x and p :: "byte list"
  proof -
    have "im_at imOut y (x * 4) + b = im_at imOut y (x * 4 + int b)" for b
      using that ls nat_add_distrib [of "y * im_linesize imOut + x * 4" "int b"] by (simp add: im_at_def add.assoc)
    then show ?thesis by (simp add: memcpy_ps_def)
  qed
  show ?thesis
    using pixels_get [OF ok(1), of "\<lambda>yy xx. memcpy_ps (im_at imOut yy (xx * 4)) (pixel4 big (im_bands imIn) (u yy xx 4)) 0 4"
        "\<lambda>yy xx b. pixel4 big (im_bands imIn) (u yy xx 4) ! b" 4 yy xx b] at four w bands
    by (auto simp: pixel4_nth)
qed

text \<open>The saturated, rounded weighted sum: what a byte of a resampled image is meant to be.\<close>

definition filtered :: "(int \<Rightarrow> byte) \<Rightarrow> (nat \<Rightarrow> int) \<Rightarrow> nat \<Rightarrow> byte" where
  "filtered px k n = word_of_int (max 0 (min 255 ((weighted px k n + 2 ^ 21) div 2 ^ 22)))"

lemma filtered_CLIP8: "filtered px k n = CLIP8 ((weighted px k n + 2 ^ 21) div 2 ^ 22)"
proof -
  have "word_of_int (max 0 (min 255 q)) = CLIP8 q" for q
    by (cases "q = 255") (auto simp: CLIP8_def max_def min_def)
  then show ?thesis by (simp add: filtered_def)
qed

text \<open>A coefficient in fixed point, 22 bits behind the point, as the arithmetic of the machine rounds it: half a
  unit is added away from zero and the fraction dropped.\<close>

definition fixed22 :: "'d fp \<Rightarrow> 'd \<Rightarrow> int" where
  "fixed22 F k =
     (if f_lt F k (f_lit F 0) then f_int F (f_add F (f_lit F (-1/2)) (f_mul F k (f_of_int F 4194304)))
      else f_int F (f_add F (f_lit F (1/2)) (f_mul F k (f_of_int F 4194304))))"

lemma norm8_fixed22: "norm8 F k = word_of_int (fixed22 F k)"
  by (simp add: norm8_def fixed22_def Let_def PRECISION_BITS_def)

lemma sint_norm8: "\<bar>fixed22 F k\<bar> < 2 ^ 31 \<Longrightarrow> sint (norm8 F k) = fixed22 F k"
  using c_int_id [of "fixed22 F k"] by (auto simp: norm8_fixed22 c_int_sint)

lemma weights_fit_each:
  assumes "weights_fit k n" and "x < n"
  shows "\<bar>k x\<bar> < 2 ^ 31"
proof -
  have "\<bar>k x\<bar> \<le> (\<Sum>x<n. \<bar>k x\<bar>)" using assms(2) by (intro member_le_sum) auto
  moreover have "0 \<le> (\<Sum>x<n. \<bar>k x\<bar>)" by (intro sum_nonneg) auto
  ultimately show ?thesis using assms(1) unfolding weights_fit_def by simp
qed

text \<open>The arithmetic is exact on a coefficient when the product with a power of two, the addition of a half and the
  cast give what they give for the number \<open>val k\<close> it stands for; then the weight is that number rounded
  to 22 fractional bits, half away from zero.\<close>

definition exact22 :: "'d fp \<Rightarrow> ('d \<Rightarrow> rat) \<Rightarrow> 'd \<Rightarrow> bool" where
  "exact22 F val k \<longleftrightarrow> f_lt F k (f_lit F 0) = (val k < 0) \<and>
     (\<forall>h \<in> {-1/2, 1/2}. let v = h + val k * 2 ^ 22
        in f_int F (f_add F (f_lit F h) (f_mul F k (f_of_int F (2 ^ 22)))) = (if v < 0 then \<lceil>v\<rceil> else \<lfloor>v\<rfloor>))"

definition half_away :: "rat \<Rightarrow> int" where
  "half_away v = (if v < 0 then - \<lfloor>\<bar>v\<bar> + 1/2\<rfloor> else \<lfloor>\<bar>v\<bar> + 1/2\<rfloor>)"

lemma fixed22_exact:
  assumes "exact22 F val k"
  shows "fixed22 F k = half_away (val k * 2 ^ 22)"
proof -
  have "val k < 0 \<longleftrightarrow> val k * 2 ^ 22 < 0" by (simp add: mult_less_0_iff)
  moreover have "\<lceil>- 1/2 + v\<rceil> = - \<lfloor>\<bar>v\<bar> + 1/2\<rfloor>" if "v < 0" for v :: rat
    using that by (simp add: ceiling_def algebra_simps)
  ultimately show ?thesis using assms
    by (auto simp: exact22_def fixed22_def half_away_def Let_def add.commute)
qed

lemma clip8_sum8:
  assumes "cells_ok F" and "length prekk = n * m" and "i < n" and "xmax \<le> int m"
    and "weights_fit (\<lambda>x. fixed22 F (prekk ! (i * m + x))) (nat xmax)"
  shows "clip8 (sum8 px (normalize_coeffs_8bpc F (n * m) (concat (map (f_cells F) prekk))) (i * m) xmax) =
    filtered px (\<lambda>x. fixed22 F (prekk ! (i * m + x))) (nat xmax)"
proof -
  have in_row: "i * m + x < n * m" if "x < nat xmax" for x
  proof -
    have "i * m + x < Suc i * m" using that assms(4) by simp
    also have "\<dots> \<le> n * m" using assms(3) by (intro mult_le_mono1) simp
    finally show ?thesis .
  qed
  have "sum8 px (normalize_coeffs_8bpc F (n * m) (concat (map (f_cells F) prekk))) (i * m) xmax =
      sum8 px (map (norm8 F) prekk) (i * m) xmax"
  proof (rule sum8_cong)
    fix x assume "x < nat xmax"
    from in_row [OF this] show "normalize_coeffs_8bpc F (n * m) (concat (map (f_cells F) prekk)) ! (i * m + x) =
        map (norm8 F) prekk ! (i * m + x)"
      using normalize_coeffs_8bpc_nth [OF assms(1), of "n * m" prekk] assms(2) by simp
  qed
  moreover have w: "sint (map (norm8 F) prekk ! (i * m + x)) = fixed22 F (prekk ! (i * m + x))" if "x < nat xmax" for x
    using in_row [OF that] assms(2) sint_norm8 weights_fit_each [OF assms(5) that] by simp
  moreover have "weighted px (\<lambda>x. sint (map (norm8 F) prekk ! (i * m + x))) (nat xmax) =
      weighted px (\<lambda>x. fixed22 F (prekk ! (i * m + x))) (nat xmax)"
    unfolding weighted_def using w by (intro sum.cong) auto
  moreover have "weights_fit (\<lambda>x. sint (map (norm8 F) prekk ! (i * m + x))) (nat xmax)"
    using assms(5) w by (simp add: weights_fit_def)
  ultimately show ?thesis
    using sum8_exact [of "map (norm8 F) prekk" "i * m" xmax px] by (simp add: clip8_eq filtered_CLIP8 add.commute)
qed

lemma ImagingResampleHorizontal_8bpc_get:
  assumes "cells_ok F" and ok: "image_ok imOut" "image_ok imIn"
    and bands: "im_bands imOut = im_bands imIn" "im_bands imIn \<in> {1, 3, 4}"
    and at: "0 \<le> yy" "yy < im_ysize imOut" "0 \<le> xx" "xx < im_xsize imOut" "b < im_bands imIn"
    and row: "length prekk = nat (im_xsize imOut) * nat ksize" "bounds ! nat xx = (xmin, xmax)" "0 \<le> ksize" "xmax \<le> ksize"
      "weights_fit (\<lambda>x. fixed22 F (prekk ! (nat xx * nat ksize + x))) (nat xmax)"
  shows "im_get (ImagingResampleHorizontal_8bpc F big imOut imIn offset ksize bounds prekk)
      yy (xx * im_pixelsize imOut + int b) =
    filtered (\<lambda>x. im_get imIn (yy + offset) ((x + xmin) * im_pixelsize imIn + int b))
      (\<lambda>x. fixed22 F (prekk ! (nat xx * nat ksize + x))) (nat xmax)"
proof -
  let ?kk = "normalize_coeffs_8bpc F (nat (im_xsize imOut) * nat ksize) (concat (map (f_cells F) prekk))"
  let ?u = "\<lambda>yy xx ps b. let (xmin, xmax) = bounds ! nat xx
      in clip8 (sum8 (\<lambda>x. im_get imIn (yy + offset) ((x + xmin) * ps + b)) ?kk (nat xx * nat ksize) xmax)"
  have "im_get (ImagingResampleHorizontal_8bpc F big imOut imIn offset ksize bounds prekk)
      yy (xx * im_pixelsize imOut + int b) = ?u yy xx (im_pixelsize imIn) (int b)"
    using pass_writes [OF ok bands at, of ?u big] by (simp only: ImagingResampleHorizontal_8bpc_def Let_def)
  also have "\<dots> = filtered (\<lambda>x. im_get imIn (yy + offset) ((x + xmin) * im_pixelsize imIn + int b))
      (\<lambda>x. fixed22 F (prekk ! (nat xx * nat ksize + x))) (nat xmax)"
    using clip8_sum8 [OF assms(1) row(1), of "nat xx" xmax] row at by simp
  finally show ?thesis .
qed

lemma ImagingResampleVertical_8bpc_get:
  assumes "cells_ok F" and ok: "image_ok imOut" "image_ok imIn"
    and bands: "im_bands imOut = im_bands imIn" "im_bands imIn \<in> {1, 3, 4}"
    and at: "0 \<le> yy" "yy < im_ysize imOut" "0 \<le> xx" "xx < im_xsize imOut" "b < im_bands imIn"
    and row: "length prekk = nat (im_ysize imOut) * nat ksize" "bounds ! nat yy = (ymin, ymax)" "0 \<le> ksize" "ymax \<le> ksize"
      "weights_fit (\<lambda>y. fixed22 F (prekk ! (nat yy * nat ksize + y))) (nat ymax)"
  shows "im_get (ImagingResampleVertical_8bpc F big imOut imIn offset ksize bounds prekk)
      yy (xx * im_pixelsize imOut + int b) =
    filtered (\<lambda>y. im_get imIn (y + ymin) (xx * im_pixelsize imIn + int b))
      (\<lambda>y. fixed22 F (prekk ! (nat yy * nat ksize + y))) (nat ymax)"
proof -
  let ?kk = "normalize_coeffs_8bpc F (nat (im_ysize imOut) * nat ksize) (concat (map (f_cells F) prekk))"
  let ?u = "\<lambda>yy xx ps b. let (ymin, ymax) = bounds ! nat yy
      in clip8 (sum8 (\<lambda>y. im_get imIn (y + ymin) (xx * ps + b)) ?kk (nat yy * nat ksize) ymax)"
  have "im_get (ImagingResampleVertical_8bpc F big imOut imIn offset ksize bounds prekk)
      yy (xx * im_pixelsize imOut + int b) = ?u yy xx (im_pixelsize imIn) (int b)"
    using pass_writes [OF ok bands at, of ?u big] by (simp only: ImagingResampleVertical_8bpc_def Let_def)
  also have "\<dots> = filtered (\<lambda>y. im_get imIn (y + ymin) (xx * im_pixelsize imIn + int b))
      (\<lambda>y. fixed22 F (prekk ! (nat yy * nat ksize + y))) (nat ymax)"
    using clip8_sum8 [OF assms(1) row(1), of "nat yy" ymax] row at by simp
  finally show ?thesis .
qed

text \<open>A constant area keeps its value when the fixed-point weights add up to one, to within the rounding.\<close>

lemma filtered_constant:
  assumes "\<And>x. x < n \<Longrightarrow> px (int x) = v" and "255 * \<bar>(\<Sum>x<n. k x) - 2 ^ 22\<bar> < 2 ^ 21"
  shows "filtered px k n = v"
proof -
  have "weighted px k n = uint v * (\<Sum>x<n. k x)"
    using assms(1) by (simp add: weighted_def sum_distrib_left)
  also have "\<dots> = uint v * 2 ^ 22 + uint v * ((\<Sum>x<n. k x) - 2 ^ 22)" by (simp add: algebra_simps)
  finally have w: "weighted px k n = uint v * 2 ^ 22 + uint v * ((\<Sum>x<n. k x) - 2 ^ 22)" .
  have "\<bar>uint v * ((\<Sum>x<n. k x) - 2 ^ 22)\<bar> \<le> 255 * \<bar>(\<Sum>x<n. k x) - 2 ^ 22\<bar>"
    using uint_byte [of v] by (simp add: abs_mult mult_right_mono)
  then have d: "- (2 ^ 21) < uint v * ((\<Sum>x<n. k x) - 2 ^ 22)" "uint v * ((\<Sum>x<n. k x) - 2 ^ 22) < 2 ^ 21"
    using assms(2) by linarith+
  have "(weighted px k n + 2 ^ 21) div 2 ^ 22 = uint v"
    using d div_mult_self1 [of "2 ^ 22" "uint v * ((\<Sum>x<n. k x) - 2 ^ 22) + 2 ^ 21" "uint v"]
      div_pos_pos_trivial [of "uint v * ((\<Sum>x<n. k x) - 2 ^ 22) + 2 ^ 21" "2 ^ 22"]
    unfolding w by (simp add: ac_simps)
  then show ?thesis using uint_byte [of v] by (auto simp: filtered_def)
qed

section \<open>Everything allocated is freed\<close>

lemma ImagingNewDirty_not_Waits [simp]: "ImagingNewDirty mode xsize ysize s \<noteq> Waits t"
  by (auto simp: ImagingNewDirty_def Let_def ImagingError_ValueError_def ImagingError_MemoryError_def
      split: prod.splits option.splits if_splits)

text \<open>\<open>owes s t h\<close>: of the blocks handed out between \<open>s\<close> and \<open>t\<close>, each has been freed once, and no other
  block has been, but those of \<open>h\<close>, which are still to be freed.\<close>

definition owes :: "pil_sys \<Rightarrow> pil_sys \<Rightarrow> block multiset \<Rightarrow> bool" where
  "owes s t h \<longleftrightarrow> p_next s \<le> p_next t \<and> p_freed t + h = p_freed s + mset [p_next s..<p_next t]"

definition the_blocks :: "block option \<Rightarrow> block multiset" where
  "the_blocks b = (case b of None \<Rightarrow> {#} | Some a \<Rightarrow> {#a#})"

lemma the_blocks_simps [simp]: "the_blocks None = {#}" "the_blocks (Some a) = {#a#}"
  by (simp_all add: the_blocks_def)

lemma owes_refl: "owes s s {#}"
  by (simp add: owes_def)

lemma owes_alloc: "p_alloc t = (b, u) \<Longrightarrow> owes s t h \<Longrightarrow> owes s u (h + the_blocks b)"
  by (auto simp: p_alloc_def owes_def upt_Suc_append ac_simps simp del: mset_upt split: list.splits bool.splits)

lemma owes_free: "owes s t (h + the_blocks b) \<Longrightarrow> owes s (p_free b t) h"
  by (cases b) (auto simp: p_free_def owes_def)

lemma owes_free_at: "owes s t (add_mset (fst p) h) \<Longrightarrow> owes s (free_at p t) h"
  using owes_free [of s t h "Some (fst p)"] by (simp add: free_at_def)

lemma free_at_apsnd [simp]: "free_at (apsnd f p) = free_at p"
  by (simp add: free_at_def)

lemma owes_error [simp]: "owes s (t\<lparr>p_error := e\<rparr>) h = owes s t h" "owes (s\<lparr>p_error := e\<rparr>) t h = owes s t h"
  by (simp_all add: owes_def)

text \<open>The blocks of an image.\<close>

definition blocks_of :: "imaging \<Rightarrow> block multiset" where
  "blocks_of im = {#im_self im#} + the_blocks (im_lines im) + the_blocks (map_option fst (im_block im))"

lemma owes_ImagingDelete:
  "owes s t (h + blocks_of im) \<Longrightarrow> owes s (ImagingDelete (Some im) t) h"
  by (simp add: ImagingDelete_def)
    (rule owes_free, rule owes_free, rule owes_free, simp add: blocks_of_def ac_simps)

lemma ImagingDelete_None [simp]: "ImagingDelete None s = s"
  by (simp add: ImagingDelete_def)

lemma blocks_of_write [simp]: "blocks_of (im_write im ps) = blocks_of im"
  by (simp add: blocks_of_def)

lemma blocks_of_passes [simp]:
  "blocks_of (ImagingResampleHorizontal_8bpc F big imOut imIn offset ksize bounds kk) = blocks_of imOut"
  "blocks_of (ImagingResampleVertical_8bpc F big imOut imIn offset ksize bounds kk) = blocks_of imOut"
  "blocks_of (ImagingResampleHorizontal_16bpc F big imOut imIn offset ksize bounds kk) = blocks_of imOut"
  "blocks_of (ImagingResampleVertical_16bpc F big imOut imIn offset ksize bounds kk) = blocks_of imOut"
  "blocks_of (ImagingResampleHorizontal_32bpc F big imOut imIn offset ksize bounds kk) = blocks_of imOut"
  "blocks_of (ImagingResampleVertical_32bpc F big imOut imIn offset ksize bounds kk) = blocks_of imOut"
  by (simp_all add: ImagingResampleHorizontal_8bpc_def ImagingResampleVertical_8bpc_def
      ImagingResampleHorizontal_16bpc_def ImagingResampleVertical_16bpc_def
      ImagingResampleHorizontal_32bpc_def ImagingResampleVertical_32bpc_def Let_def)

text \<open>\<open>brings s h r\<close>: the call that answers \<open>r\<close> owes \<open>h\<close> when it answers NULL, and the blocks of the image it
  answers besides.\<close>

definition brings :: "pil_sys \<Rightarrow> block multiset \<Rightarrow> (pil_sys, imaging) outcome \<Rightarrow> bool" where
  "brings s h r \<longleftrightarrow> (case r of
      Waits t \<Rightarrow> False | Zero t \<Rightarrow> owes s t h | One im t \<Rightarrow> owes s t (h + blocks_of im))"

lemma brings_simps [simp]:
  "brings s h (Zero t) = owes s t h" "brings s h (One im t) = owes s t (h + blocks_of im)" "\<not> brings s h (Waits t)"
  by (simp_all add: brings_def)

lemma brings_ImagingNewDirty:
  assumes "owes s t h"
  shows "brings s h (ImagingNewDirty mode xsize ysize t)"
proof (cases "xsize < 0 \<or> ysize < 0 \<or> strlen mode \<ge> IMAGING_MODE_LENGTH")
  case True
  then show ?thesis using assms by (simp add: ImagingNewDirty_def ImagingError_ValueError_def)
next
  case False
  obtain b1 t1 where a1: "p_alloc t = (b1, t1)" by (cases "p_alloc t")
  obtain b2 t2 where a2: "p_alloc t1 = (b2, t2)" by (cases "p_alloc t1")
  obtain b3 t3 where a3: "p_alloc t2 = (b3, t3)" by (cases "p_alloc t2")
  note h1 = owes_alloc [OF a1 assms]
  note h3 = owes_alloc [OF a3 owes_alloc [OF a2 h1]]
  show ?thesis
  proof (cases b1)
    case None
    then show ?thesis using False a1 h1 by (simp add: ImagingNewDirty_def ImagingError_MemoryError_def)
  next
    case (Some self)
    have map_fst: "map_option fst (map_option (\<lambda>a. (a, r)) b) = b" for b :: "block option" and r :: "byte list"
      by (cases b) simp_all
    have "owes s t3 (h + blocks_of im)" if "im_self im = self" "im_lines im = b3" "map_option fst (im_block im) = b2" for im
      using h3 that Some by (simp add: blocks_of_def ac_simps)
    then show ?thesis using False a1 a2 a3 Some owes_ImagingDelete [of s t3 h]
      by (simp add: ImagingNewDirty_def ImagingError_MemoryError_def Let_def map_fst)
  qed
qed

lemma brings_ImagingCopy: "owes s t h \<Longrightarrow> brings s h (ImagingCopy im t)"
  using brings_ImagingNewDirty [of s t h "im_mode im" "im_xsize im" "im_ysize im"]
  by (auto simp: ImagingCopy_def andthen_def ret_def split: outcome.splits)

lemma owes_precompute_coeffs:
  assumes "owes s t h"
  shows "precompute_coeffs F inSize in0 in1 outSize fl t = One (k, b, kk) u \<Longrightarrow> owes s u (h + {#fst kk, fst b#})"
    and "precompute_coeffs F inSize in0 in1 outSize fl t = Zero u \<Longrightarrow> owes s u h"
    and "precompute_coeffs F inSize in0 in1 outSize fl t \<noteq> Waits u"
proof -
  obtain b1 t1 where a1: "p_alloc t = (b1, t1)" by (cases "p_alloc t")
  obtain b2 t2 where a2: "p_alloc t1 = (b2, t2)" by (cases "p_alloc t1")
  note h1 = owes_alloc [OF a1 assms]
  note h2 = owes_alloc [OF a2 h1]
  note defs = precompute_coeffs_def Let_def ImagingError_MemoryError_def a1 a2
  show "precompute_coeffs F inSize in0 in1 outSize fl t = One (k, b, kk) u \<Longrightarrow> owes s u (h + {#fst kk, fst b#})"
    using h2 by (auto simp: defs split: option.splits if_splits)
  show "precompute_coeffs F inSize in0 in1 outSize fl t = Zero u \<Longrightarrow> owes s u h"
    using assms h1 h2 owes_free [of s t2 h b1] by (auto simp: defs split: option.splits if_splits)
  show "precompute_coeffs F inSize in0 in1 outSize fl t \<noteq> Waits u"
    by (auto simp: defs split: option.splits if_splits)
qed

text \<open>The vertical pass gives back the two blocks of its coefficients and the image it read, when that was
  a temporary one.\<close>

lemma brings_resample_vertical:
  assumes V: "\<And>imOut im off k b kk. blocks_of (V imOut im off k b kk) = blocks_of imOut"
    and h: "owes s t (h + {#fst kk, fst b#} + (case imTemp of None \<Rightarrow> {#} | Some im \<Rightarrow> blocks_of im))"
  shows "brings s h (resample_vertical V ysize k b kk need imTemp imIn t)"
proof (cases need)
  case True
  have given: "owes s (free_at kk (free_at b (ImagingDelete imTemp u))) (h + x)"
    if "owes s u (h + {#fst kk, fst b#} + (case imTemp of None \<Rightarrow> {#} | Some im \<Rightarrow> blocks_of im) + x)" for u x
    using that by (intro owes_free_at) (cases imTemp; auto intro!: owes_ImagingDelete simp: ac_simps add_mset_commute)
  show ?thesis
    using True V given [where x = "{#}"] given
      brings_ImagingNewDirty [OF h, of "im_mode imIn" "im_xsize imIn" ysize]
    by (auto simp: resample_vertical_def split: outcome.splits)
next
  case False
  have "owes s (free_at kk (free_at b t)) (h + (case imTemp of None \<Rightarrow> {#} | Some im \<Rightarrow> blocks_of im))"
    using h by (intro owes_free_at) (simp add: add_mset_commute)
  then show ?thesis using False brings_ImagingCopy by (auto simp: resample_vertical_def Let_def split: option.splits)
qed

lemma brings_ImagingResampleInner:
  assumes H: "\<And>imOut im off k b kk. blocks_of (H imOut im off k b kk) = blocks_of imOut"
    and V: "\<And>imOut im off k b kk. blocks_of (V imOut im off k b kk) = blocks_of imOut"
    and h: "owes s t h"
  shows "brings s h (ImagingResampleInner F imIn xsize ysize fl box H V t)"
proof -
  obtain b0 b1 b2 b3 where box: "box = (b0, b1, b2, b3)" by (cases box)
  show ?thesis
  proof (cases "precompute_coeffs F (im_xsize imIn) b0 b2 xsize fl t")
    case (One hz u)
    obtain kh bh kkh where hz: "hz = (kh, bh, kkh)" by (cases hz)
    note p1 = One [unfolded hz]
    note h1 = owes_precompute_coeffs(1) [OF h p1]
    show ?thesis
    proof (cases "precompute_coeffs F (im_ysize imIn) b1 b3 ysize fl u")
      case (One vt v)
      obtain kv bv kkv where vt: "vt = (kv, bv, kkv)" by (cases vt)
      note p2 = One [unfolded vt]
      note h2 = owes_precompute_coeffs(1) [OF h1 p2]
      have free_h: "owes s (free_at kkh (free_at bh w)) x" if "owes s w (x + {#fst kkh, fst bh#})" for w x
        using that by (intro owes_free_at) (simp add: add_mset_commute)
      have free_v: "owes s (free_at kkv (free_at bv w)) x" if "owes s w (x + {#fst kkv, fst bv#})" for w x
        using that by (intro owes_free_at) (simp add: add_mset_commute)
      have "brings s h (resample_vertical V ysize kv bv kkv need None imIn (free_at kkh (free_at bh v)))" for need
        using h2 by (intro brings_resample_vertical [OF V] free_h) (simp add: ac_simps)
      moreover have "brings s h (case ImagingNewDirty m x y v of Waits w \<Rightarrow> Waits w
          | Zero w \<Rightarrow> Zero (free_at kkv (free_at bv (free_at kkh (free_at bh w))))
          | One im w \<Rightarrow> resample_vertical V ysize kv (apsnd f bv) kkv need (Some (H im imIn off kh bb kk))
              (H im imIn off kh bb kk) (free_at kkh (free_at bh w)))"
        for m x y f need off bb kk
      proof (cases "ImagingNewDirty m x y v")
        case (Zero w)
        then have "owes s w (h + {#fst kkh, fst bh#} + {#fst kkv, fst bv#})" using brings_ImagingNewDirty [OF h2, of m x y] by simp
        then have "owes s (free_at kkv (free_at bv (free_at kkh (free_at bh w)))) h"
          by (intro free_v free_h) (simp add: ac_simps)
        then show ?thesis using Zero by simp
      next
        case (One im w)
        then have "owes s w (h + {#fst kkh, fst bh#} + {#fst kkv, fst bv#} + blocks_of im)"
          using brings_ImagingNewDirty [OF h2, of m x y] by simp
        then have "brings s h (resample_vertical V ysize kv (apsnd f bv) kkv need (Some (H im imIn off kh bb kk))
              (H im imIn off kh bb kk) (free_at kkh (free_at bh w)))"
          by (intro brings_resample_vertical [OF V] free_h) (simp add: H add_mset_commute)
        then show ?thesis using One by simp
      qed simp
      ultimately show ?thesis
        using p1 p2 unfolding ImagingResampleInner_def box by (simp add: Let_def case_prod_beta' cong del: outcome.case_cong_weak)
    next
      case (Zero v)
      have "owes s (free_at kkh (free_at bh v)) h"
        using owes_precompute_coeffs(2) [OF h1 Zero] by (intro owes_free_at) (simp add: add_mset_commute)
      then show ?thesis using p1 Zero by (simp add: ImagingResampleInner_def box Let_def)
    qed (use owes_precompute_coeffs(3) [OF h1] in metis)
  next
    case (Zero u)
    then show ?thesis
      using owes_precompute_coeffs(2) [OF h Zero] by (simp add: ImagingResampleInner_def box Let_def)
  qed (use owes_precompute_coeffs(3) [OF h] in metis)
qed

lemma brings_ImagingResample:
  assumes "owes s t h"
  shows "brings s h (ImagingResample F big imIn xsize ysize which box t)"
  using brings_ImagingResampleInner [of "ImagingResampleHorizontal_8bpc F big" "ImagingResampleVertical_8bpc F big" s t h F imIn]
    brings_ImagingResampleInner [of "ImagingResampleHorizontal_16bpc F big" "ImagingResampleVertical_16bpc F big" s t h F imIn]
    brings_ImagingResampleInner [of "ImagingResampleHorizontal_32bpc F big" "ImagingResampleVertical_32bpc F big" s t h F imIn] assms
  by (auto simp: ImagingResample_def Let_def ImagingError_ModeError_def ImagingError_ValueError_def
      split: option.splits)

lemma blocks_of_lay_in [simp]: "blocks_of (lay_in src channels step im) = blocks_of im"
  by (simp add: lay_in_def)

lemma pil_resample_8u_owes:
  "owes s (snd (pil_resample_8u F big src w h channels step outw outh which dst dststep s)) {#}"
proof (cases "mode_of channels = None \<or> outw < 1 \<or> outh < 1")
  case False
  then obtain mode where m: "mode_of channels = Some mode" by auto
  have new: "brings s {#} (ImagingNewDirty mode w h (s\<lparr>p_error := None\<rparr>))"
    by (rule brings_ImagingNewDirty) (simp add: owes_refl)
  show ?thesis
  proof (cases "ImagingNewDirty mode w h (s\<lparr>p_error := None\<rparr>)")
    case (Zero t)
    then show ?thesis using False m new by (auto simp: pil_resample_8u_def)
  next
    case (One im t)
    let ?im = "lay_in src channels step im"
    have "owes s t (blocks_of ?im)" using new One by simp
    note brings_ImagingResample [OF this, of F big ?im outw outh which
        "(f_of_int F 0, f_of_int F 0, f_round32 F (f_of_int F w), f_round32 F (f_of_int F h))"]
    moreover have "owes s (ImagingDelete (Some ?im) u) x" if "owes s u (blocks_of im + x)" for u x
      using that by (intro owes_ImagingDelete) (simp add: ac_simps)
    moreover have "owes s (ImagingDelete (Some out) u) {#}" if "owes s u (blocks_of out)" for out u
      using that by (intro owes_ImagingDelete) simp
    ultimately show ?thesis using False m One
      by (auto simp: pil_resample_8u_def Let_def split: outcome.splits)
  qed (simp add: ImagingNewDirty_not_Waits [of mode w h])
qed (auto simp: pil_resample_8u_def owes_refl split: option.splits)

section \<open>The same size\<close>

lemma ImagingNewDirty_ok:
  assumes "p_mallocs s = []" and "0 \<le> xsize" "xsize * 4 < 2 ^ 31" "0 \<le> ysize" and "strlen mode < IMAGING_MODE_LENGTH"
  shows "\<exists>im t. ImagingNewDirty mode xsize ysize s = One im t \<and> image_ok im \<and> im_mode im = mode \<and>
    im_bands im = strlen mode \<and> im_xsize im = xsize \<and> im_ysize im = ysize \<and> p_mallocs t = []"
proof -
  let ?p = "if strlen mode = 1 then 1 else 4 :: int"
  have p: "0 \<le> xsize * ?p" "xsize * ?p < 2 ^ 31" using assms(2,3) by auto
  then have "c_int (xsize * ?p) = xsize * ?p" by (intro c_int_id) auto
  moreover have "nat (ysize * (xsize * ?p)) \<le> nat (max 1 ysize) * nat (max 1 (xsize * ?p))"
    using p assms(4) by (subst nat_mult_distrib) (auto intro!: mult_le_mono)
  ultimately show ?thesis
    using assms by (auto simp: ImagingNewDirty_def p_alloc_def Let_def image_ok_def imaging_types)
qed

definition coeffs_fit :: "'d fp \<Rightarrow> 'd pil_filter \<Rightarrow> 'd \<Rightarrow> 'd \<Rightarrow> int \<Rightarrow> bool" where
  "coeffs_fit F fl in0 in1 n \<longleftrightarrow>
     (let scale = f_div F (f_round32 F (f_sub F in1 in0)) (f_of_int F n);
          support = f_mul F (fl_support fl) (if f_lt F scale (f_lit F 1) then f_lit F 1 else scale)
      in n \<le> INT_MAX sdiv c_int (c_int (f_int F (f_ceil F support) * 2 + 1) * 8))"

lemma precompute_coeffs_ok:
  assumes "p_mallocs s = []" and "coeffs_fit F fl in0 in1 n"
  shows "\<exists>k b kk t. precompute_coeffs F inSize in0 in1 n fl s = One (k, b, kk) t \<and> p_mallocs t = []"
  using assms by (auto simp: precompute_coeffs_def coeffs_fit_def Let_def p_alloc_def)

lemma ImagingCopy_ok:
  assumes "p_mallocs s = []" and ok: "image_ok im" and "im_xsize im * 4 < 2 ^ 31" and "im_bands im = strlen (im_mode im)"
    and "strlen (im_mode im) < IMAGING_MODE_LENGTH"
  shows "\<exists>out t. ImagingCopy im s = One out t \<and> image_ok out \<and> im_bands out = im_bands im \<and>
    im_xsize out = im_xsize im \<and> im_ysize out = im_ysize im \<and>
    (\<forall>y i. 0 \<le> y \<and> y < im_ysize im \<and> 0 \<le> i \<and> i < im_linesize im \<longrightarrow> im_get out y i = im_get im y i)"
proof -
  have size: "0 \<le> im_xsize im" "0 \<le> im_ysize im" using ok by (auto simp: image_ok_def)
  obtain out t where new: "ImagingNewDirty (im_mode im) (im_xsize im) (im_ysize im) s = One out t" and out: "image_ok out"
    "im_bands out = im_bands im" "im_xsize out = im_xsize im" "im_ysize out = im_ysize im"
    using ImagingNewDirty_ok [OF assms(1) size(1) assms(3) size(2) assms(5)] assms(4) by auto
  then have ls: "im_linesize out = im_linesize im" using ok by (auto simp: image_ok_def)
  let ?n = "nat (im_ysize im) * nat (im_linesize im)"
  let ?c = "im_write out (memcpy_ps 0 (the_block im) 0 ?n)"
  have "im_get ?c y i = im_get im y i" if "0 \<le> y" "y < im_ysize im" "0 \<le> i" "i < im_linesize im" for y i
  proof -
    have at: "im_at im y i < ?n" "im_at out y i = im_at im y i"
      using im_at_less [OF ok that] that ls by (auto simp: im_at_def nat_mult_distrib)
    have "pokes (the_block out) (map (\<lambda>k. (k, the_block im ! k)) [0..<?n]) ! im_at im y i = the_block im ! im_at im y i"
      using at(1) image_ok_block [OF out(1)] out ls size
      by (intro pokes_map [where a = "\<lambda>k. k"]) (auto simp: nat_mult_distrib)
    then show ?thesis using at(2) by (simp add: im_get_def the_block_write [OF out(1)] memcpy_ps_def)
  qed
  moreover have "ImagingCopy im s = One (if im_ysize im > 0 \<and> im_linesize im > 0 then ?c else out) t"
    by (simp add: ImagingCopy_def andthen_def new ret_def)
  ultimately show ?thesis using out image_ok_write [OF out(1)] by (cases "im_ysize im > 0 \<and> im_linesize im > 0") auto
qed

lemma concat_map_concat: "concat (map (\<lambda>y. concat (map (f y) X)) Y) = concat (map (\<lambda>(y, x). f y x) (List.product Y X))"
  by (induction Y) (auto simp: comp_def)

lemma mode_of_bands: "mode_of channels = Some mode \<Longrightarrow> strlen mode = nat channels \<and> (channels = 1 \<or> channels = 3 \<or> channels = 4)"
  by (auto simp: mode_of_def strlen_def cstr_def split: if_splits)

lemma lay_in_get:
  assumes ok: "image_ok im" and "mode_of channels = Some mode" and "im_bands im = strlen mode"
    and at: "0 \<le> y" "y < im_ysize im" "0 \<le> x" "x < im_xsize im" "b < nat channels"
  shows "im_get (lay_in src channels step im) y (x * im_pixelsize im + int b) =
    src ! (nat y * step + nat x * nat channels + b)"
proof -
  have ps: "im_pixelsize im = (if channels = 1 then 1 else 4)" "nat channels \<le> nat (im_pixelsize im)"
    "channels = 1 \<or> channels = 3 \<or> channels = 4"
    using assms(2,3) ok by (auto simp: mode_of_def image_ok_def strlen_def cstr_def split: if_splits)
  have ls: "im_linesize im \<ge> 0" using ok by (auto simp: image_ok_def)
  let ?f = "\<lambda>y x. map (\<lambda>b. (im_at im y (x * im_pixelsize im + int b), src ! (nat y * step + nat x * nat channels + b)))
    [0..<nat channels]"
  have "im_at im (int y) 0 + x = im_at im (int y) (int x)" for y x
    using ls nat_add_distrib [of "int y * im_linesize im" "int x"] by (simp add: im_at_def)
  then have row: "memcpy_ps (im_at im (int y) 0) src (y * step) n =
      concat (map (\<lambda>x. [(im_at im (int y) (int x), src ! (y * step + x))]) [0..<n])" for y n
    by (simp add: memcpy_ps_def concat_map_singleton)
  have "lay_in src channels step im = im_write im (pixels im ?f)"
  proof (cases "channels = 1")
    case True
    then show ?thesis using ps(1)
      by (simp add: lay_in_def pixels_def row concat_map_concat del: concat_map_singleton)
  next
    case False
    then show ?thesis using ps(1)
      by (simp add: lay_in_def pixels_def concat_map_concat)
  qed
  then show ?thesis using pixels_get [OF ok, of ?f "\<lambda>y x b. src ! (nat y * step + nat x * nat channels + b)" "nat channels" y x b] at ps(2)
    by simp
qed

lemma take_out_nth:
  assumes out: "image_ok out" "mode_of channels = Some mode" "im_bands out = strlen mode"
    "im_xsize out = outw" "im_ysize out = outh"
    and dst: "nat outw * nat channels \<le> dststep" "(nat outh - 1) * dststep + nat outw * nat channels \<le> length dst"
  shows "y < nat outh \<Longrightarrow> x < nat outw \<Longrightarrow> b < nat channels \<Longrightarrow>
      take_out out channels outw outh dst dststep ! (y * dststep + x * nat channels + b) =
        im_get out (int y) (int x * im_pixelsize out + int b)"
    and "(\<And>y i. y < nat outh \<Longrightarrow> i < nat outw * nat channels \<Longrightarrow> j \<noteq> y * dststep + i) \<Longrightarrow>
      take_out out channels outw outh dst dststep ! j = dst ! j"
    and "length (take_out out channels outw outh dst dststep) = length dst"
proof -
  let ?L = "List.product (List.product [0..<nat outh] [0..<nat outw]) [0..<nat channels]"
  let ?a = "\<lambda>((y, x), b). y * dststep + x * nat channels + b"
  let ?v = "\<lambda>((y, x), b). im_get out (int y) (int x * im_pixelsize out + int b)"
  have ps: "im_pixelsize out = (if channels = 1 then 1 else 4)" "channels = 1 \<or> channels = 3 \<or> channels = 4"
    using out by (auto simp: mode_of_def image_ok_def strlen_def cstr_def split: if_splits)
  have ls: "im_linesize out \<ge> 0" using out(1) by (auto simp: image_ok_def)
  have "im_at out (int y) 0 + x = im_at out (int y) (int x)" for y x
    using ls nat_add_distrib [of "int y * im_linesize out" "int x"] by (simp add: im_at_def)
  then have row: "memcpy_ps (y * dststep) (the_block out) (im_at out (int y) 0) n =
      concat (map (\<lambda>x. [(y * dststep + x, im_get out (int y) (int x))]) [0..<n])" for y n
    by (simp add: memcpy_ps_def concat_map_singleton im_get_def)
  have "take_out out channels outw outh dst dststep = pokes dst (concat (map (\<lambda>p. map (\<lambda>b. (?a (p, b), ?v (p, b))) [0..<nat channels])
      (List.product [0..<nat outh] [0..<nat outw])))"
    using ps by (cases "channels = 1")
      (simp_all add: take_out_def row concat_map_concat case_prod_beta' del: concat_map_singleton)
  then have w: "take_out out channels outw outh dst dststep = pokes dst (map (\<lambda>z. (?a z, ?v z)) ?L)"
    by (simp only: concat_map_product [where h = "\<lambda>z. (?a z, ?v z)"])
  have in_row: "x * nat channels + b < nat outw * nat channels" if "x < nat outw" "b < nat channels" for x b
  proof -
    have "x * nat channels + b < Suc x * nat channels" using that by simp
    also have "\<dots> \<le> nat outw * nat channels" using that by (intro mult_le_mono1) simp
    finally show ?thesis .
  qed
  have "inj_on ?a (set ?L)"
  proof (rule inj_onI, clarsimp)
    fix y x b z u c
    assume *: "x < nat outw" "b < nat channels" "u < nat outw" "c < nat channels"
      "y * dststep + x * nat channels + b = z * dststep + u * nat channels + c"
    have i: "x * nat channels + b < dststep" "u * nat channels + c < dststep"
      using in_row [of x b] in_row [of u c] * dst(1) by simp_all
    have "y = (y * dststep + (x * nat channels + b)) div dststep" "z = (z * dststep + (u * nat channels + c)) div dststep"
      using i by simp_all
    then have yz: "y = z" using * by (simp add: add.assoc)
    then have "x * nat channels + b = u * nat channels + c" using * by simp
    moreover have "x = (x * nat channels + b) div nat channels" "u = (u * nat channels + c) div nat channels"
      using * by simp_all
    ultimately show "y = z \<and> x = u \<and> b = c" using yz by auto
  qed
  note inj = this
  show "take_out out channels outw outh dst dststep ! (y * dststep + x * nat channels + b) =
      im_get out (int y) (int x * im_pixelsize out + int b)"
    if "y < nat outh" "x < nat outw" "b < nat channels"
  proof -
    have "y * dststep \<le> (nat outh - 1) * dststep" using that by (intro mult_le_mono1) simp
    then have "y * dststep + x * nat channels + b < length dst" using in_row [OF that(2,3)] dst(2) by linarith
    then have "pokes dst (map (\<lambda>z. (?a z, ?v z)) ?L) ! ?a ((y, x), b) = ?v ((y, x), b)"
      using inj that by (intro pokes_map) (simp_all add: distinct_product)
    then show ?thesis by (simp add: w)
  qed
  show "take_out out channels outw outh dst dststep ! j = dst ! j"
    if "\<And>y i. y < nat outh \<Longrightarrow> i < nat outw * nat channels \<Longrightarrow> j \<noteq> y * dststep + i"
    unfolding w
  proof (rule nth_pokes_other, rule notI, clarsimp)
    fix y x b
    assume "j = y * dststep + x * nat channels + b" "y < nat outh" "x < nat outw" "b < nat channels"
    then show False using that [of y "x * nat channels + b"] in_row [of x b] by simp
  qed
qed (simp add: take_out_def)

lemma pil_resample_8u_same_size:
  assumes m: "mode_of channels = Some mode" and size: "0 < w" "w * 4 < 2 ^ 31" "0 < h"
    and fl: "filter_of F which = Some fl" and mem: "p_mallocs s = []"
    and zero: "f_eq F (f_of_int F 0) (f_lit F 0)"
    and same: "f_eq F (f_round32 F (f_of_int F w)) (f_round32 F (f_of_int F w))"
      "f_eq F (f_round32 F (f_of_int F h)) (f_round32 F (f_of_int F h))"
    and fit: "coeffs_fit F fl (f_of_int F 0) (f_round32 F (f_of_int F w)) w"
      "coeffs_fit F fl (f_of_int F 0) (f_round32 F (f_of_int F h)) h"
    and dst: "nat w * nat channels \<le> dststep" "(nat h - 1) * dststep + nat w * nat channels \<le> length dst"
  shows "\<exists>d t. pil_resample_8u F big src w h channels step w h which dst dststep s = ((None, d), t) \<and>
    length d = length dst \<and>
    (\<forall>y < nat h. \<forall>i < nat w * nat channels. d ! (y * dststep + i) = src ! (y * step + i)) \<and>
    (\<forall>j. (\<forall>y < nat h. \<forall>i < nat w * nat channels. j \<noteq> y * dststep + i) \<longrightarrow> d ! j = dst ! j)"
proof -
  have mode: "strlen mode < IMAGING_MODE_LENGTH" "mode \<noteq> ''P''" "mode \<noteq> ''1''" "0 < channels"
    using m by (auto simp: mode_of_def IMAGING_MODE_LENGTH_def strlen_def cstr_def split: if_splits)
  obtain im t where new: "ImagingNewDirty mode w h (s\<lparr>p_error := None\<rparr>) = One im t" and im: "image_ok im" "im_mode im = mode"
    "im_bands im = strlen mode" "im_xsize im = w" "im_ysize im = h" "p_mallocs t = []"
    using ImagingNewDirty_ok [of "s\<lparr>p_error := None\<rparr>" w h mode] mem size mode by auto
  let ?im = "lay_in src channels step im"
  have im': "image_ok ?im" "im_mode ?im = mode" "im_bands ?im = strlen mode" "im_xsize ?im = w" "im_ysize ?im = h"
    "im_type ?im = IMAGING_TYPE_UINT8" "im_pixelsize ?im = im_pixelsize im"
    using im image_ok_write [OF im(1)] by (auto simp: lay_in_def image_ok_def)
  obtain k1 b1 kk1 t1 where p1: "precompute_coeffs F w (f_of_int F 0) (f_round32 F (f_of_int F w)) w fl t = One (k1, b1, kk1) t1" "p_mallocs t1 = []"
    using precompute_coeffs_ok [OF im(6) fit(1)] by blast
  obtain k2 b2 kk2 t2 where p2: "precompute_coeffs F h (f_of_int F 0) (f_round32 F (f_of_int F h)) h fl t1 = One (k2, b2, kk2) t2" "p_mallocs t2 = []"
    using precompute_coeffs_ok [OF p1(2) fit(2)] by blast
  let ?u = "free_at kk2 (free_at b2 (free_at kk1 (free_at b1 t2)))"
  have "p_mallocs ?u = []" using p2(2) by (simp add: free_at_def p_free_def)
  then obtain out v where copy: "ImagingCopy ?im ?u = One out v" and out: "image_ok out" "im_bands out = im_bands ?im"
    "im_xsize out = w" "im_ysize out = h"
    and get: "\<And>y i. 0 \<le> y \<Longrightarrow> y < h \<Longrightarrow> 0 \<le> i \<Longrightarrow> i < im_linesize ?im \<Longrightarrow> im_get out y i = im_get ?im y i"
    using ImagingCopy_ok [of ?u ?im] im' mode(1) size(2) by auto
  have "ImagingResample F big ?im w h which (f_of_int F 0, f_of_int F 0, f_round32 F (f_of_int F w), f_round32 F (f_of_int F h)) t = One out v"
    using im' mode fl p1 p2 zero same copy
    by (simp add: ImagingResample_def ImagingResampleInner_def resample_vertical_def Let_def imaging_types case_prod_beta')
  then have r: "pil_resample_8u F big src w h channels step w h which dst dststep s =
      ((None, take_out out channels w h dst dststep), ImagingDelete (Some out) (ImagingDelete (Some ?im) v))"
    using m size new by (simp add: pil_resample_8u_def Let_def)
  note o = take_out_nth [OF out(1) m _ out(3,4) dst, unfolded out(2) im'(3), OF refl]
  have "take_out out channels w h dst dststep ! (y * dststep + i) = src ! (y * step + i)"
    if "y < nat h" "i < nat w * nat channels" for y i
  proof -
    let ?x = "i div nat channels" and ?b = "i mod nat channels"
    have xb: "?x < nat w" "?b < nat channels" "?x * nat channels + ?b = i"
      using that mode(4) by (auto simp: less_mult_imp_div_less)
    have ps: "im_pixelsize out = im_pixelsize ?im" "nat channels \<le> nat (im_pixelsize ?im)" "im_linesize ?im = w * im_pixelsize ?im"
      "0 < im_pixelsize ?im"
      using out(1-4) im'(1,3-5) mode_of_bands [OF m] by (auto simp: image_ok_def)
    have "int ?x * im_pixelsize ?im + int ?b < (int ?x + 1) * im_pixelsize ?im" using xb(2) ps(2) by (simp add: algebra_simps)
    also have "\<dots> \<le> w * im_pixelsize ?im" using xb(1) ps(4) by (intro mult_right_mono) auto
    finally have "im_get out (int y) (int ?x * im_pixelsize ?im + int ?b) = im_get ?im (int y) (int ?x * im_pixelsize ?im + int ?b)"
      using that ps(3,4) by (intro get) auto
    also have "\<dots> = src ! (y * step + ?x * nat channels + ?b)"
      using lay_in_get [OF im(1) m im(3), of "int y" "int ?x" ?b] that xb im im'(7) by simp
    finally show ?thesis using o(1) [OF that(1) xb(1,2)] xb(3) ps(1) by (simp add: add.assoc)
  qed
  with r o show ?thesis by auto
qed

end
