(* ===== verification/Pil_Properties.thy ===== *)
theory Pil_Properties
  imports Pil_Correct
begin

text \<open>
  What the resampler promises, with the doubles it computes in instantiated by 64-bit fixed-point numbers
  where a concrete input is looked at.
\<close>

section \<open>A concrete arithmetic\<close>

text \<open>Numbers with 24 bits behind the point, in two 32-bit cells; the transcendental functions are not used by
  the filters looked at here.\<close>

definition fixed :: "rat \<Rightarrow> 64 word" where
  "fixed r = word_of_int \<lfloor>r * 2 ^ 24\<rfloor>"

definition fixed_fp :: "64 word fp" where
  "fixed_fp = \<lparr>f_lit = fixed, f_lit32 = fixed, f_of_int = (\<lambda>i. word_of_int (i * 2 ^ 24)), f_add = (+), f_sub = (-),
     f_mul = (\<lambda>a b. word_of_int (sint a * sint b div 2 ^ 24)), f_div = (\<lambda>a b. word_of_int (sint a * 2 ^ 24 div sint b)),
     f_neg = uminus, f_lt = (\<lambda>a b. sint a < sint b), f_le = (\<lambda>a b. sint a \<le> sint b), f_eq = (=),
     f_ceil = (\<lambda>a. word_of_int (- ((- sint a) div 2 ^ 24) * 2 ^ 24)), f_int = (\<lambda>a. sint a sdiv 2 ^ 24), f_sin = id, f_cos = id,
     f_pi = fixed (355/113), f_round32 = id, f_cells = (\<lambda>a. [ucast a, ucast (drop_bit 32 a)]),
     f_of_cells = (\<lambda>cs. ucast (cs ! 0) OR push_bit 32 (ucast (cs ! 1))),
     f_of_f32 = ucast, f_to_f32 = ucast\<rparr>"

lemma fixed_cells: "cells_ok fixed_fp"
proof -
  have "ucast (ucast a :: 32 word) OR push_bit 32 (ucast (ucast (drop_bit 32 a) :: 32 word)) = a" for a :: "64 word"
    by (rule bit_word_eqI) (auto simp: bit_simps)
  then show ?thesis by (simp add: cells_ok_def fixed_fp_def)
qed

text \<open>An image of one band with these rows.\<close>

definition grey :: "int \<Rightarrow> int \<Rightarrow> byte list \<Rightarrow> imaging" where
  "grey w h bytes = \<lparr>im_self = 0, im_mode = ''L'', im_type = IMAGING_TYPE_UINT8, im_bands = 1, im_xsize = w, im_ysize = h, im_pixelsize = 1,
     im_linesize = w, im_lines = Some 2, im_block = Some (1, bytes)\<rparr>"

definition pil_idle :: pil_sys where
  "pil_idle = \<lparr>p_mallocs = [], p_next = 0, p_freed = {#}, p_error = None\<rparr>"

section \<open>The properties\<close>

text \<open>C32. A pass computes the weighted sum. In every channel of every pixel of the image it writes, for images of one,
  three or four bands (the byte that pads a pixel of three is not a channel), the horizontal pass over 8-bit channels
  leaves the sum of the bytes of that channel under the filter, each times its weight, rounded to nearest and
  saturated to a byte, computed without overflow, whatever the byte order of the machine; although the
  coefficients are converted in the buffer that holds them as doubles. The weight is the coefficient times 2 to
  the 22nd with half a unit added away from zero and the fraction dropped: where the arithmetic is exact,
  the coefficient rounded to 22 fractional bits, half away from zero.\<close>

theorem horizontal_pass_is_weighted_sum:
  assumes "cells_ok F" and "image_ok imOut" "image_ok imIn"
    and "im_bands imOut = im_bands imIn" "im_bands imIn \<in> {1, 3, 4}"
    and "0 \<le> yy" "yy < im_ysize imOut" "0 \<le> xx" "xx < im_xsize imOut" "b < im_bands imIn"
    and "length prekk = nat (im_xsize imOut) * nat ksize" "bounds ! nat xx = (xmin, xmax)" "0 \<le> ksize" "xmax \<le> ksize"
    and "weights_fit (\<lambda>x. fixed22 F (prekk ! (nat xx * nat ksize + x))) (nat xmax)"
  shows "im_get (ImagingResampleHorizontal_8bpc F big imOut imIn offset ksize bounds prekk)
      yy (xx * im_pixelsize imOut + int b) =
    filtered (\<lambda>x. im_get imIn (yy + offset) ((x + xmin) * im_pixelsize imIn + int b))
      (\<lambda>x. fixed22 F (prekk ! (nat xx * nat ksize + x))) (nat xmax) \<and>
    (\<forall>val k. exact22 F val k \<longrightarrow> fixed22 F k = half_away (val k * 2 ^ 22))"
  by (intro conjI ImagingResampleHorizontal_8bpc_get [OF assms] allI impI fixed22_exact)

theorem horizontal_pass_is_weighted_sum_witness:
  "im_get (ImagingResampleHorizontal_8bpc fixed_fp False (grey 1 1 [0]) (grey 2 1 [10, 31]) 0 2 [(0, 2)] [fixed (1/2), fixed (1/2)]) 0 0 = 21 \<and>
   exact22 fixed_fp (\<lambda>k. of_int (sint k) / 2 ^ 24) (fixed (1/2)) \<and> fixed22 fixed_fp (fixed (1/2)) = half_away (1/2 * 2 ^ 22)"
proof -
  let ?val = "\<lambda>k :: 64 word. of_int (sint k) / 2 ^ 24 :: rat"
  have w: "fixed22 fixed_fp (fixed (1/2)) = 2 ^ 21" by code_simp
  have ok: "image_ok (grey 1 1 [0])" "image_ok (grey 2 1 [10, 31])" by (simp_all add: image_ok_def grey_def)
  have exact: "exact22 fixed_fp ?val (fixed (1/2))" by code_simp
  have "weights_fit (\<lambda>x. fixed22 fixed_fp ([fixed (1/2), fixed (1/2)] ! (nat 0 * nat 2 + x))) (nat 2)"
    using w by (simp add: weights_fit_def numeral_2_eq_2)
  note pass = horizontal_pass_is_weighted_sum [OF fixed_cells ok, where yy = 0 and xx = 0 and b = 0 and ksize = 2 and
      bounds = "[(0, 2)]" and xmin = 0 and xmax = 2 and prekk = "[fixed (1/2), fixed (1/2)]" and big = False and offset = 0,
      OF _ _ _ _ _ _ _ _ _ _ _ this]
  have "im_get (ImagingResampleHorizontal_8bpc fixed_fp False (grey 1 1 [0]) (grey 2 1 [10, 31]) 0 2 [(0, 2)] [fixed (1/2), fixed (1/2)]) 0 0 =
      filtered (\<lambda>x. im_get (grey 2 1 [10, 31]) 0 x) (\<lambda>x. fixed22 fixed_fp ([fixed (1/2), fixed (1/2)] ! x)) 2"
    using pass by (simp add: grey_def)
  also have "\<dots> = 21" by code_simp
  finally have "im_get (ImagingResampleHorizontal_8bpc fixed_fp False (grey 1 1 [0]) (grey 2 1 [10, 31]) 0 2 [(0, 2)] [fixed (1/2), fixed (1/2)]) 0 0 = 21" .
  moreover have "?val (fixed (1/2)) = 1/2" by code_simp
  moreover have "fixed22 fixed_fp (fixed (1/2)) = half_away (?val (fixed (1/2)) * 2 ^ 22)"
    using pass exact by (simp add: grey_def)
  ultimately show ?thesis using exact by simp
qed

text \<open>C33. Resampling to the size the picture has gives it back: with any filter the caller may name, when its
  allocations succeed and the table of coefficients is not refused for its size, every byte
  of every row arrives at the destination unchanged, bytes of the destination outside the rows are left alone, and the
  answer is that nothing went wrong.\<close>

theorem same_size_is_identity:
  assumes "mode_of channels = Some mode" and "0 < w" "w * 4 < 2 ^ 31" "0 < h"
    and "filter_of F which = Some fl" and "p_mallocs s = []"
    and "f_eq F (f_of_int F 0) (f_lit F 0)"
    and "f_eq F (f_round32 F (f_of_int F w)) (f_round32 F (f_of_int F w))"
      "f_eq F (f_round32 F (f_of_int F h)) (f_round32 F (f_of_int F h))"
    and "coeffs_fit F fl (f_of_int F 0) (f_round32 F (f_of_int F w)) w"
      "coeffs_fit F fl (f_of_int F 0) (f_round32 F (f_of_int F h)) h"
    and "nat w * nat channels \<le> dststep" "(nat h - 1) * dststep + nat w * nat channels \<le> length dst"
  shows "\<exists>d t. pil_resample_8u F big src w h channels step w h which dst dststep s = ((None, d), t) \<and>
    length d = length dst \<and>
    (\<forall>y < nat h. \<forall>i < nat w * nat channels. d ! (y * dststep + i) = src ! (y * step + i)) \<and>
    (\<forall>j. (\<forall>y < nat h. \<forall>i < nat w * nat channels. j \<noteq> y * dststep + i) \<longrightarrow> d ! j = dst ! j)"
  by (rule pil_resample_8u_same_size [OF assms])

theorem same_size_is_identity_witness:
  "\<exists>t. pil_resample_8u fixed_fp False [7, 9] 2 1 1 2 2 1 IMAGING_TRANSFORM_BOX [0, 0] 2 pil_idle = ((None, [7, 9]), t)"
proof -
  let ?fl = "\<lparr>fl_filter = box_filter fixed_fp, fl_support = f_lit fixed_fp (1/2)\<rparr>"
  have fl: "filter_of fixed_fp IMAGING_TRANSFORM_BOX = Some ?fl" by (simp add: filter_of_def)
  have z: "f_eq fixed_fp (f_of_int fixed_fp 0) (f_lit fixed_fp 0)" by code_simp
  have fit: "coeffs_fit fixed_fp ?fl (f_of_int fixed_fp 0) (f_round32 fixed_fp (f_of_int fixed_fp 2)) 2"
    "coeffs_fit fixed_fp ?fl (f_of_int fixed_fp 0) (f_round32 fixed_fp (f_of_int fixed_fp 1)) 1"
    by code_simp+
  have "\<exists>d t. pil_resample_8u fixed_fp False [7, 9] 2 1 1 2 2 1 IMAGING_TRANSFORM_BOX [0, 0] 2 pil_idle = ((None, d), t) \<and>
      length d = length [0, 0 :: byte] \<and> (\<forall>y < nat 1. \<forall>i < nat 2 * nat 1. d ! (y * 2 + i) = [7, 9] ! (y * 2 + i)) \<and>
      (\<forall>j. (\<forall>y < nat 1. \<forall>i < nat 2 * nat 1. j \<noteq> y * 2 + i) \<longrightarrow> d ! j = [0, 0 :: byte] ! j)"
    by (rule same_size_is_identity [OF _ _ _ _ fl _ z _ _ fit]) (simp_all add: mode_of_def pil_idle_def fixed_fp_def)
  then obtain d t where r: "pil_resample_8u fixed_fp False [7, 9] 2 1 1 2 2 1 IMAGING_TRANSFORM_BOX [0, 0] 2 pil_idle = ((None, d), t)"
    and d: "length d = 2" "d ! 0 = 7" "d ! 1 = 9" by (auto simp: numeral_2_eq_2)
  have "d = [7, 9]" using d by (intro nth_equalityI) (auto simp: less_2_cases_iff)
  then show ?thesis using r by blast
qed

text \<open>C34. Nothing leaks and nothing is freed twice. However the allocations of a call come out, whatever the sizes,
  the filter and the arithmetic, when it returns the blocks it gave to \<open>free\<close>, counted with their
  multiplicity, are exactly the blocks it was handed, each once: none is left over, none is freed a second time and
  no block of anyone else is touched.\<close>

theorem resample_frees_everything:
  "p_freed (snd (pil_resample_8u F big src w h channels step outw outh which dst dststep s)) =
     p_freed s + mset [p_next s..<p_next (snd (pil_resample_8u F big src w h channels step outw outh which dst dststep s))] \<and>
   p_next s \<le> p_next (snd (pil_resample_8u F big src w h channels step outw outh which dst dststep s))"
  using pil_resample_8u_owes [of s F big src w h channels step outw outh which dst dststep] by (simp add: owes_def)

text \<open>The table of 1280 bytes saturates as a comparison would, for every 32-bit sum: it is read inside its bounds and
  owes there 0 for what is below, 255 for what is above, and the value shifted down by the fractional bits between.\<close>

theorem clip8_saturates:
  "clip8 v = CLIP8 (sint v div 2 ^ 22) \<and> nat (640 + sint (signed_drop_bit PRECISION_BITS v)) < length clip8_lookups"
proof -
  have "sint (signed_drop_bit PRECISION_BITS v) = sint v div 2 ^ 22"
    by (simp add: sint_signed_drop_bit_eq drop_bit_eq_div PRECISION_BITS_def)
  then show ?thesis using clip8_eq clip8_index [of v] by (simp add: clip8_lookups_def)
qed

end
