(* ===== verification/Tf_State.thy ===== *)
theory Tf_State
  imports Coco_Prelude
begin

text \<open>
  The TensorFlow back end (modules/tensorflow/backend.c): its limits, the recipe of an
  operation, the slot table, the compiled closures and the rest of its static state. The C
  library of TensorFlow is a parameter: the record \<open>tf\<close> of the calls the back end makes, over a
  state of the library's own. A call of the library answers a message (\<open>Inl\<close>, the status
  the back end finds behind it) or its result.
\<close>

section \<open>Limits and types\<close>

definition TF_SLOTS :: int where "TF_SLOTS = 65536"
definition TF_MAXIN :: nat where "TF_MAXIN = 65"
definition TF_MAXDIM :: nat where "TF_MAXDIM = 8"
definition TF_MAXLEAF :: nat where "TF_MAXLEAF = 4096"
definition TF_MAXNODE :: nat where "TF_MAXNODE = 8192"
definition TF_MAXENTRY :: nat where "TF_MAXENTRY = 4096"
definition TF_MAXPARAM :: nat where "TF_MAXPARAM = 64"
definition TF_SCALARS :: nat where "TF_SCALARS = 256"

lemmas tf_limits = TF_SLOTS_def TF_MAXIN_def TF_MAXDIM_def TF_MAXLEAF_def TF_MAXNODE_def TF_MAXENTRY_def
  TF_MAXPARAM_def TF_SCALARS_def

text \<open>The element types of TensorFlow the back end names, by their numbers.\<close>

type_synonym dtype = nat

definition TF_FLOAT :: dtype where "TF_FLOAT = 1"
definition TF_DOUBLE :: dtype where "TF_DOUBLE = 2"
definition TF_INT32 :: dtype where "TF_INT32 = 3"
definition TF_INT64 :: dtype where "TF_INT64 = 9"

lemmas tf_dtypes = TF_FLOAT_def TF_DOUBLE_def TF_INT32_def TF_INT64_def

text \<open>A tensor on the host: an integer element is its value, a floating-point one its bits.\<close>

record tensor =
  t_dtype :: dtype
  t_shape :: "int list"
  t_data :: "int list"

text \<open>A recipe: \<open>sp_in\<close> are handles; the first \<open>sp_list_n\<close> of them, when there are any, are one input list.\<close>

record opspec =
  sp_op :: string
  sp_in :: "int list"
  sp_list_n :: nat
  sp_types :: "(string \<times> dtype) list"
  sp_ints :: "(string \<times> int) list"
  sp_bools :: "(string \<times> bool) list"

definition no_spec :: opspec where
  "no_spec = \<lparr>sp_op = '''', sp_in = [], sp_list_n = 0, sp_types = [], sp_ints = [], sp_bools = []\<rparr>"

datatype kind = K_FREE | K_VALUE | K_NODE

record tf_slot =
  sl_kind :: kind
  sl_eh :: "nat option"
  sl_val :: "tensor option"
  sl_spec :: opspec
  sl_refs :: nat
  sl_released :: bool
  sl_ckey :: bool
  sl_is_param :: bool
  sl_under_param :: bool
  sl_shape :: "int list"
  sl_shape_known :: bool
  sl_dtype :: dtype

text \<open>A slot after \<open>memset(0)\<close>.\<close>

definition zero_slot :: tf_slot where
  "zero_slot = \<lparr>sl_kind = K_FREE, sl_eh = None, sl_val = None, sl_spec = no_spec, sl_refs = 0, sl_released = False,
     sl_ckey = False, sl_is_param = False, sl_under_param = False, sl_shape = [], sl_shape_known = False, sl_dtype = 0\<rparr>"

text \<open>The nodes of a graph under construction; an output of one is its place in the graph, and
  \<open>None\<close> is an output that names no operation.\<close>

datatype gnode = G_const tensor | G_placeholder dtype "int list" | G_op opspec "nat option list" | G_grad

record closure =
  c_leaves :: "int list"
  c_nodes :: "int list"
  c_want :: "bool list"
  c_key :: string

record entry =
  en_key :: string
  en_hash :: "64 word"
  en_graph :: "gnode list"
  en_ph :: "nat list"
  en_outs :: "nat list"
  en_in_leaf :: "nat list"
  en_out_node :: "nat list"
  en_grads :: "nat option list"
  en_grad_at :: "nat option list"
  en_noutputs :: nat
  en_calls :: int
  en_fn :: bool
  en_fname :: string

section \<open>The library\<close>

text \<open>
  The first group makes, copies, reads and deletes tensor handles (\<open>None\<close> is the null pointer);
  \<open>execute_op\<close> is \<open>TFE_NewOp\<close>, the attributes, the inputs and \<open>TFE_Execute\<close>: it runs the operation
  or function of the recipe, pinned to a device or not, on the handles of its inputs, and
  answers the handles of its outputs. The second group builds graphs and functions. The last one is the conversion
  of floating-point formats and the text of \<open>printf("%g")\<close>.
\<close>

record 'w tf =
  new_handle :: "tensor \<Rightarrow> 'w \<Rightarrow> (string + nat) \<times> 'w"
  delete_handle :: "nat \<Rightarrow> 'w \<Rightarrow> 'w"
  copy_sharing :: "nat option \<Rightarrow> 'w \<Rightarrow> (string + nat) \<times> 'w"
  copy_to_device :: "nat \<Rightarrow> string \<Rightarrow> 'w \<Rightarrow> (string + nat) \<times> 'w"
  resolve :: "nat option \<Rightarrow> 'w \<Rightarrow> (string + tensor) \<times> 'w"
  handle_shape :: "nat \<Rightarrow> 'w \<Rightarrow> int list"
  handle_dtype :: "nat \<Rightarrow> 'w \<Rightarrow> dtype"
  execute_op :: "string option \<Rightarrow> opspec \<Rightarrow> nat option list \<Rightarrow> 'w \<Rightarrow> (string + nat list) \<times> 'w"
  finish_operation :: "gnode list \<Rightarrow> gnode \<Rightarrow> 'w \<Rightarrow> string option \<times> 'w"
  graph_to_function :: "gnode list \<Rightarrow> string \<Rightarrow> nat list \<Rightarrow> nat list \<Rightarrow> 'w \<Rightarrow> string option \<times> 'w"
  add_function :: "string \<Rightarrow> 'w \<Rightarrow> string option \<times> 'w"
  add_gradients :: "gnode list \<Rightarrow> nat \<Rightarrow> nat list \<Rightarrow> 'w \<Rightarrow> (nat option list \<times> nat) option \<times> 'w"
  graph_ndims :: "gnode list \<Rightarrow> nat \<Rightarrow> 'w \<Rightarrow> (string + int) \<times> 'w"
  graph_shape :: "gnode list \<Rightarrow> nat \<Rightarrow> 'w \<Rightarrow> (string + int list) \<times> 'w"
  f32_of_double :: "64 word \<Rightarrow> 32 word"
  double_of_f32 :: "32 word \<Rightarrow> 64 word"
  double_of_int :: "int \<Rightarrow> 64 word"
  f32_eq :: "32 word \<Rightarrow> 32 word \<Rightarrow> bool"
  show_f32 :: "32 word \<Rightarrow> string"

section \<open>The state\<close>

text \<open>\<open>s_mode\<close> is what the switch of library(torch) answers: whether producers are only recorded.\<close>

record 'w tfb =
  s_slots :: "int \<Rightarrow> tf_slot"
  s_cursor :: int
  s_entries :: "entry list"
  s_gpu :: string
  s_cpu :: string
  s_dev_gpu :: bool
  s_opcount :: nat
  s_fncount :: nat
  s_seed_base :: "64 word"
  s_seed_next :: "64 word"
  s_err :: string
  s_rec :: int
  s_exe :: int
  s_rep :: int
  s_mode :: bool
  s_xla :: int
  s_scalars :: "(32 word \<times> nat) list"
  s_scalar_next :: nat
  s_w :: 'w

type_synonym ('w, 'a) tact = "('w tfb, 'a) act"

definition tf_fail :: "string \<Rightarrow> ('w, 'a) tact" where
  "tf_fail m s = Zero (s\<lparr>s_err := snprintf_s 512 m\<rparr>)"

definition tfb_error :: "'w tfb \<Rightarrow> string" where
  "tfb_error s = s_err s"

definition tfb_mode :: "'w tfb \<Rightarrow> bool" where
  "tfb_mode s = s_mode s"

text \<open>A call of the library followed by \<open>if (bad())\<close>: its message goes to the caller's buffer.\<close>

definition tf_call :: "('w \<Rightarrow> (string + 'a) \<times> 'w) \<Rightarrow> ('w, 'a) tact" where
  "tf_call f s =
     (case f (s_w s) of
        (Inl m, w) \<Rightarrow> Zero (s\<lparr>s_err := snprintf_s 512 m, s_w := w\<rparr>)
      | (Inr v, w) \<Rightarrow> One v (s\<lparr>s_w := w\<rparr>))"

definition tf_check :: "('w \<Rightarrow> string option \<times> 'w) \<Rightarrow> ('w, unit) tact" where
  "tf_check f s =
     (case f (s_w s) of
        (Some m, w) \<Rightarrow> Zero (s\<lparr>s_err := snprintf_s 512 m, s_w := w\<rparr>)
      | (None, w) \<Rightarrow> One () (s\<lparr>s_w := w\<rparr>))"

definition slot_upd :: "int \<Rightarrow> (tf_slot \<Rightarrow> tf_slot) \<Rightarrow> 'w tfb \<Rightarrow> 'w tfb" where
  "slot_upd h f s = s\<lparr>s_slots := (s_slots s)(h := f (s_slots s h))\<rparr>"

section \<open>Starting up\<close>

text \<open>
  The static variables before anything has run; \<open>xla\<close> is what the environment variable \<open>COCO_TF_XLA\<close>
  says, 0 when it is not set.
\<close>

definition tfb_statics :: "int \<Rightarrow> 'w \<Rightarrow> 'w tfb" where
  "tfb_statics xla w = \<lparr>s_slots = \<lambda>_. zero_slot, s_cursor = 1, s_entries = [], s_gpu = [], s_cpu = [], s_dev_gpu = False,
     s_opcount = 0, s_fncount = 0, s_seed_base = 1234, s_seed_next = 0, s_err = [], s_rec = 0, s_exe = 0, s_rep = 0,
     s_mode = False, s_xla = xla, s_scalars = [], s_scalar_next = 0, s_w = w\<rparr>"

text \<open>The name of the first device of a type, in a buffer of 256.\<close>

definition first_device :: "string \<Rightarrow> (string \<times> string) list \<Rightarrow> string" where
  "first_device ty devs =
     fold (\<lambda>(t, nm) found. if t = ty \<and> found = [] then snprintf_s 256 nm else found) devs []"

text \<open>
  \<open>ready\<close> says that there is a context already, \<open>made\<close> is what making one comes to, and \<open>devs\<close> are the
  types and names of the devices listed, up to the first that cannot be read.
\<close>

definition tfb_init :: "bool \<Rightarrow> string option \<Rightarrow> (string \<times> string) list \<Rightarrow> 'w tfb \<Rightarrow> bool \<times> 'w tfb" where
  "tfb_init ready made devs s =
     (if ready then (True, s)
      else case made of
        Some m \<Rightarrow> (False, s\<lparr>s_err := snprintf_s 512 m\<rparr>)
      | None \<Rightarrow>
          (True, s\<lparr>s_gpu := first_device ''GPU'' devs, s_cpu := first_device ''CPU'' devs,
             s_dev_gpu := (first_device ''GPU'' devs \<noteq> []), s_slots := \<lambda>_. zero_slot\<rparr>))"

section \<open>Attaching\<close>

text \<open>
  The dynamic loader as \<open>tfb_attach\<close> uses it: this module's own path, whether a shared object is loaded already,
  whether it can be loaded, what \<open>dlerror\<close> says, whether it exports the function that registers a back end, and what
  that function answers.
\<close>

record loader =
  dl_self :: "string option"
  dl_noload :: "string \<Rightarrow> bool"
  dl_load :: "string \<Rightarrow> bool"
  dl_error :: string
  dl_has_set :: bool
  dl_set :: "string \<Rightarrow> bool"

text \<open>What follows the last slash of the path, if there is one, is replaced by \<open>torch.so\<close>, in a buffer of 4096.\<close>

definition torch_beside :: "string \<Rightarrow> string" where
  "torch_beside fname =
     (let path = snprintf_s 4096 fname;
          dir = rev (dropWhile (\<lambda>c. c \<noteq> CHR ''/'') (rev path))
      in if CHR ''/'' \<in> set path then dir @ snprintf_s (4096 - length dir) ''torch.so'' else snprintf_s 4096 ''torch.so'')"

definition tfb_attach :: "loader \<Rightarrow> bool \<Rightarrow> string option \<Rightarrow> (string \<times> string) list \<Rightarrow> 'w tfb \<Rightarrow> bool \<times> 'w tfb" where
  "tfb_attach D ready made devs s =
     (case dl_self D of
        None \<Rightarrow> (False, s\<lparr>s_err := snprintf_s 512 ''dladdr: cannot find this module's own path''\<rparr>)
      | Some fname \<Rightarrow>
          let path = torch_beside fname
          in if \<not> dl_noload D path \<and> \<not> dl_load D path
             then (False, s\<lparr>s_err := snprintf_s 512 (''no torch.so beside this module ('' @ path @ ''): '' @ dl_error D)\<rparr>)
             else if \<not> dl_has_set D
             then (False, s\<lparr>s_err := snprintf_s 512 ''torch.so has no coco_tensor_backend_set: rebuild library(torch)''\<rparr>)
             else case tfb_init ready made devs s of
                 (False, t) \<Rightarrow> (False, t)
               | (True, t) \<Rightarrow> (dl_set D ''tensorflow'', t))"

text \<open>The library of tensors is looked for in the directory this module is in.\<close>

lemma torch_beside_dir:
  assumes "CHR 0x00 \<notin> set dir" "CHR 0x00 \<notin> set name" "CHR ''/'' \<notin> set name" "length dir + length name < 4095" "length dir < 4080"
  shows "torch_beside (dir @ ''/'' @ name) = dir @ ''/torch.so''"
proof -
  have p: "snprintf_s 4096 (dir @ ''/'' @ name) = dir @ ''/'' @ name" using assms by (intro snprintf_s_fits) auto
  have "dropWhile (\<lambda>c. c \<noteq> CHR ''/'') (rev (dir @ ''/'' @ name)) = CHR ''/'' # rev dir"
    using assms(3) dropWhile_append2 [of "rev name" "\<lambda>c. c \<noteq> CHR ''/''" "CHR ''/'' # rev dir"] by auto
  moreover have "snprintf_s (4096 - Suc (length dir)) ''torch.so'' = ''torch.so''"
    using assms(5) by (intro snprintf_s_fits) auto
  ultimately show ?thesis using p by (simp add: torch_beside_def Let_def)
qed

lemma torch_beside_length: "length (torch_beside fname) < 4096"
proof -
  have "length (dropWhile (\<lambda>c. c \<noteq> CHR ''/'') (rev (snprintf_s 4096 fname))) < 4096"
    using snprintf_s_length [of 4096 fname] by (intro order_le_less_trans [OF length_dropWhile_le]) simp
  then show ?thesis using snprintf_s_length [of 4096 "''torch.so''"] snprintf_s_length [of "4096 - length (dropWhile (\<lambda>c. c \<noteq> CHR ''/'') (rev (snprintf_s 4096 fname)))" "''torch.so''"]
    by (auto simp: torch_beside_def Let_def)
qed

section \<open>The device\<close>

definition tfb_device_set :: "int \<Rightarrow> 'w tfb \<Rightarrow> bool \<times> 'w tfb" where
  "tfb_device_set kind s =
     (if kind = 0 then (True, s\<lparr>s_dev_gpu := False\<rparr>)
      else if kind = 2 then (True, s\<lparr>s_dev_gpu := s_gpu s \<noteq> []\<rparr>)
      else if s_gpu s \<noteq> [] then (True, s\<lparr>s_dev_gpu := True\<rparr>)
      else (False, s\<lparr>s_dev_gpu := False\<rparr>))"

definition tfb_on_gpu :: "'w tfb \<Rightarrow> bool" where
  "tfb_on_gpu s = s_dev_gpu s"

text \<open>What an operation is pinned to.\<close>

definition pin :: "'w tfb \<Rightarrow> string option" where
  "pin s = (if s_gpu s \<noteq> [] then Some (if s_dev_gpu s then s_gpu s else s_cpu s) else None)"

definition tfb_seed :: "64 word \<Rightarrow> 'w tfb \<Rightarrow> 'w tfb" where
  "tfb_seed n s = s\<lparr>s_seed_base := n, s_seed_next := 0\<rparr>"

end
