(* ===== verification/Tf_Slots.thy ===== *)
theory Tf_Slots
  imports Tf_State
begin

text \<open>
  The slot table of the TensorFlow back end (backend.c, "slots" and "tensors from data"): finding
  a free slot, reference counts and the recursive release of what nothing reads any more,
  values made on the host, and the cache of scalar operands. The invariant \<open>tab_ok\<close> says
  that counts are exact, that what is read is there, and that recipes are acyclic; every
  operation here keeps it.
\<close>

section \<open>Operations\<close>

text \<open>\<open>slot_scan n\<close> is the loop of \<open>slot_new\<close> with \<open>n\<close> rounds to go.\<close>

primrec slot_scan :: "nat \<Rightarrow> ('w, int) tact" where
  "slot_scan 0 s = tf_fail ''handle table full'' s"
| "slot_scan (Suc n) s =
     (let i = s_cursor s; t = s\<lparr>s_cursor := (if i + 1 < TF_SLOTS then i + 1 else 1)\<rparr> in
      if sl_kind (s_slots t i) = K_FREE then One i (slot_upd i (\<lambda>_. zero_slot) t) else slot_scan n t)"

definition slot_new :: "('w, int) tact" where
  "slot_new = slot_scan (nat (TF_SLOTS - 1))"

definition live :: "(int \<Rightarrow> tf_slot) \<Rightarrow> int \<Rightarrow> bool" where
  "live f h \<longleftrightarrow> 0 < h \<and> h < TF_SLOTS \<and> sl_kind (f h) \<noteq> K_FREE"

definition tfb_exists :: "'w tfb \<Rightarrow> int \<Rightarrow> bool" where
  "tfb_exists s h \<longleftrightarrow> 0 < h \<and> h < TF_SLOTS \<and> sl_kind (s_slots s h) \<noteq> K_FREE \<and> \<not> sl_released (s_slots s h)"

definition node_ins :: "tf_slot \<Rightarrow> int list" where
  "node_ins sl = (if sl_kind sl = K_NODE then sp_in (sl_spec sl) else [])"

text \<open>\<open>if (eh) TFE_DeleteTensorHandle(eh)\<close>\<close>

definition del_eh :: "'w tf \<Rightarrow> nat option \<Rightarrow> 'w tfb \<Rightarrow> 'w tfb" where
  "del_eh T eh s = (case eh of None \<Rightarrow> s | Some e \<Rightarrow> s\<lparr>s_w := delete_handle T e (s_w s)\<rparr>)"

text \<open>\<open>really_free\<close> up to the loop over the inputs.\<close>

definition wipe :: "'w tf \<Rightarrow> int \<Rightarrow> 'w tfb \<Rightarrow> 'w tfb" where
  "wipe T h s = slot_upd h (\<lambda>_. zero_slot) (del_eh T (sl_eh (s_slots s h)) s)"

lemma s_slots_slot_upd [simp]: "s_slots (slot_upd h g s) = (s_slots s)(h := g (s_slots s h))"
  by (simp add: slot_upd_def)

lemma s_slots_del_eh [simp]: "s_slots (del_eh T eh s) = s_slots s"
  by (simp add: del_eh_def split: option.split)

lemma s_slots_wipe [simp]: "s_slots (wipe T h s) = (s_slots s)(h := zero_slot)"
  by (simp add: wipe_def)

lemma s_cursor_slot_upd [simp]: "s_cursor (slot_upd h g s) = s_cursor s"
  by (simp add: slot_upd_def)

lemma s_cursor_del_eh [simp]: "s_cursor (del_eh T eh s) = s_cursor s"
  by (simp add: del_eh_def split: option.split)

lemma s_cursor_wipe [simp]: "s_cursor (wipe T h s) = s_cursor s"
  by (simp add: wipe_def)

lemma s_entries_slot_upd [simp]: "s_entries (slot_upd h g s) = s_entries s"
  by (simp add: slot_upd_def)

lemma s_entries_del_eh [simp]: "s_entries (del_eh T eh s) = s_entries s"
  by (simp add: del_eh_def split: option.split)

lemma kind_zero_slot [simp]: "sl_kind zero_slot = K_FREE"
  by (simp add: zero_slot_def)

lemma node_ins_zero_slot [simp]: "node_ins zero_slot = []"
  by (simp add: node_ins_def)

lemma node_ins_update [simp]:
  "node_ins (sl\<lparr>sl_refs := n\<rparr>) = node_ins sl" "node_ins (sl\<lparr>sl_released := b\<rparr>) = node_ins sl"
  "node_ins (sl\<lparr>sl_eh := e\<rparr>) = node_ins sl" "node_ins (sl\<lparr>sl_is_param := b\<rparr>) = node_ins sl"
  "node_ins (sl\<lparr>sl_shape := d, sl_shape_known := b\<rparr>) = node_ins sl"
  by (simp_all add: node_ins_def)

text \<open>
  \<open>unref\<close> and \<open>really_free\<close> call each other over the inputs of what goes. \<open>unrefs\<close> is both, as the
  list of handles still to be let go: a slot that goes puts its inputs in front.
\<close>

abbreviation unheld :: "tf_slot \<Rightarrow> tf_slot" where
  "unheld sl \<equiv> sl\<lparr>sl_refs := sl_refs sl - Suc 0\<rparr>"

function unrefs :: "'w tf \<Rightarrow> int list \<Rightarrow> 'w tfb \<Rightarrow> 'w tfb" where
  "unrefs T [] s = s"
| "unrefs T (h # hs) s =
     (if \<not> live (s_slots s) h then unrefs T hs s
      else let t = slot_upd h unheld s; sl = s_slots t h in
        if sl_released sl \<and> sl_refs sl = 0 then unrefs T (node_ins sl @ hs) (wipe T h t) else unrefs T hs t)"
  by pat_completeness auto
termination unrefs
proof (relation "measures [\<lambda>(T, hs, s). card {h. live (s_slots s) h}, \<lambda>(T, hs, s). length hs]", goal_cases)
  case 1
  show ?case by simp
next
  case 2
  then show ?case by simp
next
  case (3 T h hs s t sl)
  have "finite (Collect (live (s_slots s)))"
    by (rule finite_subset [of _ "{0..TF_SLOTS}"]) (auto simp: live_def)
  moreover have "Collect (live (s_slots (wipe T h t))) \<subset> Collect (live (s_slots s))"
    using 3(1,2) by (auto simp: live_def psubset_eq set_eq_iff split: if_splits)
  ultimately have "card (Collect (live (s_slots (wipe T h t)))) < card (Collect (live (s_slots s)))"
    by (rule psubset_card_mono)
  then show ?case by simp
next
  case (4 T h hs s t sl)
  then have "{h. live (s_slots t) h} = {h. live (s_slots s) h}"
    by (auto simp: live_def)
  then show ?case by simp
qed

definition unref :: "'w tf \<Rightarrow> int \<Rightarrow> 'w tfb \<Rightarrow> 'w tfb" where
  "unref T h = unrefs T [h]"

definition really_free :: "'w tf \<Rightarrow> int \<Rightarrow> 'w tfb \<Rightarrow> 'w tfb" where
  "really_free T h s = unrefs T (node_ins (s_slots s h)) (wipe T h s)"

definition tfb_free :: "'w tf \<Rightarrow> int \<Rightarrow> 'w tfb \<Rightarrow> bool \<times> 'w tfb" where
  "tfb_free T h s =
     (if \<not> tfb_exists s h then (False, s)
      else let s = slot_upd h (\<lambda>sl. sl\<lparr>sl_released := True\<rparr>) s; sl = s_slots s h in
        if sl_refs sl = 0 then (True, really_free T h s)
        else if sl_kind sl = K_NODE \<and> sl_eh sl \<noteq> None
        then (True, slot_upd h (\<lambda>sl. sl\<lparr>sl_eh := None\<rparr>) (del_eh T (sl_eh sl) s))
        else (True, s))"

definition drop_structure :: "'w tf \<Rightarrow> int \<Rightarrow> 'w tfb \<Rightarrow> 'w tfb" where
  "drop_structure T h s =
     (if sl_kind (s_slots s h) \<noteq> K_NODE then s
      else unrefs T (sp_in (sl_spec (s_slots s h))) (slot_upd h (\<lambda>sl. sl\<lparr>sl_spec := no_spec, sl_kind := K_VALUE\<rparr>) s))"

text \<open>\<open>slots[in].refs++\<close> for each input of a recipe.\<close>

definition hold :: "int list \<Rightarrow> 'w tfb \<Rightarrow> 'w tfb" where
  "hold = fold (\<lambda>i. slot_upd i (\<lambda>sl. sl\<lparr>sl_refs := Suc (sl_refs sl)\<rparr>))"

definition set_shape_from_tensor :: "tensor \<Rightarrow> tf_slot \<Rightarrow> tf_slot" where
  "set_shape_from_tensor t sl =
     sl\<lparr>sl_shape := take TF_MAXDIM (t_shape t), sl_shape_known := True, sl_dtype := t_dtype t\<rparr>"

definition take_handle :: "'w tf \<Rightarrow> int \<Rightarrow> nat \<Rightarrow> 'w tfb \<Rightarrow> 'w tfb" where
  "take_handle T h e s =
     (let s = del_eh T (sl_eh (s_slots s h)) s in
      slot_upd h (\<lambda>sl. sl\<lparr>sl_eh := Some e, sl_shape := take TF_MAXDIM (handle_shape T e (s_w s)),
        sl_shape_known := True, sl_dtype := handle_dtype T e (s_w s)\<rparr>) s)"

definition placed :: "'w tf \<Rightarrow> nat \<Rightarrow> 'w tfb \<Rightarrow> nat \<times> 'w tfb" where
  "placed T e s =
     (if \<not> s_dev_gpu s \<or> handle_dtype T e (s_w s) \<noteq> TF_FLOAT then (e, s)
      else case copy_to_device T e (s_gpu s) (s_w s) of
        (Inl _, w) \<Rightarrow> (e, s\<lparr>s_w := w\<rparr>)
      | (Inr d, w) \<Rightarrow> (d, s\<lparr>s_w := delete_handle T e w\<rparr>))"

section \<open>Tensors from data\<close>

text \<open>The values of a C \<open>double\<close> are its 64 bits; a cast to \<open>int32_t\<close> keeps the low 32.\<close>

type_synonym dbl = "64 word"

definition int32 :: "int \<Rightarrow> int" where
  "int32 v = sint (word_of_int v :: 32 word)"

definition tensor_f32 :: "'w tf \<Rightarrow> dbl list \<Rightarrow> int list \<Rightarrow> tensor" where
  "tensor_f32 T data shape =
     \<lparr>t_dtype = TF_FLOAT, t_shape = shape,
      t_data = map (\<lambda>v. uint (f32_of_double T v)) (take (nat (prod_list shape)) data)\<rparr>"

definition tensor_i32 :: "int list \<Rightarrow> int list \<Rightarrow> tensor" where
  "tensor_i32 data shape =
     \<lparr>t_dtype = TF_INT32, t_shape = shape, t_data = map int32 (take (nat (prod_list shape)) data)\<rparr>"

definition slot_from_tensor :: "'w tf \<Rightarrow> tensor \<Rightarrow> bool \<Rightarrow> ('w, int) tact" where
  "slot_from_tensor T t ckey =
     andthen slot_new (\<lambda>h s.
       let s = slot_upd h (set_shape_from_tensor t) s in
       case new_handle T t (s_w s) of
         (Inl m, w) \<Rightarrow> Zero (slot_upd h (\<lambda>sl. sl\<lparr>sl_kind := K_FREE\<rparr>) (s\<lparr>s_err := snprintf_s 512 m, s_w := w\<rparr>))
       | (Inr e, w) \<Rightarrow>
           (let s = s\<lparr>s_w := w\<rparr>; (e, s) = (if ckey then (e, s) else placed T e s) in
            One h (slot_upd h (\<lambda>sl. sl\<lparr>sl_kind := K_VALUE, sl_ckey := ckey, sl_eh := Some e,
              sl_val := if ckey then Some t else sl_val sl\<rparr>) s)))"

definition slot_from_handle :: "'w tf \<Rightarrow> nat \<Rightarrow> ('w, int) tact" where
  "slot_from_handle T e s =
     (case slot_new s of
        One h s \<Rightarrow> One h (take_handle T h e (slot_upd h (\<lambda>sl. sl\<lparr>sl_kind := K_VALUE\<rparr>) s))
      | Zero s \<Rightarrow> Zero (del_eh T (Some e) s)
      | Waits s \<Rightarrow> Waits s)"

definition tfb_from_doubles :: "'w tf \<Rightarrow> dbl list \<Rightarrow> int list \<Rightarrow> ('w, int) tact" where
  "tfb_from_doubles T data shape = slot_from_tensor T (tensor_f32 T data shape) False"

definition tfb_from_ints :: "'w tf \<Rightarrow> int list \<Rightarrow> ('w, int) tact" where
  "tfb_from_ints T data = slot_from_tensor T (tensor_i32 data [int (length data)]) False"

definition ivec :: "'w tf \<Rightarrow> int list \<Rightarrow> ('w, int) tact" where
  "ivec T v = slot_from_tensor T (tensor_i32 v [int (length v)]) True"

definition iscalar :: "'w tf \<Rightarrow> int \<Rightarrow> ('w, int) tact" where
  "iscalar T v = slot_from_tensor T \<lparr>t_dtype = TF_INT32, t_shape = [], t_data = [int32 v]\<rparr> True"

text \<open>The table of scalars is a ring: the oldest entry goes once it is full.\<close>

definition remember_scalar :: "'w tf \<Rightarrow> 32 word \<Rightarrow> nat \<Rightarrow> 'w tfb \<Rightarrow> 'w tfb" where
  "remember_scalar T f keep s =
     (let n = length (s_scalars s); i = (if n < TF_SCALARS then n else s_scalar_next s);
          s = (if i = s_scalar_next s then s\<lparr>s_scalar_next := (s_scalar_next s + 1) mod TF_SCALARS\<rparr> else s) in
      if i < n then (del_eh T (Some (snd (s_scalars s ! i))) s)\<lparr>s_scalars := (s_scalars s)[i := (f, keep)]\<rparr>
      else s\<lparr>s_scalars := s_scalars s @ [(f, keep)]\<rparr>)"

definition fscalar :: "'w tf \<Rightarrow> dbl \<Rightarrow> ('w, int) tact" where
  "fscalar T v =
     (let f = f32_of_double T v in
      andthen (fetch s_scalars) (\<lambda>scalars.
      case find (\<lambda>(u, _). f32_eq T u f) scalars of
        Some (_, e) \<Rightarrow> andthen (tf_call (copy_sharing T (Some e))) (slot_from_handle T)
      | None \<Rightarrow>
          andthen (slot_from_tensor T \<lparr>t_dtype = TF_FLOAT, t_shape = [], t_data = [uint f]\<rparr> False) (\<lambda>h.
          andthen (fetch (\<lambda>s. sl_eh (s_slots s h))) (\<lambda>eh.
          andthen (attempt (tf_call (copy_sharing T eh))) (\<lambda>k.
          andthen (case k of None \<Rightarrow> ret () | Some keep \<Rightarrow> modify (remember_scalar T f keep)) (\<lambda>_.
          ret h))))))"

definition with_free :: "'w tf \<Rightarrow> ('w, 'a) tact \<Rightarrow> int \<Rightarrow> ('w, 'a) tact" where
  "with_free T m tmp =
     andthen (attempt m) (\<lambda>r.
     andthen (modify (\<lambda>s. if 0 < tmp then snd (tfb_free T tmp s) else s)) (\<lambda>_ s.
     case r of None \<Rightarrow> Zero s | Some h \<Rightarrow> One h s))"

section \<open>The recursion as the code has it\<close>

lemma unrefs_append: "unrefs T (xs @ ys) s = unrefs T ys (unrefs T xs s)"
  by (induction T xs s rule: unrefs.induct) (simp_all add: Let_def)

lemma unrefs_fold: "unrefs T hs s = fold (unref T) hs s"
proof (induction hs arbitrary: s)
  case (Cons h hs)
  show ?case using unrefs_append [of T "[h]" hs s] Cons.IH by (simp add: unref_def)
qed simp

lemma unref_code:
  "unref T h s =
     (if \<not> live (s_slots s) h then s
      else let t = slot_upd h unheld s in
        if sl_released (s_slots t h) \<and> sl_refs (s_slots t h) = 0 then really_free T h t else t)"
  by (simp add: unref_def really_free_def Let_def unrefs_append)

lemma really_free_code:
  "really_free T h s = fold (unref T) (node_ins (s_slots s h)) (wipe T h s)"
  by (simp add: really_free_def unrefs_fold)

section \<open>The invariant\<close>

text \<open>How often the recipes of the table read \<open>h\<close>.\<close>

definition readers :: "(int \<Rightarrow> tf_slot) \<Rightarrow> int \<Rightarrow> nat" where
  "readers f h = (\<Sum>g = 1..<TF_SLOTS. count_list (node_ins (f g)) h)"

definition acyclic_ins :: "(int \<Rightarrow> tf_slot) \<Rightarrow> bool" where
  "acyclic_ins f \<longleftrightarrow> (\<exists>rank :: int \<Rightarrow> nat. \<forall>g. live f g \<longrightarrow> (\<forall>i \<in> set (node_ins (f g)). rank i < rank g))"

text \<open>The names of a recipe have no space in them.\<close>

definition plain :: "opspec \<Rightarrow> bool" where
  "plain p \<longleftrightarrow> (\<forall>a \<in> set (sp_op p # map fst (sp_types p) @ map fst (sp_ints p) @ map fst (sp_bools p)).
     CHR '' '' \<notin> set a)"

text \<open>
  A slot in use: what the program has released is there only because it is read, and a node that is
  released has no value; a slot that is only a value has one, and where there is a value the shape
  is known; a made constant is a value of 32-bit integers.
\<close>

definition slot_fine :: "tf_slot \<Rightarrow> bool" where
  "slot_fine v \<longleftrightarrow> (sl_released v \<longrightarrow> 0 < sl_refs v) \<and> (sl_released v \<longrightarrow> sl_kind v = K_NODE \<longrightarrow> sl_eh v = None) \<and>
     (sl_kind v = K_VALUE \<longrightarrow> sl_eh v \<noteq> None) \<and> (sl_eh v \<noteq> None \<longrightarrow> sl_shape_known v) \<and>
     (sl_ckey v \<longrightarrow> sl_kind v = K_VALUE \<and> sl_dtype v = TF_INT32) \<and> (sl_kind v = K_NODE \<longrightarrow> plain (sl_spec v))"

text \<open>
  The table with some references, \<open>hs\<close>, still to be let go: counts are exact, what a recipe
  reads is there, and recipes are acyclic.
\<close>

definition owes :: "int list \<Rightarrow> (int \<Rightarrow> tf_slot) \<Rightarrow> bool" where
  "owes hs f \<longleftrightarrow>
     (\<forall>h. live f h \<longrightarrow> sl_refs (f h) = readers f h + count_list hs h) \<and>
     (\<forall>g. live f g \<longrightarrow> (\<forall>i \<in> set (node_ins (f g)). live f i)) \<and>
     (\<forall>h \<in> set hs. live f h) \<and>
     (\<forall>h. live f h \<longrightarrow> slot_fine (f h)) \<and>
     acyclic_ins f"

definition tab_ok :: "'w tfb \<Rightarrow> bool" where
  "tab_ok s \<longleftrightarrow> owes [] (s_slots s) \<and> 0 < s_cursor s \<and> s_cursor s < TF_SLOTS"

lemma live_cong: "sl_kind v = sl_kind (f h) \<Longrightarrow> live (f(h := v)) = live f"
  by (rule ext) (simp add: live_def)

lemma readers_upd:
  assumes "0 < h" and "h < TF_SLOTS"
  shows "readers (f(h := v)) x + count_list (node_ins (f h)) x = readers f x + count_list (node_ins v) x"
proof -
  have h: "h \<in> {1..<TF_SLOTS}" using assms by simp
  have "(\<Sum>g \<in> {1..<TF_SLOTS} - {h}. count_list (node_ins ((f(h := v)) g)) x) =
      (\<Sum>g \<in> {1..<TF_SLOTS} - {h}. count_list (node_ins (f g)) x)"
    by (rule sum.cong) auto
  then show ?thesis
    unfolding readers_def by (simp add: sum.remove [OF _ h] del: fun_upd_apply) simp
qed

lemma readers_cong: "node_ins v = node_ins (f h) \<Longrightarrow> readers (f(h := v)) = readers f"
  by (rule ext) (auto simp: readers_def intro!: sum.cong)

lemma node_ins_live: "i \<in> set (node_ins (f g)) \<Longrightarrow> sl_kind (f g) = K_NODE"
  by (simp add: node_ins_def split: if_splits)

lemma readers_0: "readers f h = 0 \<longleftrightarrow> (\<forall>g. live f g \<longrightarrow> h \<notin> set (node_ins (f g)))"
proof -
  have "readers f h = 0 \<longleftrightarrow> (\<forall>g \<in> {1..<TF_SLOTS}. h \<notin> set (node_ins (f g)))"
    by (simp add: readers_def count_list_0_iff)
  also have "\<dots> \<longleftrightarrow> (\<forall>g. live f g \<longrightarrow> h \<notin> set (node_ins (f g)))"
    using node_ins_live by (fastforce simp: live_def)
  finally show ?thesis .
qed

lemma owesD:
  assumes "owes hs f"
  shows "live f h \<Longrightarrow> sl_refs (f h) = readers f h + count_list hs h"
    and "live f g \<Longrightarrow> i \<in> set (node_ins (f g)) \<Longrightarrow> live f i"
    and "h \<in> set hs \<Longrightarrow> live f h"
    and "live f h \<Longrightarrow> slot_fine (f h)"
    and "acyclic_ins f"
  using assms unfolding owes_def by blast+

lemma owesI:
  assumes "\<And>h. live f h \<Longrightarrow> sl_refs (f h) = readers f h + count_list hs h"
    and "\<And>g i. live f g \<Longrightarrow> i \<in> set (node_ins (f g)) \<Longrightarrow> live f i"
    and "\<And>h. h \<in> set hs \<Longrightarrow> live f h"
    and "\<And>h. live f h \<Longrightarrow> slot_fine (f h)"
    and "acyclic_ins f"
  shows "owes hs f"
  using assms unfolding owes_def by blast

lemma owes_unread: "owes hs f \<Longrightarrow> \<not> live f h \<Longrightarrow> readers f h = 0"
  using owesD(2) by (fastforce simp: readers_0)


lemma acyclic_ins_upd:
  assumes "acyclic_ins f" and "set (node_ins v) \<subseteq> set (node_ins (f h))" and "sl_kind v \<noteq> K_FREE \<Longrightarrow> live f h"
  shows "acyclic_ins (f(h := v))"
proof -
  obtain rank :: "int \<Rightarrow> nat" where r: "\<And>g i. live f g \<Longrightarrow> i \<in> set (node_ins (f g)) \<Longrightarrow> rank i < rank g"
    using assms(1) by (auto simp: acyclic_ins_def)
  have "rank i < rank g" if "live (f(h := v)) g" and "i \<in> set (node_ins ((f(h := v)) g))" for g i
    using that assms(2,3) r [of g i] by (cases "g = h") (auto simp: live_def)
  then show ?thesis unfolding acyclic_ins_def by blast
qed

lemma owes_upd:
  assumes "owes hs f" and "live f h" and "node_ins v = node_ins (f h)" and "sl_kind v \<noteq> K_FREE"
    and "sl_refs v = sl_refs (f h)" and "slot_fine v"
  shows "owes hs (f(h := v))"
proof -
  have [simp]: "live (f(h := v)) = live f" using assms(2,4) by (intro ext) (auto simp: live_def)
  have [simp]: "readers (f(h := v)) = readers f" using assms(3) by (rule readers_cong)
  show ?thesis
    using assms owesD [OF assms(1)] by (intro owesI acyclic_ins_upd) (auto split: if_splits)
qed

lemma owes_unheld:
  assumes "owes (h # hs) f" and "slot_fine (unheld (f h))"
  shows "owes hs (f(h := unheld (f h)))"
proof -
  let ?v = "unheld (f h)"
  have h: "live f h" using assms(1) owesD(3) by simp
  have [simp]: "live (f(h := ?v)) = live f" by (rule live_cong) simp
  have [simp]: "readers (f(h := f h\<lparr>sl_refs := n\<rparr>)) = readers f" for n by (rule readers_cong) simp
  show ?thesis
  proof (rule owesI, goal_cases)
    case (1 x)
    then show ?case using owesD(1) [OF assms(1), of x] by (cases "x = h") auto
  next
    case (2 g i)
    then show ?case using owesD(2) [OF assms(1), of g i] by (cases "g = h") auto
  next
    case (5)
    show ?case using h owesD(5) [OF assms(1)] by (intro acyclic_ins_upd) auto
  qed (use assms(2) owesD(3,4) [OF assms(1)] in auto)
qed

text \<open>A slot that nothing reads goes, or lets go of what it reads: its references are owed.\<close>

lemma owes_let_go:
  assumes "owes ds f" and "live f h" and "node_ins v = []"
    and v: "sl_kind v = K_FREE \<and> h \<notin> set hs \<and> readers f h = 0 \<or>
      sl_kind v = K_VALUE \<and> sl_refs v = sl_refs (f h) \<and> slot_fine v \<and> ds = hs"
    and ds: "\<And>x. x \<noteq> h \<Longrightarrow> count_list ds x = count_list hs x"
  shows "owes (node_ins (f h) @ hs) (f(h := v))" (is "owes ?hs ?f")
proof -
  have rng: "0 < h" "h < TF_SLOTS" using assms(2) by (auto simp: live_def)
  have live: "live ?f x \<longleftrightarrow> live f x \<and> (x \<noteq> h \<or> sl_kind v = K_VALUE)" for x
    using assms(2) v by (auto simp: live_def)
  have rd: "readers f x = readers ?f x + count_list (node_ins (f h)) x" for x
    using readers_upd [OF rng, of f v x] assms(3) by simp
  have unread: "x \<noteq> h" if "live f g" and "x \<in> set (node_ins (f g))" and "sl_kind v = K_FREE" for g x
    using that v by (auto simp: readers_0)
  have hs: "live f x" if "x \<in> set hs" for x
  proof (cases "x = h")
    case False
    then have "count_list ds x \<noteq> 0" using ds that by (metis count_list_0_iff)
    then show ?thesis using assms(1) by (metis count_list_0_iff owesD(3))
  qed (use assms(2) in simp)
  have fine: "slot_fine (?f x)" if "live ?f x" for x
    using that v owesD(4) [OF assms(1)] by (auto simp: live split: if_splits)
  have cnt: "sl_refs (?f x) = readers ?f x + count_list ?hs x" if "live ?f x" for x
  proof (cases "x = h")
    case True
    then have "sl_kind v = K_VALUE" using that live by simp
    then show ?thesis using True v owesD(1) [OF assms(1,2)] rd [of h] by simp
  qed (use that owesD(1) [OF assms(1), of x] rd [of x] ds live in simp)
  have ins: "live ?f i" if "live ?f g" and "i \<in> set (node_ins (?f g))" for g i
    using that assms(3) v owesD(2) [OF assms(1)] unread by (auto simp: live split: if_splits)
  have owed: "live ?f x" if "x \<in> set ?hs" for x
    using that v hs owesD(2) [OF assms(1,2)] unread [OF assms(2)] by (auto simp: live)
  have ac: "acyclic_ins ?f"
    using assms by (intro acyclic_ins_upd) (auto intro: owesD)
  show ?thesis using cnt ins owed fine ac by (rule owesI)
qed

lemma owes_wiped:
  assumes "owes (h # hs) f" and "sl_released (f h)" and "sl_refs (f h) - 1 = 0"
  shows "owes (node_ins (f h) @ hs) (f(h := zero_slot))"
proof -
  have h: "live f h" using assms(1) owesD(3) by simp
  have "readers f h + count_list hs h = 0" using owesD(1) [OF assms(1) h] assms(3) by simp
  then show ?thesis
    using assms(1) h by (intro owes_let_go [of "h # hs"]) (auto simp: count_list_0_iff)
qed

lemma wipe_frame: "wipe T h (slot_upd h g s) =
    s\<lparr>s_slots := (s_slots s)(h := zero_slot), s_w := s_w (wipe T h (slot_upd h g s))\<rparr>"
  by (cases s) (simp add: wipe_def slot_upd_def del_eh_def split: option.split)

text \<open>Induction over what is still to be let go, by what becomes of the first of it.\<close>

lemma unrefs_induct [case_names Nil Dead Goes Stays]:
  assumes "\<And>T s. P T [] s"
    and "\<And>T h hs s. \<not> live (s_slots s) h \<Longrightarrow> P T hs s \<Longrightarrow> unrefs T (h # hs) s = unrefs T hs s \<Longrightarrow> P T (h # hs) s"
    and "\<And>T h hs s t. live (s_slots s) h \<Longrightarrow> sl_released (s_slots s h) \<Longrightarrow> sl_refs (s_slots s h) - 1 = 0 \<Longrightarrow>
      s_slots t = (s_slots s)(h := zero_slot) \<Longrightarrow> s\<lparr>s_slots := s_slots t, s_w := s_w t\<rparr> = t \<Longrightarrow>
      P T (node_ins (s_slots s h) @ hs) t \<Longrightarrow> unrefs T (h # hs) s = unrefs T (node_ins (s_slots s h) @ hs) t \<Longrightarrow>
      P T (h # hs) s"
    and "\<And>T h hs s t. live (s_slots s) h \<Longrightarrow> (sl_released (s_slots s h) \<Longrightarrow> 0 < sl_refs (s_slots s h) - 1) \<Longrightarrow>
      s_slots t = (s_slots s)(h := unheld (s_slots s h)) \<Longrightarrow> s\<lparr>s_slots := s_slots t, s_w := s_w t\<rparr> = t \<Longrightarrow>
      P T hs t \<Longrightarrow> unrefs T (h # hs) s = unrefs T hs t \<Longrightarrow> P T (h # hs) s"
  shows "P T hs s"
proof (induction T hs s rule: unrefs.induct)
  case (2 T h hs s)
  let ?t = "slot_upd h unheld s"
  consider "\<not> live (s_slots s) h"
    | "live (s_slots s) h" "sl_released (s_slots ?t h) \<and> sl_refs (s_slots ?t h) = 0"
    | "live (s_slots s) h" "\<not> (sl_released (s_slots ?t h) \<and> sl_refs (s_slots ?t h) = 0)"
    by blast
  then show ?case
  proof cases
    case 1
    show ?thesis by (rule assms(2) [OF 1 2(1) [OF 1]]) (use 1 in simp)
  next
    case a: 2
    show ?thesis
    proof (rule assms(3) [of s h "wipe T h ?t" T hs])
      show "P T (node_ins (s_slots s h) @ hs) (wipe T h ?t)"
        using a(1) 2(2) [OF _ refl refl a(2)] by simp
      show "s\<lparr>s_slots := s_slots (wipe T h ?t), s_w := s_w (wipe T h ?t)\<rparr> = wipe T h ?t"
        using wipe_frame [of T h unheld s] by simp
    qed (use a in \<open>simp_all add: Let_def\<close>)
  next
    case a: 3
    show ?thesis
    proof (rule assms(4) [of s h ?t T hs])
      show "P T hs ?t"
        using a(1) 2(3) [OF _ refl refl a(2)] by simp
    qed (use a in \<open>auto simp: Let_def slot_upd_def\<close>)
  qed
qed (rule assms)

lemma owes_unrefs: "owes hs (s_slots s) \<Longrightarrow> owes [] (s_slots (unrefs T hs s))"
proof (induction T hs s rule: unrefs_induct)
  case (Dead T h hs s)
  then show ?case using owesD(3) by simp
next
  case (Goes T h hs s t)
  then have "owes (node_ins (s_slots s h) @ hs) (s_slots t)"
    using owes_wiped by metis
  then show ?case using Goes.IH Goes.hyps(6) by metis
next
  case (Stays T h hs s t)
  then have "slot_fine (unheld (s_slots s h))"
    using owesD(4) [OF Stays.prems Stays.hyps(1)] by (auto simp: slot_fine_def)
  then have "owes hs (s_slots t)" using owes_unheld Stays by metis
  then show ?case using Stays.IH Stays.hyps(5) by metis
qed simp

text \<open>What letting go leaves alone: it only counts down, or takes what was released.\<close>

definition let_go :: "(int \<Rightarrow> tf_slot) \<Rightarrow> (int \<Rightarrow> tf_slot) \<Rightarrow> bool" where
  "let_go f g \<longleftrightarrow> (\<forall>h. g h = (f h)\<lparr>sl_refs := sl_refs (g h)\<rparr> \<or> sl_released (f h) \<and> sl_kind (g h) = K_FREE)"

lemma refs_only_trans: "b = a\<lparr>sl_refs := m\<rparr> \<Longrightarrow> c = b\<lparr>sl_refs := n\<rparr> \<Longrightarrow> c = a\<lparr>sl_refs := n\<rparr>" for a :: tf_slot
  by simp

lemma let_go_refl: "let_go f f"
  by (simp add: let_go_def)

lemma let_go_trans:
  assumes "let_go f g" and "let_go g k"
  shows "let_go f k"
  unfolding let_go_def
proof
  fix h
  consider "g h = (f h)\<lparr>sl_refs := sl_refs (g h)\<rparr>" "k h = (g h)\<lparr>sl_refs := sl_refs (k h)\<rparr>"
    | "g h = (f h)\<lparr>sl_refs := sl_refs (g h)\<rparr>" "sl_released (g h)" "sl_kind (k h) = K_FREE"
    | "sl_released (f h)" "sl_kind (g h) = K_FREE" "k h = (g h)\<lparr>sl_refs := sl_refs (k h)\<rparr>"
    | "sl_released (f h)" "sl_kind (k h) = K_FREE"
    using assms unfolding let_go_def by blast
  then show "k h = (f h)\<lparr>sl_refs := sl_refs (k h)\<rparr> \<or> sl_released (f h) \<and> sl_kind (k h) = K_FREE"
  proof cases
    case 1
    then show ?thesis using refs_only_trans by blast
  next
    case 2
    then have "sl_released (f h)" by (metis tf_slot.select_convs(6) tf_slot.surjective tf_slot.update_convs(5))
    then show ?thesis using 2 by simp
  next
    case 3
    then have "sl_kind (k h) = K_FREE" by (metis tf_slot.select_convs(1) tf_slot.surjective tf_slot.update_convs(5))
    then show ?thesis using 3 by simp
  qed simp
qed

lemma let_go_kept:
  assumes "let_go f g" and "\<not> sl_released (f h)"
  shows "g h = (f h)\<lparr>sl_refs := sl_refs (g h)\<rparr>"
  using assms by (auto simp: let_go_def)

lemma let_go_unrefs: "let_go (s_slots s) (s_slots (unrefs T hs s))"
proof (induction T hs s rule: unrefs_induct)
  case (Goes T h hs s t)
  then have "let_go (s_slots s) (s_slots t)" by (simp add: let_go_def)
  then show ?case using Goes let_go_trans by metis
next
  case (Stays T h hs s t)
  then have "let_go (s_slots s) (s_slots t)" by (simp add: let_go_def)
  then show ?case using Stays let_go_trans by metis
qed (simp_all add: let_go_refl)

text \<open>Nothing but the table and the library's state changes.\<close>

lemma frame_trans:
  "s\<lparr>s_slots := f, s_w := w\<rparr> = t \<Longrightarrow> u = t\<lparr>s_slots := g, s_w := v\<rparr> \<Longrightarrow> u = s\<lparr>s_slots := g, s_w := v\<rparr>"
  by auto

lemma unrefs_frame: "unrefs T hs s = s\<lparr>s_slots := s_slots (unrefs T hs s), s_w := s_w (unrefs T hs s)\<rparr>"
proof (induction T hs s rule: unrefs_induct)
  case (Goes T h hs s t)
  then show ?case by (metis frame_trans)
next
  case (Stays T h hs s t)
  then show ?case by (metis frame_trans)
qed simp_all

lemma s_cursor_unrefs [simp]: "s_cursor (unrefs T hs s) = s_cursor s"
  by (subst unrefs_frame) simp

lemma s_entries_unrefs [simp]: "s_entries (unrefs T hs s) = s_entries s"
  by (subst unrefs_frame) simp

text \<open>A slot nothing reads is not touched.\<close>

lemma unrefs_idle:
  "owes hs (s_slots s) \<Longrightarrow> live (s_slots s) x \<Longrightarrow> sl_refs (s_slots s x) = 0 \<Longrightarrow>
    s_slots (unrefs T hs s) x = s_slots s x"
proof (induction T hs s rule: unrefs_induct)
  case (Dead T h hs s)
  then show ?case using owesD(3) by simp
next
  case (Goes T h hs s t)
  then have "x \<noteq> h" using owesD(1) [OF Goes.prems(1,2)] by auto
  then have "live (s_slots t) x" and "s_slots t x = s_slots s x"
    using Goes by (simp_all add: live_def)
  moreover have "owes (node_ins (s_slots s h) @ hs) (s_slots t)"
    using owes_wiped Goes by metis
  ultimately show ?case using Goes.IH Goes.hyps(6) Goes.prems(3) by metis
next
  case (Stays T h hs s t)
  then have "x \<noteq> h" using owesD(1) [OF Stays.prems(1,2)] by auto
  then have "live (s_slots t) x" and "s_slots t x = s_slots s x"
    using Stays by (simp_all add: live_def)
  moreover have "slot_fine (unheld (s_slots s h))"
    using Stays.hyps(2) owesD(4) [OF Stays.prems(1) Stays.hyps(1)] by (auto simp: slot_fine_def)
  then have "owes hs (s_slots t)" using owes_unheld Stays.prems(1) Stays.hyps(3) by metis
  ultimately show ?case using Stays.IH Stays.hyps(5) Stays.prems(3) by metis
qed simp

text \<open>References taken, and a slot that comes into use and reads what is owed.\<close>

lemma owes_cong:
  assumes "\<And>x. count_list hs x = count_list ks x"
  shows "owes hs f = owes ks f"
proof -
  have "set hs = set ks" using assms count_list_0_iff by (metis subsetI subset_antisym)
  then show ?thesis by (simp add: owes_def assms)
qed

lemma owes_held:
  assumes "owes hs f" and "live f h"
  shows "owes (h # hs) (f(h := f h\<lparr>sl_refs := Suc (sl_refs (f h))\<rparr>))"
proof -
  have [simp]: "live (f(h := f h\<lparr>sl_refs := n\<rparr>)) = live f" for n by (rule live_cong) simp
  have [simp]: "readers (f(h := f h\<lparr>sl_refs := n\<rparr>)) = readers f" for n by (rule readers_cong) simp
  show ?thesis
  proof (rule owesI, goal_cases)
    case (1 x)
    then show ?case using owesD(1) [OF assms(1), of x] by (cases "x = h") auto
  next
    case (2 g i)
    then show ?case using owesD(2) [OF assms(1), of g i] by (cases "g = h") auto
  next
    case (4 x)
    then show ?case using owesD(4) [OF assms(1), of x] by (cases "x = h") (auto simp: slot_fine_def)
  next
    case 5
    show ?case using assms(2) owesD(5) [OF assms(1)] by (intro acyclic_ins_upd) auto
  qed (use assms(2) owesD(3) [OF assms(1)] in auto)
qed

lemma owes_hold: "owes hs (s_slots s) \<Longrightarrow> (\<And>i. i \<in> set ins \<Longrightarrow> live (s_slots s) i) \<Longrightarrow>
    owes (ins @ hs) (s_slots (hold ins s))"
proof (induction ins arbitrary: hs s)
  case (Cons i ins)
  let ?s = "slot_upd i (\<lambda>sl. sl\<lparr>sl_refs := Suc (sl_refs sl)\<rparr>) s"
  have "live (s_slots ?s) j" if "j \<in> set ins" for j
    using Cons.prems(2) [of j] that by (auto simp: live_def)
  moreover have "owes (i # hs) (s_slots ?s)" using owes_held [OF Cons.prems(1)] Cons.prems(2) by simp
  ultimately have "owes (ins @ i # hs) (s_slots (hold ins ?s))" using Cons.IH by blast
  moreover have "owes (ins @ i # hs) f = owes ((i # ins) @ hs) f" for f by (rule owes_cong) simp
  ultimately show ?case by (simp add: hold_def)
qed (simp add: hold_def)

lemma hold_other: "h \<notin> set ins \<Longrightarrow> s_slots (hold ins s) h = s_slots s h"
  by (induction ins arbitrary: s) (simp_all add: hold_def)

lemma hold_kept: "s_slots (hold ins s) h = (s_slots s h)\<lparr>sl_refs := sl_refs (s_slots (hold ins s) h)\<rparr>"
proof (induction ins arbitrary: s)
  case (Cons i ins)
  let ?s = "slot_upd i (\<lambda>sl. sl\<lparr>sl_refs := Suc (sl_refs sl)\<rparr>) s"
  have "s_slots ?s h = (s_slots s h)\<lparr>sl_refs := sl_refs (s_slots ?s h)\<rparr>" by simp
  from refs_only_trans [OF this Cons.IH] show ?case by (simp add: hold_def)
qed (simp add: hold_def)

lemma owes_born:
  assumes "owes (node_ins v @ hs) f" and "0 < h" "h < TF_SLOTS" "sl_kind (f h) = K_FREE"
    and "sl_kind v \<noteq> K_FREE" "sl_refs v = 0" "slot_fine v"
  shows "owes hs (f(h := v))" (is "owes hs ?f")
proof -
  have dead: "\<not> live f h" using assms(4) by (simp add: live_def)
  have live: "live ?f x \<longleftrightarrow> x = h \<or> live f x" for x using assms(2-5) by (auto simp: live_def)
  have rd: "readers ?f x = readers f x + count_list (node_ins v) x" for x
    using readers_upd [OF assms(2,3), of f v x] assms(4) by (simp add: node_ins_def)
  have ne: "x \<noteq> h" if "x \<in> set (node_ins v @ hs)" for x using that owesD(3) [OF assms(1)] dead by metis
  have "readers f h = 0" using owes_unread [OF assms(1) dead] .
  then have h0: "readers ?f h = 0" "count_list hs h = 0" using rd [of h] ne by (auto simp: count_list_0_iff)
  obtain rank :: "int \<Rightarrow> nat" where r: "\<And>g i. live f g \<Longrightarrow> i \<in> set (node_ins (f g)) \<Longrightarrow> rank i < rank g"
    using owesD(5) [OF assms(1)] by (auto simp: acyclic_ins_def)
  let ?rank = "rank(h := Suc (sum_list (map rank (node_ins v))))"
  have "?rank i < ?rank g" if g: "live ?f g" and i: "i \<in> set (node_ins (?f g))" for g i
  proof (cases "g = h")
    case True
    then have i': "i \<in> set (node_ins v)" using i by simp
    then have "rank i \<le> sum_list (map rank (node_ins v))" by (simp add: member_le_sum_list)
    then show ?thesis using True ne [of i] i' by auto
  next
    case False
    then have "live f g" "i \<in> set (node_ins (f g))" using g i live by auto
    moreover from this have "i \<noteq> h" using owesD(2) [OF assms(1)] dead by metis
    ultimately show ?thesis using r False by simp
  qed
  then have ac: "acyclic_ins ?f" unfolding acyclic_ins_def by blast
  show ?thesis
  proof (rule owesI, goal_cases)
    case (1 x)
    then show ?case using owesD(1) [OF assms(1), of x] rd h0 assms(6) by (cases "x = h") (auto simp: live)
  next
    case (2 g i)
    then show ?case using owesD(2,3) [OF assms(1)] by (cases "g = h") (auto simp: live)
  qed (use ac assms(7) owesD(3,4) [OF assms(1)] live in \<open>auto split: if_splits\<close>)
qed

text \<open>
  Letting go of handles of \<open>E\<close> touches nothing outside \<open>E\<close>, when what is released in \<open>E\<close> reads only \<open>E\<close>.
\<close>

lemma unrefs_within:
  "set hs \<subseteq> E \<Longrightarrow> (\<And>x. x \<in> E \<Longrightarrow> sl_released (s_slots s x) \<Longrightarrow> set (node_ins (s_slots s x)) \<subseteq> E) \<Longrightarrow> y \<notin> E \<Longrightarrow>
    s_slots (unrefs T hs s) y = s_slots s y"
proof (induction T hs s rule: unrefs_induct)
  case (Goes T h hs s t)
  have "s_slots (unrefs T (node_ins (s_slots s h) @ hs) t) y = s_slots t y"
    by (rule Goes.IH) (use Goes in \<open>auto split: if_splits\<close>)
  then show ?case using Goes by auto
next
  case (Stays T h hs s t)
  have "s_slots (unrefs T hs t) y = s_slots t y"
    by (rule Stays.IH) (use Stays in \<open>auto split: if_splits\<close>)
  then show ?case using Stays by auto
next
  case (Dead T h hs s)
  then show ?case by (metis list.set_intros(2) subset_iff)
qed simp

end
