(* ===== verification/Tf_Table.thy ===== *)
theory Tf_Table
  imports Tf_Slots
begin

text \<open>
  Every operation on the slot table keeps \<open>tab_ok\<close>, and a handle the program holds stays good until
  the program frees it; \<open>slot_new\<close> finds a free slot whenever there is one.
\<close>

section \<open>Free slots\<close>

text \<open>The slot \<open>k\<close> places after \<open>i\<close> on the way round the table.\<close>

definition slot_after :: "int \<Rightarrow> nat \<Rightarrow> int" where
  "slot_after i k = (i - 1 + int k) mod (TF_SLOTS - 1) + 1"

lemma slot_after_Suc:
  assumes "0 < i" and "i < TF_SLOTS"
  shows "slot_after (if i + 1 < TF_SLOTS then i + 1 else 1) k = slot_after i (Suc k)"
proof (cases "i + 1 < TF_SLOTS")
  case False
  then have "i - 1 + int (Suc k) = int k + (TF_SLOTS - 1)" using assms by simp
  then show ?thesis unfolding slot_after_def using False by (simp only: mod_add_self2) simp
qed (simp add: slot_after_def algebra_simps)

lemma slot_after_onto:
  assumes "0 < i" "i < TF_SLOTS" and "0 < h" "h < TF_SLOTS"
  shows "\<exists>k < nat (TF_SLOTS - 1). slot_after i k = h"
proof -
  let ?n = "TF_SLOTS - 1" and ?k = "nat ((h - i) mod (TF_SLOTS - 1))"
  have n: "0 < ?n" by (simp add: TF_SLOTS_def)
  then have k: "int ?k = (h - i) mod ?n" by simp
  have "slot_after i ?k = (i - 1 + (h - i)) mod ?n + 1"
    unfolding slot_after_def k by (rule arg_cong [where f = "\<lambda>x. x + 1"]) (rule mod_add_right_eq)
  also have "\<dots> = h" using assms(3,4) by (simp add: mod_pos_pos_trivial)
  finally have "slot_after i ?k = h" .
  moreover have "?k < nat ?n" using n by (simp add: nat_mono_iff)
  ultimately show ?thesis by blast
qed

text \<open>What a scan leaves: everything but the cursor and, when it found one, the slot it found.\<close>

lemma slot_scan_cases:
  assumes "0 < s_cursor s" and "s_cursor s < TF_SLOTS"
  shows "(\<exists>i c. slot_scan n s = One i (s\<lparr>s_cursor := c, s_slots := (s_slots s)(i := zero_slot)\<rparr>) \<and>
        0 < c \<and> c < TF_SLOTS \<and> 0 < i \<and> i < TF_SLOTS \<and> sl_kind (s_slots s i) = K_FREE) \<or>
     (\<exists>c. slot_scan n s = Zero (s\<lparr>s_cursor := c, s_err := snprintf_s 512 ''handle table full''\<rparr>) \<and>
        0 < c \<and> c < TF_SLOTS \<and> (\<forall>k < n. sl_kind (s_slots s (slot_after (s_cursor s) k)) \<noteq> K_FREE))"
  using assms
proof (induction n arbitrary: s)
  case 0
  then show ?case by (auto simp: tf_fail_def intro!: exI [of _ "s_cursor s"])
next
  case (Suc n)
  let ?i = "s_cursor s" let ?c = "if ?i + 1 < TF_SLOTS then ?i + 1 else 1"
  let ?t = "s\<lparr>s_cursor := ?c\<rparr>"
  have c: "0 < ?c" "?c < TF_SLOTS" using Suc.prems by (simp_all add: TF_SLOTS_def)
  have i: "slot_after ?i 0 = ?i" using Suc.prems by (simp add: slot_after_def mod_pos_pos_trivial)
  show ?case
  proof (cases "sl_kind (s_slots s ?i) = K_FREE")
    case True
    have "slot_scan (Suc n) s = One ?i (s\<lparr>s_cursor := ?c, s_slots := (s_slots s)(?i := zero_slot)\<rparr>)"
      using True by (simp add: Let_def slot_upd_def)
    then show ?thesis using Suc.prems c True by blast
  next
    case False
    have step: "slot_scan (Suc n) s = slot_scan n ?t" using False by (simp add: Let_def)
    have "(\<forall>k < Suc n. sl_kind (s_slots s (slot_after ?i k)) \<noteq> K_FREE) \<longleftrightarrow>
        (\<forall>k < n. sl_kind (s_slots s (slot_after ?c k)) \<noteq> K_FREE)"
      using False i slot_after_Suc [OF Suc.prems] by (simp add: All_less_Suc2)
    then show ?thesis using Suc.IH [of ?t] c unfolding step by simp
  qed
qed

lemma slot_new_cases:
  assumes "tab_ok s"
  obtains (found) i c where "slot_new s = One i (s\<lparr>s_cursor := c, s_slots := (s_slots s)(i := zero_slot)\<rparr>)"
      "0 < c" "c < TF_SLOTS" "0 < i" "i < TF_SLOTS" "sl_kind (s_slots s i) = K_FREE"
    | (full) c where "slot_new s = Zero (s\<lparr>s_cursor := c, s_err := snprintf_s 512 ''handle table full''\<rparr>)"
      "0 < c" "c < TF_SLOTS" "\<And>h. 0 < h \<Longrightarrow> h < TF_SLOTS \<Longrightarrow> live (s_slots s) h"
proof -
  have cur: "0 < s_cursor s" "s_cursor s < TF_SLOTS" using assms by (simp_all add: tab_ok_def)
  from slot_scan_cases [OF cur, of "nat (TF_SLOTS - 1)"] show ?thesis
  proof (elim disjE exE conjE)
    fix c
    assume *: "slot_scan (nat (TF_SLOTS - 1)) s = Zero (s\<lparr>s_cursor := c, s_err := snprintf_s 512 ''handle table full''\<rparr>)"
      "0 < c" "c < TF_SLOTS"
      and all: "\<forall>k < nat (TF_SLOTS - 1). sl_kind (s_slots s (slot_after (s_cursor s) k)) \<noteq> K_FREE"
    have "live (s_slots s) h" if h: "0 < h" "h < TF_SLOTS" for h
    proof -
      obtain k where "k < nat (TF_SLOTS - 1)" "slot_after (s_cursor s) k = h"
        using slot_after_onto [OF cur h] by blast
      then show ?thesis using all h by (auto simp: live_def)
    qed
    with * show ?thesis by (intro full) (simp_all add: slot_new_def)
  qed (intro found, simp_all add: slot_new_def)
qed

section \<open>The operations\<close>

lemma tfb_exists_cong: "s_slots t = s_slots s \<Longrightarrow> tfb_exists t = tfb_exists s"
  by (rule ext) (simp add: tfb_exists_def)

lemma tfb_exists_live: "tfb_exists s h \<longleftrightarrow> live (s_slots s) h \<and> \<not> sl_released (s_slots s h)"
  by (auto simp: tfb_exists_def live_def)

lemma exists_let_go:
  assumes "let_go (s_slots s) (s_slots t)" and "tfb_exists s h"
  shows "tfb_exists t h"
proof -
  have "s_slots t h = (s_slots s h)\<lparr>sl_refs := sl_refs (s_slots t h)\<rparr>"
    using assms let_go_kept by (simp add: tfb_exists_def)
  then have "sl_kind (s_slots t h) = sl_kind (s_slots s h)" "sl_released (s_slots t h) = sl_released (s_slots s h)"
    by (metis tf_slot.select_convs(1,6) tf_slot.surjective tf_slot.update_convs(5))+
  then show ?thesis using assms(2) by (simp add: tfb_exists_def)
qed

text \<open>\<open>t\<close> is \<open>s\<close> but for the slot \<open>h\<close>, which was free.\<close>

definition adds :: "'w tfb \<Rightarrow> int \<Rightarrow> 'w tfb \<Rightarrow> bool" where
  "adds s h t \<longleftrightarrow> 0 < h \<and> h < TF_SLOTS \<and> sl_kind (s_slots s h) = K_FREE \<and>
     (\<forall>x. x \<noteq> h \<longrightarrow> s_slots t x = s_slots s x) \<and> 0 < s_cursor t \<and> s_cursor t < TF_SLOTS \<and>
     s_entries t = s_entries s"

text \<open>A slot holding a value and nothing else, read by nothing yet.\<close>

definition value_slot :: "tf_slot \<Rightarrow> bool" where
  "value_slot v \<longleftrightarrow> sl_kind v = K_VALUE \<and> sl_refs v = 0 \<and> \<not> sl_released v \<and> sl_eh v \<noteq> None \<and>
     sl_shape_known v \<and> \<not> sl_is_param v \<and> \<not> sl_under_param v \<and> (sl_ckey v \<longrightarrow> sl_dtype v = TF_INT32)"

lemma adds_upd: "adds s h t \<Longrightarrow> s_slots t = (s_slots s)(h := s_slots t h)"
  by (rule ext) (simp add: adds_def)

lemma tab_ok_adds_value:
  assumes "tab_ok s" and "adds s h t" and "value_slot (s_slots t h)"
  shows "tab_ok t" and "tfb_exists s x \<Longrightarrow> tfb_exists t x" and "\<not> tfb_exists s h" and "tfb_exists t h"
proof -
  have "owes [] ((s_slots s)(h := s_slots t h))"
    using assms by (intro owes_born) (auto simp: tab_ok_def slot_fine_def node_ins_def adds_def value_slot_def)
  then show "tab_ok t" using assms(2) adds_upd [OF assms(2)] by (simp add: tab_ok_def adds_def)
  show "tfb_exists s x \<Longrightarrow> tfb_exists t x"
    using assms by (cases "x = h") (auto simp: tfb_exists_def adds_def)
  show "\<not> tfb_exists s h" "tfb_exists t h"
    using assms by (auto simp: tfb_exists_def adds_def value_slot_def)
qed

lemma owes_free_upd:
  assumes "owes hs f" and "sl_kind (f h) = K_FREE" and "sl_kind v = K_FREE"
  shows "owes hs (f(h := v))"
proof -
  have [simp]: "live (f(h := v)) = live f" using assms(2,3) by (intro live_cong) simp
  have [simp]: "readers (f(h := v)) = readers f" using assms(2,3) by (intro readers_cong) (simp add: node_ins_def)
  have "\<not> live f h" using assms(2) by (simp add: live_def)
  then show ?thesis using assms(2,3) owesD [OF assms(1)]
    by (intro owesI acyclic_ins_upd) (auto simp: node_ins_def split: if_splits)
qed

lemma tab_ok_adds_free:
  assumes "tab_ok s" and "adds s h t" and "sl_kind (s_slots t h) = K_FREE"
  shows "tab_ok t" and "tfb_exists s x \<Longrightarrow> tfb_exists t x"
proof -
  have "owes [] ((s_slots s)(h := s_slots t h))"
    using assms by (intro owes_free_upd) (simp_all add: tab_ok_def adds_def)
  then show "tab_ok t" using assms(2) adds_upd [OF assms(2)] by (simp add: tab_ok_def adds_def)
  show "tfb_exists s x \<Longrightarrow> tfb_exists t x"
    using assms by (cases "x = h") (auto simp: tfb_exists_def adds_def)
qed

text \<open>What a call that makes one slot does, in one of its three ways.\<close>

definition one_value :: "(tf_slot \<Rightarrow> bool) \<Rightarrow> 'w tfb \<Rightarrow> ('w tfb, int) outcome \<Rightarrow> bool" where
  "one_value P s r = (case r of
       One h t \<Rightarrow> adds s h t \<and> value_slot (s_slots t h) \<and> P (s_slots t h)
     | Zero t \<Rightarrow> (\<exists>h. adds s h t \<and> sl_kind (s_slots t h) = K_FREE) \<or>
         s_slots t = s_slots s \<and> 0 < s_cursor t \<and> s_cursor t < TF_SLOTS \<and> s_entries t = s_entries s
     | Waits t \<Rightarrow> False)"

lemma placed_frame [simp]:
  "s_slots (snd (placed T e s)) = s_slots s" "s_cursor (snd (placed T e s)) = s_cursor s"
  "s_entries (snd (placed T e s)) = s_entries s"
  by (simp_all add: placed_def split: prod.split sum.split)

lemma zero_slot_simps [simp]:
  "sl_refs zero_slot = 0" "\<not> sl_released zero_slot" "sl_eh zero_slot = None" "\<not> sl_is_param zero_slot"
  "\<not> sl_under_param zero_slot" "sl_val zero_slot = None" "\<not> sl_ckey zero_slot"
  by (simp_all add: zero_slot_def)

lemma slot_from_tensor_value:
  assumes "tab_ok s" and "ckey \<Longrightarrow> t_dtype x = TF_INT32"
  shows "one_value (\<lambda>v. sl_shape v = take TF_MAXDIM (t_shape x) \<and> sl_dtype v = t_dtype x \<and> sl_ckey v = ckey \<and>
      sl_val v = (if ckey then Some x else None)) s (slot_from_tensor T x ckey s)"
  using assms(1)
proof (cases rule: slot_new_cases)
  case (found i c)
  then show ?thesis using assms(2)
    by (auto simp: slot_from_tensor_def andthen_def Let_def one_value_def adds_def value_slot_def split_beta
        set_shape_from_tensor_def split: sum.splits)
next
  case (full c)
  then show ?thesis by (simp add: slot_from_tensor_def andthen_def one_value_def)
qed

lemma slot_from_handle_value:
  assumes "tab_ok s"
  shows "one_value (\<lambda>v. sl_eh v = Some e \<and> \<not> sl_ckey v) s (slot_from_handle T e s)"
  using assms
proof (cases rule: slot_new_cases)
  case (found i c)
  then show ?thesis
    by (auto simp: slot_from_handle_def Let_def one_value_def adds_def value_slot_def take_handle_def)
next
  case (full c)
  then show ?thesis by (simp add: slot_from_handle_def one_value_def)
qed

lemma remember_scalar_frame [simp]:
  "s_slots (remember_scalar T f k s) = s_slots s" "s_cursor (remember_scalar T f k s) = s_cursor s"
  "s_entries (remember_scalar T f k s) = s_entries s"
  by (simp_all add: remember_scalar_def Let_def del_eh_def)

lemma tab_ok_upd:
  assumes "tab_ok s" and "live (s_slots s) h" and "s_slots t = (s_slots s)(h := v)" and "s_cursor t = s_cursor s"
    and "node_ins v = node_ins (s_slots s h)" "sl_kind v \<noteq> K_FREE" "sl_refs v = sl_refs (s_slots s h)" "slot_fine v"
  shows "tab_ok t"
  using assms owes_upd [of "[]" "s_slots s" h v] by (simp add: tab_ok_def)

lemma take_handle_slots:
  "x \<noteq> h \<Longrightarrow> s_slots (take_handle T h e s) x = s_slots s x"
  "sl_kind (s_slots (take_handle T h e s) x) = sl_kind (s_slots s x)"
  "sl_spec (s_slots (take_handle T h e s) x) = sl_spec (s_slots s x)"
  "sl_refs (s_slots (take_handle T h e s) x) = sl_refs (s_slots s x)"
  "sl_released (s_slots (take_handle T h e s) x) = sl_released (s_slots s x)"
  "sl_is_param (s_slots (take_handle T h e s) x) = sl_is_param (s_slots s x)"
  "sl_under_param (s_slots (take_handle T h e s) x) = sl_under_param (s_slots s x)"
  "sl_eh (s_slots (take_handle T h e s) h) = Some e"
  by (auto simp: take_handle_def Let_def)

lemma drop_structure_ok:
  assumes "tab_ok s" and "live (s_slots s) h" and "sl_eh (s_slots s h) \<noteq> None"
  shows "tab_ok (drop_structure T h s)"
proof (cases "sl_kind (s_slots s h) = K_NODE")
  case True
  let ?g = "\<lambda>sl. sl\<lparr>sl_spec := no_spec, sl_kind := K_VALUE\<rparr>"
  have "owes (node_ins (s_slots s h) @ []) ((s_slots s)(h := ?g (s_slots s h)))"
    using assms owesD(4) [of "[]" "s_slots s" h]
    by (intro owes_let_go [of "[]"]) (auto simp: tab_ok_def node_ins_def slot_fine_def)
  then have "owes (sp_in (sl_spec (s_slots s h))) (s_slots (slot_upd h ?g s))"
    using True by (simp add: node_ins_def)
  from owes_unrefs [OF this, of T] True have "owes [] (s_slots (drop_structure T h s))"
    by (simp add: drop_structure_def)
  then show ?thesis using assms(1) by (simp add: tab_ok_def drop_structure_def)
qed (use assms(1) in \<open>simp add: drop_structure_def\<close>)

text \<open>A node gets its value, and lets go of its inputs when it is a boundary or no parameter is under it.\<close>

definition give_value :: "'w tf \<Rightarrow> int \<Rightarrow> nat \<Rightarrow> 'w tfb \<Rightarrow> 'w tfb" where
  "give_value T h e s =
     (let s = take_handle T h e s; s = s\<lparr>s_exe := s_exe s + 1\<rparr>; sl = s_slots s h in
      if \<not> sl_under_param sl \<or> sl_is_param sl then drop_structure T h s else s)"

lemma take_handle_frame [simp]: "s_cursor (take_handle T h e s) = s_cursor s" "s_entries (take_handle T h e s) = s_entries s"
  by (simp_all add: take_handle_def Let_def)

lemma drop_structure_frame [simp]:
  "s_cursor (drop_structure T h s) = s_cursor s" "s_entries (drop_structure T h s) = s_entries s"
  by (simp_all add: drop_structure_def)

lemma give_value_frame [simp]: "s_cursor (give_value T h e s) = s_cursor s" "s_entries (give_value T h e s) = s_entries s"
  by (simp_all add: give_value_def Let_def)

lemma tfb_free_frame [simp]: "s_entries (snd (tfb_free T h s)) = s_entries s"
  by (simp add: tfb_free_def Let_def really_free_def wipe_def)

lemma give_value_ok:
  assumes "tab_ok s" and "live (s_slots s) h" and "sl_kind (s_slots s h) = K_NODE"
    and "sl_released (s_slots s h) \<Longrightarrow> sl_is_param (s_slots s h)"
  shows "tab_ok (give_value T h e s)"
proof -
  let ?t = "take_handle T h e s" let ?v = "s_slots ?t h"
  have f: "owes [] (s_slots s)" using assms(1) by (simp add: tab_ok_def)
  note fine = owesD(4) [OF f assms(2)]
  have t: "s_slots ?t = (s_slots s)(h := ?v)" by (rule ext) (simp add: take_handle_slots)
  have t': "(s_slots ?t)(h := w) = (s_slots s)(h := w)" for w by (rule ext) (simp add: take_handle_slots)
  have v: "sl_kind ?v = K_NODE" "node_ins ?v = node_ins (s_slots s h)" "sl_spec ?v = sl_spec (s_slots s h)"
    "sl_refs ?v = sl_refs (s_slots s h)" "sl_released ?v = sl_released (s_slots s h)" "sl_eh ?v = Some e"
    "sl_shape_known ?v" "sl_ckey ?v = sl_ckey (s_slots s h)"
    using assms(3) by (simp_all add: take_handle_slots node_ins_def) (simp_all add: take_handle_def Let_def)
  show ?thesis
  proof (cases "\<not> sl_under_param (s_slots s h) \<or> sl_is_param (s_slots s h)")
    case True
    let ?u = "?v\<lparr>sl_spec := no_spec, sl_kind := K_VALUE\<rparr>"
    have "owes (node_ins (s_slots s h) @ []) ((s_slots s)(h := ?u))"
      by (rule owes_let_go [of "[]"]) (use f assms(2,3) fine v in \<open>auto simp: slot_fine_def node_ins_def\<close>)
    then have "owes (sp_in (sl_spec ?v)) (s_slots (slot_upd h (\<lambda>sl. sl\<lparr>sl_spec := no_spec, sl_kind := K_VALUE\<rparr>)
        (?t\<lparr>s_exe := s_exe ?t + 1\<rparr>)))"
      using v(1-3) assms(3) by (simp add: node_ins_def t')
    from owes_unrefs [OF this, of T] show ?thesis
      using True assms(1) v(1) by (simp add: give_value_def drop_structure_def tab_ok_def Let_def take_handle_slots)
  next
    case False
    have "owes [] ((s_slots s)(h := ?v))"
      by (rule owes_upd [OF f assms(2)]) (use assms(3,4) False fine v in \<open>auto simp: slot_fine_def\<close>)
    then have "owes [] (s_slots ?t)" using t by metis
    then show ?thesis using False assms(1)
      by (simp add: give_value_def tab_ok_def Let_def take_handle_slots)
  qed
qed

lemma drop_structure_exists:
  assumes "tfb_exists s x"
  shows "tfb_exists (drop_structure T h s) x"
proof (cases "sl_kind (s_slots s h) = K_NODE")
  case True
  have "tfb_exists (slot_upd h (\<lambda>sl. sl\<lparr>sl_spec := no_spec, sl_kind := K_VALUE\<rparr>) s) x"
    using assms by (auto simp: tfb_exists_def)
  then show ?thesis using exists_let_go [OF let_go_unrefs] True by (auto simp: drop_structure_def)
qed (use assms in \<open>simp add: drop_structure_def\<close>)

lemma give_value_exists:
  assumes "tfb_exists s x"
  shows "tfb_exists (give_value T h e s) x"
proof -
  have "tfb_exists ((take_handle T h e s)\<lparr>s_exe := n\<rparr>) x" for n
    using assms by (simp add: tfb_exists_def take_handle_slots)
  then show ?thesis by (auto simp: give_value_def Let_def intro: drop_structure_exists)
qed

lemma really_free_ok:
  assumes "owes [] ((s_slots s)(h := v))" and "0 < h" "h < TF_SLOTS" "sl_kind v \<noteq> K_FREE" "sl_refs v = 0"
    and "node_ins (s_slots s h) = node_ins v"
  shows "owes [] (s_slots (really_free T h s))"
proof -
  have live: "live ((s_slots s)(h := v)) h" using assms by (simp add: live_def)
  have "readers ((s_slots s)(h := v)) h = 0" using owesD(1) [OF assms(1) live] assms(5) by simp
  then have "owes (node_ins v @ []) (((s_slots s)(h := v))(h := zero_slot))"
    using owes_let_go [OF assms(1) live node_ins_zero_slot, of "[]"] by simp
  then show ?thesis unfolding really_free_def using assms(6) by (intro owes_unrefs) simp
qed

lemma tfb_free_ok:
  assumes "tab_ok s"
  shows "tab_ok (snd (tfb_free T h s))"
proof (cases "tfb_exists s h")
  case True
  let ?f = "s_slots s" let ?s = "slot_upd h (\<lambda>sl. sl\<lparr>sl_released := True\<rparr>) s"
  have f: "owes [] ?f" using assms by (simp add: tab_ok_def)
  have live: "live ?f h" using True tfb_exists_live by blast
  show ?thesis
  proof (cases "sl_refs (?f h) = 0")
    case z: True
    have "owes [] (s_slots (really_free T h ?s))"
      by (rule really_free_ok [of _ _ "?f h"]) (use f live z in \<open>auto simp: live_def\<close>)
    then show ?thesis using assms True z by (simp add: tfb_free_def Let_def tab_ok_def really_free_def)
  next
    case False
    have "\<not> (sl_kind (?f h) = K_NODE \<and> sl_eh (?f h) \<noteq> None) \<Longrightarrow> owes [] (?f(h := (?f h)\<lparr>sl_released := True\<rparr>))"
      and "sl_kind (?f h) = K_NODE \<Longrightarrow> owes [] (?f(h := (?f h)\<lparr>sl_released := True, sl_eh := None\<rparr>))"
      using owesD(4) [OF f live] False live
      by (auto intro!: owes_upd [OF f live] simp: live_def slot_fine_def node_ins_def)
    then show ?thesis using assms True False by (auto simp: tfb_free_def Let_def tab_ok_def)
  qed
qed (use assms in \<open>simp add: tfb_free_def\<close>)

text \<open>Freeing a handle takes that handle from the program and no other.\<close>

lemma tfb_free_exists:
  "x \<noteq> h \<Longrightarrow> tfb_exists s x \<Longrightarrow> tfb_exists (snd (tfb_free T h s)) x"
proof -
  assume x: "x \<noteq> h" "tfb_exists s x"
  let ?s = "slot_upd h (\<lambda>sl. sl\<lparr>sl_released := True\<rparr>) s"
  have "tfb_exists (wipe T h ?s) x" using x by (simp add: tfb_exists_def)
  then have "tfb_exists (really_free T h ?s) x"
    unfolding really_free_def using exists_let_go [OF let_go_unrefs] by blast
  then show ?thesis using x by (auto simp: tfb_free_def Let_def tfb_exists_def)
qed

end
