(* ===== verification/Tf_Closure.thy ===== *)
theory Tf_Closure
  imports Tf_Table
begin

text \<open>
  The closure of a tensor, its key, and its graph (backend.c, "the closure of a node, and its key" and
  "compiling a closure, once per key"). A closure lists what a tensor rests on: every node comes
  after what it reads, nothing comes twice, so that the graph is built from operations that are
  already there.
\<close>

section \<open>Collecting a closure\<close>

definition TF_KEYMAX :: nat where "TF_KEYMAX = 1048576"

text \<open>The key is a buffer of fixed size; what does not fit is cut.\<close>

definition kput :: "string \<Rightarrow> string \<Rightarrow> string" where
  "kput t key = take (TF_KEYMAX - 1) (key @ t)"

definition is_leaf :: "bool \<Rightarrow> tf_slot \<Rightarrow> bool" where
  "is_leaf grad_mode sl \<longleftrightarrow> sl_kind sl = K_VALUE \<or> sl_eh sl \<noteq> None \<and> (\<not> grad_mode \<or> sl_is_param sl)"

text \<open>
  \<open>visit\<close> calls itself over the inputs of a node and adds the node behind them. \<open>visits\<close> is that
  recursion with its stack: what is still to be entered, and the nodes to be added on the way
  back.
\<close>

datatype vitem = Enter int | Leave int

function visits :: "(int \<Rightarrow> tf_slot) \<Rightarrow> bool \<Rightarrow> vitem list \<Rightarrow> int set \<Rightarrow> closure \<Rightarrow> string + int set \<times> closure" where
  "visits f gm [] seen c = Inr (seen, c)"
| "visits f gm (Enter h # r) seen c =
     (if \<not> live f h then Inl ''a tensor this one needs has been freed''
      else if h \<in> seen then visits f gm r seen c
      else if is_leaf gm (f h)
      then if TF_MAXLEAF \<le> length (c_leaves c) then Inl ''too many leaves''
        else visits f gm r (insert h seen) (c\<lparr>c_leaves := c_leaves c @ [h]\<rparr>)
      else visits f gm (map Enter (sp_in (sl_spec (f h))) @ Leave h # r) (insert h seen) c)"
| "visits f gm (Leave h # r) seen c =
     (if TF_MAXNODE \<le> length (c_nodes c) then Inl ''too many nodes''
      else visits f gm r seen (c\<lparr>c_nodes := c_nodes c @ [h]\<rparr>))"
  by pat_completeness auto
termination visits
proof (relation "measures [\<lambda>(f, gm, r, seen, c). card (Collect (live f) - seen), \<lambda>(f, gm, r, seen, c). length r]",
    goal_cases)
  case (4 f gm h r seen c)
  have "finite (Collect (live f))"
    by (rule finite_subset [of _ "{0..TF_SLOTS}"]) (auto simp: live_def)
  then have "card (Collect (live f) - insert h seen) < card (Collect (live f) - seen)"
    using 4 by (intro psubset_card_mono) auto
  then show ?case by simp
next
  case (3 f gm h r seen c)
  have "finite (Collect (live f))"
    by (rule finite_subset [of _ "{0..TF_SLOTS}"]) (auto simp: live_def)
  then have "card (Collect (live f) - insert h seen) < card (Collect (live f) - seen)"
    using 3 by (intro psubset_card_mono) auto
  then show ?case by simp
qed simp_all

definition visit :: "(int \<Rightarrow> tf_slot) \<Rightarrow> bool \<Rightarrow> int \<Rightarrow> int set \<Rightarrow> closure \<Rightarrow> string + int set \<times> closure" where
  "visit f gm h = visits f gm [Enter h]"

fun index_of :: "int \<Rightarrow> int list \<Rightarrow> nat option" where
  "index_of h [] = None"
| "index_of h (x # xs) = (if x = h then Some 0 else map_option Suc (index_of h xs))"

definition leaf_index :: "closure \<Rightarrow> int \<Rightarrow> nat option" where
  "leaf_index c h = index_of h (c_leaves c)"

definition node_index :: "closure \<Rightarrow> int \<Rightarrow> nat option" where
  "node_index c h = index_of h (c_nodes c)"

text \<open>Where a recipe finds an input: \<open>L\<close> and its place among the leaves, or \<open>N\<close> and its place among the nodes.\<close>

definition key_ref :: "closure \<Rightarrow> int \<Rightarrow> string" where
  "key_ref c h =
     (case leaf_index c h of
        Some j \<Rightarrow> ''L'' @ show_nat j @ '',''
      | None \<Rightarrow> ''N'' @ (case node_index c h of Some i \<Rightarrow> show_nat i | None \<Rightarrow> ''-1'') @ '','')"

definition key_leaf :: "'w tf \<Rightarrow> tf_slot \<Rightarrow> nat \<Rightarrow> string \<Rightarrow> string" where
  "key_leaf T sl j key =
     (let key = kput (''L'' @ show_nat j @ '':'' @ show_nat (sl_dtype sl) @ ''['') key;
          key = fold (\<lambda>d. kput (show_int d @ '','')) (sl_shape sl) key;
          key = kput '']'' key;
          key = (case sl_val sl of
              Some t \<Rightarrow> if sl_ckey sl then
                  let key = kput ''='' key in
                  if sl_dtype sl = TF_INT32 then fold (\<lambda>v. kput (show_int v @ '','')) (take 32 (t_data t)) key
                  else if sl_dtype sl = TF_FLOAT
                  then fold (\<lambda>v. kput (show_f32 T (word_of_int v) @ '','')) (take 32 (t_data t)) key
                  else key
                else key
            | None \<Rightarrow> key)
      in kput '' '' key)"

definition key_node :: "closure \<Rightarrow> opspec \<Rightarrow> nat \<Rightarrow> bool \<Rightarrow> string \<Rightarrow> string" where
  "key_node c p i want key =
     (let key = kput (''N'' @ show_nat i @ ''='' @ sp_op p @ ''{'') key;
          key = fold (\<lambda>(a, t). kput (a @ '':'' @ show_nat t @ '','')) (sp_types p) key;
          key = fold (\<lambda>(a, v). kput (a @ '':'' @ show_int v @ '','')) (sp_ints p) key;
          key = fold (\<lambda>(a, b). kput (a @ '':'' @ (if b then ''1'' else ''0'') @ '','')) (sp_bools p) key;
          key = kput (''}'' @ show_nat (sp_list_n p) @ ''('') key;
          key = fold (\<lambda>h. kput (key_ref c h)) (sp_in p) key
      in kput ('')'' @ (if want then ''o'' else '''') @ '' '') key)"

definition wants :: "int \<Rightarrow> int \<Rightarrow> tf_slot \<Rightarrow> bool" where
  "wants h x sl \<longleftrightarrow> sl_eh sl = None \<and> (\<not> sl_released sl \<or> sl_is_param sl \<or> x = h)"

definition no_closure :: closure where
  "no_closure = \<lparr>c_leaves = [], c_nodes = [], c_want = [], c_key = ''''\<rparr>"

text \<open>The want flags and the key of a closure whose leaves and nodes are collected.\<close>

definition keyed :: "'w tf \<Rightarrow> (int \<Rightarrow> tf_slot) \<Rightarrow> int \<Rightarrow> closure \<Rightarrow> closure" where
  "keyed T f h c =
     (let c = c\<lparr>c_want := map (\<lambda>x. wants h x (f x)) (c_nodes c)\<rparr>;
          key = fold (\<lambda>(j, x). key_leaf T (f x) j) (enumerate 0 (c_leaves c)) '''';
          key = fold (\<lambda>(i, x). key_node c (sl_spec (f x)) i (c_want c ! i)) (enumerate 0 (c_nodes c)) key
      in c\<lparr>c_key := key\<rparr>)"

definition closure_of :: "'w tf \<Rightarrow> int \<Rightarrow> bool \<Rightarrow> ('w, closure) tact" where
  "closure_of T h gm =
     andthen (fetch s_slots) (\<lambda>f.
     case visit f gm h {} no_closure of
       Inl m \<Rightarrow> tf_fail m
     | Inr (_, c) \<Rightarrow> ret (keyed T f h c))"

section \<open>Compiling a closure, once per key\<close>

definition fnv :: "string \<Rightarrow> 64 word" where
  "fnv k = fold (\<lambda>b h. (h XOR ucast b) * 1099511628211) (bytes_of k) 1469598103934665603"

fun find_entry :: "string \<Rightarrow> entry list \<Rightarrow> nat option" where
  "find_entry key [] = None"
| "find_entry key (e # es) =
     (if en_hash e = fnv key \<and> en_key e = key then Some 0 else map_option Suc (find_entry key es))"

definition entry_find :: "string \<Rightarrow> 'w tfb \<Rightarrow> nat option" where
  "entry_find key s = find_entry key (s_entries s)"

text \<open>A placeholder or a Const per leaf: the graph, the outputs of the leaves, the leaves fed.\<close>

definition leaf_node :: "tf_slot \<Rightarrow> gnode" where
  "leaf_node sl = (case sl_val sl of
       Some t \<Rightarrow> if sl_ckey sl then G_const t else G_placeholder (sl_dtype sl) (sl_shape sl)
     | None \<Rightarrow> G_placeholder (sl_dtype sl) (sl_shape sl))"

definition leaf_const :: "tf_slot \<Rightarrow> bool" where
  "leaf_const sl \<longleftrightarrow> sl_ckey sl \<and> sl_val sl \<noteq> None"

primrec compile_leaves :: "'w tf \<Rightarrow> int list \<Rightarrow> gnode list \<Rightarrow> nat list \<Rightarrow> nat list \<Rightarrow>
    ('w, gnode list \<times> nat list \<times> nat list) tact" where
  "compile_leaves T [] g ph in_leaf = ret (g, ph, in_leaf)"
| "compile_leaves T (h # hs) g ph in_leaf =
     andthen (fetch (\<lambda>s. s_slots s h)) (\<lambda>sl.
     andthen (modify (\<lambda>s. s\<lparr>s_opcount := s_opcount s + 1\<rparr>)) (\<lambda>_.
     andthen (tf_check (finish_operation T g (leaf_node sl))) (\<lambda>_.
     compile_leaves T hs (g @ [leaf_node sl]) (ph @ [length g])
       (if leaf_const sl then in_leaf else in_leaf @ [length ph]))))"

definition nth_opt :: "'a list \<Rightarrow> nat \<Rightarrow> 'a option" where
  "nth_opt xs i = (if i < length xs then Some (xs ! i) else None)"

definition op_input :: "closure \<Rightarrow> nat list \<Rightarrow> nat list \<Rightarrow> int \<Rightarrow> nat option" where
  "op_input c ph outs h =
     (case leaf_index c h of
        Some j \<Rightarrow> nth_opt ph j
      | None \<Rightarrow> (case node_index c h of Some i \<Rightarrow> nth_opt outs i | None \<Rightarrow> None))"

text \<open>An operation per node: the graph, the outputs of the nodes, the nodes wanted.\<close>

primrec compile_nodes :: "'w tf \<Rightarrow> closure \<Rightarrow> nat list \<Rightarrow> int list \<Rightarrow> gnode list \<Rightarrow> nat list \<Rightarrow> nat list \<Rightarrow>
    ('w, gnode list \<times> nat list \<times> nat list) tact" where
  "compile_nodes T c ph [] g outs out_node = ret (g, outs, out_node)"
| "compile_nodes T c ph (h # hs) g outs out_node =
     andthen (fetch (\<lambda>s. sl_spec (s_slots s h))) (\<lambda>p.
     andthen (modify (\<lambda>s. s\<lparr>s_opcount := s_opcount s + 1\<rparr>)) (\<lambda>_.
     let n = G_op (p\<lparr>sp_in := []\<rparr>) (map (op_input c ph outs) (sp_in p)) in
     andthen (tf_check (finish_operation T g n)) (\<lambda>_.
     compile_nodes T c ph hs (g @ [n]) (outs @ [length g])
       (if c_want c ! length outs then out_node @ [length outs] else out_node))))"

definition new_entry :: "closure \<Rightarrow> gnode list \<Rightarrow> nat list \<Rightarrow> nat list \<Rightarrow> nat list \<Rightarrow> nat list \<Rightarrow> entry" where
  "new_entry c g ph in_leaf outs out_node =
     \<lparr>en_key = c_key c, en_hash = fnv (c_key c), en_graph = g, en_ph = ph, en_outs = outs,
      en_in_leaf = in_leaf, en_out_node = out_node, en_grads = [], en_grad_at = replicate TF_MAXPARAM None,
      en_noutputs = 0, en_calls = 0, en_fn = False, en_fname = []\<rparr>"

definition entry_compile :: "'w tf \<Rightarrow> closure \<Rightarrow> ('w, nat) tact" where
  "entry_compile T c =
     andthen (fetch (\<lambda>s. length (s_entries s))) (\<lambda>n.
     if TF_MAXENTRY \<le> n then tf_fail ''too many compiled closures'' else
     andthen (compile_leaves T (c_leaves c) [] [] []) (\<lambda>(g, ph, in_leaf).
     andthen (compile_nodes T c ph (c_nodes c) g [] []) (\<lambda>(g, outs, out_node).
     andthen (modify (\<lambda>s. s\<lparr>s_entries := s_entries s @ [new_entry c g ph in_leaf outs out_node]\<rparr>)) (\<lambda>_.
     ret n))))"

text \<open>The entry of a closure, and whether it was there.\<close>

definition entry_for :: "'w tf \<Rightarrow> closure \<Rightarrow> ('w, nat \<times> bool) tact" where
  "entry_for T c =
     andthen (fetch (entry_find (c_key c))) (\<lambda>e.
     case e of
       Some i \<Rightarrow> ret (i, True)
     | None \<Rightarrow> andthen (entry_compile T c) (\<lambda>i. ret (i, False)))"

end
