(* ===== verification/Tf_Topo.thy ===== *)
theory Tf_Topo
  imports Tf_Closure
begin

text \<open>
  What a collected closure promises (\<open>closure_ok\<close>) and what the graph compiled from it is (\<open>graph_ok\<close>):
  the nodes in an order in which each comes after what it reads, so that no operation of the graph
  is given an output that is not there yet.
\<close>

section \<open>The recursion as the code has it\<close>

lemma visits_append:
  "visits f gm (xs @ ys) seen c =
     (case visits f gm xs seen c of Inl m \<Rightarrow> Inl m | Inr (seen, c) \<Rightarrow> visits f gm ys seen c)"
  by (induction f gm xs seen c rule: visits.induct) simp_all

fun visit_all :: "(int \<Rightarrow> tf_slot) \<Rightarrow> bool \<Rightarrow> int list \<Rightarrow> int set \<Rightarrow> closure \<Rightarrow> string + int set \<times> closure" where
  "visit_all f gm [] seen c = Inr (seen, c)"
| "visit_all f gm (h # hs) seen c =
     (case visit f gm h seen c of Inl m \<Rightarrow> Inl m | Inr (seen, c) \<Rightarrow> visit_all f gm hs seen c)"

lemma visit_all_visits: "visits f gm (map Enter hs) seen c = visit_all f gm hs seen c"
proof (induction hs arbitrary: seen c)
  case (Cons h hs)
  have "visits f gm (map Enter (h # hs)) seen c = visits f gm ([Enter h] @ map Enter hs) seen c" by simp
  also have "\<dots> = (case visit f gm h seen c of Inl m \<Rightarrow> Inl m | Inr (seen, c) \<Rightarrow> visits f gm (map Enter hs) seen c)"
    unfolding visit_def by (rule visits_append)
  finally show ?case by (simp add: Cons.IH split: sum.split)
qed simp

lemma visit_code:
  "visit f gm h seen c =
     (if \<not> live f h then Inl ''a tensor this one needs has been freed''
      else if h \<in> seen then Inr (seen, c)
      else if is_leaf gm (f h)
      then if TF_MAXLEAF \<le> length (c_leaves c) then Inl ''too many leaves''
        else Inr (insert h seen, c\<lparr>c_leaves := c_leaves c @ [h]\<rparr>)
      else case visit_all f gm (sp_in (sl_spec (f h))) (insert h seen) c of
          Inl m \<Rightarrow> Inl m
        | Inr (seen, c) \<Rightarrow> if TF_MAXNODE \<le> length (c_nodes c) then Inl ''too many nodes''
            else Inr (seen, c\<lparr>c_nodes := c_nodes c @ [h]\<rparr>))"
  by (simp add: visit_def visits_append visit_all_visits split: sum.split)

section \<open>The order of a closure\<close>

definition closure_ok :: "(int \<Rightarrow> tf_slot) \<Rightarrow> bool \<Rightarrow> closure \<Rightarrow> bool" where
  "closure_ok f gm c \<longleftrightarrow> distinct (c_leaves c @ c_nodes c) \<and>
     (\<forall>x \<in> set (c_leaves c). live f x \<and> is_leaf gm (f x)) \<and>
     (\<forall>x \<in> set (c_nodes c). live f x \<and> \<not> is_leaf gm (f x)) \<and>
     (\<forall>i < length (c_nodes c). set (node_ins (f (c_nodes c ! i))) \<subseteq> set (c_leaves c) \<union> set (take i (c_nodes c)))"

fun leaving :: "vitem list \<Rightarrow> int list" where
  "leaving [] = []"
| "leaving (Enter h # r) = leaving r"
| "leaving (Leave h # r) = h # leaving r"

text \<open>
  The stack of the recursion: \<open>D\<close> is what will be in the closure by the time an item is reached, \<open>A\<close> what is
  above it; everything above a node on its way back ranks below it.
\<close>

fun stack_ok :: "(int \<Rightarrow> nat) \<Rightarrow> (int \<Rightarrow> int list) \<Rightarrow> int set \<Rightarrow> int set \<Rightarrow> vitem list \<Rightarrow> bool" where
  "stack_ok rk ins D A [] = True"
| "stack_ok rk ins D A (Enter x # r) = stack_ok rk ins (insert x D) (insert x A) r"
| "stack_ok rk ins D A (Leave h # r) =
     (set (ins h) \<subseteq> D \<and> (\<forall>x \<in> A. rk x < rk h) \<and> stack_ok rk ins (insert h D) (insert h A) r)"

lemma stack_ok_mono:
  "stack_ok rk ins D A r \<Longrightarrow> D \<subseteq> D' \<Longrightarrow> \<forall>y \<in> A'. \<exists>z \<in> A. rk y \<le> rk z \<Longrightarrow> stack_ok rk ins D' A' r"
proof (induction rk ins D A r arbitrary: D' A' rule: stack_ok.induct)
  case (2 rk ins D A x r)
  have "stack_ok rk ins (insert x D') (insert x A') r" by (rule "2.IH") (use 2(2-) in auto)
  then show ?case by simp
next
  case (3 rk ins D A h r)
  have "\<forall>x \<in> A'. rk x < rk h" using 3(2,4) by (metis order.strict_trans1 stack_ok.simps(3))
  moreover have "stack_ok rk ins (insert h D') (insert h A') r" by (rule "3.IH") (use 3(2-) in auto)
  ultimately show ?case using 3(2,3) by auto
qed simp

lemma stack_ok_above: "stack_ok rk ins D A r \<Longrightarrow> x \<in> A \<Longrightarrow> x \<notin> set (leaving r)"
  by (induction rk ins D A r rule: stack_ok.induct) auto

lemma stack_ok_enter:
  "stack_ok rk ins (D \<union> set xs) (A \<union> set xs) r \<Longrightarrow> stack_ok rk ins D A (map Enter xs @ r)"
  by (induction xs arbitrary: D A) (auto simp: Un_commute insert_commute)

definition vinv :: "(int \<Rightarrow> tf_slot) \<Rightarrow> bool \<Rightarrow> (int \<Rightarrow> nat) \<Rightarrow> vitem list \<Rightarrow> int set \<Rightarrow> closure \<Rightarrow> bool" where
  "vinv f gm rk r seen c \<longleftrightarrow> closure_ok f gm c \<and> seen = set (c_leaves c) \<union> set (c_nodes c) \<union> set (leaving r) \<and>
     distinct (c_leaves c @ c_nodes c @ leaving r) \<and> (\<forall>x \<in> set (leaving r). live f x \<and> \<not> is_leaf gm (f x)) \<and>
     stack_ok rk (\<lambda>h. node_ins (f h)) (set (c_leaves c) \<union> set (c_nodes c)) {} r"

lemma nodes_node_ins: "live f h \<Longrightarrow> \<not> is_leaf gm (f h) \<Longrightarrow> node_ins (f h) = sp_in (sl_spec (f h))"
  by (cases "sl_kind (f h)") (auto simp: node_ins_def is_leaf_def live_def)

lemma vinv_seen:
  assumes "vinv f gm rk (Enter h # r) seen c" and "h \<in> seen"
  shows "vinv f gm rk r seen c"
proof -
  let ?D = "set (c_leaves c) \<union> set (c_nodes c)"
  have s: "stack_ok rk (\<lambda>h. node_ins (f h)) (insert h ?D) {h} r" using assms(1) by (simp add: vinv_def)
  then have "h \<notin> set (leaving r)" by (rule stack_ok_above) simp
  then have "h \<in> ?D" using assms by (auto simp: vinv_def)
  then have "insert h ?D = ?D" by blast
  then have "stack_ok rk (\<lambda>h. node_ins (f h)) ?D {} r" using stack_ok_mono [OF s, of ?D "{}"] by simp
  then show ?thesis using assms(1) by (simp add: vinv_def)
qed

lemma vinv_leaf:
  assumes "vinv f gm rk (Enter h # r) seen c" and "live f h" "h \<notin> seen" "is_leaf gm (f h)"
  shows "vinv f gm rk r (insert h seen) (c\<lparr>c_leaves := c_leaves c @ [h]\<rparr>)"
proof -
  let ?D = "set (c_leaves c) \<union> set (c_nodes c)"
  have s: "stack_ok rk (\<lambda>h. node_ins (f h)) (insert h ?D) {h} r" using assms(1) by (simp add: vinv_def)
  have "stack_ok rk (\<lambda>h. node_ins (f h)) (insert h ?D) {} r" by (rule stack_ok_mono [OF s]) auto
  then show ?thesis using assms by (auto simp: vinv_def closure_ok_def)
qed

lemma vinv_node:
  assumes "vinv f gm rk (Enter h # r) seen c" and "live f h" "h \<notin> seen" "\<not> is_leaf gm (f h)"
    and rk: "\<And>i. i \<in> set (node_ins (f h)) \<Longrightarrow> rk i < rk h"
  shows "vinv f gm rk (map Enter (node_ins (f h)) @ Leave h # r) (insert h seen) c"
proof -
  let ?D = "set (c_leaves c) \<union> set (c_nodes c)" and ?I = "set (node_ins (f h))"
  have s: "stack_ok rk (\<lambda>h. node_ins (f h)) (insert h ?D) {h} r" using assms(1) by (simp add: vinv_def)
  have "stack_ok rk (\<lambda>h. node_ins (f h)) (insert h (?D \<union> ?I)) (insert h ?I) r"
    by (rule stack_ok_mono [OF s]) (use rk in \<open>auto simp: less_imp_le\<close>)
  then have "stack_ok rk (\<lambda>h. node_ins (f h)) ?D {} (map Enter (node_ins (f h)) @ Leave h # r)"
    using rk by (intro stack_ok_enter) simp
  moreover have "leaving (map Enter xs @ Leave h # r) = h # leaving r" for xs by (induction xs) auto
  ultimately show ?thesis using assms by (auto simp: vinv_def)
qed

lemma vinv_leave:
  assumes "vinv f gm rk (Leave h # r) seen c"
  shows "vinv f gm rk r seen (c\<lparr>c_nodes := c_nodes c @ [h]\<rparr>)"
proof -
  let ?D = "set (c_leaves c) \<union> set (c_nodes c)"
  have s: "stack_ok rk (\<lambda>h. node_ins (f h)) (insert h ?D) {h} r" using assms(1) by (simp add: vinv_def)
  have "stack_ok rk (\<lambda>h. node_ins (f h)) (insert h ?D) {} r" by (rule stack_ok_mono [OF s]) auto
  moreover have "set (node_ins (f h)) \<subseteq> ?D" using assms by (simp add: vinv_def)
  ultimately show ?thesis
    using assms by (auto simp: vinv_def closure_ok_def nth_append less_Suc_eq)
qed

definition ranked :: "(int \<Rightarrow> tf_slot) \<Rightarrow> (int \<Rightarrow> nat) \<Rightarrow> bool" where
  "ranked f rk \<longleftrightarrow> (\<forall>g. live f g \<longrightarrow> (\<forall>i \<in> set (node_ins (f g)). rk i < rk g))"

lemma visits_vinv:
  "visits f gm r seen c = Inr (seen', c') \<Longrightarrow> ranked f rk \<Longrightarrow> vinv f gm rk r seen c \<Longrightarrow> vinv f gm rk [] seen' c'"
proof (induction f gm r seen c rule: visits.induct)
  case (2 f gm h r seen c)
  then show ?case
    using vinv_seen [of f gm rk h r seen c] vinv_leaf [of f gm rk h r seen c] vinv_node [of f gm rk h r seen c]
      nodes_node_ins [of f h gm]
    by (auto split: if_splits simp: ranked_def)
next
  case (3 f gm h r seen c)
  then show ?case using vinv_leave by (auto split: if_splits)
qed simp

text \<open>What was asked for is in the closure.\<close>

lemma visits_seen:
  "visits f gm r seen c = Inr (seen', c') \<Longrightarrow> seen \<subseteq> seen' \<and> (\<forall>h. Enter h \<in> set r \<longrightarrow> h \<in> seen')"
proof (induction f gm r seen c rule: visits.induct)
  case (2 f gm h r seen c)
  then show ?case by (auto split: if_splits)
next
  case (3 f gm h r seen c)
  then show ?case by (auto split: if_splits)
qed simp

lemma visit_ok:
  assumes "visit f gm h {} no_closure = Inr (seen, c)" and "acyclic_ins f"
  shows "closure_ok f gm c" and "h \<in> set (c_leaves c) \<union> set (c_nodes c)"
proof -
  obtain rk where "ranked f rk" using assms(2) by (auto simp: acyclic_ins_def ranked_def)
  moreover have "vinv f gm rk [Enter h] {} no_closure"
    by (simp add: vinv_def closure_ok_def no_closure_def)
  ultimately have v: "vinv f gm rk [] seen c" using assms(1) visits_vinv unfolding visit_def by blast
  then show "closure_ok f gm c" by (simp add: vinv_def)
  have "h \<in> seen" using visits_seen [OF assms(1) [unfolded visit_def]] by simp
  then show "h \<in> set (c_leaves c) \<union> set (c_nodes c)" using v by (simp add: vinv_def)
qed

lemma keyed_lists [simp]:
  "c_leaves (keyed T f h c) = c_leaves c" "c_nodes (keyed T f h c) = c_nodes c"
  "c_want (keyed T f h c) = map (\<lambda>x. wants h x (f x)) (c_nodes c)"
  by (simp_all add: keyed_def Let_def)

lemma closure_ok_keyed [simp]: "closure_ok f gm (keyed T g h c) = closure_ok f gm c"
  by (simp add: closure_ok_def)

lemma closure_of_eq:
  "closure_of T h gm s =
     (case visit (s_slots s) gm h {} no_closure of
        Inl m \<Rightarrow> Zero (s\<lparr>s_err := snprintf_s 512 m\<rparr>)
      | Inr (seen, c) \<Rightarrow> One (keyed T (s_slots s) h c) s)"
  by (simp add: closure_of_def act_defs tf_fail_def split: sum.split)

lemma closure_of_frame: "closure_of T h gm s = Zero t \<Longrightarrow> \<exists>m. t = s\<lparr>s_err := m\<rparr>"
    "closure_of T h gm s \<noteq> Waits t"
  by (auto simp: closure_of_eq split: sum.splits)

lemma closure_of_ok:
  assumes "closure_of T h gm s = One c t" and "acyclic_ins (s_slots s)"
  shows "closure_ok (s_slots s) gm c" and "h \<in> set (c_leaves c) \<union> set (c_nodes c)"
    and "c_want c = map (\<lambda>x. wants h x (s_slots s x)) (c_nodes c)" and "t = s"
proof -
  obtain seen c0 where v: "visit (s_slots s) gm h {} no_closure = Inr (seen, c0)"
    and [simp]: "c = keyed T (s_slots s) h c0" "t = s"
    using assms(1) by (auto simp: closure_of_eq split: sum.splits)
  show "closure_ok (s_slots s) gm c" "h \<in> set (c_leaves c) \<union> set (c_nodes c)"
    using visit_ok [OF v assms(2)] by simp_all
  show "c_want c = map (\<lambda>x. wants h x (s_slots s x)) (c_nodes c)" "t = s" by simp_all
qed

section \<open>The graph of a closure\<close>

text \<open>Every operation of a graph reads outputs of operations before it, by their places.\<close>

definition gnode_ok :: "nat \<Rightarrow> gnode \<Rightarrow> bool" where
  "gnode_ok k n = (case n of G_op p ins \<Rightarrow> (\<forall>x \<in> set ins. \<exists>j < k. x = Some j) | _ \<Rightarrow> True)"

definition graph_ok :: "gnode list \<Rightarrow> bool" where
  "graph_ok g \<longleftrightarrow> (\<forall>k < length g. gnode_ok k (g ! k))"

lemma graph_ok_snoc: "graph_ok (g @ [n]) \<longleftrightarrow> graph_ok g \<and> gnode_ok (length g) n"
  by (auto simp: graph_ok_def nth_append less_Suc_eq)

lemma index_of_Some: "h \<in> set xs \<Longrightarrow> \<exists>i < length xs. index_of h xs = Some i \<and> xs ! i = h"
  by (induction xs) fastforce+

lemma index_of_None: "index_of h xs = None \<longleftrightarrow> h \<notin> set xs"
  by (induction xs) auto

lemma index_of_distinct: "distinct xs \<Longrightarrow> i < length xs \<Longrightarrow> index_of (xs ! i) xs = Some i"
  by (induction xs arbitrary: i) (auto simp: nth_Cons split: nat.split)

lemma andthen_fetch [simp]: "andthen (fetch f) k s = k (f s) s"
  by (simp add: act_defs)

lemma andthen_modify [simp]: "andthen (modify f) k s = k () (f s)"
  by (simp add: act_defs)

lemma andthen_check:
  assumes "andthen (tf_check f) k s = One v t"
  obtains w where "k () (s\<lparr>s_w := w\<rparr>) = One v t"
  using assms by (auto simp: act_defs tf_check_def split: prod.splits option.splits)

lemma compile_leaves_graph:
  "compile_leaves T hs g ph in_leaf s = One (g', ph', in_leaf') t \<Longrightarrow> graph_ok g \<Longrightarrow> ph = [0..<length g] \<Longrightarrow>
    (\<forall>j \<in> set in_leaf. j < length g) \<Longrightarrow>
    graph_ok g' \<and> length g' = length g + length hs \<and> ph' = [0..<length g'] \<and> (\<forall>j \<in> set in_leaf'. j < length g') \<and>
    s_slots t = s_slots s"
proof (induction hs arbitrary: g ph in_leaf s)
  case (Cons h hs)
  let ?n = "leaf_node (s_slots s h)"
  obtain w where u: "compile_leaves T hs (g @ [?n]) (ph @ [length g])
      (if leaf_const (s_slots s h) then in_leaf else in_leaf @ [length ph]) (s\<lparr>s_opcount := s_opcount s + 1, s_w := w\<rparr>) =
        One (g', ph', in_leaf') t"
    using Cons.prems(1) by (auto elim: andthen_check)
  have "graph_ok (g @ [?n])" using Cons.prems(2) by (auto simp: graph_ok_snoc gnode_ok_def leaf_node_def split: option.split)
  moreover have "\<forall>j \<in> set (if leaf_const (s_slots s h) then in_leaf else in_leaf @ [length ph]). j < length (g @ [?n])"
    using Cons.prems(3,4) by (auto simp: less_Suc_eq)
  ultimately show ?case using Cons.IH [OF u] Cons.prems(3) by auto
qed (auto simp: act_defs)

lemma op_input_built:
  assumes ok: "closure_ok f gm c" and "i < length (c_nodes c)"
    and "ph = [0..<length (c_leaves c)]" and "outs = map (\<lambda>k. length (c_leaves c) + k) [0..<i]"
    and "x \<in> set (sp_in (sl_spec (f (c_nodes c ! i))))"
  shows "\<exists>j < length (c_leaves c) + i. op_input c ph outs x = Some j"
proof (cases "x \<in> set (c_leaves c)")
  case True
  from index_of_Some [OF this] show ?thesis
    using assms(3) by (auto simp: op_input_def leaf_index_def nth_opt_def)
next
  case False
  have "live f (c_nodes c ! i)" "\<not> is_leaf gm (f (c_nodes c ! i))"
    using ok assms(2) by (auto simp: closure_ok_def)
  then have "x \<in> set (node_ins (f (c_nodes c ! i)))" using assms(5) nodes_node_ins by metis
  then have "x \<in> set (take i (c_nodes c))"
    using ok assms(2) False unfolding closure_ok_def by blast
  then obtain k where k: "k < i" "c_nodes c ! k = x" using assms(2) by (auto simp: in_set_conv_nth)
  then have "node_index c x = Some k"
    using ok assms(2) index_of_distinct [of "c_nodes c" k] by (simp add: closure_ok_def node_index_def)
  then show ?thesis using False k assms(4)
    by (simp add: op_input_def leaf_index_def nth_opt_def index_of_None [THEN iffD2])
qed

text \<open>The state of the loop over the nodes: the first \<open>i\<close> have their operation, behind those of the leaves.\<close>

lemma compile_nodes_graph:
  assumes ok: "closure_ok f gm c" and ph: "ph = [0..<length (c_leaves c)]" and f: "f = s_slots s0"
  shows "compile_nodes T c ph hs g outs out_node s = One (g', outs', out_node') t \<Longrightarrow> s_slots s = f \<Longrightarrow>
    c_nodes c = take i (c_nodes c) @ hs \<Longrightarrow> i \<le> length (c_nodes c) \<Longrightarrow> graph_ok g \<Longrightarrow> length g = length (c_leaves c) + i \<Longrightarrow>
    outs = map (\<lambda>k. length (c_leaves c) + k) [0..<i] \<Longrightarrow> out_node = filter (\<lambda>k. c_want c ! k) [0..<i] \<Longrightarrow>
    graph_ok g' \<and> length g' = length (c_leaves c) + length (c_nodes c) \<and>
    outs' = map (\<lambda>k. length (c_leaves c) + k) [0..<length (c_nodes c)] \<and>
    out_node' = filter (\<lambda>k. c_want c ! k) [0..<length (c_nodes c)] \<and> s_slots t = f"
proof (induction hs arbitrary: g outs out_node s i)
  case Nil
  then have "i = length (c_nodes c)" by (metis append_Nil2 length_take min.absorb2)
  then show ?case using Nil by (auto simp: act_defs)
next
  case (Cons h hs)
  let ?p = "sl_spec (f h)"
  let ?n = "G_op (?p\<lparr>sp_in := []\<rparr>) (map (op_input c ph outs) (sp_in ?p))"
  obtain w where u: "compile_nodes T c ph hs (g @ [?n]) (outs @ [length g])
      (if c_want c ! length outs then out_node @ [length outs] else out_node) (s\<lparr>s_opcount := s_opcount s + 1, s_w := w\<rparr>) =
        One (g', outs', out_node') t"
    using Cons.prems(1,2) by (auto simp: Let_def elim: andthen_check)
  have i: "i < length (c_nodes c)" "c_nodes c ! i = h"
    using Cons.prems(3,4) by (metis Cons_nth_drop_Suc append_take_drop_id list.inject same_append_eq linorder_not_less
        drop_all list.distinct(1))+
  then have take: "take (Suc i) (c_nodes c) = take i (c_nodes c) @ [h]" by (simp add: take_Suc_conv_app_nth)
  have "c_nodes c = take (Suc i) (c_nodes c) @ hs" using Cons.prems(3) by (simp add: take)
  have "gnode_ok (length g) ?n"
    using op_input_built [OF ok i(1), of ph outs] i(2) ph Cons.prems(6,7) by (simp add: gnode_ok_def)
  then have "graph_ok (g @ [?n])" using Cons.prems(5) by (simp add: graph_ok_snoc)
  then show ?case using Cons.IH [OF u, of "Suc i"] Cons.prems(2,6,7,8) i(1) \<open>c_nodes c = take (Suc i) (c_nodes c) @ hs\<close> by simp
qed

section \<open>The compiled closures\<close>

text \<open>
  A compiled closure: its key and the hash of it, a graph in order, an output for each leaf and each
  node, and as function arguments leaves, as function results nodes.
\<close>

definition entry_ok :: "entry \<Rightarrow> bool" where
  "entry_ok e \<longleftrightarrow> en_hash e = fnv (en_key e) \<and> graph_ok (en_graph e) \<and>
     (\<forall>x \<in> set (en_ph e) \<union> set (en_outs e). x < length (en_graph e)) \<and>
     (\<forall>j \<in> set (en_in_leaf e). j < length (en_ph e)) \<and> (\<forall>i \<in> set (en_out_node e). i < length (en_outs e))"

definition entries_ok :: "'w tfb \<Rightarrow> bool" where
  "entries_ok s \<longleftrightarrow> (\<forall>e \<in> set (s_entries s). entry_ok e) \<and> distinct (map en_key (s_entries s)) \<and>
     length (s_entries s) \<le> TF_MAXENTRY"

lemma find_entry_Some: "find_entry key es = Some i \<Longrightarrow> i < length es \<and> en_key (es ! i) = key"
  by (induction es arbitrary: i) (auto split: if_splits)

lemma find_entry_None:
  "\<forall>e \<in> set es. en_hash e = fnv (en_key e) \<Longrightarrow> find_entry key es = None \<longleftrightarrow> key \<notin> en_key ` set es"
  by (induction es) auto

lemma compile_leaves_entries: "s_entries (final (compile_leaves T hs g ph il s)) = s_entries s"
  by (induction hs arbitrary: g ph il s)
    (auto simp: act_defs tf_check_def split: prod.split option.split outcome.split)

lemma compile_nodes_entries: "s_entries (final (compile_nodes T c ph hs g outs on s)) = s_entries s"
  by (induction hs arbitrary: g outs on s)
    (auto simp: act_defs tf_check_def Let_def split: prod.split option.split outcome.split)

lemma entry_compile_ok:
  assumes "closure_ok (s_slots s) gm c" and "entry_compile T c s = One n t"
  obtains e where "s_entries t = s_entries s @ [e]" "n = length (s_entries s)" "n < TF_MAXENTRY" "entry_ok e" "en_key e = c_key c"
    "s_slots t = s_slots s" "length (en_outs e) = length (c_nodes c)" "length (en_ph e) = length (c_leaves c)"
    "en_out_node e = filter (\<lambda>k. c_want c ! k) [0..<length (c_nodes c)]" "\<not> en_fn e" "en_grads e = []"
proof -
  obtain g ph il u g' outs on v where l: "compile_leaves T (c_leaves c) [] [] [] s = One (g, ph, il) u"
    and m: "compile_nodes T c ph (c_nodes c) g [] [] u = One (g', outs, on) v"
    and t: "t = v\<lparr>s_entries := s_entries v @ [new_entry c g' ph il outs on]\<rparr>"
    and n: "n = length (s_entries s)" and room: "length (s_entries s) < TF_MAXENTRY"
    using assms(2) by (auto simp: entry_compile_def tf_fail_def ret_def modify_def split: if_splits elim!: andthen_OneE)
  have gl: "graph_ok g \<and> length g = length (c_leaves c) \<and> ph = [0..<length g] \<and> (\<forall>j \<in> set il. j < length g) \<and> s_slots u = s_slots s"
    using compile_leaves_graph [OF l] by (auto simp: graph_ok_def)
  have gn: "graph_ok g' \<and> length g' = length (c_leaves c) + length (c_nodes c) \<and>
      outs = map (\<lambda>k. length (c_leaves c) + k) [0..<length (c_nodes c)] \<and>
      on = filter (\<lambda>k. c_want c ! k) [0..<length (c_nodes c)] \<and> s_slots v = s_slots s"
    using compile_nodes_graph [OF assms(1) _ refl m, of 0] gl by simp
  have "s_entries v = s_entries s"
    using compile_leaves_entries [of T "c_leaves c" "[]" "[]" "[]" s] compile_nodes_entries [of T c ph "c_nodes c" g "[]" "[]" u] l m
    by simp
  then show thesis using t n room gl gn by (intro that) (auto simp: entry_ok_def new_entry_def)
qed

text \<open>Compiling keeps the table of entries: each key is compiled once.\<close>

lemma entry_compile_entries:
  assumes "entries_ok s" and "closure_ok (s_slots s) gm c" and "entry_find (c_key c) s = None"
    and "entry_compile T c s = One n t"
  shows "entries_ok t"
  using assms(2,4)
proof (rule entry_compile_ok)
  fix e
  assume "s_entries t = s_entries s @ [e]" "n = length (s_entries s)" "n < TF_MAXENTRY" "entry_ok e" "en_key e = c_key c"
  moreover have "c_key c \<notin> en_key ` set (s_entries s)"
    using assms(1,3) find_entry_None by (fastforce simp: entry_find_def entries_ok_def entry_ok_def)
  ultimately show ?thesis using assms(1) by (auto simp: entries_ok_def)
qed

end
