(* ===== verification/Tf_Keys.thy ===== *)
theory Tf_Keys
  imports Tf_Topo
begin

text \<open>
  What a key says. A key that was not cut is one segment per leaf and one per node, each closed by a
  space, and the segment of a node ends in \<open>o\<close> exactly when the node is a result of the call: two
  closures with the same key have the same results, so that an entry found by its key hands
  its results to the nodes that want them.
\<close>

section \<open>The text of a key\<close>

lemma kput_kput: "kput b (kput a k) = kput (a @ b) k"
  by (simp add: kput_def take_append) (simp add: min_def)

lemma kput_fold: "kput t (fold (\<lambda>x. kput (g x)) xs k) = kput (concat (map g xs) @ t) k"
proof (induction xs arbitrary: k t rule: rev_induct)
  case (snoc x xs)
  then show ?case by (simp add: kput_kput)
qed simp

definition seg_leaf :: "'w tf \<Rightarrow> tf_slot \<Rightarrow> nat \<Rightarrow> string" where
  "seg_leaf T sl j =
     ''L'' @ show_nat j @ '':'' @ show_nat (sl_dtype sl) @ ''['' @
     concat (map (\<lambda>d. show_int d @ '','') (sl_shape sl)) @ '']'' @
     (case sl_val sl of
        Some t \<Rightarrow> if sl_ckey sl then ''='' @
            (if sl_dtype sl = TF_INT32 then concat (map (\<lambda>v. show_int v @ '','') (take 32 (t_data t)))
             else if sl_dtype sl = TF_FLOAT then concat (map (\<lambda>v. show_f32 T (word_of_int v) @ '','') (take 32 (t_data t)))
             else [])
          else []
      | None \<Rightarrow> [])"

definition seg_node :: "closure \<Rightarrow> opspec \<Rightarrow> nat \<Rightarrow> bool \<Rightarrow> string" where
  "seg_node c p i want =
     ''N'' @ show_nat i @ ''='' @ sp_op p @ ''{'' @
     concat (map (\<lambda>(a, t). a @ '':'' @ show_nat t @ '','') (sp_types p)) @
     concat (map (\<lambda>(a, v). a @ '':'' @ show_int v @ '','') (sp_ints p)) @
     concat (map (\<lambda>(a, b). a @ '':'' @ (if b then ''1'' else ''0'') @ '','') (sp_bools p)) @
     ''}'' @ show_nat (sp_list_n p) @ ''('' @ concat (map (key_ref c) (sp_in p)) @ '')'' @ (if want then ''o'' else [])"

lemma key_leaf_seg: "key_leaf T sl j = kput (seg_leaf T sl j @ '' '')"
  by (rule ext, cases "sl_val sl") (simp_all add: key_leaf_def seg_leaf_def Let_def kput_kput kput_fold)

lemma key_node_seg: "key_node c p i want = kput (seg_node c p i want @ '' '')"
  by (rule ext) (simp add: key_node_def seg_node_def Let_def kput_kput kput_fold split_def)

definition key_segs :: "'w tf \<Rightarrow> (int \<Rightarrow> tf_slot) \<Rightarrow> closure \<Rightarrow> string list" where
  "key_segs T f c =
     map (\<lambda>(j, x). seg_leaf T (f x) j) (enumerate 0 (c_leaves c)) @
     map (\<lambda>(i, x). seg_node c (sl_spec (f x)) i (c_want c ! i)) (enumerate 0 (c_nodes c))"

definition spaced :: "string list \<Rightarrow> string" where
  "spaced ws = concat (map (\<lambda>w. w @ '' '') ws)"

lemma key_ref_cong: "c_leaves c = c_leaves d \<Longrightarrow> c_nodes c = c_nodes d \<Longrightarrow> key_ref c = key_ref d"
  by (rule ext) (simp add: key_ref_def leaf_index_def node_index_def cong: option.case_cong)

lemma key_segs_key [simp]: "key_segs T f (c\<lparr>c_key := k\<rparr>) = key_segs T f c"
  by (simp add: key_segs_def seg_node_def key_ref_cong [of "c\<lparr>c_key := k\<rparr>" c])

lemma kput_fold0:
  assumes "length k \<le> TF_KEYMAX - 1"
  shows "fold (\<lambda>x. kput (g x)) xs k = kput (concat (map g xs)) k"
proof -
  have "length (fold (\<lambda>x. kput (g x)) xs k) \<le> TF_KEYMAX - 1"
    using assms by (induction xs arbitrary: k) (auto simp: kput_def)
  then show ?thesis using kput_fold [of "[]" g xs k] by (simp add: kput_def)
qed

lemma keyed_key:
  "c_key (keyed T f h c) = take (TF_KEYMAX - 1) (spaced (key_segs T f (keyed T f h c)))"
proof -
  let ?c = "c\<lparr>c_want := map (\<lambda>x. wants h x (f x)) (c_nodes c)\<rparr>"
  have l: "fold (\<lambda>(j, x). key_leaf T (f x) j) xs = fold (\<lambda>z. kput (seg_leaf T (f (snd z)) (fst z) @ '' '')) xs" for xs
    by (simp add: key_leaf_seg split_def)
  have n: "fold (\<lambda>(i, x). key_node ?c (sl_spec (f x)) i (c_want ?c ! i)) xs =
      fold (\<lambda>z. kput (seg_node ?c (sl_spec (f (snd z))) (fst z) (c_want ?c ! fst z) @ '' '')) xs" for xs
    by (simp add: key_node_seg split_def)
  have len: "length (kput a b) \<le> TF_KEYMAX - 1" for a b by (simp add: kput_def)
  have "c_key (keyed T f h c) = kput (spaced (key_segs T f ?c)) []"
    unfolding keyed_def Let_def l n
    by (simp add: kput_fold0 [of "[]"] kput_fold0 [OF len] kput_kput key_segs_def spaced_def split_def comp_def)
  then show ?thesis by (simp add: keyed_def Let_def kput_def)
qed

section \<open>Reading a key\<close>

fun segs :: "string \<Rightarrow> string \<Rightarrow> string list" where
  "segs acc [] = []"
| "segs acc (c # cs) = (if c = CHR '' '' then rev acc # segs [] cs else segs (c # acc) cs)"

definition key_wants :: "string \<Rightarrow> bool list" where
  "key_wants key = map (\<lambda>w. last w = CHR ''o'') (filter (\<lambda>w. hd w = CHR ''N'') (segs [] key))"

abbreviation spaceless :: "string \<Rightarrow> bool" where
  "spaceless w \<equiv> CHR '' '' \<notin> set w"

lemma segs_word: "spaceless w \<Longrightarrow> segs acc (w @ CHR '' '' # r) = (rev acc @ w) # segs [] r"
  by (induction w arbitrary: acc) auto

lemma segs_tail: "spaceless w \<Longrightarrow> segs acc w = []"
  by (induction w arbitrary: acc) auto

lemma segs_spaced: "\<forall>w \<in> set ws. spaceless w \<Longrightarrow> spaceless rest \<Longrightarrow> segs [] (spaced ws @ rest) = ws"
  by (induction ws) (simp_all add: spaced_def segs_tail segs_word)

lemma digit_spaceless: "n < 10 \<Longrightarrow> char_of (48 + n :: nat) \<noteq> CHR '' ''"
proof
  assume n: "n < 10" and "char_of (48 + n :: nat) = CHR '' ''"
  then have "of_char (char_of (48 + n :: nat) :: char) = (of_char CHR '' '' :: nat)" by simp
  with n show False by simp
qed

lemma show_nat_spaceless [simp]: "spaceless (show_nat n)"
proof (induction n rule: show_nat.induct)
  case (1 n)
  show ?case using 1 digit_spaceless [of n] digit_spaceless [of "n mod 10"]
    by (subst show_nat.simps) (auto simp del: char_of_eq_iff)
qed

lemma show_int_spaceless [simp]: "spaceless (show_int i)"
  by (simp add: show_int_def)

lemma key_ref_spaceless [simp]: "spaceless (key_ref c x)"
  by (simp add: key_ref_def split: option.split)

lemma seg_leaf_spaceless: "slot_fine sl \<Longrightarrow> spaceless (seg_leaf T sl j)"
  by (auto simp: seg_leaf_def slot_fine_def split: option.split)

lemma seg_node_spaceless: "plain p \<Longrightarrow> spaceless (seg_node c p i want)"
  by (auto simp: seg_node_def plain_def ball_Un)

lemma seg_hd [simp]: "hd (seg_leaf T sl j) = CHR ''L''" "hd (seg_node c p i want) = CHR ''N''"
  by (simp_all add: seg_leaf_def seg_node_def)

lemma seg_node_last [simp]: "last (seg_node c p i want) = CHR ''o'' \<longleftrightarrow> want"
  by (simp add: seg_node_def)

text \<open>What the segments of a closure say of its results, whatever a spaceless tail adds.\<close>

lemma key_wants_segs:
  assumes "\<forall>x \<in> set (c_leaves c). slot_fine (f x)" and "\<forall>x \<in> set (c_nodes c). plain (sl_spec (f x))"
    and "spaceless rest" and "length (c_want c) = length (c_nodes c)"
  shows "key_wants (spaced (key_segs T f c) @ rest) = c_want c"
proof -
  have "\<forall>w \<in> set (key_segs T f c). spaceless w"
    using assms(1,2) seg_leaf_spaceless seg_node_spaceless
    by (fastforce simp: key_segs_def in_set_enumerate_eq)
  then have "segs [] (spaced (key_segs T f c) @ rest) = key_segs T f c" using assms(3) by (rule segs_spaced)
  then show ?thesis using assms(4)
    by (intro nth_equalityI) (auto simp: key_wants_def key_segs_def split_def comp_def nth_enumerate_eq)
qed

text \<open>
  A closure of the table whose key is that of its leaves and nodes, with a tail for what a gradient
  asks for.
\<close>

definition key_matches :: "'w tf \<Rightarrow> (int \<Rightarrow> tf_slot) \<Rightarrow> closure \<Rightarrow> bool" where
  "key_matches T f c \<longleftrightarrow> (\<exists>rest. spaceless rest \<and> c_key c = take (TF_KEYMAX - 1) (spaced (key_segs T f c) @ rest)) \<and>
     length (c_want c) = length (c_nodes c)"

lemma key_matches_keyed: "key_matches T f (keyed T f h c)"
proof -
  have "c_key (keyed T f h c) = take (TF_KEYMAX - 1) (spaced (key_segs T f (keyed T f h c)) @ [])"
    using keyed_key by simp
  moreover have "spaceless []" by simp
  ultimately show ?thesis unfolding key_matches_def by (metis keyed_lists(2,3) length_map)
qed

lemma key_matches_kput:
  assumes "key_matches T f c" and "spaceless t"
  shows "key_matches T f (c\<lparr>c_key := kput t (c_key c)\<rparr>)"
proof -
  obtain rest where r: "spaceless rest" "c_key c = take (TF_KEYMAX - 1) (spaced (key_segs T f c) @ rest)"
    using assms(1) by (auto simp: key_matches_def)
  have "kput t (c_key c) = take (TF_KEYMAX - 1) (spaced (key_segs T f c) @ rest @ t)"
    using kput_kput [of t "spaced (key_segs T f c) @ rest" "[]"] r(2) by (simp add: kput_def)
  then show ?thesis using assms r(1) unfolding key_matches_def by (intro conjI exI [of _ "rest @ t"]) auto
qed

lemma key_matches_wants:
  assumes "key_matches T f c" and "closure_ok f gm c" and "owes [] f" and "length (c_key c) < TF_KEYMAX - 1"
  shows "key_wants (c_key c) = c_want c"
proof -
  obtain rest where r: "spaceless rest" "c_key c = take (TF_KEYMAX - 1) (spaced (key_segs T f c) @ rest)"
    using assms(1) by (auto simp: key_matches_def)
  then have "c_key c = spaced (key_segs T f c) @ rest" using assms(4) by simp
  moreover have "\<forall>x \<in> set (c_leaves c). slot_fine (f x)" using assms(2) owesD(4) [OF assms(3)] by (auto simp: closure_ok_def)
  moreover have "plain (sl_spec (f x))" if "x \<in> set (c_nodes c)" for x
  proof -
    have "live f x" "\<not> is_leaf gm (f x)" using assms(2) that by (auto simp: closure_ok_def)
    then show ?thesis using owesD(4) [OF assms(3)] by (cases "sl_kind (f x)") (auto simp: slot_fine_def is_leaf_def live_def)
  qed
  ultimately show ?thesis using key_wants_segs r(1) assms(1) by (metis key_matches_def)
qed

section \<open>The entries and their keys\<close>

text \<open>No key in the table of entries has been cut.\<close>

definition fits :: "'w tfb \<Rightarrow> bool" where
  "fits s \<longleftrightarrow> (\<forall>e \<in> set (s_entries s). length (en_key e) < TF_KEYMAX - 1)"

definition results_of :: "bool list \<Rightarrow> nat list" where
  "results_of want = filter (\<lambda>k. want ! k) [0..<length want]"

definition entry_keyed :: "entry \<Rightarrow> bool" where
  "entry_keyed e \<longleftrightarrow> (length (en_key e) < TF_KEYMAX - 1 \<longrightarrow> en_out_node e = results_of (key_wants (en_key e)))"

text \<open>The whole back end: the slot table, the compiled closures, and what their keys say.\<close>

definition good :: "'w tfb \<Rightarrow> bool" where
  "good s \<longleftrightarrow> tab_ok s \<and> entries_ok s \<and> (\<forall>e \<in> set (s_entries s). entry_keyed e)"

lemma goodD: "good s \<Longrightarrow> tab_ok s" "good s \<Longrightarrow> owes [] (s_slots s)" "good s \<Longrightarrow> acyclic_ins (s_slots s)"
  using owesD(5) by (auto simp: good_def tab_ok_def)

lemma good_cong: "good s \<Longrightarrow> tab_ok t \<Longrightarrow> s_entries t = s_entries s \<Longrightarrow> good t"
  by (simp add: good_def entries_ok_def)

end
