(* ===== verification/Tf_Run.thy ===== *)
theory Tf_Run
  imports Tf_Closure
begin

text \<open>
  Running a closure, reading a value, shapes, and the producer every operation goes through
  (backend.c, from \<open>entry_function\<close> to \<open>run_spec\<close>). The wrappers that only time a call for the
  profile (\<open>closure_of\<close>, \<open>execute\<close>, \<open>run_spec\<close> and the like) stand for what they wrap.
\<close>

section \<open>One call\<close>

definition entry_upd :: "nat \<Rightarrow> (entry \<Rightarrow> entry) \<Rightarrow> 'w tfb \<Rightarrow> 'w tfb" where
  "entry_upd i g s = s\<lparr>s_entries := (s_entries s)[i := g (s_entries s ! i)]\<rparr>"

text \<open>The results behind the wanted nodes: the gradients that exist, in order.\<close>

fun place_grads :: "nat \<Rightarrow> nat option list \<Rightarrow> nat option list" where
  "place_grads n [] = []"
| "place_grads n (None # gs) = None # place_grads n gs"
| "place_grads n (Some _ # gs) = Some n # place_grads (Suc n) gs"

definition entry_function :: "'w tf \<Rightarrow> nat \<Rightarrow> ('w, unit) tact" where
  "entry_function T i =
     andthen (fetch (\<lambda>s. (s_entries s ! i, s_fncount s))) (\<lambda>(e, n).
     if en_fn e then ret () else
     let grads = concat (map (\<lambda>g. case g of None \<Rightarrow> [] | Some x \<Rightarrow> [x]) (en_grads e));
         at = place_grads (length (en_out_node e)) (en_grads e);
         nout = length (en_out_node e) + length grads;
         ins = map (\<lambda>j. en_ph e ! j) (en_in_leaf e);
         outs = map (\<lambda>k. en_outs e ! k) (en_out_node e) @ grads;
         name = ''Coco_'' @ show_nat n
     in
     andthen (modify (\<lambda>s. entry_upd i (\<lambda>e. e\<lparr>en_grad_at := at @ drop (length at) (en_grad_at e), en_fname := name\<rparr>)
       (s\<lparr>s_fncount := n + 1\<rparr>))) (\<lambda>_.
     andthen (tf_check (graph_to_function T (en_graph e) name ins outs)) (\<lambda>_.
     andthen (modify (entry_upd i (\<lambda>e. e\<lparr>en_fn := True\<rparr>))) (\<lambda>_.
     andthen (tf_check (add_function T name)) (\<lambda>_.
     modify (entry_upd i (\<lambda>e. e\<lparr>en_noutputs := nout\<rparr>)))))))"

text \<open>
  The handles of the results go to the nodes wanted, in order. A successful \<open>TFE_Execute\<close> answers one
  handle per output; a place that is not one of the closure's nodes is passed over.
\<close>

primrec give_values :: "'w tf \<Rightarrow> closure \<Rightarrow> (nat \<times> nat) list \<Rightarrow> 'w tfb \<Rightarrow> 'w tfb" where
  "give_values T c [] s = s"
| "give_values T c (ke # kes) s =
     give_values T c kes (case nth_opt (c_nodes c) (fst ke) of None \<Rightarrow> s | Some h \<Rightarrow> give_value T h (snd ke) s)"

definition call_entry :: "'w tf \<Rightarrow> closure \<Rightarrow> nat \<Rightarrow> ('w, nat list) tact" where
  "call_entry T c i =
     andthen (fetch (\<lambda>s. (s_entries s ! i, s_xla s))) (\<lambda>(e, xla).
     if en_noutputs e = 0 then ret [] else
     andthen (modify (\<lambda>s. if 0 < xla then entry_upd i (\<lambda>e. e\<lparr>en_calls := en_calls e + 1\<rparr>) s else s)) (\<lambda>_.
     andthen (fetch (\<lambda>s. (pin s, map (\<lambda>j. sl_eh (s_slots s (c_leaves c ! j))) (en_in_leaf e)))) (\<lambda>(dev, ins).
     andthen (tf_call (execute_op T dev
       (no_spec\<lparr>sp_op := en_fname e,
          sp_bools := if 0 < xla \<and> xla < en_calls e + 1 then [(''_XlaMustCompile'', True)] else []\<rparr>) ins)) (\<lambda>rs.
     andthen (modify (give_values T c (zip (en_out_node e) rs))) (\<lambda>_.
     ret rs)))))"

text \<open>The gradients of a call, as slots; on a failure the results not handed over yet are deleted.\<close>

definition delete_all :: "'w tf \<Rightarrow> nat list \<Rightarrow> 'w tfb \<Rightarrow> 'w tfb" where
  "delete_all T rs = fold (\<lambda>e. del_eh T (Some e)) rs"

text \<open>
  A gradient the loss never reached is zeros of the parameter's shape. A result that is not
  there is a null pointer read: the call does not return.
\<close>

definition grad_slot :: "'w tf \<Rightarrow> nat list \<Rightarrow> int \<Rightarrow> nat option \<Rightarrow> ('w, int option) tact" where
  "grad_slot T rs p at =
     (case at of
        None \<Rightarrow> attempt (andthen (fetch (\<lambda>s. sl_shape (s_slots s p))) (\<lambda>sh.
          tfb_from_doubles T (replicate (nat (prod_list sh)) 0) sh))
      | Some k \<Rightarrow> if k < length rs
          then andthen (attempt (slot_from_handle T (rs ! k))) (\<lambda>r.
            andthen (modify (\<lambda>s. s\<lparr>s_exe := s_exe s + 1\<rparr>)) (\<lambda>_. ret r))
          else Waits)"

primrec take_grads :: "'w tf \<Rightarrow> nat list \<Rightarrow> (int \<times> nat option) list \<Rightarrow> nat set \<Rightarrow> ('w, int list) tact" where
  "take_grads T rs [] taken = ret []"
| "take_grads T rs (pa # pas) taken =
     (let taken = (case snd pa of None \<Rightarrow> taken | Some k \<Rightarrow> insert k taken) in
      andthen (grad_slot T rs (fst pa) (snd pa)) (\<lambda>r.
      case r of
        None \<Rightarrow> andthen (modify (delete_all T (map (\<lambda>k. rs ! k) (filter (\<lambda>k. k \<notin> taken) [0..<length rs])))) (\<lambda>_. Zero)
      | Some h \<Rightarrow> andthen (take_grads T rs pas taken) (\<lambda>hs. ret (h # hs))))"

definition execute :: "'w tf \<Rightarrow> closure \<Rightarrow> nat \<Rightarrow> int list \<Rightarrow> ('w, int list) tact" where
  "execute T c i ps =
     andthen (entry_function T i) (\<lambda>_.
     andthen (call_entry T c i) (\<lambda>rs.
     andthen (fetch (\<lambda>s. s_entries s ! i)) (\<lambda>e.
     take_grads T rs (map (\<lambda>k. (ps ! k, en_grad_at e ! k)) [0..<length ps]) {0..<length (en_out_node e)})))"

definition run_closure :: "'w tf \<Rightarrow> int \<Rightarrow> ('w, unit) tact" where
  "run_closure T h =
     andthen (closure_of T h False) (\<lambda>c.
     if c_nodes c = [] then ret () else
     andthen (entry_for T c) (\<lambda>(i, hit).
     andthen (execute T c i []) (\<lambda>_.
     modify (\<lambda>s. if hit then s\<lparr>s_rep := s_rep s + 1\<rparr> else s))))"

definition tfb_force :: "'w tf \<Rightarrow> int \<Rightarrow> ('w, unit) tact" where
  "tfb_force T h =
     andthen (fetch (\<lambda>s. (tfb_exists s h, sl_eh (s_slots s h)))) (\<lambda>(ex, eh).
     if \<not> ex then Zero else if eh = None then run_closure T h else ret ())"

section \<open>Reading a value\<close>

text \<open>Values, as doubles, the rank, and as much of the shape as the caller has room for.\<close>

definition tfb_values :: "'w tf \<Rightarrow> int \<Rightarrow> ('w, dbl list \<times> nat \<times> int list) tact" where
  "tfb_values T h =
     andthen (fetch (\<lambda>s. tfb_exists s h)) (\<lambda>ex.
     if \<not> ex then tf_fail ''not a tensor'' else
     andthen (tfb_force T h) (\<lambda>_.
     andthen (fetch (\<lambda>s. sl_eh (s_slots s h))) (\<lambda>eh.
     andthen (tf_call (resolve T eh)) (\<lambda>t.
     let sh = (length (t_shape t), take TF_MAXDIM (t_shape t)) in
     if t_dtype t = TF_FLOAT then ret (map (\<lambda>v. double_of_f32 T (word_of_int v)) (t_data t), sh)
     else if t_dtype t = TF_DOUBLE then ret (map word_of_int (t_data t), sh)
     else if t_dtype t = TF_INT32 \<or> t_dtype t = TF_INT64 then ret (map (double_of_int T) (t_data t), sh)
     else tf_fail ''unsupported dtype''))))"

definition tfb_is_int :: "'w tfb \<Rightarrow> int \<Rightarrow> bool" where
  "tfb_is_int s h \<longleftrightarrow> tfb_exists s h \<and> (sl_dtype (s_slots s h) = TF_INT32 \<or> sl_dtype (s_slots s h) = TF_INT64)"

text \<open>
  The shape without running anything where it is known or the compiled graph infers it. The graph
  answers -1 for a rank it does not know, and for a dimension. A node that is not one of its own
  closure would be a place outside an array: the call does not return.
\<close>

definition tfb_shape :: "'w tf \<Rightarrow> int \<Rightarrow> ('w, int list) tact" where
  "tfb_shape T h =
     andthen (fetch (\<lambda>s. (tfb_exists s h, s_slots s h))) (\<lambda>(ex, sl).
     if \<not> ex then Zero else
     if sl_shape_known sl then ret (sl_shape sl) else
     andthen (closure_of T h False) (\<lambda>c.
     andthen (entry_for T c) (\<lambda>(i, hit).
     andthen (fetch (\<lambda>s. s_entries s ! i)) (\<lambda>e.
     let run = andthen (run_closure T h) (\<lambda>_. fetch (\<lambda>s. sl_shape (s_slots s h))) in
     case (case node_index c h of Some k \<Rightarrow> nth_opt (en_outs e) k | None \<Rightarrow> None) of
       None \<Rightarrow> Waits
     | Some k \<Rightarrow>
         andthen (attempt (tf_call (graph_ndims T (en_graph e) k))) (\<lambda>r.
         case r of
           None \<Rightarrow> run
         | Some n \<Rightarrow> if n < 0 then run else
             andthen (tf_call (graph_shape T (en_graph e) k)) (\<lambda>dims.
             if list_ex (\<lambda>d. d < 0) dims then run
             else andthen (modify (slot_upd h (\<lambda>sl. sl\<lparr>sl_shape := dims, sl_shape_known := True\<rparr>))) (\<lambda>_. ret dims)))))))"

section \<open>The shape of a recorded node, by rule\<close>

definition pad1 :: "nat \<Rightarrow> int list \<Rightarrow> int list" where
  "pad1 n xs = replicate (n - length xs) 1 @ xs"

definition bcast :: "int list \<Rightarrow> int list \<Rightarrow> int list option" where
  "bcast a b =
     (let n = max (length a) (length b); ab = zip (pad1 n a) (pad1 n b) in
      if list_all (\<lambda>(da, db). da = db \<or> da = 1 \<or> db = 1) ab then Some (map (\<lambda>(da, db). max da db) ab) else None)"

text \<open>The \<open>k\<close>-th input; past the end the array holds 0, which is no handle.\<close>

definition in_at :: "opspec \<Rightarrow> nat \<Rightarrow> int" where
  "in_at p k = (if k < length (sp_in p) then sp_in p ! k else 0)"

definition nth0 :: "int list \<Rightarrow> nat \<Rightarrow> int" where
  "nth0 xs k = (if k < length xs then xs ! k else 0)"

definition reduce_shape :: "int list \<Rightarrow> int list \<Rightarrow> bool \<Rightarrow> int list" where
  "reduce_shape a axes keep =
     concat (map (\<lambda>i. if list_ex (\<lambda>x. x = int i \<or> x + int (length a) = int i) axes
       then if keep then [1] else [] else [a ! i]) [0..<length a])"

definition last_wild :: "int list \<Rightarrow> nat option" where
  "last_wild v = (case filter (\<lambda>i. v ! i = -1) [0..<length v] of [] \<Rightarrow> None | is \<Rightarrow> Some (last is))"

text \<open>The two products are of 64 bits.\<close>

definition reshape_rule :: "int list \<Rightarrow> int list \<Rightarrow> string + int list" where
  "reshape_rule a v =
     (let total = c_product a; known = c_product (filter (\<lambda>x. x \<noteq> -1) v) in
      case last_wild v of
        Some w \<Rightarrow> if known = 0 \<or> total mod known \<noteq> 0 then Inl ''!reshape: the sizes do not divide''
          else Inr (v[w := total div known])
      | None \<Rightarrow> if known \<noteq> total
          then Inl (''!reshape: '' @ show_int total @ '' values into '' @ show_int known) else Inr v)"

text \<open>One more tensor behind those a concatenation has; off the axis the shapes must agree.\<close>

definition cat_step :: "int list \<Rightarrow> int \<Rightarrow> int list \<Rightarrow> int list \<Rightarrow> string + int list" where
  "cat_step a dim b sh =
     (if length b \<noteq> length a then Inl ''!cat: ranks differ''
      else if list_ex (\<lambda>i. int i \<noteq> dim \<and> a ! i \<noteq> b ! i) [0..<length a] then Inl ''!cat: shapes differ off the axis''
      else if 0 \<le> dim \<and> dim < int (length a) then Inr (sh[nat dim := c_long (sh ! nat dim + b ! nat dim)]) else Inr sh)"

definition slice_rule :: "int list \<Rightarrow> int list \<Rightarrow> int list \<Rightarrow> string + int list" where
  "slice_rule a from sizes =
     (let s0 = (\<lambda>i. if nth0 sizes i < 0 then a ! i - nth0 from i else nth0 sizes i) in
      if list_ex (\<lambda>i. nth0 from i < 0 \<or> a ! i < nth0 from i + s0 i) [0..<length a] then Inl ''!slice: out of range''
      else Inr (map s0 [0..<length a]))"

definition ret_or_fail :: "string + 'a \<Rightarrow> ('w, 'a) tact" where
  "ret_or_fail r = (case r of Inl m \<Rightarrow> tf_fail m | Inr v \<Rightarrow> ret v)"

definition fetch_val :: "opspec \<Rightarrow> nat \<Rightarrow> ('w, int list) tact" where
  "fetch_val p k =
     andthen (fetch (\<lambda>s. sl_val (s_slots s (in_at p k)))) (\<lambda>v.
     case v of None \<Rightarrow> Zero | Some t \<Rightarrow> ret (t_data t))"

primrec cat_rest :: "'w tf \<Rightarrow> int list \<Rightarrow> int \<Rightarrow> int list \<Rightarrow> int list \<Rightarrow> ('w, int list) tact" where
  "cat_rest T a dim [] sh = ret sh"
| "cat_rest T a dim (x # xs) sh =
     andthen (tfb_shape T x) (\<lambda>b.
     andthen (ret_or_fail (cat_step a dim b sh)) (\<lambda>sh. cat_rest T a dim xs sh))"

definition from_end :: "int \<Rightarrow> int list \<Rightarrow> int" where
  "from_end dim a = (if dim < 0 then dim + int (length a) else dim)"

definition shape_rule :: "'w tf \<Rightarrow> opspec \<Rightarrow> ('w, int list) tact" where
  "shape_rule T p =
     andthen (if sp_in p = [] then ret [] else tfb_shape T (in_at p 0)) (\<lambda>a.
     let op = sp_op p in
     if op \<in> {''Neg'', ''Abs'', ''Exp'', ''Log'', ''Sqrt'', ''Relu'', ''Sigmoid'', ''Tanh'', ''Cast''} then ret a
     else if op \<in> {''AddV2'', ''Sub'', ''Mul'', ''RealDiv'', ''Pow'', ''Maximum''} then
       andthen (tfb_shape T (in_at p 1)) (\<lambda>b.
       case bcast a b of None \<Rightarrow> tf_fail ''!shapes do not broadcast'' | Some sh \<Rightarrow> ret sh)
     else if op = ''MatMul'' then
       andthen (tfb_shape T (in_at p 1)) (\<lambda>b.
       if length a \<noteq> 2 \<or> length b \<noteq> 2 then tf_fail ''!matmul wants two matrices''
       else if a ! 1 \<noteq> b ! 0
       then tf_fail (''!matmul: '' @ show_int (a ! 1) @ '' columns against '' @ show_int (b ! 0) @ '' rows'')
       else ret [a ! 0, b ! 1])
     else if op = ''Transpose'' then if length a \<noteq> 2 then Zero else ret [a ! 1, a ! 0]
     else if op \<in> {''Sum'', ''Mean'', ''Max'', ''Min''} then
       andthen (fetch_val p 1) (\<lambda>axes.
       ret (reduce_shape a axes (fold (\<lambda>(n, b) keep. if n = ''keep_dims'' then b else keep) (sp_bools p) False)))
     else if op = ''ArgMax'' then
       andthen (fetch_val p 1) (\<lambda>d.
       let dim = from_end (nth0 d 0) a in
       ret (concat (map (\<lambda>i. if int i = dim then [] else [a ! i]) [0..<length a])))
     else if op = ''Reshape'' then andthen (fetch_val p 1) (\<lambda>v. ret_or_fail (reshape_rule a v))
     else if op = ''ConcatV2'' then
       andthen (fetch_val p (length (sp_in p) - 1)) (\<lambda>d.
       cat_rest T a (from_end (nth0 d 0) a) (map (in_at p) [1..<sp_list_n p]) a)
     else if op = ''GatherV2'' then andthen (tfb_shape T (in_at p 1)) (\<lambda>b. ret (b @ drop 1 a))
     else if op = ''Slice'' then
       andthen (fetch_val p 1) (\<lambda>from. andthen (fetch_val p 2) (\<lambda>sizes. ret_or_fail (slice_rule a from sizes)))
     else Zero)"

section \<open>A producer\<close>

definition spec_dtype :: "opspec \<Rightarrow> 'w tfb \<Rightarrow> dtype" where
  "spec_dtype p s =
     (if sp_op p \<in> {''Reshape'', ''GatherV2'', ''Slice''} then sl_dtype (s_slots s (in_at p 0))
      else fold (\<lambda>(a, t) d. if a = ''output_type'' \<or> a = ''DstT'' then t else d) (sp_types p) TF_FLOAT)"

text \<open>\<open>h\<close> becomes a node with the recipe \<open>p\<close>, which takes a reference on each input.\<close>

definition record_node :: "int \<Rightarrow> opspec \<Rightarrow> bool \<Rightarrow> 'w tfb \<Rightarrow> 'w tfb" where
  "record_node h p up s =
     (let s = slot_upd h (\<lambda>sl. sl\<lparr>sl_kind := K_NODE, sl_spec := p, sl_under_param := up\<rparr>) s; s = hold (sp_in p) s in
      s\<lparr>s_rec := s_rec s + 1\<rparr>)"

text \<open>The record undone.\<close>

definition unrecord :: "'w tf \<Rightarrow> int \<Rightarrow> opspec \<Rightarrow> 'w tfb \<Rightarrow> 'w tfb" where
  "unrecord T h p s =
     (let s = slot_upd h (\<lambda>sl. sl\<lparr>sl_kind := K_FREE\<rparr>) (unrefs T (sp_in p) s) in s\<lparr>s_rec := s_rec s - 1\<rparr>)"

definition under :: "opspec \<Rightarrow> 'w tfb \<Rightarrow> bool" where
  "under p s \<longleftrightarrow> list_ex (\<lambda>i. let sl = s_slots s i in sl_is_param sl \<or> sl_kind sl = K_NODE \<and> sl_under_param sl) (sp_in p)"

definition run_eager :: "'w tf \<Rightarrow> opspec \<Rightarrow> bool \<Rightarrow> ('w, int) tact" where
  "run_eager T p up =
     andthen (for_each (sp_in p) (\<lambda>i. andthen (fetch (\<lambda>s. sl_eh (s_slots s i))) (\<lambda>eh.
       if eh = None then run_closure T i else ret ()))) (\<lambda>_.
     andthen (fetch (\<lambda>s. (pin s, map (\<lambda>i. sl_eh (s_slots s i)) (sp_in p)))) (\<lambda>(dev, ins).
     andthen (tf_call (execute_op T dev (p\<lparr>sp_in := []\<rparr>) ins)) (\<lambda>rs.
     case rs of
       [] \<Rightarrow> Zero
     | r # _ \<Rightarrow>
         andthen (slot_from_handle T r) (\<lambda>h.
         andthen (modify (if up then record_node h p True else (\<lambda>s. s))) (\<lambda>_. ret h)))))"

definition run_graph :: "'w tf \<Rightarrow> opspec \<Rightarrow> bool \<Rightarrow> ('w, int) tact" where
  "run_graph T p up =
     andthen slot_new (\<lambda>h.
     andthen (modify (\<lambda>s. let s = record_node h p up s in slot_upd h (\<lambda>sl. sl\<lparr>sl_dtype := spec_dtype p s\<rparr>) s)) (\<lambda>_.
     andthen (attempt (shape_rule T p)) (\<lambda>r.
     case r of
       Some sh \<Rightarrow> andthen (modify (slot_upd h (\<lambda>sl. sl\<lparr>sl_shape := sh, sl_shape_known := True\<rparr>))) (\<lambda>_. ret h)
     | None \<Rightarrow>
         andthen (fetch s_err) (\<lambda>m.
         if m \<noteq> [] \<and> hd m = CHR ''!'' then andthen (modify (\<lambda>s. unrecord T h p (s\<lparr>s_err := tl m\<rparr>))) (\<lambda>_. Zero)
         else andthen (attempt (tfb_shape T h)) (\<lambda>r.
           case r of Some _ \<Rightarrow> ret h | None \<Rightarrow> andthen (modify (unrecord T h p)) (\<lambda>_. Zero))))))"

definition run_spec :: "'w tf \<Rightarrow> opspec \<Rightarrow> ('w, int) tact" where
  "run_spec T p =
     andthen (fetch (\<lambda>s. (list_all (tfb_exists s) (sp_in p), under p s, s_mode s))) (\<lambda>(ex, up, graph).
     if \<not> ex then tf_fail ''not a tensor'' else if \<not> graph then run_eager T p up else run_graph T p up)"

end
