(* ===== verification/Tf_Calls.thy ===== *)
theory Tf_Calls
  imports Tf_Keys Tf_Run
begin

text \<open>
  A calculus for the calls of the back end. \<open>does A F m\<close> says that \<open>m\<close> keeps the state good and frees no
  handle of the program's but those of \<open>A\<close>; its rules follow the way the code puts calls together.
  A call after which a key has been cut is not spoken of: an entry found by such a key may be another
  closure's.
\<close>

section \<open>The calculus\<close>

named_theorems does_rules \<open>rules for calls over the table\<close>

text \<open>
  \<open>kept A F s r\<close>: the call that ended in \<open>r\<close> has kept the state good, has freed no handle but those of
  \<open>A\<close>, and the handles \<open>F v\<close> of its answer \<open>v\<close> are good and name nothing the program held besides \<open>A\<close>.
\<close>

definition kept :: "int set \<Rightarrow> ('a \<Rightarrow> int set) \<Rightarrow> 'w tfb \<Rightarrow> ('w tfb, 'a) outcome \<Rightarrow> bool" where
  "kept A F s r \<longleftrightarrow> good (final r) \<and> (\<forall>h. tfb_exists s h \<and> h \<notin> A \<longrightarrow> tfb_exists (final r) h) \<and>
     (\<forall>v t. r = One v t \<longrightarrow> (\<forall>h \<in> F v. (tfb_exists s h \<longrightarrow> h \<in> A) \<and> tfb_exists t h))"

definition does :: "int set \<Rightarrow> ('a \<Rightarrow> int set) \<Rightarrow> ('w, 'a) tact \<Rightarrow> bool" where
  "does A F m \<longleftrightarrow> (\<forall>s. fits (final (m s)) \<longrightarrow> fits s \<and> (good s \<longrightarrow> (\<forall>x \<in> A. tfb_exists s x) \<longrightarrow> kept A F s (m s)))"

abbreviation safe :: "('w, 'a) tact \<Rightarrow> bool" where
  "safe m \<equiv> does {} (\<lambda>_. {}) m"

abbreviation makes :: "int set \<Rightarrow> ('w, int) tact \<Rightarrow> bool" where
  "makes A m \<equiv> does A (\<lambda>h. {h}) m"

lemma doesI:
  assumes "\<And>s. fits (final (m s)) \<Longrightarrow> fits s"
    and "\<And>s. fits s \<Longrightarrow> fits (final (m s)) \<Longrightarrow> good s \<Longrightarrow> (\<And>x. x \<in> A \<Longrightarrow> tfb_exists s x) \<Longrightarrow> kept A F s (m s)"
  shows "does A F m"
  using assms unfolding does_def by blast

lemma does_fits: "does A F m \<Longrightarrow> fits (final (m s)) \<Longrightarrow> fits s"
  by (simp add: does_def)

lemma doesD: "does A F m \<Longrightarrow> fits (final (m s)) \<Longrightarrow> good s \<Longrightarrow> \<forall>x \<in> A. tfb_exists s x \<Longrightarrow> kept A F s (m s)"
  by (simp add: does_def)

lemma keptD:
  assumes "kept A F s r"
  shows "good (final r)" and "tfb_exists s h \<Longrightarrow> h \<notin> A \<Longrightarrow> tfb_exists (final r) h"
    and "r = One v t \<Longrightarrow> h \<in> F v \<Longrightarrow> tfb_exists s h \<Longrightarrow> h \<in> A"
    and "r = One v t \<Longrightarrow> h \<in> F v \<Longrightarrow> tfb_exists t h"
  using assms unfolding kept_def by blast+

lemma does_weaken: "does A F m \<Longrightarrow> A \<subseteq> B \<Longrightarrow> (\<And>v. G v \<subseteq> F v) \<Longrightarrow> does B G m"
  unfolding does_def kept_def by blast

lemma does_safe: "does {} F m \<Longrightarrow> safe m"
  by (rule does_weaken) auto

lemma does_bind:
  fixes m :: "('w, 'a) tact" and f :: "'a \<Rightarrow> ('w, 'b) tact"
  assumes "does B G m" and "B \<subseteq> A" and any: "\<And>v s. fits (final (f v s)) \<Longrightarrow> fits s"
    and "\<And>v. G v \<inter> (A - B) = {} \<Longrightarrow> does (G v \<union> (A - B)) F (f v)"
  shows "does A F (andthen m f)"
proof (rule doesI)
  show "fits s" if "fits (final (andthen m f s))" for s
    using that any does_fits [OF assms(1), of s] by (cases "m s") (auto simp: andthen_def)
next
  fix s :: "'w tfb"
  assume fit: "fits (final (andthen m f s))" and ok: "good s" and A: "\<And>x. x \<in> A \<Longrightarrow> tfb_exists s x"
  have B: "\<forall>x \<in> B. tfb_exists s x" using A assms(2) by blast
  show "kept A F s (andthen m f s)"
  proof (cases "m s")
    case (One v t)
    then have ft: "fits (final (f v t))" using fit by (simp add: andthen_def)
    then have "fits (final (m s))" using any One by simp
    note m = keptD [OF doesD [OF assms(1) this ok B]]
    have f: "does (G v \<union> (A - B)) F (f v)" using m(3) [OF One] A by (intro assms(4)) blast
    have t: "good t" using m(1) One by simp
    have ex: "\<forall>x \<in> G v \<union> (A - B). tfb_exists t x" using m(2,4) One A by auto
    note f = keptD [OF doesD [OF f ft t ex]]
    have keep: "tfb_exists (final (f v t)) h" if "tfb_exists s h" "h \<notin> A" for h
      using that m(2) [of h] m(3) [OF One, of h] One assms(2) by (intro f(2)) auto
    have new: "(tfb_exists s h \<longrightarrow> h \<in> A) \<and> tfb_exists u h" if "f v t = One w u" "h \<in> F w" for w u h
      using f(3,4) [OF that] m(2) [of h] m(3) [OF One, of h] One assms(2) by auto
    show ?thesis unfolding kept_def using f(1) keep new One by (auto simp: andthen_def)
  next
    case (Zero t)
    then have "kept B G s (m s)" using fit ok B by (intro doesD [OF assms(1)]) (simp_all add: andthen_def)
    then show ?thesis using Zero assms(2) by (auto simp: kept_def andthen_def)
  next
    case (Waits t)
    then have "kept B G s (m s)" using fit ok B by (intro doesD [OF assms(1)]) (simp_all add: andthen_def)
    then show ?thesis using Waits assms(2) by (auto simp: kept_def andthen_def)
  qed
qed

lemma does_seq:
  assumes "safe m" and "\<And>v. does A F (f v)"
  shows "does A F (andthen m f)"
  by (rule does_bind [OF assms(1)]) (use assms(2) does_fits [OF assms(2)] in auto)

lemma safe_andthen [does_rules]: "safe m \<Longrightarrow> (\<And>v. safe (f v)) \<Longrightarrow> safe (andthen m f)"
  by (rule does_seq)

lemma makes_then:
  assumes "makes {} m" and "\<And>x. x \<notin> A \<Longrightarrow> does (insert x A) F (f x)" and "\<And>x s. fits (final (f x s)) \<Longrightarrow> fits s"
  shows "does A F (andthen m f)"
  by (rule does_bind [OF assms(1)]) (use assms(2,3) in auto)

text \<open>Calls that leave the table, the cursor and the entries alone.\<close>

lemma does_same:
  fixes m :: "('w, 'a) tact"
  assumes "\<And>s. s_slots (final (m s)) = s_slots s" and "\<And>s. s_cursor (final (m s)) = s_cursor s"
    and "\<And>s. s_entries (final (m s)) = s_entries s" and "\<And>s v t. m s = One v t \<Longrightarrow> F v \<subseteq> A"
  shows "does A F m"
proof (rule doesI)
  show "fits s" if "fits (final (m s))" for s using that assms(3) by (simp add: fits_def)
  fix s :: "'w tfb" assume s: "good s" and ex: "\<And>x. x \<in> A \<Longrightarrow> tfb_exists s x"
  have e: "tfb_exists (final (m s)) = tfb_exists s" using assms(1) by (rule tfb_exists_cong)
  have "good (final (m s))" by (rule good_cong [OF s]) (use assms goodD(1) [OF s] in \<open>simp_all add: tab_ok_def\<close>)
  moreover have "F v \<subseteq> A \<and> tfb_exists t = tfb_exists s" if "m s = One v t" for v t
    using e assms(4) [OF that] that by simp
  ultimately show "kept A F s (m s)" using e ex unfolding kept_def by (metis subsetD)
qed

lemma does_ret: "F v \<subseteq> A \<Longrightarrow> does A F (ret v)"
  by (rule does_same) (simp_all add: ret_def)

lemma safe_ret [does_rules]: "safe (ret v)"
  by (rule does_ret) simp

lemma does_zero [does_rules]: "does A F Zero"
  by (rule does_same) simp_all

lemma does_waits [does_rules]: "does A F Waits"
  by (rule does_same) simp_all

lemma does_fetch [does_rules]: "safe (fetch f)"
  by (rule does_same) (simp_all add: fetch_def)

lemma does_fail [does_rules]: "does A F (tf_fail m)"
  by (rule does_same) (simp_all add: tf_fail_def)

lemma does_tf_call [does_rules]: "safe (tf_call f)"
  by (rule does_same) (simp_all add: tf_call_def split: prod.split sum.split)

lemma does_tf_check [does_rules]: "safe (tf_check f)"
  by (rule does_same) (simp_all add: tf_check_def split: prod.split option.split)

lemma does_modify:
  "(\<And>s. s_slots (f s) = s_slots s) \<Longrightarrow> (\<And>s. s_cursor (f s) = s_cursor s) \<Longrightarrow> (\<And>s. s_entries (f s) = s_entries s) \<Longrightarrow>
    safe (modify f)"
  by (rule does_same) (simp_all add: modify_def)

lemma does_if [does_rules]: "(b \<Longrightarrow> does A F m) \<Longrightarrow> (\<not> b \<Longrightarrow> does A F k) \<Longrightarrow> does A F (if b then m else k)"
  by simp

lemma does_case_option [does_rules]:
  "(x = None \<Longrightarrow> does A F m) \<Longrightarrow> (\<And>v. x = Some v \<Longrightarrow> does A F (k v)) \<Longrightarrow>
    does A F (case x of None \<Rightarrow> m | Some v \<Rightarrow> k v)"
  by (cases x) simp_all

lemma does_case_prod [does_rules]: "(\<And>a b. x = (a, b) \<Longrightarrow> does A F (k a b)) \<Longrightarrow> does A F (case x of (a, b) \<Rightarrow> k a b)"
  by (cases x) simp

lemma final_attempt [simp]: "final (attempt m s) = final (m s)"
  by (simp add: attempt_def split: outcome.split)

lemma does_attempt:
  assumes "does A F m"
  shows "does A (\<lambda>r. case r of None \<Rightarrow> {} | Some v \<Rightarrow> F v) (attempt m)"
proof (rule doesI)
  show "fits s" if "fits (final (attempt m s))" for s using that does_fits [OF assms] by simp
next
  fix s assume "fits (final (attempt m s))" "good s" and "\<And>x. x \<in> A \<Longrightarrow> tfb_exists s x"
  then have "kept A F s (m s)" by (intro doesD [OF assms]) auto
  then show "kept A (\<lambda>r. case r of None \<Rightarrow> {} | Some v \<Rightarrow> F v) s (attempt m s)"
    by (cases "m s") (auto simp: kept_def attempt_def)
qed

lemma safe_attempt [does_rules]: "safe m \<Longrightarrow> safe (attempt m)"
  by (rule does_weaken [OF does_attempt, of "{}" "\<lambda>_. {}"]) auto

lemma safe_for_each [does_rules]: "(\<And>x. safe (f x)) \<Longrightarrow> safe (for_each xs f)"
  by (induction xs) (auto intro: does_rules)

section \<open>Slots\<close>

lemma makes_one_value:
  fixes m :: "('w, int) tact"
  assumes "\<And>s. tab_ok s \<Longrightarrow> one_value P s (m s)" and "\<And>s. s_entries (final (m s)) = s_entries s"
  shows "makes {} m"
proof (rule doesI)
  show "fits s" if "fits (final (m s))" for s using that assms(2) by (simp add: fits_def)
  fix s :: "'w tfb" assume g: "good s"
  note s = goodD(1) [OF g]
  have ok: "good (final (m s))" if "tab_ok (final (m s))" using good_cong [OF g that] assms(2) by simp
  show "kept {} (\<lambda>h. {h}) s (m s)"
  proof (cases "m s")
    case (Zero t)
    then show ?thesis unfolding kept_def
      using assms(1) [OF s] tab_ok_adds_free [OF s] s ok by (auto simp: one_value_def tab_ok_def tfb_exists_def)
  next
    case (One h t)
    then have "adds s h t" "value_slot (s_slots t h)" using assms(1) [OF s] by (auto simp: one_value_def)
    from tab_ok_adds_value [OF s this] One ok show ?thesis by (simp add: kept_def)
  qed (use assms(1) [OF s] in \<open>simp add: one_value_def\<close>)
qed

lemma s_entries_slot_new [simp]: "s_entries (final (slot_new s)) = s_entries s"
proof -
  have "s_entries (final (slot_scan n s)) = s_entries s" for n
    by (induction n arbitrary: s) (simp_all add: tf_fail_def Let_def)
  then show ?thesis by (simp add: slot_new_def)
qed

lemma s_entries_slot_from_tensor [simp]: "s_entries (final (slot_from_tensor T x ckey s)) = s_entries s"
  using s_entries_slot_new [of s]
  by (cases "slot_new s") (auto simp: slot_from_tensor_def andthen_def Let_def split_beta split: sum.split)

lemma s_entries_slot_from_handle [simp]: "s_entries (final (slot_from_handle T e s)) = s_entries s"
  using s_entries_slot_new [of s] by (cases "slot_new s") (auto simp: slot_from_handle_def)

lemma makes_slot_from_tensor: "(ckey \<Longrightarrow> t_dtype x = TF_INT32) \<Longrightarrow> makes {} (slot_from_tensor T x ckey)"
  by (rule makes_one_value [OF slot_from_tensor_value]) simp_all

lemma makes_slot_from_handle [does_rules]: "makes {} (slot_from_handle T e)"
  by (rule makes_one_value [OF slot_from_handle_value]) simp_all

lemma makes_tfb_from_doubles [does_rules]: "makes {} (tfb_from_doubles T data shape)"
  and makes_tfb_from_ints [does_rules]: "makes {} (tfb_from_ints T ints)"
  and makes_ivec [does_rules]: "makes {} (ivec T ints)"
  and makes_iscalar [does_rules]: "makes {} (iscalar T i)"
  unfolding tfb_from_doubles_def tfb_from_ints_def ivec_def iscalar_def
  by (rule makes_slot_from_tensor, simp add: tensor_i32_def)+

lemma safe_remember [does_rules]: "safe (modify (remember_scalar T f k))"
  by (rule does_modify) simp_all

lemma fits_seq: "does A F m \<Longrightarrow> (\<And>v s. fits (final (f v s)) \<Longrightarrow> fits s) \<Longrightarrow> fits (final (andthen m f s)) \<Longrightarrow> fits s"
  using does_fits [of A F m s] by (cases "m s") (auto simp: andthen_def)

lemma makes_fscalar [does_rules]: "makes {} (fscalar T v)"
proof -
  have k: "does {h} (\<lambda>h. {h}) (andthen (fetch (\<lambda>s. sl_eh (s_slots s h))) (\<lambda>eh.
      andthen (attempt (tf_call (copy_sharing T eh))) (\<lambda>k.
      andthen (case k of None \<Rightarrow> ret () | Some keep \<Rightarrow> modify (remember_scalar T f keep)) (\<lambda>_. ret h))))" for h f
    by (intro does_seq does_rules does_ret) auto
  show ?thesis
    unfolding fscalar_def Let_def
    by (rule does_seq [OF does_fetch])
      (auto split: option.split intro!: does_seq [OF does_tf_call] makes_slot_from_handle makes_then [OF makes_slot_from_tensor] k
        intro: does_fits [OF k])
qed

section \<open>Temporaries\<close>

lemma final_with_free:
  "final (with_free T m x s) = (case m s of Waits t \<Rightarrow> t | _ \<Rightarrow> if 0 < x then snd (tfb_free T x (final (m s))) else final (m s))"
  by (simp add: with_free_def act_defs split: outcome.split)

lemma fits_with_free: "fits (final (with_free T m x s)) \<Longrightarrow> fits (final (m s))"
  by (simp add: final_with_free fits_def split: outcome.splits if_splits)

lemma does_with_free:
  fixes m :: "('w, 'a) tact"
  assumes "does A F m" and "x \<notin> A"
  shows "does (insert x A) F (with_free T m x)"
proof (rule doesI)
  show "fits s" if "fits (final (with_free T m x s))" for s
    using does_fits [OF assms(1) fits_with_free [OF that]] .
next
  fix s :: "'w tfb"
  assume fit: "fits (final (with_free T m x s))" and s: "good s" and ex: "\<And>y. y \<in> insert x A \<Longrightarrow> tfb_exists s y"
  then have A: "\<forall>y \<in> A. tfb_exists s y" by blast
  have k: "kept A F s (m s)" using doesD [OF assms(1) fits_with_free [OF fit] s A] .
  note m = keptD [OF k]
  have x: "0 < x" using ex [of x] by (simp add: tfb_exists_def)
  let ?t = "snd (tfb_free T x (final (m s)))"
  have ok: "good ?t" using good_cong [OF m(1) tfb_free_ok [OF goodD(1) [OF m(1)]]] by simp
  have keep: "tfb_exists ?t h" if "tfb_exists (final (m s)) h" "h \<noteq> x" for h
    using that by (intro tfb_free_exists)
  show "kept (insert x A) F s (with_free T m x s)"
  proof (cases "m s")
    case (Waits u)
    then show ?thesis using k by (auto simp: with_free_def act_defs kept_def)
  next
    case (Zero u)
    then show ?thesis using ok m(2) keep x by (auto simp: with_free_def act_defs kept_def)
  next
    case (One v u)
    have "h \<noteq> x" if "h \<in> F v" for h using m(3) [OF One that] ex assms(2) by auto
    then show ?thesis
      using ok m(2) m(3,4) [OF One] One keep x by (auto simp: with_free_def act_defs kept_def)
  qed
qed

text \<open>A temporary made, used and let go.\<close>

lemma makes_with_temp:
  assumes "makes {} mk" and "\<And>x. does A F (m x)"
  shows "does A F (andthen mk (\<lambda>x. with_free T (m x) x))"
proof (rule makes_then [OF assms(1)])
  show "does (insert x A) F (with_free T (m x) x)" if "x \<notin> A" for x using does_with_free [OF assms(2) that] .
  show "fits s" if "fits (final (with_free T (m x) x s))" for x s
    using does_fits [OF assms(2) fits_with_free [OF that]] .
qed

text \<open>The same for a temporary whose use hands over the next one.\<close>

lemma makes_pass:
  assumes "makes {} m" and "\<And>y. y \<notin> A \<Longrightarrow> does (insert y A) F (f y)" and "x \<notin> A"
    and "\<And>y s. fits (final (f y s)) \<Longrightarrow> fits s"
  shows "does (insert x A) F (andthen (with_free T m x) f)"
proof (rule does_bind [where B = "{x}" and G = "\<lambda>y. {y}"])
  show "makes {x} (with_free T m x)" using does_with_free [OF assms(1)] by blast
  show "does ({y} \<union> (insert x A - {x})) F (f y)" if "{y} \<inter> (insert x A - {x}) = {}" for y
    using assms(2) [of y] assms(3) that by (cases "y = x") (simp_all add: insert_Diff_if)
qed (use assms(4) in auto)

end
