(* ===== verification/Tf_Exec.thy ===== *)
theory Tf_Exec
  imports Tf_Calls
begin

text \<open>
  Running a closure keeps the back end good: the results of a call go to nodes that are still there, in
  the order of the closure, and what letting go of inputs frees comes earlier in that order.
\<close>

section \<open>Values for the nodes of a closure\<close>

text \<open>What is released in \<open>E\<close> reads only \<open>E\<close>.\<close>

definition shut :: "int set \<Rightarrow> (int \<Rightarrow> tf_slot) \<Rightarrow> bool" where
  "shut E f \<longleftrightarrow> (\<forall>x \<in> E. sl_released (f x) \<longrightarrow> set (node_ins (f x)) \<subseteq> E)"

lemma shut_let_go:
  assumes "shut E f" and "let_go f g"
  shows "shut E g"
  unfolding shut_def
proof (intro ballI impI)
  fix x assume x: "x \<in> E" "sl_released (g x)"
  from assms(2) have "g x = (f x)\<lparr>sl_refs := sl_refs (g x)\<rparr> \<or> sl_kind (g x) = K_FREE" by (auto simp: let_go_def)
  then show "set (node_ins (g x)) \<subseteq> E"
  proof
    assume e: "g x = (f x)\<lparr>sl_refs := sl_refs (g x)\<rparr>"
    then have "node_ins (g x) = node_ins (f x)" "sl_released (f x)" using x(2) by (metis node_ins_update(1), metis tf_slot.select_convs(6) tf_slot.surjective tf_slot.update_convs(5))
    then show ?thesis using assms(1) x(1) by (simp add: shut_def)
  qed (simp add: node_ins_def)
qed

lemma give_value_step:
  assumes "shut E (s_slots s)" and "h \<notin> E" and "set (node_ins (s_slots s h)) \<subseteq> E"
  shows "shut (insert h E) (s_slots (give_value T h e s))"
    and "x \<notin> insert h E \<Longrightarrow> s_slots (give_value T h e s) x = s_slots s x"
proof -
  let ?t = "take_handle T h e s" let ?u = "?t\<lparr>s_exe := s_exe ?t + 1\<rparr>"
  let ?g = "\<lambda>sl. sl\<lparr>sl_spec := no_spec, sl_kind := K_VALUE\<rparr>"
  have ins: "node_ins (s_slots ?u y) = node_ins (s_slots s y)" "sl_released (s_slots ?u y) = sl_released (s_slots s y)" for y
    by (simp_all add: node_ins_def take_handle_slots)
  have ins': "set (node_ins (s_slots (slot_upd h ?g ?u) y)) \<subseteq> set (node_ins (s_slots s y))"
      "sl_released (s_slots (slot_upd h ?g ?u) y) = sl_released (s_slots s y)" for y
    by (simp_all add: node_ins_def take_handle_slots)
  have s: "\<forall>y \<in> insert h E. sl_released (s_slots s y) \<longrightarrow> set (node_ins (s_slots s y)) \<subseteq> insert h E"
    using assms(1,3) by (auto simp: shut_def)
  have u: "shut (insert h E) (s_slots ?u)" "shut (insert h E) (s_slots (slot_upd h ?g ?u))"
    unfolding shut_def using s ins ins' by (metis, meson subset_trans)
  have d: "s_slots (drop_structure T h ?u) x = s_slots s x" if "x \<notin> insert h E"
  proof (cases "sl_kind (s_slots s h) = K_NODE")
    case True
    have "s_slots (unrefs T (sp_in (sl_spec (s_slots ?u h))) (slot_upd h ?g ?u)) x = s_slots (slot_upd h ?g ?u) x"
    proof (rule unrefs_within [of _ "insert h E"])
      show "set (sp_in (sl_spec (s_slots ?u h))) \<subseteq> insert h E"
        using assms(3) True by (auto simp: node_ins_def take_handle_slots)
      show "set (node_ins (s_slots (slot_upd h ?g ?u) y)) \<subseteq> insert h E"
        if "y \<in> insert h E" "sl_released (s_slots (slot_upd h ?g ?u) y)" for y
        using u(2) that unfolding shut_def by blast
    qed (rule that)
    then show ?thesis using True that by (simp add: drop_structure_def take_handle_slots)
  qed (use that in \<open>simp add: drop_structure_def take_handle_slots\<close>)
  have "shut (insert h E) (s_slots (drop_structure T h ?u))"
    using u shut_let_go [OF u(2) let_go_unrefs] by (simp add: drop_structure_def)
  then show "shut (insert h E) (s_slots (give_value T h e s))"
    using u(1) by (simp add: give_value_def Let_def)
  show "x \<notin> insert h E \<Longrightarrow> s_slots (give_value T h e s) x = s_slots s x"
    using d by (simp add: give_value_def Let_def take_handle_slots)
qed

text \<open>The state of the loop with the results before place \<open>n\<close> handed over.\<close>

definition values_inv :: "(int \<Rightarrow> tf_slot) \<Rightarrow> closure \<Rightarrow> nat \<Rightarrow> 'w tfb \<Rightarrow> bool" where
  "values_inv f c n s \<longleftrightarrow> tab_ok s \<and> shut (set (c_leaves c) \<union> set (take n (c_nodes c))) (s_slots s) \<and>
     (\<forall>x. x \<notin> set (c_leaves c) \<union> set (take n (c_nodes c)) \<longrightarrow> s_slots s x = f x)"

lemma values_inv_start:
  assumes "closure_ok (s_slots s) gm c" and "tab_ok s"
  shows "values_inv (s_slots s) c 0 s"
proof -
  have "node_ins (s_slots s x) = []" if "x \<in> set (c_leaves c)" "sl_released (s_slots s x)" for x
  proof -
    have "live (s_slots s) x" "is_leaf gm (s_slots s x)" using assms(1) that(1) by (auto simp: closure_ok_def)
    moreover from this have "slot_fine (s_slots s x)" using assms(2) owesD(4) by (auto simp: tab_ok_def)
    ultimately show ?thesis using that(2) by (auto simp: slot_fine_def is_leaf_def node_ins_def)
  qed
  then show ?thesis using assms(2) by (simp add: values_inv_def shut_def)
qed

lemma closure_ok_node:
  assumes "closure_ok f gm c" and "n < length (c_nodes c)"
  shows "c_nodes c ! n \<notin> set (c_leaves c) \<union> set (take n (c_nodes c))"
    and "set (node_ins (f (c_nodes c ! n))) \<subseteq> set (c_leaves c) \<union> set (take n (c_nodes c))"
    and "live f (c_nodes c ! n)" and "\<not> is_leaf gm (f (c_nodes c ! n))"
    and "set (c_leaves c) \<union> set (take (Suc n) (c_nodes c)) = insert (c_nodes c ! n) (set (c_leaves c) \<union> set (take n (c_nodes c)))"
proof -
  have d: "distinct (c_nodes c)" "set (c_leaves c) \<inter> set (c_nodes c) = {}" using assms(1) by (auto simp: closure_ok_def)
  have "c_nodes c ! n \<notin> set (take n (c_nodes c))"
    using d(1) assms(2) by (auto simp: in_set_conv_nth nth_eq_iff_index_eq)
  moreover have "c_nodes c ! n \<notin> set (c_leaves c)" using d(2) assms(2) nth_mem by blast
  ultimately show "c_nodes c ! n \<notin> set (c_leaves c) \<union> set (take n (c_nodes c))" by simp
qed (use assms in \<open>auto simp: closure_ok_def take_Suc_conv_app_nth\<close>)

lemma values_inv_skip:
  assumes "values_inv f c n s" and "closure_ok f gm c" and "n < length (c_nodes c)"
  shows "values_inv f c (Suc n) s"
proof -
  let ?E = "set (c_leaves c) \<union> set (take n (c_nodes c))" and ?h = "c_nodes c ! n"
  note c = closure_ok_node [OF assms(2,3)]
  have "s_slots s ?h = f ?h" using c(1) assms(1) by (simp add: values_inv_def)
  then have "shut (insert ?h ?E) (s_slots s)" using c(2) assms(1) by (auto simp: values_inv_def shut_def)
  then show ?thesis using assms(1) unfolding values_inv_def c(5) by blast
qed

lemma values_inv_mono:
  assumes "values_inv f c n s" and "closure_ok f gm c" and "n \<le> m" and "m \<le> length (c_nodes c)"
  shows "values_inv f c m s"
  using assms(3,4,1)
proof (induction m rule: dec_induct)
  case (step k)
  then show ?case using values_inv_skip [of f c k s gm] assms(2) by simp
qed

lemma values_inv_give:
  assumes "values_inv f c n s" and ok: "closure_ok f gm c" and n: "n < length (c_nodes c)"
    and "sl_released (f (c_nodes c ! n)) \<Longrightarrow> sl_is_param (f (c_nodes c ! n))"
  shows "values_inv f c (Suc n) (give_value T (c_nodes c ! n) e s)"
proof -
  let ?E = "set (c_leaves c) \<union> set (take n (c_nodes c))" and ?h = "c_nodes c ! n"
  note c = closure_ok_node [OF ok n]
  then have sh: "s_slots s ?h = f ?h" using assms(1) by (simp add: values_inv_def)
  have st: "shut (insert ?h ?E) (s_slots (give_value T ?h e s))"
      "\<And>x. x \<notin> insert ?h ?E \<Longrightarrow> s_slots (give_value T ?h e s) x = s_slots s x"
    using give_value_step [of ?E s ?h] assms(1) c(1,2) sh unfolding values_inv_def by metis+
  have "live (s_slots s) ?h" "sl_kind (s_slots s ?h) = K_NODE"
    using c(3,4) sh by (cases "sl_kind (f ?h)", auto simp: live_def is_leaf_def)+
  then have "tab_ok (give_value T ?h e s)"
    using assms(1,4) sh by (intro give_value_ok) (auto simp: values_inv_def)
  then show ?thesis using st assms(1) unfolding values_inv_def c(5) by simp
qed

lemma give_values_inv:
  assumes "closure_ok f gm c"
    and "\<And>k. k \<in> fst ` set kes \<Longrightarrow> k < length (c_nodes c) \<and> (sl_released (f (c_nodes c ! k)) \<longrightarrow> sl_is_param (f (c_nodes c ! k)))"
  shows "values_inv f c n s \<Longrightarrow> sorted_wrt (<) (map fst kes) \<Longrightarrow> (\<And>k. k \<in> fst ` set kes \<Longrightarrow> n \<le> k) \<Longrightarrow>
    n \<le> length (c_nodes c) \<Longrightarrow> values_inv f c (length (c_nodes c)) (give_values T c kes s)"
  using assms(2)
proof (induction kes arbitrary: n s)
  case Nil
  then show ?case using values_inv_mono [OF Nil(1) assms(1)] by simp
next
  case (Cons ke kes)
  have k: "fst ke < length (c_nodes c)" "n \<le> fst ke" using Cons.prems(3,5) by auto
  have "values_inv f c (Suc (fst ke)) (give_value T (c_nodes c ! fst ke) (snd ke) s)"
    using values_inv_mono [OF Cons.prems(1) assms(1) k(2)] k(1) Cons.prems(5) assms(1)
    by (intro values_inv_give) auto
  moreover have "\<And>k. k \<in> fst ` set kes \<Longrightarrow> Suc (fst ke) \<le> k" using Cons.prems(2) by (auto simp: Suc_le_eq)
  ultimately show ?case
    using Cons.IH [of "Suc (fst ke)"] Cons.prems(2,5) k(1) by (simp add: nth_opt_def Suc_le_eq)
qed

lemma give_values_exists: "tfb_exists s x \<Longrightarrow> tfb_exists (give_values T c kes s) x"
  by (induction kes arbitrary: s) (auto split: option.split intro: give_value_exists)

lemma give_values_frame [simp]: "s_entries (give_values T c kes s) = s_entries s"
  by (induction kes arbitrary: s) (simp_all split: option.split)

section \<open>Calls that leave the table alone\<close>

text \<open>What the rest of the back end relies on of an entry; making and calling its function changes the rest.\<close>

definition entry_core :: "entry \<Rightarrow> entry" where
  "entry_core e = e\<lparr>en_grads := [], en_grad_at := [], en_noutputs := 0, en_calls := 0, en_fn := False, en_fname := []\<rparr>"

definition quiet :: "('w, 'a) tact \<Rightarrow> bool" where
  "quiet m \<longleftrightarrow> (\<forall>s. s_slots (final (m s)) = s_slots s \<and> s_cursor (final (m s)) = s_cursor s \<and>
     map entry_core (s_entries (final (m s))) = map entry_core (s_entries s))"

named_theorems quiet_rules \<open>rules for calls that leave the table alone\<close>

lemma quiet_andthen [quiet_rules]: "quiet m \<Longrightarrow> (\<And>v. quiet (f v)) \<Longrightarrow> quiet (andthen m f)"
  unfolding quiet_def andthen_def by (auto split: outcome.split) (metis final.simps)+

lemma quiet_ret [quiet_rules]: "quiet (ret v)"
  and quiet_fetch [quiet_rules]: "quiet (fetch g)"
  and quiet_fail [quiet_rules]: "quiet (tf_fail msg)"
  and quiet_zero [quiet_rules]: "quiet Zero"
  and quiet_waits [quiet_rules]: "quiet Waits"
  and quiet_call [quiet_rules]: "quiet (tf_call call)"
  and quiet_check [quiet_rules]: "quiet (tf_check check)"
  by (auto simp: quiet_def ret_def fetch_def tf_fail_def tf_call_def tf_check_def split: prod.split sum.split option.split)

lemma quiet_if [quiet_rules]: "(b \<Longrightarrow> quiet m) \<Longrightarrow> (\<not> b \<Longrightarrow> quiet k) \<Longrightarrow> quiet (if b then m else k)"
  by simp

lemma quiet_case_prod [quiet_rules]: "(\<And>a b. quiet (k a b)) \<Longrightarrow> quiet (case x of (a, b) \<Rightarrow> k a b)"
  by (cases x) simp

lemma quiet_case_option [quiet_rules]:
  "(x = None \<Longrightarrow> quiet m) \<Longrightarrow> (\<And>v. x = Some v \<Longrightarrow> quiet (k v)) \<Longrightarrow> quiet (case x of None \<Rightarrow> m | Some v \<Rightarrow> k v)"
  by (cases x) simp_all

lemma quiet_attempt [quiet_rules]: "quiet m \<Longrightarrow> quiet (attempt m)"
  by (simp add: quiet_def)

lemma quiet_modify: "(\<And>s. s_slots (f s) = s_slots s) \<Longrightarrow> (\<And>s. s_cursor (f s) = s_cursor s) \<Longrightarrow>
    (\<And>s. map entry_core (s_entries (f s)) = map entry_core (s_entries s)) \<Longrightarrow> quiet (modify f)"
  by (simp add: quiet_def modify_def)

lemma entry_upd_core:
  "(\<And>e. entry_core (g e) = entry_core e) \<Longrightarrow> map entry_core (s_entries (entry_upd i g s)) = map entry_core (s_entries s)"
  by (cases "i < length (s_entries s)") (simp_all add: entry_upd_def map_update list_update_same_conv list_update_beyond not_less)

lemma entry_upd_frame [simp]: "s_slots (entry_upd i g s) = s_slots s" "s_cursor (entry_upd i g s) = s_cursor s"
  by (simp_all add: entry_upd_def)

lemma quiet_entry_upd: "(\<And>e. entry_core (g e) = entry_core e) \<Longrightarrow> quiet (modify (entry_upd i g))"
  by (rule quiet_modify) (simp_all add: entry_upd_core)

lemma quietD:
  assumes "quiet m"
  shows "s_slots (final (m s)) = s_slots s" "s_cursor (final (m s)) = s_cursor s"
    "map entry_core (s_entries (final (m s))) = map entry_core (s_entries s)"
  using assms by (simp_all add: quiet_def)

lemma entry_core_facts:
  assumes "map entry_core es = map entry_core ds"
  shows "length es = length ds" and "i < length es \<Longrightarrow> entry_core (es ! i) = entry_core (ds ! i)"
  using assms by (metis length_map, metis length_map nth_map)

lemma entry_core_sel [simp]:
  "en_key (entry_core e) = en_key e" "en_out_node (entry_core e) = en_out_node e" "en_outs (entry_core e) = en_outs e"
  "en_graph (entry_core e) = en_graph e" "en_ph (entry_core e) = en_ph e" "en_in_leaf (entry_core e) = en_in_leaf e"
  "entry_ok (entry_core e) = entry_ok e" "entry_keyed (entry_core e) = entry_keyed e"
  by (simp_all add: entry_core_def entry_ok_def entry_keyed_def)

lemma entry_core_keeps:
  assumes "entry_core e = entry_core d"
  shows "en_key e = en_key d" "en_out_node e = en_out_node d" "en_outs e = en_outs d" "en_in_leaf e = en_in_leaf d"
  using assms entry_core_sel by metis+

lemma entries_core:
  assumes "map entry_core es = map entry_core ds"
  shows "map en_key es = map en_key ds" and "(\<forall>e \<in> set es. entry_ok e \<and> entry_keyed e) = (\<forall>e \<in> set ds. entry_ok e \<and> entry_keyed e)"
proof -
  have "map en_key es = map en_key (map entry_core es)" for es by simp
  then show "map en_key es = map en_key ds" using assms by metis
  have "(\<forall>e \<in> set es. entry_ok e \<and> entry_keyed e) = (\<forall>e \<in> set (map entry_core es). entry_ok e \<and> entry_keyed e)" for es by simp
  then show "(\<forall>e \<in> set es. entry_ok e \<and> entry_keyed e) = (\<forall>e \<in> set ds. entry_ok e \<and> entry_keyed e)" using assms by metis
qed

lemma fits_keys: "fits u \<longleftrightarrow> (\<forall>k \<in> set (map en_key (s_entries u)). length k < TF_KEYMAX - 1)"
  by (simp add: fits_def)

lemma fits_core: "map entry_core (s_entries t) = map entry_core (s_entries s) \<Longrightarrow> fits t = fits s"
  unfolding fits_keys using entries_core(1) by metis

lemma good_core:
  assumes "good s" and "tab_ok t" and c: "map entry_core (s_entries t) = map entry_core (s_entries s)"
  shows "good t"
  using assms(1,2) entries_core [OF c] entry_core_facts(1) [OF c]
  unfolding good_def entries_ok_def by metis

lemma quiet_good:
  assumes "quiet m" and "good s"
  shows "good (final (m s))"
proof (rule good_core [OF assms(2)])
  show "tab_ok (final (m s))" using goodD(1) [OF assms(2)] quietD(1,2) [OF assms(1), of s] by (simp add: tab_ok_def)
qed (rule quietD [OF assms(1)])

lemma quiet_fits: "quiet m \<Longrightarrow> fits (final (m s)) = fits s"
  by (rule fits_core) (rule quietD)

lemma does_quiet:
  fixes m :: "('w, 'a) tact"
  assumes "quiet m"
  shows "safe m"
proof (rule doesI)
  show "fits s" if "fits (final (m s))" for s using that quiet_fits [OF assms] by simp
  fix s :: "'w tfb" assume "good s"
  then show "kept {} (\<lambda>_. {}) s (m s)"
    using quiet_good [OF assms] tfb_exists_cong [OF quietD(1) [OF assms, of s]] by (simp add: kept_def)
qed

lemma quiet_closure_of [quiet_rules]: "quiet (closure_of T h gm)"
  unfolding closure_of_def by (intro quiet_rules) (auto split: sum.split intro: quiet_rules)

lemma quiet_compile_leaves: "quiet (compile_leaves T hs g ph il)"
  by (induction hs arbitrary: g ph il) (auto intro!: quiet_rules quiet_modify)

lemma quiet_compile_nodes: "quiet (compile_nodes T c ph hs g outs on)"
  by (induction hs arbitrary: g outs on) (auto simp: Let_def intro!: quiet_rules quiet_modify)

lemma quiet_entry_function [quiet_rules]: "quiet (entry_function T i)"
  unfolding entry_function_def Let_def
  by (intro quiet_rules quiet_entry_upd quiet_modify) (simp_all add: entry_upd_core entry_core_def)

end
