(* ===== verification/Tf_Safe.thy ===== *)
theory Tf_Safe
  imports Tf_Exec
begin

text \<open>
  Looking up or compiling a closure, calling it, forcing and reading a tensor, its shape, and the
  shape rules: each keeps the back end good, frees no handle of the program, and leaves alone
  every slot that nothing reads and that it was not asked about.
\<close>

section \<open>Finding and compiling an entry\<close>

lemma entry_compile_frame:
  "s_slots (final (entry_compile T c s)) = s_slots s" "s_cursor (final (entry_compile T c s)) = s_cursor s"
  "entry_compile T c s = Zero t \<Longrightarrow> map entry_core (s_entries t) = map entry_core (s_entries s)"
  "fits (final (entry_compile T c s)) \<Longrightarrow> fits s"
proof -
  have *: "s_slots (final (entry_compile T c s)) = s_slots s \<and> s_cursor (final (entry_compile T c s)) = s_cursor s \<and>
    (\<forall>t. entry_compile T c s = Zero t \<longrightarrow> map entry_core (s_entries t) = map entry_core (s_entries s)) \<and>
    (fits (final (entry_compile T c s)) \<longrightarrow> fits s)"
  proof (cases "TF_MAXENTRY \<le> length (s_entries s)")
    case False
    let ?l = "compile_leaves T (c_leaves c) [] [] [] s"
    note l = quietD [OF quiet_compile_leaves, of T "c_leaves c" "[]" "[]" "[]" s] quiet_fits [OF quiet_compile_leaves, of T "c_leaves c" "[]" "[]" "[]" s]
    show ?thesis
    proof (cases ?l)
      case (One v u)
      obtain g ph il where v: "v = (g, ph, il)" by (cases v)
      note m = quietD [OF quiet_compile_nodes, of T c ph "c_nodes c" g "[]" "[]" u] quiet_fits [OF quiet_compile_nodes, of T c ph "c_nodes c" g "[]" "[]" u]
      show ?thesis
        using False l m One v
        by (cases "compile_nodes T c ph (c_nodes c) g [] [] u")
          (auto simp: entry_compile_def act_defs fits_def)
    qed (use False l in \<open>auto simp: entry_compile_def act_defs\<close>)
  qed (simp add: entry_compile_def act_defs tf_fail_def fits_def)
  then show "s_slots (final (entry_compile T c s)) = s_slots s" "s_cursor (final (entry_compile T c s)) = s_cursor s"
    "entry_compile T c s = Zero t \<Longrightarrow> map entry_core (s_entries t) = map entry_core (s_entries s)"
    "fits (final (entry_compile T c s)) \<Longrightarrow> fits s" by auto
qed

lemma entry_compile_good:
  assumes g: "good s" and c: "closure_ok (s_slots s) gm c" "key_matches T' (s_slots s) c" and "entry_find (c_key c) s = None"
  shows "good (final (entry_compile T c s))"
proof -
  have tab: "tab_ok (final (entry_compile T c s))"
    using goodD(1) [OF g] entry_compile_frame(1,2) [of T c s] by (simp add: tab_ok_def)
  show ?thesis
  proof (cases "entry_compile T c s")
    case (One n t)
    from entry_compile_ok [OF c(1) One] obtain e where e: "s_entries t = s_entries s @ [e]" "en_key e = c_key c"
      "en_out_node e = filter (\<lambda>k. c_want c ! k) [0..<length (c_nodes c)]" by metis
    have "entry_keyed e"
    proof -
      have "length (c_want c) = length (c_nodes c)" using c(2) by (simp add: key_matches_def)
      then show ?thesis using key_matches_wants [OF c(2,1) goodD(2) [OF g]] e(2,3)
        by (simp add: entry_keyed_def results_of_def)
    qed
    moreover have "entries_ok t"
      using entry_compile_entries [OF _ c(1) assms(4) One] g by (simp add: good_def)
    ultimately show ?thesis using tab One e(1) g by (auto simp: good_def)
  next
    case (Zero t)
    then show ?thesis using good_core [OF g tab] entry_compile_frame(3) [OF Zero] by simp
  next
    case (Waits t)
    have "compile_leaves T hs g ph il s \<noteq> Waits t" for hs g ph il s t
      by (induction hs arbitrary: g ph il s) (auto simp: act_defs tf_check_def split: prod.split option.split outcome.split)
    moreover have "compile_nodes T c ph hs g outs on s \<noteq> Waits t" for ph hs g outs on s t
      by (induction hs arbitrary: g outs on s) (auto simp: act_defs tf_check_def Let_def split: prod.split option.split outcome.split)
    ultimately have False using Waits
      by (auto simp: entry_compile_def act_defs tf_fail_def split: if_splits outcome.splits prod.splits)
    then show ?thesis ..
  qed
qed

text \<open>An entry that is that of the closure: by its key, and so by its results.\<close>

definition entry_of :: "'w tfb \<Rightarrow> closure \<Rightarrow> nat \<Rightarrow> bool" where
  "entry_of s c i \<longleftrightarrow> i < length (s_entries s) \<and> en_key (s_entries s ! i) = c_key c"

lemma entry_for_good:
  assumes g: "good s" and c: "closure_ok (s_slots s) gm c" "key_matches T (s_slots s) c"
  shows "good (final (entry_for T c s))" and "s_slots (final (entry_for T c s)) = s_slots s"
    and "entry_for T c s = One (i, hit) t \<Longrightarrow> entry_of t c i"
proof -
  have *: "good (final (entry_for T c s)) \<and> s_slots (final (entry_for T c s)) = s_slots s \<and>
    (\<forall>i hit t. entry_for T c s = One (i, hit) t \<longrightarrow> entry_of t c i)"
  proof (cases "entry_find (c_key c) s")
    case (Some j)
    then show ?thesis using g find_entry_Some
      by (auto simp: entry_for_def act_defs entry_find_def entry_of_def)
  next
    case None
    note good = entry_compile_good [OF g c None, of T] and frame = entry_compile_frame(1) [of T c s]
    show ?thesis
    proof (cases "entry_compile T c s")
      case (One n t)
      from entry_compile_ok [OF c(1) One] obtain e where "s_entries t = s_entries s @ [e]" "n = length (s_entries s)" "en_key e = c_key c"
        by metis
      then show ?thesis using good frame One None by (auto simp: entry_for_def act_defs entry_of_def)
    qed (use good frame None in \<open>auto simp: entry_for_def act_defs\<close>)
  qed
  then show "good (final (entry_for T c s))" "s_slots (final (entry_for T c s)) = s_slots s"
    "entry_for T c s = One (i, hit) t \<Longrightarrow> entry_of t c i" by auto
qed

lemma entry_for_fits: "fits (final (entry_for T c s)) \<Longrightarrow> fits s"
  using entry_compile_frame(4) [of T c s]
  by (cases "entry_find (c_key c) s"; cases "entry_compile T c s") (auto simp: entry_for_def act_defs)

section \<open>Calling an entry\<close>

text \<open>A closure of the table as it stands, asked for by a handle the program holds, with its key.\<close>

definition asked :: "'w tf \<Rightarrow> 'w tfb \<Rightarrow> bool \<Rightarrow> int \<Rightarrow> closure \<Rightarrow> bool" where
  "asked T s gm r c \<longleftrightarrow> closure_ok (s_slots s) gm c \<and> key_matches T (s_slots s) c \<and> tfb_exists s r \<and>
     c_want c = map (\<lambda>x. wants r x (s_slots s x)) (c_nodes c)"

lemma asked_cong: "s_slots t = s_slots s \<Longrightarrow> asked T t gm r c = asked T s gm r c"
  by (simp add: asked_def tfb_exists_def)

lemma results_of_sorted: "sorted_wrt (<) (results_of w)"
  by (simp add: results_of_def sorted_wrt_filter)

lemma entry_of_results:
  assumes "good s" and "fits s" and "asked T s gm r c" and "entry_of s c i"
  shows "en_out_node (s_entries s ! i) = results_of (c_want c)"
proof -
  have "s_entries s ! i \<in> set (s_entries s)" using assms(4) by (simp add: entry_of_def)
  then have "entry_keyed (s_entries s ! i)" "length (en_key (s_entries s ! i)) < TF_KEYMAX - 1"
    using assms(1,2) by (auto simp: good_def fits_def)
  then show ?thesis
    using key_matches_wants [OF _ _ goodD(2) [OF assms(1)], of T c gm] assms(3,4)
    by (simp add: entry_keyed_def asked_def entry_of_def)
qed

lemma give_values_asked:
  assumes "tab_ok s" and "asked T s gm r c" and "on = results_of (c_want c)"
  shows "tab_ok (give_values T c (zip on rs) s)"
    and "x \<notin> set (c_leaves c) \<union> set (c_nodes c) \<Longrightarrow> s_slots (give_values T c (zip on rs) s) x = s_slots s x"
proof -
  have ok: "closure_ok (s_slots s) gm c" using assms(2) by (simp add: asked_def)
  have fst: "map fst (zip on rs) = take (length rs) on" by (simp add: map_fst_zip_take min_def)
  then have sub: "fst ` set (zip on rs) \<subseteq> set on" by (metis set_map set_take_subset)
  have "k < length (c_nodes c) \<and> (sl_released (s_slots s (c_nodes c ! k)) \<longrightarrow> sl_is_param (s_slots s (c_nodes c ! k)))"
    if "k \<in> fst ` set (zip on rs)" for k
    using that sub assms(2,3) by (auto simp: results_of_def asked_def wants_def tfb_exists_def)
  moreover have "sorted_wrt (<) (map fst (zip on rs))"
    unfolding fst using results_of_sorted [of "c_want c"] assms(3) by (simp add: sorted_wrt_take)
  ultimately have v: "values_inv (s_slots s) c (length (c_nodes c)) (give_values T c (zip on rs) s)"
    by (intro give_values_inv [OF ok _ values_inv_start [OF ok assms(1)]]) auto
  then show "tab_ok (give_values T c (zip on rs) s)" by (simp add: values_inv_def)
  show "x \<notin> set (c_leaves c) \<union> set (c_nodes c) \<Longrightarrow> s_slots (give_values T c (zip on rs) s) x = s_slots s x"
    using v by (simp add: values_inv_def)
qed

lemma call_entry_good:
  assumes "good s" and "fits s" and "asked T s gm r c" and "entry_of s c i"
  shows "kept {} (\<lambda>_. {}) s (call_entry T c i s)"
    and "x \<notin> set (c_leaves c) \<union> set (c_nodes c) \<Longrightarrow> s_slots (final (call_entry T c i s)) x = s_slots s x"
    and "map entry_core (s_entries (final (call_entry T c i s))) = map entry_core (s_entries s)"
    and "call_entry T c i s = Zero t \<Longrightarrow> s_slots t = s_slots s"
proof -
  let ?e = "s_entries s ! i"
  let ?s = "if 0 < s_xla s then entry_upd i (\<lambda>e. e\<lparr>en_calls := en_calls e + 1\<rparr>) s else s"
  have s: "s_slots ?s = s_slots s" "s_cursor ?s = s_cursor s" "map entry_core (s_entries ?s) = map entry_core (s_entries s)"
    by (simp_all add: entry_upd_core entry_core_def)
  have on: "en_out_node ?e = results_of (c_want c)" using entry_of_results [OF assms] .
  have *: "kept {} (\<lambda>_. {}) s (call_entry T c i s) \<and>
      (\<forall>x. x \<notin> set (c_leaves c) \<union> set (c_nodes c) \<longrightarrow> s_slots (final (call_entry T c i s)) x = s_slots s x) \<and>
      map entry_core (s_entries (final (call_entry T c i s))) = map entry_core (s_entries s) \<and>
      (\<forall>t. call_entry T c i s = Zero t \<longrightarrow> s_slots t = s_slots s)"
  proof (cases "en_noutputs ?e = 0")
    case True
    then show ?thesis using assms(1) by (simp add: call_entry_def act_defs kept_def)
  next
    case False
    obtain m where m: "call_entry T c i s =
        andthen (tf_call m) (\<lambda>rs. andthen (modify (give_values T c (zip (en_out_node ?e) rs))) (\<lambda>_. ret rs)) ?s"
      using False by (simp add: call_entry_def)
    obtain x w where mw: "m (s_w ?s) = (x, w)" by (cases "m (s_w ?s)")
    show ?thesis
    proof (cases x)
      case (Inl msg)
      let ?t = "?s\<lparr>s_err := snprintf_s 512 msg, s_w := w\<rparr>"
      have "call_entry T c i s = Zero ?t" using m mw Inl by (simp add: andthen_def tf_call_def)
      moreover have "good ?t" by (rule good_core [OF assms(1)]) (use s goodD(1) [OF assms(1)] in \<open>simp_all add: tab_ok_def\<close>)
      ultimately show ?thesis using s by (simp add: kept_def tfb_exists_def)
    next
      case (Inr rs)
      let ?t = "?s\<lparr>s_w := w\<rparr>" let ?u = "give_values T c (zip (en_out_node ?e) rs) ?t"
      have c: "call_entry T c i s = One rs ?u" using m mw Inr by (simp add: act_defs tf_call_def)
      have t: "tab_ok ?t" "asked T ?t gm r c" "s_slots ?t = s_slots s"
        using s goodD(1) [OF assms(1)] assms(3) by (simp_all add: tab_ok_def asked_def tfb_exists_def)
      have "good ?u" by (rule good_core [OF assms(1)]) (use give_values_asked(1) [OF t(1,2) on] s in simp_all)
      moreover have "tfb_exists ?u x" if "tfb_exists s x" for x
        using that give_values_exists [of ?t x] t(3) by (simp add: tfb_exists_def)
      moreover have "s_slots ?u x = s_slots s x" if "x \<notin> set (c_leaves c) \<union> set (c_nodes c)" for x
        using give_values_asked(2) [OF t(1,2) on that] t(3) by simp
      ultimately show ?thesis using c s by (simp add: kept_def)
    qed
  qed
  then show "kept {} (\<lambda>_. {}) s (call_entry T c i s)"
    "x \<notin> set (c_leaves c) \<union> set (c_nodes c) \<Longrightarrow> s_slots (final (call_entry T c i s)) x = s_slots s x"
    "map entry_core (s_entries (final (call_entry T c i s))) = map entry_core (s_entries s)"
    "call_entry T c i s = Zero t \<Longrightarrow> s_slots t = s_slots s" by auto
qed

text \<open>The gradients of a call.\<close>

lemma delete_all_frame [simp]:
  "s_slots (delete_all T rs s) = s_slots s" "s_cursor (delete_all T rs s) = s_cursor s" "s_entries (delete_all T rs s) = s_entries s"
  by (induction rs arbitrary: s) (simp_all add: delete_all_def)

lemma does_grad_slot: "does {} (\<lambda>r. case r of None \<Rightarrow> {} | Some h \<Rightarrow> {h}) (grad_slot T rs p at)"
proof (cases at)
  case None
  have "makes {} (andthen (fetch (\<lambda>s. sl_shape (s_slots s p))) (\<lambda>sh. tfb_from_doubles T (replicate (nat (prod_list sh)) 0) sh))"
    by (intro does_seq does_rules)
  from does_attempt [OF this] show ?thesis by (simp add: grad_slot_def None)
next
  case (Some k)
  let ?F = "\<lambda>r :: int option. case r of None \<Rightarrow> {} | Some h \<Rightarrow> {h}"
  let ?rest = "\<lambda>r :: int option. andthen (modify (\<lambda>s. s\<lparr>s_exe := s_exe s + 1\<rparr>)) (\<lambda>_. ret r)"
  have rest: "does (?F r) ?F (?rest r)" for r
    by (intro does_seq does_modify does_ret) simp_all
  have "does {} ?F (andthen (attempt (slot_from_handle T e)) ?rest)" for e
    by (rule does_bind [OF does_attempt [OF makes_slot_from_handle]]) (use rest does_fits [OF rest] in auto)
  then show ?thesis by (auto simp: grad_slot_def Some intro: does_rules)
qed

lemma does_take_grads: "does {} set (take_grads T rs pas taken)"
proof (induction pas arbitrary: taken)
  case Nil
  show ?case by (simp add: does_ret)
next
  case (Cons pa pas)
  let ?taken = "case snd pa of None \<Rightarrow> taken | Some k \<Rightarrow> insert k taken"
  let ?G = "\<lambda>r :: int option. case r of None \<Rightarrow> {} | Some h \<Rightarrow> {h}"
  let ?f = "\<lambda>r. case r of
        None \<Rightarrow> andthen (modify (delete_all T (map (\<lambda>k. rs ! k) (filter (\<lambda>k. k \<notin> ?taken) [0..<length rs])))) (\<lambda>_. Zero)
      | Some h \<Rightarrow> andthen (take_grads T rs pas ?taken) (\<lambda>hs. ret (h # hs))"
  have "does ({h} \<union> set hs) set (ret (h # hs))" for h hs by (rule does_ret) simp
  then have "does {h} set (andthen (take_grads T rs pas ?taken) (\<lambda>hs. ret (h # hs)))" for h
    by (intro does_bind [OF Cons.IH]) (auto simp: Un_commute ret_def)
  then have f: "does (?G r) set (?f r)" for r
    by (cases r) (auto intro!: does_seq does_modify does_rules)
  have "does {} set (andthen (grad_slot T rs (fst pa) (snd pa)) ?f)"
  proof (rule does_bind [OF does_grad_slot])
    show "fits s" if "fits (final (?f v s))" for v s using does_fits [OF f that] .
    show "does (?G v \<union> ({} - {})) set (?f v)" for v using f [of v] by simp
  qed simp
  then show ?case by (simp add: Let_def)
qed

text \<open>Entries only come: where no key is cut afterwards, none was before.\<close>

named_theorems fits_rules \<open>rules for calls after which no key is cut that was not before\<close>

definition fits_back :: "('w, 'a) tact \<Rightarrow> bool" where
  "fits_back m \<longleftrightarrow> (\<forall>s. fits (final (m s)) \<longrightarrow> fits s)"

lemma fits_back_does: "does A F m \<Longrightarrow> fits_back m"
  using does_fits by (auto simp: fits_back_def)

lemma fits_back_quiet: "quiet m \<Longrightarrow> fits_back m"
  by (rule fits_back_does [OF does_quiet])

lemma fits_back_if [fits_rules]: "(b \<Longrightarrow> fits_back m) \<Longrightarrow> (\<not> b \<Longrightarrow> fits_back k) \<Longrightarrow> fits_back (if b then m else k)"
  by simp

lemma fits_back_case_prod [fits_rules]: "(\<And>a b. fits_back (k a b)) \<Longrightarrow> fits_back (case x of (a, b) \<Rightarrow> k a b)"
  by (cases x) simp

lemma fits_back_case_option [fits_rules]:
  "fits_back m \<Longrightarrow> (\<And>v. fits_back (k v)) \<Longrightarrow> fits_back (case x of None \<Rightarrow> m | Some v \<Rightarrow> k v)"
  by (cases x) simp_all

lemma fits_back_andthen [fits_rules]:
  assumes "fits_back m" and "\<And>v. fits_back (f v)"
  shows "fits_back (andthen m f)"
  unfolding fits_back_def
proof (intro allI impI)
  fix s assume "fits (final (andthen m f s))"
  then have "fits (final (m s))" using assms(2) by (cases "m s") (auto simp: andthen_def fits_back_def)
  then show "fits s" using assms(1) by (simp add: fits_back_def)
qed

lemma fits_back_call_entry [fits_rules]: "fits_back (call_entry T c i)"
  unfolding fits_back_def
proof (intro allI impI)
  fix s assume f: "fits (final (call_entry T c i s))"
  have "map en_key (s_entries (final (call_entry T c i s))) = map en_key (s_entries s)"
    by (rule entries_core(1)) (auto simp: call_entry_def act_defs tf_call_def entry_upd_core entry_core_def split: prod.split sum.split)
  then show "fits s" using f unfolding fits_keys by metis
qed

lemmas fits_back_simple = fits_back_does [OF does_quiet [OF quiet_entry_function]] fits_back_does [OF does_fetch]
  fits_back_does [OF does_take_grads]

lemma fits_back_rest:
  "fits_back (\<lambda>s. andthen (call_entry T c i) (\<lambda>rs. andthen (fetch (\<lambda>s. s_entries s ! i)) (\<lambda>e.
     take_grads T rs (map (\<lambda>k. (ps ! k, en_grad_at e ! k)) [0..<length ps]) {0..<length (en_out_node e)})) s)"
  by (intro fits_back_andthen fits_back_call_entry fits_back_simple)

lemma fits_back_execute [fits_rules]: "fits_back (execute T c i ps)"
  unfolding execute_def by (intro fits_back_andthen fits_back_call_entry fits_back_simple)

lemma kept_trans:
  assumes "kept {} (\<lambda>_. {}) s q" and "q = One v t" and "kept {} F t r"
  shows "kept {} F s r"
  using assms unfolding kept_def by auto

lemma entry_of_core: "map entry_core (s_entries t) = map entry_core (s_entries s) \<Longrightarrow> entry_of t c i = entry_of s c i"
  unfolding entry_of_def using entries_core(1) by (metis length_map nth_map)

lemma execute_good:
  assumes g: "good s" and a: "asked T s gm r c" and e: "entry_of s c i" and fit: "fits (final (execute T c i ps s))"
  shows "kept {} set s (execute T c i ps s)"
    and "ps = [] \<Longrightarrow> x \<notin> set (c_leaves c) \<union> set (c_nodes c) \<Longrightarrow> s_slots (final (execute T c i ps s)) x = s_slots s x"
    and "ps = [] \<Longrightarrow> execute T c i ps s = Zero t \<Longrightarrow> s_slots t = s_slots s"
proof -
  let ?rest = "andthen (call_entry T c i) (\<lambda>rs. andthen (fetch (\<lambda>s. s_entries s ! i)) (\<lambda>e.
     take_grads T rs (map (\<lambda>k. (ps ! k, en_grad_at e ! k)) [0..<length ps]) {0..<length (en_out_node e)}))"
  note q = quietD [OF quiet_entry_function, of T i s]
  have k1: "kept {} (\<lambda>_. {}) s (entry_function T i s)"
    using quiet_good [OF quiet_entry_function g, of T i] q(1) by (simp add: kept_def tfb_exists_def)
  have *: "kept {} set s (execute T c i ps s) \<and>
      (ps = [] \<longrightarrow> (\<forall>x. x \<notin> set (c_leaves c) \<union> set (c_nodes c) \<longrightarrow> s_slots (final (execute T c i ps s)) x = s_slots s x)) \<and>
      (ps = [] \<longrightarrow> (\<forall>t. execute T c i ps s = Zero t \<longrightarrow> s_slots t = s_slots s))"
  proof (cases "entry_function T i s")
    case (One u s1)
    have ex: "execute T c i ps s = ?rest s1" using One by (simp add: execute_def andthen_One)
    have fit1: "fits s1" using fit ex fits_back_rest [of T c i ps] by (simp add: fits_back_def)
    have s1: "good s1" "asked T s1 gm r c" "entry_of s1 c i" "s_slots s1 = s_slots s"
      using k1 One q a e asked_cong [of s1 s] entry_of_core [of s1 s] by (auto simp: kept_def)
    note call = call_entry_good [OF s1(1) fit1 s1(2,3)]
    show ?thesis
    proof (cases "call_entry T c i s1")
      case c: (One rs s2)
      let ?e = "s_entries s2 ! i"
      let ?g = "take_grads T rs (map (\<lambda>k. (ps ! k, en_grad_at ?e ! k)) [0..<length ps]) {0..<length (en_out_node ?e)}"
      have ex2: "execute T c i ps s = ?g s2" using ex c by (simp add: andthen_One act_defs)
      have "kept {} set s2 (?g s2)"
        by (rule doesD [OF does_take_grads]) (use call(1) c fit ex2 in \<open>auto simp: kept_def\<close>)
      then have "kept {} set s (execute T c i ps s)"
        unfolding ex2 using kept_trans [OF k1 One kept_trans [OF call(1) c]] by blast
      moreover have "s_slots (final (execute T c i [] s)) = s_slots s2" if "ps = []"
        using ex2 that by (simp add: ret_def)
      ultimately show ?thesis using call(2) c s1(4) ex2 by (auto simp: ret_def)
    next
      case c: (Zero s2)
      then have "execute T c i ps s = Zero s2" using ex by (simp add: andthen_Zero)
      then show ?thesis using kept_trans [OF k1 One call(1)] call(4) [OF c] c s1(4) by (auto simp: kept_def)
    next
      case c: (Waits s2)
      then have "execute T c i ps s = Waits s2" using ex by (simp add: andthen_Waits)
      then show ?thesis using kept_trans [OF k1 One call(1)] call(2) c s1(4) by (auto simp: kept_def)
    qed
  next
    case (Zero s1)
    then have "execute T c i ps s = Zero s1" by (simp add: execute_def andthen_Zero)
    then show ?thesis using k1 q(1) Zero by (auto simp: kept_def)
  next
    case (Waits s1)
    then have "execute T c i ps s = Waits s1" by (simp add: execute_def andthen_Waits)
    then show ?thesis using k1 q(1) Waits by (auto simp: kept_def)
  qed
  then show "kept {} set s (execute T c i ps s)"
    "ps = [] \<Longrightarrow> x \<notin> set (c_leaves c) \<union> set (c_nodes c) \<Longrightarrow> s_slots (final (execute T c i ps s)) x = s_slots s x"
    "ps = [] \<Longrightarrow> execute T c i ps s = Zero t \<Longrightarrow> s_slots t = s_slots s" by auto
qed

section \<open>Running a closure\<close>

text \<open>
  \<open>calm N X m\<close>: started where the handles of \<open>N\<close> are good, \<open>m\<close> frees no handle of the program, and a
  slot that nothing reads and that is not in \<open>X\<close> is afterwards what it was.
\<close>

definition calm :: "int set \<Rightarrow> int set \<Rightarrow> ('w, 'a) tact \<Rightarrow> bool" where
  "calm N X m \<longleftrightarrow> (\<forall>s. fits (final (m s)) \<longrightarrow> fits s \<and> (good s \<longrightarrow> (\<forall>x \<in> N. tfb_exists s x) \<longrightarrow>
     kept {} (\<lambda>_. {}) s (m s) \<and>
     (\<forall>h. live (s_slots s) h \<longrightarrow> sl_refs (s_slots s h) = 0 \<longrightarrow> h \<notin> X \<longrightarrow> s_slots (final (m s)) h = s_slots s h)))"

lemma calmI:
  assumes "fits_back m"
    and "\<And>s. fits (final (m s)) \<Longrightarrow> fits s \<Longrightarrow> good s \<Longrightarrow> (\<And>x. x \<in> N \<Longrightarrow> tfb_exists s x) \<Longrightarrow> kept {} (\<lambda>_. {}) s (m s)"
    and "\<And>s h. fits (final (m s)) \<Longrightarrow> fits s \<Longrightarrow> good s \<Longrightarrow> (\<And>x. x \<in> N \<Longrightarrow> tfb_exists s x) \<Longrightarrow> live (s_slots s) h \<Longrightarrow>
      sl_refs (s_slots s h) = 0 \<Longrightarrow> h \<notin> X \<Longrightarrow> s_slots (final (m s)) h = s_slots s h"
  shows "calm N X m"
  using assms unfolding calm_def fits_back_def by blast

lemma calmD:
  assumes "calm N X m" and "fits (final (m s))" and "good s" and "\<forall>x \<in> N. tfb_exists s x"
  shows "kept {} (\<lambda>_. {}) s (m s)"
    and "live (s_slots s) h \<Longrightarrow> sl_refs (s_slots s h) = 0 \<Longrightarrow> h \<notin> X \<Longrightarrow> s_slots (final (m s)) h = s_slots s h"
  using assms unfolding calm_def by blast+

lemma calm_fits: "calm N X m \<Longrightarrow> fits_back m"
  by (simp add: calm_def fits_back_def)

lemma calm_safe: "calm {} X m \<Longrightarrow> safe m"
  by (simp add: calm_def does_def)

lemma calm_weaken: "calm N X m \<Longrightarrow> N \<subseteq> M \<Longrightarrow> X \<subseteq> Y \<Longrightarrow> calm M Y m"
  unfolding calm_def by blast

lemma calm_quiet: "quiet m \<Longrightarrow> calm N X m"
  using does_quiet [of m] quietD(1) [of m] by (auto simp: calm_def does_def)

lemma calm_andthen:
  assumes "calm N X m" and "\<And>v. calm N X (f v)"
  shows "calm N X (andthen m f)"
proof (rule calmI)
  show "fits_back (andthen m f)"
    by (intro fits_back_andthen calm_fits [OF assms(1)] calm_fits [OF assms(2)])
next
  fix s assume fit: "fits (final (andthen m f s))" and g: "good s" and N: "\<And>x. x \<in> N \<Longrightarrow> tfb_exists s x"
  have *: "kept {} (\<lambda>_. {}) s (andthen m f s) \<and>
      (\<forall>h. live (s_slots s) h \<longrightarrow> sl_refs (s_slots s h) = 0 \<longrightarrow> h \<notin> X \<longrightarrow> s_slots (final (andthen m f s)) h = s_slots s h)"
  proof (cases "m s")
    case (One v t)
    have ft: "fits (final (f v t))" using fit One by (simp add: andthen_def)
    then have fm: "fits (final (m s))" using calm_fits [OF assms(2)] One by (simp add: fits_back_def)
    note m = calmD [OF assms(1) fm g] 
    have k: "kept {} (\<lambda>_. {}) s (m s)" using m(1) N by blast
    have t: "good t" "\<forall>x \<in> N. tfb_exists t x" using k N One by (auto simp: kept_def)
    note f = calmD [OF assms(2) ft t]
    have "kept {} (\<lambda>_. {}) s (f v t)" using kept_trans [OF k One f(1)] .
    moreover have "s_slots (final (f v t)) h = s_slots s h"
      if "live (s_slots s) h" "sl_refs (s_slots s h) = 0" "h \<notin> X" for h
    proof -
      have "s_slots t h = s_slots s h" using m(2) [of h] N that One by simp
      then show ?thesis using f(2) [of h] that by (simp add: live_def)
    qed
    ultimately show ?thesis using One by (simp add: andthen_def)
  qed (use calmD [OF assms(1) _ g] N fit in \<open>auto simp: andthen_def kept_def\<close>)
  show "kept {} (\<lambda>_. {}) s (andthen m f s)" using * by blast
  fix h assume "live (s_slots s) h" "sl_refs (s_slots s h) = 0" "h \<notin> X"
  then show "s_slots (final (andthen m f s)) h = s_slots s h" using * by blast
qed

lemma calm_if: "(b \<Longrightarrow> calm N X m) \<Longrightarrow> (\<not> b \<Longrightarrow> calm N X k) \<Longrightarrow> calm N X (if b then m else k)"
  by simp

lemma visits_read:
  "visits f gm r seen c = Inr (seen', c') \<Longrightarrow> x \<in> set (c_leaves c') \<union> set (c_nodes c') \<Longrightarrow>
    x \<in> set (c_leaves c) \<union> set (c_nodes c) \<or> Enter x \<in> set r \<or> Leave x \<in> set r \<or> (\<exists>g. live f g \<and> x \<in> set (node_ins (f g)))"
proof (induction f gm r seen c rule: visits.induct)
  case (2 f gm h r seen c)
  then show ?case using nodes_node_ins [of f h gm] by (auto split: if_splits)
next
  case (3 f gm h r seen c)
  then show ?case by (auto split: if_splits)
qed simp

lemma closure_of_asked:
  assumes "closure_of T h gm s = One c t" and "good s" and "tfb_exists s h"
  shows "asked T s gm h c" and "t = s"
    and "x \<in> set (c_leaves c) \<union> set (c_nodes c) \<Longrightarrow> x \<noteq> h \<Longrightarrow> live (s_slots s) x \<Longrightarrow> 0 < sl_refs (s_slots s x)"
proof -
  obtain seen c0 where v: "visit (s_slots s) gm h {} no_closure = Inr (seen, c0)" and c: "c = keyed T (s_slots s) h c0"
    using assms(1) by (auto simp: closure_of_eq split: sum.splits)
  show "asked T s gm h c"
    using closure_of_ok [OF assms(1) goodD(3) [OF assms(2)]] assms(3) key_matches_keyed c by (auto simp: asked_def)
  show "t = s" using closure_of_ok(4) [OF assms(1) goodD(3) [OF assms(2)]] .
  assume x: "x \<in> set (c_leaves c) \<union> set (c_nodes c)" "x \<noteq> h" "live (s_slots s) x"
  then have "\<exists>g. live (s_slots s) g \<and> x \<in> set (node_ins (s_slots s g))"
    using visits_read [OF v [unfolded visit_def], of x] c by (auto simp: no_closure_def)
  then have "readers (s_slots s) x \<noteq> 0" by (auto simp: readers_0)
  then show "0 < sl_refs (s_slots s x)" using owesD(1) [OF goodD(2) [OF assms(2)] x(3)] by simp
qed

lemma fits_back_entry_for [fits_rules]: "fits_back (entry_for T c)"
  using entry_for_fits by (auto simp: fits_back_def)

lemma fits_back_modify: "(\<And>s. s_entries (f s) = s_entries s) \<Longrightarrow> fits_back (modify f)"
  by (simp add: fits_back_def modify_def fits_def)

lemma fits_back_basic [fits_rules]: "fits_back (ret v)" "fits_back (fetch g)" "fits_back Zero" "fits_back Waits"
    "fits_back (tf_fail msg)" "fits_back (tf_call call)" "fits_back (closure_of T h gm)" "fits_back (modify (slot_upd h k))"
  by (auto intro: fits_back_quiet quiet_rules fits_back_modify)

lemma fits_back_attempt [fits_rules]: "fits_back m \<Longrightarrow> fits_back (attempt m)"
  by (simp add: fits_back_def)

lemma fits_back_run_closure [fits_rules]: "fits_back (run_closure T h)"
  unfolding run_closure_def by (intro fits_rules fits_back_modify) auto

lemma run_closure_good:
  assumes g: "good s" and ex: "tfb_exists s h" and fit: "fits (final (run_closure T h s))"
  shows "kept {} (\<lambda>_. {}) s (run_closure T h s)"
    and "live (s_slots s) x \<Longrightarrow> sl_refs (s_slots s x) = 0 \<Longrightarrow> x \<noteq> h \<Longrightarrow> s_slots (final (run_closure T h s)) x = s_slots s x"
    and "run_closure T h s = Zero t \<Longrightarrow> s_slots t = s_slots s"
proof -
  have *: "kept {} (\<lambda>_. {}) s (run_closure T h s) \<and>
      (\<forall>x. live (s_slots s) x \<longrightarrow> sl_refs (s_slots s x) = 0 \<longrightarrow> x \<noteq> h \<longrightarrow> s_slots (final (run_closure T h s)) x = s_slots s x) \<and>
      (\<forall>t. run_closure T h s = Zero t \<longrightarrow> s_slots t = s_slots s)"
  proof (cases "closure_of T h False s")
    case (Waits t)
    then show ?thesis using closure_of_frame(2) by metis
  next
    case (Zero t)
    then have "run_closure T h s = Zero t" by (simp add: run_closure_def andthen_Zero)
    moreover obtain m where "t = s\<lparr>s_err := m\<rparr>" using closure_of_frame(1) [OF Zero] ..
    ultimately show ?thesis using g by (simp add: kept_def good_def tab_ok_def entries_ok_def tfb_exists_def)
  next
    case (One c u)
    note c = closure_of_asked [OF One g ex]
    have ok: "closure_ok (s_slots s) False c" "key_matches T (s_slots s) c" using c(1) by (simp_all add: asked_def)
    let ?fin = "\<lambda>hit. modify (\<lambda>s. if hit then s\<lparr>s_rep := s_rep s + 1\<rparr> else s)"
    show ?thesis
    proof (cases "c_nodes c = []")
      case True
      then have "run_closure T h s = One () s" using One c(2) by (simp add: run_closure_def andthen_One ret_def)
      then show ?thesis using g by (simp add: kept_def)
    next
      case False
      have run: "run_closure T h s = andthen (entry_for T c) (\<lambda>(i, hit). andthen (execute T c i []) (\<lambda>_. ?fin hit)) s"
        using One c(2) False by (simp add: run_closure_def andthen_One)
      note ef = entry_for_good [OF g ok]
      show ?thesis
      proof (cases "entry_for T c s")
        case (Waits t)
        then show ?thesis using ef run by (simp add: andthen_Waits kept_def tfb_exists_def)
      next
        case (Zero t)
        then show ?thesis using ef run by (simp add: andthen_Zero kept_def tfb_exists_def)
      next
        case e: (One ih t)
        obtain i hit where ih: "ih = (i, hit)" by (cases ih)
        have t: "good t" "s_slots t = s_slots s" "entry_of t c i" using ef e ih by auto
        have k0: "kept {} (\<lambda>_. {}) s (entry_for T c s)" using ef e by (simp add: kept_def tfb_exists_def)
        have at: "asked T t False h c" using asked_cong [OF t(2)] c(1) by simp
        have run2: "run_closure T h s = andthen (execute T c i []) (\<lambda>_. ?fin hit) t"
          using run e ih by (simp add: andthen_One)
        have fin: "s_slots (final (run_closure T h s)) = s_slots (final (execute T c i [] t))"
          "s_cursor (final (run_closure T h s)) = s_cursor (final (execute T c i [] t))"
          "s_entries (final (run_closure T h s)) = s_entries (final (execute T c i [] t))"
          unfolding run2 by (auto simp: andthen_def modify_def split: outcome.split)
        then have fe: "fits (final (execute T c i [] t))" using fit by (simp add: fits_def)
        note x = execute_good [OF t(1) at t(3) fe]
        have "kept {} (\<lambda>_. {}) t (execute T c i [] t)" using x(1) by (auto simp: kept_def)
        then have "kept {} (\<lambda>_. {}) s (execute T c i [] t)" using kept_trans [OF k0 e] by blast
        then have "kept {} (\<lambda>_. {}) s (run_closure T h s)"
          using fin good_cong [of "final (execute T c i [] t)" "final (run_closure T h s)"] tfb_exists_cong [OF fin(1)]
          by (auto simp: kept_def good_def tab_ok_def entries_ok_def)
        moreover have "s_slots (final (run_closure T h s)) x = s_slots s x"
          if "live (s_slots s) x" "sl_refs (s_slots s x) = 0" "x \<noteq> h" for x
          using x(2) [of x] c(3) [of x] that fin(1) t(2) by fastforce
        moreover have "s_slots u = s_slots s" if "run_closure T h s = Zero u" for u
          using that x(3) t(2) unfolding run2 by (auto simp: andthen_def modify_def split: outcome.splits)
        ultimately show ?thesis by blast
      qed
    qed
  qed
  then show "kept {} (\<lambda>_. {}) s (run_closure T h s)"
    "live (s_slots s) x \<Longrightarrow> sl_refs (s_slots s x) = 0 \<Longrightarrow> x \<noteq> h \<Longrightarrow> s_slots (final (run_closure T h s)) x = s_slots s x"
    "run_closure T h s = Zero t \<Longrightarrow> s_slots t = s_slots s" by auto
qed

lemma calm_run_closure: "calm {h} {h} (run_closure T h)"
  by (rule calmI [OF fits_back_run_closure]) (use run_closure_good in auto)

end
