(* ===== verification/Tf_Shape.thy ===== *)
theory Tf_Shape
  imports Tf_Safe
begin

text \<open>
  Forcing and reading a tensor and finding its shape keep the back end good; and what the shape rules
  themselves promise: broadcasting is TensorFlow's where no dimension is empty, a reshape keeps the number of
  values.
\<close>

section \<open>Forcing, reading, shapes\<close>

text \<open>A call that looks at the state first, and may see there that handles are good.\<close>

lemma calm_fetch:
  assumes "\<And>v. calm (M v) X (m v)" and "\<And>s x. x \<in> M (g s) \<Longrightarrow> tfb_exists s x \<or> x \<in> N"
  shows "calm N X (andthen (fetch g) m)"
proof (rule calmI)
  show "fits_back (andthen (fetch g) m)" by (intro fits_rules calm_fits [OF assms(1)])
next
  fix s assume "fits (final (andthen (fetch g) m s))" "good s" "\<And>x. x \<in> N \<Longrightarrow> tfb_exists s x"
  then show "kept {} (\<lambda>_. {}) s (andthen (fetch g) m s)"
    using calmD(1) [OF assms(1)] assms(2) by fastforce
next
  fix s h assume "fits (final (andthen (fetch g) m s))" "good s" "\<And>x. x \<in> N \<Longrightarrow> tfb_exists s x"
    and "live (s_slots s) h" "sl_refs (s_slots s h) = 0" "h \<notin> X"
  then show "s_slots (final (andthen (fetch g) m s)) h = s_slots s h"
    using calmD(2) [OF assms(1)] assms(2) by fastforce
qed

named_theorems calm_rules \<open>rules for calls that leave unread slots alone\<close>

lemmas calm_basic [calm_rules] = calm_andthen calm_if
  quiet_ret [THEN calm_quiet] quiet_fetch [THEN calm_quiet] quiet_fail [THEN calm_quiet] quiet_zero [THEN calm_quiet]
  quiet_waits [THEN calm_quiet] quiet_call [THEN calm_quiet] quiet_check [THEN calm_quiet]

lemma calm_case_option [calm_rules]:
  "(x = None \<Longrightarrow> calm N X m) \<Longrightarrow> (\<And>v. x = Some v \<Longrightarrow> calm N X (k v)) \<Longrightarrow> calm N X (case x of None \<Rightarrow> m | Some v \<Rightarrow> k v)"
  by (cases x) simp_all

lemma calm_attempt [calm_rules]: "calm N X m \<Longrightarrow> calm N X (attempt m)"
proof (rule calmI)
  assume m: "calm N X m"
  show "fits_back (attempt m)" by (intro fits_rules calm_fits [OF m])
  fix s assume fit: "fits (final (attempt m s))" and g: "good s" and N: "\<And>x. x \<in> N \<Longrightarrow> tfb_exists s x"
  note c = calmD [OF m, of s]
  have "kept {} (\<lambda>_. {}) s (m s)" using c(1) fit g N by auto
  then show "kept {} (\<lambda>_. {}) s (attempt m s)" by (cases "m s") (auto simp: kept_def attempt_def)
  fix h assume "live (s_slots s) h" "sl_refs (s_slots s h) = 0" "h \<notin> X"
  then show "s_slots (final (attempt m s)) h = s_slots s h" using c(2) fit g N by auto
qed

lemma calm_for_each: "(\<And>x. x \<in> set xs \<Longrightarrow> calm N X (f x)) \<Longrightarrow> calm N X (for_each xs f)"
  by (induction xs) (auto intro: calm_rules)

lemma calm_tfb_force: "calm {} {h} (tfb_force T h)"
  unfolding tfb_force_def
  by (rule calm_fetch [where M = "\<lambda>(ex, eh). if ex then {h} else {}"])
    (auto split: if_splits intro!: calm_rules calm_weaken [OF calm_run_closure])

lemma calm_tfb_values: "calm {} {h} (tfb_values T h)"
  unfolding tfb_values_def Let_def by (intro calm_rules calm_tfb_force)

lemma calm_closure_entry:
  assumes "\<And>c i hit. calm N X (k c i hit)"
  shows "calm N X (andthen (closure_of T h gm) (\<lambda>c. andthen (entry_for T c) (\<lambda>(i, hit). k c i hit)))"
    (is "calm N X ?m")
proof (rule calmI)
  show "fits_back ?m" by (intro fits_rules calm_fits [OF assms])
next
  fix s assume fit: "fits (final (?m s))" and g: "good s" and N: "\<And>x. x \<in> N \<Longrightarrow> tfb_exists s x"
  have *: "kept {} (\<lambda>_. {}) s (?m s) \<and>
      (\<forall>h. live (s_slots s) h \<longrightarrow> sl_refs (s_slots s h) = 0 \<longrightarrow> h \<notin> X \<longrightarrow> s_slots (final (?m s)) h = s_slots s h)"
  proof (cases "closure_of T h gm s")
    case (Zero t)
    then obtain m where "t = s\<lparr>s_err := m\<rparr>" using closure_of_frame(1) by metis
    then show ?thesis using g Zero by (simp add: andthen_Zero kept_def good_def tab_ok_def entries_ok_def tfb_exists_def)
  next
    case (One c u)
    obtain seen c0 where c: "c = keyed T (s_slots s) h c0"
      using One by (auto simp: closure_of_eq split: sum.splits)
    note ok = closure_of_ok [OF One goodD(3) [OF g]]
    note ef = entry_for_good [OF g ok(1) key_matches_keyed [of T "s_slots s" h c0, folded c]]
    show ?thesis
    proof (cases "entry_for T c s")
      case e: (One ih t)
      obtain i hit where ih: "ih = (i, hit)" by (cases ih)
      have m: "?m s = k c i hit t" using One e ih ok(4) by (simp add: andthen_One)
      have t: "good t" "s_slots t = s_slots s" using ef e by auto
      have k0: "kept {} (\<lambda>_. {}) s (entry_for T c s)" using ef e by (simp add: kept_def tfb_exists_def)
      have "\<forall>x \<in> N. tfb_exists t x" using N t(2) by (simp add: tfb_exists_def)
      note k = calmD [OF assms, of c i hit t, folded m, OF fit t(1) this]
      show ?thesis using kept_trans [OF k0 e k(1)] k(2) t(2) by auto
    qed (use One ok(4) ef in \<open>auto simp: andthen_def kept_def tfb_exists_def\<close>)
  qed (use closure_of_frame(2) in metis)
  then show "kept {} (\<lambda>_. {}) s (?m s)" by blast
  fix h assume "live (s_slots s) h" "sl_refs (s_slots s h) = 0" "h \<notin> X"
  then show "s_slots (final (?m s)) h = s_slots s h" using * by blast
qed

lemma set_shape_good:
  assumes "good s" and "live (s_slots s) h"
  shows "good (slot_upd h (\<lambda>sl. sl\<lparr>sl_shape := d, sl_shape_known := True\<rparr>) s)"
proof (rule good_cong [OF assms(1)])
  show "tab_ok (slot_upd h (\<lambda>sl. sl\<lparr>sl_shape := d, sl_shape_known := True\<rparr>) s)"
    by (rule tab_ok_upd [OF goodD(1) [OF assms(1)] assms(2), where v = "(s_slots s h)\<lparr>sl_shape := d, sl_shape_known := True\<rparr>"])
      (use assms(2) owesD(4) [OF goodD(2) [OF assms(1)] assms(2)] in \<open>simp_all add: live_def slot_fine_def\<close>)
qed simp

lemma calm_set_shape: "calm {h} {h} (modify (slot_upd h (\<lambda>sl. sl\<lparr>sl_shape := d, sl_shape_known := True\<rparr>)))"
proof (rule calmI)
  show "fits_back (modify (slot_upd h (\<lambda>sl. sl\<lparr>sl_shape := d, sl_shape_known := True\<rparr>)))" by (rule fits_back_modify) simp
  fix s assume g: "good s" and "\<And>x. x \<in> {h} \<Longrightarrow> tfb_exists s x"
  then have "live (s_slots s) h" using tfb_exists_live by blast
  with g have "good (slot_upd h (\<lambda>sl. sl\<lparr>sl_shape := d, sl_shape_known := True\<rparr>) s)" by (rule set_shape_good)
  then show "kept {} (\<lambda>_. {}) s (modify (slot_upd h (\<lambda>sl. sl\<lparr>sl_shape := d, sl_shape_known := True\<rparr>)) s)"
    by (simp add: kept_def modify_def tfb_exists_def)
qed (simp add: modify_def)

lemma calm_tfb_shape: "calm {} {h} (tfb_shape T h)"
  unfolding tfb_shape_def Let_def
  by (rule calm_fetch [where M = "\<lambda>(ex, sl). if ex then {h} else {}"])
    (auto split: if_splits intro!: calm_rules calm_closure_entry calm_run_closure calm_set_shape)

section \<open>The rules\<close>

lemma calm_fetch_val: "calm N X (fetch_val p k)"
  unfolding fetch_val_def by (intro calm_rules)

lemma calm_ret_or_fail [calm_rules]: "calm N X (ret_or_fail r)"
  by (cases r) (auto simp: ret_or_fail_def intro: calm_rules)

lemma calm_shape_of: "h \<in> X \<Longrightarrow> calm {} X (tfb_shape T h)"
  by (rule calm_weaken [OF calm_tfb_shape]) auto

lemma calm_cat_rest: "set xs \<subseteq> X \<Longrightarrow> calm {} X (cat_rest T a dim xs sh)"
  by (induction xs arbitrary: sh) (auto intro!: calm_rules calm_shape_of)

lemma in_at_set: "in_at p k \<in> insert 0 (set (sp_in p))"
  by (simp add: in_at_def)

lemma calm_shape_rule: "calm {} (insert 0 (set (sp_in p))) (shape_rule T p)"
  unfolding shape_rule_def Let_def
  by (intro calm_rules calm_shape_of calm_fetch_val calm_cat_rest in_at_set) (use in_at_set in auto)

text \<open>Broadcasting, as TensorFlow has it: dimensions are compared from the right, a missing one is 1, and a 1
  takes the other's size.\<close>

definition from_right :: "int list \<Rightarrow> nat \<Rightarrow> int" where
  "from_right xs k = (if k < length xs then rev xs ! k else 1)"

definition broadcast :: "int list \<Rightarrow> int list \<Rightarrow> int list option" where
  "broadcast a b =
     (let n = max (length a) (length b) in
      if \<forall>k < n. from_right a k = from_right b k \<or> from_right a k = 1 \<or> from_right b k = 1
      then Some (rev (map (\<lambda>k. if from_right a k = 1 then from_right b k else from_right a k) [0..<n])) else None)"

lemma from_right_pos: "list_all (\<lambda>d. 0 < d) xs \<Longrightarrow> 0 < from_right xs k"
  by (auto simp: from_right_def list_all_iff rev_nth)

lemma pad1_nth:
  assumes "length xs \<le> n" and "i < n"
  shows "pad1 n xs ! i = from_right xs (n - 1 - i)"
  using assms by (auto simp: pad1_def from_right_def nth_append rev_nth intro: arg_cong [where f = "nth xs"])

lemma bcast_broadcast:
  assumes "list_all (\<lambda>d. 0 < d) a" and "list_all (\<lambda>d. 0 < d) b"
  shows "bcast a b = broadcast a b"
proof -
  let ?n = "max (length a) (length b)" let ?fa = "from_right a" and ?fb = "from_right b"
  have len: "length (pad1 ?n xs) = ?n" if "length xs \<le> ?n" for xs using that by (simp add: pad1_def)
  have z: "zip (pad1 ?n a) (pad1 ?n b) = map (\<lambda>i. (?fa (?n - 1 - i), ?fb (?n - 1 - i))) [0..<?n]"
    by (rule nth_equalityI) (simp_all add: len pad1_nth)
  have flip: "(\<forall>i < ?n. P (?n - 1 - i)) \<longleftrightarrow> (\<forall>k < ?n. P k)" for P
  proof (intro iffI allI impI)
    fix k assume *: "\<forall>i < ?n. P (?n - 1 - i)" "k < ?n"
    then have "P (?n - 1 - (?n - 1 - k))" by (metis diff_less less_imp_diff_less zero_less_one less_trans not_less_zero gr0I)
    then show "P k" using *(2) by simp
  qed auto
  have "list_all (\<lambda>(da, db). da = db \<or> da = 1 \<or> db = 1) (zip (pad1 ?n a) (pad1 ?n b)) \<longleftrightarrow>
      (\<forall>i < ?n. ?fa (?n - 1 - i) = ?fb (?n - 1 - i) \<or> ?fa (?n - 1 - i) = 1 \<or> ?fb (?n - 1 - i) = 1)"
    unfolding z by (auto simp: list_all_iff)
  also have "\<dots> \<longleftrightarrow> (\<forall>k < ?n. ?fa k = ?fb k \<or> ?fa k = 1 \<or> ?fb k = 1)" by (rule flip)
  finally have c: "list_all (\<lambda>(da, db). da = db \<or> da = 1 \<or> db = 1) (zip (pad1 ?n a) (pad1 ?n b)) \<longleftrightarrow>
      (\<forall>k < ?n. ?fa k = ?fb k \<or> ?fa k = 1 \<or> ?fb k = 1)" .
  have "map (\<lambda>(da, db). max da db) (zip (pad1 ?n a) (pad1 ?n b)) = rev (map (\<lambda>k. max (?fa k) (?fb k)) [0..<?n])"
    unfolding z by (rule nth_equalityI) (simp_all add: rev_nth)
  moreover have "max (?fa k) (?fb k) = (if ?fa k = 1 then ?fb k else ?fa k)"
    if "?fa k = ?fb k \<or> ?fa k = 1 \<or> ?fb k = 1" for k
    using that from_right_pos [OF assms(1), of k] from_right_pos [OF assms(2), of k] by auto
  ultimately show ?thesis unfolding bcast_def broadcast_def Let_def c by auto
qed

text \<open>Over an empty dimension the code answers 1 where TensorFlow answers 0.\<close>

lemma bcast_empty: "bcast [0] [1] = Some [1] \<and> broadcast [0] [1] = Some [0]"
  by (simp add: bcast_def pad1_def broadcast_def from_right_def)

text \<open>A reshape keeps the number of values, as 64 bits count it, when at most one size is left open.\<close>

lemma last_wild_Some: "last_wild v = Some w \<Longrightarrow> w < length v \<and> v ! w = -1"
proof -
  assume "last_wild v = Some w"
  then have "w \<in> set (filter (\<lambda>i. v ! i = -1) [0..<length v])"
    by (cases "filter (\<lambda>i. v ! i = -1) [0..<length v]") (auto simp: last_wild_def simp del: set_filter)
  then show ?thesis by simp
qed

lemma filter_known: "-1 \<notin> set v \<Longrightarrow> filter (\<lambda>x. x \<noteq> -1) v = (v :: int list)"
  by (rule filter_True) auto

lemma last_wild_None: "last_wild v = None \<Longrightarrow> -1 \<notin> set v"
  by (auto simp: last_wild_def in_set_conv_nth filter_empty_conv split: list.splits)

lemma prod_list_known: "w < length v \<Longrightarrow> v ! w = -1 \<Longrightarrow> count_list v (-1) = 1 \<Longrightarrow>
    prod_list (v[w := q]) = prod_list (filter (\<lambda>x. x \<noteq> -1) v) * (q :: int)"
proof (induction v arbitrary: w)
  case (Cons x v)
  show ?case
  proof (cases w)
    case 0
    then have "-1 \<notin> set v" using Cons.prems by (simp add: count_list_0_iff)
    then have "filter (\<lambda>x. x \<noteq> -1) v = v" by (rule filter_known)
    then show ?thesis using 0 Cons.prems by simp
  next
    case (Suc k)
    then have k: "k < length v" "v ! k = -1" using Cons.prems by auto
    then have "count_list v (-1) \<noteq> 0" by (metis count_list_0_iff nth_mem)
    then have "x \<noteq> -1" "count_list v (-1) = 1" using Cons.prems(3) by (auto split: if_splits)
    then show ?thesis using Cons.IH [OF k] Suc by simp
  qed
qed simp

lemma reshape_rule_count:
  assumes "reshape_rule a v = Inr sh" and "count_list v (-1) \<le> 1"
  shows "c_product sh = c_product a"
proof (cases "last_wild v")
  case None
  then have "filter (\<lambda>x. x \<noteq> -1) v = v" by (intro filter_known last_wild_None)
  then show ?thesis using assms(1) None by (auto simp: reshape_rule_def Let_def split: if_splits)
next
  case (Some w)
  note w = last_wild_Some [OF Some]
  then have "count_list v (-1) \<noteq> 0" by (metis count_list_0_iff nth_mem)
  then have c: "count_list v (-1) = 1" using assms(2) by simp
  let ?K = "prod_list (filter (\<lambda>x. x \<noteq> -1) v)" and ?k = "c_product (filter (\<lambda>x. x \<noteq> -1) v)"
  have sh: "sh = v[w := c_product a div ?k]" and d: "c_product a mod ?k = 0"
    using assms(1) Some by (auto simp: reshape_rule_def Let_def split: if_splits)
  have "c_product sh = c_long (?K * (c_product a div ?k))"
    unfolding sh c_product_eq [of "v[w := q]" for q] using prod_list_known [OF _ _ c, of w] w by simp
  also have "\<dots> = c_long (?k * (c_product a div ?k))" by (simp add: c_product_eq [of "filter f xs" for f xs])
  also have "\<dots> = c_product a" using d by (simp add: mod_eq_0_iff_dvd) (simp add: c_product_eq)
  finally show ?thesis .
qed

end
