(* ===== verification/Tf_Ops.thy ===== *)
theory Tf_Ops
  imports Tf_Run
begin

text \<open>
  The operations the predicates of library(tensorflow) ask for (backend.c, "the producers" and after):
  each builds a recipe and goes through \<open>run_spec\<close>, or makes a leaf at once; and the parameter, the
  step and the gradient.
\<close>

section \<open>Recipes\<close>

definition spec_init :: "string \<Rightarrow> opspec" where
  "spec_init op = no_spec\<lparr>sp_op := op\<rparr>"

definition spec_in :: "int \<Rightarrow> opspec \<Rightarrow> opspec" where
  "spec_in h p = (if length (sp_in p) < TF_MAXIN then p\<lparr>sp_in := sp_in p @ [h]\<rparr> else p)"

definition spec_type :: "string \<Rightarrow> dtype \<Rightarrow> opspec \<Rightarrow> opspec" where
  "spec_type a t p = (if length (sp_types p) < 4 then p\<lparr>sp_types := sp_types p @ [(a, t)]\<rparr> else p)"

definition spec_int :: "string \<Rightarrow> int \<Rightarrow> opspec \<Rightarrow> opspec" where
  "spec_int a v p = (if length (sp_ints p) < 2 then p\<lparr>sp_ints := sp_ints p @ [(a, v)]\<rparr> else p)"

definition spec_bool :: "string \<Rightarrow> bool \<Rightarrow> opspec \<Rightarrow> opspec" where
  "spec_bool a b p = (if length (sp_bools p) < 2 then p\<lparr>sp_bools := sp_bools p @ [(a, b)]\<rparr> else p)"

section \<open>The producers\<close>

definition unop :: "string \<Rightarrow> string option" where
  "unop nm =
     (if nm = ''neg'' then Some ''Neg'' else if nm = ''abs'' then Some ''Abs'' else if nm = ''exp'' then Some ''Exp''
      else if nm = ''log'' then Some ''Log'' else if nm = ''sqrt'' then Some ''Sqrt'' else if nm = ''relu'' then Some ''Relu''
      else if nm = ''sigmoid'' then Some ''Sigmoid'' else if nm = ''tanh'' then Some ''Tanh'' else None)"

definition tfb_unary :: "'w tf \<Rightarrow> string \<Rightarrow> int \<Rightarrow> ('w, int) tact" where
  "tfb_unary T nm a =
     (if nm = ''transpose'' then
        andthen (ivec T [1, 0]) (\<lambda>pv.
        with_free T (run_spec T (spec_type ''Tperm'' TF_INT32 (spec_type ''T'' TF_FLOAT
          (spec_in pv (spec_in a (spec_init ''Transpose'')))))) pv)
      else case unop nm of
        None \<Rightarrow> tf_fail ''unknown unary''
      | Some op \<Rightarrow> run_spec T (spec_type ''T'' TF_FLOAT (spec_in a (spec_init op))))"

definition binop :: "string \<Rightarrow> string option" where
  "binop nm =
     (if nm = ''add'' then Some ''AddV2'' else if nm = ''sub'' then Some ''Sub'' else if nm = ''mul'' then Some ''Mul''
      else if nm = ''div'' then Some ''RealDiv'' else if nm = ''pow'' then Some ''Pow'' else if nm = ''matmul'' then Some ''MatMul''
      else None)"

definition tfb_binary :: "'w tf \<Rightarrow> string \<Rightarrow> int \<Rightarrow> int \<Rightarrow> ('w, int) tact" where
  "tfb_binary T nm a b =
     (case binop nm of
        None \<Rightarrow> tf_fail ''unknown binary''
      | Some op \<Rightarrow>
          let p = spec_type ''T'' TF_FLOAT (spec_in b (spec_in a (spec_init op))) in
          run_spec T (if op = ''MatMul'' then spec_bool ''transpose_b'' False (spec_bool ''transpose_a'' False p) else p))"

definition tfb_scalar :: "'w tf \<Rightarrow> string \<Rightarrow> int \<Rightarrow> dbl \<Rightarrow> ('w, int) tact" where
  "tfb_scalar T nm a v =
     (case binop nm of
        None \<Rightarrow> tf_fail ''unknown scalar op''
      | Some op \<Rightarrow> if op = ''MatMul'' then tf_fail ''unknown scalar op'' else
          andthen (fscalar T v) (\<lambda>s.
          with_free T (run_spec T (spec_type ''T'' TF_FLOAT (spec_in s (spec_in a (spec_init op))))) s))"

definition reduce_spec :: "string \<Rightarrow> int \<Rightarrow> int \<Rightarrow> bool \<Rightarrow> opspec" where
  "reduce_spec op a ax keep =
     spec_bool ''keep_dims'' keep (spec_type ''Tidx'' TF_INT32 (spec_type ''T'' TF_FLOAT (spec_in ax (spec_in a (spec_init op)))))"

definition reduce_all :: "'w tf \<Rightarrow> string \<Rightarrow> int \<Rightarrow> bool \<Rightarrow> ('w, int) tact" where
  "reduce_all T op a keep =
     andthen (tfb_shape T a) (\<lambda>shape.
     andthen (ivec T (map int [0..<length shape])) (\<lambda>ax.
     with_free T (run_spec T (reduce_spec op a ax keep)) ax))"

definition reduce_axis :: "'w tf \<Rightarrow> string \<Rightarrow> int \<Rightarrow> int \<Rightarrow> bool \<Rightarrow> ('w, int) tact" where
  "reduce_axis T op a axis keep =
     andthen (ivec T [axis]) (\<lambda>ax. with_free T (run_spec T (reduce_spec op a ax keep)) ax)"

text \<open>The sample standard deviation: \<open>sqrt(sum((x - mean)^2) / (n - 1))\<close>.\<close>

definition tfb_std :: "'w tf \<Rightarrow> int \<Rightarrow> ('w, int) tact" where
  "tfb_std T a =
     andthen (tfb_shape T a) (\<lambda>shape.
     let n = prod_list shape in
     andthen (reduce_all T ''Mean'' a False) (\<lambda>mu.
     andthen (with_free T (tfb_binary T ''sub'' a mu) mu) (\<lambda>d.
     andthen (with_free T (tfb_binary T ''mul'' d d) d) (\<lambda>sq.
     andthen (with_free T (reduce_all T ''Sum'' sq False) sq) (\<lambda>ss.
     andthen (with_free T (tfb_scalar T ''div'' ss (double_of_int T (if 1 < n then n - 1 else 1))) ss) (\<lambda>v.
     with_free T (tfb_unary T ''sqrt'' v) v))))))"

definition tfb_agg :: "'w tf \<Rightarrow> string \<Rightarrow> int \<Rightarrow> ('w, int) tact" where
  "tfb_agg T nm a =
     (if nm = ''sum'' then reduce_all T ''Sum'' a False
      else if nm = ''mean'' then reduce_all T ''Mean'' a False
      else if nm = ''max'' then reduce_all T ''Max'' a False
      else if nm = ''min'' then reduce_all T ''Min'' a False
      else if nm = ''std'' then tfb_std T a
      else tf_fail ''unknown aggregation'')"

definition tfb_argmax :: "'w tf \<Rightarrow> int \<Rightarrow> int \<Rightarrow> ('w, int) tact" where
  "tfb_argmax T a dim =
     andthen (iscalar T dim) (\<lambda>d.
     with_free T (run_spec T (spec_type ''output_type'' TF_INT64 (spec_type ''Tidx'' TF_INT32 (spec_type ''T'' TF_FLOAT
       (spec_in d (spec_in a (spec_init ''ArgMax''))))))) d)"

definition int_or_float :: "'w tfb \<Rightarrow> int \<Rightarrow> dtype" where
  "int_or_float s a = (if tfb_is_int s a then sl_dtype (s_slots s a) else TF_FLOAT)"

definition tfb_reshape :: "'w tf \<Rightarrow> int \<Rightarrow> int list \<Rightarrow> ('w, int) tact" where
  "tfb_reshape T a shape =
     andthen (ivec T shape) (\<lambda>sv.
     andthen (fetch (\<lambda>s. int_or_float s a)) (\<lambda>dt.
     with_free T (run_spec T (spec_type ''Tshape'' TF_INT32 (spec_type ''T'' dt
       (spec_in sv (spec_in a (spec_init ''Reshape'')))))) sv))"

definition tfb_cat :: "'w tf \<Rightarrow> int list \<Rightarrow> int \<Rightarrow> ('w, int) tact" where
  "tfb_cat T hs dim =
     (if length hs < 1 \<or> TF_MAXIN - 1 < length hs then tf_fail ''cat: 1 to 7 tensors'' else
      andthen (iscalar T dim) (\<lambda>ax.
      with_free T (run_spec T (spec_int ''N'' (int (length hs)) (spec_type ''Tidx'' TF_INT32 (spec_type ''T'' TF_FLOAT
        ((spec_in ax (fold spec_in hs (spec_init ''ConcatV2'')))\<lparr>sp_list_n := length hs\<rparr>))))) ax))"

definition gather_by :: "'w tf \<Rightarrow> int \<Rightarrow> int \<Rightarrow> ('w, int) tact" where
  "gather_by T a ix =
     andthen (iscalar T 0) (\<lambda>ax.
     andthen (fetch (\<lambda>s. (int_or_float s a, sl_dtype (s_slots s ix)))) (\<lambda>(tp, ti).
     with_free T (run_spec T (spec_int ''batch_dims'' 0 (spec_type ''Taxis'' TF_INT32 (spec_type ''Tindices'' ti
       (spec_type ''Tparams'' tp (spec_in ax (spec_in ix (spec_in a (spec_init ''GatherV2''))))))))) ax))"

definition tfb_gather :: "'w tf \<Rightarrow> int \<Rightarrow> int \<Rightarrow> ('w, int) tact" where
  "tfb_gather T a idx =
     andthen (fetch (\<lambda>s. tfb_is_int s idx)) (\<lambda>isint.
     if isint then gather_by T a idx else
     andthen (run_spec T (spec_bool ''Truncate'' False (spec_type ''DstT'' TF_INT32 (spec_type ''SrcT'' TF_FLOAT
       (spec_in idx (spec_init ''Cast'')))))) (\<lambda>tmp.
     with_free T (gather_by T a tmp) tmp))"

definition tfb_slice :: "'w tf \<Rightarrow> int \<Rightarrow> nat \<Rightarrow> int \<Rightarrow> int \<Rightarrow> ('w, int) tact" where
  "tfb_slice T a axis lo hi =
     andthen (tfb_shape T a) (\<lambda>shape.
     let nd = length shape in
     if nd \<le> axis then tf_fail ''slice: no such axis'' else
     andthen (attempt (ivec T ((replicate nd 0)[axis := lo]))) (\<lambda>b.
     andthen (attempt (ivec T ((replicate nd (-1))[axis := hi - lo]))) (\<lambda>s.
     case (b, s) of
       (Some b, Some s) \<Rightarrow>
         andthen (fetch (\<lambda>st. int_or_float st a)) (\<lambda>dt.
         with_free T (with_free T (run_spec T (spec_type ''Index'' TF_INT32 (spec_type ''T'' dt
           (spec_in s (spec_in b (spec_in a (spec_init ''Slice''))))))) b) s)
     | _ \<Rightarrow> Zero)))"

text \<open>The statistics of the first rows; the standard deviation is at least \<open>1e-7\<close>, here by its bits.\<close>

definition tfb_standardise :: "'w tf \<Rightarrow> int \<Rightarrow> int \<Rightarrow> ('w, int) tact" where
  "tfb_standardise T a ntrain =
     andthen (tfb_slice T a 0 0 ntrain) (\<lambda>head.
     andthen (reduce_axis T ''Mean'' head 0 True) (\<lambda>mu.
     andthen (with_free T (tfb_binary T ''sub'' head mu) head) (\<lambda>d.
     andthen (with_free T (tfb_binary T ''mul'' d d) d) (\<lambda>sq.
     andthen (with_free T (reduce_axis T ''Sum'' sq 0 True) sq) (\<lambda>ss.
     andthen (with_free T (tfb_scalar T ''div'' ss (double_of_int T (if 1 < ntrain then ntrain - 1 else 1))) ss) (\<lambda>var.
     andthen (with_free T (tfb_unary T ''sqrt'' var) var) (\<lambda>sd0.
     andthen (fscalar T 0x3E7AD7F29ABCAF48) (\<lambda>fl.
     andthen (with_free T (with_free T (run_spec T (spec_type ''T'' TF_FLOAT (spec_in fl (spec_in sd0 (spec_init ''Maximum'')))))
       sd0) fl) (\<lambda>sd.
     andthen (with_free T (tfb_binary T ''sub'' a mu) mu) (\<lambda>c.
     with_free T (with_free T (tfb_binary T ''div'' c sd) c) sd))))))))))"

section \<open>Leaves\<close>

definition tfb_fill :: "'w tf \<Rightarrow> int list \<Rightarrow> dbl \<Rightarrow> ('w, int) tact" where
  "tfb_fill T shape v = tfb_from_doubles T (replicate (nat (prod_list shape)) v) shape"

definition next_seed :: "('w, 64 word) tact" where
  "next_seed = andthen (modify (\<lambda>s. s\<lparr>s_seed_next := s_seed_next s + 1\<rparr>)) (\<lambda>_. fetch s_seed_next)"

text \<open>A random leaf is drawn now, by a stateless operation seeded by the seed and the number of the draw.\<close>

definition tfb_random :: "'w tf \<Rightarrow> int list \<Rightarrow> bool \<Rightarrow> ('w, int) tact" where
  "tfb_random T shape normal =
     andthen (tf_call (new_handle T (tensor_i32 shape [int (length shape)]))) (\<lambda>shp.
     andthen next_seed (\<lambda>n.
     andthen (fetch s_seed_base) (\<lambda>base.
     andthen (attempt (tf_call (new_handle T (tensor_i32 [sint base, sint n] [2])))) (\<lambda>sd.
     case sd of
       None \<Rightarrow> andthen (modify (del_eh T (Some shp))) (\<lambda>_. Zero)
     | Some sd \<Rightarrow>
         andthen (fetch pin) (\<lambda>dev.
         andthen (attempt (tf_call (execute_op T dev (spec_type ''Tseed'' TF_INT32 (spec_type ''T'' TF_INT32 (spec_type ''dtype'' TF_FLOAT
           (spec_init (if normal then ''StatelessRandomNormal'' else ''StatelessRandomUniform''))))) [Some shp, Some sd]))) (\<lambda>r.
         andthen (modify (\<lambda>s. del_eh T (Some sd) (del_eh T (Some shp) s))) (\<lambda>_.
         case r of
           Some (e # _) \<Rightarrow> andthen (\<lambda>s. let (e, s) = placed T e s in One e s) (slot_from_handle T)
         | Some [] \<Rightarrow> Waits
         | None \<Rightarrow> Zero)))))))"

definition tfb_eye :: "'w tf \<Rightarrow> int \<Rightarrow> ('w, int) tact" where
  "tfb_eye T n =
     tfb_from_doubles T (map (\<lambda>k. if k div nat n = k mod nat n then double_of_int T 1 else 0) [0..<nat n * nat n]) [n, n]"

definition tfb_arange :: "'w tf \<Rightarrow> int \<Rightarrow> ('w, int) tact" where
  "tfb_arange T n = tfb_from_doubles T (map (\<lambda>k. double_of_int T (int k)) [0..<nat n]) [n]"

text \<open>The shuffle of Fisher and Yates, from the top, with a 64-bit congruential generator.\<close>

primrec shuffle :: "nat \<Rightarrow> 64 word \<Rightarrow> 'a list \<Rightarrow> 'a list" where
  "shuffle 0 x v = v"
| "shuffle (Suc i) x v =
     (let x = x * 6364136223846793005 + 1442695040888963407; j = unat (drop_bit 33 x mod word_of_nat (Suc i + 1)) in
      shuffle i x (v[Suc i := v ! j, j := v ! Suc i]))"

definition tfb_randperm :: "'w tf \<Rightarrow> int \<Rightarrow> ('w, int) tact" where
  "tfb_randperm T n =
     andthen next_seed (\<lambda>k.
     andthen (fetch s_seed_base) (\<lambda>base.
     tfb_from_doubles T (shuffle (nat n - 1) (base * 6364136223846793005 + k * 1442695040888963407)
       (map (\<lambda>k. double_of_int T (int k)) [0..<nat n])) [n]))"

section \<open>A file of numbers\<close>

text \<open>\<open>fgets\<close> with a buffer of \<open>n + 1\<close>: up to \<open>n\<close> characters, up to and with a newline; and what is left.\<close>

fun fgets :: "nat \<Rightarrow> string \<Rightarrow> string \<times> string" where
  "fgets 0 s = ([], s)"
| "fgets (Suc n) [] = ([], [])"
| "fgets (Suc n) (c # s) = (if c = CHR 0x0A then ([c], s) else let (l, r) = fgets n s in (c # l, r))"

lemma fgets_length: "length (snd (fgets n s)) \<le> length s"
  by (induction n s rule: fgets.induct) (auto simp: Let_def split_beta)

lemma fgets_shorter: "s \<noteq> [] \<Longrightarrow> 0 < n \<Longrightarrow> length (snd (fgets n s)) < length s"
  by (cases s; cases n) (auto simp: Let_def split_beta intro: le_imp_less_Suc fgets_length)

definition csv_sep :: "char \<Rightarrow> bool" where
  "csv_sep c \<longleftrightarrow> c \<in> {CHR '' '', CHR '','', CHR 0x09, CHR '';''}"

text \<open>
  The values of a line, up to its end, its NUL, or something that is not a number. \<open>strtod\<close> answers the value and
  what is left of the text, which is all of it when there is no number in front.
\<close>

function csv_values :: "(string \<Rightarrow> dbl \<times> string) \<Rightarrow> string \<Rightarrow> dbl list" where
  "csv_values strtod p =
     (let p = dropWhile csv_sep p in
      if p = [] \<or> hd p \<in> {CHR 0x00, CHR 0x0A, CHR 0x0D} then []
      else let (v, rest) = strtod p in
        if length rest < length p then v # csv_values strtod rest else [])"
  by pat_completeness auto
termination csv_values
  by (relation "measure (\<lambda>(strtod, p). length p)") (auto intro: less_le_trans length_dropWhile_le)

text \<open>The rows read so far as one list, their number, and how many columns the first one had.\<close>

function csv_rows :: "(string \<Rightarrow> dbl \<times> string) \<Rightarrow> string \<Rightarrow> dbl list \<Rightarrow> nat \<Rightarrow> nat \<Rightarrow> (dbl list \<times> nat \<times> nat) option" where
  "csv_rows strtod file buf rows cols =
     (if file = [] then Some (buf, rows, cols)
      else let (line, rest) = fgets 8191 file; vs = csv_values strtod line in
        if vs = [] then csv_rows strtod rest buf rows cols
        else if cols \<noteq> 0 \<and> length vs \<noteq> cols then None
        else csv_rows strtod rest (buf @ vs) (rows + 1) (length vs))"
  by pat_completeness auto
termination csv_rows
  by (relation "measure (\<lambda>(strtod, file, _). length file)") (auto simp: fgets_shorter dest: arg_cong [of _ _ snd])

declare csv_values.simps [simp del] csv_rows.simps [simp del]

definition tfb_load_csv :: "'w tf \<Rightarrow> (string \<Rightarrow> dbl \<times> string) \<Rightarrow> string option \<Rightarrow> ('w, int) tact" where
  "tfb_load_csv T strtod file =
     (case file of
        None \<Rightarrow> tf_fail ''cannot open''
      | Some f \<Rightarrow>
          (case csv_rows strtod f [] 0 0 of
             None \<Rightarrow> tf_fail ''ragged rows''
           | Some (buf, rows, cols) \<Rightarrow>
               if rows = 0 then tf_fail ''empty'' else tfb_from_doubles T buf [int rows, int cols]))"

section \<open>Parameters, steps, gradients\<close>

definition tfb_parameter :: "'w tf \<Rightarrow> int \<Rightarrow> ('w, int) tact" where
  "tfb_parameter T a =
     andthen (fetch (\<lambda>s. tfb_exists s a)) (\<lambda>ex.
     if \<not> ex then tf_fail ''not a tensor'' else
     andthen (tfb_force T a) (\<lambda>_.
     andthen (fetch (\<lambda>s. sl_eh (s_slots s a))) (\<lambda>eh.
     andthen (tf_call (copy_sharing T eh)) (\<lambda>e.
     andthen (slot_from_handle T e) (\<lambda>h.
     andthen (modify (slot_upd h (\<lambda>sl. sl\<lparr>sl_is_param := True\<rparr>))) (\<lambda>_. ret h))))))"

definition mark_param :: "'w tf \<Rightarrow> int \<Rightarrow> 'w tfb \<Rightarrow> 'w tfb" where
  "mark_param T h s =
     (let s = slot_upd h (\<lambda>sl. sl\<lparr>sl_is_param := True\<rparr>) s in
      if sl_eh (s_slots s h) \<noteq> None then drop_structure T h s else s)"

definition tfb_step :: "'w tf \<Rightarrow> int \<Rightarrow> int \<Rightarrow> dbl \<Rightarrow> ('w, int) tact" where
  "tfb_step T w g lr =
     andthen (tfb_scalar T ''mul'' g lr) (\<lambda>scaled.
     andthen (with_free T (tfb_binary T ''sub'' w scaled) scaled) (\<lambda>nxt.
     andthen (modify (mark_param T nxt)) (\<lambda>_. ret nxt)))"

primrec zero_grads :: "'w tf \<Rightarrow> int list \<Rightarrow> ('w, int list) tact" where
  "zero_grads T [] = ret []"
| "zero_grads T (p # ps) =
     andthen (tfb_shape T p) (\<lambda>shape.
     andthen (tfb_fill T shape 0) (\<lambda>h.
     andthen (zero_grads T ps) (\<lambda>hs. ret (h # hs))))"

definition grad_ref :: "closure \<Rightarrow> int \<Rightarrow> string" where
  "grad_ref c p =
     (case leaf_index c p of
        Some j \<Rightarrow> ''L'' @ show_nat j @ '',''
      | None \<Rightarrow> (case node_index c p of Some i \<Rightarrow> ''N'' @ show_nat i @ '','' | None \<Rightarrow> ''-,''))"

definition grad_key :: "closure \<Rightarrow> int list \<Rightarrow> closure" where
  "grad_key c ps = c\<lparr>c_key := fold (\<lambda>p. kput (grad_ref c p)) ps (kput ''|G:'' (c_key c))\<rparr>"

text \<open>
  The gradients of \<open>y\<close> for the outputs of the parameters that are in the closure: all at once, or, when
  that fails, one at a time. A gradient's operations are added behind the graph.
\<close>

primrec grads_one_by_one :: "'w tf \<Rightarrow> nat \<Rightarrow> nat option list \<Rightarrow> gnode list \<Rightarrow> ('w, gnode list \<times> nat option list) tact" where
  "grads_one_by_one T y [] g = ret (g, [])"
| "grads_one_by_one T y (x # xs) g =
     (case x of
        None \<Rightarrow> andthen (grads_one_by_one T y xs g) (\<lambda>(g, ds). ret (g, None # ds))
      | Some x \<Rightarrow> (\<lambda>s.
          case add_gradients T g y [x] (s_w s) of (r, w) \<Rightarrow>
          let (g, d) = (case r of Some (d # _, n) \<Rightarrow> (g @ replicate n G_grad, d) | _ \<Rightarrow> (g, None)) in
          andthen (grads_one_by_one T y xs g) (\<lambda>(g, ds). ret (g, d # ds)) (s\<lparr>s_w := w\<rparr>)))"

fun spread :: "nat option list \<Rightarrow> nat option list \<Rightarrow> nat option list" where
  "spread [] ds = []"
| "spread (None # xs) ds = None # spread xs ds"
| "spread (Some _ # xs) ds = (case ds of [] \<Rightarrow> None # spread xs [] | d # ds \<Rightarrow> d # spread xs ds)"

definition make_grads :: "'w tf \<Rightarrow> nat \<Rightarrow> nat option list \<Rightarrow> gnode list \<Rightarrow> ('w, gnode list \<times> nat option list) tact" where
  "make_grads T y xs g s =
     (let given = concat (map (\<lambda>x. case x of None \<Rightarrow> [] | Some x \<Rightarrow> [x]) xs) in
      if given = [] then One (g, map (\<lambda>_. None) xs) s
      else case add_gradients T g y given (s_w s) of
          (Some (dys, n), w) \<Rightarrow> One (g @ replicate n G_grad, spread xs dys) (s\<lparr>s_w := w\<rparr>)
        | (None, w) \<Rightarrow> grads_one_by_one T y xs g (s\<lparr>s_w := w\<rparr>))"

definition grad_entry :: "'w tf \<Rightarrow> closure \<Rightarrow> int \<Rightarrow> int list \<Rightarrow> ('w, nat) tact" where
  "grad_entry T c loss ps =
     andthen (entry_compile T c) (\<lambda>i.
     andthen (fetch (\<lambda>s. s_entries s ! i)) (\<lambda>e.
     case (case node_index c loss of Some k \<Rightarrow> nth_opt (en_outs e) k | None \<Rightarrow> None) of
       None \<Rightarrow> Waits
     | Some y \<Rightarrow>
         andthen (make_grads T y (map (op_input c (en_ph e) (en_outs e)) ps) (en_graph e)) (\<lambda>(g, ds).
         andthen (modify (entry_upd i (\<lambda>e. e\<lparr>en_graph := g, en_grads := ds\<rparr>))) (\<lambda>_. ret i))))"

definition tfb_grad :: "'w tf \<Rightarrow> int \<Rightarrow> int list \<Rightarrow> ('w, int list) tact" where
  "tfb_grad T loss ps =
     andthen (fetch (\<lambda>s. (tfb_exists s loss, list_all (\<lambda>p. tfb_exists s p \<and> sl_is_param (s_slots s p)) ps, s_slots s loss)))
     (\<lambda>(ex, params, L).
     if \<not> ex then tf_fail ''the loss is not a tensor''
     else if TF_MAXPARAM < length ps then tf_fail ''at most 64 parameters''
     else if \<not> params then tf_fail ''a parameter must be a leaf: tensor_parameter/2 or tensor_step/4 makes one''
     else if sl_kind L \<noteq> K_NODE \<or> \<not> sl_under_param L then zero_grads T ps
     else andthen (closure_of T loss True) (\<lambda>c.
       let c = grad_key c ps in
       andthen (fetch (entry_find (c_key c))) (\<lambda>e.
       andthen (case e of Some i \<Rightarrow> ret i | None \<Rightarrow> grad_entry T c loss ps) (\<lambda>i.
       andthen (execute T c i ps) (\<lambda>gs.
       andthen (modify (\<lambda>s. if e \<noteq> None then s\<lparr>s_rep := s_rep s + 1\<rparr> else s)) (\<lambda>_. ret gs))))))"

definition pending_nodes :: "'w tfb \<Rightarrow> int" where
  "pending_nodes s = int (length (filter (\<lambda>i. let sl = s_slots s i in sl_kind sl = K_NODE \<and> sl_eh sl = None \<and> \<not> sl_released sl)
     [1..TF_SLOTS - 1]))"

definition tfb_stats :: "'w tfb \<Rightarrow> int \<times> int \<times> int \<times> int" where
  "tfb_stats s = (s_rec s, s_exe s, s_rep s, pending_nodes s)"

end
