(* ===== verification/Tf_Ok.thy ===== *)
theory Tf_Ok
  imports Tf_Shape Tf_Ops
begin

text \<open>
  The producer \<open>run_spec\<close>, under both modes, and every operation over it keep the back end good: the record
  of a node takes exactly the references its recipe has, a refused record gives them back, and a
  temporary is let go on every path where the code lets it go.
\<close>

section \<open>References taken and given back\<close>

lemma hold_eq: "s_slots (hold ins s) x = (s_slots s x)\<lparr>sl_refs := sl_refs (s_slots s x) + count_list ins x\<rparr>"
proof (induction ins arbitrary: s)
  case (Cons i ins)
  have "hold (i # ins) s = hold ins (slot_upd i (\<lambda>sl. sl\<lparr>sl_refs := Suc (sl_refs sl)\<rparr>) s)" by (simp add: hold_def)
  then show ?case using Cons.IH [of "slot_upd i (\<lambda>sl. sl\<lparr>sl_refs := Suc (sl_refs sl)\<rparr>) s"] by simp
qed (simp add: hold_def)

lemma hold_frame [simp]: "s_entries (hold ins s) = s_entries s" "s_cursor (hold ins s) = s_cursor s"
proof -
  show "s_entries (hold ins s) = s_entries s" by (induction ins arbitrary: s) (simp_all add: hold_def)
  show "s_cursor (hold ins s) = s_cursor s" by (induction ins arbitrary: s) (simp_all add: hold_def)
qed

text \<open>Giving back references to tensors the program still has frees nothing.\<close>

lemma unrefs_held:
  "(\<And>i. i \<in> set ins \<Longrightarrow> live (s_slots s) i \<and> \<not> sl_released (s_slots s i)) \<Longrightarrow>
    s_slots (unrefs T ins s) x = (s_slots s x)\<lparr>sl_refs := sl_refs (s_slots s x) - count_list ins x\<rparr>"
proof (induction ins arbitrary: s)
  case (Cons i ins)
  let ?t = "slot_upd i unheld s"
  have "live (s_slots s) i" "\<not> sl_released (s_slots s i)" using Cons.prems by auto
  then have "unrefs T (i # ins) s = unrefs T ins ?t" by (simp add: Let_def)
  moreover have "live (s_slots ?t) j \<and> \<not> sl_released (s_slots ?t j)" if "j \<in> set ins" for j
    using Cons.prems [of j] that by (auto simp: live_def)
  then have "s_slots (unrefs T ins ?t) x = (s_slots ?t x)\<lparr>sl_refs := sl_refs (s_slots ?t x) - count_list ins x\<rparr>"
    by (rule Cons.IH)
  ultimately show ?case by (simp del: unrefs.simps)
qed simp

lemma record_slots:
  assumes "h \<notin> set (sp_in p)" and "s_slots u = f(h := w)"
  shows "s_slots (record_node h p up u) =
     (s_slots (hold (sp_in p) (u\<lparr>s_slots := f\<rparr>)))(h := w\<lparr>sl_kind := K_NODE, sl_spec := p, sl_under_param := up\<rparr>)"
proof
  fix x
  show "s_slots (record_node h p up u) x =
     ((s_slots (hold (sp_in p) (u\<lparr>s_slots := f\<rparr>)))(h := w\<lparr>sl_kind := K_NODE, sl_spec := p, sl_under_param := up\<rparr>)) x"
    using assms by (simp add: record_node_def Let_def hold_eq count_list_0_iff)
qed

lemma record_frame [simp]:
  "s_entries (record_node h p up s) = s_entries s" "s_cursor (record_node h p up s) = s_cursor s"
  by (simp_all add: record_node_def Let_def)

lemma owes_record:
  assumes f: "owes [] f" and h: "0 < h" "h < TF_SLOTS" "sl_kind (f h) = K_FREE"
    and ins: "\<And>i. i \<in> set (sp_in p) \<Longrightarrow> live f i"
    and u: "s_slots u = f(h := w)" and w: "sl_refs w = 0" and v: "slot_fine (w\<lparr>sl_kind := K_NODE, sl_spec := p, sl_under_param := up\<rparr>)"
  shows "owes [] (s_slots (record_node h p up u))"
proof -
  let ?v = "w\<lparr>sl_kind := K_NODE, sl_spec := p, sl_under_param := up\<rparr>" and ?s = "u\<lparr>s_slots := f\<rparr>"
  have hin: "h \<notin> set (sp_in p)" using ins h(3) by (auto simp: live_def)
  have "owes (sp_in p @ []) (s_slots (hold (sp_in p) ?s))" using f ins by (intro owes_hold) simp_all
  then have "owes [] ((s_slots (hold (sp_in p) ?s))(h := ?v))"
    by (intro owes_born) (use h w v in \<open>simp_all add: node_ins_def hold_eq\<close>)
  then show ?thesis using record_slots [OF hin u] by simp
qed

lemma s_slots_unrecord:
  "s_slots (unrecord T h p s) = (s_slots (unrefs T (sp_in p) s))(h := (s_slots (unrefs T (sp_in p) s) h)\<lparr>sl_kind := K_FREE\<rparr>)"
  by (simp add: unrecord_def Let_def)

lemma unrecord_frame [simp]:
  "s_entries (unrecord T h p s) = s_entries s" "s_cursor (unrecord T h p s) = s_cursor s"
  by (simp_all add: unrecord_def Let_def)

text \<open>A record is undone exactly.\<close>

lemma unrecord_good:
  assumes g: "good s" and h: "live (s_slots s) h" "node_ins (s_slots s h) = sp_in p" "sl_refs (s_slots s h) = 0"
    and ins: "\<And>i. i \<in> set (sp_in p) \<Longrightarrow> tfb_exists s i" and hin: "h \<notin> set (sp_in p)"
  shows "good (unrecord T h p s)" and "tfb_exists s x \<Longrightarrow> x \<noteq> h \<Longrightarrow> tfb_exists (unrecord T h p s) x"
proof -
  let ?f = "s_slots s" and ?t = "slot_upd h (\<lambda>sl. sl\<lparr>sl_kind := K_FREE\<rparr>) s"
  have i: "live ?f i \<and> \<not> sl_released (?f i)" if "i \<in> set (sp_in p)" for i using ins [OF that] tfb_exists_live by blast
  have j: "live (s_slots ?t) i \<and> \<not> sl_released (s_slots ?t i)" if "i \<in> set (sp_in p)" for i
    using i [OF that] hin that by (auto simp: live_def)
  have "owes (node_ins (?f h) @ []) (?f(h := (?f h)\<lparr>sl_kind := K_FREE\<rparr>))"
    by (rule owes_let_go [OF goodD(2) [OF g] h(1)])
      (use owesD(1) [OF goodD(2) [OF g] h(1)] h(3) in \<open>simp_all add: node_ins_def\<close>)
  then have "owes [] (s_slots (unrefs T (sp_in p) ?t))" using h(2) by (intro owes_unrefs) simp
  moreover have eq: "s_slots (unrecord T h p s) = s_slots (unrefs T (sp_in p) ?t)"
    using unrefs_held [where ins = "sp_in p" and s = s, OF i] unrefs_held [where ins = "sp_in p" and s = ?t, OF j] by (auto simp: s_slots_unrecord)
  ultimately have "tab_ok (unrecord T h p s)" using goodD(1) [OF g] by (simp add: tab_ok_def)
  then show "good (unrecord T h p s)" by (rule good_cong [OF g]) simp
  show "tfb_exists (unrecord T h p s) x" if "tfb_exists s x" "x \<noteq> h"
    using that unrefs_held [where ins = "sp_in p" and s = s and x = x, OF i] by (auto simp: tfb_exists_def s_slots_unrecord)
qed

section \<open>The producer\<close>

text \<open>\<open>gives N m\<close>: started where the handles of \<open>N\<close> are good, \<open>m\<close> frees nothing and its answer is a new handle.\<close>

definition gives :: "int set \<Rightarrow> ('w, int) tact \<Rightarrow> bool" where
  "gives N m \<longleftrightarrow> fits_back m \<and> (\<forall>s. fits (final (m s)) \<longrightarrow> good s \<longrightarrow> (\<forall>x \<in> N. tfb_exists s x) \<longrightarrow>
     kept {} (\<lambda>h. {h}) s (m s))"

lemma gives_calm:
  assumes "calm N X m" and "\<And>v. gives N (f v)"
  shows "gives N (andthen m f)"
  unfolding gives_def
proof (intro conjI allI impI)
  show "fits_back (andthen m f)"
    by (intro fits_rules calm_fits [OF assms(1)]) (use assms(2) in \<open>simp add: gives_def\<close>)
next
  fix s assume fit: "fits (final (andthen m f s))" and g: "good s" and N: "\<forall>x \<in> N. tfb_exists s x"
  show "kept {} (\<lambda>h. {h}) s (andthen m f s)"
  proof (cases "m s")
    case (One v t)
    have ft: "fits (final (f v t))" using fit One by (simp add: andthen_def)
    then have "fits (final (m s))" using assms(2) One by (simp add: gives_def fits_back_def)
    note k = calmD(1) [OF assms(1) this g N]
    have "good t" "\<forall>x \<in> N. tfb_exists t x" using k N One by (auto simp: kept_def)
    then have "kept {} (\<lambda>h. {h}) t (f v t)" using assms(2) ft by (simp add: gives_def)
    then show ?thesis using kept_trans [OF k One] One by (simp add: andthen_def)
  qed (use calmD(1) [OF assms(1) _ g N] fit in \<open>auto simp: andthen_def kept_def\<close>)
qed


lemma gives_fits: "gives N m \<Longrightarrow> fits_back m"
  by (simp add: gives_def)

lemma gives_makes: "makes {} m \<Longrightarrow> gives N m"
  using doesD [of "{}" "\<lambda>h. {h}" m] fits_back_does [of "{}" "\<lambda>h. {h}" m] by (auto simp: gives_def)

lemma fits_back_slot_new [fits_rules]: "fits_back slot_new"
  by (simp add: fits_back_def fits_def)

lemma fits_back_slot_from_handle [fits_rules]: "fits_back (slot_from_handle T e)"
  by (simp add: fits_back_def fits_def)

text \<open>The tape: what a parameter reaches keeps its recipe.\<close>

lemma gives_taped:
  assumes "plain p" and "set (sp_in p) \<subseteq> N"
  shows "gives N (andthen (slot_from_handle T r) (\<lambda>h. andthen (modify (record_node h p True)) (\<lambda>_. ret h)))" (is "gives N ?m")
  unfolding gives_def
proof (intro conjI allI impI)
  show "fits_back ?m" by (intro fits_rules fits_back_modify) simp
next
  fix s assume g: "good s" and N: "\<forall>x \<in> N. tfb_exists s x" and fit: "fits (final (?m s))"
  note v = slot_from_handle_value [OF goodD(1) [OF g], of r T]
  show "kept {} (\<lambda>h. {h}) s (?m s)"
  proof (cases "slot_from_handle T r s")
    case (Waits t)
    then show ?thesis using v by (simp add: one_value_def)
  next
    case (Zero t)
    have "fits (final (slot_from_handle T r s))" using fit Zero by (simp add: andthen_def)
    from doesD [OF makes_slot_from_handle this g] Zero show ?thesis by (simp add: andthen_def kept_def)
  next
    case (One h t)
    let ?t = "record_node h p True t"
    have a: "adds s h t" "value_slot (s_slots t h)" "\<not> sl_ckey (s_slots t h)" using v One by (simp_all add: one_value_def)
    have ins: "live (s_slots s) i" if "i \<in> set (sp_in p)" for i using N assms(2) that tfb_exists_live by blast
    then have hin: "h \<notin> set (sp_in p)" using a(1) by (auto simp: adds_def live_def)
    have "owes [] (s_slots ?t)"
      by (rule owes_record [OF goodD(2) [OF g] _ _ _ ins adds_upd [OF a(1)]])
        (use a assms(1) in \<open>simp_all add: adds_def value_slot_def slot_fine_def\<close>)
    then have "tab_ok ?t" using a(1) by (simp add: tab_ok_def adds_def)
    then have "good ?t" by (rule good_cong [OF g]) (use a(1) in \<open>simp add: adds_def\<close>)
    moreover have sl: "s_slots ?t x = (if x = h then (s_slots t h)\<lparr>sl_kind := K_NODE, sl_spec := p, sl_under_param := True\<rparr>
        else (s_slots s x)\<lparr>sl_refs := sl_refs (s_slots s x) + count_list (sp_in p) x\<rparr>)" for x
      using record_slots [OF hin adds_upd [OF a(1)]] by (simp add: hold_eq)
    moreover have "?m s = One h ?t" using One by (simp add: andthen_One modify_def ret_def)
    ultimately show ?thesis using a(1,2) by (auto simp: kept_def tfb_exists_def adds_def value_slot_def)
  qed
qed

lemma gives_eager:
  fixes T :: "'w tf"
  assumes "plain p"
  shows "gives (set (sp_in p)) (run_eager T p up)"
proof -
  have last: "gives (set (sp_in p)) (andthen (slot_from_handle T r) (\<lambda>h.
      andthen (modify (if up then record_node h p True else (\<lambda>s. s))) (\<lambda>_. ret h)))" for r
  proof (cases up)
    case False
    have "andthen (slot_from_handle T r) (\<lambda>h. andthen (modify (\<lambda>s. s)) (\<lambda>_. ret h)) = slot_from_handle T r"
      by (rule ext) (simp add: act_defs split: outcome.split)
    then show ?thesis using False gives_makes [OF makes_slot_from_handle] by simp
  qed (use gives_taped [OF assms order_refl] in simp)
  have z: "gives (set (sp_in p)) (Zero :: ('w, int) tact)" using gives_makes [OF does_zero] .
  have each: "calm (set (sp_in p)) (set (sp_in p)) (for_each (sp_in p) (\<lambda>i. andthen (fetch (\<lambda>s. sl_eh (s_slots s i))) (\<lambda>eh.
      if eh = None then run_closure T i else ret ())))"
    by (auto intro!: calm_for_each calm_rules calm_weaken [OF calm_run_closure])
  have "gives (set (sp_in p)) (andthen (tf_call (execute_op T dev (p\<lparr>sp_in := []\<rparr>) ins)) (\<lambda>rs. case rs of [] \<Rightarrow> Zero
      | r # _ \<Rightarrow> andthen (slot_from_handle T r) (\<lambda>h.
          andthen (modify (if up then record_node h p True else (\<lambda>s. s))) (\<lambda>_. ret h))))" for dev ins
    by (rule gives_calm [OF calm_quiet [OF quiet_call]]) (use last z in \<open>simp split: list.split\<close>)
  then show ?thesis
    unfolding run_eager_def
    by (intro gives_calm [OF each] gives_calm [OF calm_quiet [OF quiet_fetch]]) (simp split: prod.split)
qed

text \<open>A shape that is refused leaves the table as it was.\<close>

lemma entry_for_slots:
  assumes g: "good s" and c: "closure_of T h gm s = One c t"
  shows "t = s" and "s_slots (final (entry_for T c s)) = s_slots s" and "good (final (entry_for T c s))"
proof -
  obtain c0 where k: "c = keyed T (s_slots s) h c0" using c by (auto simp: closure_of_eq split: sum.splits)
  note ok = closure_of_ok [OF c goodD(3) [OF g]]
  show "t = s" by (rule ok(4))
  note e = entry_for_good [OF g ok(1) key_matches_keyed [of T "s_slots s" h c0, folded k]]
  show "s_slots (final (entry_for T c s)) = s_slots s" "good (final (entry_for T c s))" by (rule e)+
qed

text \<open>Calls that leave the table as it was when they fail.\<close>

definition undone :: "int \<Rightarrow> ('w, 'a) tact \<Rightarrow> bool" where
  "undone h m \<longleftrightarrow> (\<forall>s t. good s \<longrightarrow> tfb_exists s h \<longrightarrow> fits (final (m s)) \<longrightarrow> m s = Zero t \<longrightarrow> s_slots t = s_slots s)"

named_theorems undone_rules \<open>rules for calls undone when they fail\<close>

lemma undone_never [undone_rules]:
  "undone h (ret v)" "undone h Waits" "undone h Zero" "undone h (andthen (modify f) (\<lambda>_. ret v))"
  by (simp_all add: undone_def ret_def modify_def andthen_def)

lemma undone_seq [undone_rules]:
  assumes "quiet m" and "\<And>v. undone h (f v)"
  shows "undone h (andthen m f)"
  unfolding undone_def
proof (intro allI impI)
  fix s t assume s: "good s" "tfb_exists s h" and fit: "fits (final (andthen m f s))" and z: "andthen m f s = Zero t"
  show "s_slots t = s_slots s"
  proof (cases "m s")
    case (One v u)
    then have "f v u = Zero t" "fits (final (f v u))" using z fit by (simp_all add: andthen_def)
    moreover have "good u" "s_slots u = s_slots s" using quiet_good [OF assms(1) s(1)] quietD(1) [OF assms(1), of s] One by simp_all
    ultimately show ?thesis using assms(2) [of v] s(2) tfb_exists_cong [of u s] unfolding undone_def by metis
  qed (use z quietD(1) [OF assms(1), of s] in \<open>auto simp: andthen_def\<close>)
qed

lemma undone_if [undone_rules]: "undone h m \<Longrightarrow> undone h k \<Longrightarrow> undone h (if b then m else k)"
  by simp

lemma undone_case_option [undone_rules]:
  "undone h m \<Longrightarrow> (\<And>v. undone h (k v)) \<Longrightarrow> undone h (case x of None \<Rightarrow> m | Some v \<Rightarrow> k v)"
  by (cases x) simp_all

lemma undone_run [undone_rules]: "undone h (andthen (run_closure T h) (\<lambda>_. fetch g))"
  unfolding undone_def
proof (intro allI impI)
  fix s t assume s: "good s" "tfb_exists s h" and fit: "fits (final (andthen (run_closure T h) (\<lambda>_. fetch g) s))"
    and z: "andthen (run_closure T h) (\<lambda>_. fetch g) s = Zero t"
  then have "run_closure T h s = Zero t" by (auto simp: andthen_def fetch_def split: outcome.splits)
  moreover from this have "fits (final (run_closure T h s))" using fit z by simp
  ultimately show "s_slots t = s_slots s" using run_closure_good(3) [OF s] by blast
qed

lemma undone_entry:
  assumes "\<And>c i hit. undone h (k c i hit)"
  shows "undone h (andthen (closure_of T h gm) (\<lambda>c. andthen (entry_for T c) (\<lambda>(i, hit). k c i hit)))"
  unfolding undone_def
proof (intro allI impI)
  let ?m = "andthen (closure_of T h gm) (\<lambda>c. andthen (entry_for T c) (\<lambda>(i, hit). k c i hit))"
  fix s t assume s: "good s" "tfb_exists s h" and fit: "fits (final (?m s))" and z: "?m s = Zero t"
  show "s_slots t = s_slots s"
  proof (cases "closure_of T h gm s")
    case (One c u)
    note e = entry_for_slots [OF s(1) One]
    show ?thesis
    proof (cases "entry_for T c s")
      case i: (One ih v)
      obtain i hit where ih: "ih = (i, hit)" by (cases ih)
      have m: "?m s = k c i hit v" using One i ih e(1) by (simp add: andthen_One)
      have v: "good v" "s_slots v = s_slots s" using e(2,3) i by simp_all
      have x: "tfb_exists v h" using s(2) tfb_exists_cong [OF v(2)] by simp
      show ?thesis using assms [of c i hit, unfolded undone_def] v x z fit unfolding m by metis
    qed (use One e z in \<open>auto simp: andthen_def\<close>)
  qed (use z quietD(1) [OF quiet_closure_of, of T h gm s] in \<open>auto simp: andthen_def\<close>)
qed

lemma undone_shape: "undone h (tfb_shape T h)"
proof -
  let ?run = "andthen (run_closure T h) (\<lambda>_. fetch (\<lambda>s. sl_shape (s_slots s h)))"
  have dims: "undone h (andthen (tf_call call) (\<lambda>dims. if list_ex (\<lambda>d. d < 0) dims then ?run
      else andthen (modify (slot_upd h (\<lambda>sl. sl\<lparr>sl_shape := dims, sl_shape_known := True\<rparr>))) (\<lambda>_. ret dims)))" for call
    by (rule undone_seq [OF quiet_call]) (simp add: undone_run undone_never)
  show ?thesis
    unfolding tfb_shape_def Let_def
    by (rule undone_seq [OF quiet_fetch], clarify, intro undone_if undone_never undone_entry,
      rule undone_seq [OF quiet_fetch], intro undone_case_option undone_never,
      rule undone_seq [OF quiet_attempt [OF quiet_call]], intro undone_case_option undone_run undone_if dims)
qed

text \<open>A node just recorded, which nothing reads yet.\<close>

definition recorded :: "int \<Rightarrow> opspec \<Rightarrow> 'w tfb \<Rightarrow> bool" where
  "recorded h p s \<longleftrightarrow> good s \<and> tfb_exists s h \<and> node_ins (s_slots s h) = sp_in p \<and> sl_refs (s_slots s h) = 0 \<and>
     h \<notin> set (sp_in p) \<and> (\<forall>i \<in> set (sp_in p). tfb_exists s i)"

lemma recorded_same: "recorded h p s \<Longrightarrow> good t \<Longrightarrow> s_slots t = s_slots s \<Longrightarrow> recorded h p t"
  by (auto simp: recorded_def tfb_exists_def)

lemma recorded_calm:
  assumes "recorded h p s" and "calm {} X m" and "h \<notin> X" and "fits (final (m s))"
  shows "recorded h p (final (m s))" and "tfb_exists s x \<Longrightarrow> tfb_exists (final (m s)) x"
proof -
  have g: "good s" and h: "live (s_slots s) h" "sl_refs (s_slots s h) = 0" using assms(1) tfb_exists_live by (auto simp: recorded_def)
  note c = calmD [OF assms(2,4) g]
  have k: "kept {} (\<lambda>_. {}) s (m s)" and e: "s_slots (final (m s)) h = s_slots s h" using c h assms(3) by simp_all
  show "tfb_exists s x \<Longrightarrow> tfb_exists (final (m s)) x" using k by (simp add: kept_def)
  show "recorded h p (final (m s))" using k e assms(1) by (auto simp: recorded_def kept_def)
qed

lemma recorded_unrecord:
  assumes "recorded h p s"
  shows "good (unrecord T h p s)" and "tfb_exists s x \<Longrightarrow> x \<noteq> h \<Longrightarrow> tfb_exists (unrecord T h p s) x"
  using unrecord_good [of s h p] assms tfb_exists_live [of s h] by (auto simp: recorded_def)

lemma recorded_new:
  assumes "good s" and "plain p" and "\<And>i. i \<in> set (sp_in p) \<Longrightarrow> tfb_exists s i"
    and "0 < h" "h < TF_SLOTS" "sl_kind (s_slots s h) = K_FREE" and "s_slots u = (s_slots s)(h := zero_slot)"
    and "0 < s_cursor u" "s_cursor u < TF_SLOTS" "s_entries u = s_entries s"
    and t: "t = slot_upd h (\<lambda>sl. sl\<lparr>sl_dtype := d\<rparr>) (record_node h p up u)"
  shows "recorded h p t" and "tfb_exists s x \<Longrightarrow> tfb_exists t x"
proof -
  have ins: "live (s_slots s) i" if "i \<in> set (sp_in p)" for i using assms(3) [OF that] tfb_exists_live by blast
  then have hin: "h \<notin> set (sp_in p)" using assms(6) by (auto simp: live_def)
  let ?r = "record_node h p up u" and ?v = "zero_slot\<lparr>sl_kind := K_NODE, sl_spec := p, sl_under_param := up\<rparr>"
  have r: "s_slots ?r x = (if x = h then ?v else (s_slots s x)\<lparr>sl_refs := sl_refs (s_slots s x) + count_list (sp_in p) x\<rparr>)" for x
    using record_slots [OF hin assms(7)] by (simp add: hold_eq)
  have "owes [] (s_slots ?r)"
    by (rule owes_record [OF goodD(2) [OF assms(1)] assms(4-6) ins assms(7)])
      (use assms(2) in \<open>simp_all add: slot_fine_def\<close>)
  moreover have l: "live (s_slots ?r) h" using r assms(4,5) by (simp add: live_def)
  ultimately have "owes [] ((s_slots ?r)(h := ?v\<lparr>sl_dtype := d\<rparr>))"
    by (rule owes_upd) (use r assms(2) in \<open>simp_all add: node_ins_def slot_fine_def\<close>)
  then have ok: "tab_ok t" using r assms(8,9) unfolding t tab_ok_def by simp
  have g: "good t" by (rule good_cong [OF assms(1) ok]) (simp add: t assms(10))
  show e: "tfb_exists s x \<Longrightarrow> tfb_exists t x" for x using assms(4-6) by (auto simp: tfb_exists_def t r)
  have "tfb_exists t h" using assms(4,5) by (simp add: tfb_exists_def t r)
  then show "recorded h p t" using g e assms(3) hin by (auto simp: recorded_def t r node_ins_def)
qed

text \<open>What a recorded call does once the node is there: \<open>graph_rest\<close> is the rest of \<open>run_graph\<close>.\<close>

definition graph_rest :: "'w tf \<Rightarrow> opspec \<Rightarrow> int \<Rightarrow> ('w, int) tact" where
  "graph_rest T p h =
     andthen (attempt (shape_rule T p)) (\<lambda>r.
     case r of
       Some sh \<Rightarrow> andthen (modify (slot_upd h (\<lambda>sl. sl\<lparr>sl_shape := sh, sl_shape_known := True\<rparr>))) (\<lambda>_. ret h)
     | None \<Rightarrow>
         andthen (fetch s_err) (\<lambda>m.
         if m \<noteq> [] \<and> hd m = CHR ''!'' then andthen (modify (\<lambda>s. unrecord T h p (s\<lparr>s_err := tl m\<rparr>))) (\<lambda>_. Zero)
         else andthen (attempt (tfb_shape T h)) (\<lambda>r.
           case r of Some _ \<Rightarrow> ret h | None \<Rightarrow> andthen (modify (unrecord T h p)) (\<lambda>_. Zero))))"

lemma fits_first: "(\<And>v. fits_back (f v)) \<Longrightarrow> fits (final (andthen m f s)) \<Longrightarrow> fits (final (m s))"
  by (cases "m s") (auto simp: andthen_def fits_back_def)

lemma fits_back_graph_rest: "fits_back (graph_rest T p h)"
  unfolding graph_rest_def
  by (intro fits_rules calm_fits [OF calm_shape_rule] calm_fits [OF calm_tfb_shape] fits_back_modify) simp_all

text \<open>The node \<open>h\<close> is the answer, or it is gone; nothing else is.\<close>

definition settled :: "int \<Rightarrow> 'w tfb \<Rightarrow> ('w tfb, int) outcome \<Rightarrow> bool" where
  "settled h s r \<longleftrightarrow> good (final r) \<and> (\<forall>x. tfb_exists s x \<longrightarrow> x \<noteq> h \<longrightarrow> tfb_exists (final r) x) \<and>
     (\<forall>y t. r = One y t \<longrightarrow> y = h \<and> tfb_exists t h)"

lemma settled_unrecord: "recorded h p s \<Longrightarrow> settled h s (Zero (unrecord T h p s))"
  using recorded_unrecord [of h p s, where T = T] by (simp add: settled_def)

lemma settled_from: "settled h t r \<Longrightarrow> (\<And>x. tfb_exists s x \<Longrightarrow> tfb_exists t x) \<Longrightarrow> settled h s r"
  unfolding settled_def by blast

text \<open>No rule refused the shape, and none gave it: the node's own closure is asked.\<close>

lemma ask_shape:
  assumes r: "recorded h p s" and fit: "fits (final (tfb_shape T h s))"
  shows "settled h s (andthen (attempt (tfb_shape T h)) (\<lambda>r. case r of Some _ \<Rightarrow> ret h
      | None \<Rightarrow> andthen (modify (unrecord T h p)) (\<lambda>_. Zero)) s)"
proof -
  have g: "good s" and h: "tfb_exists s h" using r by (simp_all add: recorded_def)
  note k = calmD(1) [OF calm_tfb_shape fit g, simplified]
  show ?thesis
  proof (cases "tfb_shape T h s")
    case (Zero u)
    have u: "good u" "s_slots u = s_slots s"
      using k undone_shape [of h T, unfolded undone_def, rule_format, OF g h fit Zero] Zero by (simp_all add: kept_def)
    from settled_unrecord [OF recorded_same [OF r u], of T] Zero tfb_exists_cong [OF u(2)]
    show ?thesis by (simp add: act_defs settled_def)
  qed (use k h in \<open>auto simp: act_defs kept_def settled_def\<close>)
qed

lemma graph_rest_good:
  assumes r: "recorded h p s" and fit: "fits (final (graph_rest T p h s))"
  shows "settled h s (graph_rest T p h s)"
proof -
  have h0: "h \<notin> insert 0 (set (sp_in p))" using r by (auto simp: recorded_def tfb_exists_def)
  let ?q = "shape_rule T p s"
  have "fits (final (attempt (shape_rule T p) s))"
    by (rule fits_first [OF _ fit [unfolded graph_rest_def]])
      (intro fits_rules calm_fits [OF calm_tfb_shape] fits_back_modify, simp_all)
  then have fq: "fits (final ?q)" by simp
  note c = recorded_calm [OF r calm_shape_rule h0 fq]
  show ?thesis
  proof (cases "?q")
    case (Waits t)
    then show ?thesis using c by (simp add: graph_rest_def act_defs settled_def recorded_def)
  next
    case (One sh t)
    let ?t = "slot_upd h (\<lambda>sl. sl\<lparr>sl_shape := sh, sl_shape_known := True\<rparr>) t"
    have t: "good t" "tfb_exists t h" using c(1) One by (simp_all add: recorded_def)
    have "good ?t" using set_shape_good [OF t(1)] t(2) tfb_exists_live by blast
    moreover have "tfb_exists ?t x = tfb_exists t x" for x by (simp add: tfb_exists_def)
    ultimately show ?thesis using c(2) One t(2) by (simp add: graph_rest_def act_defs settled_def)
  next
    case (Zero t)
    have t: "recorded h p t" "\<And>x. tfb_exists s x \<Longrightarrow> tfb_exists t x" using c Zero by simp_all
    let ?m = "s_err t"
    show ?thesis
    proof (cases "?m \<noteq> [] \<and> hd ?m = CHR ''!''")
      case True
      let ?u = "t\<lparr>s_err := tl ?m\<rparr>"
      have "good ?u" by (rule good_cong [of t]) (use t(1) goodD(1) [of t] in \<open>simp_all add: recorded_def tab_ok_def\<close>)
      then have "recorded h p ?u" by (rule recorded_same [OF t(1)]) simp
      from settled_unrecord [OF this, of T] have "settled h s (Zero (unrecord T h p ?u))"
        by (rule settled_from) (use t(2) in \<open>simp add: tfb_exists_def\<close>)
      then show ?thesis using Zero True by (simp add: graph_rest_def act_defs)
    next
      case False
      let ?a = "andthen (attempt (tfb_shape T h)) (\<lambda>r. case r of Some _ \<Rightarrow> ret h
        | None \<Rightarrow> andthen (modify (unrecord T h p)) (\<lambda>_. Zero)) t"
      have a: "graph_rest T p h s = ?a" unfolding graph_rest_def using Zero False by (auto simp: act_defs)
      have "fits (final (tfb_shape T h t))" using fit unfolding a by (auto simp: act_defs fits_def split: outcome.splits)
      from settled_from [OF ask_shape [OF t(1) this] t(2)] show ?thesis by (simp add: a)
    qed
  qed
qed

lemma run_graph_rest:
  "run_graph T p up = andthen slot_new (\<lambda>h. andthen (modify (\<lambda>s. let s = record_node h p up s in
     slot_upd h (\<lambda>sl. sl\<lparr>sl_dtype := spec_dtype p s\<rparr>) s)) (\<lambda>_. graph_rest T p h))"
  by (simp add: run_graph_def graph_rest_def)

lemma gives_graph:
  assumes "plain p"
  shows "gives (set (sp_in p)) (run_graph T p up)"
  unfolding gives_def
proof (intro conjI allI impI)
  show "fits_back (run_graph T p up)"
    unfolding run_graph_rest by (intro fits_rules fits_back_graph_rest fits_back_modify) (simp add: Let_def)
next
  fix s assume fit: "fits (final (run_graph T p up s))" and g: "good s" and N: "\<forall>x \<in> set (sp_in p). tfb_exists s x"
  from goodD(1) [OF g] show "kept {} (\<lambda>h. {h}) s (run_graph T p up s)"
  proof (cases rule: slot_new_cases)
    case (full c)
    let ?t = "s\<lparr>s_cursor := c, s_err := snprintf_s 512 ''handle table full''\<rparr>"
    have "good ?t" by (rule good_cong [OF g]) (use goodD(2) [OF g] full(2,3) in \<open>simp_all add: tab_ok_def\<close>)
    then show ?thesis using full(1) by (simp add: run_graph_rest andthen_Zero kept_def tfb_exists_def)
  next
    case (found h c)
    define u where "u = s\<lparr>s_cursor := c, s_slots := (s_slots s)(h := zero_slot)\<rparr>"
    define t where "t = slot_upd h (\<lambda>sl. sl\<lparr>sl_dtype := spec_dtype p (record_node h p up u)\<rparr>) (record_node h p up u)"
    have run: "run_graph T p up s = graph_rest T p h t"
      using found(1) by (simp add: run_graph_rest andthen_def modify_def Let_def u_def t_def)
    have r: "recorded h p t" and e: "\<And>x. tfb_exists s x \<Longrightarrow> tfb_exists t x"
      using recorded_new [OF g assms _ found(4-6) _ _ _ _ t_def] N found(2,3) by (simp_all add: u_def)
    have "\<not> tfb_exists s h" using found(6) by (simp add: tfb_exists_def)
    moreover have "settled h t (graph_rest T p h t)" using graph_rest_good [OF r] fit run by simp
    ultimately show ?thesis unfolding run settled_def kept_def using e by (metis empty_iff singletonD)
  qed
qed

theorem makes_run_spec:
  assumes "plain p"
  shows "makes {} (run_spec T p)"
proof (rule doesI)
  have f: "fits_back (run_spec T p)"
    unfolding run_spec_def
    by (intro fits_rules gives_fits [OF gives_eager [OF assms]] gives_fits [OF gives_graph [OF assms]])
  then show "fits s" if "fits (final (run_spec T p s))" for s using that by (simp add: fits_back_def)
  fix s assume "fits (final (run_spec T p s))" "good s"
  then show "kept {} (\<lambda>h. {h}) s (run_spec T p s)"
    using gives_eager [OF assms, of T "under p s"] gives_graph [OF assms, of T "under p s"]
      doesD [OF does_fail, of "''not a tensor''" s "{}" "\<lambda>h. {h}"]
    by (auto simp: run_spec_def act_defs gives_def list_all_iff split: if_splits)
qed

end
