(* ===== verification/Tf_Api.thy ===== *)
theory Tf_Api
  imports Tf_Ok "HOL-Library.Multiset"
begin

text \<open>
  Every operation the predicates call keeps the back end good: none frees a handle of the program's, and
  its answer is a handle the program did not have. The shuffle behind \<open>tfb_randperm\<close> is a permutation.
\<close>

section \<open>Recipes\<close>

lemma plain_spec_init [simp]: "plain (spec_init op) \<longleftrightarrow> CHR '' '' \<notin> set op"
  by (auto simp: plain_def spec_init_def no_spec_def)

lemma plain_spec_in [simp]: "plain (spec_in h p) = plain p"
  by (simp add: plain_def spec_in_def)

lemma plain_spec_attr [simp]:
  "CHR '' '' \<notin> set a \<Longrightarrow> plain (spec_type a t p) = plain p"
  "CHR '' '' \<notin> set a \<Longrightarrow> plain (spec_int a i p) = plain p"
  "CHR '' '' \<notin> set a \<Longrightarrow> plain (spec_bool a b p) = plain p"
  "plain (p\<lparr>sp_list_n := n\<rparr>) = plain p"
  by (auto simp: plain_def spec_type_def spec_int_def spec_bool_def)

lemma plain_fold_spec_in [simp]: "plain (fold spec_in hs p) = plain p"
  by (induction hs arbitrary: p) simp_all

lemma unop_spaceless: "unop nm = Some op \<Longrightarrow> CHR '' '' \<notin> set op"
  by (auto simp: unop_def split: if_splits)

lemma binop_spaceless: "binop nm = Some op \<Longrightarrow> CHR '' '' \<notin> set op"
  by (auto simp: binop_def split: if_splits)

section \<open>The producers\<close>

lemma fits_back_with_free [fits_rules]: "fits_back m \<Longrightarrow> fits_back (with_free T m x)"
  using fits_with_free unfolding fits_back_def by blast

lemma fits_back_makes: "makes A m \<Longrightarrow> fits_back m"
  by (rule fits_back_does)

lemma safe_tfb_shape: "safe (tfb_shape T h)"
  by (rule calm_safe [OF calm_tfb_shape])

text \<open>The rules for temporaries, with what they ask of keys as \<open>fits_back\<close>.\<close>

lemma temp_then:
  assumes "makes {} m" and "\<And>x. x \<notin> A \<Longrightarrow> does (insert x A) F (f x)" and "\<And>x. fits_back (f x)"
  shows "does A F (andthen m f)"
  by (rule makes_then [OF assms(1,2)]) (use assms(3) in \<open>auto simp: fits_back_def\<close>)

lemma temp_pass:
  assumes "makes {} m" and "\<And>y. y \<notin> A \<Longrightarrow> does (insert y A) F (f y)" and "\<And>y. fits_back (f y)" and "x \<notin> A"
  shows "does (insert x A) F (andthen (with_free T m x) f)"
  by (rule makes_pass [OF assms(1,2,4)]) (use assms(3) in \<open>auto simp: fits_back_def\<close>)

theorem makes_tfb_unary: "makes {} (tfb_unary T nm a)"
  unfolding tfb_unary_def
  by (intro does_rules makes_with_temp makes_run_spec) (auto dest: unop_spaceless)

theorem makes_tfb_binary: "makes {} (tfb_binary T nm a b)"
  unfolding tfb_binary_def Let_def
  by (intro does_rules makes_run_spec) (auto dest: binop_spaceless)

theorem makes_tfb_scalar: "makes {} (tfb_scalar T nm a v)"
  unfolding tfb_scalar_def
  by (intro does_rules makes_with_temp makes_run_spec) (auto dest: binop_spaceless)

lemma plain_reduce [simp]: "plain (reduce_spec op a ax keep) \<longleftrightarrow> CHR '' '' \<notin> set op"
  by (simp add: reduce_spec_def)

lemma makes_reduce_all: "CHR '' '' \<notin> set op \<Longrightarrow> makes {} (reduce_all T op a keep)"
  unfolding reduce_all_def
  by (intro does_seq [OF safe_tfb_shape] makes_with_temp makes_ivec makes_run_spec) simp

lemma makes_reduce_axis: "CHR '' '' \<notin> set op \<Longrightarrow> makes {} (reduce_axis T op a axis keep)"
  unfolding reduce_axis_def by (intro makes_with_temp makes_ivec makes_run_spec) simp

lemmas makes_ops = makes_tfb_unary makes_tfb_binary makes_tfb_scalar makes_reduce_all makes_reduce_axis

lemmas fits_ops [fits_rules] = makes_ops [THEN fits_back_makes] makes_run_spec [THEN fits_back_makes]
  safe_tfb_shape [THEN fits_back_does] makes_ivec [THEN fits_back_makes] makes_iscalar [THEN fits_back_makes]
  makes_fscalar [THEN fits_back_makes]

lemma makes_tfb_std: "makes {} (tfb_std T a)"
  unfolding tfb_std_def Let_def
  by (intro does_seq [OF safe_tfb_shape] temp_then temp_pass does_with_free makes_ops fits_rules) simp_all

theorem makes_tfb_agg: "makes {} (tfb_agg T nm a)"
  unfolding tfb_agg_def by (intro does_rules makes_ops makes_tfb_std) simp_all

theorem makes_tfb_argmax: "makes {} (tfb_argmax T a dim)"
  unfolding tfb_argmax_def by (intro makes_with_temp makes_iscalar makes_run_spec) simp

theorem makes_tfb_reshape: "makes {} (tfb_reshape T a shape)"
  unfolding tfb_reshape_def
  by (intro temp_then does_seq [OF does_fetch] does_with_free makes_ivec makes_run_spec fits_rules) simp_all

theorem makes_tfb_cat: "makes {} (tfb_cat T hs dim)"
  unfolding tfb_cat_def by (intro does_rules makes_with_temp makes_run_spec) simp

lemma makes_gather_by: "makes {} (gather_by T a ix)"
  unfolding gather_by_def
  by (intro temp_then does_seq [OF does_fetch] does_case_prod does_with_free makes_iscalar makes_run_spec fits_rules) simp_all

theorem makes_tfb_gather: "makes {} (tfb_gather T a idx)"
  unfolding tfb_gather_def
  by (intro does_seq [OF does_fetch] does_if makes_gather_by makes_with_temp makes_run_spec) simp

text \<open>A slice has two temporaries; one that is made when the other is not stays behind.\<close>

lemma attempt_then:
  assumes "makes {} m" and "does A F (f None)" and "\<And>x. x \<notin> A \<Longrightarrow> does (insert x A) F (f (Some x))" and "\<And>r. fits_back (f r)"
  shows "does A F (andthen (attempt m) f)"
proof (rule does_bind [OF does_attempt [OF assms(1)]])
  show "does ((case r of None \<Rightarrow> {} | Some h \<Rightarrow> {h}) \<union> (A - {})) F (f r)"
    if "(case r of None \<Rightarrow> {} | Some h \<Rightarrow> {h}) \<inter> (A - {}) = {}" for r
    using that assms(2,3) by (cases r) auto
qed (use assms(4) in \<open>auto simp: fits_back_def\<close>)

theorem makes_tfb_slice: "makes {} (tfb_slice T a axis lo hi)"
  unfolding tfb_slice_def Let_def
  by (intro does_seq [OF safe_tfb_shape] does_if does_fail attempt_then makes_ivec fits_rules)
    (auto split: option.split intro!: does_zero does_seq [OF does_fetch] does_with_free makes_run_spec fits_rules)

text \<open>Two temporaries let go by one call; and a temporary let go while another is kept.\<close>

lemma temp_pass2:
  assumes "makes {} m" and "\<And>z. z \<notin> A \<Longrightarrow> does (insert z A) F (f z)" and "\<And>z. fits_back (f z)"
    and "x \<notin> A" and "y \<notin> insert x A"
  shows "does (insert y (insert x A)) F (andthen (with_free T (with_free T m x) y) f)"
proof (rule does_bind [where B = "{y, x}" and G = "\<lambda>z. {z}"])
  show "makes {y, x} (with_free T (with_free T m x) y)"
    using does_with_free [OF does_with_free [OF assms(1)]] assms(5) by simp
  show "does ({z} \<union> (insert y (insert x A) - {y, x})) F (f z)" if "{z} \<inter> (insert y (insert x A) - {y, x}) = {}" for z
  proof -
    have "insert y (insert x A) - {y, x} = A" using assms(4,5) by auto
    then show ?thesis using assms(2) [of z] that by simp
  qed
qed (use assms(3) in \<open>auto simp: fits_back_def\<close>)

lemma temp_pass_other:
  assumes "makes {} m" and "\<And>y. y \<noteq> k \<Longrightarrow> does {y, k} F (f y)" and "\<And>y. fits_back (f y)" and "k \<noteq> x"
  shows "does {k, x} F (andthen (with_free T m x) f)"
proof -
  have "does (insert x {k}) F (andthen (with_free T m x) f)"
    by (rule temp_pass [OF assms(1)]) (use assms(2-4) in auto)
  then show ?thesis by (simp add: insert_commute)
qed

theorem makes_tfb_standardise: "makes {} (tfb_standardise T a ntrain)"
  unfolding tfb_standardise_def
  by (rule temp_then [OF makes_tfb_slice], rule temp_then [OF makes_reduce_axis], simp,
    rule temp_pass_other [OF makes_tfb_binary], rule temp_pass [OF makes_tfb_binary], rule temp_pass [OF makes_reduce_axis], simp,
    rule temp_pass [OF makes_tfb_scalar], rule temp_pass [OF makes_tfb_unary], rule temp_then [OF makes_fscalar],
    rule temp_pass2 [OF makes_run_spec], simp, rule temp_pass_other [OF makes_tfb_binary], subst insert_commute,
    intro does_with_free makes_tfb_binary)
    (auto intro!: fits_rules)

section \<open>Leaves\<close>

theorem makes_tfb_fill: "makes {} (tfb_fill T shape v)"
  and makes_tfb_eye: "makes {} (tfb_eye T n)"
  and makes_tfb_arange: "makes {} (tfb_arange T n)"
  unfolding tfb_fill_def tfb_eye_def tfb_arange_def by (rule makes_tfb_from_doubles)+

lemma safe_next_seed: "safe next_seed"
  unfolding next_seed_def by (intro does_rules does_modify) simp_all

theorem makes_tfb_randperm: "makes {} (tfb_randperm T n)"
  unfolding tfb_randperm_def by (intro does_seq [OF safe_next_seed] does_seq [OF does_fetch] makes_tfb_from_doubles)

lemma safe_placed: "safe (\<lambda>s. let (e, s) = placed T e s in One e s)"
  by (rule does_same) (simp_all add: split_beta)

lemma safe_del_eh: "safe (modify (del_eh T e))" "safe (modify (\<lambda>s. del_eh T e (del_eh T e' s)))"
  by (rule does_modify; simp)+

lemma makes_case_list [does_rules]:
  "does A F m \<Longrightarrow> (\<And>x xs. does A F (k x xs)) \<Longrightarrow> does A F (case l of [] \<Rightarrow> m | x # xs \<Rightarrow> k x xs)"
  by (cases l) simp_all

theorem makes_tfb_random: "makes {} (tfb_random T shape normal)"
  unfolding tfb_random_def
  by (intro does_seq [OF does_tf_call] does_seq [OF safe_next_seed] does_seq [OF does_fetch] does_seq [OF safe_attempt [OF does_tf_call]]
    does_case_option does_seq [OF safe_del_eh(1)] does_seq [OF safe_del_eh(2)] does_seq [OF safe_placed] makes_case_list
    does_zero does_waits makes_slot_from_handle)

text \<open>The shuffle only swaps.\<close>

lemma unat_mod_less:
  fixes x :: "64 word"
  assumes "0 < n"
  shows "unat (x mod word_of_nat n) < n"
proof (cases "word_of_nat n = (0 :: 64 word)")
  case True
  then have "2 ^ 64 dvd n" by (simp add: word_of_nat_eq_0_iff)
  then have "2 ^ 64 \<le> n" using assms by (rule dvd_imp_le)
  moreover have "unat x < 2 ^ LENGTH(64)" by (rule unsigned_less)
  ultimately show ?thesis using True by simp
next
  case False
  then have "unat (x mod word_of_nat n) < unat (word_of_nat n :: 64 word)"
    by (simp add: unat_mod_distrib unat_gt_0)
  also have "\<dots> \<le> n" by (simp add: unat_of_nat)
  finally show ?thesis .
qed

lemma mset_shuffle: "i < length v \<Longrightarrow> mset (shuffle i x v) = mset v"
proof (induction i arbitrary: x v)
  case (Suc i)
  let ?x = "x * 6364136223846793005 + 1442695040888963407 :: 64 word"
  let ?j = "unat (drop_bit 33 ?x mod word_of_nat (Suc i + 1))"
  have j: "?j < length v" using unat_mod_less [of "Suc i + 1" "drop_bit 33 ?x"] Suc.prems by simp
  have "mset (v[Suc i := v ! ?j, ?j := v ! Suc i]) = mset v" using mset_swap [OF j Suc.prems] .
  moreover have "i < length (v[Suc i := v ! ?j, ?j := v ! Suc i])" using Suc.prems by simp
  ultimately show ?case using Suc.IH [of "v[Suc i := v ! ?j, ?j := v ! Suc i]" ?x] by (simp only: shuffle.simps Let_def)
qed simp

section \<open>A file of numbers\<close>

theorem makes_tfb_load_csv: "makes {} (tfb_load_csv T strtod file)"
  unfolding tfb_load_csv_def by (intro does_case_option does_case_prod does_if does_fail makes_tfb_from_doubles)

text \<open>What is read is a whole matrix: as many values as rows times columns.\<close>

lemma csv_rows_matrix:
  "csv_rows strtod src buf rows cols = Some (buf', rows', cols') \<Longrightarrow> length buf = rows * cols \<Longrightarrow> (cols = 0 \<Longrightarrow> rows = 0) \<Longrightarrow>
    length buf' = rows' * cols'"
proof (induction strtod src buf rows cols rule: csv_rows.induct)
  case (1 strtod src buf rows cols)
  show ?case
  proof (cases "src = []")
    case False
    obtain line rest where lr: "fgets 8191 src = (line, rest)" by (cases "fgets 8191 src")
    let ?vs = "csv_values strtod line"
    have step: "csv_rows strtod src buf rows cols = (if ?vs = [] then csv_rows strtod rest buf rows cols
        else if cols \<noteq> 0 \<and> length ?vs \<noteq> cols then None else csv_rows strtod rest (buf @ ?vs) (rows + 1) (length ?vs))"
      using False lr by (subst csv_rows.simps) (simp add: Let_def)
    show ?thesis
    proof (cases "?vs = []")
      case True
      then show ?thesis using 1(1) [OF False refl lr [symmetric] refl] 1(3-) step by simp
    next
      case nonempty: False
      then have ok: "\<not> (cols \<noteq> 0 \<and> length ?vs \<noteq> cols)" using 1(3) step by (auto split: if_splits)
      have "length (buf @ ?vs) = (rows + 1) * length ?vs" using ok 1(4,5) nonempty by (cases "cols = 0") auto
      moreover have "csv_rows strtod rest (buf @ ?vs) (rows + 1) (length ?vs) = Some (buf', rows', cols')"
        using 1(3) step ok nonempty by (simp split: if_splits)
      ultimately show ?thesis using 1(2) [OF False refl lr [symmetric] refl nonempty ok] nonempty by simp
    qed
  qed (use 1(3-) in \<open>simp add: csv_rows.simps\<close>)
qed

section \<open>Parameters and steps\<close>

lemma mark_good:
  assumes "good s" and "tfb_exists s h"
  shows "good (slot_upd h (\<lambda>sl. sl\<lparr>sl_is_param := True\<rparr>) s)"
proof (rule good_cong [OF assms(1)])
  have h: "live (s_slots s) h" using assms(2) tfb_exists_live by blast
  show "tab_ok (slot_upd h (\<lambda>sl. sl\<lparr>sl_is_param := True\<rparr>) s)"
    by (rule tab_ok_upd [OF goodD(1) [OF assms(1)] h, where v = "(s_slots s h)\<lparr>sl_is_param := True\<rparr>"])
      (use h owesD(4) [OF goodD(2) [OF assms(1)] h] in \<open>simp_all add: live_def slot_fine_def\<close>)
qed simp

lemma mark_param_good:
  assumes "good s" and "tfb_exists s h"
  shows "good (mark_param T h s)" and "tfb_exists s x \<Longrightarrow> tfb_exists (mark_param T h s) x"
proof -
  let ?s = "slot_upd h (\<lambda>sl. sl\<lparr>sl_is_param := True\<rparr>) s"
  note g = mark_good [OF assms]
  have e: "tfb_exists ?s x = tfb_exists s x" for x by (simp add: tfb_exists_def)
  show "tfb_exists s x \<Longrightarrow> tfb_exists (mark_param T h s) x"
    using e drop_structure_exists [of ?s x T h] by (simp add: mark_param_def Let_def)
  have "tab_ok (drop_structure T h ?s)" if "sl_eh (s_slots ?s h) \<noteq> None"
    using drop_structure_ok [OF goodD(1) [OF g] _ that] assms(2) e tfb_exists_live by blast
  then show "good (mark_param T h s)"
    using g good_cong [OF g, of "drop_structure T h ?s"] by (simp add: mark_param_def Let_def)
qed

lemma does_update:
  fixes f :: "'w tfb \<Rightarrow> 'w tfb"
  assumes "\<And>s. good s \<Longrightarrow> tfb_exists s h \<Longrightarrow> good (f s) \<and> (\<forall>x. tfb_exists s x \<longrightarrow> tfb_exists (f s) x)"
    and "\<And>s. s_entries (f s) = s_entries s"
  shows "makes {h} (andthen (modify f) (\<lambda>_. ret h))"
proof (rule doesI)
  show "fits s" if "fits (final (andthen (modify f) (\<lambda>_. ret h) s))" for s using that assms(2) by (simp add: act_defs fits_def)
  fix s :: "'w tfb" assume "good s" and "\<And>x. x \<in> {h} \<Longrightarrow> tfb_exists s x"
  then show "kept {h} (\<lambda>h. {h}) s (andthen (modify f) (\<lambda>_. ret h) s)" using assms(1) [of s] by (auto simp: kept_def act_defs)
qed

theorem makes_tfb_parameter: "makes {} (tfb_parameter T a)"
proof -
  have p: "makes {h} (andthen (modify (slot_upd h (\<lambda>sl. sl\<lparr>sl_is_param := True\<rparr>))) (\<lambda>_. ret h))" for h
    by (rule does_update) (use mark_good in \<open>auto simp: tfb_exists_def\<close>)
  show ?thesis
    unfolding tfb_parameter_def
    by (intro does_seq [OF does_fetch] does_if does_fail does_seq [OF calm_safe [OF calm_tfb_force]] does_seq [OF does_tf_call]
      temp_then [OF makes_slot_from_handle] fits_back_does [OF p]) (use p in simp)
qed

lemma mark_param_frame [simp]: "s_entries (mark_param T h s) = s_entries s"
  by (simp add: mark_param_def Let_def)

theorem makes_tfb_step: "makes {} (tfb_step T w g lr)"
proof -
  have p: "makes {h} (andthen (modify (mark_param T h)) (\<lambda>_. ret h))" for h
    by (rule does_update) (use mark_param_good in auto)
  show ?thesis
    unfolding tfb_step_def
    by (intro temp_then [OF makes_tfb_scalar] temp_pass [OF makes_tfb_binary] fits_rules fits_back_does [OF p]) (use p in simp_all)
qed

section \<open>Gradients\<close>

lemma does_zero_grads: "does {} set (zero_grads T ps)"
proof (induction ps)
  case Nil
  show ?case by (simp add: does_ret)
next
  case (Cons p ps)
  have "does {h} set (andthen (zero_grads T ps) (\<lambda>hs. ret (h # hs)))" for h
    by (rule does_bind [OF Cons.IH]) (auto intro: does_ret simp: ret_def)
  moreover from this have "fits_back (andthen (zero_grads T ps) (\<lambda>hs. ret (h # hs)))" for h
    by (rule fits_back_does)
  ultimately show ?case
    by (simp, intro does_seq [OF safe_tfb_shape] temp_then [OF makes_tfb_fill]) simp_all
qed

lemma grad_ref_spaceless: "spaceless (grad_ref c p)"
  by (simp add: grad_ref_def split: option.split)

lemma grad_key_same [simp]:
  "c_leaves (grad_key c ps) = c_leaves c" "c_nodes (grad_key c ps) = c_nodes c" "c_want (grad_key c ps) = c_want c"
  by (simp_all add: grad_key_def)

lemma key_matches_grad: 
  assumes "key_matches T f c"
  shows "key_matches T f (grad_key c ps)"
proof -
  have "key_matches T f (c\<lparr>c_key := fold (\<lambda>p. kput (grad_ref d p)) ps k\<rparr>)" if "key_matches T f (c\<lparr>c_key := k\<rparr>)" for d k
    using that
  proof (induction ps arbitrary: k)
    case (Cons p ps)
    show ?case using Cons.IH key_matches_kput [OF Cons.prems grad_ref_spaceless, of d p] by simp
  qed simp
  then show ?thesis using key_matches_kput [OF assms, of "''|G:''"] by (simp add: grad_key_def)
qed

text \<open>Gradients are added behind the graph and change nothing else.\<close>

definition graph_grown :: "gnode list \<Rightarrow> 'w tfb \<Rightarrow> ('w tfb, gnode list \<times> nat option list) outcome \<Rightarrow> bool" where
  "graph_grown g s r \<longleftrightarrow> (\<exists>n ds w. r = One (g @ replicate n G_grad, ds) (s\<lparr>s_w := w\<rparr>))"

lemma graph_grown_same: "graph_grown g s (One (g, ds) s)"
  unfolding graph_grown_def by (intro exI [of _ "0 :: nat"] exI [of _ ds] exI [of _ "s_w s"]) simp

lemma graph_grown_more:
  assumes "graph_grown (g @ replicate n G_grad) (s\<lparr>s_w := w\<rparr>) (m (s\<lparr>s_w := w\<rparr>))"
  shows "graph_grown g s (andthen m (\<lambda>(g, ds). ret (g, d # ds)) (s\<lparr>s_w := w\<rparr>))"
proof -
  obtain m' ds w' where "m (s\<lparr>s_w := w\<rparr>) = One (g @ replicate (n + m') G_grad, ds) (s\<lparr>s_w := w'\<rparr>)"
    using assms by (auto simp: graph_grown_def replicate_add)
  then show ?thesis unfolding graph_grown_def by (auto simp: act_defs)
qed

lemma grads_one_by_one_grown: "graph_grown g s (grads_one_by_one T y xs g s)"
proof (induction xs arbitrary: g s)
  case Nil
  show ?case by (simp add: ret_def graph_grown_same)
next
  case (Cons x xs)
  have more: "graph_grown g s (andthen (grads_one_by_one T y xs (g @ replicate n G_grad)) (\<lambda>(g, ds). ret (g, d # ds)) (s\<lparr>s_w := w\<rparr>))"
    for n d w by (rule graph_grown_more) (rule Cons.IH)
  show ?case
    using more [of 0 _ "s_w s"] more [of 0] more
    by (cases x) (auto simp: Let_def split: option.split list.split prod.split)
qed

lemma graph_grown_lib:
  "graph_grown g (s\<lparr>s_w := w\<rparr>) r \<Longrightarrow> graph_grown g s r" "graph_grown g s (One (g @ replicate n G_grad, ds) (s\<lparr>s_w := w\<rparr>))"
  by (auto simp: graph_grown_def)

lemma make_grads_grown: "graph_grown g s (make_grads T y xs g s)"
proof -
  let ?given = "concat (map (\<lambda>x. case x of None \<Rightarrow> [] | Some x \<Rightarrow> [x]) xs)"
  obtain r w where a: "add_gradients T g y ?given (s_w s) = (r, w)" by (cases "add_gradients T g y ?given (s_w s)")
  show ?thesis
  proof (cases "?given = []")
    case True
    then show ?thesis unfolding make_grads_def Let_def by (simp add: graph_grown_same)
  next
    case False
    show ?thesis
    proof (cases r)
      case None
      then show ?thesis unfolding make_grads_def Let_def a
        using False graph_grown_lib(1) [OF grads_one_by_one_grown [of g "s\<lparr>s_w := w\<rparr>" T y xs]] graph_grown_same [of g s "map (\<lambda>_. None) xs"] by simp
    next
      case (Some dn)
      then show ?thesis unfolding make_grads_def Let_def a using False by (cases dn) (simp add: graph_grown_lib graph_grown_same)
    qed
  qed
qed

lemma grown_entry_ok: "entry_ok e \<Longrightarrow> entry_ok (e\<lparr>en_graph := en_graph e @ replicate n G_grad, en_grads := ds\<rparr>)"
proof -
  have "graph_ok g \<Longrightarrow> graph_ok (g @ replicate n G_grad)" for g
    by (induction n) (simp_all add: graph_ok_snoc gnode_ok_def replicate_append_same [symmetric] flip: append_assoc)
  then show "entry_ok e \<Longrightarrow> entry_ok (e\<lparr>en_graph := en_graph e @ replicate n G_grad, en_grads := ds\<rparr>)"
    by (auto simp: entry_ok_def intro: trans_less_add1)
qed

lemma grown_good:
  assumes "good s" and "i < length (s_entries s)"
  shows "good (entry_upd i (\<lambda>e. e\<lparr>en_graph := en_graph (s_entries s ! i) @ replicate n G_grad, en_grads := ds\<rparr>) s)"
    (is "good (entry_upd i ?g s)")
proof -
  let ?e = "s_entries s ! i" and ?es = "(s_entries s)[i := ?g (s_entries s ! i)]"
  have e: "entry_ok ?e" "entry_keyed ?e" using assms by (auto simp: good_def entries_ok_def)
  have "entry_ok (?g ?e)" "entry_keyed (?g ?e)" using grown_entry_ok [OF e(1)] e(2) by (simp_all add: entry_keyed_def)
  then have all: "\<forall>x \<in> set ?es. entry_ok x \<and> entry_keyed x"
    using assms(1) set_update_subset_insert [of "s_entries s" i "?g ?e"] by (auto simp: good_def entries_ok_def)
  have "map en_key ?es = map en_key (s_entries s)" using assms(2) by (simp add: map_update list_update_same_conv)
  then show ?thesis using all assms(1) by (auto simp: good_def entries_ok_def entry_upd_def tab_ok_def)
qed

lemma fits_back_entry_compile [fits_rules]: "fits_back (entry_compile T c)"
  using entry_compile_frame(4) by (auto simp: fits_back_def)

lemma fits_back_make_grads [fits_rules]: "fits_back (make_grads T y xs g)"
  unfolding fits_back_def
proof (intro allI impI)
  fix s assume "fits (final (make_grads T y xs g s))"
  then show "fits s" using make_grads_grown [of g s T y xs] by (auto simp: graph_grown_def fits_def)
qed

lemma fits_back_grown [fits_rules]: "fits_back (modify (entry_upd i (\<lambda>e. e\<lparr>en_graph := g, en_grads := ds\<rparr>)))"
proof -
  have "map en_key (s_entries (entry_upd i (\<lambda>e. e\<lparr>en_graph := g, en_grads := ds\<rparr>) s)) = map en_key (s_entries s)" for s :: "'a tfb"
    by (cases "i < length (s_entries s)") (simp_all add: entry_upd_def map_update list_update_same_conv list_update_beyond)
  then have "en_key ` set (s_entries (entry_upd i (\<lambda>e. e\<lparr>en_graph := g, en_grads := ds\<rparr>) s)) = en_key ` set (s_entries s)" for s :: "'a tfb"
    using image_set by metis
  moreover have "fits s \<longleftrightarrow> (\<forall>k \<in> en_key ` set (s_entries s). length k < TF_KEYMAX - 1)" for s :: "'a tfb" by (simp add: fits_def)
  ultimately have "fits (entry_upd i (\<lambda>e. e\<lparr>en_graph := g, en_grads := ds\<rparr>) s) = fits s" for s :: "'a tfb" by metis
  then show ?thesis by (simp add: fits_back_def modify_def)
qed

lemma fits_back_grad_entry [fits_rules]: "fits_back (grad_entry T c loss ps)"
  unfolding grad_entry_def by (intro fits_rules)

lemma grad_entry_good:
  assumes g: "good s" and c: "closure_ok (s_slots s) gm c" "key_matches T (s_slots s) c" and new: "entry_find (c_key c) s = None"
  shows "good (final (grad_entry T c loss ps s))" and "s_slots (final (grad_entry T c loss ps s)) = s_slots s"
    and "grad_entry T c loss ps s = One i t \<Longrightarrow> entry_of t c i"
proof -
  let ?r = "grad_entry T c loss ps s"
  note k = entry_compile_good [OF g c new, of T] entry_compile_frame(1) [of T c s]
  have *: "good (final ?r) \<and> s_slots (final ?r) = s_slots s \<and> (\<forall>i t. ?r = One i t \<longrightarrow> entry_of t c i)"
  proof (cases "entry_compile T c s")
    case (One i u)
    from entry_compile_ok [OF c(1) One] obtain e where e: "s_entries u = s_entries s @ [e]" "i = length (s_entries s)" "en_key e = c_key c"
      by metis
    let ?y = "case node_index c loss of Some k \<Rightarrow> nth_opt (en_outs e) k | None \<Rightarrow> None"
    show ?thesis
    proof (cases ?y)
      case None
      then show ?thesis using One k e by (simp add: grad_entry_def act_defs)
    next
      case (Some y)
      from make_grads_grown [of "en_graph e" u T y "map (op_input c (en_ph e) (en_outs e)) ps"] obtain n ds w
        where m: "make_grads T y (map (op_input c (en_ph e) (en_outs e)) ps) (en_graph e) u =
          One (en_graph e @ replicate n G_grad, ds) (u\<lparr>s_w := w\<rparr>)" by (auto simp: graph_grown_def)
      let ?t = "entry_upd i (\<lambda>x. x\<lparr>en_graph := en_graph e @ replicate n G_grad, en_grads := ds\<rparr>) (u\<lparr>s_w := w\<rparr>)"
      have r: "?r = One i ?t" using One e Some m by (simp add: grad_entry_def act_defs)
      have "good u" using k(1) One by simp
      then have "good (u\<lparr>s_w := w\<rparr>)" by (rule good_cong) (use goodD(1) [OF \<open>good u\<close>] in \<open>simp_all add: tab_ok_def\<close>)
      from grown_good [OF this, where i = i and n = n and ds = ds] have "good ?t" using e by simp
      then show ?thesis using r k(2) One e by (simp add: entry_of_def entry_upd_def)
    qed
  qed (use k in \<open>auto simp: grad_entry_def act_defs\<close>)
  then show "good (final ?r)" "s_slots (final ?r) = s_slots s" "?r = One i t \<Longrightarrow> entry_of t c i" by auto
qed

lemma kept_after:
  assumes "kept A F s (m s)"
    and "\<And>v x. \<exists>y. f v x = One v y \<and> s_slots y = s_slots x \<and> s_cursor y = s_cursor x \<and> s_entries y = s_entries x"
  shows "kept A F s (andthen m f s)"
proof (cases "m s")
  case (One v x)
  obtain y where y: "f v x = One v y" "s_slots y = s_slots x" "s_cursor y = s_cursor x" "s_entries y = s_entries x" using assms(2) by blast
  have "good x" using assms(1) One by (simp add: kept_def)
  then have "good y" by (rule good_cong) (use y goodD(1) [OF \<open>good x\<close>] in \<open>simp_all add: tab_ok_def\<close>)
  then show ?thesis using assms(1) One y tfb_exists_cong [OF y(2)] by (simp add: kept_def andthen_def)
qed (use assms(1) in \<open>auto simp: andthen_def kept_def\<close>)

text \<open>The call behind a gradient, from the closure of the loss on.\<close>

definition grad_call :: "'w tf \<Rightarrow> int \<Rightarrow> int list \<Rightarrow> ('w, int list) tact" where
  "grad_call T loss ps =
     andthen (closure_of T loss True) (\<lambda>c.
       let c = grad_key c ps in
       andthen (fetch (entry_find (c_key c))) (\<lambda>e.
       andthen (case e of Some i \<Rightarrow> ret i | None \<Rightarrow> grad_entry T c loss ps) (\<lambda>i.
       andthen (execute T c i ps) (\<lambda>gs.
       andthen (modify (\<lambda>s. if e \<noteq> None then s\<lparr>s_rep := s_rep s + 1\<rparr> else s)) (\<lambda>_. ret gs)))))"

lemma fits_back_grad_call: "fits_back (grad_call T loss ps)"
  unfolding grad_call_def Let_def by (intro fits_rules fits_back_modify) simp

lemma asked_grad_key: "asked T s gm r c \<Longrightarrow> asked T s gm r (grad_key c ps)"
  using key_matches_grad [of T "s_slots s" c ps] by (simp add: asked_def closure_ok_def)

lemma find_or_grad_good:
  assumes g: "good s" and a: "asked T s gm loss c"
    and m: "m = (case entry_find (c_key c) s of Some i \<Rightarrow> ret i | None \<Rightarrow> grad_entry T c loss ps)"
  shows "kept {} (\<lambda>_. {}) s (m s)" and "s_slots (final (m s)) = s_slots s" and "m s = One i t \<Longrightarrow> entry_of t c i"
proof -
  have c: "closure_ok (s_slots s) gm c" "key_matches T (s_slots s) c" using a by (simp_all add: asked_def)
  have *: "good (final (m s)) \<and> s_slots (final (m s)) = s_slots s \<and> (\<forall>i t. m s = One i t \<longrightarrow> entry_of t c i)"
  proof (cases "entry_find (c_key c) s")
    case None
    then show ?thesis using grad_entry_good [OF g c None, of loss ps] m by auto
  next
    case (Some j)
    then show ?thesis using g m find_entry_Some by (auto simp: ret_def entry_of_def entry_find_def)
  qed
  then show "kept {} (\<lambda>_. {}) s (m s)" by (simp add: kept_def tfb_exists_def)
  show "s_slots (final (m s)) = s_slots s" "m s = One i t \<Longrightarrow> entry_of t c i" using * by auto
qed

lemma grad_call_good:
  assumes g: "good s" and ex: "tfb_exists s loss" and fit: "fits (final (grad_call T loss ps s))"
  shows "kept {} set s (grad_call T loss ps s)"
proof (cases "closure_of T loss True s")
  case (Waits t)
  then show ?thesis using closure_of_frame(2) by metis
next
  case (Zero t)
  then obtain m where "t = s\<lparr>s_err := m\<rparr>" using closure_of_frame(1) by metis
  then show ?thesis using g Zero
    by (simp add: grad_call_def andthen_Zero kept_def good_def tab_ok_def entries_ok_def tfb_exists_def)
next
  case (One c0 u)
  note c0 = closure_of_asked [OF One g ex]
  define c where "c = grad_key c0 ps"
  define m where "m = (case entry_find (c_key c) s of Some i \<Rightarrow> ret i | None \<Rightarrow> grad_entry T c loss ps)"
  define fin where "fin = (\<lambda>gs. andthen (modify (\<lambda>s. if entry_find (c_key c) u \<noteq> None then s\<lparr>s_rep := s_rep s + 1\<rparr> else s)) (\<lambda>_. ret (gs :: int list)) :: ('a, int list) tact)"
  have run: "grad_call T loss ps s = andthen m (\<lambda>i. andthen (execute T c i ps) fin) s"
    unfolding m_def fin_def c_def grad_call_def Let_def using One c0(2) by (simp add: andthen_One)
  have a: "asked T s True loss c" unfolding c_def by (rule asked_grad_key [OF c0(1)])
  note k = find_or_grad_good [OF g a m_def]
  show ?thesis
  proof (cases "m s")
    case i: (One i t)
    have t: "good t" "asked T t True loss c" "entry_of t c i" using k i a asked_cong [of t s] by (auto simp: kept_def)
    have run2: "grad_call T loss ps s = andthen (execute T c i ps) fin t" using run i by (simp add: andthen_One)
    have f: "s_slots (final (fin gs x)) = s_slots x \<and> s_cursor (final (fin gs x)) = s_cursor x \<and> s_entries (final (fin gs x)) = s_entries x"
      for gs x by (simp add: fin_def act_defs)
    then have "fits (final (execute T c i ps t))"
      using fit unfolding run2 by (cases "execute T c i ps t") (simp_all add: andthen_def fits_def)
    note x = execute_good(1) [OF t this]
    have "kept {} set t (andthen (execute T c i ps) fin t)" by (rule kept_after, rule x) (simp add: fin_def act_defs)
    then show ?thesis unfolding run2 by (rule kept_trans [OF k(1) i])
  qed (use run k in \<open>auto simp: andthen_def kept_def\<close>)
qed

theorem does_tfb_grad: "does {} set (tfb_grad T loss ps)"
proof (rule doesI)
  have grad: "tfb_grad T loss ps = andthen (fetch (\<lambda>s. (tfb_exists s loss, list_all (\<lambda>p. tfb_exists s p \<and> sl_is_param (s_slots s p)) ps,
      s_slots s loss))) (\<lambda>(ex, params, L).
      if \<not> ex then tf_fail ''the loss is not a tensor''
      else if TF_MAXPARAM < length ps then tf_fail ''at most 64 parameters''
      else if \<not> params then tf_fail ''a parameter must be a leaf: tensor_parameter/2 or tensor_step/4 makes one''
      else if sl_kind L \<noteq> K_NODE \<or> \<not> sl_under_param L then zero_grads T ps else grad_call T loss ps)"
    unfolding tfb_grad_def grad_call_def ..
  have "fits_back (tfb_grad T loss ps)"
    unfolding grad by (intro fits_rules fits_back_grad_call fits_back_does [OF does_zero_grads])
  then show "fits s" if "fits (final (tfb_grad T loss ps s))" for s using that by (simp add: fits_back_def)
  fix s assume "fits (final (tfb_grad T loss ps s))" "good s"
  then show "kept {} set s (tfb_grad T loss ps s)"
    unfolding grad
    using grad_call_good [of s loss T ps] doesD [OF does_zero_grads, of T ps s] doesD [OF does_fail, of _ s "{}" set]
    by (auto simp add: act_defs split: if_splits)
qed

end
