(* ===== verification/Tf_Program.thy ===== *)
theory Tf_Program
  imports Tf_Api
begin

text \<open>
  Programs over the TensorFlow back end: any sequence of the calls of library(tensorflow), on handles good
  or bad. The contract of one call is the locale \<open>handle_machine\<close>; what it gives for whole programs is
  proved there once.
\<close>

section \<open>Machines over handles\<close>

text \<open>
  A machine whose calls keep what is \<open>ok\<close> and take away only the handles they are asked to take, as long as
  it stays within its bounds (\<open>fits\<close>), which it never comes back into.
\<close>

locale handle_machine =
  fixes step :: "'c \<Rightarrow> 's \<Rightarrow> 's"
    and ok :: "'s \<Rightarrow> bool"
    and within :: "'s \<Rightarrow> bool"
    and has :: "'s \<Rightarrow> 'h \<Rightarrow> bool"
    and frees :: "'c \<Rightarrow> 'h set"
  assumes step_within: "within (step c s) \<Longrightarrow> within s"
    and step_ok: "within (step c s) \<Longrightarrow> ok s \<Longrightarrow> ok (step c s)"
    and step_has: "within (step c s) \<Longrightarrow> ok s \<Longrightarrow> has s h \<Longrightarrow> h \<notin> frees c \<Longrightarrow> has (step c s) h"
begin

lemma run_within: "within (fold step cs s) \<Longrightarrow> within s"
  by (induction cs arbitrary: s) (auto dest: step_within)

lemma run_ok: "within (fold step cs s) \<Longrightarrow> ok s \<Longrightarrow> ok (fold step cs s)"
proof (induction cs arbitrary: s)
  case (Cons c cs)
  then have "within (step c s)" using run_within [of cs "step c s"] by simp
  with Cons show ?case using step_ok by simp
qed simp

lemma run_has:
  "within (fold step cs s) \<Longrightarrow> ok s \<Longrightarrow> has s h \<Longrightarrow> (\<And>c. c \<in> set cs \<Longrightarrow> h \<notin> frees c) \<Longrightarrow> has (fold step cs s) h"
proof (induction cs arbitrary: s)
  case (Cons c cs)
  then have "within (step c s)" using run_within [of cs "step c s"] by simp
  with Cons show ?case using step_ok step_has by simp
qed simp

end

section \<open>The calls\<close>

datatype tf_call =
    Call_from_doubles "dbl list" "int list" | Call_from_ints "int list"
  | Call_unary string int | Call_binary string int int | Call_scalar string int dbl | Call_agg string int
  | Call_argmax int int | Call_reshape int "int list" | Call_cat "int list" int | Call_gather int int
  | Call_slice int nat int int | Call_standardise int int
  | Call_fill "int list" dbl | Call_random "int list" bool | Call_eye int | Call_arange int | Call_randperm int
  | Call_load_csv "string \<Rightarrow> dbl \<times> string" "string option"
  | Call_parameter int | Call_step int int dbl | Call_grad int "int list"
  | Call_force int | Call_values int | Call_shape int | Call_free int
  | Call_seed "64 word" | Call_device int | Call_mode bool

definition one :: "('w, int) tact \<Rightarrow> ('w, int list) tact" where
  "one m = andthen m (\<lambda>h. ret [h])"

definition no_handle :: "('w, 'a) tact \<Rightarrow> ('w, int list) tact" where
  "no_handle m = andthen m (\<lambda>_. ret [])"

text \<open>A call and the handles it answers. The mode is the switch of library(torch).\<close>

fun perform :: "'w tf \<Rightarrow> tf_call \<Rightarrow> ('w, int list) tact" where
  "perform T (Call_from_doubles data shape) = one (tfb_from_doubles T data shape)"
| "perform T (Call_from_ints data) = one (tfb_from_ints T data)"
| "perform T (Call_unary nm a) = one (tfb_unary T nm a)"
| "perform T (Call_binary nm a b) = one (tfb_binary T nm a b)"
| "perform T (Call_scalar nm a v) = one (tfb_scalar T nm a v)"
| "perform T (Call_agg nm a) = one (tfb_agg T nm a)"
| "perform T (Call_argmax a dim) = one (tfb_argmax T a dim)"
| "perform T (Call_reshape a shape) = one (tfb_reshape T a shape)"
| "perform T (Call_cat hs dim) = one (tfb_cat T hs dim)"
| "perform T (Call_gather a ix) = one (tfb_gather T a ix)"
| "perform T (Call_slice a axis lo hi) = one (tfb_slice T a axis lo hi)"
| "perform T (Call_standardise a n) = one (tfb_standardise T a n)"
| "perform T (Call_fill shape v) = one (tfb_fill T shape v)"
| "perform T (Call_random shape normal) = one (tfb_random T shape normal)"
| "perform T (Call_eye n) = one (tfb_eye T n)"
| "perform T (Call_arange n) = one (tfb_arange T n)"
| "perform T (Call_randperm n) = one (tfb_randperm T n)"
| "perform T (Call_load_csv strtod file) = one (tfb_load_csv T strtod file)"
| "perform T (Call_parameter a) = one (tfb_parameter T a)"
| "perform T (Call_step w g lr) = one (tfb_step T w g lr)"
| "perform T (Call_grad loss ps) = tfb_grad T loss ps"
| "perform T (Call_force h) = no_handle (tfb_force T h)"
| "perform T (Call_values h) = no_handle (tfb_values T h)"
| "perform T (Call_shape h) = no_handle (tfb_shape T h)"
| "perform T (Call_free h) = no_handle (modify (\<lambda>s. snd (tfb_free T h s)))"
| "perform T (Call_seed n) = no_handle (modify (tfb_seed n))"
| "perform T (Call_device k) = no_handle (modify (\<lambda>s. snd (tfb_device_set k s)))"
| "perform T (Call_mode graph) = no_handle (modify (\<lambda>s. s\<lparr>s_mode := graph\<rparr>))"

fun freed :: "tf_call \<Rightarrow> int set" where
  "freed (Call_free h) = {h}"
| "freed _ = {}"

lemma does_one: "makes {} m \<Longrightarrow> does {} set (one m)"
  unfolding one_def by (rule temp_then) (auto intro: does_ret fits_rules)

lemma does_no_handle: "safe m \<Longrightarrow> does {} set (no_handle m)"
  unfolding no_handle_def by (rule does_seq) (simp_all add: does_ret)

lemmas makes_calls = makes_tfb_from_doubles makes_tfb_from_ints makes_ops makes_tfb_agg makes_tfb_argmax makes_tfb_reshape
  makes_tfb_cat makes_tfb_gather makes_tfb_slice makes_tfb_standardise makes_tfb_fill makes_tfb_random makes_tfb_eye
  makes_tfb_arange makes_tfb_randperm makes_tfb_load_csv makes_tfb_parameter makes_tfb_step

lemma does_perform: "(\<And>h. c \<noteq> Call_free h) \<Longrightarrow> does {} set (perform T c)"
  by (cases c)
    (auto intro!: does_one makes_calls does_tfb_grad does_no_handle does_modify
      calm_safe [OF calm_tfb_force] calm_safe [OF calm_tfb_values] safe_tfb_shape
      simp: tfb_seed_def tfb_device_set_def)

lemma perform_free: "perform T (Call_free h) s = One [] (snd (tfb_free T h s))"
  by (simp add: no_handle_def act_defs)

lemma perform_kept:
  assumes "fits (final (perform T c s))" and "good s"
  shows "kept (freed c) set s (perform T c s)"
proof (cases "\<exists>h. c = Call_free h")
  case True
  then obtain h where c: "c = Call_free h" ..
  have "good (snd (tfb_free T h s))" by (rule good_cong [OF assms(2) tfb_free_ok [OF goodD(1) [OF assms(2)]]]) simp
  then show ?thesis unfolding c perform_free kept_def using tfb_free_exists by auto
next
  case False
  then have "kept {} set s (perform T c s)" using doesD [OF does_perform assms] by blast
  moreover have "freed c = {}" using False by (cases c) auto
  ultimately show ?thesis by simp
qed

lemma perform_fits: "fits (final (perform T c s)) \<Longrightarrow> fits s"
proof (cases "\<exists>h. c = Call_free h")
  case True
  then show "fits (final (perform T c s)) \<Longrightarrow> fits s" by (auto simp: perform_free fits_def simp del: perform.simps)
next
  case False
  then show "fits (final (perform T c s)) \<Longrightarrow> fits s" using does_fits [OF does_perform] by blast
qed

section \<open>Programs\<close>

definition tf_after :: "'w tf \<Rightarrow> tf_call \<Rightarrow> 'w tfb \<Rightarrow> 'w tfb" where
  "tf_after T c s = final (perform T c s)"

interpretation tensors: handle_machine "tf_after T" good fits tfb_exists freed for T
proof
  fix c h and s :: "'a tfb"
  assume fit: "fits (tf_after T c s)"
  then show "fits s" unfolding tf_after_def by (rule perform_fits)
  assume g: "good s"
  note k = perform_kept [OF fit [unfolded tf_after_def] g]
  then show "good (tf_after T c s)" by (simp add: kept_def tf_after_def)
  assume "tfb_exists s h" "h \<notin> freed c"
  with k show "tfb_exists (tf_after T c s) h" by (simp add: kept_def tf_after_def)
qed

text \<open>The back end as \<open>tfb_init\<close> leaves it: an empty table, no entry, any library.\<close>

definition tfb_start :: "int \<Rightarrow> (string \<times> string) list \<Rightarrow> 'w \<Rightarrow> 'w tfb" where
  "tfb_start xla devs w = snd (tfb_init False None devs (tfb_statics xla w))"

lemma start_good: "good (tfb_start xla devs w)" and start_fits: "fits (tfb_start xla devs w)"
proof -
  have "readers (\<lambda>_. zero_slot) h = 0" for h by (simp add: readers_def)
  then have "owes [] (\<lambda>_. zero_slot)" by (intro owesI) (auto simp: live_def acyclic_ins_def)
  then show "good (tfb_start xla devs w)"
    by (simp add: good_def tab_ok_def entries_ok_def tfb_start_def tfb_init_def tfb_statics_def TF_SLOTS_def)
  show "fits (tfb_start xla devs w)" by (simp add: fits_def tfb_start_def tfb_init_def tfb_statics_def)
qed

text \<open>The states the back end can come to.\<close>

inductive tf_reached :: "'w tf \<Rightarrow> 'w tfb \<Rightarrow> bool" for T where
  start: "tf_reached T (tfb_start xla devs w)"
| call: "tf_reached T s \<Longrightarrow> tf_reached T (tf_after T c s)"

inductive_cases tf_reachedE: "tf_reached T s"

lemma reached_within: "tf_reached T s \<Longrightarrow> fits s \<Longrightarrow> good s"
proof (induction rule: tf_reached.induct)
  case (call s c)
  then show ?case using tensors.step_ok tensors.step_within by blast
qed (rule start_good)

end
