(* ===== verification/Tf_Properties.thy ===== *)
theory Tf_Properties
  imports Tf_Program
begin

text \<open>What the TensorFlow back end promises, and a small library to look at concrete programs with.\<close>

section \<open>A concrete library\<close>

text \<open>A library that numbers its handles and computes nothing; every tensor it is asked about is a vector of two, and it
  is too busy to make a function at first.\<close>

definition give_number :: "nat \<Rightarrow> (string + nat) \<times> nat" where
  "give_number w = (Inr w, Suc w)"

definition numbering_tf :: "nat tf" where
  "numbering_tf = \<lparr>new_handle = \<lambda>_. give_number, delete_handle = \<lambda>_ w. w, copy_sharing = \<lambda>_. give_number,
     copy_to_device = \<lambda>_ _. give_number, resolve = \<lambda>_ w. (Inr \<lparr>t_dtype = TF_FLOAT, t_shape = [2], t_data = [0, 0]\<rparr>, w),
     handle_shape = \<lambda>_ _. [2], handle_dtype = \<lambda>_ _. TF_FLOAT, execute_op = \<lambda>_ _ _ w. (Inr [w], Suc w),
     finish_operation = \<lambda>_ _ w. (None, w), graph_to_function = \<lambda>_ _ _ _ w. if w < 2 then (Some ''busy'', w + 2) else (None, w), add_function = \<lambda>_ w. (None, w),
     add_gradients = \<lambda>_ _ xs w. (Some (map (\<lambda>_. None) xs, 0), w), graph_ndims = \<lambda>_ _ w. (Inr 1, w),
     graph_shape = \<lambda>_ _ w. (Inr [2], w), f32_of_double = \<lambda>d. ucast (drop_bit 32 d), double_of_f32 = \<lambda>f. push_bit 32 (ucast f),
     double_of_int = word_of_int, f32_eq = (=), show_f32 = \<lambda>_. ''0''\<rparr>"

abbreviation tf_then :: "nat tfb \<Rightarrow> tf_call list \<Rightarrow> nat tfb" where
  "tf_then s cs \<equiv> fold (tf_after numbering_tf) cs s"

abbreviation tf_begin :: "nat tfb" where
  "tf_begin \<equiv> tfb_start 0 [] 0"

lemma slot_new_here:
  "sl_kind (s_slots s (s_cursor s)) = K_FREE \<Longrightarrow>
    slot_new s = One (s_cursor s) (slot_upd (s_cursor s) (\<lambda>_. zero_slot)
      (s\<lparr>s_cursor := if s_cursor s + 1 < TF_SLOTS then s_cursor s + 1 else 1\<rparr>))"
proof -
  have "nat (TF_SLOTS - 1) = Suc 65534" by (simp add: TF_SLOTS_def)
  then show "sl_kind (s_slots s (s_cursor s)) = K_FREE \<Longrightarrow> ?thesis" by (simp only: slot_new_def slot_scan.simps Let_def) simp
qed

text \<open>A vector, then its sum with itself, recorded under the graph mode.\<close>

definition a_vector :: "nat tfb" where
  "a_vector = tf_then tf_begin [Call_arange 2, Call_mode True]"

definition recorded_sum :: "nat tfb" where
  "recorded_sum = tf_after numbering_tf (Call_binary ''add'' 1 1) a_vector"

lemmas tf_eval = act_defs perform.simps one_def no_handle_def tf_after_def numbering_tf_def give_number_def tf_call_def

lemma a_vector_facts:
  "s_slots a_vector = (\<lambda>_. zero_slot)(1 := zero_slot\<lparr>sl_kind := K_VALUE, sl_eh := Some 0, sl_shape := [2], sl_shape_known := True,
     sl_dtype := TF_FLOAT\<rparr>)" "s_cursor a_vector = 2" "s_entries a_vector = []" "s_mode a_vector"
  by (auto simp: a_vector_def tf_eval tfb_start_def tfb_init_def tfb_statics_def tfb_arange_def tfb_from_doubles_def
    slot_from_tensor_def slot_new_here TF_SLOTS_def set_shape_from_tensor_def tensor_f32_def TF_MAXDIM_def placed_def zero_slot_def Let_def slot_upd_def first_device_def)

lemma recorded_sum_facts:
  "sl_kind (s_slots recorded_sum 2) = K_NODE \<and> sp_in (sl_spec (s_slots recorded_sum 2)) = [1, 1] \<and>
   sl_refs (s_slots recorded_sum 1) = 2 \<and> tfb_exists recorded_sum 1 \<and> tfb_exists recorded_sum 2 \<and> s_entries recorded_sum = [] \<and>
   sl_kind (s_slots recorded_sum 3) = K_FREE \<and> sl_eh (s_slots recorded_sum 2) = None \<and> sl_kind (s_slots recorded_sum 1) = K_VALUE"
proof -
  have p: "sp_in (spec_type ''T'' TF_FLOAT (spec_in 1 (spec_in 1 (spec_init ''AddV2'')))) = [1, 1]"
    "sp_op (spec_type ''T'' TF_FLOAT (spec_in 1 (spec_in 1 (spec_init ''AddV2'')))) = ''AddV2''"
    by (simp_all add: spec_type_def spec_in_def spec_init_def no_spec_def TF_MAXIN_def)
  show ?thesis
    using a_vector_facts p
    by (simp add: recorded_sum_def tf_eval tfb_binary_def binop_def run_spec_def run_graph_def tfb_exists_def TF_SLOTS_def slot_new_here
      record_node_def hold_def shape_rule_def tfb_shape_def in_at_def bcast_def pad1_def Let_def zero_slot_def)
qed

lemma recorded_sum_reached: "tf_reached numbering_tf recorded_sum" and recorded_sum_fits: "fits recorded_sum"
proof -
  show "tf_reached numbering_tf recorded_sum"
    unfolding recorded_sum_def a_vector_def by (auto intro: tf_reached.intros)
  show "fits recorded_sum" using recorded_sum_facts by (simp add: fits_def)
qed

text \<open>The recorded sum is asked for twice: the library refuses the first time, when its closure has been compiled, and the second time the
  compiled one is found and run.\<close>

definition sum_spec :: opspec where
  "sum_spec = \<lparr>sp_op = ''AddV2'', sp_in = [1, 1], sp_list_n = 0, sp_types = [(''T'', TF_FLOAT)], sp_ints = [], sp_bools = []\<rparr>"

lemma recorded_sum_slots:
  "sl_spec (s_slots recorded_sum 2) = sum_spec" "\<not> sl_released (s_slots recorded_sum 2)" "sl_val (s_slots recorded_sum 1) = None"
  "sl_shape (s_slots recorded_sum 1) = [2]" "sl_dtype (s_slots recorded_sum 1) = TF_FLOAT" "\<not> sl_ckey (s_slots recorded_sum 1)" 
  using a_vector_facts
  by (simp_all add: recorded_sum_def tf_eval tfb_binary_def binop_def run_spec_def run_graph_def tfb_exists_def TF_SLOTS_def slot_new_here sum_spec_def
      record_node_def hold_def shape_rule_def tfb_shape_def in_at_def bcast_def pad1_def Let_def zero_slot_def spec_type_def spec_in_def spec_init_def no_spec_def TF_MAXIN_def slot_upd_def)

lemma recorded_sum_world: "s_w recorded_sum < 2"
proof -
  have "s_w a_vector < 2"
    by (simp add: a_vector_def tf_eval tfb_start_def tfb_init_def tfb_statics_def tfb_arange_def tfb_from_doubles_def
      slot_from_tensor_def slot_new_here TF_SLOTS_def set_shape_from_tensor_def tensor_f32_def TF_MAXDIM_def placed_def zero_slot_def Let_def slot_upd_def first_device_def)
  then show ?thesis using a_vector_facts
    by (simp add: recorded_sum_def tf_eval tfb_binary_def binop_def run_spec_def run_graph_def tfb_exists_def TF_SLOTS_def slot_new_here
      record_node_def hold_def shape_rule_def tfb_shape_def in_at_def bcast_def pad1_def Let_def zero_slot_def spec_type_def spec_in_def spec_init_def no_spec_def TF_MAXIN_def slot_upd_def)
qed

lemma numbering_tf_graph:
  "graph_to_function numbering_tf g n i k w = (if w < 2 then (Some ''busy'', w + 2) else (None, w))"
  "add_function numbering_tf f w = (None, w)" "execute_op numbering_tf dev p xs w = (Inr [w], Suc w)"
  by (simp_all add: numbering_tf_def)

definition sum_closure :: closure where
  "sum_closure = keyed numbering_tf (s_slots recorded_sum) 2 (no_closure\<lparr>c_leaves := [1], c_nodes := [2]\<rparr>)"

lemma sum_closure: "closure_of numbering_tf 2 False recorded_sum = One sum_closure recorded_sum"
proof -
  let ?f = "s_slots recorded_sum" and ?c = "no_closure\<lparr>c_leaves := [1], c_nodes := [2]\<rparr>"
  have "live ?f 1" "live ?f 2" "is_leaf False (?f 1)" "\<not> is_leaf False (?f 2)" "sp_in (sl_spec (?f 2)) = [1, 1]"
    using recorded_sum_facts by (auto simp: live_def tfb_exists_def is_leaf_def)
  then have "visit ?f False 2 {} no_closure = Inr ({1, 2}, ?c)"
    by (simp add: visit_def no_closure_def TF_MAXLEAF_def TF_MAXNODE_def)
  then show ?thesis by (simp add: closure_of_eq sum_closure_def)
qed

lemma kput_short: "length key + length t < TF_KEYMAX \<Longrightarrow> kput t key = key @ t"
  by (simp add: kput_def)

lemma show_small: "show_nat 0 = ''0''" "show_nat 1 = ''1''" "show_nat 2 = ''2''" "show_nat (Suc 0) = ''1''"
  by code_simp+

lemma sum_closure_parts: "c_leaves sum_closure = [1]" "c_nodes sum_closure = [2]" "c_want sum_closure = [True]" "length (c_key sum_closure) < 100"
proof -
  show "c_leaves sum_closure = [1]" "c_nodes sum_closure = [2]" "c_want sum_closure = [True]"
    using recorded_sum_facts recorded_sum_slots by (simp_all add: sum_closure_def keyed_def no_closure_def wants_def Let_def)
  show "length (c_key sum_closure) < 100" using recorded_sum_facts recorded_sum_slots 
    by (simp add: sum_closure_def keyed_def no_closure_def wants_def Let_def key_leaf_def key_node_def kput_short TF_KEYMAX_def sum_spec_def key_ref_def leaf_index_def node_index_def show_small show_int_def TF_FLOAT_def)
qed

definition sum_graph :: "gnode list" where
  "sum_graph = [G_placeholder TF_FLOAT [2], G_op (sum_spec\<lparr>sp_in := []\<rparr>) [Some 0, Some 0]]"

lemma sum_compiled:
  "\<exists>u. entry_for numbering_tf sum_closure recorded_sum = One (0, False) u \<and> s_entries u = [new_entry sum_closure sum_graph [0] [0] [1] [0]] \<and>
     s_slots u = s_slots recorded_sum \<and> s_w u = s_w recorded_sum"
  using recorded_sum_facts recorded_sum_slots
  by (auto simp: entry_for_def entry_find_def entry_compile_def TF_MAXENTRY_def act_defs tf_check_def numbering_tf_def Let_def sum_closure_parts
    leaf_node_def leaf_const_def op_input_def leaf_index_def node_index_def nth_opt_def sum_graph_def sum_spec_def)

lemma sum_refused:
  "\<exists>x e. tfb_force numbering_tf 2 recorded_sum = Zero x \<and> s_slots x = s_slots recorded_sum \<and> 2 \<le> s_w x \<and>
     s_entries x = [e] \<and> en_key e = c_key sum_closure \<and> en_hash e = fnv (c_key sum_closure) \<and> en_graph e = sum_graph \<and> \<not> en_fn e \<and>
     en_out_node e = [0] \<and> en_in_leaf e = [0] \<and> en_grads e = []"
proof -
  obtain u where u: "entry_for numbering_tf sum_closure recorded_sum = One (0, False) u" "s_entries u = [new_entry sum_closure sum_graph [0] [0] [1] [0]]"
    "s_slots u = s_slots recorded_sum" "s_w u = s_w recorded_sum"
    using sum_compiled by blast
  have w: "s_w recorded_sum < 2" by (rule recorded_sum_world)
  show ?thesis
    using recorded_sum_facts sum_closure u w
    by (simp add: tfb_force_def run_closure_def execute_def entry_function_def act_defs sum_closure_parts new_entry_def tf_check_def
        entry_upd_def Let_def numbering_tf_graph)
qed

lemma sum_run:
  assumes "s_slots x = s_slots recorded_sum" and "2 \<le> s_w x" and "s_entries x = [e]" and "en_key e = c_key sum_closure" "en_hash e = fnv (c_key sum_closure)"
    "en_graph e = sum_graph" "\<not> en_fn e" "en_out_node e = [0]" "en_in_leaf e = [0]" "en_grads e = []"
  shows "\<exists>y e'. tfb_force numbering_tf 2 x = One () y \<and> s_entries y = [e'] \<and> en_key e' = c_key sum_closure \<and> en_graph e' = sum_graph \<and> en_fn e'"
proof -
  have c: "closure_of numbering_tf 2 False x = One sum_closure x" using sum_closure assms(1) by (auto simp: closure_of_def act_defs tf_fail_def split: sum.splits prod.splits)
  have f: "entry_for numbering_tf sum_closure x = One (0, True) x" using assms by (simp add: entry_for_def entry_find_def act_defs)
  have "\<exists>v w e'. execute numbering_tf sum_closure 0 [] x = One v w \<and> s_entries w = [e'] \<and> en_key e' = c_key sum_closure \<and> en_graph e' = sum_graph \<and> en_fn e'"
    using assms by (auto simp: execute_def entry_function_def call_entry_def act_defs tf_check_def tf_call_def numbering_tf_graph Let_def sum_closure_parts
        entry_upd_def nth_opt_def give_value_def)
  then obtain v w e' where w: "execute numbering_tf sum_closure 0 [] x = One v w" "s_entries w = [e']" "en_key e' = c_key sum_closure" "en_graph e' = sum_graph" "en_fn e'" by blast
  then show ?thesis using recorded_sum_facts assms(1) c f
    by (simp add: tfb_force_def run_closure_def tfb_exists_def act_defs sum_closure_parts)
qed

definition compiled_sum :: "nat tfb" where
  "compiled_sum = tf_then recorded_sum [Call_force 2, Call_force 2]"

lemma compiled_sum_entries: "\<exists>e. s_entries compiled_sum = [e] \<and> en_key e = c_key sum_closure \<and> en_graph e = sum_graph \<and> en_fn e"
proof -
  obtain x e where x: "tfb_force numbering_tf 2 recorded_sum = Zero x" and e: "s_slots x = s_slots recorded_sum" "2 \<le> s_w x" "s_entries x = [e]" "en_key e = c_key sum_closure"
    "en_hash e = fnv (c_key sum_closure)" "en_graph e = sum_graph" "\<not> en_fn e" "en_out_node e = [0]" "en_in_leaf e = [0]" "en_grads e = []"
    using sum_refused by blast
  obtain y e' where "tfb_force numbering_tf 2 x = One () y" "s_entries y = [e']" "en_key e' = c_key sum_closure" "en_graph e' = sum_graph" "en_fn e'"
    using sum_run [OF e] by blast
  then show ?thesis using x by (simp add: compiled_sum_def tf_after_def no_handle_def act_defs)
qed

lemma compiled_sum_reached: "tf_reached numbering_tf compiled_sum" and compiled_sum_fits: "fits compiled_sum"
proof -
  show "tf_reached numbering_tf compiled_sum" unfolding compiled_sum_def by (auto intro: tf_reached.intros recorded_sum_reached)
  show "fits compiled_sum" using compiled_sum_entries sum_closure_parts(4) by (auto simp: fits_def TF_KEYMAX_def)
qed

section \<open>The table\<close>

text \<open>C25. The reference counts are exact. Whatever calls a program makes, with whatever handles and in whatever
  mode, and however TensorFlow answers them, as long as no key has been cut: the count of every slot in use is the number
  of times the recorded recipes read it, what a recipe reads is still there, a slot the program has released is there only
  because it is read, and recipes never go in a circle.\<close>

theorem reference_counts_are_exact:
  assumes "tf_reached T s" and "fits s"
  shows "(\<forall>h. live (s_slots s) h \<longrightarrow> sl_refs (s_slots s h) = readers (s_slots s) h \<and>
      (\<forall>i \<in> set (node_ins (s_slots s h)). live (s_slots s) i) \<and> (sl_released (s_slots s h) \<longrightarrow> 0 < sl_refs (s_slots s h))) \<and>
    acyclic_ins (s_slots s)"
proof -
  have o: "owes [] (s_slots s)" using goodD(2) [OF reached_within [OF assms]] .
  show ?thesis using owesD [OF o] by (auto simp: slot_fine_def)
qed

theorem reference_counts_are_exact_witness:
  "live (s_slots recorded_sum) 1 \<and> readers (s_slots recorded_sum) 1 = 2"
  using reference_counts_are_exact [OF recorded_sum_reached recorded_sum_fits] recorded_sum_facts
  by (auto simp: tfb_exists_live)

text \<open>C26. A handle is good until it is freed. As long as no key has been cut, through any sequence of calls none of which frees it, whatever else
  they make, run, free or fail at, a tensor the program has stays one it has.\<close>

theorem handles_last_until_freed:
  assumes "tf_reached T s" and "tfb_exists s h" and "\<And>c. c \<in> set cs \<Longrightarrow> c \<noteq> Call_free h" and "fits (fold (tf_after T) cs s)"
  shows "tfb_exists (fold (tf_after T) cs s) h"
proof -
  have "good s" using reached_within [OF assms(1) tensors.run_within [OF assms(4)]] .
  moreover have "h \<notin> freed c" if "c \<in> set cs" for c using assms(3) [OF that] by (cases c) auto
  ultimately show ?thesis using tensors.run_has [OF assms(4) _ assms(2)] by blast
qed

theorem handles_last_until_freed_witness:
  "tfb_exists (fold (tf_after numbering_tf) [Call_mode False, Call_free 2, Call_seed 5] recorded_sum) 1"
proof (rule handles_last_until_freed [OF recorded_sum_reached])
  show "fits (fold (tf_after numbering_tf) [Call_mode False, Call_free 2, Call_seed 5] recorded_sum)"
    using recorded_sum_facts by (simp add: tf_after_def no_handle_def act_defs tfb_seed_def fits_def)
qed (use recorded_sum_facts in auto)

text \<open>What a program sees of the back end: the set of the handles it has; and what a call may do to that set.\<close>

definition handles :: "'w tfb \<Rightarrow> int set" where
  "handles s = {h. tfb_exists s h}"

definition allocates :: "int set \<Rightarrow> int set \<Rightarrow> int set \<Rightarrow> int set \<Rightarrow> bool" where
  "allocates had gone new has \<longleftrightarrow> new \<inter> had = {} \<and> had - gone \<union> new \<subseteq> has \<and> gone \<inter> has = {}"

lemma free_is_gone: "\<not> tfb_exists (snd (tfb_free T h s)) h"
proof (cases "tfb_exists s h")
  case True
  let ?s = "slot_upd h (\<lambda>sl. sl\<lparr>sl_released := True\<rparr>) s"
  have "let_go (s_slots (wipe T h ?s)) (s_slots (really_free T h ?s))" unfolding really_free_def by (rule let_go_unrefs)
  then have "s_slots (really_free T h ?s) h = zero_slot\<lparr>sl_refs := sl_refs (s_slots (really_free T h ?s) h)\<rparr>"
    using let_go_kept [of "s_slots (wipe T h ?s)" "s_slots (really_free T h ?s)" h] by simp
  from arg_cong [OF this, of sl_kind] have "sl_kind (s_slots (really_free T h ?s) h) = K_FREE" by simp
  then show ?thesis using True by (simp add: tfb_free_def Let_def tfb_exists_def)
qed (simp add: tfb_free_def)

text \<open>C27. The back end is an allocator of handles. As long as no key has been cut, seen through the set of handles the program has, a call that
  answers takes away exactly the handle it is asked to free, if any, and adds the handles of its answer, none of which the
  program had.\<close>

theorem calls_allocate_handles:
  assumes "tf_reached T s" and "perform T c s = One hs t" and "fits t"
  shows "allocates (handles s) (freed c) (set hs) (handles t)"
proof -
  have fit: "fits (final (perform T c s))" using assms(2,3) by simp
  have "good s" using reached_within [OF assms(1) perform_fits [OF fit]] .
  from perform_kept [OF fit this] have k: "kept (freed c) set s (One hs t)" using assms(2) by simp
  show ?thesis
  proof (cases "\<exists>h. c = Call_free h")
    case True
    then obtain h where c: "c = Call_free h" ..
    have "hs = []" "t = snd (tfb_free T h s)" using assms(2) perform_free [of T h s] c by simp_all
    then show ?thesis using k free_is_gone [of T h s] c by (auto simp: allocates_def handles_def kept_def)
  next
    case False
    then have "freed c = {}" by (cases c) auto
    then show ?thesis using k by (auto simp: allocates_def handles_def kept_def)
  qed
qed

theorem calls_allocate_handles_witness:
  "1 \<notin> handles (snd (tfb_free numbering_tf 1 recorded_sum)) \<and> 2 \<in> handles (snd (tfb_free numbering_tf 1 recorded_sum))"
proof -
  have "fits (snd (tfb_free numbering_tf 1 recorded_sum))" using recorded_sum_fits by (simp add: fits_def)
  from calls_allocate_handles [OF recorded_sum_reached perform_free this] show ?thesis
    using recorded_sum_facts by (auto simp: allocates_def handles_def)
qed

text \<open>C28. A slot is found when there is one: the search goes once round the table from wherever it stopped last, so it
  fails only when all 65535 slots are in use.\<close>

theorem free_slot_is_found:
  assumes "tf_reached T s" and "fits s"
  shows "(\<exists>h t. slot_new s = One h t \<and> 0 < h \<and> h < TF_SLOTS \<and> sl_kind (s_slots s h) = K_FREE) \<longleftrightarrow>
    (\<exists>h. 0 < h \<and> h < TF_SLOTS \<and> sl_kind (s_slots s h) = K_FREE)"
  using goodD(1) [OF reached_within [OF assms]]
proof (cases rule: slot_new_cases)
  case (found i c)
  then show ?thesis by blast
next
  case (full c)
  then show ?thesis by (auto simp: live_def)
qed

theorem free_slot_is_found_witness:
  "\<exists>h t. slot_new recorded_sum = One h t \<and> 0 < h \<and> h < TF_SLOTS \<and> sl_kind (s_slots recorded_sum h) = K_FREE"
proof -
  have "sl_kind (s_slots recorded_sum 3) = K_FREE" using recorded_sum_facts by blast
  moreover have "0 < (3 :: int)" "3 < TF_SLOTS" by (simp_all add: TF_SLOTS_def)
  ultimately show ?thesis using free_slot_is_found [OF recorded_sum_reached recorded_sum_fits] by blast
qed

section \<open>Closures\<close>

text \<open>C29. A closure is in the order its graph has to be built in: each slot is in it once, as a leaf or as a node, the
  tensor asked for is in it, and every input of a node is a leaf or a node before it, so that compiling it never
  names an operation that is not there yet.\<close>

theorem closure_is_in_order:
  assumes "tf_reached T s" and "fits s" and "closure_of T h gm s = One c t"
  shows "distinct (c_leaves c @ c_nodes c) \<and> h \<in> set (c_leaves c) \<union> set (c_nodes c) \<and>
    (\<forall>i < length (c_nodes c). set (node_ins (s_slots s (c_nodes c ! i))) \<subseteq> set (c_leaves c) \<union> set (take i (c_nodes c)))"
  using closure_of_ok [OF assms(3) goodD(3) [OF reached_within [OF assms(1,2)]]] by (simp add: closure_ok_def)

theorem closure_is_in_order_witness:
  "\<exists>c t. closure_of numbering_tf 2 False recorded_sum = One c t \<and> c_leaves c = [1] \<and> c_nodes c = [2] \<and>
     set (node_ins (s_slots recorded_sum (c_nodes c ! 0))) \<subseteq> {1}"
  using closure_is_in_order [OF recorded_sum_reached recorded_sum_fits sum_closure] sum_closure sum_closure_parts by auto

text \<open>C30. What has been compiled is sound and compiled once: no two entries have the same key, every operation of a
  compiled graph reads operations before it, and the arguments and the results of a function are leaves and nodes of its
  graph.\<close>

theorem compiled_once_and_in_order:
  assumes "tf_reached T s" and "fits s"
  shows "distinct (map en_key (s_entries s)) \<and> length (s_entries s) \<le> TF_MAXENTRY \<and>
    (\<forall>e \<in> set (s_entries s). graph_ok (en_graph e) \<and>
       (\<forall>x \<in> set (en_ph e) \<union> set (en_outs e). x < length (en_graph e)) \<and>
       (\<forall>j \<in> set (en_in_leaf e). j < length (en_ph e)) \<and> (\<forall>i \<in> set (en_out_node e). i < length (en_outs e)))"
  using reached_within [OF assms] by (auto simp: good_def entries_ok_def entry_ok_def)

theorem compiled_once_and_in_order_witness:
  "\<exists>e. s_entries compiled_sum = [e] \<and> en_fn e \<and> length (en_graph e) = 2 \<and> graph_ok (en_graph e) \<and>
     (\<forall>x \<in> set (en_ph e) \<union> set (en_outs e). x < 2)"
proof -
  obtain e where e: "s_entries compiled_sum = [e]" "en_graph e = sum_graph" "en_fn e" using compiled_sum_entries by blast
  then have "length (en_graph e) = 2" by (simp add: sum_graph_def)
  then show ?thesis using compiled_once_and_in_order [OF compiled_sum_reached compiled_sum_fits] e(1,3) by auto
qed

section \<open>Shapes and shuffles\<close>

text \<open>C31. A recorded sum has the shape TensorFlow will give it: where no dimension is empty, the code broadcasts by
  TensorFlow's rule, by which dimensions are compared from the right, a missing one counts as 1, and of two that differ one
  has to be 1 and takes the other's size; and it refuses exactly what that rule refuses.\<close>

theorem bcast_is_broadcasting:
  assumes "list_all (\<lambda>d. 0 < d) a" and "list_all (\<lambda>d. 0 < d) b"
  shows "bcast a b = broadcast a b"
  by (rule bcast_broadcast [OF assms])

theorem bcast_is_broadcasting_witness: "bcast [3, 1] [4] = Some [3, 4] \<and> bcast [3] [4] = None"
  using bcast_is_broadcasting [of "[3, 1]" "[4]"] bcast_is_broadcasting [of "[3]" "[4]"]
  by (auto simp: broadcast_def from_right_def less_Suc_eq numeral_2_eq_2)

text \<open>A random permutation is one: whatever the seed, the values \<open>tfb_randperm\<close> makes a tensor of are the numbers
  below \<open>n\<close>, each once, in some order, and the next draw is another one.\<close>

theorem randperm_is_a_permutation:
  "\<exists>v t. tfb_randperm T n s = tfb_from_doubles T v [n] t \<and> mset v = mset (map (\<lambda>k. double_of_int T (int k)) [0..<nat n]) \<and>
     t = s\<lparr>s_seed_next := s_seed_next s + 1\<rparr>"
proof -
  let ?v = "map (\<lambda>k. double_of_int T (int k)) [0..<nat n]" and ?t = "s\<lparr>s_seed_next := s_seed_next s + 1\<rparr>"
  have "mset (shuffle (nat n - 1) x ?v) = mset ?v" for x by (cases "nat n") (simp_all add: mset_shuffle)
  moreover have "tfb_randperm T n s = tfb_from_doubles T (shuffle (nat n - 1)
      (s_seed_base s * 6364136223846793005 + (s_seed_next s + 1) * 1442695040888963407) ?v) [n] ?t"
    by (simp add: tfb_randperm_def next_seed_def act_defs)
  ultimately show ?thesis by blast
qed

end
