(* ===== verification/Clay_Array.thy ===== *)
theory Clay_Array
  imports Coco_Prelude
begin

text \<open>
  The memory of the layout library (modules/clay/clay.h): the arena every array is cut from, the size
  \<open>Clay_MinMemorySize\<close> asks the host for, and the bounded arrays with their range checks. The sizes of the
  structures are the compiler's: a parameter. A call of the host's error handler is an entry of a log.
\<close>

section \<open>Errors\<close>

datatype clay_error =
    CLAY_ERROR_TYPE_TEXT_MEASUREMENT_FUNCTION_NOT_PROVIDED
  | CLAY_ERROR_TYPE_ARENA_CAPACITY_EXCEEDED
  | CLAY_ERROR_TYPE_ELEMENTS_CAPACITY_EXCEEDED
  | CLAY_ERROR_TYPE_TEXT_MEASUREMENT_CAPACITY_EXCEEDED
  | CLAY_ERROR_TYPE_DUPLICATE_ID
  | CLAY_ERROR_TYPE_FLOATING_CONTAINER_PARENT_NOT_FOUND
  | CLAY_ERROR_TYPE_PERCENTAGE_OVER_1
  | CLAY_ERROR_TYPE_INTERNAL_ERROR

type_synonym clay_log = "clay_error list"

section \<open>Arrays\<close>

text \<open>
  What \<open>CLAY__ARRAY_DEFINE\<close> makes: the cells of \<open>internalArray\<close>, as many as the capacity, of which the first
  \<open>length\<close> count. A cell keeps what it held when the length shrinks. \<open>None\<close> for a pointer is the address of
  the type's default value.
\<close>

record 'a carray =
  ca_length :: int
  ca_cells :: "'a list"

abbreviation ca_capacity :: "'a carray \<Rightarrow> int" where
  "ca_capacity a \<equiv> int (length (ca_cells a))"

definition Clay__Array_RangeCheck :: "int \<Rightarrow> int \<Rightarrow> clay_log \<Rightarrow> bool \<times> clay_log" where
  "Clay__Array_RangeCheck index len E =
     (if index < len \<and> 0 \<le> index then (True, E) else (False, E @ [CLAY_ERROR_TYPE_INTERNAL_ERROR]))"

definition Clay__Array_AddCapacityCheck :: "int \<Rightarrow> int \<Rightarrow> clay_log \<Rightarrow> bool \<times> clay_log" where
  "Clay__Array_AddCapacityCheck len cap E =
     (if len < cap then (True, E) else (False, E @ [CLAY_ERROR_TYPE_INTERNAL_ERROR]))"

definition Array_Get :: "'a carray \<Rightarrow> int \<Rightarrow> clay_log \<Rightarrow> nat option \<times> clay_log" where
  "Array_Get a index E =
     (case Clay__Array_RangeCheck index (ca_length a) E of
        (True, E) \<Rightarrow> (Some (nat index), E)
      | (False, E) \<Rightarrow> (None, E))"

definition Array_GetValue :: "'a \<Rightarrow> 'a carray \<Rightarrow> int \<Rightarrow> clay_log \<Rightarrow> 'a \<times> clay_log" where
  "Array_GetValue dflt a index E =
     (case Clay__Array_RangeCheck index (ca_length a) E of
        (True, E) \<Rightarrow> (ca_cells a ! nat index, E)
      | (False, E) \<Rightarrow> (dflt, E))"

definition Array_Add :: "'a carray \<Rightarrow> 'a \<Rightarrow> clay_log \<Rightarrow> nat option \<times> 'a carray \<times> clay_log" where
  "Array_Add a item E =
     (case Clay__Array_AddCapacityCheck (ca_length a) (ca_capacity a) E of
        (True, E) \<Rightarrow> (Some (nat (ca_length a)),
           a\<lparr>ca_cells := (ca_cells a)[nat (ca_length a) := item], ca_length := ca_length a + 1\<rparr>, E)
      | (False, E) \<Rightarrow> (None, a, E))"

definition Array_Set :: "'a carray \<Rightarrow> int \<Rightarrow> 'a \<Rightarrow> clay_log \<Rightarrow> 'a carray \<times> clay_log" where
  "Array_Set a index item E =
     (case Clay__Array_RangeCheck index (ca_capacity a) E of
        (True, E) \<Rightarrow> (a\<lparr>ca_cells := (ca_cells a)[nat index := item],
           ca_length := if index < ca_length a then ca_length a else index + 1\<rparr>, E)
      | (False, E) \<Rightarrow> (a, E))"

definition Array_RemoveSwapback :: "'a \<Rightarrow> 'a carray \<Rightarrow> int \<Rightarrow> clay_log \<Rightarrow> 'a \<times> 'a carray \<times> clay_log" where
  "Array_RemoveSwapback dflt a index E =
     (case Clay__Array_RangeCheck index (ca_length a) E of
        (True, E) \<Rightarrow> (ca_cells a ! nat index,
           a\<lparr>ca_length := ca_length a - 1, ca_cells := (ca_cells a)[nat index := ca_cells a ! nat (ca_length a - 1)]\<rparr>, E)
      | (False, E) \<Rightarrow> (dflt, a, E))"

text \<open>The values that count, and that the length is one.\<close>

definition array_ok :: "'a carray \<Rightarrow> bool" where
  "array_ok a \<longleftrightarrow> 0 \<le> ca_length a \<and> ca_length a \<le> ca_capacity a"

definition values_of :: "'a carray \<Rightarrow> 'a list" where
  "values_of a = take (nat (ca_length a)) (ca_cells a)"

lemmas array_defs = Clay__Array_RangeCheck_def Clay__Array_AddCapacityCheck_def Array_Get_def Array_GetValue_def
  Array_Add_def Array_Set_def Array_RemoveSwapback_def

lemma length_values_of: "array_ok a \<Longrightarrow> length (values_of a) = nat (ca_length a)"
  by (auto simp: array_ok_def values_of_def)

lemma values_of_nth: "array_ok a \<Longrightarrow> i < nat (ca_length a) \<Longrightarrow> values_of a ! i = ca_cells a ! i"
  by (simp add: array_ok_def values_of_def)

lemma Array_Add_ok:
  assumes "array_ok a" and "ca_length a < ca_capacity a"
  shows "\<exists>b. Array_Add a x E = (Some (nat (ca_length a)), b, E) \<and> array_ok b \<and> values_of b = values_of a @ [x] \<and>
    ca_length b = ca_length a + 1 \<and> ca_capacity b = ca_capacity a"
proof -
  have n: "nat (ca_length a + 1) = Suc (nat (ca_length a))" and l: "nat (ca_length a) < length (ca_cells a)"
    using assms by (auto simp: array_ok_def)
  have "take (Suc (nat (ca_length a))) ((ca_cells a)[nat (ca_length a) := x]) = values_of a @ [x]"
    using l by (simp add: values_of_def take_Suc_conv_app_nth)
  then show ?thesis using assms l by (auto simp: array_defs array_ok_def values_of_def n)
qed

lemma Array_Get_in: "0 \<le> i \<Longrightarrow> i < ca_length a \<Longrightarrow> Array_Get a i E = (Some (nat i), E)"
  by (simp add: array_defs)

lemma Array_GetValue_in: "0 \<le> i \<Longrightarrow> i < ca_length a \<Longrightarrow> Array_GetValue d a i E = (ca_cells a ! nat i, E)"
  by (simp add: array_defs)

lemma values_of_update: "values_of (a\<lparr>ca_cells := (ca_cells a)[k := v]\<rparr>) = (values_of a)[k := v]"
  by (simp add: values_of_def take_update_swap)

lemma array_ok_update: "array_ok (a\<lparr>ca_cells := (ca_cells a)[k := v]\<rparr>) \<longleftrightarrow> array_ok a"
  by (simp add: array_ok_def)

text \<open>Removing by moving the last value into the gap loses no other value.\<close>

lemma Array_RemoveSwapback_ok:
  assumes "array_ok a" and "0 \<le> i" and "i < ca_length a"
  shows "\<exists>b. Array_RemoveSwapback d a i E = (values_of a ! nat i, b, E) \<and> array_ok b \<and>
    values_of b = (if i = ca_length a - 1 then butlast (values_of a)
      else (butlast (values_of a))[nat i := last (values_of a)])"
proof -
  let ?n = "nat (ca_length a)"
  have n: "?n = Suc (nat (ca_length a - 1))" "nat i < ?n" "?n \<le> length (ca_cells a)" and ne: "values_of a \<noteq> []"
    using assms by (auto simp: array_ok_def values_of_def)
  have bl: "butlast (values_of a) = take (?n - 1) (ca_cells a)"
    using n by (simp add: values_of_def butlast_take)
  have la: "last (values_of a) = ca_cells a ! (?n - 1)"
    using ne n by (simp add: values_of_def last_conv_nth)
  have "take (?n - 1) ((ca_cells a)[nat i := ca_cells a ! (?n - 1)]) =
      (if i = ca_length a - 1 then butlast (values_of a) else (butlast (values_of a))[nat i := last (values_of a)])"
    using assms n by (auto simp: bl la take_update_swap list_update_beyond)
  moreover have "nat (ca_length a - 1) = ?n - 1" "nat i < ?n" "array_ok (a\<lparr>ca_length := ca_length a - 1,
      ca_cells := (ca_cells a)[nat i := ca_cells a ! nat (ca_length a - 1)]\<rparr>)" using assms by (auto simp: array_ok_def)
  ultimately show ?thesis using assms(2,3) values_of_nth [OF assms(1)]
    by (simp add: array_defs) (simp add: values_of_def bl [unfolded values_of_def])
qed

end
