(* ===== verification/Clay_Arena.thy ===== *)
theory Clay_Arena
  imports Clay_Array
begin

text \<open>
  The arena of the layout library (modules/clay/clay.h): one block of memory from the host, cut into the context and
  some forty arrays. Those that last are cut once, those of a frame again in every frame from the same place.
  \<open>Clay_MinMemorySize\<close> cuts an imaginary arena to tell the host how much to bring.
\<close>

section \<open>Cutting the arena\<close>

text \<open>
  Offsets are natural numbers: the arrays of one context are shorter than \<open>2 ^ 38\<close> bytes together, so that no sum
  leaves 64 bits. An array's own size is computed in 32 bits.
\<close>

record clay_arena =
  ar_next :: nat
  ar_capacity :: nat
  ar_memory :: nat

definition Clay__Context_Allocate_Arena :: "nat \<Rightarrow> clay_arena \<Rightarrow> (nat \<times> clay_arena) option" where
  "Clay__Context_Allocate_Arena totalSizeBytes arena =
     (let nextAllocOffset = ar_memory arena mod 64
      in if nextAllocOffset + totalSizeBytes > ar_capacity arena then None
         else Some (ar_memory arena + nextAllocOffset, arena\<lparr>ar_next := nextAllocOffset + totalSizeBytes\<rparr>))"

definition aligned_after :: "nat \<Rightarrow> nat" where
  "aligned_after n = n + (64 - n mod 64)"

definition allocate_bytes :: "nat \<Rightarrow> clay_arena \<Rightarrow> nat option \<times> clay_arena \<times> clay_log" where
  "allocate_bytes totalSizeBytes arena =
     (let nextAllocOffset = aligned_after (ar_next arena)
      in if nextAllocOffset + totalSizeBytes \<le> ar_capacity arena
         then (Some (ar_memory arena + nextAllocOffset), arena\<lparr>ar_next := nextAllocOffset + totalSizeBytes\<rparr>, [])
         else (None, arena, [CLAY_ERROR_TYPE_ARENA_CAPACITY_EXCEEDED]))"

text \<open>\<open>capacity * itemSize\<close> is a product of 32-bit numbers.\<close>

definition Clay__Array_Allocate_Arena :: "int \<Rightarrow> nat \<Rightarrow> clay_arena \<Rightarrow> nat option \<times> clay_arena \<times> clay_log" where
  "Clay__Array_Allocate_Arena capacity itemSize = allocate_bytes (unat (word_of_int capacity * word_of_nat itemSize :: 32 word))"

text \<open>The array of warnings is cut by a function of its own, in which the product has the width of \<open>size_t\<close> and the size is
  that of a string.\<close>

definition Clay__WarningArray_Allocate_Arena :: "int \<Rightarrow> nat \<Rightarrow> clay_arena \<Rightarrow> nat option \<times> clay_arena \<times> clay_log" where
  "Clay__WarningArray_Allocate_Arena capacity stringSize = allocate_bytes (unat (word_of_int capacity * word_of_nat stringSize :: 64 word))"

section \<open>The arrays of a context\<close>

datatype clay_item =
    T_bool | T_int32 | T_char | T_ElementId | T_LayoutConfig | T_TextElementConfig | T_AspectRatioElementConfig
  | T_ImageElementConfig | T_FloatingElementConfig | T_CustomElementConfig | T_ClipElementConfig
  | T_BorderElementConfig | T_String | T_SharedElementConfig | T_RenderCommand | T_ElementConfig | T_WrappedTextLine
  | T_TextElementData | T_LayoutElement | T_ScrollContainerDataInternal | T_DebugElementData
  | T_LayoutElementHashMapItem | T_MeasuredWord | T_MeasureTextCacheItem | T_LayoutElementTreeNode
  | T_LayoutElementTreeRoot | T_Context

datatype clay_field =
    scrollContainerDatas | layoutElementsHashMapInternal | layoutElementsHashMap | measureTextHashMapInternal
  | measureTextHashMapInternalFreeList | measuredWordsFreeList | measureTextHashMap | measuredWords | pointerOverIds
  | debugElementData | layoutElementChildrenBuffer | layoutElements | warnings | layoutConfigs | elementConfigs
  | textElementConfigs | aspectRatioElementConfigs | imageElementConfigs | floatingElementConfigs
  | clipElementConfigs | customElementConfigs | borderElementConfigs | sharedElementConfigs
  | layoutElementIdStrings | wrappedTextLines | layoutElementTreeNodeArray1 | layoutElementTreeRoots
  | layoutElementChildren | openLayoutElementStack | textElementData | aspectRatioElementIndexes | renderCommands
  | treeNodeVisited | openClipElementStack | reusableElementIndexBuffer | layoutElementClipElementIds
  | dynamicStringData

type_synonym clay_sizes = "clay_item \<Rightarrow> nat"

text \<open>
  What a context keeps of its memory: the limits, the arena, where the arrays of a frame begin, the address of
  each array (\<open>None\<close> for NULL) and the calls of the error handler.
\<close>

record clay_memory =
  cm_maxElementCount :: int
  cm_maxMeasureTextCacheWordCount :: int
  cm_arena :: clay_arena
  cm_arenaResetOffset :: nat
  cm_at :: "clay_field \<Rightarrow> nat option"
  cm_log :: clay_log

type_synonym request = "clay_field \<times> int \<times> clay_item"

definition allocate_array :: "clay_sizes \<Rightarrow> request \<Rightarrow> clay_memory \<Rightarrow> clay_memory" where
  "allocate_array sz r m =
     (case r of (field, capacity, item) \<Rightarrow>
        (case (if field = warnings then Clay__WarningArray_Allocate_Arena else Clay__Array_Allocate_Arena)
                capacity (sz item) (cm_arena m) of
           (p, arena, E) \<Rightarrow> m\<lparr>cm_arena := arena, cm_at := (cm_at m)(field := p), cm_log := cm_log m @ E\<rparr>))"

definition persistent_arrays :: "int \<Rightarrow> int \<Rightarrow> request list" where
  "persistent_arrays maxElementCount maxMeasureTextCacheWordCount =
     [(scrollContainerDatas, 10, T_ScrollContainerDataInternal),
      (layoutElementsHashMapInternal, maxElementCount, T_LayoutElementHashMapItem),
      (layoutElementsHashMap, maxElementCount, T_int32),
      (measureTextHashMapInternal, maxElementCount, T_MeasureTextCacheItem),
      (measureTextHashMapInternalFreeList, maxElementCount, T_int32),
      (measuredWordsFreeList, maxMeasureTextCacheWordCount, T_int32),
      (measureTextHashMap, maxElementCount, T_int32),
      (measuredWords, maxMeasureTextCacheWordCount, T_MeasuredWord),
      (pointerOverIds, maxElementCount, T_ElementId),
      (debugElementData, maxElementCount, T_DebugElementData)]"

definition ephemeral_arrays :: "int \<Rightarrow> request list" where
  "ephemeral_arrays maxElementCount =
     [(layoutElementChildrenBuffer, maxElementCount, T_int32), (layoutElements, maxElementCount, T_LayoutElement),
      (warnings, 100, T_String), (layoutConfigs, maxElementCount, T_LayoutConfig),
      (elementConfigs, maxElementCount, T_ElementConfig), (textElementConfigs, maxElementCount, T_TextElementConfig),
      (aspectRatioElementConfigs, maxElementCount, T_AspectRatioElementConfig),
      (imageElementConfigs, maxElementCount, T_ImageElementConfig),
      (floatingElementConfigs, maxElementCount, T_FloatingElementConfig),
      (clipElementConfigs, maxElementCount, T_ClipElementConfig),
      (customElementConfigs, maxElementCount, T_CustomElementConfig),
      (borderElementConfigs, maxElementCount, T_BorderElementConfig),
      (sharedElementConfigs, maxElementCount, T_SharedElementConfig),
      (layoutElementIdStrings, maxElementCount, T_String), (wrappedTextLines, maxElementCount, T_WrappedTextLine),
      (layoutElementTreeNodeArray1, maxElementCount, T_LayoutElementTreeNode),
      (layoutElementTreeRoots, maxElementCount, T_LayoutElementTreeRoot),
      (layoutElementChildren, maxElementCount, T_int32), (openLayoutElementStack, maxElementCount, T_int32),
      (textElementData, maxElementCount, T_TextElementData), (aspectRatioElementIndexes, maxElementCount, T_int32),
      (renderCommands, maxElementCount, T_RenderCommand), (treeNodeVisited, maxElementCount, T_bool),
      (openClipElementStack, maxElementCount, T_int32), (reusableElementIndexBuffer, maxElementCount, T_int32),
      (layoutElementClipElementIds, maxElementCount, T_int32), (dynamicStringData, maxElementCount, T_char)]"

definition Clay__InitializePersistentMemory :: "clay_sizes \<Rightarrow> clay_memory \<Rightarrow> clay_memory" where
  "Clay__InitializePersistentMemory sz m =
     (let t = fold (allocate_array sz) (persistent_arrays (cm_maxElementCount m) (cm_maxMeasureTextCacheWordCount m)) m
      in t\<lparr>cm_arenaResetOffset := ar_next (cm_arena t)\<rparr>)"

definition Clay__InitializeEphemeralMemory :: "clay_sizes \<Rightarrow> clay_memory \<Rightarrow> clay_memory" where
  "Clay__InitializeEphemeralMemory sz m =
     fold (allocate_array sz) (ephemeral_arrays (cm_maxElementCount m)) (m\<lparr>cm_arena := (cm_arena m)\<lparr>ar_next := cm_arenaResetOffset m\<rparr>\<rparr>)"

text \<open>The limits of a new context: those of the current one, or the defaults.\<close>

record clay_limits =
  li_current :: "(int \<times> int) option"
  li_defaultMaxElementCount :: int
  li_defaultMaxMeasureTextWordCacheCount :: int

definition limits :: "clay_limits \<Rightarrow> int \<times> int" where
  "limits l = (case li_current l of Some c \<Rightarrow> c | None \<Rightarrow> (li_defaultMaxElementCount l, li_defaultMaxMeasureTextWordCacheCount l))"

definition Clay_SetMaxElementCount :: "int \<Rightarrow> clay_limits \<Rightarrow> clay_limits" where
  "Clay_SetMaxElementCount n l =
     (case li_current l of
        Some (_, w) \<Rightarrow> l\<lparr>li_current := Some (n, w)\<rparr>
      | None \<Rightarrow> l\<lparr>li_defaultMaxElementCount := n, li_defaultMaxMeasureTextWordCacheCount := n * 2\<rparr>)"

definition Clay_SetMaxMeasureTextCacheWordCount :: "int \<Rightarrow> clay_limits \<Rightarrow> clay_limits" where
  "Clay_SetMaxMeasureTextCacheWordCount n l =
     (case li_current l of
        Some (c, _) \<Rightarrow> l\<lparr>li_current := Some (c, n)\<rparr>
      | None \<Rightarrow> l\<lparr>li_defaultMaxMeasureTextWordCacheCount := n\<rparr>)"

definition new_memory :: "clay_limits \<Rightarrow> clay_arena \<Rightarrow> clay_memory" where
  "new_memory l arena = \<lparr>cm_maxElementCount = fst (limits l), cm_maxMeasureTextCacheWordCount = snd (limits l), cm_arena = arena,
     cm_arenaResetOffset = 0, cm_at = (\<lambda>_. None), cm_log = []\<rparr>"

text \<open>The imaginary context has its arena at the address 0 with the largest capacity there is.\<close>

definition SIZE_MAX :: nat where "SIZE_MAX = 2 ^ 64 - 1"

definition fake_memory :: "clay_sizes \<Rightarrow> clay_limits \<Rightarrow> clay_memory" where
  "fake_memory sz l =
     (let arena = \<lparr>ar_next = 0, ar_capacity = SIZE_MAX, ar_memory = 0\<rparr>;
          arena = (case Clay__Context_Allocate_Arena (sz T_Context) arena of Some (_, a) \<Rightarrow> a | None \<Rightarrow> arena)
      in Clay__InitializeEphemeralMemory sz (Clay__InitializePersistentMemory sz (new_memory l arena)))"

definition Clay_MinMemorySize :: "clay_sizes \<Rightarrow> clay_limits \<Rightarrow> 32 word" where
  "Clay_MinMemorySize sz l = word_of_nat (ar_next (cm_arena (fake_memory sz l))) + 128"

definition Clay_CreateArenaWithCapacityAndMemory :: "nat \<Rightarrow> nat \<Rightarrow> clay_arena" where
  "Clay_CreateArenaWithCapacityAndMemory capacity memory = \<lparr>ar_next = 0, ar_capacity = capacity, ar_memory = memory\<rparr>"

text \<open>\<open>Clay_Initialize\<close>: the address of the context, and its memory. What it puts into the two hash tables is said where
  they are modelled.\<close>

definition Clay_Initialize :: "clay_sizes \<Rightarrow> clay_limits \<Rightarrow> clay_arena \<Rightarrow> (nat \<times> clay_memory) option" where
  "Clay_Initialize sz l arena =
     (case Clay__Context_Allocate_Arena (sz T_Context) arena of
        None \<Rightarrow> None
      | Some (p, arena) \<Rightarrow>
          Some (p, Clay__InitializeEphemeralMemory sz (Clay__InitializePersistentMemory sz (new_memory l arena))))"

section \<open>The arrays lie apart\<close>

lemma aligned_after_mono: "m \<le> n \<Longrightarrow> aligned_after m \<le> aligned_after n"
proof -
  have a: "aligned_after k = 64 * (k div 64 + 1)" for k
  proof -
    have "k mod 64 \<le> 64" by (simp add: less_imp_le)
    then have "64 * (k div 64) + 64 = 64 * (k div 64) + (k mod 64 + (64 - k mod 64))" by simp
    also have "\<dots> = k + (64 - k mod 64)" by (metis add.assoc mult_div_mod_eq)
    finally show ?thesis by (simp add: aligned_after_def)
  qed
  show "m \<le> n \<Longrightarrow> ?thesis" by (simp add: a div_le_mono)
qed

lemma aligned_after_shift: "aligned_after (n + 64) = aligned_after n + 64"
  by (simp add: aligned_after_def)

lemma aligned_after_greater: "n < aligned_after n"
  by (simp add: aligned_after_def)

text \<open>The bytes a request takes of the arena.\<close>

definition request_bytes :: "clay_sizes \<Rightarrow> request \<Rightarrow> nat" where
  "request_bytes sz r = (case r of (field, capacity, item) \<Rightarrow>
     if field = warnings then unat (word_of_int capacity * word_of_nat (sz item) :: 64 word)
     else unat (word_of_int capacity * word_of_nat (sz item) :: 32 word))"

text \<open>Where the arena is next after some requests from an offset, when all of them are met; and what they take.\<close>

definition next_after :: "clay_sizes \<Rightarrow> request list \<Rightarrow> nat \<Rightarrow> nat" where
  "next_after sz rs n = fold (\<lambda>r n. aligned_after n + request_bytes sz r) rs n"

lemma next_after_simps [simp]:
  "next_after sz [] n = n" "next_after sz (r # rs) n = next_after sz rs (aligned_after n + request_bytes sz r)"
  by (simp_all add: next_after_def)

lemma next_after_ge: "n \<le> next_after sz rs n"
proof (induction rs arbitrary: n)
  case (Cons r rs)
  have "n \<le> aligned_after n + request_bytes sz r" using aligned_after_greater [of n] by simp
  also have "\<dots> \<le> next_after sz rs (aligned_after n + request_bytes sz r)" by (rule Cons.IH)
  finally show ?case by simp
qed simp

lemma next_after_near: "m \<le> n \<Longrightarrow> n \<le> m + 64 \<Longrightarrow> next_after sz rs m \<le> next_after sz rs n \<and> next_after sz rs n \<le> next_after sz rs m + 64"
proof (induction rs arbitrary: m n)
  case (Cons r rs)
  have "aligned_after m \<le> aligned_after n" "aligned_after n \<le> aligned_after m + 64"
    using Cons.prems aligned_after_mono [of n "m + 64"] by (auto simp: aligned_after_mono aligned_after_shift)
  then show ?case using Cons.IH by simp
qed simp

lemma allocate_array_fits:
  assumes "aligned_after (ar_next (cm_arena m)) + request_bytes sz (f, c, i) \<le> ar_capacity (cm_arena m)"
  shows "allocate_array sz (f, c, i) m =
    m\<lparr>cm_arena := (cm_arena m)\<lparr>ar_next := aligned_after (ar_next (cm_arena m)) + request_bytes sz (f, c, i)\<rparr>,
      cm_at := (cm_at m)(f := Some (ar_memory (cm_arena m) + aligned_after (ar_next (cm_arena m))))\<rparr>"
  using assms by (cases "f = warnings") (simp_all add: allocate_array_def request_bytes_def allocate_bytes_def
    Clay__Array_Allocate_Arena_def Clay__WarningArray_Allocate_Arena_def Let_def)

text \<open>
  The arrays of \<open>fs\<close> lie in order and apart between the addresses \<open>lo\<close> and \<open>hi\<close>, each of its bytes.
\<close>

primrec laid_out :: "(clay_field \<Rightarrow> nat option) \<Rightarrow> nat \<Rightarrow> (clay_field \<times> nat) list \<Rightarrow> nat \<Rightarrow> bool" where
  "laid_out at lo [] hi \<longleftrightarrow> lo \<le> hi"
| "laid_out at lo (f # fs) hi \<longleftrightarrow> (\<exists>p. at (fst f) = Some p \<and> lo \<le> p \<and> laid_out at (p + snd f) fs hi)"

lemma laid_out_cong: "(\<And>f. f \<in> fst ` set fs \<Longrightarrow> at f = at' f) \<Longrightarrow> laid_out at lo fs hi = laid_out at' lo fs hi"
  by (induction fs arbitrary: lo) auto

lemma laid_out_append: "laid_out at lo fs mid \<Longrightarrow> laid_out at mid gs hi \<Longrightarrow> laid_out at lo (fs @ gs) hi"
proof (induction fs arbitrary: lo)
  case Nil
  then show ?case by (cases gs) (auto intro: order_trans)
next
  case (Cons f fs)
  then show ?case by auto
qed

definition blocks :: "clay_sizes \<Rightarrow> request list \<Rightarrow> (clay_field \<times> nat) list" where
  "blocks sz rs = map (\<lambda>r. (fst r, request_bytes sz r)) rs"

lemma blocks_simps [simp]: "blocks sz [] = []" "blocks sz (r # rs) = (fst r, request_bytes sz r) # blocks sz rs"
  "blocks sz (rs @ qs) = blocks sz rs @ blocks sz qs" "fst ` set (blocks sz rs) = fst ` set rs"
  by (auto simp: blocks_def image_image)

lemma allocate_arrays_fit:
  assumes "next_after sz rs (ar_next (cm_arena m)) \<le> ar_capacity (cm_arena m)" and "distinct (map fst rs)"
  shows "\<exists>at. fold (allocate_array sz) rs m = m\<lparr>cm_arena := (cm_arena m)\<lparr>ar_next := next_after sz rs (ar_next (cm_arena m))\<rparr>, cm_at := at\<rparr> \<and>
    (\<forall>f. f \<notin> fst ` set rs \<longrightarrow> at f = cm_at m f) \<and>
    laid_out at (ar_memory (cm_arena m) + ar_next (cm_arena m)) (blocks sz rs)
      (ar_memory (cm_arena m) + next_after sz rs (ar_next (cm_arena m)))"
  using assms
proof (induction rs arbitrary: m)
  case Nil
  then show ?case by (intro exI [of _ "cm_at m"]) simp
next
  case (Cons r rs)
  obtain f c i where r: "r = (f, c, i)" by (cases r)
  let ?n = "ar_next (cm_arena m)" and ?b = "request_bytes sz r"
  have fits: "aligned_after ?n + request_bytes sz (f, c, i) \<le> ar_capacity (cm_arena m)"
    using Cons.prems(1) next_after_ge [of "aligned_after ?n + ?b" sz rs] r by simp
  let ?m = "allocate_array sz r m"
  note step = allocate_array_fits [OF fits]
  have "\<exists>at. fold (allocate_array sz) rs ?m = ?m\<lparr>cm_arena := (cm_arena ?m)\<lparr>ar_next := next_after sz rs (ar_next (cm_arena ?m))\<rparr>, cm_at := at\<rparr> \<and>
    (\<forall>f. f \<notin> fst ` set rs \<longrightarrow> at f = cm_at ?m f) \<and>
    laid_out at (ar_memory (cm_arena ?m) + ar_next (cm_arena ?m)) (blocks sz rs)
      (ar_memory (cm_arena ?m) + next_after sz rs (ar_next (cm_arena ?m)))"
    using Cons.prems by (intro Cons.IH) (simp_all add: step r)
  then obtain at where "fold (allocate_array sz) rs ?m = ?m\<lparr>cm_arena := (cm_arena ?m)\<lparr>ar_next := next_after sz rs (ar_next (cm_arena ?m))\<rparr>, cm_at := at\<rparr>"
    "\<And>f. f \<notin> fst ` set rs \<Longrightarrow> at f = cm_at ?m f"
    "laid_out at (ar_memory (cm_arena ?m) + ar_next (cm_arena ?m)) (blocks sz rs)
      (ar_memory (cm_arena ?m) + next_after sz rs (ar_next (cm_arena ?m)))" by blast
  moreover have "f \<notin> fst ` set rs" using Cons.prems(2) r by auto
  ultimately show ?case using Cons.prems aligned_after_greater [of ?n]
    by (intro exI [of _ at]) (auto simp: step r add.assoc)
qed

lemma distinct_arrays: "distinct (map fst (persistent_arrays n w @ ephemeral_arrays n'))"
  by (simp add: persistent_arrays_def ephemeral_arrays_def)

text \<open>Both groups of arrays, from the end of the context.\<close>

lemma initialize_fits:
  fixes l sz arena
  defines "rs \<equiv> persistent_arrays (fst (limits l)) (snd (limits l)) @ ephemeral_arrays (fst (limits l))"
    and "m \<equiv> Clay__InitializeEphemeralMemory sz (Clay__InitializePersistentMemory sz (new_memory l arena))"
  assumes "next_after sz rs (ar_next arena) \<le> ar_capacity arena"
  shows "cm_log m = [] \<and> ar_next (cm_arena m) = next_after sz rs (ar_next arena) \<and>
    laid_out (cm_at m) (ar_memory arena + ar_next arena) (blocks sz rs) (ar_memory arena + next_after sz rs (ar_next arena))"
proof -
  let ?ps = "persistent_arrays (fst (limits l)) (snd (limits l))" and ?es = "ephemeral_arrays (fst (limits l))"
  let ?n = "next_after sz ?ps (ar_next arena)"
  have n: "next_after sz rs (ar_next arena) = next_after sz ?es ?n" by (simp add: rs_def next_after_def)
  have d: "distinct (map fst ?ps)" "distinct (map fst ?es)" and dis: "fst ` set ?ps \<inter> fst ` set ?es = {}"
    using distinct_arrays [of "fst (limits l)" "snd (limits l)" "fst (limits l)"] by (auto simp flip: set_map)
  have "?n \<le> ar_capacity arena" using assms(3) next_after_ge [of ?n sz ?es] n by simp
  then obtain at where p: "fold (allocate_array sz) ?ps (new_memory l arena) =
        (new_memory l arena)\<lparr>cm_arena := arena\<lparr>ar_next := ?n\<rparr>, cm_at := at\<rparr>"
    and pl: "laid_out at (ar_memory arena + ar_next arena) (blocks sz ?ps) (ar_memory arena + ?n)"
    using allocate_arrays_fit [of sz ?ps "new_memory l arena"] d(1) by (auto simp: new_memory_def)
  define m1 where "m1 = (Clay__InitializePersistentMemory sz (new_memory l arena))"
  have m1: "m1 = (new_memory l arena)\<lparr>cm_arena := arena\<lparr>ar_next := ?n\<rparr>, cm_at := at, cm_arenaResetOffset := ?n\<rparr>"
    unfolding m1_def Clay__InitializePersistentMemory_def using p by (simp add: new_memory_def)
  obtain at' where e: "m = m1\<lparr>cm_arena := arena\<lparr>ar_next := next_after sz ?es ?n\<rparr>, cm_at := at'\<rparr>"
    and keep: "\<And>f. f \<notin> fst ` set ?es \<Longrightarrow> at' f = at f"
    and el: "laid_out at' (ar_memory arena + ?n) (blocks sz ?es) (ar_memory arena + next_after sz ?es ?n)"
    using allocate_arrays_fit [of sz ?es m1] d(2) assms(3) n
    unfolding m_def m1_def [symmetric] Clay__InitializeEphemeralMemory_def unfolding m1 by (auto simp: new_memory_def)
  have "laid_out at' (ar_memory arena + ar_next arena) (blocks sz ?ps) (ar_memory arena + ?n)"
    using pl keep dis by (subst laid_out_cong [of _ at' at]) auto
  from laid_out_append [OF this el] show ?thesis unfolding n by (simp add: e m1 rs_def new_memory_def)
qed

text \<open>
  The arena the host brings is at any address, so that its context begins at most 63 bytes further in than that of the
  imaginary one; the 128 bytes on top cover what that moves the arrays by.
\<close>

lemma min_memory_enough:
  fixes l sz
  defines "rs \<equiv> persistent_arrays (fst (limits l)) (snd (limits l)) @ ephemeral_arrays (fst (limits l))"
  assumes "next_after sz rs (sz T_Context) + 128 < 2 ^ 32"
  shows "\<exists>p m. Clay_Initialize sz l (Clay_CreateArenaWithCapacityAndMemory (unat (Clay_MinMemorySize sz l)) addr) = Some (p, m) \<and>
    cm_log m = [] \<and> addr \<le> p \<and> laid_out (cm_at m) (p + sz T_Context) (blocks sz rs) (addr + unat (Clay_MinMemorySize sz l))"
proof -
  let ?c = "sz T_Context" and ?n = "next_after sz rs (sz T_Context)"
  let ?fake = "\<lparr>ar_next = ?c, ar_capacity = SIZE_MAX, ar_memory = 0\<rparr>"
  have c: "?c \<le> ?n" by (rule next_after_ge)
  have "fake_memory sz l = Clay__InitializeEphemeralMemory sz (Clay__InitializePersistentMemory sz (new_memory l ?fake))"
    using c assms(2) by (simp add: fake_memory_def Clay__Context_Allocate_Arena_def Let_def SIZE_MAX_def)
  moreover have "next_after sz rs (ar_next ?fake) \<le> ar_capacity ?fake" using assms(2) by (simp add: SIZE_MAX_def)
  ultimately have "ar_next (cm_arena (fake_memory sz l)) = ?n"
    using initialize_fits [of sz l ?fake] by (simp add: rs_def)
  then have min: "unat (Clay_MinMemorySize sz l) = ?n + 128"
    using assms(2) by (simp add: Clay_MinMemorySize_def unat_word_ariths unsigned_of_nat take_bit_nat_eq_self)
  let ?r = "addr mod 64"
  define arena where "arena = \<lparr>ar_next = ?r + ?c, ar_capacity = ?n + 128, ar_memory = addr\<rparr>"
  have "Clay__Context_Allocate_Arena ?c (Clay_CreateArenaWithCapacityAndMemory (?n + 128) addr) = Some (addr + ?r, arena)"
    using c mod_less_divisor [of 64 addr] by (simp add: Clay__Context_Allocate_Arena_def Clay_CreateArenaWithCapacityAndMemory_def arena_def Let_def)
  moreover have "?r + ?c \<le> ?c + 64" by (simp add: less_imp_le)
  then have near: "next_after sz rs (?r + ?c) \<le> ?n + 64" using next_after_near [of ?c "?r + ?c" sz rs] by simp
  define m where "m = Clay__InitializeEphemeralMemory sz (Clay__InitializePersistentMemory sz (new_memory l arena))"
  have "cm_log m = []" "laid_out (cm_at m) (addr + (?r + ?c)) (blocks sz rs) (addr + next_after sz rs (?r + ?c))"
    using initialize_fits [of sz l arena] near by (simp_all add: m_def rs_def arena_def)
  moreover have "laid_out (cm_at m) lo fs hi' \<Longrightarrow> hi' \<le> hi \<Longrightarrow> laid_out (cm_at m) lo fs hi" for lo fs hi hi'
    by (induction fs arbitrary: lo) auto
  ultimately show ?thesis using near
    by (intro exI [of _ "addr + ?r"] exI [of _ m]) (simp add: min Clay_Initialize_def m_def add.assoc)
qed

text \<open>An array has room for every element it may be given, unless the product of 32-bit numbers wraps.\<close>

lemma unat_product:
  assumes "0 \<le> c" and "nat c * k < 2 ^ LENGTH('b)"
  shows "unat (word_of_int c * word_of_nat k :: 'b :: len word) = nat c * k"
proof -
  have "(word_of_int c * word_of_nat k :: 'b word) = word_of_nat (nat c * k)" using assms(1) by simp
  then show ?thesis using assms(2) by (simp add: unsigned_of_nat take_bit_nat_eq_self del: of_nat_mult)
qed

lemma request_bytes_exact: "0 \<le> c \<Longrightarrow> nat c * sz i < 2 ^ 32 \<Longrightarrow> request_bytes sz (f, c, i) = nat c * sz i"
  by (simp add: request_bytes_def unat_product)

end
