(* ===== verification/Clay_Hash.thy ===== *)
theory Clay_Hash
  imports Clay_Array
begin

text \<open>
  Identifiers and comparisons of the layout library (modules/clay/clay.h): the hashes of numbers, strings and texts,
  in their three builds (SSE2, NEON and plain C), and the comparison of memory in its three builds.
\<close>

section \<open>Strings and identifiers\<close>

text \<open>
  A string has a length, the address of its characters and what is there; a literal is marked, because its address
  stands for its contents.
\<close>

record clay_string =
  st_static :: bool
  st_at :: "64 word"
  st_chars :: "byte list"

record clay_element_id =
  eid_id :: "32 word"
  eid_offset :: "32 word"
  eid_baseId :: "32 word"
  eid_stringId :: clay_string

definition CLAY__STRING_DEFAULT :: clay_string where
  "CLAY__STRING_DEFAULT = \<lparr>st_static = False, st_at = 0, st_chars = []\<rparr>"

section \<open>Hashes\<close>

text \<open>One step of the hash: add, then mix.\<close>

definition stir :: "'a :: len word \<Rightarrow> 'a word \<Rightarrow> 'a word" where
  "stir x hash =
     (let hash = hash + x;
          hash = hash + push_bit 10 hash
      in hash XOR drop_bit 6 hash)"

definition settle :: "32 word \<Rightarrow> 32 word" where
  "settle hash =
     (let hash = hash + push_bit 3 hash;
          hash = hash XOR drop_bit 11 hash
      in hash + push_bit 15 hash)"

definition Clay__HashNumber :: "32 word \<Rightarrow> 32 word \<Rightarrow> clay_element_id" where
  "Clay__HashNumber offset seed =
     \<lparr>eid_id = settle (stir (offset + 48) seed) + 1, eid_offset = offset, eid_baseId = seed, eid_stringId = CLAY__STRING_DEFAULT\<rparr>"

text \<open>Whether a \<open>char\<close> has a sign is the compiler's choice.\<close>

definition Clay__HashString :: "bool \<Rightarrow> clay_string \<Rightarrow> 32 word \<Rightarrow> 32 word \<Rightarrow> clay_element_id" where
  "Clay__HashString char_signed key offset seed =
     (let base = fold (\<lambda>c. stir (if char_signed then scast c else ucast c)) (st_chars key) seed;
          hash = stir offset base
      in \<lparr>eid_id = settle hash + 1, eid_offset = offset, eid_baseId = settle base + 1, eid_stringId = key\<rparr>)"

text \<open>Two lanes of 64 bits, as both instruction sets have them.\<close>

type_synonym lanes = "64 word \<times> 64 word"

definition lanes_add :: "lanes \<Rightarrow> lanes \<Rightarrow> lanes" where
  "lanes_add a b = (fst a + fst b, snd a + snd b)"

definition lanes_xor :: "lanes \<Rightarrow> lanes \<Rightarrow> lanes" where
  "lanes_xor a b = (fst a XOR fst b, snd a XOR snd b)"

definition Clay__SIMDRotateLeft :: "lanes \<Rightarrow> nat \<Rightarrow> lanes" where
  "Clay__SIMDRotateLeft x r =
     (push_bit r (fst x) OR drop_bit (64 - r) (fst x), push_bit r (snd x) OR drop_bit (64 - r) (snd x))"

definition Clay__SIMDARXMix :: "lanes \<Rightarrow> lanes \<Rightarrow> lanes \<times> lanes" where
  "Clay__SIMDARXMix a b =
     (let a = lanes_add a b
      in (a, lanes_xor (Clay__SIMDRotateLeft b 17) a))"

definition load64 :: "byte list \<Rightarrow> 64 word" where
  "load64 bs = fold (\<lambda>b w. push_bit 8 w OR ucast b) (rev (take 8 bs)) 0"

definition load_lanes :: "byte list \<Rightarrow> lanes" where
  "load_lanes bs = (load64 bs, load64 (drop 8 bs))"

text \<open>The four registers.\<close>

type_synonym registers = "lanes \<times> lanes \<times> lanes \<times> lanes"

definition hash_registers :: registers where
  "hash_registers = ((0x6a09e667f3bcc908, 0x6a09e667f3bcc908), (0xbb67ae8584caa73b, 0xbb67ae8584caa73b),
     (0x3c6ef372fe94f82b, 0x3c6ef372fe94f82b), (0xa54ff53a5f1d36f1, 0xa54ff53a5f1d36f1))"

definition hash_round :: "registers \<Rightarrow> registers" where
  "hash_round v =
     (case v of (v0, v1, v2, v3) \<Rightarrow>
        let (v0, v1) = Clay__SIMDARXMix v0 v1; (v2, v3) = Clay__SIMDARXMix v2 v3
        in (lanes_add v0 v2, lanes_add v1 v3, v2, v3))"

definition hash_message :: "lanes \<Rightarrow> registers \<Rightarrow> registers" where
  "hash_message msg v = (case v of (v0, v1, v2, v3) \<Rightarrow> hash_round (lanes_xor v0 msg, v1, v2, v3))"

definition hash_result :: "registers \<Rightarrow> 64 word" where
  "hash_result v =
     (case hash_round v of (v0, v1, _, _) \<Rightarrow>
        let r = lanes_add v0 v1 in fst r XOR snd r)"

text \<open>SSE2 takes 16 bytes at a time, the rest in a buffer of 16 zeros.\<close>

fun hash_loop_sse2 :: "byte list \<Rightarrow> registers \<Rightarrow> registers" where
  "hash_loop_sse2 data v =
     (if data = [] then v
      else if 16 \<le> length data then hash_loop_sse2 (drop 16 data) (hash_message (load_lanes (take 16 data)) v)
      else hash_message (load_lanes (data @ replicate (16 - length data) 0)) v)"

text \<open>NEON takes 16 bytes while there are more than 16, then 8 while there are more than 8, the rest in a buffer of 8
  zeros; the upper lane of a short message is 0.\<close>

fun hash_loop_neon :: "byte list \<Rightarrow> registers \<Rightarrow> registers" where
  "hash_loop_neon data v =
     (if data = [] then v
      else if 16 < length data then hash_loop_neon (drop 16 data) (hash_message (load_lanes (take 16 data)) v)
      else if 8 < length data then hash_loop_neon (drop 8 data) (hash_message (load64 data, 0) v)
      else hash_message (load64 (data @ replicate (8 - length data) 0), 0) v)"

datatype simd = Sse2 | Neon | No_simd

definition Clay__HashData :: "simd \<Rightarrow> byte list \<Rightarrow> 64 word" where
  "Clay__HashData build data =
     (case build of
        Sse2 \<Rightarrow> hash_result (hash_loop_sse2 data hash_registers)
      | Neon \<Rightarrow> hash_result (hash_loop_neon data hash_registers)
      | No_simd \<Rightarrow> fold (\<lambda>b. stir (ucast b)) data 0)"

record clay_text_config =
  tc_fontId :: "16 word"
  tc_fontSize :: "16 word"
  tc_letterSpacing :: "16 word"
  tc_lineHeight :: "16 word"

definition UINT32_MAX :: "64 word" where "UINT32_MAX = 0xFFFFFFFF"

definition Clay__HashStringContentsWithConfig :: "simd \<Rightarrow> clay_string \<Rightarrow> clay_text_config \<Rightarrow> 32 word" where
  "Clay__HashStringContentsWithConfig build text config =
     (let hash = (if st_static text then stir (word_of_nat (length (st_chars text))) (stir (ucast (st_at text)) 0)
                  else ucast (Clay__HashData build (st_chars text) mod UINT32_MAX))
      in settle (stir (ucast (tc_letterSpacing config)) (stir (ucast (tc_fontSize config)) (stir (ucast (tc_fontId config)) hash))) + 1)"

text \<open>
  The result of a hash is increased by 1 to keep 0 free as the null identifier. In 32 bits it does not: this
  number is hashed to the null identifier.
\<close>

lemma hash_can_be_null: "eid_id (Clay__HashNumber 3463751631 0) = 0"
  by code_simp

section \<open>Comparing memory\<close>

definition cmpeq_epi8 :: "byte list \<Rightarrow> byte list \<Rightarrow> byte list" where
  "cmpeq_epi8 a b = map2 (\<lambda>x y. if x = y then 0xFF else 0) (take 16 a) (take 16 b)"

text \<open>One bit for the sign of each byte.\<close>

definition movemask_epi8 :: "byte list \<Rightarrow> 32 word" where
  "movemask_epi8 m = fold (\<lambda>i w. if bit (m ! i) 7 then set_bit i w else w) [0..<16] 0"

definition load32 :: "byte list \<Rightarrow> 32 word" where
  "load32 bs = fold (\<lambda>b w. push_bit 8 w OR ucast b) (rev (take 4 bs)) 0"

definition lanes32 :: "byte list \<Rightarrow> 32 word list" where
  "lanes32 m = map load32 [m, drop 4 m, drop 8 m, drop 12 m]"

definition minvq_u32 :: "32 word list \<Rightarrow> 32 word" where
  "minvq_u32 ws = foldr min ws 0xFFFFFFFF"

primrec memcmp_bytes :: "byte list \<Rightarrow> byte list \<Rightarrow> nat \<Rightarrow> bool" where
  "memcmp_bytes s1 s2 0 = True"
| "memcmp_bytes s1 s2 (Suc n) = (if hd s1 \<noteq> hd s2 then False else memcmp_bytes (tl s1) (tl s2) n)"

function memcmp_wide :: "(byte list \<Rightarrow> byte list \<Rightarrow> bool) \<Rightarrow> byte list \<Rightarrow> byte list \<Rightarrow> nat \<Rightarrow> bool" where
  "memcmp_wide differ s1 s2 n =
     (if 16 \<le> n
      then if differ s1 s2 then False else memcmp_wide differ (drop 16 s1) (drop 16 s2) (n - 16)
      else memcmp_bytes s1 s2 n)"
  by pat_completeness auto
termination memcmp_wide
  by (relation "measure (\<lambda>(_, _, _, n). n)") auto

declare memcmp_wide.simps [simp del]

definition Clay__MemCmp :: "simd \<Rightarrow> byte list \<Rightarrow> byte list \<Rightarrow> nat \<Rightarrow> bool" where
  "Clay__MemCmp build s1 s2 n =
     (case build of
        Sse2 \<Rightarrow> memcmp_wide (\<lambda>a b. movemask_epi8 (cmpeq_epi8 a b) \<noteq> 0xFFFF) s1 s2 n
      | Neon \<Rightarrow> memcmp_wide (\<lambda>a b. minvq_u32 (lanes32 (cmpeq_epi8 a b)) \<noteq> 0xFFFFFFFF) s1 s2 n
      | No_simd \<Rightarrow> list_all (\<lambda>i. s1 ! i = s2 ! i) [0..<n])"

text \<open>All three builds decide whether the first bytes are the same.\<close>

lemma memcmp_bytes_iff: "n \<le> length s1 \<Longrightarrow> n \<le> length s2 \<Longrightarrow> memcmp_bytes s1 s2 n \<longleftrightarrow> take n s1 = take n s2"
proof (induction n arbitrary: s1 s2)
  case (Suc n)
  then show ?case by (cases s1; cases s2) auto
qed simp

lemma memcmp_wide_iff:
  assumes "\<And>a b. 16 \<le> length a \<Longrightarrow> 16 \<le> length b \<Longrightarrow> differ a b \<longleftrightarrow> take 16 a \<noteq> take 16 b"
    and "n \<le> length s1" and "n \<le> length s2"
  shows "memcmp_wide differ s1 s2 n \<longleftrightarrow> take n s1 = take n s2"
  using assms(2,3)
proof (induction n arbitrary: s1 s2 rule: less_induct)
  case (less n)
  show ?case
  proof (cases "16 \<le> n")
    case True
    have t: "take n s = take 16 s @ take (n - 16) (drop 16 s)" for s :: "byte list"
      using True take_add [of 16 "n - 16" s] by simp
    have l: "length (take 16 s1) = length (take 16 s2)" using True less.prems by simp
    have "memcmp_wide differ (drop 16 s1) (drop 16 s2) (n - 16) \<longleftrightarrow> take (n - 16) (drop 16 s1) = take (n - 16) (drop 16 s2)"
      using True less.prems by (intro less.IH) auto
    then show ?thesis using True less.prems assms(1) [of s1 s2] l by (subst memcmp_wide.simps) (auto simp: t)
  next
    case False
    then show ?thesis using less.prems memcmp_bytes_iff [of n s1 s2] by (subst memcmp_wide.simps) simp
  qed
qed

definition equal_mask :: "bool list \<Rightarrow> byte list" where
  "equal_mask es = map (\<lambda>e. if e then 0xFF else 0) es"

lemma cmpeq_epi8_mask: "cmpeq_epi8 a b = equal_mask (map2 (=) (take 16 a) (take 16 b))"
  by (auto simp: cmpeq_epi8_def equal_mask_def)

lemma bit_fold_set_bit:
  "bit (fold (\<lambda>i w. if P i then set_bit i w else w) ks (v :: 32 word)) k \<longleftrightarrow> bit v k \<or> (k < 32 \<and> k \<in> set ks \<and> P k)"
  by (induction ks arbitrary: v) (auto simp: bit_simps)

lemma movemask_all: "length es = 16 \<Longrightarrow> movemask_epi8 (equal_mask es) = 0xFFFF \<longleftrightarrow> list_all id es"
proof -
  assume l: "length es = 16"
  have "bit (if e then 0xFF else 0 :: byte) 7 \<longleftrightarrow> e" for e by (cases e) (simp_all add: bit_numeral_rec)
  then have b: "bit (movemask_epi8 (equal_mask es)) k \<longleftrightarrow> k < 16 \<and> es ! k" for k
  proof (cases "k < 16")
    case True
    then have "equal_mask es ! k = (if es ! k then 0xFF else 0)" using l by (simp add: equal_mask_def)
    then show ?thesis using True \<open>\<And>e. bit (if e then 0xFF else 0 :: byte) 7 \<longleftrightarrow> e\<close> [of "es ! k"]
      unfolding movemask_epi8_def bit_fold_set_bit by simp
  qed (simp add: movemask_epi8_def bit_fold_set_bit)
  have f: "bit (0xFFFF :: 32 word) k \<longleftrightarrow> k < 16" for k
  proof -
    have "bit (mask 16 :: 32 word) k \<longleftrightarrow> k < 16" by (auto simp: bit_mask_iff)
    then show ?thesis by (simp add: mask_eq_exp_minus_1)
  qed
  show "movemask_epi8 (equal_mask es) = 0xFFFF \<longleftrightarrow> list_all id es"
  proof -
    have "movemask_epi8 (equal_mask es) = 0xFFFF \<longleftrightarrow> (\<forall>n < 32. (n < 16 \<and> es ! n) = (n < 16))"
      unfolding bit_eq_iff [of "movemask_epi8 (equal_mask es)"] b f by simp
    also have "\<dots> \<longleftrightarrow> (\<forall>n < 16. es ! n)"
    proof safe
      fix n :: nat
      assume a: "\<forall>n < 32. (n < 16 \<and> es ! n) = (n < 16)" and n: "n < 16"
      have "n < 32" using n by simp
      with a n show "es ! n" by blast
    qed auto
    finally show ?thesis using l by (simp add: list_all_length)
  qed
qed

lemma load32_all: "length q = 4 \<Longrightarrow> load32 (equal_mask (q @ r)) = 0xFFFFFFFF \<longleftrightarrow> list_all id q"
proof -
  assume "length q = 4"
  then obtain a b c d where q: "q = [a, b, c, d]" by (auto simp: numeral_eq_Suc length_Suc_conv)
  have "load32 (equal_mask (q @ r)) = load32 (equal_mask q)" unfolding q by (simp add: load32_def equal_mask_def)
  then show ?thesis unfolding q by (cases a; cases b; cases c; cases d) (simp_all add: load32_def equal_mask_def)
qed

lemma min_top: "min x y = 0xFFFFFFFF \<longleftrightarrow> x = 0xFFFFFFFF \<and> y = 0xFFFFFFFF" for x y :: "32 word"
proof -
  have "(0xFFFFFFFF :: 32 word) = - 1" by simp
  then have "w \<le> 0xFFFFFFFF" for w :: "32 word" by (simp only: word_n1_ge)
  then show ?thesis by (auto simp: min_def intro: antisym)
qed

lemma lanes32_all:
  assumes "length es = 16"
  shows "minvq_u32 (lanes32 (equal_mask es)) = 0xFFFFFFFF \<longleftrightarrow> list_all id es"
proof -
  let ?q = "take 4 es" and ?r = "take 4 (drop 4 es)" and ?s = "take 4 (drop 8 es)" and ?t = "drop 12 es"
  have e: "es = ?q @ drop 4 es" "drop 4 es = ?r @ drop 8 es" "drop 8 es = ?s @ ?t" "?t = ?t @ []"
    using append_take_drop_id [of 4 es] append_take_drop_id [of 4 "drop 4 es"] append_take_drop_id [of 4 "drop 8 es"] by simp_all
  have d: "drop k (equal_mask es) = equal_mask (drop k es)" for k by (simp add: equal_mask_def drop_map)
  have "load32 (equal_mask es) = 0xFFFFFFFF \<longleftrightarrow> list_all id ?q" using load32_all [of ?q "drop 4 es"] assms by simp
  moreover have "load32 (equal_mask (drop 4 es)) = 0xFFFFFFFF \<longleftrightarrow> list_all id ?r" using load32_all [of ?r "drop 8 es"] assms e(2) by simp
  moreover have "load32 (equal_mask (drop 8 es)) = 0xFFFFFFFF \<longleftrightarrow> list_all id ?s" using load32_all [of ?s ?t] assms e(3) by simp
  moreover have "load32 (equal_mask ?t) = 0xFFFFFFFF \<longleftrightarrow> list_all id ?t" using load32_all [of ?t "[]"] assms by simp
  moreover have "list_all id es \<longleftrightarrow> list_all id ?q \<and> list_all id ?r \<and> list_all id ?s \<and> list_all id ?t"
    using e(1-3) by (metis list_all_append)
  ultimately show ?thesis by (simp add: minvq_u32_def lanes32_def min_top d)
qed

lemma map2_eq_all: "length a = length b \<Longrightarrow> list_all id (map2 (=) a b) \<longleftrightarrow> a = b"
  by (induction a b rule: list_induct2) auto

lemma memcmp_differ:
  assumes "16 \<le> length a" and "16 \<le> length b"
  shows "movemask_epi8 (cmpeq_epi8 a b) \<noteq> 0xFFFF \<longleftrightarrow> take 16 a \<noteq> take 16 b"
    and "minvq_u32 (lanes32 (cmpeq_epi8 a b)) \<noteq> 0xFFFFFFFF \<longleftrightarrow> take 16 a \<noteq> take 16 b"
proof -
  have l: "length (take 16 a) = length (take 16 b)" "length (map2 (=) (take 16 a) (take 16 b)) = 16" using assms by simp_all
  show "movemask_epi8 (cmpeq_epi8 a b) \<noteq> 0xFFFF \<longleftrightarrow> take 16 a \<noteq> take 16 b"
    unfolding cmpeq_epi8_mask movemask_all [OF l(2)] map2_eq_all [OF l(1)] ..
  show "minvq_u32 (lanes32 (cmpeq_epi8 a b)) \<noteq> 0xFFFFFFFF \<longleftrightarrow> take 16 a \<noteq> take 16 b"
    unfolding cmpeq_epi8_mask lanes32_all [OF l(2)] map2_eq_all [OF l(1)] ..
qed

lemma Clay__MemCmp_iff:
  assumes "n \<le> length s1" and "n \<le> length s2"
  shows "Clay__MemCmp build s1 s2 n \<longleftrightarrow> take n s1 = take n s2"
proof (cases build)
  case Sse2
  show ?thesis unfolding Clay__MemCmp_def Sse2 simd.case by (rule memcmp_wide_iff [OF memcmp_differ(1) assms])
next
  case Neon
  show ?thesis unfolding Clay__MemCmp_def Neon simd.case by (rule memcmp_wide_iff [OF memcmp_differ(2) assms])
next
  case No_simd
  then show ?thesis using assms by (auto simp: Clay__MemCmp_def list_all_iff list_eq_iff_nth_eq)
qed

end
