(* ===== verification/Clay_Map.thy ===== *)
theory Clay_Map
  imports Clay_Hash
begin

text \<open>
  The table of the layout library that finds an element by its identifier (modules/clay/clay.h,
  \<open>Clay__AddHashMapItem\<close> and \<open>Clay__GetHashMapItem\<close>): buckets of items chained by their indices. Items
  last from frame to frame; the generation of an item says in which frame it was declared last.
\<close>

section \<open>The table\<close>

text \<open>\<open>hi_layoutElement\<close> is the index of the element the item points to, \<open>hi_debugData\<close> that of its debug data. The
  handler of the host and its data are \<open>hi_onHover\<close>; the bounding box, which the table only keeps, is left out. A pointer is
  an index, or \<open>None\<close> for the address of the default value of the type, which is a variable like any other.\<close>

record 'h hash_item =
  hi_elementId :: clay_element_id
  hi_layoutElement :: nat
  hi_onHover :: "'h option"
  hi_nextIndex :: int
  hi_generation :: "32 word"
  hi_idAlias :: "32 word"
  hi_debugData :: "nat option"

record debug_data =
  dd_collision :: bool
  dd_collapsed :: bool

record 'h hash_map =
  hm_items :: "'h hash_item carray"
  hm_dfltItem :: "'h hash_item"
  hm_buckets :: "int list"
  hm_generation :: "32 word"
  hm_debugMode :: bool
  hm_debug :: "debug_data carray"
  hm_dfltDebug :: debug_data
  hm_log :: clay_log

definition item_of :: "'h hash_map \<Rightarrow> nat option \<Rightarrow> 'h hash_item" where
  "item_of m p = (case p of Some i \<Rightarrow> ca_cells (hm_items m) ! i | None \<Rightarrow> hm_dfltItem m)"

definition set_item :: "nat option \<Rightarrow> ('h hash_item \<Rightarrow> 'h hash_item) \<Rightarrow> 'h hash_map \<Rightarrow> 'h hash_map" where
  "set_item p g m =
     (case p of
        Some i \<Rightarrow> m\<lparr>hm_items := (hm_items m)\<lparr>ca_cells := (ca_cells (hm_items m))[i := g (ca_cells (hm_items m) ! i)]\<rparr>\<rparr>
      | None \<Rightarrow> m\<lparr>hm_dfltItem := g (hm_dfltItem m)\<rparr>)"

definition set_collision :: "nat option \<Rightarrow> bool \<Rightarrow> 'h hash_map \<Rightarrow> 'h hash_map" where
  "set_collision d b m =
     (case d of
        Some i \<Rightarrow> m\<lparr>hm_debug := (hm_debug m)\<lparr>ca_cells := (ca_cells (hm_debug m))[i := (ca_cells (hm_debug m) ! i)\<lparr>dd_collision := b\<rparr>]\<rparr>\<rparr>
      | None \<Rightarrow> m\<lparr>hm_dfltDebug := (hm_dfltDebug m)\<lparr>dd_collision := b\<rparr>\<rparr>)"

definition bucket_of :: "'h hash_map \<Rightarrow> 32 word \<Rightarrow> nat" where
  "bucket_of m i = unat i mod length (hm_buckets m)"

text \<open>
  The walk along a chain: the index of the last item passed, and the item found, if any. An index outside the array
  stands for the default item; a walk that never ends is \<open>None\<close>.
\<close>

partial_function (option) chain_walk :: "'h hash_map \<Rightarrow> 32 word \<Rightarrow> int \<Rightarrow> int \<Rightarrow> clay_log \<Rightarrow> (int \<times> nat option option \<times> clay_log) option" where
  "chain_walk m i prev cur log =
     (if cur = -1 then Some (prev, None, log)
      else case Array_Get (hm_items m) cur log of (p, log) \<Rightarrow>
          if eid_id (hi_elementId (item_of m p)) = i then Some (prev, Some p, log)
          else chain_walk m i cur (hi_nextIndex (item_of m p)) log)"

definition new_item :: "'h hash_map \<Rightarrow> clay_element_id \<Rightarrow> nat \<Rightarrow> 32 word \<Rightarrow> 'h hash_item" where
  "new_item m e le idAlias = \<lparr>hi_elementId = e, hi_layoutElement = le, hi_onHover = None, hi_nextIndex = -1,
     hi_generation = hm_generation m + 1, hi_idAlias = idAlias, hi_debugData = None\<rparr>"

text \<open>Putting the new item behind the last one of its chain.\<close>

definition link_item :: "'h hash_map \<Rightarrow> int \<Rightarrow> nat \<Rightarrow> int \<Rightarrow> 'h hash_map" where
  "link_item m prev bucket new =
     (if prev \<noteq> -1
      then (case Array_Get (hm_items m) prev (hm_log m) of
              (p, log) \<Rightarrow> set_item p (\<lambda>it. it\<lparr>hi_nextIndex := new\<rparr>) (m\<lparr>hm_log := log\<rparr>))
      else m\<lparr>hm_buckets := (hm_buckets m)[bucket := new]\<rparr>)"

text \<open>The answer is NULL (\<open>Inl ()\<close>), or a pointer to an item.\<close>

definition Clay__AddHashMapItem ::
    "clay_element_id \<Rightarrow> nat \<Rightarrow> 32 word \<Rightarrow> 'h hash_map \<Rightarrow> ((unit + nat option) \<times> 'h hash_map) option" where
  "Clay__AddHashMapItem elementId layoutElement idAlias m =
     (if ca_length (hm_items m) = ca_capacity (hm_items m) - 1 then Some (Inl (), m)
      else let bucket = bucket_of m (eid_id elementId)
      in case chain_walk m (eid_id elementId) (-1) (hm_buckets m ! bucket) (hm_log m) of
        None \<Rightarrow> None
      | Some (prev, Some p, log) \<Rightarrow>
          let m = m\<lparr>hm_log := log\<rparr>; item = item_of m p
          in if hi_generation item \<le> hm_generation m
             then Some (Inr p, set_collision (hi_debugData item) False
                (set_item p (\<lambda>it. it\<lparr>hi_elementId := elementId, hi_idAlias := idAlias, hi_generation := hm_generation m + 1,
                   hi_layoutElement := layoutElement, hi_onHover := None\<rparr>) m))
             else let m = m\<lparr>hm_log := log @ [CLAY_ERROR_TYPE_DUPLICATE_ID]\<rparr>
                  in Some (Inr p, if hm_debugMode m then set_collision (hi_debugData item) True m else m)
      | Some (prev, None, log) \<Rightarrow>
          (case Array_Add (hm_items m) (new_item m elementId layoutElement idAlias) log of
             (p, items, log) \<Rightarrow>
               (case Array_Add (hm_debug m) \<lparr>dd_collision = False, dd_collapsed = False\<rparr> log of
                  (d, debug, log) \<Rightarrow>
                    let m = set_item p (\<lambda>it. it\<lparr>hi_debugData := d\<rparr>) (m\<lparr>hm_items := items, hm_debug := debug, hm_log := log\<rparr>)
                    in Some (Inr p, link_item m prev bucket (ca_length (hm_items m) - 1)))))"

definition Clay__GetHashMapItem :: "32 word \<Rightarrow> 'h hash_map \<Rightarrow> (nat option \<times> 'h hash_map) option" where
  "Clay__GetHashMapItem i m =
     (case chain_walk m i (-1) (hm_buckets m ! bucket_of m i) (hm_log m) of
        None \<Rightarrow> None
      | Some (_, Some p, log) \<Rightarrow> Some (p, m\<lparr>hm_log := log\<rparr>)
      | Some (_, None, log) \<Rightarrow> Some (None, m\<lparr>hm_log := log\<rparr>))"

text \<open>What \<open>Clay_Initialize\<close> makes of the two arrays: every bucket empty, no item, whatever the memory held.\<close>

definition empty_map :: "'h hash_item list \<Rightarrow> 'h hash_item \<Rightarrow> debug_data list \<Rightarrow> debug_data \<Rightarrow> 'h hash_map" where
  "empty_map memory dflt dmemory ddflt = \<lparr>hm_items = \<lparr>ca_length = 0, ca_cells = memory\<rparr>, hm_dfltItem = dflt,
     hm_buckets = replicate (length memory) (-1), hm_generation = 0, hm_debugMode = False,
     hm_debug = \<lparr>ca_length = 0, ca_cells = dmemory\<rparr>, hm_dfltDebug = ddflt, hm_log = []\<rparr>"

section \<open>The invariant\<close>

text \<open>The indices of a chain, from a first one to the end.\<close>

primrec chain :: "'h hash_item list \<Rightarrow> int \<Rightarrow> nat list \<Rightarrow> bool" where
  "chain items i [] \<longleftrightarrow> i = -1"
| "chain items i (k # ks) \<longleftrightarrow> i = int k \<and> k < length items \<and> chain items (hi_nextIndex (items ! k)) ks"

abbreviation id_at :: "'h hash_item list \<Rightarrow> nat \<Rightarrow> 32 word" where
  "id_at items k \<equiv> eid_id (hi_elementId (items ! k))"

text \<open>
  Every bucket begins a chain of items with different identifiers, all of which belong into that bucket; so chains
  share no item.
\<close>

definition buckets_ok :: "'h hash_item list \<Rightarrow> int list \<Rightarrow> (nat \<Rightarrow> nat list) \<Rightarrow> bool" where
  "buckets_ok items buckets ch \<longleftrightarrow> (\<forall>b < length buckets. chain items (buckets ! b) (ch b) \<and> distinct (map (id_at items) (ch b)) \<and>
     (\<forall>k \<in> set (ch b). unat (id_at items k) mod length buckets = b))"

definition map_ok :: "'h hash_map \<Rightarrow> bool" where
  "map_ok m \<longleftrightarrow> array_ok (hm_items m) \<and> array_ok (hm_debug m) \<and> hm_buckets m \<noteq> [] \<and>
     ca_length (hm_debug m) = ca_length (hm_items m) \<and> ca_capacity (hm_debug m) = ca_capacity (hm_items m) \<and>
     ca_length (hm_items m) < ca_capacity (hm_items m) \<and>
     (\<exists>ch. buckets_ok (values_of (hm_items m)) (hm_buckets m) ch)"

text \<open>What the table says: the item of an identifier.\<close>

definition found :: "'h hash_map \<Rightarrow> 32 word \<Rightarrow> nat option" where
  "found m i = (case Clay__GetHashMapItem i m of Some (p, _) \<Rightarrow> p | None \<Rightarrow> None)"

lemma chain_less: "chain items i ks \<Longrightarrow> k \<in> set ks \<Longrightarrow> k < length items"
  by (induction ks arbitrary: i) auto

lemma chain_inject: "chain items i ks \<Longrightarrow> chain items i ls \<Longrightarrow> ks = ls"
proof (induction ks arbitrary: i ls)
  case Nil
  then show ?case by (cases ls) auto
next
  case (Cons k ks)
  then show ?case by (cases ls) auto
qed

lemma item_of_values: "array_ok (hm_items m) \<Longrightarrow> k < length (values_of (hm_items m)) \<Longrightarrow> item_of m (Some k) = values_of (hm_items m) ! k"
  by (simp add: item_of_def values_of_nth length_values_of)

text \<open>The walk passes what has another identifier and stops at the first that has it.\<close>

lemma chain_walk_passes:
  assumes "array_ok (hm_items m)" and "chain (values_of (hm_items m)) cur ks" and "i \<notin> id_at (values_of (hm_items m)) ` set ks"
  shows "chain_walk m i prev cur log = Some (last (prev # map int ks), None, log)"
  using assms(2,3)
proof (induction ks arbitrary: prev cur)
  case Nil
  then show ?case by (simp add: chain_walk.simps)
next
  case (Cons k ks)
  have k: "cur = int k" "k < length (values_of (hm_items m))" using Cons.prems by auto
  then have "Array_Get (hm_items m) cur log = (Some k, log)" using length_values_of [OF assms(1)] by (simp add: Array_Get_in)
  then show ?case using Cons.IH [of "hi_nextIndex (values_of (hm_items m) ! k)" cur] Cons.prems item_of_values [OF assms(1) k(2)] k(1)
    by (subst chain_walk.simps) auto
qed

lemma chain_walk_stops:
  assumes "array_ok (hm_items m)" and "chain (values_of (hm_items m)) cur (ks @ k # ls)"
    and "i \<notin> id_at (values_of (hm_items m)) ` set ks" and "id_at (values_of (hm_items m)) k = i"
  shows "chain_walk m i prev cur log = Some (last (prev # map int ks), Some (Some k), log)"
  using assms(2,3)
proof (induction ks arbitrary: prev cur)
  case Nil
  then have k: "cur = int k" "k < length (values_of (hm_items m))" by auto
  then have "Array_Get (hm_items m) cur log = (Some k, log)" using length_values_of [OF assms(1)] by (simp add: Array_Get_in)
  then show ?case using item_of_values [OF assms(1) k(2)] assms(4) k(1) by (subst chain_walk.simps) auto
next
  case (Cons j ks)
  have k: "cur = int j" "j < length (values_of (hm_items m))" using Cons.prems by auto
  then have "Array_Get (hm_items m) cur log = (Some j, log)" using length_values_of [OF assms(1)] by (simp add: Array_Get_in)
  then show ?case using Cons.IH [of "hi_nextIndex (values_of (hm_items m) ! j)" cur] Cons.prems item_of_values [OF assms(1) k(2)] k(1)
    by (subst chain_walk.simps) auto
qed

text \<open>The item of an identifier, read off the chain of its bucket.\<close>

definition in_chain :: "'h hash_item list \<Rightarrow> 32 word \<Rightarrow> nat list \<Rightarrow> nat option" where
  "in_chain items i ks = find (\<lambda>k. id_at items k = i) ks"

lemma in_chain_cases:
  obtains (none) "in_chain items i ks = None" "i \<notin> id_at items ` set ks"
  | (some) as k bs where "in_chain items i ks = Some k" "ks = as @ k # bs" "i \<notin> id_at items ` set as" "id_at items k = i"
proof (cases "in_chain items i ks")
  case None
  then show ?thesis using none by (auto simp: in_chain_def find_None_iff)
next
  case (Some k)
  then obtain n where n: "n < length ks" "id_at items (ks ! n) = i" "k = ks ! n" "\<forall>j < n. id_at items (ks ! j) \<noteq> i"
    by (auto simp: in_chain_def find_Some_iff)
  show ?thesis
  proof (rule some [OF Some])
    show "ks = take n ks @ k # drop (Suc n) ks" using n by (simp add: id_take_nth_drop [symmetric])
    show "i \<notin> id_at items ` set (take n ks)" using n(1,4) by (fastforce simp: in_set_conv_nth)
  qed (use n in simp)
qed

lemma chain_walk_eq:
  assumes "array_ok (hm_items m)" and "chain (values_of (hm_items m)) cur ks"
  shows "\<exists>prev'. chain_walk m i prev cur log = Some (prev', map_option Some (in_chain (values_of (hm_items m)) i ks), log) \<and>
    (in_chain (values_of (hm_items m)) i ks = None \<longrightarrow> prev' = last (prev # map int ks))"
proof (cases rule: in_chain_cases [of "values_of (hm_items m)" i ks])
  case none
  then show ?thesis using chain_walk_passes [OF assms none(2)] by auto
next
  case (some as k bs)
  then show ?thesis using chain_walk_stops [OF assms(1) assms(2) [unfolded some(2)] some(3,4)] by auto
qed

lemma map_okE:
  assumes "map_ok m"
  obtains ch where "array_ok (hm_items m)" "array_ok (hm_debug m)" "hm_buckets m \<noteq> []"
    "buckets_ok (values_of (hm_items m)) (hm_buckets m) ch"
    "\<And>i. chain (values_of (hm_items m)) (hm_buckets m ! bucket_of m i) (ch (bucket_of m i))"
proof -
  obtain ch where ch: "buckets_ok (values_of (hm_items m)) (hm_buckets m) ch" using assms by (auto simp: map_ok_def)
  moreover have "bucket_of m i < length (hm_buckets m)" for i using assms by (simp add: bucket_of_def map_ok_def)
  ultimately show ?thesis using that [of ch] assms by (auto simp: map_ok_def buckets_ok_def)
qed

lemma Clay__GetHashMapItem_ok:
  assumes "map_ok m"
  shows "Clay__GetHashMapItem i m = Some (found m i, m)"
proof -
  from assms obtain ch where a: "array_ok (hm_items m)" and c: "chain (values_of (hm_items m)) (hm_buckets m ! bucket_of m i) (ch (bucket_of m i))"
    by (rule map_okE) metis
  show ?thesis using chain_walk_eq [OF a c, of i "-1" "hm_log m"]
    by (auto simp: Clay__GetHashMapItem_def found_def split: option.splits)
qed

lemma found_eq:
  assumes "array_ok (hm_items m)" and "chain (values_of (hm_items m)) (hm_buckets m ! bucket_of m i) ks"
  shows "found m i = in_chain (values_of (hm_items m)) i ks"
  using chain_walk_eq [OF assms, of i "-1" "hm_log m"]
  by (cases "in_chain (values_of (hm_items m)) i ks") (auto simp: found_def Clay__GetHashMapItem_def)

section \<open>Changing an item, and adding one\<close>

lemma chain_cong: "length items = length items' \<Longrightarrow> (\<And>k. k \<in> set ks \<Longrightarrow> hi_nextIndex (items' ! k) = hi_nextIndex (items ! k)) \<Longrightarrow>
    chain items i ks \<longleftrightarrow> chain items' i ks"
  by (induction ks arbitrary: i) auto

lemma buckets_ok_cong:
  assumes "length items' = length items" and "\<And>k. k < length items \<Longrightarrow> hi_nextIndex (items' ! k) = hi_nextIndex (items ! k) \<and> id_at items' k = id_at items k"
    and "buckets_ok items buckets ch"
  shows "buckets_ok items' buckets ch"
  unfolding buckets_ok_def
proof (intro allI impI)
  fix b
  assume b: "b < length buckets"
  then have c: "chain items (buckets ! b) (ch b)" and o: "distinct (map (id_at items) (ch b))"
    "\<forall>k \<in> set (ch b). unat (id_at items k) mod length buckets = b" using assms(3) by (auto simp: buckets_ok_def)
  have k: "k \<in> set (ch b) \<Longrightarrow> hi_nextIndex (items' ! k) = hi_nextIndex (items ! k) \<and> id_at items' k = id_at items k" for k
    using assms(2) chain_less [OF c] by blast
  then have "map (id_at items') (ch b) = map (id_at items) (ch b)" by simp
  then have "distinct (map (id_at items') (ch b))" using o(1) by (simp only:)
  moreover have "chain items' (buckets ! b) (ch b)" using c k chain_cong [of items items' "ch b"] assms(1) by simp
  ultimately show "chain items' (buckets ! b) (ch b) \<and> distinct (map (id_at items') (ch b)) \<and>
      (\<forall>k \<in> set (ch b). unat (id_at items' k) mod length buckets = b)"
    using o(2) k by simp
qed

lemma chain_more: "chain items i ks \<Longrightarrow> chain (items @ xs) i ks"
  by (induction ks arbitrary: i) (auto simp: nth_append)

text \<open>The last item of a chain is made to point to a new one behind it.\<close>

lemma chain_extended:
  assumes "chain items i ks" and "ks \<noteq> []" and "distinct ks" and "hi_nextIndex x = -1"
  shows "chain ((items @ [x])[last ks := (items ! last ks)\<lparr>hi_nextIndex := int (length items)\<rparr>]) i (ks @ [length items])"
  using assms(1-3)
proof (induction ks arbitrary: i)
  case (Cons k ks)
  have k: "k < length items" using Cons.prems by simp
  show ?case
  proof (cases "ks = []")
    case True
    then show ?thesis using Cons.prems k assms(4) by (simp add: nth_append nth_list_update)
  next
    case False
    then have "k \<noteq> last ks" using Cons.prems by auto
    then show ?thesis using Cons False k by (auto simp: nth_append nth_list_update)
  qed
qed simp

text \<open>What a new item makes of the chains.\<close>

lemma buckets_ok_add:
  fixes items buckets ch x
  defines "b \<equiv> unat (eid_id (hi_elementId x)) mod length buckets" and "n \<equiv> length items"
  assumes "buckets_ok items buckets ch" and "buckets \<noteq> []" and "hi_nextIndex x = -1"
    and "eid_id (hi_elementId x) \<notin> id_at items ` set (ch b)"
    and items': "items' = (if ch b = [] then items @ [x] else (items @ [x])[last (ch b) := (items ! last (ch b))\<lparr>hi_nextIndex := int n\<rparr>])"
    and buckets': "buckets' = (if ch b = [] then buckets[b := int n] else buckets)"
  shows "buckets_ok items' buckets' (ch(b := ch b @ [n]))"
  unfolding buckets_ok_def
proof (intro allI impI)
  fix c
  assume "c < length buckets'"
  then have c: "c < length buckets" using buckets' by (simp split: if_splits)
  have bl: "b < length buckets" using assms(4) by (simp add: b_def)
  have len: "length items' = Suc n" "length buckets' = length buckets" by (simp_all add: items' buckets' n_def)
  have chn: "chain items (buckets ! c) (ch c)" "distinct (map (id_at items) (ch c))"
    and buck: "\<And>d k. d < length buckets \<Longrightarrow> k \<in> set (ch d) \<Longrightarrow> unat (id_at items k) mod length buckets = d"
    using assms(3) c by (auto simp: buckets_ok_def)
  have less: "k < n" if "d < length buckets" "k \<in> set (ch d)" for d k
    using assms(3) chain_less that unfolding buckets_ok_def n_def by blast
  have lst: "ch b \<noteq> [] \<Longrightarrow> last (ch b) < n" using less [OF bl] by simp
  have ids: "id_at items' k = (if k < n then id_at items k else eid_id (hi_elementId x))" if "k \<le> n" for k
    using that lst by (auto simp: items' n_def nth_append nth_list_update)
  have nx: "hi_nextIndex (items' ! k) = hi_nextIndex (items ! k)" if "k < n" "ch b \<noteq> [] \<Longrightarrow> k \<noteq> last (ch b)" for k
    using that by (auto simp: items' n_def nth_append nth_list_update)
  show "chain items' (buckets' ! c) ((ch(b := ch b @ [n])) c) \<and> distinct (map (id_at items') ((ch(b := ch b @ [n])) c)) \<and>
      (\<forall>k \<in> set ((ch(b := ch b @ [n])) c). unat (id_at items' k) mod length buckets' = c)"
  proof (cases "c = b")
    case True
    have d: "distinct (ch b)" using chn(2) True by (simp add: distinct_map)
    have "chain items' (buckets' ! b) (ch b @ [n])"
    proof (cases "ch b = []")
      case True
      then show ?thesis using bl assms(5) by (simp add: items' buckets' n_def)
    next
      case False
      then show ?thesis using chain_extended [OF chn(1) _ _ assms(5)] True d \<open>c = b\<close> by (simp add: items' buckets' n_def)
    qed
    moreover have m: "map (id_at items') (ch b @ [n]) = map (id_at items) (ch b) @ [eid_id (hi_elementId x)]"
      using ids less [OF bl] by (simp add: less_imp_le)
    have "distinct (map (id_at items') (ch b @ [n]))" unfolding m using chn(2) True assms(6) by simp
    moreover have "\<forall>k \<in> set (ch b @ [n]). unat (id_at items' k) mod length buckets = b"
      using ids less [OF bl] buck [OF bl] by (auto simp: b_def less_imp_le)
    ultimately show ?thesis using True len by simp
  next
    case False
    have other: "k \<noteq> last (ch b)" if "k \<in> set (ch c)" "ch b \<noteq> []" for k
      using buck [OF c that(1)] buck [OF bl, of "last (ch b)"] that(2) False by auto
    have k: "k \<in> set (ch c) \<Longrightarrow> id_at items' k = id_at items k \<and> hi_nextIndex (items' ! k) = hi_nextIndex (items ! k)" for k
      using ids nx less [OF c] other by (simp add: less_imp_le)
    then have m: "map (id_at items') (ch c) = map (id_at items) (ch c)" by simp
    have "chain (items @ [x]) (buckets ! c) (ch c)" using chn(1) by (rule chain_more)
    moreover have "\<And>k. k \<in> set (ch c) \<Longrightarrow> (items @ [x]) ! k = items ! k" using less [OF c] by (simp add: nth_append n_def)
    ultimately have "chain items' (buckets ! c) (ch c)"
      using chain_cong [of "items @ [x]" items' "ch c"] k by (simp add: len n_def)
    moreover have "buckets' ! c = buckets ! c" using False by (simp add: buckets')
    ultimately show ?thesis using False chn(2) k buck [OF c] len m by (auto simp only: fun_upd_apply if_False)
  qed
qed

section \<open>The table refines a map\<close>

text \<open>What the table holds for an identifier: the element, the alias and the generation.\<close>

definition declared :: "'h hash_map \<Rightarrow> 32 word \<Rightarrow> (nat \<times> 32 word \<times> 32 word) option" where
  "declared m i = map_option (\<lambda>k. let it = item_of m (Some k) in (hi_layoutElement it, hi_idAlias it, hi_generation it)) (found m i)"

definition entry_at :: "'h hash_item list \<Rightarrow> nat \<Rightarrow> nat \<times> 32 word \<times> 32 word" where
  "entry_at items k = (hi_layoutElement (items ! k), hi_idAlias (items ! k), hi_generation (items ! k))"

lemma declared_eq:
  assumes "array_ok (hm_items m)" and "chain (values_of (hm_items m)) (hm_buckets m ! bucket_of m i) ks"
  shows "declared m i = map_option (entry_at (values_of (hm_items m))) (in_chain (values_of (hm_items m)) i ks)"
proof -
  have "in_chain (values_of (hm_items m)) i ks = Some k \<Longrightarrow> k < length (values_of (hm_items m))" for k
    using chain_less [OF assms(2)] by (auto simp: in_chain_def find_Some_iff)
  then show ?thesis using found_eq [OF assms] item_of_values [OF assms(1)]
    by (cases "in_chain (values_of (hm_items m)) i ks") (auto simp: declared_def entry_at_def Let_def)
qed

lemma in_chain_cong: "(\<And>k. k \<in> set ks \<Longrightarrow> id_at items' k = id_at items k) \<Longrightarrow> in_chain items' i ks = in_chain items i ks"
  unfolding in_chain_def by (rule find_cong) auto

lemma in_chain_set: "in_chain items i ks = Some k \<Longrightarrow> k \<in> set ks \<and> id_at items k = i"
  by (auto simp: in_chain_def find_Some_iff)

lemma set_collision_frame [simp]:
  "hm_items (set_collision d b m) = hm_items m" "hm_buckets (set_collision d b m) = hm_buckets m"
  "hm_log (set_collision d b m) = hm_log m" "hm_generation (set_collision d b m) = hm_generation m"
  "ca_length (hm_debug (set_collision d b m)) = ca_length (hm_debug m)"
  "length (ca_cells (hm_debug (set_collision d b m))) = length (ca_cells (hm_debug m))"
  by (simp_all add: set_collision_def split: option.split)

lemma same_table:
  assumes "hm_items m' = hm_items m" and "hm_buckets m' = hm_buckets m" and "ca_length (hm_debug m') = ca_length (hm_debug m)"
    and "length (ca_cells (hm_debug m')) = length (ca_cells (hm_debug m))" and "map_ok m"
  shows "map_ok m' \<and> declared m' = declared m"
proof -
  have ok: "map_ok m'" using assms by (simp add: map_ok_def array_ok_def)
  have "declared m' i = declared m i" for i
  proof -
    from assms(5) obtain ch where a: "array_ok (hm_items m)" and c: "chain (values_of (hm_items m)) (hm_buckets m ! bucket_of m i) (ch (bucket_of m i))"
      by (rule map_okE) metis
    have b: "bucket_of m' i = bucket_of m i" using assms(2) by (simp add: bucket_of_def)
    show ?thesis using declared_eq [OF a c] declared_eq [of m' i "ch (bucket_of m i)"] a c assms(1,2) b by simp
  qed
  with ok show ?thesis by blast
qed

lemma refresh_ok:
  fixes g
  assumes "map_ok m" and "k < length (values_of (hm_items m))" and "found m (item_id) = Some k"
    and g: "\<And>it. hi_nextIndex (g it) = hi_nextIndex it" "\<And>it. eid_id (hi_elementId (g it)) = item_id"
    and "hi_layoutElement (g (values_of (hm_items m) ! k)) = le" "hi_idAlias (g (values_of (hm_items m) ! k)) = al"
      "hi_generation (g (values_of (hm_items m) ! k)) = gn"
  shows "map_ok (set_item (Some k) g m) \<and> declared (set_item (Some k) g m) = (declared m)(item_id \<mapsto> (le, al, gn))"
proof -
  let ?v = "values_of (hm_items m)" and ?m = "set_item (Some k) g m"
  obtain ch where a: "array_ok (hm_items m)" "array_ok (hm_debug m)" "hm_buckets m \<noteq> []" and ch: "buckets_ok ?v (hm_buckets m) ch"
    and c: "\<And>i. chain ?v (hm_buckets m ! bucket_of m i) (ch (bucket_of m i))" using map_okE [OF assms(1)] by blast
  have kid: "id_at ?v k = item_id" and kin: "k \<in> set (ch (bucket_of m item_id))"
    using found_eq [OF a(1) c] assms(3) in_chain_set by fastforce+
  have ca: "ca_cells (hm_items m) ! k = ?v ! k" using assms(2) a(1) by (simp add: values_of_nth length_values_of)
  have v: "values_of (hm_items ?m) = ?v[k := g (?v ! k)]" by (simp add: set_item_def values_of_update ca)
  have id: "id_at (?v[k := g (?v ! k)]) j = id_at ?v j" "hi_nextIndex (?v[k := g (?v ! k)] ! j) = hi_nextIndex (?v ! j)" if "j < length ?v" for j
    using that kid g by (cases "j = k"; simp)+
  have bo: "buckets_ok (?v[k := g (?v ! k)]) (hm_buckets m) ch" by (rule buckets_ok_cong [OF _ _ ch]) (simp_all add: id)
  have ok: "map_ok ?m" using assms(1) bo unfolding map_ok_def v by (auto simp: set_item_def array_ok_update)
  have "declared ?m i = ((declared m)(item_id \<mapsto> (le, al, gn))) i" for i
  proof -
    have b: "bucket_of ?m i = bucket_of m i" "hm_buckets ?m = hm_buckets m" "array_ok (hm_items ?m)"
      using a(1) by (simp_all add: bucket_of_def set_item_def array_ok_update)
    have bl: "bucket_of m i < length (hm_buckets m)" using a(3) by (simp add: bucket_of_def)
    have "chain (values_of (hm_items ?m)) (hm_buckets ?m ! bucket_of ?m i) (ch (bucket_of m i))"
      using bo bl by (simp add: v b buckets_ok_def)
    from declared_eq [OF b(3) this]
    have "declared ?m i = map_option (entry_at (?v[k := g (?v ! k)])) (in_chain ?v i (ch (bucket_of m i)))"
      using in_chain_cong [of "ch (bucket_of m i)" "?v[k := g (?v ! k)]" ?v i] id(1) chain_less [OF c] by (simp add: v)
    moreover have "declared m i = map_option (entry_at ?v) (in_chain ?v i (ch (bucket_of m i)))" by (rule declared_eq [OF a(1) c])
    moreover have "i = item_id \<Longrightarrow> in_chain ?v i (ch (bucket_of m i)) = Some k" using found_eq [OF a(1) c] assms(3) by simp
    moreover have "i \<noteq> item_id \<Longrightarrow> in_chain ?v i (ch (bucket_of m i)) \<noteq> Some k" using in_chain_set kid by blast
    ultimately show ?thesis using assms(2,6-8)
      by (cases "in_chain ?v i (ch (bucket_of m i))") (auto simp: entry_at_def)
  qed
  with ok show ?thesis by blast
qed

lemma find_append: "List.find P (xs @ ys) = (case List.find P xs of None \<Rightarrow> List.find P ys | Some x \<Rightarrow> Some x)"
  by (induction xs) auto

text \<open>A new item, put behind the chain of its bucket.\<close>

lemma insert_ok:
  fixes m x ks
  defines "v \<equiv> values_of (hm_items m)" and "n \<equiv> length (values_of (hm_items m))" and "b \<equiv> bucket_of m (eid_id (hi_elementId x))"
  assumes "map_ok m" and "hi_nextIndex x = -1" and "found m (eid_id (hi_elementId x)) = None"
    and "chain v (hm_buckets m ! b) ks"
    and m': "array_ok (hm_items m')" "array_ok (hm_debug m')" "ca_length (hm_items m') < ca_capacity (hm_items m')"
      "ca_length (hm_debug m') = ca_length (hm_items m')" "ca_capacity (hm_debug m') = ca_capacity (hm_items m')"
    and v': "values_of (hm_items m') = (if ks = [] then v @ [x] else (v @ [x])[last ks := (v ! last ks)\<lparr>hi_nextIndex := int n\<rparr>])"
    and b': "hm_buckets m' = (if ks = [] then (hm_buckets m)[b := int n] else hm_buckets m)"
  shows "map_ok m' \<and> declared m' = (declared m)(eid_id (hi_elementId x) \<mapsto> (hi_layoutElement x, hi_idAlias x, hi_generation x))"
proof -
  let ?v' = "values_of (hm_items m')" and ?id = "eid_id (hi_elementId x)"
  obtain ch where a: "array_ok (hm_items m)" "array_ok (hm_debug m)" "hm_buckets m \<noteq> []" and ch: "buckets_ok v (hm_buckets m) ch"
    and c: "\<And>i. chain v (hm_buckets m ! bucket_of m i) (ch (bucket_of m i))" using map_okE [OF assms(4)] unfolding v_def by blast
  have ks: "ch b = ks" using chain_inject [OF c assms(7) [unfolded b_def]] by (simp add: b_def)
  have none: "?id \<notin> id_at v ` set (ch b)"
    using found_eq [OF a(1) c [unfolded v_def]] assms(6) by (auto simp: in_chain_def find_None_iff v_def b_def)
  have bm: "b = unat ?id mod length (hm_buckets m)" by (simp add: b_def bucket_of_def)
  have n: "n = length v" by (simp add: n_def v_def)
  have bo: "buckets_ok ?v' (hm_buckets m') (ch(b := ch b @ [n]))"
    unfolding n by (rule buckets_ok_add [OF ch a(3) assms(5), folded bm, OF none v' [folded ks, unfolded n] b' [folded ks, unfolded n]])
  have len: "length (hm_buckets m') = length (hm_buckets m)" by (simp add: b')
  have ok: "map_ok m'" unfolding map_ok_def using m' bo a(3) len by auto
  have lst: "ks \<noteq> [] \<Longrightarrow> last ks < n" using chain_less [OF assms(7)] unfolding n_def v_def by simp
  have old: "id_at ?v' k = id_at v k" "entry_at ?v' k = entry_at v k" if "k < n" for k
    using that lst by (auto simp: v' n_def v_def nth_append nth_list_update entry_at_def)
  have new: "id_at ?v' n = ?id" "entry_at ?v' n = (hi_layoutElement x, hi_idAlias x, hi_generation x)"
    using lst by (auto simp: v' n_def v_def nth_append nth_list_update entry_at_def)
  have "declared m' i = ((declared m)(?id \<mapsto> (hi_layoutElement x, hi_idAlias x, hi_generation x))) i" for i
  proof -
    let ?c = "ch (bucket_of m i)"
    have bl: "bucket_of m' i = bucket_of m i" "bucket_of m i < length (hm_buckets m')" using len a(3) by (simp_all add: bucket_of_def)
    have c': "chain ?v' (hm_buckets m' ! bucket_of m' i) ((ch(b := ch b @ [n])) (bucket_of m i))"
      using bo bl by (auto simp: buckets_ok_def)
    have less: "k \<in> set ?c \<Longrightarrow> k < n" for k using chain_less [OF c [of i]] by (simp add: n_def v_def)
    have in_c: "in_chain ?v' i ?c = in_chain v i ?c" using old less by (intro in_chain_cong) auto
    have dm: "declared m i = map_option (entry_at v) (in_chain v i ?c)" using declared_eq [OF a(1) c [unfolded v_def]] by (simp add: v_def)
    have em: "map_option (entry_at ?v') (in_chain v i ?c) = map_option (entry_at v) (in_chain v i ?c)"
      using in_chain_set [of v i ?c] less old(2) by (cases "in_chain v i ?c") auto
    have dm': "declared m' i = map_option (entry_at ?v') (in_chain ?v' i ((ch(b := ch b @ [n])) (bucket_of m i)))"
      by (rule declared_eq [OF m'(1) c'])
    show ?thesis
    proof (cases "bucket_of m i = b")
      case True
      have "in_chain ?v' i (?c @ [n]) = (case in_chain v i ?c of None \<Rightarrow> if i = ?id then Some n else None | Some k \<Rightarrow> Some k)"
        using in_c new(1) by (simp add: in_chain_def find_append split: option.splits)
      moreover have "i = ?id \<Longrightarrow> in_chain v i ?c = None" using none True by (auto simp: in_chain_def find_None_iff image_iff)
      ultimately show ?thesis using dm' dm em new(2) True by (cases "in_chain v i ?c") auto
    next
      case False
      then have "i \<noteq> ?id" by (auto simp: b_def)
      then show ?thesis using dm' dm em in_c False by simp
    qed
  qed
  with ok show ?thesis by blast
qed

lemma set_item_frame [simp]:
  "hm_buckets (set_item p g m) = hm_buckets m" "hm_debug (set_item p g m) = hm_debug m" "hm_log (set_item p g m) = hm_log m"
  "hm_generation (set_item p g m) = hm_generation m" "ca_length (hm_items (set_item p g m)) = ca_length (hm_items m)"
  "length (ca_cells (hm_items (set_item p g m))) = length (ca_cells (hm_items m))"
  "array_ok (hm_items (set_item p g m)) = array_ok (hm_items m)"
  by (simp_all add: set_item_def array_ok_update split: option.split)

lemma set_item_values:
  "array_ok (hm_items m) \<Longrightarrow> k < length (values_of (hm_items m)) \<Longrightarrow>
    values_of (hm_items (set_item (Some k) g m)) = (values_of (hm_items m))[k := g (values_of (hm_items m) ! k)]"
  by (simp add: set_item_def values_of_update values_of_nth length_values_of)

definition table_full :: "'h hash_map \<Rightarrow> bool" where
  "table_full m \<longleftrightarrow> ca_length (hm_items m) = ca_capacity (hm_items m) - 1"

lemma add_new:
  assumes ok: "map_ok m" and "\<not> table_full m" and none: "found m (eid_id e) = None"
  shows "\<exists>k m'. Clay__AddHashMapItem e le al m = Some (Inr (Some k), m') \<and> map_ok m' \<and> hm_log m' = hm_log m \<and>
    hm_generation m' = hm_generation m \<and> declared m' = (declared m)(eid_id e \<mapsto> (le, al, hm_generation m + 1))"
proof -
  let ?v = "values_of (hm_items m)" and ?b = "bucket_of m (eid_id e)"
  obtain ch where a: "array_ok (hm_items m)" "array_ok (hm_debug m)"
    and c: "chain ?v (hm_buckets m ! ?b) (ch ?b)" using map_okE [OF ok] by metis
  define ks where "ks = ch ?b"
  note c = c [folded ks_def]
  obtain prev where w: "chain_walk m (eid_id e) (-1) (hm_buckets m ! ?b) (hm_log m) = Some (prev, None, hm_log m)"
    and prev: "prev = last (-1 # map int ks)"
    using chain_walk_eq [OF a(1) c, of "eid_id e" "-1" "hm_log m"] found_eq [OF a(1) c] none by auto
  have room: "ca_length (hm_items m) + 1 < ca_capacity (hm_items m)" "ca_length (hm_debug m) = ca_length (hm_items m)"
    "ca_capacity (hm_debug m) = ca_capacity (hm_items m)" using ok assms(2) by (auto simp: map_ok_def table_full_def)
  define n where "n = nat (ca_length (hm_items m))"
  have n: "n = length ?v" "int n = ca_length (hm_items m)" using a(1) length_values_of [OF a(1)] by (simp_all add: n_def array_ok_def)
  obtain items where items: "Array_Add (hm_items m) (new_item m e le al) (hm_log m) = (Some n, items, hm_log m)"
    "array_ok items" "values_of items = ?v @ [new_item m e le al]" "ca_length items = ca_length (hm_items m) + 1"
    "ca_capacity items = ca_capacity (hm_items m)"
    using Array_Add_ok [OF a(1), of "new_item m e le al" "hm_log m"] room(1) by (auto simp: n_def)
  obtain d debug where debug: "Array_Add (hm_debug m) \<lparr>dd_collision = False, dd_collapsed = False\<rparr> (hm_log m) = (d, debug, hm_log m)"
    "array_ok debug" "ca_length debug = ca_length (hm_debug m) + 1" "ca_capacity debug = ca_capacity (hm_debug m)"
    using Array_Add_ok [OF a(2), of _ "hm_log m"] room by fastforce
  define x where "x = (new_item m e le al)\<lparr>hi_debugData := d\<rparr>"
  define m1 where "m1 = set_item (Some n) (\<lambda>it. it\<lparr>hi_debugData := d\<rparr>) (m\<lparr>hm_items := items, hm_debug := debug, hm_log := hm_log m\<rparr>)"
  have m1: "values_of (hm_items m1) = ?v @ [x]" "array_ok (hm_items m1)" "hm_debug m1 = debug" "hm_log m1 = hm_log m"
    "hm_generation m1 = hm_generation m" "hm_buckets m1 = hm_buckets m" "ca_length (hm_items m1) = int n + 1"
    "ca_capacity (hm_items m1) = ca_capacity (hm_items m)"
    using items n by (simp_all add: m1_def set_item_values x_def)
  have x: "eid_id (hi_elementId x) = eid_id e" "hi_nextIndex x = -1" "hi_layoutElement x = le" "hi_idAlias x = al"
    "hi_generation x = hm_generation m + 1" by (simp_all add: x_def new_item_def)
  define m2 where "m2 = link_item m1 prev ?b (int n)"
  have add: "Clay__AddHashMapItem e le al m = Some (Inr (Some n), m2)"
    using assms(2) w items(1) debug(1) m1(7) by (simp add: Clay__AddHashMapItem_def table_full_def m2_def m1_def Let_def)
  have lk: "array_ok (hm_items m2) \<and> hm_debug m2 = debug \<and> hm_log m2 = hm_log m \<and> hm_generation m2 = hm_generation m \<and>
      ca_length (hm_items m2) = int n + 1 \<and> ca_capacity (hm_items m2) = ca_capacity (hm_items m) \<and>
      values_of (hm_items m2) = (if ks = [] then ?v @ [x] else (?v @ [x])[last ks := (?v ! last ks)\<lparr>hi_nextIndex := int n\<rparr>]) \<and>
      hm_buckets m2 = (if ks = [] then (hm_buckets m)[?b := int n] else hm_buckets m)"
  proof (cases "ks = []")
    case True
    then show ?thesis using m1 prev by (simp add: m2_def link_item_def)
  next
    case False
    then have l: "last ks < n" "prev = int (last ks)" using chain_less [OF c] n prev by (simp_all add: last_map)
    then have "Array_Get (hm_items m1) prev (hm_log m1) = (Some (last ks), hm_log m)" using m1 by (simp add: Array_Get_in)
    then have "m2 = set_item (Some (last ks)) (\<lambda>it. it\<lparr>hi_nextIndex := int n\<rparr>) (m1\<lparr>hm_log := hm_log m\<rparr>)"
      using l m1(4) by (simp add: m2_def link_item_def)
    then show ?thesis using False m1 l(1) n by (simp add: set_item_values nth_append)
  qed
  have "map_ok m2 \<and> declared m2 = (declared m)(eid_id (hi_elementId x) \<mapsto> (hi_layoutElement x, hi_idAlias x, hi_generation x))"
    using lk debug room n c none
    by (intro insert_ok [OF ok x(2), of ks]) (simp_all add: x(1))
  then show ?thesis using add lk by (simp add: x)
qed

text \<open>What a declaration does to the table.\<close>

lemma Clay__AddHashMapItem_ok:
  assumes ok: "map_ok m"
  shows "\<exists>r m'. Clay__AddHashMapItem e le al m = Some (r, m') \<and> map_ok m' \<and> hm_generation m' = hm_generation m \<and>
    (if table_full m then r = Inl () \<and> m' = m
     else if \<exists>x a g. declared m (eid_id e) = Some (x, a, g) \<and> hm_generation m < g
     then declared m' = declared m \<and> hm_log m' = hm_log m @ [CLAY_ERROR_TYPE_DUPLICATE_ID]
     else declared m' = (declared m)(eid_id e \<mapsto> (le, al, hm_generation m + 1)) \<and> hm_log m' = hm_log m)"
proof (cases "table_full m")
  case True
  then show ?thesis using ok by (simp add: Clay__AddHashMapItem_def table_full_def)
next
  case False
  let ?v = "values_of (hm_items m)" and ?b = "bucket_of m (eid_id e)"
  show ?thesis
  proof (cases "found m (eid_id e)")
    case None
    then show ?thesis using add_new [OF ok False None, of le al] False by (auto simp: declared_def)
  next
    case (Some k)
    obtain ch where a: "array_ok (hm_items m)" "array_ok (hm_debug m)"
      and c: "chain ?v (hm_buckets m ! ?b) (ch ?b)" using map_okE [OF ok] by metis
    have ic: "in_chain ?v (eid_id e) (ch ?b) = Some k" using found_eq [OF a(1) c] Some by simp
    then obtain prev where w: "chain_walk m (eid_id e) (-1) (hm_buckets m ! ?b) (hm_log m) = Some (prev, Some (Some k), hm_log m)"
      using chain_walk_eq [OF a(1) c, of "eid_id e" "-1" "hm_log m"] by auto
    have k: "k < length ?v" "item_of m (Some k) = ?v ! k"
      using in_chain_set [OF ic] chain_less [OF c] item_of_values [OF a(1)] by auto
    have d: "declared m (eid_id e) = Some (entry_at ?v k)" using declared_eq [OF a(1) c] ic by simp
    define g where "g = (\<lambda>it :: 'a hash_item. it\<lparr>hi_elementId := e, hi_idAlias := al, hi_generation := hm_generation m + 1,
        hi_layoutElement := le, hi_onHover := None\<rparr>)"
    show ?thesis
    proof (cases "hi_generation (?v ! k) \<le> hm_generation m")
      case True
      let ?m = "set_collision (hi_debugData (?v ! k)) False (set_item (Some k) g m)"
      have "Clay__AddHashMapItem e le al m = Some (Inr (Some k), ?m)"
        using False w k(2) True by (simp add: Clay__AddHashMapItem_def table_full_def g_def Let_def)
      moreover have up: "map_ok (set_item (Some k) g m) \<and> declared (set_item (Some k) g m) = (declared m)(eid_id e \<mapsto> (le, al, hm_generation m + 1))"
        by (rule refresh_ok [OF ok k(1) Some]) (simp_all add: g_def)
      moreover have "map_ok ?m \<and> declared ?m = declared (set_item (Some k) g m)"
        using up by (intro same_table) simp_all
      ultimately show ?thesis using False d True by (auto simp: entry_at_def)
    next
      case dup: False
      let ?l = "m\<lparr>hm_log := hm_log m @ [CLAY_ERROR_TYPE_DUPLICATE_ID]\<rparr>"
      let ?m = "if hm_debugMode m then set_collision (hi_debugData (?v ! k)) True ?l else ?l"
      have "Clay__AddHashMapItem e le al m = Some (Inr (Some k), ?m)"
        using False w k(2) dup by (simp add: Clay__AddHashMapItem_def table_full_def Let_def)
      moreover have "map_ok ?m \<and> declared ?m = declared m" using ok by (intro same_table) simp_all
      ultimately show ?thesis using False d dup by (auto simp: entry_at_def)
    qed
  qed
qed

section \<open>Tables that come to be\<close>

text \<open>Anything that happens to the table: it is made, an element is declared, one is looked for, a frame begins
  (\<open>Clay_BeginLayout\<close>), the debug view is switched.\<close>

inductive map_reached :: "'h hash_map \<Rightarrow> bool" where
  made: "length memory = n \<Longrightarrow> length dmemory = n \<Longrightarrow> 0 < n \<Longrightarrow> map_reached (empty_map memory dflt dmemory ddflt)"
| declared: "map_reached m \<Longrightarrow> Clay__AddHashMapItem e le al m = Some (r, m') \<Longrightarrow> map_reached m'"
| looked: "map_reached m \<Longrightarrow> Clay__GetHashMapItem i m = Some (p, m') \<Longrightarrow> map_reached m'"
| frame: "map_reached m \<Longrightarrow> map_reached (m\<lparr>hm_generation := hm_generation m + 1\<rparr>)"
| debug: "map_reached m \<Longrightarrow> map_reached (m\<lparr>hm_debugMode := b\<rparr>)"

lemma empty_map_ok:
  assumes "length memory = n" and "length dmemory = n" and "0 < n"
  shows "map_ok (empty_map memory dflt dmemory ddflt)" and "declared (empty_map memory dflt dmemory ddflt) i = None"
proof -
  let ?m = "empty_map memory dflt dmemory ddflt"
  have v: "values_of (hm_items ?m) = []" by (simp add: empty_map_def values_of_def)
  have a: "array_ok (hm_items ?m)" by (simp add: empty_map_def array_ok_def)
  show "map_ok ?m" unfolding map_ok_def v using assms
    by (auto simp: empty_map_def array_ok_def buckets_ok_def intro!: exI [of _ "\<lambda>_. []"])
  have "bucket_of ?m i < n" using assms by (simp add: bucket_of_def empty_map_def)
  then have "chain (values_of (hm_items ?m)) (hm_buckets ?m ! bucket_of ?m i) []" using assms by (simp add: empty_map_def)
  from declared_eq [OF a this] show "declared ?m i = None" by (simp add: in_chain_def)
qed

lemma map_reached_ok: "map_reached m \<Longrightarrow> map_ok m"
proof (induction rule: map_reached.induct)
  case (made memory n dmemory dflt ddflt)
  then show ?case by (rule empty_map_ok(1))
next
  case (declared m e le al r m')
  then show ?case using Clay__AddHashMapItem_ok [of m e le al] by auto
next
  case (looked m i p m')
  then show ?case using Clay__GetHashMapItem_ok [of m i] by simp
next
  case (frame m)
  then show ?case using same_table [of "m\<lparr>hm_generation := hm_generation m + 1\<rparr>" m] by simp
next
  case (debug m b)
  then show ?case using same_table [of "m\<lparr>hm_debugMode := b\<rparr>" m] by simp
qed

section \<open>A frame\<close>

text \<open>
  A store in which declarations are made: one that is \<open>fresh\<close> replaces what its key held and leaves every other
  key alone, as long as there is room.
\<close>

locale declaration_store =
  fixes ok :: "'s \<Rightarrow> bool" and room :: "'s \<Rightarrow> nat" and look :: "'s \<Rightarrow> 'k \<Rightarrow> 'v option"
    and fresh :: "'s \<Rightarrow> 'k \<Rightarrow> bool" and key :: "'d \<Rightarrow> 'k" and val :: "'d \<Rightarrow> 'v" and add :: "'d \<Rightarrow> 's \<Rightarrow> 's"
    and same :: "'s \<Rightarrow> 's \<Rightarrow> bool"
  assumes same_refl: "same s s" and same_trans: "same s t \<Longrightarrow> same t u \<Longrightarrow> same s u"
    and add_ok: "\<lbrakk>ok s; 0 < room s; fresh s (key d)\<rbrakk> \<Longrightarrow> ok (add d s) \<and> same s (add d s) \<and> room s \<le> Suc (room (add d s)) \<and>
      look (add d s) = (look s)(key d \<mapsto> val d) \<and> (\<forall>k. k \<noteq> key d \<longrightarrow> fresh s k \<longrightarrow> fresh (add d s) k)"
begin

lemma declare_all:
  assumes "ok s" and "length ds \<le> room s" and "distinct (map key ds)" and "\<And>d. d \<in> set ds \<Longrightarrow> fresh s (key d)"
  shows "ok (fold add ds s) \<and> same s (fold add ds s) \<and> look (fold add ds s) = look s ++ map_of (map (\<lambda>d. (key d, val d)) ds)"
  using assms
proof (induction ds arbitrary: s)
  case (Cons d ds)
  have a: "ok (add d s)" "same s (add d s)" "room s \<le> Suc (room (add d s))" "look (add d s) = (look s)(key d \<mapsto> val d)"
    "\<And>k. k \<noteq> key d \<Longrightarrow> fresh s k \<Longrightarrow> fresh (add d s) k"
    using add_ok [of s d] Cons.prems by auto
  have "fresh (add d s) (key c)" if "c \<in> set ds" for c
    using a(5) Cons.prems(3,4) that by (metis distinct.simps(2) image_eqI list.set_intros(2) list.set_map list.simps(9))
  then have "ok (fold add ds (add d s)) \<and> same (add d s) (fold add ds (add d s)) \<and>
      look (fold add ds (add d s)) = look (add d s) ++ map_of (map (\<lambda>d. (key d, val d)) ds)"
    using Cons.prems a by (intro Cons.IH) auto
  moreover have "map_of (map (\<lambda>d. (key d, val d)) ds) (key d) = None" using Cons.prems(3) by (auto simp: map_of_eq_None_iff)
  ultimately have "look (fold add ds (add d s)) = look s ++ map_of (map (\<lambda>d. (key d, val d)) (d # ds))"
    using a(4) by (auto simp: fun_eq_iff map_add_def split: option.splits)
  then show ?case unfolding fold_simps using \<open>ok (fold add ds (add d s)) \<and> _\<close> a(2) same_trans by blast
qed (simp add: same_refl)

end

text \<open>The table is one: a key is fresh until it is declared in the current frame.\<close>

type_synonym element_declaration = "clay_element_id \<times> nat \<times> 32 word"

definition declare_element :: "element_declaration \<Rightarrow> 'h hash_map \<Rightarrow> 'h hash_map" where
  "declare_element d m = (case d of (e, le, al) \<Rightarrow> (case Clay__AddHashMapItem e le al m of Some (_, m') \<Rightarrow> m' | None \<Rightarrow> m))"

definition element_of :: "'h hash_map \<Rightarrow> 32 word \<Rightarrow> (nat \<times> 32 word) option" where
  "element_of m i = map_option (\<lambda>(le, al, g). (le, al)) (declared m i)"

definition undeclared :: "'h hash_map \<Rightarrow> 32 word \<Rightarrow> bool" where
  "undeclared m i \<longleftrightarrow> (case declared m i of None \<Rightarrow> True | Some (le, al, g) \<Rightarrow> g \<le> hm_generation m)"

definition free_items :: "'h hash_map \<Rightarrow> nat" where
  "free_items m = nat (ca_capacity (hm_items m) - 1 - ca_length (hm_items m))"

lemma declare_element_ok:
  assumes "map_ok m" and "0 < free_items m" and "undeclared m (eid_id (fst d))"
  shows "map_ok (declare_element d m) \<and> hm_log (declare_element d m) = hm_log m \<and> hm_generation (declare_element d m) = hm_generation m \<and>
    declared (declare_element d m) = (declared m)(eid_id (fst d) \<mapsto> (fst (snd d), snd (snd d), hm_generation m + 1))"
proof -
  obtain e le al where d: "d = (e, le, al)" by (cases d)
  have "\<not> table_full m" using assms(2) by (simp add: free_items_def table_full_def)
  moreover have "\<not> (\<exists>x a g. declared m (eid_id e) = Some (x, a, g) \<and> hm_generation m < g)"
    using assms(3) by (auto simp: undeclared_def d)
  ultimately show ?thesis using Clay__AddHashMapItem_ok [OF assms(1), of e le al] by (auto simp: declare_element_def d)
qed

text \<open>A declaration takes one item at most, for good.\<close>

lemma declare_element_length:
  "ca_length (hm_items (declare_element d m)) \<le> ca_length (hm_items m) + 1 \<and>
   ca_capacity (hm_items (declare_element d m)) = ca_capacity (hm_items m)"
proof -
  have link: "ca_length (hm_items (link_item m p b n)) = ca_length (hm_items m)" "length (ca_cells (hm_items (link_item m p b n))) = length (ca_cells (hm_items m))"
    for m :: "'a hash_map" and p b n by (simp_all add: link_item_def split: prod.split)
  show ?thesis
    by (auto simp: declare_element_def Clay__AddHashMapItem_def Let_def link Array_Add_def Clay__Array_AddCapacityCheck_def
      split: prod.splits option.splits if_splits)
qed

interpretation elements: declaration_store map_ok free_items element_of undeclared "\<lambda>d :: element_declaration. eid_id (fst d)" snd declare_element
  "\<lambda>m m'. hm_log m' = hm_log m"
proof
  fix m :: "'h hash_map" and d :: element_declaration
  assume a: "map_ok m" "0 < free_items m" "undeclared m (eid_id (fst d))"
  note o = declare_element_ok [OF a]
  have "element_of (declare_element d m) = (element_of m)(eid_id (fst d) \<mapsto> snd d)"
    using o by (auto simp: element_of_def fun_eq_iff)
  moreover have "free_items m \<le> Suc (free_items (declare_element d m))"
    using declare_element_length [of d m] unfolding free_items_def by linarith
  moreover have "k \<noteq> eid_id (fst d) \<Longrightarrow> undeclared m k \<Longrightarrow> undeclared (declare_element d m) k" for k
    using o by (auto simp: undeclared_def split: option.splits)
  ultimately show "map_ok (declare_element d m) \<and> hm_log (declare_element d m) = hm_log m \<and>
      free_items m \<le> Suc (free_items (declare_element d m)) \<and>
      element_of (declare_element d m) = (element_of m)(eid_id (fst d) \<mapsto> snd d) \<and>
      (\<forall>k. k \<noteq> eid_id (fst d) \<longrightarrow> undeclared m k \<longrightarrow> undeclared (declare_element d m) k)" using o by blast
qed auto

end
