(* ===== verification/Clay_Order.thy ===== *)
theory Clay_Order
  imports Clay_Array Byte_Order "HOL-Library.Multiset"
begin

text \<open>
  Pieces of the layout library (modules/clay/clay.h) that order and write things: the sort of the trees of a layout by
  their z-index, numbers written into the string buffer, and the state of the pointer from frame to frame.
\<close>

section \<open>Trees by their z-index\<close>

record 'v tree_root =
  tr_layoutElementIndex :: int
  tr_parentId :: "32 word"
  tr_clipElementId :: "32 word"
  tr_zIndex :: "16 word"
  tr_pointerOffset :: "'v \<times> 'v"

definition z_of :: "'v tree_root \<Rightarrow> int" where
  "z_of r = sint (tr_zIndex r)"

text \<open>One pass of the bubble sort of \<open>Clay__CalculateFinalLayout\<close>, over the first \<open>sortMax\<close> pairs, and the loop
  that lowers \<open>sortMax\<close>. Every index is below the length of the array.\<close>

definition bubble_step :: "nat \<Rightarrow> 'v tree_root list \<Rightarrow> 'v tree_root list" where
  "bubble_step i rs =
     (let current = rs ! i; next = rs ! (i + 1)
      in if z_of next < z_of current then rs[i := next, i + 1 := current] else rs)"

definition bubble_pass :: "nat \<Rightarrow> 'v tree_root list \<Rightarrow> 'v tree_root list" where
  "bubble_pass sortMax rs = fold bubble_step [0..<sortMax] rs"

primrec bubble_loop :: "nat \<Rightarrow> 'v tree_root list \<Rightarrow> 'v tree_root list" where
  "bubble_loop 0 rs = rs"
| "bubble_loop (Suc sortMax) rs = bubble_loop sortMax (bubble_pass (Suc sortMax) rs)"

definition sort_roots :: "'v tree_root list \<Rightarrow> 'v tree_root list" where
  "sort_roots rs = bubble_loop (length rs - 1) rs"

text \<open>A step keeps what there is, and the order of trees with the same index.\<close>

lemma split_at_pair: "i + 1 < length xs \<Longrightarrow> xs = take i xs @ xs ! i # xs ! (i + 1) # drop (i + 2) xs"
  by (metis Cons_nth_drop_Suc Suc_eq_plus1 Suc_lessD add_2_eq_Suc' append_take_drop_id)

lemma bubble_step_split:
  assumes "i + 1 < length rs"
  shows "bubble_step i rs = take i rs @ (if z_of (rs ! (i + 1)) < z_of (rs ! i) then [rs ! (i + 1), rs ! i] else [rs ! i, rs ! (i + 1)]) @ drop (i + 2) rs"
proof -
  have l: "length (take i rs) = i" using assms by simp
  have "rs[i := x, i + 1 := y] = take i rs @ x # y # drop (i + 2) rs" for x y
    using l by (subst (1) split_at_pair [OF assms]) (simp add: list_update_append)
  then show ?thesis using split_at_pair [OF assms] by (simp add: bubble_step_def Let_def)
qed

lemma length_bubble_step [simp]: "length (bubble_step i rs) = length rs"
  by (simp add: bubble_step_def Let_def)

lemma bubble_step_keeps:
  assumes "i + 1 < length rs"
  shows "mset (bubble_step i rs) = mset rs" and "filter (\<lambda>r. z = z_of r) (bubble_step i rs) = filter (\<lambda>r. z = z_of r) rs"
proof -
  let ?a = "rs ! i" and ?b = "rs ! (i + 1)"
  note s = split_at_pair [OF assms]
  have "mset rs = mset (take i rs) + {#?a, ?b#} + mset (drop (i + 2) rs)" by (subst s) simp
  then show "mset (bubble_step i rs) = mset rs" unfolding bubble_step_split [OF assms] by simp
  have "filter (\<lambda>r. z = z_of r) rs = filter (\<lambda>r. z = z_of r) (take i rs) @ filter (\<lambda>r. z = z_of r) [?a, ?b] @ filter (\<lambda>r. z = z_of r) (drop (i + 2) rs)"
    by (subst s) simp
  then show "filter (\<lambda>r. z = z_of r) (bubble_step i rs) = filter (\<lambda>r. z = z_of r) rs"
    unfolding bubble_step_split [OF assms] by simp
qed

lemma bubble_step_nth:
  "i + 1 < length rs \<Longrightarrow> j < length rs \<Longrightarrow> bubble_step i rs ! j =
    (if z_of (rs ! (i + 1)) < z_of (rs ! i) then if j = i then rs ! (i + 1) else if j = i + 1 then rs ! i else rs ! j else rs ! j)"
  by (auto simp: bubble_step_def Let_def nth_list_update)

text \<open>After a pass the largest of the values it went over is the last of them, and what is behind is untouched.\<close>

lemma bubble_pass_ok:
  assumes "n < length rs"
  shows "length (bubble_pass n rs) = length rs \<and> mset (bubble_pass n rs) = mset rs \<and>
    filter (\<lambda>r. z = z_of r) (bubble_pass n rs) = filter (\<lambda>r. z = z_of r) rs \<and>
    (\<forall>j. n < j \<longrightarrow> j < length rs \<longrightarrow> bubble_pass n rs ! j = rs ! j) \<and> (\<forall>j \<le> n. z_of (bubble_pass n rs ! j) \<le> z_of (bubble_pass n rs ! n))"
  using assms
proof (induction n)
  case 0
  then show ?case by (simp add: bubble_pass_def)
next
  case (Suc n)
  let ?p = "bubble_pass n rs"
  have p: "length ?p = length rs" "mset ?p = mset rs" "filter (\<lambda>r. z = z_of r) ?p = filter (\<lambda>r. z = z_of r) rs"
    "\<And>j. n < j \<Longrightarrow> j < length rs \<Longrightarrow> ?p ! j = rs ! j" "\<And>j. j \<le> n \<Longrightarrow> z_of (?p ! j) \<le> z_of (?p ! n)"
    using Suc by auto
  have i: "n + 1 < length ?p" using Suc.prems p(1) by simp
  have s: "bubble_pass (Suc n) rs = bubble_step n ?p" by (simp add: bubble_pass_def)
  note nth = bubble_step_nth [OF i]
  have "z_of (bubble_step n ?p ! j) \<le> z_of (bubble_step n ?p ! Suc n)" if "j \<le> Suc n" for j
  proof -
    have "j < length ?p" "Suc n < length ?p" using that i by auto
    then show ?thesis using p(5) [of j] that i by (auto simp: nth le_Suc_eq dest: order_trans)
  qed
  moreover have "bubble_step n ?p ! j = rs ! j" if "Suc n < j" "j < length rs" for j
    using that p(1) p(4) by (simp add: nth)
  ultimately show ?case using bubble_step_keeps [OF i] p s by simp
qed

lemma bubble_loop_ok:
  assumes "n < length rs" and "\<And>j k. n < k \<Longrightarrow> k < length rs \<Longrightarrow> j \<le> k \<Longrightarrow> z_of (rs ! j) \<le> z_of (rs ! k)"
  shows "mset (bubble_loop n rs) = mset rs \<and> filter (\<lambda>r. z = z_of r) (bubble_loop n rs) = filter (\<lambda>r. z = z_of r) rs \<and>
    sorted (map z_of (bubble_loop n rs))"
  using assms
proof (induction n arbitrary: rs)
  case 0
  have "z_of (rs ! j) \<le> z_of (rs ! k)" if "j \<le> k" "k < length rs" for j k
    using 0 that by (cases "k = 0") auto
  then show ?case by (simp add: sorted_iff_nth_mono)
next
  case (Suc n)
  let ?p = "bubble_pass (Suc n) rs"
  have p: "length ?p = length rs" "mset ?p = mset rs" "filter (\<lambda>r. z = z_of r) ?p = filter (\<lambda>r. z = z_of r) rs"
    "\<And>j. Suc n < j \<Longrightarrow> j < length rs \<Longrightarrow> ?p ! j = rs ! j" "\<And>j. j \<le> Suc n \<Longrightarrow> z_of (?p ! j) \<le> z_of (?p ! Suc n)"
    using bubble_pass_ok [OF Suc.prems(1), of z] by auto
  have "z_of (?p ! j) \<le> z_of (?p ! k)" if k: "n < k" "k < length ?p" "j \<le> k" for j k
  proof (cases "k = Suc n")
    case True
    then show ?thesis using p(5) k by simp
  next
    case False
    then have k': "Suc n < k" using k by simp
    have "?p ! j \<in> set (map ((!) rs) [0..<k])" if "j < k"
    proof -
      have "mset (take k ?p) = mset (take k rs)"
      proof -
        have "drop k ?p = drop k rs" using k' p(1,4) by (intro nth_equalityI) auto
        then show ?thesis using p(2) by (metis add_right_imp_eq append_take_drop_id mset_append)
      qed
      moreover have "?p ! j \<in> set (take k ?p)" using that k by (auto simp: in_set_conv_nth)
      ultimately have "?p ! j \<in> set (take k rs)" by (metis set_mset_mset)
      then show ?thesis using k p(1) by (force simp: in_set_conv_nth image_iff)
    qed
    then show ?thesis using Suc.prems(2) [OF k'] k k' p(1,4) by (cases "j = k") (auto simp: less_imp_le)
  qed
  then show ?case using Suc.IH [of ?p] Suc.prems(1) p by simp
qed

lemma sort_roots_eq: "sort_roots rs = sort_key z_of rs"
proof (cases rs)
  case Nil
  then show ?thesis by (simp add: sort_roots_def)
next
  case (Cons r rs')
  have "mset (sort_roots rs) = mset rs" "filter (\<lambda>r. z = z_of r) (sort_roots rs) = filter (\<lambda>r. z = z_of r) rs" "sorted (map z_of (sort_roots rs))" for z
    using bubble_loop_ok [of "length rs - 1" rs z] Cons by (auto simp: sort_roots_def)
  then show ?thesis by (intro properties_for_sort_key [symmetric]) auto
qed

section \<open>Numbers as text\<close>

text \<open>
  \<open>Clay__IntToString\<close>: the digits from the last to the first, a minus behind them, and then the characters are
  reversed where they are. \<open>- integer\<close> is computed in 32 bits. The caller gets the characters; the
  length of the buffer grows by their number.
\<close>

function int_digits :: "int \<Rightarrow> byte list \<Rightarrow> byte list" where
  "int_digits integer chars =
     (if 0 < integer then int_digits (integer div 10) (chars @ [word_of_int (integer mod 10 + 48)]) else chars)"
  by pat_completeness auto
termination int_digits
  by (relation "measure (\<lambda>(n, _). nat n)") auto

declare int_digits.simps [simp del]

function reverse_chars :: "int \<Rightarrow> int \<Rightarrow> byte list \<Rightarrow> byte list" where
  "reverse_chars j k chars =
     (if j < k then reverse_chars (j + 1) (k - 1) (chars[nat j := chars ! nat k, nat k := chars ! nat j]) else chars)"
  by pat_completeness auto
termination reverse_chars
  by (relation "measure (\<lambda>(j, k, _). nat (k - j))") auto

declare reverse_chars.simps [simp del]

definition neg32 :: "int \<Rightarrow> int" where
  "neg32 i = sint (word_of_int (- i) :: 32 word)"

definition Clay__IntToString :: "int \<Rightarrow> int \<Rightarrow> byte list \<times> int" where
  "Clay__IntToString integer buffered =
     (if integer = 0 then ([48], buffered)
      else let chars = int_digits (if integer < 0 then neg32 integer else integer) [];
               chars = (if integer < 0 then chars @ [45] else chars);
               chars = reverse_chars 0 (int (length chars) - 1) chars
           in (chars, buffered + int (length chars)))"

lemma int_digits_show: "0 < n \<Longrightarrow> int_digits n chars = chars @ rev (bytes_of (show_nat (nat n)))"
proof (induction n chars rule: int_digits.induct)
  case (1 n chars)
  have d: "word_of_int (n mod 10) = (word_of_nat (nat n mod 10) :: byte)"
  proof -
    have "n mod 10 = int (nat n mod 10)" using "1.prems" by (simp add: zmod_int)
    then show ?thesis by (simp only: of_int_of_nat_eq)
  qed
  show ?case
  proof (cases "n < 10")
    case True
    then show ?thesis using "1.prems"
      by (subst int_digits.simps) (simp add: int_digits.simps show_nat.simps bytes_of_def)
  next
    case False
    then have "int_digits n chars = chars @ [word_of_int (n mod 10 + 48)] @ rev (bytes_of (show_nat (nat (n div 10))))"
      using 1 by (subst int_digits.simps) simp
    moreover have "show_nat (nat n) = show_nat (nat (n div 10)) @ [char_of (48 + nat n mod 10)]"
      using False by (subst show_nat.simps) (simp add: nat_div_distrib)
    ultimately show ?thesis by (simp add: d bytes_of_def)
  qed
qed

lemma reverse_chars_eq: "chars \<noteq> [] \<Longrightarrow> i \<le> length chars div 2 \<Longrightarrow> reverse_chars (int i) (int (length chars) - 1 - int i) chars = reorder_loop i chars"
proof (induction i chars rule: reorder_loop.induct)
  case (1 i chars)
  show ?case
  proof (cases "i < length chars div 2")
    case True
    then have c: "int i < int (length chars) - 1 - int i" "nat (int (length chars) - 1 - int i) = length chars - 1 - i" by auto
    let ?c = "chars[i := chars ! (length chars - 1 - i), length chars - 1 - i := chars ! i]"
    have "reverse_chars (int (Suc i)) (int (length ?c) - 1 - int (Suc i)) ?c = reorder_loop (Suc i) ?c"
      using "1.IH" [OF True] "1.prems" True by simp
    then show ?thesis using True c by (subst reverse_chars.simps, subst reorder_loop.simps) (simp add: algebra_simps)
  next
    case False
    then show ?thesis by (subst reverse_chars.simps, subst reorder_loop.simps) auto
  qed
qed

lemma Clay__IntToString_eq:
  assumes "- (2 ^ 31) < i" and "i < 2 ^ 31"
  shows "fst (Clay__IntToString i n) = bytes_of (show_int i)"
proof (cases "i = 0")
  case True
  then show ?thesis by (simp add: Clay__IntToString_def show_int_def show_nat.simps bytes_of_def)
next
  case False
  have neg: "i < 0 \<Longrightarrow> neg32 i = - i"
    unfolding neg32_def sint_sbintrunc' using assms by (intro signed_take_bit_int_eq_self) simp_all
  let ?m = "if i < 0 then neg32 i else i"
  define chars where "chars = (if i < 0 then int_digits ?m [] @ [45] else int_digits ?m [])"
  have c: "chars = rev (bytes_of (show_int i))"
    using int_digits_show [of ?m "[]"] neg False by (auto simp: chars_def show_int_def bytes_of_def)
  have "show_nat k \<noteq> []" for k by (subst show_nat.simps) simp
  then have ne: "chars \<noteq> []" unfolding c by (simp add: show_int_def bytes_of_def)
  have "reverse_chars 0 (int (length chars) - 1) chars = rev chars"
    using reverse_chars_eq [OF ne, of 0] reorder_loop_rev [of chars] by simp
  then show ?thesis using False c by (simp add: Clay__IntToString_def chars_def Let_def)
qed

text \<open>The smallest number has no positive counterpart in 32 bits: of it only the sign is written.\<close>

lemma Clay__IntToString_min: "fst (Clay__IntToString (- (2 ^ 31)) n) = [45]"
  by (simp add: Clay__IntToString_def neg32_def int_digits.simps reverse_chars.simps)

section \<open>The pointer\<close>

datatype pointer_state = CLAY_POINTER_DATA_PRESSED_THIS_FRAME | CLAY_POINTER_DATA_PRESSED
  | CLAY_POINTER_DATA_RELEASED_THIS_FRAME | CLAY_POINTER_DATA_RELEASED

definition pointer_next :: "bool \<Rightarrow> pointer_state \<Rightarrow> pointer_state" where
  "pointer_next isPointerDown state =
     (if isPointerDown
      then if state = CLAY_POINTER_DATA_PRESSED_THIS_FRAME then CLAY_POINTER_DATA_PRESSED
           else if state \<noteq> CLAY_POINTER_DATA_PRESSED then CLAY_POINTER_DATA_PRESSED_THIS_FRAME else state
      else if state = CLAY_POINTER_DATA_RELEASED_THIS_FRAME then CLAY_POINTER_DATA_RELEASED
           else if state \<noteq> CLAY_POINTER_DATA_RELEASED then CLAY_POINTER_DATA_RELEASED_THIS_FRAME else state)"

text \<open>Two frames say which of the four states the pointer is in, whatever it was before.\<close>

lemma pointer_two_frames:
  "pointer_next after (pointer_next before s) =
    (if after then if before then CLAY_POINTER_DATA_PRESSED else CLAY_POINTER_DATA_PRESSED_THIS_FRAME
     else if before then CLAY_POINTER_DATA_RELEASED_THIS_FRAME else CLAY_POINTER_DATA_RELEASED)"
  by (cases s) (auto simp: pointer_next_def)

end
