(* ===== verification/Clay_Text.thy ===== *)
theory Clay_Text
  imports Clay_Hash
begin

text \<open>
  The cache of measured texts of the layout library (modules/clay/clay.h, \<open>Clay__MeasureTextCached\<close>): a text is cut into
  words once, the words are measured by the host, and the entry is found again by a hash of the text. Entries
  not asked for in more than two frames are thrown out when the walk along their bucket meets them; their words
  go to a list of free words and are used again.
\<close>

section \<open>The cache\<close>

text \<open>
  Single-precision arithmetic is a parameter: the operations, the comparisons (of which several may fail, for a value that is
  not a number), the numbers converted from integers, the largest one, and the bytes of a value in memory.
\<close>

record 'f f32 =
  z32 :: 'f
  add32 :: "'f \<Rightarrow> 'f \<Rightarrow> 'f"
  sub32 :: "'f \<Rightarrow> 'f \<Rightarrow> 'f"
  gt32 :: "'f \<Rightarrow> 'f \<Rightarrow> bool"
  of16 :: "16 word \<Rightarrow> 'f"
  mul32 :: "'f \<Rightarrow> 'f \<Rightarrow> 'f"
  div32 :: "'f \<Rightarrow> 'f \<Rightarrow> 'f"
  le32 :: "'f \<Rightarrow> 'f \<Rightarrow> bool"
  eq32 :: "'f \<Rightarrow> 'f \<Rightarrow> bool"
  int32 :: "int \<Rightarrow> 'f"
  max32 :: 'f
  bytes32 :: "'f \<Rightarrow> byte list"

definition CLAY__MAX :: "'f f32 \<Rightarrow> 'f \<Rightarrow> 'f \<Rightarrow> 'f" where
  "CLAY__MAX F x y = (if gt32 F x y then x else y)"

definition CLAY__MIN :: "'f f32 \<Rightarrow> 'f \<Rightarrow> 'f \<Rightarrow> 'f" where
  "CLAY__MIN F x y = (if gt32 F y x then x else y)"

record 'f measured_word =
  mw_startOffset :: int
  mw_length :: int
  mw_width :: 'f
  mw_next :: int

record 'f cache_item =
  ci_width :: 'f
  ci_height :: 'f
  ci_start :: int
  ci_minWidth :: 'f
  ci_newlines :: bool
  ci_id :: "32 word"
  ci_nextIndex :: int
  ci_generation :: "32 word"

text \<open>A pointer is an index, or \<open>None\<close> for the address of the default value of its type.\<close>

record 'f text_cache =
  tx_words :: "'f measured_word carray"
  tx_dfltWord :: "'f measured_word"
  tx_wordsFree :: "int carray"
  tx_items :: "'f cache_item carray"
  tx_dfltItem :: "'f cache_item"
  tx_itemsFree :: "int carray"
  tx_buckets :: "int list"
  tx_maxWords :: int
  tx_generation :: "32 word"
  tx_notSet :: bool
  tx_exceeded :: bool
  tx_log :: clay_log

definition zero_item :: "'f f32 \<Rightarrow> 'f cache_item" where
  "zero_item F = \<lparr>ci_width = z32 F, ci_height = z32 F, ci_start = 0, ci_minWidth = z32 F, ci_newlines = False, ci_id = 0,
     ci_nextIndex = 0, ci_generation = 0\<rparr>"

definition word_of_ptr :: "'f text_cache \<Rightarrow> nat option \<Rightarrow> 'f measured_word" where
  "word_of_ptr c p = (case p of Some i \<Rightarrow> ca_cells (tx_words c) ! i | None \<Rightarrow> tx_dfltWord c)"

definition item_of_ptr :: "'f text_cache \<Rightarrow> nat option \<Rightarrow> 'f cache_item" where
  "item_of_ptr c p = (case p of Some i \<Rightarrow> ca_cells (tx_items c) ! i | None \<Rightarrow> tx_dfltItem c)"

definition put_word :: "nat option \<Rightarrow> ('f measured_word \<Rightarrow> 'f measured_word) \<Rightarrow> 'f text_cache \<Rightarrow> 'f text_cache" where
  "put_word p g c =
     (case p of
        Some i \<Rightarrow> c\<lparr>tx_words := (tx_words c)\<lparr>ca_cells := (ca_cells (tx_words c))[i := g (ca_cells (tx_words c) ! i)]\<rparr>\<rparr>
      | None \<Rightarrow> c\<lparr>tx_dfltWord := g (tx_dfltWord c)\<rparr>)"

definition put_item :: "nat option \<Rightarrow> ('f cache_item \<Rightarrow> 'f cache_item) \<Rightarrow> 'f text_cache \<Rightarrow> 'f text_cache" where
  "put_item p g c =
     (case p of
        Some i \<Rightarrow> c\<lparr>tx_items := (tx_items c)\<lparr>ca_cells := (ca_cells (tx_items c))[i := g (ca_cells (tx_items c) ! i)]\<rparr>\<rparr>
      | None \<Rightarrow> c\<lparr>tx_dfltItem := g (tx_dfltItem c)\<rparr>)"

text \<open>Range-checked calls on the arrays of the cache, which all log to the same handler.\<close>

definition get_word :: "int \<Rightarrow> 'f text_cache \<Rightarrow> nat option \<times> 'f text_cache" where
  "get_word i c = (case Array_Get (tx_words c) i (tx_log c) of (p, log) \<Rightarrow> (p, c\<lparr>tx_log := log\<rparr>))"

definition get_item :: "int \<Rightarrow> 'f text_cache \<Rightarrow> nat option \<times> 'f text_cache" where
  "get_item i c = (case Array_Get (tx_items c) i (tx_log c) of (p, log) \<Rightarrow> (p, c\<lparr>tx_log := log\<rparr>))"

definition free_word :: "int \<Rightarrow> 'f text_cache \<Rightarrow> 'f text_cache" where
  "free_word i c = (case Array_Add (tx_wordsFree c) i (tx_log c) of (_, a, log) \<Rightarrow> c\<lparr>tx_wordsFree := a, tx_log := log\<rparr>)"

definition free_item :: "int \<Rightarrow> 'f text_cache \<Rightarrow> 'f text_cache" where
  "free_item i c = (case Array_Add (tx_itemsFree c) i (tx_log c) of (_, a, log) \<Rightarrow> c\<lparr>tx_itemsFree := a, tx_log := log\<rparr>)"

definition set_cache_item :: "int \<Rightarrow> 'f cache_item \<Rightarrow> 'f text_cache \<Rightarrow> 'f text_cache" where
  "set_cache_item i it c = (case Array_Set (tx_items c) i it (tx_log c) of (a, log) \<Rightarrow> c\<lparr>tx_items := a, tx_log := log\<rparr>)"

section \<open>Words\<close>

text \<open>The word before a new one: the temporary word of the caller, or one of the array.\<close>

datatype word_ptr = Temp | Word "nat option"

text \<open>\<open>previousWord->next = i\<close>, where \<open>temp\<close> is the next index of the temporary word.\<close>

definition set_next :: "word_ptr \<Rightarrow> int \<Rightarrow> 'f text_cache \<times> int \<Rightarrow> 'f text_cache \<times> int" where
  "set_next prev i s =
     (case s of (c, temp) \<Rightarrow> (case prev of Temp \<Rightarrow> (c, i) | Word p \<Rightarrow> (put_word p (\<lambda>w. w\<lparr>mw_next := i\<rparr>) c, temp)))"

definition Clay__AddMeasuredWord ::
    "'f measured_word \<Rightarrow> word_ptr \<Rightarrow> 'f text_cache \<times> int \<Rightarrow> word_ptr \<times> 'f text_cache \<times> int" where
  "Clay__AddMeasuredWord word previousWord s =
     (case s of (c, temp) \<Rightarrow>
        if 0 < ca_length (tx_wordsFree c)
        then (case Array_GetValue 0 (tx_wordsFree c) (ca_length (tx_wordsFree c) - 1) (tx_log c) of (newItemIndex, log) \<Rightarrow>
              (case Array_Set (tx_words c) newItemIndex word log of (a, log) \<Rightarrow>
               (case set_next previousWord newItemIndex
                       (c\<lparr>tx_wordsFree := (tx_wordsFree c)\<lparr>ca_length := ca_length (tx_wordsFree c) - 1\<rparr>, tx_words := a, tx_log := log\<rparr>, temp)
                of (c, temp) \<Rightarrow>
                (case get_word newItemIndex c of (p, c) \<Rightarrow> (Word p, c, temp)))))
        else (case set_next previousWord (ca_length (tx_words c)) s of (c, temp) \<Rightarrow>
              (case Array_Add (tx_words c) word (tx_log c) of
                 (p, a, log) \<Rightarrow> (Word p, c\<lparr>tx_words := a, tx_log := log\<rparr>, temp))))"

text \<open>All the words of an entry go to the free list; \<open>None\<close> when their chain never ends.\<close>

partial_function (option) free_words :: "int \<Rightarrow> 'f text_cache \<Rightarrow> 'f text_cache option" where
  "free_words i c =
     (if i = -1 then Some c
      else case get_word i c of (p, c) \<Rightarrow>
        let c = free_word i c
        in free_words (mw_next (word_of_ptr c p)) c)"

section \<open>Looking for an entry\<close>

definition bucket_count :: "'f text_cache \<Rightarrow> nat" where
  "bucket_count c = nat (tx_maxWords c div 32)"

text \<open>An entry out of use is taken out of its chain.\<close>

definition unlink :: "nat \<Rightarrow> int \<Rightarrow> int \<Rightarrow> 'f text_cache \<Rightarrow> 'f text_cache" where
  "unlink bucket prev next c =
     (if prev = 0 then c\<lparr>tx_buckets := (tx_buckets c)[bucket := next]\<rparr>
      else case get_item prev c of (p, c) \<Rightarrow> put_item p (\<lambda>it. it\<lparr>ci_nextIndex := next\<rparr>) c)"

text \<open>The walk along a bucket: the entry found, or the index of the last entry of the chain.\<close>

partial_function (option) cache_walk ::
    "'f f32 \<Rightarrow> nat \<Rightarrow> 32 word \<Rightarrow> int \<Rightarrow> int \<Rightarrow> 'f text_cache \<Rightarrow> ((nat option + int) \<times> 'f text_cache) option" where
  "cache_walk F bucket i prev cur c =
     (if cur = 0 then Some (Inr prev, c)
      else case get_item cur c of (p, c) \<Rightarrow>
        if ci_id (item_of_ptr c p) = i
        then Some (Inl p, put_item p (\<lambda>it. it\<lparr>ci_generation := tx_generation c\<rparr>) c)
        else if 2 < tx_generation c - ci_generation (item_of_ptr c p)
        then (case free_words (ci_start (item_of_ptr c p)) c of
                None \<Rightarrow> None
              | Some c \<Rightarrow>
                  let next = ci_nextIndex (item_of_ptr c p);
                      c = set_cache_item cur ((zero_item F)\<lparr>ci_start := -1\<rparr>) c;
                      c = free_item cur c
                  in cache_walk F bucket i prev next (unlink bucket prev next c))
        else cache_walk F bucket i cur (ci_nextIndex (item_of_ptr c p)) c)"

section \<open>Measuring\<close>

type_synonym 'f measure = "byte list \<Rightarrow> clay_text_config \<Rightarrow> 'f \<times> 'f"

record 'f scan =
  sn_cache :: "'f text_cache"
  sn_temp :: int
  sn_prev :: word_ptr
  sn_start :: int
  sn_end :: int
  sn_line :: 'f
  sn_width :: 'f
  sn_height :: 'f

definition add_word :: "int \<Rightarrow> int \<Rightarrow> 'f \<Rightarrow> 'f scan \<Rightarrow> 'f scan" where
  "add_word start len width s =
     (case Clay__AddMeasuredWord \<lparr>mw_startOffset = start, mw_length = len, mw_width = width, mw_next = -1\<rparr> (sn_prev s) (sn_cache s, sn_temp s) of
        (p, c, temp) \<Rightarrow> s\<lparr>sn_cache := c, sn_temp := temp, sn_prev := p\<rparr>)"

definition slice :: "byte list \<Rightarrow> int \<Rightarrow> int \<Rightarrow> byte list" where
  "slice text start len = take (nat len) (drop (nat start) text)"

text \<open>The end of a word: at a space it takes the space with it, at a newline an empty word follows it.\<close>

definition scan_break :: "'f f32 \<Rightarrow> 'f measure \<Rightarrow> clay_text_config \<Rightarrow> byte list \<Rightarrow> nat option \<Rightarrow> 'f \<Rightarrow> byte \<Rightarrow> 'f scan \<Rightarrow> 'f scan" where
  "scan_break F mf config text measured spaceWidth current s =
     (let len = sn_end s - sn_start s;
          (w, h) = mf (slice text (sn_start s) len) config;
          s = s\<lparr>sn_cache := put_item measured (\<lambda>it. it\<lparr>ci_minWidth := CLAY__MAX F w (ci_minWidth it)\<rparr>) (sn_cache s),
                sn_height := CLAY__MAX F (sn_height s) h\<rparr>;
          s = (if current = 32
               then let w = add32 F w spaceWidth; s = add_word (sn_start s) (len + 1) w s
                    in s\<lparr>sn_line := add32 F (sn_line s) w\<rparr>
               else s);
          s = (if current = 10
               then let s = (if 0 < len then add_word (sn_start s) len w s else s);
                        s = add_word (sn_end s + 1) 0 (z32 F) s;
                        line = add32 F (sn_line s) w
                    in s\<lparr>sn_line := z32 F, sn_width := CLAY__MAX F line (sn_width s),
                         sn_cache := put_item measured (\<lambda>it. it\<lparr>ci_newlines := True\<rparr>) (sn_cache s)\<rparr>
               else s)
      in s\<lparr>sn_start := sn_end s + 1\<rparr>)"

definition exceeded :: "clay_error \<Rightarrow> 'f text_cache \<Rightarrow> 'f text_cache" where
  "exceeded e c = (if tx_exceeded c then c else c\<lparr>tx_log := tx_log c @ [e], tx_exceeded := True\<rparr>)"

text \<open>\<open>Inl\<close> is the return in the middle of the loop, when the words run out.\<close>

primrec scan_loop :: "'f f32 \<Rightarrow> 'f measure \<Rightarrow> clay_text_config \<Rightarrow> byte list \<Rightarrow> nat option \<Rightarrow> 'f \<Rightarrow> byte list \<Rightarrow> 'f scan \<Rightarrow> 'f text_cache + 'f scan" where
  "scan_loop F mf config text measured spaceWidth [] s = Inr s"
| "scan_loop F mf config text measured spaceWidth (current # rest) s =
     (if ca_length (tx_words (sn_cache s)) = ca_capacity (tx_words (sn_cache s)) - 1
      then Inl (exceeded CLAY_ERROR_TYPE_TEXT_MEASUREMENT_CAPACITY_EXCEEDED (sn_cache s))
      else let s = (if current = 32 \<or> current = 10 then scan_break F mf config text measured spaceWidth current s else s)
           in scan_loop F mf config text measured spaceWidth rest (s\<lparr>sn_end := sn_end s + 1\<rparr>))"

definition scan_last :: "'f f32 \<Rightarrow> 'f measure \<Rightarrow> clay_text_config \<Rightarrow> byte list \<Rightarrow> nat option \<Rightarrow> 'f scan \<Rightarrow> 'f scan" where
  "scan_last F mf config text measured s =
     (if 0 < sn_end s - sn_start s
      then let (w, h) = mf (slice text (sn_start s) (sn_end s - sn_start s)) config;
               s = add_word (sn_start s) (sn_end s - sn_start s) w s
           in s\<lparr>sn_line := add32 F (sn_line s) w, sn_height := CLAY__MAX F (sn_height s) h,
                sn_cache := put_item measured (\<lambda>it. it\<lparr>ci_minWidth := CLAY__MAX F w (ci_minWidth it)\<rparr>) (sn_cache s)\<rparr>
      else s)"

text \<open>The new entry: a free one, or one more; \<open>None\<close> when there is neither.\<close>

definition new_cache_entry :: "'f f32 \<Rightarrow> 32 word \<Rightarrow> 'f text_cache \<Rightarrow> (nat option \<times> int) option \<times> 'f text_cache" where
  "new_cache_entry F i c =
     (let newCacheItem = (zero_item F)\<lparr>ci_start := -1, ci_id := i, ci_generation := tx_generation c\<rparr>
      in if 0 < ca_length (tx_itemsFree c)
         then (case Array_GetValue 0 (tx_itemsFree c) (ca_length (tx_itemsFree c) - 1) (tx_log c) of (k, log) \<Rightarrow>
               (let c = set_cache_item k newCacheItem
                     (c\<lparr>tx_itemsFree := (tx_itemsFree c)\<lparr>ca_length := ca_length (tx_itemsFree c) - 1\<rparr>, tx_log := log\<rparr>)
                in case get_item k c of (p, c) \<Rightarrow> (Some (p, k), c)))
         else if ca_length (tx_items c) = ca_capacity (tx_items c) - 1
         then (None, exceeded CLAY_ERROR_TYPE_ELEMENTS_CAPACITY_EXCEEDED c)
         else (case Array_Add (tx_items c) newCacheItem (tx_log c) of (p, a, log) \<Rightarrow>
               (Some (p, ca_length a - 1), c\<lparr>tx_items := a, tx_log := log\<rparr>)))"

definition link_entry :: "nat \<Rightarrow> int \<Rightarrow> int \<Rightarrow> 'f text_cache \<Rightarrow> 'f text_cache" where
  "link_entry bucket prev k c =
     (if prev \<noteq> 0 then (case get_item prev c of (p, c) \<Rightarrow> put_item p (\<lambda>it. it\<lparr>ci_nextIndex := k\<rparr>) c)
      else c\<lparr>tx_buckets := (tx_buckets c)[bucket := k]\<rparr>)"

definition measure_new :: "'f f32 \<Rightarrow> 'f measure \<Rightarrow> byte list \<Rightarrow> clay_text_config \<Rightarrow> nat \<Rightarrow> 32 word \<Rightarrow> int \<Rightarrow> 'f text_cache \<Rightarrow> nat option \<times> 'f text_cache" where
  "measure_new F mf text config bucket i prev c =
     (case new_cache_entry F i c of
        (None, c) \<Rightarrow> (None, c)
      | (Some (measured, newItemIndex), c) \<Rightarrow>
          let spaceWidth = fst (mf [32] config);
              s = \<lparr>sn_cache = c, sn_temp = -1, sn_prev = Temp, sn_start = 0, sn_end = 0, sn_line = z32 F, sn_width = z32 F, sn_height = z32 F\<rparr>
          in case scan_loop F mf config text measured spaceWidth text s of
               Inl c \<Rightarrow> (None, c)
             | Inr s \<Rightarrow>
                 let s = scan_last F mf config text measured s;
                     width = sub32 F (CLAY__MAX F (sn_line s) (sn_width s)) (of16 F (tc_letterSpacing config));
                     c = put_item measured (\<lambda>it. it\<lparr>ci_start := sn_temp s, ci_width := width, ci_height := sn_height s\<rparr>) (sn_cache s)
                 in (measured, link_entry bucket prev newItemIndex c))"

definition Clay__MeasureTextCached ::
    "simd \<Rightarrow> 'f f32 \<Rightarrow> 'f measure option \<Rightarrow> clay_string \<Rightarrow> clay_text_config \<Rightarrow> 'f text_cache \<Rightarrow> (nat option \<times> 'f text_cache) option" where
  "Clay__MeasureTextCached build F mf text config c =
     (case mf of
        None \<Rightarrow> Some (None, if tx_notSet c then c
            else c\<lparr>tx_notSet := True, tx_log := tx_log c @ [CLAY_ERROR_TYPE_TEXT_MEASUREMENT_FUNCTION_NOT_PROVIDED]\<rparr>)
      | Some mf \<Rightarrow>
          let i = Clay__HashStringContentsWithConfig build text config;
              bucket = unat i mod bucket_count c
          in case cache_walk F bucket i 0 (tx_buckets c ! bucket) c of
               None \<Rightarrow> None
             | Some (Inl p, c) \<Rightarrow> Some (p, c)
             | Some (Inr prev, c) \<Rightarrow> Some (measure_new F mf (st_chars text) config bucket i prev c))"

text \<open>\<open>Clay_ResetMeasureTextCache\<close>: everything is free again, the entry 0 apart.\<close>

definition Clay_ResetMeasureTextCache :: "'f text_cache \<Rightarrow> 'f text_cache" where
  "Clay_ResetMeasureTextCache c =
     c\<lparr>tx_items := (tx_items c)\<lparr>ca_length := 1\<rparr>, tx_itemsFree := (tx_itemsFree c)\<lparr>ca_length := 0\<rparr>,
       tx_words := (tx_words c)\<lparr>ca_length := 0\<rparr>, tx_wordsFree := (tx_wordsFree c)\<lparr>ca_length := 0\<rparr>,
       tx_buckets := replicate (length (tx_buckets c)) 0\<rparr>"

end
