(* ===== verification/Clay_Layout.thy ===== *)
theory Clay_Layout
  imports Clay_Map Clay_Text Clay_Order "HOL-Library.Monad_Syntax"
begin

text \<open>
  Declaring a layout (modules/clay/clay.h, \<open>Clay__OpenElement\<close>, \<open>Clay__ConfigureOpenElementPtr\<close>, \<open>Clay__OpenTextElement\<close>,
  \<open>Clay__CloseElement\<close>, \<open>Clay_BeginLayout\<close>): elements are numbered in the order in which they are opened. The indices of
  closed children wait in a buffer; when their parent is closed they move, in order, into the array of children, and the
  parent is given its part of it.
\<close>

section \<open>Configurations\<close>

datatype sizing_type = CLAY__SIZING_TYPE_FIT | CLAY__SIZING_TYPE_GROW | CLAY__SIZING_TYPE_PERCENT | CLAY__SIZING_TYPE_FIXED

datatype layout_direction = CLAY_LEFT_TO_RIGHT | CLAY_TOP_TO_BOTTOM

datatype align_x = CLAY_ALIGN_X_LEFT | CLAY_ALIGN_X_RIGHT | CLAY_ALIGN_X_CENTER

datatype align_y = CLAY_ALIGN_Y_TOP | CLAY_ALIGN_Y_BOTTOM | CLAY_ALIGN_Y_CENTER

text \<open>The percentage shares its memory with the minimum.\<close>

record 'f sizing_axis =
  sa_min :: 'f
  sa_max :: 'f
  sa_type :: sizing_type

abbreviation sa_percent :: "'f sizing_axis \<Rightarrow> 'f" where
  "sa_percent a \<equiv> sa_min a"

record 'f layout_config =
  lc_width :: "'f sizing_axis"
  lc_height :: "'f sizing_axis"
  lc_left :: "16 word"
  lc_right :: "16 word"
  lc_top :: "16 word"
  lc_bottom :: "16 word"
  lc_childGap :: "16 word"
  lc_alignX :: align_x
  lc_alignY :: align_y
  lc_layoutDirection :: layout_direction

type_synonym 'f color = "'f \<times> 'f \<times> 'f \<times> 'f"
type_synonym 'f corners = "'f \<times> 'f \<times> 'f \<times> 'f"
type_synonym 'f vec2 = "'f \<times> 'f"

record 'f shared_config =
  sh_backgroundColor :: "'f color"
  sh_cornerRadius :: "'f corners"
  sh_userData :: "64 word"

datatype attach_to = CLAY_ATTACH_TO_NONE | CLAY_ATTACH_TO_PARENT | CLAY_ATTACH_TO_ELEMENT_WITH_ID | CLAY_ATTACH_TO_ROOT

datatype clip_to = CLAY_CLIP_TO_NONE | CLAY_CLIP_TO_ATTACHED_PARENT

record 'f floating_config =
  fl_offset :: "'f vec2"
  fl_expand :: "'f vec2"
  fl_parentId :: "32 word"
  fl_zIndex :: "16 word"
  fl_attachPoints :: "nat \<times> nat"
  fl_passthrough :: bool
  fl_attachTo :: attach_to
  fl_clipTo :: clip_to

record 'f clip_config =
  cl_horizontal :: bool
  cl_vertical :: bool
  cl_childOffset :: "'f vec2"

record border_width =
  bw_left :: "16 word"
  bw_right :: "16 word"
  bw_top :: "16 word"
  bw_bottom :: "16 word"
  bw_betweenChildren :: "16 word"

record 'f border_config =
  bo_color :: "'f color"
  bo_width :: border_width

text \<open>
  A configuration of an element: its type, and a pointer into the array of that type (\<open>None\<close> is the default value of the type).
  Of a text the configuration itself is kept: the library never changes it.
\<close>

datatype element_config =
    EC_NONE | EC_BORDER "nat option" | EC_FLOATING "nat option" | EC_CLIP "nat option" | EC_ASPECT "nat option" | EC_IMAGE "nat option"
  | EC_TEXT clay_text_config | EC_CUSTOM "nat option" | EC_SHARED "nat option"

datatype config_type =
    CLAY__ELEMENT_CONFIG_TYPE_NONE | CLAY__ELEMENT_CONFIG_TYPE_BORDER | CLAY__ELEMENT_CONFIG_TYPE_FLOATING
  | CLAY__ELEMENT_CONFIG_TYPE_CLIP | CLAY__ELEMENT_CONFIG_TYPE_ASPECT | CLAY__ELEMENT_CONFIG_TYPE_IMAGE
  | CLAY__ELEMENT_CONFIG_TYPE_TEXT | CLAY__ELEMENT_CONFIG_TYPE_CUSTOM | CLAY__ELEMENT_CONFIG_TYPE_SHARED

primrec type_of :: "element_config \<Rightarrow> config_type" where
  "type_of EC_NONE = CLAY__ELEMENT_CONFIG_TYPE_NONE"
| "type_of (EC_BORDER _) = CLAY__ELEMENT_CONFIG_TYPE_BORDER"
| "type_of (EC_FLOATING _) = CLAY__ELEMENT_CONFIG_TYPE_FLOATING"
| "type_of (EC_CLIP _) = CLAY__ELEMENT_CONFIG_TYPE_CLIP"
| "type_of (EC_ASPECT _) = CLAY__ELEMENT_CONFIG_TYPE_ASPECT"
| "type_of (EC_IMAGE _) = CLAY__ELEMENT_CONFIG_TYPE_IMAGE"
| "type_of (EC_TEXT _) = CLAY__ELEMENT_CONFIG_TYPE_TEXT"
| "type_of (EC_CUSTOM _) = CLAY__ELEMENT_CONFIG_TYPE_CUSTOM"
| "type_of (EC_SHARED _) = CLAY__ELEMENT_CONFIG_TYPE_SHARED"

record 'f declaration_of =
  dc_id :: clay_element_id
  dc_layout :: "'f layout_config"
  dc_backgroundColor :: "'f color"
  dc_cornerRadius :: "'f corners"
  dc_aspectRatio :: 'f
  dc_imageData :: "64 word"
  dc_floating :: "'f floating_config"
  dc_customData :: "64 word"
  dc_clip :: "'f clip_config"
  dc_border :: "'f border_config"
  dc_userData :: "64 word"

section \<open>The context\<close>

text \<open>
  A pointer to a layout configuration: NULL in an element that has none, \<open>CLAY_LAYOUT_DEFAULT\<close>, the default value of the
  array, or a place of the array.
\<close>

datatype layout_ptr = LC_NULL | LC_DEFAULT | LC_DUMMY | LC nat

text \<open>
  \<open>CHILDREN k\<close> says where the children of an element begin in the array of children, \<open>ln_count\<close> how many there are, in 16 bits;
  in the same memory a text has the pointer to its data. \<open>ln_configs\<close> and \<open>ln_configCount\<close> are the part of the array of
  configurations.
\<close>

datatype content_ptr = NO_CONTENT | CHILDREN nat | TEXT_DATA "nat option"

record 'f layout_element =
  ln_content :: content_ptr
  ln_count :: "16 word"
  ln_dimensions :: "'f vec2"
  ln_minDimensions :: "'f vec2"
  ln_layoutConfig :: layout_ptr
  ln_configs :: "nat option"
  ln_configCount :: nat
  ln_id :: "32 word"

record 'f text_data =
  td_text :: clay_string
  td_preferred :: "'f vec2"
  td_elementIndex :: int

record 'f scroll_data =
  sd_layoutElement :: "nat option"
  sd_boundingBox :: "'f \<times> 'f \<times> 'f \<times> 'f"
  sd_contentSize :: "'f vec2"
  sd_scrollOrigin :: "'f vec2"
  sd_pointerOrigin :: "'f vec2"
  sd_scrollMomentum :: "'f vec2"
  sd_scrollPosition :: "'f vec2"
  sd_previousDelta :: "'f vec2"
  sd_momentumTime :: 'f
  sd_elementId :: "32 word"
  sd_openThisFrame :: bool
  sd_pointerScrollActive :: bool

text \<open>The context keeps one log of the calls of the error handler; the table of elements and the cache of texts log there too.\<close>

record ('f, 'h) clay_context =
  cx_elements :: "'f layout_element carray"
  cx_dfltElement :: "'f layout_element"
  cx_stack :: "int carray"
  cx_children :: "int carray"
  cx_buffer :: "int carray"
  cx_clipIds :: "int carray"
  cx_clipStack :: "int carray"
  cx_configs :: "element_config carray"
  cx_layoutConfigs :: "'f layout_config carray"
  cx_layoutDefault :: "'f layout_config"
  cx_layoutDummy :: "'f layout_config"
  cx_shared :: "'f shared_config carray"
  cx_dfltShared :: "'f shared_config"
  cx_textConfigs :: "clay_text_config carray"
  cx_aspects :: "'f carray"
  cx_images :: "64 word carray"
  cx_floatings :: "'f floating_config carray"
  cx_customs :: "64 word carray"
  cx_clips :: "'f clip_config carray"
  cx_dfltClip :: "'f clip_config"
  cx_borders :: "'f border_config carray"
  cx_idStrings :: "clay_string carray"
  cx_textData :: "'f text_data carray"
  cx_aspectIndexes :: "int carray"
  cx_roots :: "'f tree_root carray"
  cx_scrolls :: "'f scroll_data carray"
  cx_dfltScroll :: "'f scroll_data"
  cx_map :: "'h hash_map"
  cx_text :: "'f text_cache"
  cx_maxExceeded :: bool
  cx_external :: bool
  cx_layoutDimensions :: "'f vec2"
  cx_log :: clay_log

text \<open>Range-checked calls on a field of the context.\<close>

definition add_in :: "(('f, 'h) clay_context \<Rightarrow> 'a carray) \<Rightarrow> (('a carray \<Rightarrow> 'a carray) \<Rightarrow> ('f, 'h) clay_context \<Rightarrow> ('f, 'h) clay_context) \<Rightarrow> 'a \<Rightarrow> ('f, 'h) clay_context \<Rightarrow> nat option \<times> ('f, 'h) clay_context" where
  "add_in fld upd x s = (case Array_Add (fld s) x (cx_log s) of (p, a, E) \<Rightarrow> (p, (upd (\<lambda>_. a) s)\<lparr>cx_log := E\<rparr>))"

definition set_in :: "(('f, 'h) clay_context \<Rightarrow> 'a carray) \<Rightarrow> (('a carray \<Rightarrow> 'a carray) \<Rightarrow> ('f, 'h) clay_context \<Rightarrow> ('f, 'h) clay_context) \<Rightarrow> int \<Rightarrow> 'a \<Rightarrow> ('f, 'h) clay_context \<Rightarrow> ('f, 'h) clay_context" where
  "set_in fld upd i x s = (case Array_Set (fld s) i x (cx_log s) of (a, E) \<Rightarrow> (upd (\<lambda>_. a) s)\<lparr>cx_log := E\<rparr>)"

definition value_in :: "(('f, 'h) clay_context \<Rightarrow> int carray) \<Rightarrow> int \<Rightarrow> ('f, 'h) clay_context \<Rightarrow> int \<times> ('f, 'h) clay_context" where
  "value_in fld i s = (case Array_GetValue 0 (fld s) i (cx_log s) of (v, E) \<Rightarrow> (v, s\<lparr>cx_log := E\<rparr>))"

definition get_element :: "int \<Rightarrow> ('f, 'h) clay_context \<Rightarrow> nat option \<times> ('f, 'h) clay_context" where
  "get_element i s = (case Array_Get (cx_elements s) i (cx_log s) of (p, E) \<Rightarrow> (p, s\<lparr>cx_log := E\<rparr>))"

definition element_at :: "('f, 'h) clay_context \<Rightarrow> nat option \<Rightarrow> 'f layout_element" where
  "element_at s p = (case p of Some k \<Rightarrow> ca_cells (cx_elements s) ! k | None \<Rightarrow> cx_dfltElement s)"

definition put_element :: "nat option \<Rightarrow> ('f layout_element \<Rightarrow> 'f layout_element) \<Rightarrow> ('f, 'h) clay_context \<Rightarrow> ('f, 'h) clay_context" where
  "put_element p g s =
     (case p of
        Some k \<Rightarrow> s\<lparr>cx_elements := (cx_elements s)\<lparr>ca_cells := (ca_cells (cx_elements s))[k := g (ca_cells (cx_elements s) ! k)]\<rparr>\<rparr>
      | None \<Rightarrow> s\<lparr>cx_dfltElement := g (cx_dfltElement s)\<rparr>)"

definition zero_element :: "'f f32 \<Rightarrow> 'f layout_element" where
  "zero_element F = \<lparr>ln_content = NO_CONTENT, ln_count = 0, ln_dimensions = (z32 F, z32 F), ln_minDimensions = (z32 F, z32 F),
     ln_layoutConfig = LC_NULL, ln_configs = None, ln_configCount = 0, ln_id = 0\<rparr>"

text \<open>The table of elements and the cache of texts, with the log of the context.\<close>

definition with_map :: "('h hash_map \<Rightarrow> ('r \<times> 'h hash_map) option) \<Rightarrow> ('f, 'h) clay_context \<Rightarrow> ('r \<times> ('f, 'h) clay_context) option" where
  "with_map op s = (case op ((cx_map s)\<lparr>hm_log := cx_log s\<rparr>) of None \<Rightarrow> None | Some (r, m) \<Rightarrow> Some (r, s\<lparr>cx_map := m, cx_log := hm_log m\<rparr>))"

definition with_text :: "('f text_cache \<Rightarrow> ('r \<times> 'f text_cache) option) \<Rightarrow> ('f, 'h) clay_context \<Rightarrow> ('r \<times> ('f, 'h) clay_context) option" where
  "with_text op s = (case op ((cx_text s)\<lparr>tx_log := cx_log s\<rparr>) of None \<Rightarrow> None | Some (r, c) \<Rightarrow> Some (r, s\<lparr>cx_text := c, cx_log := tx_log c\<rparr>))"

section \<open>The host\<close>

text \<open>
  What the library is given: the arithmetic, the build, whether a \<open>char\<close> has a sign, where a literal is in memory, the functions
  of the host that measure a text and answer a scroll position (NULL when they were not set).
\<close>

record 'f host =
  ho_f32 :: "'f f32"
  ho_build :: simd
  ho_charSigned :: bool
  ho_literalAt :: "byte list \<Rightarrow> 64 word"
  ho_measure :: "'f measure option"
  ho_query :: "(32 word \<Rightarrow> 'f vec2) option"

definition CLAY_STRING :: "'f host \<Rightarrow> byte list \<Rightarrow> clay_string" where
  "CLAY_STRING H chars = \<lparr>st_static = True, st_at = ho_literalAt H chars, st_chars = chars\<rparr>"

abbreviation ascii :: "string \<Rightarrow> byte list" where
  "ascii cs \<equiv> map of_char cs"

definition CLAY_ID :: "'f host \<Rightarrow> byte list \<Rightarrow> clay_element_id" where
  "CLAY_ID H label = Clay__HashString (ho_charSigned H) (CLAY_STRING H label) 0 0"

section \<open>Configurations of the open element\<close>

definition Clay__GetOpenLayoutElement :: "('f, 'h) clay_context \<Rightarrow> nat option \<times> ('f, 'h) clay_context" where
  "Clay__GetOpenLayoutElement s = (case value_in cx_stack (ca_length (cx_stack s) - 1) s of (i, s) \<Rightarrow> get_element i s)"

definition parent_element :: "('f, 'h) clay_context \<Rightarrow> nat option \<times> ('f, 'h) clay_context" where
  "parent_element s = (case value_in cx_stack (ca_length (cx_stack s) - 2) s of (i, s) \<Rightarrow> get_element i s)"

definition Clay__GetParentElementId :: "('f, 'h) clay_context \<Rightarrow> 32 word \<times> ('f, 'h) clay_context" where
  "Clay__GetParentElementId s = (case parent_element s of (p, s) \<Rightarrow> (ln_id (element_at s p), s))"

definition Clay__StoreLayoutConfig :: "'f layout_config \<Rightarrow> ('f, 'h) clay_context \<Rightarrow> layout_ptr \<times> ('f, 'h) clay_context" where
  "Clay__StoreLayoutConfig config s =
     (if cx_maxExceeded s then (LC_DEFAULT, s)
      else case add_in cx_layoutConfigs cx_layoutConfigs_update config s of
          (Some k, s) \<Rightarrow> (LC k, s)
        | (None, s) \<Rightarrow> (LC_DUMMY, s))"

text \<open>The others are alike: the default value of the type when there are too many elements, else a place of the array.\<close>

definition store_in :: "(('f, 'h) clay_context \<Rightarrow> 'a carray) \<Rightarrow> (('a carray \<Rightarrow> 'a carray) \<Rightarrow> ('f, 'h) clay_context \<Rightarrow> ('f, 'h) clay_context) \<Rightarrow> 'a \<Rightarrow> ('f, 'h) clay_context \<Rightarrow> nat option \<times> ('f, 'h) clay_context" where
  "store_in fld upd x s = (if cx_maxExceeded s then (None, s) else add_in fld upd x s)"

definition Clay__StoreTextElementConfig :: "clay_text_config \<Rightarrow> ('f, 'h) clay_context \<Rightarrow> nat option \<times> ('f, 'h) clay_context" where
  "Clay__StoreTextElementConfig = store_in cx_textConfigs cx_textConfigs_update"

definition Clay__StoreAspectRatioElementConfig :: "'f \<Rightarrow> ('f, 'h) clay_context \<Rightarrow> nat option \<times> ('f, 'h) clay_context" where
  "Clay__StoreAspectRatioElementConfig = store_in cx_aspects cx_aspects_update"

definition Clay__StoreImageElementConfig :: "64 word \<Rightarrow> ('f, 'h) clay_context \<Rightarrow> nat option \<times> ('f, 'h) clay_context" where
  "Clay__StoreImageElementConfig = store_in cx_images cx_images_update"

definition Clay__StoreFloatingElementConfig :: "'f floating_config \<Rightarrow> ('f, 'h) clay_context \<Rightarrow> nat option \<times> ('f, 'h) clay_context" where
  "Clay__StoreFloatingElementConfig = store_in cx_floatings cx_floatings_update"

definition Clay__StoreCustomElementConfig :: "64 word \<Rightarrow> ('f, 'h) clay_context \<Rightarrow> nat option \<times> ('f, 'h) clay_context" where
  "Clay__StoreCustomElementConfig = store_in cx_customs cx_customs_update"

definition Clay__StoreClipElementConfig :: "'f clip_config \<Rightarrow> ('f, 'h) clay_context \<Rightarrow> nat option \<times> ('f, 'h) clay_context" where
  "Clay__StoreClipElementConfig = store_in cx_clips cx_clips_update"

definition Clay__StoreBorderElementConfig :: "'f border_config \<Rightarrow> ('f, 'h) clay_context \<Rightarrow> nat option \<times> ('f, 'h) clay_context" where
  "Clay__StoreBorderElementConfig = store_in cx_borders cx_borders_update"

definition Clay__StoreSharedElementConfig :: "'f shared_config \<Rightarrow> ('f, 'h) clay_context \<Rightarrow> nat option \<times> ('f, 'h) clay_context" where
  "Clay__StoreSharedElementConfig = store_in cx_shared cx_shared_update"

text \<open>No caller looks at the answer. The element is made longer whether or not there is room for the configuration.\<close>

definition Clay__AttachElementConfig :: "element_config \<Rightarrow> ('f, 'h) clay_context \<Rightarrow> ('f, 'h) clay_context" where
  "Clay__AttachElementConfig config s =
     (if cx_maxExceeded s then s
      else case Clay__GetOpenLayoutElement s of
          (p, s) \<Rightarrow> snd (add_in cx_configs cx_configs_update config (put_element p (\<lambda>e. e\<lparr>ln_configCount := ln_configCount e + 1\<rparr>) s)))"

text \<open>
  The memory from the first configuration of an element on, and the search through it: the first of the wanted type. The range
  check is against the length the element has; a read behind the memory of the array is undefined (\<open>None\<close>).
\<close>

definition configs_from :: "('f, 'h) clay_context \<Rightarrow> nat option \<Rightarrow> element_config list" where
  "configs_from s p = (case ln_configs (element_at s p) of Some k \<Rightarrow> drop k (ca_cells (cx_configs s)) | None \<Rightarrow> [EC_NONE])"

primrec find_config :: "config_type \<Rightarrow> nat \<Rightarrow> element_config list \<Rightarrow> element_config option option" where
  "find_config t 0 cs = Some None"
| "find_config t (Suc n) cs =
     (case cs of [] \<Rightarrow> None | c # cs \<Rightarrow> if type_of c = t then Some (Some c) else find_config t n cs)"

definition Clay__FindElementConfigWithType :: "nat option \<Rightarrow> config_type \<Rightarrow> ('f, 'h) clay_context \<Rightarrow> element_config option option" where
  "Clay__FindElementConfigWithType p t s = find_config t (ln_configCount (element_at s p)) (configs_from s p)"

definition Clay__ElementHasConfig :: "nat option \<Rightarrow> config_type \<Rightarrow> ('f, 'h) clay_context \<Rightarrow> bool option" where
  "Clay__ElementHasConfig p t s = map_option (\<lambda>r. r \<noteq> None) (find_config t (ln_configCount (element_at s p)) (configs_from s p))"

section \<open>Opening an element\<close>

text \<open>A new element is clipped by the innermost open clip element.\<close>

definition inherit_clip :: "('f, 'h) clay_context \<Rightarrow> ('f, 'h) clay_context" where
  "inherit_clip s =
     (if 0 < ca_length (cx_clipStack s)
      then case value_in cx_clipStack (ca_length (cx_clipStack s) - 1) s of
          (v, s) \<Rightarrow> set_in cx_clipIds cx_clipIds_update (ca_length (cx_elements s) - 1) v s
      else set_in cx_clipIds cx_clipIds_update (ca_length (cx_elements s) - 1) 0 s)"

definition elements_full :: "('f, 'h) clay_context \<Rightarrow> bool" where
  "elements_full s \<longleftrightarrow> ca_length (cx_elements s) = ca_capacity (cx_elements s) - 1 \<or> cx_maxExceeded s"

definition Clay__OpenElement :: "'f host \<Rightarrow> ('f, 'h) clay_context \<Rightarrow> ('f, 'h) clay_context" where
  "Clay__OpenElement H s =
     (if elements_full s then s\<lparr>cx_maxExceeded := True\<rparr>
      else let s = snd (add_in cx_elements cx_elements_update (zero_element (ho_f32 H)) s);
               s = snd (add_in cx_stack cx_stack_update (ca_length (cx_elements s) - 1) s)
           in inherit_clip s)"

text \<open>
  Declaring an identifier for an element of the array. (The default element is none: \<open>None\<close> stands for a pointer the table of
  this model has no place for.)
\<close>

definition declare_id :: "clay_element_id \<Rightarrow> nat option \<Rightarrow> 32 word \<Rightarrow> ('f, 'h) clay_context \<Rightarrow> ('f, 'h) clay_context option" where
  "declare_id e p alias s =
     (case p of
        None \<Rightarrow> None
      | Some k \<Rightarrow> map_option snd (with_map (Clay__AddHashMapItem e k alias) s))"

definition Clay__GenerateIdForAnonymousElement :: "nat option \<Rightarrow> ('f, 'h) clay_context \<Rightarrow> (clay_element_id \<times> ('f, 'h) clay_context) option" where
  "Clay__GenerateIdForAnonymousElement p s =
     (case parent_element s of
        (q, s) \<Rightarrow>
          let e = Clay__HashNumber (ucast (ln_count (element_at s q))) (ln_id (element_at s q));
              s = put_element p (\<lambda>x. x\<lparr>ln_id := eid_id e\<rparr>) s
          in do {
            s \<leftarrow> declare_id e p 0 s;
            Some (e, snd (add_in cx_idStrings cx_idStrings_update (eid_stringId e) s))
          })"

definition Clay__AttachId :: "clay_element_id \<Rightarrow> ('f, 'h) clay_context \<Rightarrow> ('f, 'h) clay_context option" where
  "Clay__AttachId e s =
     (if cx_maxExceeded s then Some s
      else case Clay__GetOpenLayoutElement s of
        (p, s) \<Rightarrow>
          let alias = ln_id (element_at s p);
              s = put_element p (\<lambda>x. x\<lparr>ln_id := eid_id e\<rparr>) s
          in do {
            s \<leftarrow> declare_id e p alias s;
            Some (set_in cx_idStrings cx_idStrings_update (ca_length (cx_elements s) - 1) (eid_stringId e) s)
          })"

section \<open>Configuring it\<close>

definition log_error :: "clay_error \<Rightarrow> ('f, 'h) clay_context \<Rightarrow> ('f, 'h) clay_context" where
  "log_error e s = s\<lparr>cx_log := cx_log s @ [e]\<rparr>"

definition over_1 :: "'f f32 \<Rightarrow> 'f sizing_axis \<Rightarrow> bool" where
  "over_1 F a \<longleftrightarrow> sa_type a = CLAY__SIZING_TYPE_PERCENT \<and> gt32 F (sa_percent a) (int32 F 1)"

text \<open>The layout, and where the configurations of the element begin.\<close>

definition configure_layout :: "'f host \<Rightarrow> 'f declaration_of \<Rightarrow> ('f, 'h) clay_context \<Rightarrow> nat option \<times> ('f, 'h) clay_context" where
  "configure_layout H d s =
     (case Clay__GetOpenLayoutElement s of
        (p, s) \<Rightarrow>
          (case Clay__StoreLayoutConfig (dc_layout d) s of
             (l, s) \<Rightarrow>
               let s = put_element p (\<lambda>e. e\<lparr>ln_layoutConfig := l\<rparr>) s;
                   s = if over_1 (ho_f32 H) (lc_width (dc_layout d)) \<or> over_1 (ho_f32 H) (lc_height (dc_layout d))
                       then log_error CLAY_ERROR_TYPE_PERCENTAGE_OVER_1 s else s
               in (p, put_element p (\<lambda>e. e\<lparr>ln_configs := Some (nat (ca_length (cx_configs s)))\<rparr>) s)))"

text \<open>The shared configuration: made by the first of colour, corners and user data that there is, filled by the others.\<close>

definition zero_shared :: "'f f32 \<Rightarrow> 'f shared_config" where
  "zero_shared F = \<lparr>sh_backgroundColor = (z32 F, z32 F, z32 F, z32 F), sh_cornerRadius = (z32 F, z32 F, z32 F, z32 F), sh_userData = 0\<rparr>"

definition put_shared :: "nat option \<Rightarrow> ('f shared_config \<Rightarrow> 'f shared_config) \<Rightarrow> ('f, 'h) clay_context \<Rightarrow> ('f, 'h) clay_context" where
  "put_shared p g s =
     (case p of
        Some k \<Rightarrow> s\<lparr>cx_shared := (cx_shared s)\<lparr>ca_cells := (ca_cells (cx_shared s))[k := g (ca_cells (cx_shared s) ! k)]\<rparr>\<rparr>
      | None \<Rightarrow> s\<lparr>cx_dfltShared := g (cx_dfltShared s)\<rparr>)"

definition share :: "'f host \<Rightarrow> bool \<Rightarrow> ('f shared_config \<Rightarrow> 'f shared_config) \<Rightarrow> nat option option \<times> ('f, 'h) clay_context \<Rightarrow> nat option option \<times> ('f, 'h) clay_context" where
  "share H wanted g x =
     (case x of (shared, s) \<Rightarrow>
        if \<not> wanted then (shared, s)
        else case shared of
            Some p \<Rightarrow> (Some p, put_shared p g s)
          | None \<Rightarrow> (case Clay__StoreSharedElementConfig (g (zero_shared (ho_f32 H))) s of
                       (p, s) \<Rightarrow> (Some p, Clay__AttachElementConfig (EC_SHARED p) s)))"

definition corner_bytes :: "'f f32 \<Rightarrow> 'f corners \<Rightarrow> byte list" where
  "corner_bytes F c = (case c of (x, y, z, w) \<Rightarrow> bytes32 F x @ bytes32 F y @ bytes32 F z @ bytes32 F w)"

definition has_colour :: "'f host \<Rightarrow> 'f declaration_of \<Rightarrow> bool" where
  "has_colour H d \<longleftrightarrow> gt32 (ho_f32 H) (snd (snd (snd (dc_backgroundColor d)))) (z32 (ho_f32 H))"

definition has_corners :: "'f host \<Rightarrow> 'f declaration_of \<Rightarrow> bool" where
  "has_corners H d \<longleftrightarrow> (let F = ho_f32 H in
     \<not> Clay__MemCmp (ho_build H) (corner_bytes F (dc_cornerRadius d)) (corner_bytes F (z32 F, z32 F, z32 F, z32 F)) 16)"

definition configure_shared :: "'f host \<Rightarrow> 'f declaration_of \<Rightarrow> ('f, 'h) clay_context \<Rightarrow> ('f, 'h) clay_context" where
  "configure_shared H d s =
     (let x = share H (has_colour H d) (\<lambda>c. c\<lparr>sh_backgroundColor := dc_backgroundColor d\<rparr>) (None, s);
          x = share H (has_corners H d) (\<lambda>c. c\<lparr>sh_cornerRadius := dc_cornerRadius d\<rparr>) x
      in snd (share H (dc_userData d \<noteq> 0) (\<lambda>c. c\<lparr>sh_userData := dc_userData d\<rparr>) x))"

definition configure_image :: "'f declaration_of \<Rightarrow> ('f, 'h) clay_context \<Rightarrow> ('f, 'h) clay_context" where
  "configure_image d s =
     (if dc_imageData d \<noteq> 0
      then case Clay__StoreImageElementConfig (dc_imageData d) s of (p, s) \<Rightarrow> Clay__AttachElementConfig (EC_IMAGE p) s
      else s)"

definition has_aspect :: "'f host \<Rightarrow> 'f declaration_of \<Rightarrow> bool" where
  "has_aspect H d \<longleftrightarrow> gt32 (ho_f32 H) (dc_aspectRatio d) (z32 (ho_f32 H))"

definition configure_aspect :: "'f host \<Rightarrow> 'f declaration_of \<Rightarrow> ('f, 'h) clay_context \<Rightarrow> ('f, 'h) clay_context" where
  "configure_aspect H d s =
     (if has_aspect H d
      then case Clay__StoreAspectRatioElementConfig (dc_aspectRatio d) s of
          (p, s) \<Rightarrow> let s = Clay__AttachElementConfig (EC_ASPECT p) s
                    in snd (add_in cx_aspectIndexes cx_aspectIndexes_update (ca_length (cx_elements s) - 1) s)
      else s)"

text \<open>The parent of a floating element and the element that clips it. NULL (\<open>hierarchicalParent\<close>) is never an answer of an array.\<close>

definition floating_parent :: "'f host \<Rightarrow> 'f floating_config \<Rightarrow> nat option \<Rightarrow> ('f, 'h) clay_context \<Rightarrow> (32 word \<times> 32 word \<times> ('f, 'h) clay_context) option" where
  "floating_parent H f q s =
     (case fl_attachTo f of
        CLAY_ATTACH_TO_PARENT \<Rightarrow>
          (if 0 < ca_length (cx_clipStack s)
           then case value_in cx_clipStack (ca_length (cx_clipStack s) - 1) s of (v, s) \<Rightarrow> Some (ln_id (element_at s q), word_of_int v, s)
           else Some (ln_id (element_at s q), 0, s))
      | CLAY_ATTACH_TO_ELEMENT_WITH_ID \<Rightarrow>
          (case with_map (Clay__GetHashMapItem (fl_parentId f)) s of
             None \<Rightarrow> None
           | Some (None, s) \<Rightarrow> Some (fl_parentId f, 0, log_error CLAY_ERROR_TYPE_FLOATING_CONTAINER_PARENT_NOT_FOUND s)
           | Some (Some k, s) \<Rightarrow>
               (case value_in cx_clipIds (int (hi_layoutElement (item_of (cx_map s) (Some k)))) s of
                  (v, s) \<Rightarrow> Some (fl_parentId f, word_of_int v, s)))
      | CLAY_ATTACH_TO_ROOT \<Rightarrow> Some (eid_id (CLAY_ID H (ascii ''Clay__RootContainer'')), 0, s)
      | CLAY_ATTACH_TO_NONE \<Rightarrow> Some (fl_parentId f, 0, s))"

definition configure_floating :: "'f host \<Rightarrow> 'f declaration_of \<Rightarrow> clay_element_id \<Rightarrow> ('f, 'h) clay_context \<Rightarrow> (clay_element_id \<times> ('f, 'h) clay_context) option" where
  "configure_floating H d e s =
     (if fl_attachTo (dc_floating d) = CLAY_ATTACH_TO_NONE then Some (e, s)
      else case parent_element s of
        (q, s) \<Rightarrow> do {
          (parentId, clipId, s) \<leftarrow> floating_parent H (dc_floating d) q s;
          let e = (if eid_id e = 0
                   then Clay__HashString (ho_charSigned H) (CLAY_STRING H (ascii ''Clay__FloatingContainer'')) (word_of_int (ca_length (cx_roots s))) 0
                   else e);
          let clipId = (if fl_clipTo (dc_floating d) = CLAY_CLIP_TO_NONE then 0 else clipId);
          let (i, s) = value_in cx_stack (ca_length (cx_stack s) - 1) s;
          let s = set_in cx_clipIds cx_clipIds_update i (sint clipId) s;
          let (_, s) = add_in cx_clipStack cx_clipStack_update (sint clipId) s;
          let (i, s) = value_in cx_stack (ca_length (cx_stack s) - 1) s;
          let (_, s) = add_in cx_roots cx_roots_update \<lparr>tr_layoutElementIndex = i, tr_parentId = parentId, tr_clipElementId = clipId,
                 tr_zIndex = fl_zIndex (dc_floating d), tr_pointerOffset = (z32 (ho_f32 H), z32 (ho_f32 H))\<rparr> s;
          let (p, s) = Clay__StoreFloatingElementConfig ((dc_floating d)\<lparr>fl_parentId := parentId\<rparr>) s;
          Some (e, Clay__AttachElementConfig (EC_FLOATING p) s)
        })"

definition configure_custom :: "'f declaration_of \<Rightarrow> ('f, 'h) clay_context \<Rightarrow> ('f, 'h) clay_context" where
  "configure_custom d s =
     (if dc_customData d \<noteq> 0
      then case Clay__StoreCustomElementConfig (dc_customData d) s of (p, s) \<Rightarrow> Clay__AttachElementConfig (EC_CUSTOM p) s
      else s)"

definition configure_id :: "nat option \<Rightarrow> clay_element_id \<Rightarrow> ('f, 'h) clay_context \<Rightarrow> ('f, 'h) clay_context option" where
  "configure_id p e s =
     (if eid_id e \<noteq> 0 then Clay__AttachId e s
      else if ln_id (element_at s p) = 0 then map_option snd (Clay__GenerateIdForAnonymousElement p s)
      else Some s)"

text \<open>
  The data of a scroll container lasts from frame to frame. All that have the identifier are marked, the last of them is the
  one; when there is none it is made.
\<close>

definition put_scroll :: "nat option \<Rightarrow> ('f scroll_data \<Rightarrow> 'f scroll_data) \<Rightarrow> ('f, 'h) clay_context \<Rightarrow> ('f, 'h) clay_context" where
  "put_scroll p g s =
     (case p of
        Some k \<Rightarrow> s\<lparr>cx_scrolls := (cx_scrolls s)\<lparr>ca_cells := (ca_cells (cx_scrolls s))[k := g (ca_cells (cx_scrolls s) ! k)]\<rparr>\<rparr>
      | None \<Rightarrow> s\<lparr>cx_dfltScroll := g (cx_dfltScroll s)\<rparr>)"

definition scroll_at :: "('f, 'h) clay_context \<Rightarrow> nat option \<Rightarrow> 'f scroll_data" where
  "scroll_at s p = (case p of Some k \<Rightarrow> ca_cells (cx_scrolls s) ! k | None \<Rightarrow> cx_dfltScroll s)"

definition mark_scroll :: "nat option \<Rightarrow> nat \<Rightarrow> nat option option \<times> ('f, 'h) clay_context \<Rightarrow> nat option option \<times> ('f, 'h) clay_context" where
  "mark_scroll p i x =
     (case x of (offset, s) \<Rightarrow>
        (case Array_Get (cx_scrolls s) (int i) (cx_log s) of
           (m, E) \<Rightarrow>
             let s = s\<lparr>cx_log := E\<rparr>
             in if ln_id (element_at s p) = sd_elementId (scroll_at s m)
                then (Some m, put_scroll m (\<lambda>d. d\<lparr>sd_layoutElement := p, sd_openThisFrame := True\<rparr>) s)
                else (offset, s)))"

definition new_scroll :: "'f f32 \<Rightarrow> nat option \<Rightarrow> 32 word \<Rightarrow> 'f scroll_data" where
  "new_scroll F p i = (let z = z32 F; m = int32 F (-1) in
     \<lparr>sd_layoutElement = p, sd_boundingBox = (z, z, z, z), sd_contentSize = (z, z), sd_scrollOrigin = (m, m), sd_pointerOrigin = (z, z),
      sd_scrollMomentum = (z, z), sd_scrollPosition = (z, z), sd_previousDelta = (z, z), sd_momentumTime = z, sd_elementId = i,
      sd_openThisFrame = True, sd_pointerScrollActive = False\<rparr>)"

definition configure_clip :: "'f host \<Rightarrow> 'f declaration_of \<Rightarrow> nat option \<Rightarrow> ('f, 'h) clay_context \<Rightarrow> ('f, 'h) clay_context option" where
  "configure_clip H d p s =
     (if \<not> (cl_horizontal (dc_clip d) \<or> cl_vertical (dc_clip d)) then Some s
      else let (c, s) = Clay__StoreClipElementConfig (dc_clip d) s;
               s = Clay__AttachElementConfig (EC_CLIP c) s;
               (_, s) = add_in cx_clipStack cx_clipStack_update (sint (ln_id (element_at s p))) s;
               (offset, s) = fold (mark_scroll p) [0..<nat (ca_length (cx_scrolls s))] (None, s);
               (m, s) = (case offset of
                  Some m \<Rightarrow> (m, s)
                | None \<Rightarrow> add_in cx_scrolls cx_scrolls_update (new_scroll (ho_f32 H) p (ln_id (element_at s p))) s)
           in if cx_external s
              then map_option (\<lambda>query. put_scroll m (\<lambda>x. x\<lparr>sd_scrollPosition := query (sd_elementId (scroll_at s m))\<rparr>) s) (ho_query H)
              else Some s)"

definition border_widths :: "border_width \<Rightarrow> 16 word list" where
  "border_widths w = [bw_left w, bw_right w, bw_top w, bw_bottom w, bw_betweenChildren w]"

text \<open>The five widths lie in memory one after the other, two bytes each (in an order that a comparison with zero does not see).\<close>

definition half_bytes :: "16 word \<Rightarrow> byte list" where
  "half_bytes w = [ucast w, ucast (drop_bit 8 w)]"

definition has_border :: "'f host \<Rightarrow> 'f declaration_of \<Rightarrow> bool" where
  "has_border H d \<longleftrightarrow>
     \<not> Clay__MemCmp (ho_build H) (concat (map half_bytes (border_widths (bo_width (dc_border d))))) (replicate 10 0) 10"

definition configure_border :: "'f host \<Rightarrow> 'f declaration_of \<Rightarrow> ('f, 'h) clay_context \<Rightarrow> ('f, 'h) clay_context" where
  "configure_border H d s =
     (if has_border H d
      then case Clay__StoreBorderElementConfig (dc_border d) s of (p, s) \<Rightarrow> Clay__AttachElementConfig (EC_BORDER p) s
      else s)"

definition Clay__ConfigureOpenElementPtr :: "'f host \<Rightarrow> 'f declaration_of \<Rightarrow> ('f, 'h) clay_context \<Rightarrow> ('f, 'h) clay_context option" where
  "Clay__ConfigureOpenElementPtr H d s =
     (let (p, s) = configure_layout H d s;
          s = configure_aspect H d (configure_image d (configure_shared H d s))
      in do {
        (e, s) \<leftarrow> configure_floating H d (dc_id d) s;
        s \<leftarrow> configure_id p e (configure_custom d s);
        s \<leftarrow> configure_clip H d p s;
        Some (configure_border H d s)
      })"

section \<open>Text\<close>

text \<open>The text is measured, or found to have been, with the log of the context.\<close>

definition Clay__OpenTextElement :: "'f host \<Rightarrow> clay_string \<Rightarrow> clay_text_config \<Rightarrow> ('f, 'h) clay_context \<Rightarrow> ('f, 'h) clay_context option" where
  "Clay__OpenTextElement H str config s =
     (if elements_full s then Some (s\<lparr>cx_maxExceeded := True\<rparr>)
      else let (parent, s) = Clay__GetOpenLayoutElement s;
               (t, s) = add_in cx_elements cx_elements_update (zero_element (ho_f32 H)) s;
               s = inherit_clip s;
               (_, s) = add_in cx_buffer cx_buffer_update (ca_length (cx_elements s) - 1) s
           in do {
             (m, s) \<leftarrow> with_text (Clay__MeasureTextCached (ho_build H) (ho_f32 H) (ho_measure H) str config) s;
             let item = item_of_ptr (cx_text s) m;
             let e = Clay__HashNumber (ucast (ln_count (element_at s parent))) (ln_id (element_at s parent));
             let s = put_element t (\<lambda>x. x\<lparr>ln_id := eid_id e\<rparr>) s;
             s \<leftarrow> declare_id e t 0 s;
             let (_, s) = add_in cx_idStrings cx_idStrings_update (eid_stringId e) s;
             let height = (if 0 < tc_lineHeight config then of16 (ho_f32 H) (tc_lineHeight config) else ci_height item);
             let s = put_element t (\<lambda>x. x\<lparr>ln_dimensions := (ci_width item, height), ln_minDimensions := (ci_minWidth item, height)\<rparr>) s;
             let (td, s) = add_in cx_textData cx_textData_update
                   \<lparr>td_text = str, td_preferred = (ci_width item, ci_height item), td_elementIndex = ca_length (cx_elements s) - 1\<rparr> s;
             let s = put_element t (\<lambda>x. x\<lparr>ln_content := TEXT_DATA td\<rparr>) s;
             let (c, s) = add_in cx_configs cx_configs_update (EC_TEXT config) s;
             let s = put_element t (\<lambda>x. x\<lparr>ln_configs := c, ln_configCount := 1, ln_layoutConfig := LC_DEFAULT\<rparr>) s;
             Some (put_element parent (\<lambda>x. x\<lparr>ln_count := ln_count x + 1\<rparr>) s)
           })"

section \<open>Closing an element\<close>

definition layout_at :: "('f, 'h) clay_context \<Rightarrow> layout_ptr \<Rightarrow> 'f layout_config option" where
  "layout_at s l =
     (case l of
        LC_NULL \<Rightarrow> None
      | LC_DEFAULT \<Rightarrow> Some (cx_layoutDefault s)
      | LC_DUMMY \<Rightarrow> Some (cx_layoutDummy s)
      | LC k \<Rightarrow> Some (ca_cells (cx_layoutConfigs s) ! k))"

definition put_layout :: "layout_ptr \<Rightarrow> 'f layout_config \<Rightarrow> ('f, 'h) clay_context \<Rightarrow> ('f, 'h) clay_context" where
  "put_layout l c s =
     (case l of
        LC_NULL \<Rightarrow> s
      | LC_DEFAULT \<Rightarrow> s\<lparr>cx_layoutDefault := c\<rparr>
      | LC_DUMMY \<Rightarrow> s\<lparr>cx_layoutDummy := c\<rparr>
      | LC k \<Rightarrow> s\<lparr>cx_layoutConfigs := (cx_layoutConfigs s)\<lparr>ca_cells := (ca_cells (cx_layoutConfigs s))[k := c]\<rparr>\<rparr>)"

text \<open>The clip elements the closing element had opened: how many, and the configuration that says which axes scroll.\<close>

primrec close_clips :: "nat \<Rightarrow> element_config list \<Rightarrow> int \<Rightarrow> (int \<times> nat option option) option" where
  "close_clips 0 cs pops = Some (pops, None)"
| "close_clips (Suc n) cs pops =
     (case cs of
        [] \<Rightarrow> None
      | EC_CLIP c # cs \<Rightarrow> Some (pops + 1, Some c)
      | EC_FLOATING _ # cs \<Rightarrow> close_clips n cs (pops + 1)
      | _ # cs \<Rightarrow> close_clips n cs pops)"

definition scroll_axes :: "('f, 'h) clay_context \<Rightarrow> nat option option \<Rightarrow> bool \<times> bool" where
  "scroll_axes s c =
     (case c of
        None \<Rightarrow> (False, False)
      | Some q \<Rightarrow> let x = (case q of Some k \<Rightarrow> ca_cells (cx_clips s) ! k | None \<Rightarrow> cx_dfltClip s)
                 in (cl_horizontal x, cl_vertical x))"

text \<open>
  One child, out of the buffer. Along the axis of the layout sizes add up, across it the largest counts; minimum sizes of what
  scrolls do not count.
\<close>

definition grow_by_child :: "'f f32 \<Rightarrow> layout_direction \<Rightarrow> bool \<times> bool \<Rightarrow> 'f \<Rightarrow> 'f \<Rightarrow> 'f layout_element \<Rightarrow> 'f layout_element \<Rightarrow> 'f layout_element" where
  "grow_by_child F dir axes lr tb child e =
     (case dir of
        CLAY_LEFT_TO_RIGHT \<Rightarrow>
          e\<lparr>ln_dimensions := (add32 F (fst (ln_dimensions e)) (fst (ln_dimensions child)),
              CLAY__MAX F (snd (ln_dimensions e)) (add32 F (snd (ln_dimensions child)) tb)),
            ln_minDimensions :=
              (if fst axes then fst (ln_minDimensions e) else add32 F (fst (ln_minDimensions e)) (fst (ln_minDimensions child)),
               if snd axes then snd (ln_minDimensions e)
               else CLAY__MAX F (snd (ln_minDimensions e)) (add32 F (snd (ln_minDimensions child)) tb))\<rparr>
      | CLAY_TOP_TO_BOTTOM \<Rightarrow>
          e\<lparr>ln_dimensions := (CLAY__MAX F (fst (ln_dimensions e)) (add32 F (fst (ln_dimensions child)) lr),
              add32 F (snd (ln_dimensions e)) (snd (ln_dimensions child))),
            ln_minDimensions :=
              (if fst axes then fst (ln_minDimensions e)
               else CLAY__MAX F (fst (ln_minDimensions e)) (add32 F (fst (ln_minDimensions child)) lr),
               if snd axes then snd (ln_minDimensions e) else add32 F (snd (ln_minDimensions e)) (snd (ln_minDimensions child)))\<rparr>)"

definition attach_child :: "'f f32 \<Rightarrow> layout_direction \<Rightarrow> bool \<times> bool \<Rightarrow> 'f \<Rightarrow> 'f \<Rightarrow> nat option \<Rightarrow> nat \<Rightarrow> ('f, 'h) clay_context \<Rightarrow> ('f, 'h) clay_context" where
  "attach_child F dir axes lr tb p i s =
     (let (childIndex, s) = value_in cx_buffer (ca_length (cx_buffer s) - uint (ln_count (element_at s p)) + int i) s;
          (c, s) = get_element childIndex s;
          s = put_element p (grow_by_child F dir axes lr tb (element_at s c)) s
      in snd (add_in cx_children cx_children_update childIndex s))"

definition begin_size :: "'f f32 \<Rightarrow> layout_direction \<Rightarrow> 'f \<Rightarrow> 'f \<Rightarrow> 'f layout_element \<Rightarrow> 'f layout_element" where
  "begin_size F dir lr tb e =
     (case dir of
        CLAY_LEFT_TO_RIGHT \<Rightarrow> e\<lparr>ln_dimensions := (lr, snd (ln_dimensions e)), ln_minDimensions := (lr, snd (ln_minDimensions e))\<rparr>
      | CLAY_TOP_TO_BOTTOM \<Rightarrow> e\<lparr>ln_dimensions := (fst (ln_dimensions e), tb), ln_minDimensions := (fst (ln_minDimensions e), tb)\<rparr>)"

definition add_gaps :: "'f f32 \<Rightarrow> layout_direction \<Rightarrow> 16 word \<Rightarrow> 'f layout_element \<Rightarrow> 'f layout_element" where
  "add_gaps F dir gap e =
     (let childGap = int32 F (max (uint (ln_count e) - 1) 0 * uint gap)
      in case dir of
        CLAY_LEFT_TO_RIGHT \<Rightarrow>
          e\<lparr>ln_dimensions := (add32 F (fst (ln_dimensions e)) childGap, snd (ln_dimensions e)),
            ln_minDimensions := (add32 F (fst (ln_minDimensions e)) childGap, snd (ln_minDimensions e))\<rparr>
      | CLAY_TOP_TO_BOTTOM \<Rightarrow>
          e\<lparr>ln_dimensions := (fst (ln_dimensions e), add32 F (snd (ln_dimensions e)) childGap),
            ln_minDimensions := (fst (ln_minDimensions e), add32 F (snd (ln_minDimensions e)) childGap)\<rparr>)"

text \<open>The limits of an axis; no maximum is the largest number.\<close>

definition limit_axis :: "'f f32 \<Rightarrow> 'f sizing_axis \<Rightarrow> 'f sizing_axis" where
  "limit_axis F a =
     (if sa_type a \<noteq> CLAY__SIZING_TYPE_PERCENT \<and> le32 F (sa_max a) (z32 F) then a\<lparr>sa_max := max32 F\<rparr> else a)"

definition clamp :: "'f f32 \<Rightarrow> 'f sizing_axis \<Rightarrow> 'f \<Rightarrow> 'f" where
  "clamp F a x = CLAY__MIN F (CLAY__MAX F x (sa_min a)) (sa_max a)"

definition clamp_axes :: "'f f32 \<Rightarrow> 'f layout_config \<Rightarrow> 'f layout_element \<Rightarrow> 'f layout_element" where
  "clamp_axes F c e =
     (let w = lc_width c; h = lc_height c;
          pw = sa_type w = CLAY__SIZING_TYPE_PERCENT; ph = sa_type h = CLAY__SIZING_TYPE_PERCENT
      in e\<lparr>ln_dimensions := (if pw then z32 F else clamp F w (fst (ln_dimensions e)), if ph then z32 F else clamp F h (snd (ln_dimensions e))),
           ln_minDimensions := (if pw then fst (ln_minDimensions e) else clamp F w (fst (ln_minDimensions e)),
             if ph then snd (ln_minDimensions e) else clamp F h (snd (ln_minDimensions e)))\<rparr>)"

definition aspect_box :: "'f f32 \<Rightarrow> 'f \<Rightarrow> 'f \<times> 'f \<Rightarrow> 'f \<times> 'f" where
  "aspect_box F ratio wh =
     (let zero = (\<lambda>x. eq32 F x (z32 F))
      in if zero ratio then wh
         else if zero (fst wh) \<and> \<not> zero (snd wh) then (mul32 F (snd wh) ratio, snd wh)
         else if \<not> zero (fst wh) \<and> zero (snd wh) then (fst wh, mul32 F (fst wh) (div32 F (int32 F 1) ratio))
         else wh)"

definition Clay__UpdateAspectRatioBox :: "'f f32 \<Rightarrow> nat option \<Rightarrow> ('f, 'h) clay_context \<Rightarrow> ('f, 'h) clay_context option" where
  "Clay__UpdateAspectRatioBox F p s =
     (case find_config CLAY__ELEMENT_CONFIG_TYPE_ASPECT (ln_configCount (element_at s p)) (configs_from s p) of
        None \<Rightarrow> None
      | Some (Some (EC_ASPECT q)) \<Rightarrow>
          let ratio = (case q of Some k \<Rightarrow> ca_cells (cx_aspects s) ! k | None \<Rightarrow> z32 F)
          in Some (put_element p (\<lambda>e. e\<lparr>ln_dimensions := aspect_box F ratio (ln_dimensions e)\<rparr>) s)
      | Some _ \<Rightarrow> Some s)"

text \<open>
  The children and the size of the closing element. Here the layout of an element has to be there: one that was never configured
  has none (\<open>None\<close>).
\<close>

definition close_size :: "'f host \<Rightarrow> nat option \<Rightarrow> ('f, 'h) clay_context \<Rightarrow> ('f, 'h) clay_context option" where
  "close_size H p s = do {
     (pops, c) \<leftarrow> close_clips (ln_configCount (element_at s p)) (configs_from s p) 0;
     let axes = scroll_axes s c;
     let s = s\<lparr>cx_clipStack := (cx_clipStack s)\<lparr>ca_length := ca_length (cx_clipStack s) - pops\<rparr>\<rparr>;
     let l = ln_layoutConfig (element_at s p);
     layout \<leftarrow> layout_at s l;
     let F = ho_f32 H;
     let lr = int32 F (uint (lc_left layout) + uint (lc_right layout));
     let tb = int32 F (uint (lc_top layout) + uint (lc_bottom layout));
     let dir = lc_layoutDirection layout;
     let n = ln_count (element_at s p);
     let s = put_element p (\<lambda>e. begin_size F dir lr tb (e\<lparr>ln_content := CHILDREN (nat (ca_length (cx_children s)))\<rparr>)) s;
     let s = fold (attach_child F dir axes lr tb p) [0..<unat n] s;
     let s = put_element p (add_gaps F dir (lc_childGap layout)) s;
     let s = s\<lparr>cx_buffer := (cx_buffer s)\<lparr>ca_length := ca_length (cx_buffer s) - uint n\<rparr>\<rparr>;
     let layout = layout\<lparr>lc_width := limit_axis F (lc_width layout), lc_height := limit_axis F (lc_height layout)\<rparr>;
     Clay__UpdateAspectRatioBox F p (put_element p (clamp_axes F layout) (put_layout l layout s))
   }"

definition Clay__CloseElement :: "'f host \<Rightarrow> ('f, 'h) clay_context \<Rightarrow> ('f, 'h) clay_context option" where
  "Clay__CloseElement H s =
     (if cx_maxExceeded s then Some s
      else case Clay__GetOpenLayoutElement s of
        (p, s) \<Rightarrow> do {
          s \<leftarrow> close_size H p s;
          floating \<leftarrow> Clay__ElementHasConfig p CLAY__ELEMENT_CONFIG_TYPE_FLOATING s;
          let (closing, stack, E) = Array_RemoveSwapback 0 (cx_stack s) (ca_length (cx_stack s) - 1) (cx_log s);
          let s = s\<lparr>cx_stack := stack, cx_log := E\<rparr>;
          let (q, s) = Clay__GetOpenLayoutElement s;
          Some (if \<not> floating \<and> 1 < ca_length (cx_stack s)
                then snd (add_in cx_buffer cx_buffer_update closing (put_element q (\<lambda>e. e\<lparr>ln_count := ln_count e + 1\<rparr>) s))
                else s)
        })"

section \<open>A frame\<close>

text \<open>
  A user interface as the host writes it: the macro \<open>CLAY(...) { ... }\<close> opens an element, configures it, runs its body, where
  the children are, and closes it; \<open>CLAY_TEXT\<close> is a text.
\<close>

datatype 'f ui = CLAY "'f declaration_of" "'f ui list" | CLAY_TEXT clay_string clay_text_config

fun declare_ui :: "'f host \<Rightarrow> 'f ui \<Rightarrow> ('f, 'h) clay_context \<Rightarrow> ('f, 'h) clay_context option"
  and declare_all :: "'f host \<Rightarrow> 'f ui list \<Rightarrow> ('f, 'h) clay_context \<Rightarrow> ('f, 'h) clay_context option" where
  "declare_ui H (CLAY d children) s = do {
     s \<leftarrow> Clay__ConfigureOpenElementPtr H d (Clay__OpenElement H s);
     s \<leftarrow> declare_all H children s;
     Clay__CloseElement H s
   }"
| "declare_ui H (CLAY_TEXT str config) s = Clay__OpenTextElement H str config s"
| "declare_all H [] s = Some s"
| "declare_all H (t # ts) s = do { s \<leftarrow> declare_ui H t s; declare_all H ts s }"

text \<open>
  The arrays of a frame are cut from the arena anew, at the places they had before: they are empty, and their memory holds
  what it held.
\<close>

definition emptied :: "'a carray \<Rightarrow> 'a carray" where
  "emptied a = a\<lparr>ca_length := 0\<rparr>"

definition reset_frame :: "('f, 'h) clay_context \<Rightarrow> ('f, 'h) clay_context" where
  "reset_frame s =
     s\<lparr>cx_elements := emptied (cx_elements s), cx_stack := emptied (cx_stack s), cx_children := emptied (cx_children s),
       cx_buffer := emptied (cx_buffer s), cx_clipIds := emptied (cx_clipIds s), cx_clipStack := emptied (cx_clipStack s),
       cx_configs := emptied (cx_configs s), cx_layoutConfigs := emptied (cx_layoutConfigs s), cx_shared := emptied (cx_shared s),
       cx_textConfigs := emptied (cx_textConfigs s), cx_aspects := emptied (cx_aspects s), cx_images := emptied (cx_images s), cx_floatings := emptied (cx_floatings s),
       cx_customs := emptied (cx_customs s), cx_clips := emptied (cx_clips s), cx_borders := emptied (cx_borders s),
       cx_idStrings := emptied (cx_idStrings s), cx_textData := emptied (cx_textData s), cx_aspectIndexes := emptied (cx_aspectIndexes s),
       cx_roots := emptied (cx_roots s)\<rparr>"

definition zero_axis :: "'f f32 \<Rightarrow> 'f sizing_axis" where
  "zero_axis F = \<lparr>sa_min = z32 F, sa_max = z32 F, sa_type = CLAY__SIZING_TYPE_FIT\<rparr>"

definition zero_layout :: "'f f32 \<Rightarrow> 'f layout_config" where
  "zero_layout F = \<lparr>lc_width = zero_axis F, lc_height = zero_axis F, lc_left = 0, lc_right = 0, lc_top = 0, lc_bottom = 0,
     lc_childGap = 0, lc_alignX = CLAY_ALIGN_X_LEFT, lc_alignY = CLAY_ALIGN_Y_TOP, lc_layoutDirection = CLAY_LEFT_TO_RIGHT\<rparr>"

definition zero_declaration :: "'f f32 \<Rightarrow> 'f declaration_of" where
  "zero_declaration F = (let z = z32 F in
     \<lparr>dc_id = \<lparr>eid_id = 0, eid_offset = 0, eid_baseId = 0, eid_stringId = CLAY__STRING_DEFAULT\<rparr>, dc_layout = zero_layout F,
      dc_backgroundColor = (z, z, z, z), dc_cornerRadius = (z, z, z, z), dc_aspectRatio = z, dc_imageData = 0,
      dc_floating = \<lparr>fl_offset = (z, z), fl_expand = (z, z), fl_parentId = 0, fl_zIndex = 0, fl_attachPoints = (0, 0),
        fl_passthrough = False, fl_attachTo = CLAY_ATTACH_TO_NONE, fl_clipTo = CLAY_CLIP_TO_NONE\<rparr>,
      dc_customData = 0, dc_clip = \<lparr>cl_horizontal = False, cl_vertical = False, cl_childOffset = (z, z)\<rparr>,
      dc_border = \<lparr>bo_color = (z, z, z, z), bo_width = \<lparr>bw_left = 0, bw_right = 0, bw_top = 0, bw_bottom = 0, bw_betweenChildren = 0\<rparr>\<rparr>,
      dc_userData = 0\<rparr>)"

definition CLAY_SIZING_FIXED :: "'f \<Rightarrow> 'f sizing_axis" where
  "CLAY_SIZING_FIXED fixedSize = \<lparr>sa_min = fixedSize, sa_max = fixedSize, sa_type = CLAY__SIZING_TYPE_FIXED\<rparr>"

definition Clay__debugViewWidth :: int where
  "Clay__debugViewWidth = 400"

definition root_declaration :: "'f host \<Rightarrow> 'f vec2 \<Rightarrow> 'f declaration_of" where
  "root_declaration H wh = (zero_declaration (ho_f32 H))\<lparr>dc_id := CLAY_ID H (ascii ''Clay__RootContainer''),
     dc_layout := (zero_layout (ho_f32 H))\<lparr>lc_width := CLAY_SIZING_FIXED (fst wh), lc_height := CLAY_SIZING_FIXED (snd wh)\<rparr>\<rparr>"

definition Clay_BeginLayout :: "'f host \<Rightarrow> ('f, 'h) clay_context \<Rightarrow> ('f, 'h) clay_context option" where
  "Clay_BeginLayout H s =
     (let F = ho_f32 H;
          s = reset_frame s;
          s = s\<lparr>cx_map := (cx_map s)\<lparr>hm_generation := hm_generation (cx_map s) + 1\<rparr>,
                cx_text := (cx_text s)\<lparr>tx_generation := tx_generation (cx_text s) + 1, tx_notSet := False, tx_exceeded := False\<rparr>,
                cx_maxExceeded := False\<rparr>;
          width = fst (cx_layoutDimensions s);
          width = if hm_debugMode (cx_map s) then sub32 F width (int32 F Clay__debugViewWidth) else width
      in do {
        s \<leftarrow> Clay__ConfigureOpenElementPtr H (root_declaration H (width, snd (cx_layoutDimensions s))) (Clay__OpenElement H s);
        let (_, s) = add_in cx_stack cx_stack_update 0 s;
        let (_, s) = add_in cx_roots cx_roots_update \<lparr>tr_layoutElementIndex = 0, tr_parentId = 0, tr_clipElementId = 0, tr_zIndex = 0,
               tr_pointerOffset = (z32 F, z32 F)\<rparr> s;
        Some s
      })"

text \<open>The first thing \<open>Clay_EndLayout\<close> does is to close the root.\<close>

definition declare_frame :: "'f host \<Rightarrow> 'f ui list \<Rightarrow> ('f, 'h) clay_context \<Rightarrow> ('f, 'h) clay_context option" where
  "declare_frame H ts s = do {
     s \<leftarrow> Clay_BeginLayout H s;
     s \<leftarrow> declare_all H ts s;
     Clay__CloseElement H s
   }"

end
