(* ===== verification/Clay_Tree.thy ===== *)
theory Clay_Tree
  imports Clay_Layout
begin

text \<open>
  What the calls that declare a layout do to the tree of elements, without sizes, identifiers and memory: a view of the context
  in which elements have only their children and the types of their configurations. For a whole user interface the view is given
  in closed form, and that the calls of an implementation lead to it is shown once, for every implementation of the four calls.
\<close>

section \<open>The view\<close>

text \<open>
  \<open>nd_at\<close> and \<open>nd_count\<close> say where the children of an element are, \<open>nd_first\<close> and \<open>nd_kinds\<close> where its configurations are;
  an element that was not configured is \<open>nd_bare\<close>.
\<close>

record node =
  nd_at :: "nat option"
  nd_count :: "16 word"
  nd_first :: "nat option"
  nd_kinds :: nat
  nd_bare :: bool

record tree_view =
  tv_nodes :: "node list"
  tv_stack :: "int list"
  tv_children :: "int list"
  tv_buffer :: "int list"
  tv_clips :: int
  tv_kinds :: "config_type list"

definition tv_top :: "tree_view \<Rightarrow> nat" where
  "tv_top v = nat (last (tv_stack v))"

definition upd_node :: "nat \<Rightarrow> (node \<Rightarrow> node) \<Rightarrow> tree_view \<Rightarrow> tree_view" where
  "upd_node k h v = v\<lparr>tv_nodes := (tv_nodes v)[k := h (tv_nodes v ! k)]\<rparr>"

text \<open>How many clip elements there are among configurations: a floating element is one, an element that clips is one and the last.\<close>

fun clip_pops :: "config_type list \<Rightarrow> int" where
  "clip_pops [] = 0"
| "clip_pops (CLAY__ELEMENT_CONFIG_TYPE_CLIP # ks) = 1"
| "clip_pops (CLAY__ELEMENT_CONFIG_TYPE_FLOATING # ks) = 1 + clip_pops ks"
| "clip_pops (_ # ks) = clip_pops ks"

definition new_node :: node where
  "new_node = \<lparr>nd_at = None, nd_count = 0, nd_first = None, nd_kinds = 0, nd_bare = True\<rparr>"

definition tv_open :: "tree_view \<Rightarrow> tree_view" where
  "tv_open v = v\<lparr>tv_nodes := tv_nodes v @ [new_node], tv_stack := tv_stack v @ [int (length (tv_nodes v))]\<rparr>"

definition tv_attach :: "config_type list \<Rightarrow> tree_view \<Rightarrow> tree_view" where
  "tv_attach ks v = (upd_node (tv_top v) (\<lambda>n. n\<lparr>nd_kinds := nd_kinds n + length ks\<rparr>) v)\<lparr>tv_kinds := tv_kinds v @ ks\<rparr>"

definition tv_layout :: "tree_view \<Rightarrow> tree_view" where
  "tv_layout v = upd_node (tv_top v) (\<lambda>n. n\<lparr>nd_bare := False, nd_first := Some (length (tv_kinds v))\<rparr>) v"

definition tv_configure :: "config_type list \<Rightarrow> tree_view \<Rightarrow> tree_view" where
  "tv_configure ks v = (tv_attach ks (tv_layout v))\<lparr>tv_clips := tv_clips v + clip_pops ks\<rparr>"

definition text_node :: "nat \<Rightarrow> node" where
  "text_node k = \<lparr>nd_at = None, nd_count = 0, nd_first = Some k, nd_kinds = 1, nd_bare = False\<rparr>"

definition one_more :: "nat \<Rightarrow> tree_view \<Rightarrow> tree_view" where
  "one_more k = upd_node k (\<lambda>n. n\<lparr>nd_count := nd_count n + 1\<rparr>)"

definition tv_text :: "tree_view \<Rightarrow> tree_view" where
  "tv_text v = one_more (tv_top v) (v\<lparr>tv_nodes := tv_nodes v @ [text_node (length (tv_kinds v))],
     tv_buffer := tv_buffer v @ [int (length (tv_nodes v))], tv_kinds := tv_kinds v @ [CLAY__ELEMENT_CONFIG_TYPE_TEXT]\<rparr>)"

definition kinds_of_node :: "tree_view \<Rightarrow> nat \<Rightarrow> config_type list" where
  "kinds_of_node v k =
     (case nd_first (tv_nodes v ! k) of Some j \<Rightarrow> take (nd_kinds (tv_nodes v ! k)) (drop j (tv_kinds v)) | None \<Rightarrow> [])"

text \<open>The children of the closing element move from the end of the buffer to the end of the children.\<close>

definition tv_adopt :: "tree_view \<Rightarrow> tree_view" where
  "tv_adopt v =
     (let p = tv_top v; m = length (tv_buffer v) - unat (nd_count (tv_nodes v ! p))
      in (upd_node p (\<lambda>n. n\<lparr>nd_at := Some (length (tv_children v))\<rparr>) v)
           \<lparr>tv_children := tv_children v @ drop m (tv_buffer v), tv_buffer := take m (tv_buffer v), tv_clips := tv_clips v - clip_pops (kinds_of_node v p)\<rparr>)"

definition tv_leave :: "bool \<Rightarrow> tree_view \<Rightarrow> tree_view" where
  "tv_leave floating v =
     (let w = v\<lparr>tv_stack := butlast (tv_stack v)\<rparr>
      in if \<not> floating \<and> 1 < length (tv_stack w) then one_more (tv_top w) (w\<lparr>tv_buffer := tv_buffer w @ [last (tv_stack v)]\<rparr>) else w)"

definition tv_close :: "tree_view \<Rightarrow> tree_view" where
  "tv_close v = tv_leave (CLAY__ELEMENT_CONFIG_TYPE_FLOATING \<in> set (kinds_of_node v (tv_top v))) (tv_adopt v)"

text \<open>The children of an element.\<close>

definition kids :: "int list \<Rightarrow> node \<Rightarrow> int list" where
  "kids C n = (case nd_at n of Some a \<Rightarrow> take (unat (nd_count n)) (drop a C) | None \<Rightarrow> [])"

section \<open>A user interface\<close>

type_synonym 'f kinds = "'f declaration_of \<Rightarrow> config_type list"

fun ui_size :: "'f ui \<Rightarrow> nat" and ui_sizes :: "'f ui list \<Rightarrow> nat" where
  "ui_size (CLAY d ts) = Suc (ui_sizes ts)"
| "ui_size (CLAY_TEXT x c) = 1"
| "ui_sizes [] = 0"
| "ui_sizes (t # ts) = ui_size t + ui_sizes ts"

text \<open>The indices of the elements that are children of the element around, when the first of them all is \<open>n\<close>: floating ones are not.\<close>

definition ui_floats :: "'f kinds \<Rightarrow> 'f ui \<Rightarrow> bool" where
  "ui_floats ks t = (case t of CLAY d _ \<Rightarrow> CLAY__ELEMENT_CONFIG_TYPE_FLOATING \<in> set (ks d) | CLAY_TEXT _ _ \<Rightarrow> False)"

fun child_indices :: "'f kinds \<Rightarrow> nat \<Rightarrow> 'f ui list \<Rightarrow> int list" where
  "child_indices ks n [] = []"
| "child_indices ks n (t # ts) = (if ui_floats ks t then [] else [int n]) @ child_indices ks (n + ui_size t) ts"

text \<open>The children of every element of a user interface, in the order in which the elements are opened.\<close>

fun ui_children :: "'f kinds \<Rightarrow> nat \<Rightarrow> 'f ui \<Rightarrow> int list list" and ui_childrens :: "'f kinds \<Rightarrow> nat \<Rightarrow> 'f ui list \<Rightarrow> int list list" where
  "ui_children ks n (CLAY d ts) = child_indices ks (Suc n) ts # ui_childrens ks (Suc n) ts"
| "ui_children ks n (CLAY_TEXT x c) = [[]]"
| "ui_childrens ks n [] = []"
| "ui_childrens ks n (t # ts) = ui_children ks n t @ ui_childrens ks (n + ui_size t) ts"

text \<open>What it adds to the array of children and to the types of configurations, and the elements it makes.\<close>

fun ui_slots :: "'f kinds \<Rightarrow> nat \<Rightarrow> 'f ui \<Rightarrow> int list" and ui_slotss :: "'f kinds \<Rightarrow> nat \<Rightarrow> 'f ui list \<Rightarrow> int list" where
  "ui_slots ks n (CLAY d ts) = ui_slotss ks (Suc n) ts @ child_indices ks (Suc n) ts"
| "ui_slots ks n (CLAY_TEXT x c) = []"
| "ui_slotss ks n [] = []"
| "ui_slotss ks n (t # ts) = ui_slots ks n t @ ui_slotss ks (n + ui_size t) ts"

fun ui_kinds :: "'f kinds \<Rightarrow> 'f ui \<Rightarrow> config_type list" and ui_kindss :: "'f kinds \<Rightarrow> 'f ui list \<Rightarrow> config_type list" where
  "ui_kinds ks (CLAY d ts) = ks d @ ui_kindss ks ts"
| "ui_kinds ks (CLAY_TEXT x c) = [CLAY__ELEMENT_CONFIG_TYPE_TEXT]"
| "ui_kindss ks [] = []"
| "ui_kindss ks (t # ts) = ui_kinds ks t @ ui_kindss ks ts"

fun ui_nodes :: "'f kinds \<Rightarrow> nat \<Rightarrow> nat \<Rightarrow> nat \<Rightarrow> 'f ui \<Rightarrow> node list" and ui_nodess :: "'f kinds \<Rightarrow> nat \<Rightarrow> nat \<Rightarrow> nat \<Rightarrow> 'f ui list \<Rightarrow> node list" where
  "ui_nodes ks n c k (CLAY d ts) =
     \<lparr>nd_at = Some (c + length (ui_slotss ks (Suc n) ts)), nd_count = of_nat (length (child_indices ks (Suc n) ts)), nd_first = Some k,
      nd_kinds = length (ks d), nd_bare = False\<rparr> # ui_nodess ks (Suc n) c (k + length (ks d)) ts"
| "ui_nodes ks n c k (CLAY_TEXT x y) = [text_node k]"
| "ui_nodess ks n c k [] = []"
| "ui_nodess ks n c k (t # ts) = ui_nodes ks n c k t @ ui_nodess ks (n + ui_size t) (c + length (ui_slots ks n t)) (k + length (ui_kinds ks t)) ts"

text \<open>A count of children has 16 bits.\<close>

fun ui_narrow :: "'f ui \<Rightarrow> bool" and ui_narrows :: "'f ui list \<Rightarrow> bool" where
  "ui_narrow (CLAY d ts) \<longleftrightarrow> length ts < 2 ^ 16 \<and> ui_narrows ts"
| "ui_narrow (CLAY_TEXT x c) \<longleftrightarrow> True"
| "ui_narrows [] \<longleftrightarrow> True"
| "ui_narrows (t # ts) \<longleftrightarrow> ui_narrow t \<and> ui_narrows ts"

fun clip_depth :: "'f kinds \<Rightarrow> 'f ui \<Rightarrow> int" and clip_depths :: "'f kinds \<Rightarrow> 'f ui list \<Rightarrow> int" where
  "clip_depth ks (CLAY d ts) = clip_pops (ks d) + clip_depths ks ts"
| "clip_depth ks (CLAY_TEXT x c) = 0"
| "clip_depths ks [] = 0"
| "clip_depths ks (t # ts) = max (clip_depth ks t) (clip_depths ks ts)"

text \<open>The calls, on the view.\<close>

fun tv_declare :: "'f kinds \<Rightarrow> 'f ui \<Rightarrow> tree_view \<Rightarrow> tree_view" and tv_declares :: "'f kinds \<Rightarrow> 'f ui list \<Rightarrow> tree_view \<Rightarrow> tree_view" where
  "tv_declare ks (CLAY d ts) v = tv_close (tv_declares ks ts (tv_configure (ks d) (tv_open v)))"
| "tv_declare ks (CLAY_TEXT x c) v = tv_text v"
| "tv_declares ks [] v = v"
| "tv_declares ks (t # ts) v = tv_declares ks ts (tv_declare ks t v)"

text \<open>The closed form: what declaring makes of a view in which the open element is the last of the stack.\<close>

definition grown :: "'f kinds \<Rightarrow> 'f ui list \<Rightarrow> tree_view \<Rightarrow> tree_view" where
  "grown ks ts v =
     (let n = length (tv_nodes v); p = tv_top v
      in v\<lparr>tv_nodes := (tv_nodes v)[p := (tv_nodes v ! p)\<lparr>nd_count := nd_count (tv_nodes v ! p) + of_nat (length (child_indices ks n ts))\<rparr>] @
             ui_nodess ks n (length (tv_children v)) (length (tv_kinds v)) ts,
           tv_children := tv_children v @ ui_slotss ks n ts, tv_buffer := tv_buffer v @ child_indices ks n ts,
           tv_kinds := tv_kinds v @ ui_kindss ks ts\<rparr>)"

lemma ui_nodes_length: "length (ui_nodes ks n c k t) = ui_size t" "length (ui_nodess ks n c k ts) = ui_sizes ts"
  by (induction ks n c k t and ks n c k ts rule: ui_nodes_ui_nodess.induct) auto

lemma child_indices_length: "length (child_indices ks n ts) \<le> length ts"
  by (induction ks n ts rule: child_indices.induct) auto

lemma ui_sizes_length: "length ts \<le> ui_sizes ts"
proof (induction ts)
  case (Cons t ts)
  then show ?case by (cases t) auto
qed simp

lemma ui_size_positive: "0 < ui_size t"
  by (cases t) auto

lemma slots_length:
  "length (ui_slots ks n t) + 1 \<le> ui_size t" "length (ui_slotss ks n ts) + length (child_indices ks n ts) \<le> ui_sizes ts"
  by (induction ks n t and ks n ts rule: ui_slots_ui_slotss.induct) auto

lemma tv_upd_simps [simp]:
  "tv_stack (upd_node k h v) = tv_stack v" "tv_children (upd_node k h v) = tv_children v" "tv_buffer (upd_node k h v) = tv_buffer v"
  "tv_clips (upd_node k h v) = tv_clips v" "tv_kinds (upd_node k h v) = tv_kinds v"
  "tv_nodes (upd_node k h v) = (tv_nodes v)[k := h (tv_nodes v ! k)]"
  by (simp_all add: upd_node_def)

lemma grown_append:
  assumes "tv_top v < length (tv_nodes v)"
  shows "grown ks ts (grown ks [t] v) = grown ks (t # ts) v"
  using assms
  by (simp add: grown_def Let_def tv_top_def nth_append list_update_append ui_nodes_length add.assoc)

text \<open>Opening an element, configuring it, declaring its children and closing it, in closed form.\<close>

lemma configured_open:
  "tv_configure ks (tv_open v) = v\<lparr>tv_nodes := tv_nodes v @ [\<lparr>nd_at = None, nd_count = 0, nd_first = Some (length (tv_kinds v)), nd_kinds = length ks, nd_bare = False\<rparr>],
     tv_stack := tv_stack v @ [int (length (tv_nodes v))], tv_kinds := tv_kinds v @ ks, tv_clips := tv_clips v + clip_pops ks\<rparr>"
  by (simp add: tv_configure_def tv_attach_def tv_layout_def tv_open_def tv_top_def upd_node_def new_node_def nth_append)

lemma tv_close_grown:
  assumes "length ts < 2 ^ 16" and "1 < length (tv_stack v)" and "tv_top v < length (tv_nodes v)"
  shows "tv_close (grown ks ts (tv_configure (ks d) (tv_open v))) = grown ks [CLAY d ts] v"
proof -
  let ?n = "length (tv_nodes v)" and ?c = "length (child_indices ks (Suc (length (tv_nodes v))) ts)"
  have c: "unat (of_nat ?c :: 16 word) = ?c"
    using child_indices_length [of ks "Suc ?n" ts] assms(1) by (simp add: unat_of_nat)
  have l: "last (tv_stack v) = last (butlast (tv_stack v @ [int ?n]))" by simp
  show ?thesis using assms(2,3)
    by (simp add: grown_def configured_open tv_close_def tv_adopt_def tv_leave_def kinds_of_node_def one_more_def upd_node_def Let_def tv_top_def
        nth_append list_update_append c ui_floats_def)
qed

lemma tv_text_grown: "tv_top v < length (tv_nodes v) \<Longrightarrow> tv_text v = grown ks [CLAY_TEXT x c] v"
  by (simp add: tv_text_def one_more_def upd_node_def grown_def Let_def tv_top_def nth_append list_update_append ui_floats_def)

lemma grown_simps [simp]:
  "tv_stack (grown ks ts v) = tv_stack v" "tv_clips (grown ks ts v) = tv_clips v"
  "tv_children (grown ks ts v) = tv_children v @ ui_slotss ks (length (tv_nodes v)) ts"
  "tv_buffer (grown ks ts v) = tv_buffer v @ child_indices ks (length (tv_nodes v)) ts"
  "tv_kinds (grown ks ts v) = tv_kinds v @ ui_kindss ks ts"
  "length (tv_nodes (grown ks ts v)) = length (tv_nodes v) + ui_sizes ts"
  "tv_top (grown ks ts v) = tv_top v"
  by (simp_all add: grown_def Let_def ui_nodes_length tv_top_def)

lemma configured_simps [simp]:
  "tv_stack (tv_configure ks (tv_open v)) = tv_stack v @ [int (length (tv_nodes v))]" "tv_clips (tv_configure ks (tv_open v)) = tv_clips v + clip_pops ks"
  "tv_children (tv_configure ks (tv_open v)) = tv_children v" "tv_buffer (tv_configure ks (tv_open v)) = tv_buffer v"
  "tv_kinds (tv_configure ks (tv_open v)) = tv_kinds v @ ks" "length (tv_nodes (tv_configure ks (tv_open v))) = Suc (length (tv_nodes v))"
  "tv_top (tv_configure ks (tv_open v)) = length (tv_nodes v)"
  by (simp_all add: configured_open tv_top_def)

lemma tv_declare_grown:
  "ui_narrow t \<Longrightarrow> 1 < length (tv_stack v) \<Longrightarrow> tv_top v < length (tv_nodes v) \<Longrightarrow> tv_declare ks t v = grown ks [t] v"
  "ui_narrows ts \<Longrightarrow> 1 < length (tv_stack v) \<Longrightarrow> tv_top v < length (tv_nodes v) \<Longrightarrow> tv_declares ks ts v = grown ks ts v"
proof (induction ks t v and ks ts v rule: tv_declare_tv_declares.induct)
  case (1 ks d ts v)
  then show ?case by (cases "tv_stack v") (simp_all add: tv_close_grown)
next
  case (2 ks x c v)
  then show ?case by (simp add: tv_text_grown)
next
  case (3 ks v)
  then show ?case by (simp add: grown_def)
next
  case (4 ks t ts v)
  then show ?case by (simp add: grown_append)
qed

text \<open>In the closed form the children of every element are what they should be.\<close>

lemma kids_eq: "nd_at x = Some a \<Longrightarrow> kids C x = take (unat (nd_count x)) (drop a C)"
  by (simp add: kids_def)

lemma kids_of_nodes:
  "ui_narrow t \<Longrightarrow> map (kids (pre @ ui_slots ks n t @ post)) (ui_nodes ks n (length pre) k t) = ui_children ks n t"
  "ui_narrows ts \<Longrightarrow> map (kids (pre @ ui_slotss ks n ts @ post)) (ui_nodess ks n (length pre) k ts) = ui_childrens ks n ts"
proof (induction t and ts arbitrary: n k pre post and n k pre post rule: ui_size_ui_sizes.induct)
  case (1 d ts)
  have c: "unat (of_nat (length (child_indices ks (Suc n) ts)) :: 16 word) = length (child_indices ks (Suc n) ts)"
    using child_indices_length [of ks "Suc n" ts] 1(2) by (simp add: unat_of_nat)
  have "map (kids (pre @ ui_slotss ks (Suc n) ts @ child_indices ks (Suc n) ts @ post)) (ui_nodess ks (Suc n) (length pre) (k + length (ks d)) ts) = ui_childrens ks (Suc n) ts"
    using 1 by simp
  then show ?case by (simp add: kids_eq c)
next
  case (2 x c)
  then show ?case by (simp add: kids_def text_node_def)
next
  case 3
  then show ?case by simp
next
  case (4 t ts)
  let ?m = "n + ui_size t"
  have "map (kids (pre @ ui_slots ks n t @ ui_slotss ks ?m ts @ post)) (ui_nodes ks n (length pre) k t) = ui_children ks n t"
    using 4 by simp
  moreover have "map (kids ((pre @ ui_slots ks n t) @ ui_slotss ks ?m ts @ post)) (ui_nodess ks ?m (length (pre @ ui_slots ks n t)) (k + length (ui_kinds ks t)) ts) =
      ui_childrens ks ?m ts" using 4(2) [of "pre @ ui_slots ks n t" ?m post "k + length (ui_kinds ks t)"] 4(3) by simp
  ultimately show ?case by simp
qed

section \<open>Every implementation\<close>

record tree_limits =
  tl_elements :: int
  tl_stack :: int
  tl_children :: int
  tl_buffer :: int
  tl_clips :: int
  tl_kinds :: int

text \<open>The stack holds elements.\<close>

definition stack_ok :: "tree_view \<Rightarrow> bool" where
  "stack_ok v \<longleftrightarrow> tv_stack v \<noteq> [] \<and> (\<forall>i \<in> set (tv_stack v). 0 \<le> i \<and> i < int (length (tv_nodes v)))"

lemma stack_ok_top: "stack_ok v \<Longrightarrow> tv_top v < length (tv_nodes v) \<and> int (tv_top v) = last (tv_stack v)"
proof -
  assume "stack_ok v"
  then have "last (tv_stack v) \<in> set (tv_stack v)" "\<forall>i \<in> set (tv_stack v). 0 \<le> i \<and> i < int (length (tv_nodes v))" by (simp_all add: stack_ok_def)
  then show ?thesis by (auto simp: tv_top_def)
qed

definition can_open :: "tree_limits \<Rightarrow> tree_view \<Rightarrow> bool" where
  "can_open l v \<longleftrightarrow> int (length (tv_nodes v)) + 1 < tl_elements l \<and> int (length (tv_stack v)) < tl_stack l"

definition can_configure :: "config_type list \<Rightarrow> tree_limits \<Rightarrow> tree_view \<Rightarrow> bool" where
  "can_configure ks l v \<longleftrightarrow> int (length (tv_kinds v)) + int (length ks) \<le> tl_kinds l \<and> tv_clips v + clip_pops ks \<le> tl_clips l \<and> stack_ok v"

definition can_text :: "tree_limits \<Rightarrow> tree_view \<Rightarrow> bool" where
  "can_text l v \<longleftrightarrow> int (length (tv_nodes v)) + 1 < tl_elements l \<and> int (length (tv_buffer v)) < tl_buffer l \<and> int (length (tv_kinds v)) < tl_kinds l \<and> stack_ok v"

definition can_close :: "tree_limits \<Rightarrow> tree_view \<Rightarrow> bool" where
  "can_close l v \<longleftrightarrow> stack_ok v \<and> 1 < length (tv_stack v) \<and>
     (let x = tv_nodes v ! tv_top v; c = unat (nd_count x)
      in \<not> nd_bare x \<and> c \<le> length (tv_buffer v) \<and> int (length (tv_children v)) + int c \<le> tl_children l \<and>
         int (length (tv_buffer v)) - int c < tl_buffer l \<and>
         (\<exists>j. nd_first x = Some j \<and> j + nd_kinds x \<le> length (tv_kinds v)) \<and> clip_pops (kinds_of_node v (tv_top v)) \<le> tv_clips v)"

text \<open>
  An implementation keeps an invariant, in which \<open>b\<close> is what is left for texts, and its calls do to its view what they should when
  there is room.
\<close>

locale tree_builder =
  fixes inv :: "nat \<Rightarrow> 's \<Rightarrow> bool" and view :: "'s \<Rightarrow> tree_view" and limits_of :: "'s \<Rightarrow> tree_limits" and kinds :: "'f kinds"
    and text_need :: "clay_string \<Rightarrow> nat" and open_it :: "'s \<Rightarrow> 's" and configure :: "'f declaration_of \<Rightarrow> 's \<Rightarrow> 's option"
    and add_text :: "clay_string \<Rightarrow> clay_text_config \<Rightarrow> 's \<Rightarrow> 's option" and close :: "'s \<Rightarrow> 's option"
    and decl :: "'f ui \<Rightarrow> 's \<Rightarrow> 's option" and decls :: "'f ui list \<Rightarrow> 's \<Rightarrow> 's option"
  assumes open_ok: "inv b s \<Longrightarrow> can_open (limits_of s) (view s) \<Longrightarrow>
      inv b (open_it s) \<and> limits_of (open_it s) = limits_of s \<and> view (open_it s) = tv_open (view s)"
    and configure_ok: "inv b s \<Longrightarrow> can_configure (kinds d) (limits_of s) (view s) \<Longrightarrow>
      \<exists>s'. configure d s = Some s' \<and> inv b s' \<and> limits_of s' = limits_of s \<and> view s' = tv_configure (kinds d) (view s)"
    and text_ok: "inv (text_need x + b) s \<Longrightarrow> can_text (limits_of s) (view s) \<Longrightarrow>
      \<exists>s'. add_text x c s = Some s' \<and> inv b s' \<and> limits_of s' = limits_of s \<and> view s' = tv_text (view s)"
    and close_ok: "inv b s \<Longrightarrow> can_close (limits_of s) (view s) \<Longrightarrow>
      \<exists>s'. close s = Some s' \<and> inv b s' \<and> limits_of s' = limits_of s \<and> view s' = tv_close (view s)"
    and decl_element: "decl (CLAY d ts) s = (case configure d (open_it s) of None \<Rightarrow> None | Some s \<Rightarrow> (case decls ts s of None \<Rightarrow> None | Some s \<Rightarrow> close s))"
    and decl_text: "decl (CLAY_TEXT x c) s = add_text x c s"
    and decls_none: "decls [] s = Some s"
    and decls_more: "decls (t # ts) s = (case decl t s of None \<Rightarrow> None | Some s \<Rightarrow> decls ts s)"

text \<open>Room for a user interface.\<close>

fun ui_text :: "(clay_string \<Rightarrow> nat) \<Rightarrow> 'f ui \<Rightarrow> nat" and ui_texts :: "(clay_string \<Rightarrow> nat) \<Rightarrow> 'f ui list \<Rightarrow> nat" where
  "ui_text need (CLAY d ts) = ui_texts need ts"
| "ui_text need (CLAY_TEXT x c) = need x"
| "ui_texts need [] = 0"
| "ui_texts need (t # ts) = ui_text need t + ui_texts need ts"

definition ui_room :: "nat \<Rightarrow> nat \<Rightarrow> int \<Rightarrow> tree_limits \<Rightarrow> tree_view \<Rightarrow> bool" where
  "ui_room m k c l v \<longleftrightarrow> int (length (tv_nodes v)) + int m < tl_elements l \<and> int (length (tv_stack v)) + int m \<le> tl_stack l \<and>
     int (length (tv_children v)) + int m \<le> tl_children l \<and> int (length (tv_buffer v)) + int m \<le> tl_buffer l \<and>
     int (length (tv_kinds v)) + int k \<le> tl_kinds l \<and> 0 \<le> tv_clips v \<and> tv_clips v + c \<le> tl_clips l \<and> stack_ok v \<and> 1 < length (tv_stack v)"

lemma clip_pops_nonneg: "0 \<le> clip_pops ks"
  by (induction ks rule: clip_pops.induct) auto

lemma clip_depths_nonneg: "0 \<le> clip_depth ks t" "0 \<le> clip_depths ks ts"
  by (induction ks t and ks ts rule: clip_depth_clip_depths.induct) (auto simp: clip_pops_nonneg)

lemma stack_ok_configured: "stack_ok v \<Longrightarrow> stack_ok (tv_configure ks (tv_open v))"
  by (auto simp: stack_ok_def)

lemma stack_ok_grown: "stack_ok v \<Longrightarrow> stack_ok (grown ks ts v)"
  by (auto simp: stack_ok_def)

lemma can_close_grown:
  assumes "length ts < 2 ^ 16" and "ui_room (Suc (ui_sizes ts)) k (clip_pops (ks d)) l v"
  shows "can_close l (grown ks ts (tv_configure (ks d) (tv_open v)))"
proof -
  let ?n = "length (tv_nodes v)" and ?w = "grown ks ts (tv_configure (ks d) (tv_open v))"
  have c: "unat (of_nat (length (child_indices ks (Suc ?n) ts)) :: 16 word) = length (child_indices ks (Suc ?n) ts)"
    using child_indices_length [of ks "Suc ?n" ts] assms(1) by (simp add: unat_of_nat)
  then have u: "uint (of_nat (length (child_indices ks (Suc ?n) ts)) :: 16 word) = int (length (child_indices ks (Suc ?n) ts))"
    by (simp only: uint_nat)
  have x: "tv_nodes ?w ! ?n = \<lparr>nd_at = None, nd_count = of_nat (length (child_indices ks (Suc ?n) ts)), nd_first = Some (length (tv_kinds v)),
      nd_kinds = length (ks d), nd_bare = False\<rparr>"
    by (simp add: grown_def configured_open Let_def tv_top_def nth_append list_update_append)
  then have "kinds_of_node ?w ?n = ks d" by (simp add: kinds_of_node_def)
  moreover have "stack_ok ?w" using assms(2) by (simp add: ui_room_def stack_ok_grown stack_ok_configured)
  ultimately show ?thesis using assms(2) slots_length(2) [of ks "Suc ?n" ts]
    by (auto simp: can_close_def ui_room_def Let_def x c u)
qed

context tree_builder
begin

lemma declares:
  "inv (ui_text text_need t + b) s \<Longrightarrow> ui_narrow t \<Longrightarrow> ui_room (ui_size t) (length (ui_kinds kinds t)) (clip_depth kinds t) (limits_of s) (view s) \<Longrightarrow>
    \<exists>s'. decl t s = Some s' \<and> inv b s' \<and> limits_of s' = limits_of s \<and> view s' = grown kinds [t] (view s)"
  "inv (ui_texts text_need ts + b) s \<Longrightarrow> ui_narrows ts \<Longrightarrow> ui_room (ui_sizes ts) (length (ui_kindss kinds ts)) (clip_depths kinds ts) (limits_of s) (view s) \<Longrightarrow>
    \<exists>s'. decls ts s = Some s' \<and> inv b s' \<and> limits_of s' = limits_of s \<and> view s' = grown kinds ts (view s)"
proof (induction t and ts arbitrary: b s and b s rule: ui_size_ui_sizes.induct)
  case (1 d ts)
  let ?v = "view s"
  have r: "ui_room (Suc (ui_sizes ts)) (length (kinds d @ ui_kindss kinds ts)) (clip_pops (kinds d) + clip_depths kinds ts) (limits_of s) ?v"
    using 1(4) by simp
  have o: "inv (ui_texts text_need ts + b) (open_it s)" "limits_of (open_it s) = limits_of s" "view (open_it s) = tv_open ?v"
    using open_ok [of "ui_texts text_need ts + b" s] 1(2) r by (auto simp: can_open_def ui_room_def)
  have "can_configure (kinds d) (limits_of s) (tv_open ?v)"
    using r clip_depths_nonneg(2) [of kinds ts] by (auto simp: can_configure_def ui_room_def tv_open_def stack_ok_def)
  then obtain s2 where c: "configure d (open_it s) = Some s2" "inv (ui_texts text_need ts + b) s2" "limits_of s2 = limits_of s"
    "view s2 = tv_configure (kinds d) (tv_open ?v)" using configure_ok [OF o(1), of d] o by auto
  have "ui_room (ui_sizes ts) (length (ui_kindss kinds ts)) (clip_depths kinds ts) (limits_of s2) (view s2)"
    using r clip_pops_nonneg [of "kinds d"] by (auto simp: ui_room_def c stack_ok_configured)
  then obtain s3 where k: "decls ts s2 = Some s3" "inv b s3" "limits_of s3 = limits_of s" "view s3 = grown kinds ts (tv_configure (kinds d) (tv_open ?v))"
    using 1(1) [OF c(2)] 1(3) c(3,4) by auto
  have "ui_room (Suc (ui_sizes ts)) 0 (clip_pops (kinds d)) (limits_of s) ?v" using r clip_depths_nonneg(2) [of kinds ts] by (simp add: ui_room_def)
  then have "can_close (limits_of s3) (view s3)" unfolding k(3,4) using 1(3) by (intro can_close_grown) simp_all
  then show ?case using close_ok [OF k(2)] tv_close_grown [of ts ?v kinds d] 1(3) r stack_ok_top [of ?v] k c(1)
    by (auto simp: decl_element ui_room_def)
next
  case (2 x c)
  then show ?case using text_ok [of x b s c] tv_text_grown [of "view s" kinds x c] stack_ok_top [of "view s"]
    by (auto simp: decl_text can_text_def ui_room_def)
next
  case 3
  then show ?case by (auto simp: decls_none grown_def)
next
  case (4 t ts)
  let ?v = "view s"
  have r: "ui_room (ui_size t) (length (ui_kinds kinds t)) (clip_depth kinds t) (limits_of s) ?v"
    using 4(5) by (auto simp: ui_room_def)
  obtain s2 where d: "decl t s = Some s2" "inv (ui_texts text_need ts + b) s2" "limits_of s2 = limits_of s" "view s2 = grown kinds [t] ?v"
    using 4(1) [of "ui_texts text_need ts + b" s] 4(3,4) r by (auto simp: add.assoc)
  have "ui_room (ui_sizes ts) (length (ui_kindss kinds ts)) (clip_depths kinds ts) (limits_of s2) (view s2)"
    using 4(5) slots_length(2) [of kinds "length (tv_nodes ?v)" "[t]"] child_indices_length [of kinds "length (tv_nodes ?v)" "[t]"] ui_size_positive [of t]
    by (auto simp: ui_room_def d(3,4) stack_ok_grown)
  then show ?case using 4(2) [OF d(2)] 4(4) grown_append [of ?v kinds ts t] stack_ok_top [of ?v] r d
    by (auto simp: decls_more ui_room_def)
qed

end

end
