(* ===== verification/Clay_Text_Ok.thy ===== *)
theory Clay_Text_Ok
  imports Clay_Text
begin

text \<open>
  What the cache of measured texts keeps: its buckets are chains of entries in use, its entries own chains of words,
  no word has two owners, and what is free belongs to nobody. Measuring a text keeps that, comes to an end, and
  leaves the words of the text, in order, in the entry it makes.
\<close>

section \<open>Chains of indices\<close>

text \<open>\<open>ks\<close> are the indices below \<open>n\<close> met from \<open>i\<close> on, up to the end mark \<open>e\<close>.\<close>

primrec linked :: "(nat \<Rightarrow> int) \<Rightarrow> int \<Rightarrow> nat \<Rightarrow> int \<Rightarrow> nat list \<Rightarrow> bool" where
  "linked nxt e n i [] \<longleftrightarrow> i = e"
| "linked nxt e n i (k # ks) \<longleftrightarrow> i = int k \<and> int k \<noteq> e \<and> k < n \<and> linked nxt e n (nxt k) ks"

lemma linked_less: "linked nxt e n i ks \<Longrightarrow> k \<in> set ks \<Longrightarrow> k < n \<and> int k \<noteq> e"
  by (induction ks arbitrary: i) auto

lemma linked_cong: "(\<And>k. k \<in> set ks \<Longrightarrow> nxt' k = nxt k) \<Longrightarrow> n \<le> n' \<Longrightarrow> linked nxt e n i ks \<Longrightarrow> linked nxt' e n' i ks"
  by (induction ks arbitrary: i) auto

lemma linked_first: "linked nxt e n i (k # ks) \<Longrightarrow> i = int k" and linked_empty: "linked nxt e n i [] \<Longrightarrow> i = e"
  by simp_all

lemma linked_snoc:
  assumes "linked nxt e n i ks" and "distinct ks" and "w \<notin> set ks" and "w < n'" and "n \<le> n'" and "int w \<noteq> e" and "nxt' w = e"
    and "\<And>k. k \<in> set ks \<Longrightarrow> k \<noteq> last ks \<Longrightarrow> nxt' k = nxt k" and "ks \<noteq> [] \<Longrightarrow> nxt' (last ks) = int w"
  shows "linked nxt' e n' (if ks = [] then int w else i) (ks @ [w])"
  using assms(1-3,8,9)
proof (induction ks arbitrary: i)
  case Nil
  then show ?case using assms(4,6,7) by simp
next
  case (Cons k ks)
  show ?case
  proof (cases "ks = []")
    case True
    then show ?thesis using Cons.prems assms(4-7) by simp
  next
    case False
    have "linked nxt' e n' (if ks = [] then int w else nxt k) (ks @ [w])"
      using Cons.prems False by (intro Cons.IH) auto
    moreover have "k \<noteq> last ks" using Cons.prems(2) False by auto
    then have "nxt' k = nxt k" using Cons.prems(4) False by simp
    ultimately show ?thesis using Cons.prems(1) False assms(5) by simp
  qed
qed

lemma linked_remove:
  assumes "linked nxt e n i (xs @ k # ys)" and "distinct (xs @ k # ys)"
    and "\<And>j. j \<in> set (xs @ ys) \<Longrightarrow> (xs \<noteq> [] \<Longrightarrow> j \<noteq> last xs) \<Longrightarrow> nxt' j = nxt j" and "xs \<noteq> [] \<Longrightarrow> nxt' (last xs) = nxt k"
  shows "linked nxt' e n (if xs = [] then nxt k else i) (xs @ ys)"
  using assms
proof (induction xs arbitrary: i)
  case Nil
  have "linked nxt e n (nxt k) ys" using Nil.prems(1) by simp
  then have "linked nxt' e n (nxt k) ys" by (rule linked_cong [rotated 2]) (use Nil.prems(3) in auto)
  then show ?case by simp
next
  case (Cons x xs)
  show ?case
  proof (cases "xs = []")
    case True
    have "linked nxt e n (nxt k) ys" using Cons.prems(1) True by simp
    then have "linked nxt' e n (nxt k) ys" by (rule linked_cong [rotated 2]) (use Cons.prems(2,3) True in auto)
    then show ?thesis using Cons.prems True by simp
  next
    case False
    have "linked nxt' e n (if xs = [] then nxt k else nxt x) (xs @ ys)"
      using Cons.prems False by (intro Cons.IH) auto
    moreover have "x \<noteq> last xs" using Cons.prems(2) False by auto
    then have "nxt' x = nxt x" using Cons.prems(3) False by simp
    ultimately show ?thesis using Cons.prems(1) False by simp
  qed
qed

lemma distinct_below: "distinct ks \<Longrightarrow> (\<And>k. k \<in> set ks \<Longrightarrow> k < n) \<Longrightarrow> length ks \<le> n"
  using card_mono [of "{..<n}" "set ks"] by (auto simp: distinct_card)

section \<open>Words and their owners\<close>

text \<open>
  \<open>ws\<close> the words, \<open>fw\<close> the free ones, \<open>L\<close> the owners, \<open>st\<close> where the words of an owner begin and \<open>wch\<close> which they are.
\<close>

definition words_ok :: "'f measured_word list \<Rightarrow> nat list \<Rightarrow> nat set \<Rightarrow> (nat \<Rightarrow> int) \<Rightarrow> (nat \<Rightarrow> nat list) \<Rightarrow> bool" where
  "words_ok ws fw L st wch \<longleftrightarrow> distinct fw \<and> (\<forall>w \<in> set fw. w < length ws) \<and>
     (\<forall>k \<in> L. linked (\<lambda>w. mw_next (ws ! w)) (-1) (length ws) (st k) (wch k) \<and> distinct (wch k) \<and> set (wch k) \<inter> set fw = {} \<and>
       (\<forall>j \<in> L. j \<noteq> k \<longrightarrow> set (wch k) \<inter> set (wch j) = {}))"

lemma words_ok_cong:
  assumes "words_ok ws fw L st wch" and "L' \<subseteq> L" and "\<And>k. k \<in> L' \<Longrightarrow> st' k = st k \<and> wch' k = wch k"
  shows "words_ok ws fw L' st' wch'"
  using assms unfolding words_ok_def by (auto 4 3)

text \<open>Freeing the words of an owner.\<close>

lemma words_ok_free:
  assumes "words_ok ws fw L st wch" and "k \<in> L"
  shows "words_ok ws (fw @ wch k) (L - {k}) st wch"
proof -
  have "\<forall>w \<in> set (wch k). w < length ws" using assms linked_less unfolding words_ok_def by blast
  then show ?thesis using assms unfolding words_ok_def by (auto 4 4)
qed

text \<open>
  A list of words in the making, from \<open>temp\<close> on: nobody else's and not free. One more is put behind it, either a free
  one or a new one.
\<close>

definition part_ok :: "'f measured_word list \<Rightarrow> nat list \<Rightarrow> nat set \<Rightarrow> (nat \<Rightarrow> nat list) \<Rightarrow> int \<Rightarrow> nat list \<Rightarrow> bool" where
  "part_ok ws fw L wch temp ps \<longleftrightarrow> linked (\<lambda>w. mw_next (ws ! w)) (-1) (length ws) temp ps \<and> distinct ps \<and> set ps \<inter> set fw = {} \<and>
     (\<forall>k \<in> L. set (wch k) \<inter> set ps = {})"

definition relink :: "nat list \<Rightarrow> nat \<Rightarrow> 'f measured_word list \<Rightarrow> 'f measured_word list" where
  "relink ps w ws = (if ps = [] then ws else ws[last ps := (ws ! last ps)\<lparr>mw_next := int w\<rparr>])"

lemma length_relink [simp]: "length (relink ps w ws) = length ws"
  by (simp add: relink_def)

lemma relink_nth: "w' < length ws \<Longrightarrow> relink ps w ws ! w' = (if ps \<noteq> [] \<and> w' = last ps then (ws ! w')\<lparr>mw_next := int w\<rparr> else ws ! w')"
  by (auto simp: relink_def nth_list_update)

text \<open>\<open>ws1\<close> has the new word \<open>x\<close> at \<open>w\<close> and agrees with \<open>ws\<close> on every other word there was.\<close>

lemma part_ok_add:
  assumes W: "words_ok ws fw L st wch" and P: "part_ok ws fw L wch temp ps"
    and "set fw' \<subseteq> set fw" "distinct fw'" "w \<notin> set fw'" "w \<notin> set ps" "\<And>k. k \<in> L \<Longrightarrow> w \<notin> set (wch k)"
    and "length ws \<le> length ws1" "w < length ws1" "ws1 ! w = x" "mw_next x = -1" "\<And>v. v < length ws \<Longrightarrow> v \<noteq> w \<Longrightarrow> ws1 ! v = ws ! v"
  shows "words_ok (relink ps w ws1) fw' L st wch \<and>
    part_ok (relink ps w ws1) fw' L wch (if ps = [] then int w else temp) (ps @ [w])"
proof -
  let ?ws = "relink ps w ws1"
  have lp: "linked (\<lambda>w. mw_next (ws ! w)) (-1) (length ws) temp ps" "distinct ps" and dis: "set ps \<inter> set fw = {}" "\<And>k. k \<in> L \<Longrightarrow> set (wch k) \<inter> set ps = {}"
    using P by (auto simp: part_ok_def)
  have pl: "v < length ws" if "v \<in> set ps" for v using linked_less [OF lp(1) that] by simp
  have other: "mw_next (?ws ! v) = mw_next (ws ! v)" if "v < length ws" "v \<noteq> w" "ps \<noteq> [] \<Longrightarrow> v \<noteq> last ps" for v
    using that assms(8,12) by (auto simp: relink_nth)
  have new: "mw_next (?ws ! w) = -1" using assms(6,9-11) by (auto simp: relink_nth)
  have last: "ps \<noteq> [] \<Longrightarrow> mw_next (?ws ! last ps) = int w" using pl [of "last ps"] assms(8) by (simp add: relink_nth)
  have "linked (\<lambda>w. mw_next (?ws ! w)) (-1) (length ?ws) (if ps = [] then int w else temp) (ps @ [w])"
    using pl assms(6,8,9) other new last by (intro linked_snoc [OF lp]) auto
  then have p: "part_ok ?ws fw' L wch (if ps = [] then int w else temp) (ps @ [w])"
    using lp(2) dis assms(3,5-7) unfolding part_ok_def by auto
  have "linked (\<lambda>w. mw_next (?ws ! w)) (-1) (length ?ws) (st k) (wch k)" if k: "k \<in> L" for k
  proof -
    have l: "linked (\<lambda>w. mw_next (ws ! w)) (-1) (length ws) (st k) (wch k)" using W k by (simp add: words_ok_def)
    show ?thesis
    proof (rule linked_cong [OF _ _ l])
      fix v
      assume v: "v \<in> set (wch k)"
      moreover have "ps \<noteq> [] \<Longrightarrow> last ps \<notin> set (wch k)" using dis(2) [OF k] last_in_set by blast
      ultimately show "mw_next (?ws ! v) = mw_next (ws ! v)" using linked_less [OF l v] assms(7) [OF k] by (intro other) auto
    qed (simp add: assms(8))
  qed
  then have "words_ok ?ws fw' L st wch" using W assms(3,4,8) unfolding words_ok_def by (auto 4 3 dest: order_less_le_trans)
  with p show ?thesis by blast
qed

text \<open>The list gets an owner.\<close>

lemma words_ok_own:
  assumes "words_ok ws fw L st wch" and "part_ok ws fw L wch temp ps" and "k \<notin> L"
  shows "words_ok ws fw (insert k L) (st(k := temp)) (wch(k := ps))"
  using assms unfolding words_ok_def part_ok_def by (auto 4 3)

section \<open>Entries and their buckets\<close>

abbreviation id_in :: "'f cache_item list \<Rightarrow> nat \<Rightarrow> 32 word" where
  "id_in its k \<equiv> ci_id (its ! k)"

definition items_ok :: "'f cache_item list \<Rightarrow> nat \<Rightarrow> int list \<Rightarrow> (nat \<Rightarrow> nat list) \<Rightarrow> nat list \<Rightarrow> bool" where
  "items_ok its B buckets ch fi \<longleftrightarrow> 0 < B \<and> B \<le> length buckets \<and> distinct fi \<and> (\<forall>k \<in> set fi. 0 < k \<and> k < length its) \<and>
     (\<forall>b < B. linked (\<lambda>k. ci_nextIndex (its ! k)) 0 (length its) (buckets ! b) (ch b) \<and> distinct (map (id_in its) (ch b)) \<and>
       (\<forall>k \<in> set (ch b). unat (id_in its k) mod B = b) \<and> set (ch b) \<inter> set fi = {})"

definition owners :: "nat \<Rightarrow> (nat \<Rightarrow> nat list) \<Rightarrow> nat set" where
  "owners B ch = (\<Union>b < B. set (ch b))"

lemma items_okD:
  assumes "items_ok its B buckets ch fi" and "b < B"
  shows "linked (\<lambda>k. ci_nextIndex (its ! k)) 0 (length its) (buckets ! b) (ch b)" "distinct (map (id_in its) (ch b))" "distinct (ch b)"
    "\<And>k. k \<in> set (ch b) \<Longrightarrow> unat (id_in its k) mod B = b" "set (ch b) \<inter> set fi = {}" "\<And>k. k \<in> set (ch b) \<Longrightarrow> 0 < k \<and> k < length its"
proof -
  show l: "linked (\<lambda>k. ci_nextIndex (its ! k)) 0 (length its) (buckets ! b) (ch b)" and "distinct (map (id_in its) (ch b))" and "distinct (ch b)"
    and "\<And>k. k \<in> set (ch b) \<Longrightarrow> unat (id_in its k) mod B = b" and "set (ch b) \<inter> set fi = {}"
    using assms by (auto simp: items_ok_def distinct_map)
  show "\<And>k. k \<in> set (ch b) \<Longrightarrow> 0 < k \<and> k < length its" using linked_less [OF l] by auto
qed

text \<open>An entry is in one bucket only.\<close>

lemma items_ok_apart:
  "items_ok its B buckets ch fi \<Longrightarrow> b < B \<Longrightarrow> c < B \<Longrightarrow> k \<in> set (ch b) \<Longrightarrow> k \<in> set (ch c) \<Longrightarrow> b = c"
  using items_okD(4) by metis

lemma items_ok_cong:
  assumes I: "items_ok its B buckets ch fi" and "length its \<le> length its'"
    and "\<And>k. k \<in> owners B ch \<Longrightarrow> ci_nextIndex (its' ! k) = ci_nextIndex (its ! k) \<and> id_in its' k = id_in its k"
    and "distinct fi'" "set fi' \<subseteq> set fi"
  shows "items_ok its' B buckets ch fi'"
proof -
  have "linked (\<lambda>k. ci_nextIndex (its' ! k)) 0 (length its') (buckets ! b) (ch b) \<and> distinct (map (id_in its') (ch b)) \<and>
       (\<forall>k \<in> set (ch b). unat (id_in its' k) mod B = b) \<and> set (ch b) \<inter> set fi' = {}" if b: "b < B" for b
  proof -
    note d = items_okD [OF I b]
    have k: "ci_nextIndex (its' ! k) = ci_nextIndex (its ! k)" "id_in its' k = id_in its k" if "k \<in> set (ch b)" for k
      using assms(3) that b by (auto simp: owners_def)
    then have m: "map (id_in its') (ch b) = map (id_in its) (ch b)" by simp
    show ?thesis unfolding m using d(2,4,5) k assms(2,5) linked_cong [OF k(1) assms(2) d(1)] by auto
  qed
  then show ?thesis using I assms(2,4,5) unfolding items_ok_def by (auto dest: order_less_le_trans)
qed

definition link_after :: "nat list \<Rightarrow> int \<Rightarrow> 'f cache_item list \<Rightarrow> 'f cache_item list" where
  "link_after xs i its = (if xs = [] then its else its[last xs := (its ! last xs)\<lparr>ci_nextIndex := i\<rparr>])"

lemma length_link_after [simp]: "length (link_after xs i its) = length its"
  by (simp add: link_after_def)

lemma link_after_nth: "k < length its \<Longrightarrow> link_after xs i its ! k = (if xs \<noteq> [] \<and> k = last xs then (its ! k)\<lparr>ci_nextIndex := i\<rparr> else its ! k)"
  by (auto simp: link_after_def nth_list_update)

text \<open>An entry is taken out of its bucket and becomes free.\<close>

lemma items_ok_evict:
  assumes I: "items_ok its B buckets ch fi" and b: "b < B" and ch: "ch b = xs @ k # ys"
  shows "items_ok (link_after xs (ci_nextIndex (its ! k)) (its[k := z])) B
    (if xs = [] then buckets[b := ci_nextIndex (its ! k)] else buckets) (ch(b := xs @ ys)) (fi @ [k])"
proof -
  let ?n = "ci_nextIndex (its ! k)"
  let ?its = "link_after xs ?n (its[k := z])" and ?bs = "if xs = [] then buckets[b := ?n] else buckets"
  note d = items_okD [OF I b]
  have bl: "b < length buckets" and dfi: "distinct fi" "\<And>k. k \<in> set fi \<Longrightarrow> 0 < k \<and> k < length its" using I b by (auto simp: items_ok_def)
  have kin: "k \<in> set (ch b)" and dk: "k \<notin> set xs" "k \<notin> set ys" "distinct (xs @ ys)" using d(3) ch by auto
  have klt: "0 < k" "k < length its" "k \<notin> set fi" using d(5,6) kin by auto
  have same: "id_in ?its j = id_in its j" if "j < length its" "j \<noteq> k" for j using that by (simp add: link_after_nth)
  have nx: "ci_nextIndex (?its ! j) = ci_nextIndex (its ! j)" if "j < length its" "j \<noteq> k" "xs \<noteq> [] \<Longrightarrow> j \<noteq> last xs" for j
    using that by (auto simp: link_after_nth)
  have "linked (\<lambda>k. ci_nextIndex (?its ! k)) 0 (length ?its) (?bs ! c) ((ch(b := xs @ ys)) c) \<and> distinct (map (id_in ?its) ((ch(b := xs @ ys)) c)) \<and>
       (\<forall>k \<in> set ((ch(b := xs @ ys)) c). unat (id_in ?its k) mod B = c) \<and> set ((ch(b := xs @ ys)) c) \<inter> set (fi @ [k]) = {}" if c: "c < B" for c
  proof (cases "c = b")
    case True
    have lt: "j < length its" if "j \<in> set (xs @ ys)" for j using d(6) [of j] that ch by auto
    have "linked (\<lambda>k. ci_nextIndex (?its ! k)) 0 (length its) (if xs = [] then ?n else buckets ! b) (xs @ ys)"
    proof (rule linked_remove [OF d(1) [unfolded ch]])
      show "xs \<noteq> [] \<Longrightarrow> ci_nextIndex (?its ! last xs) = ?n" using lt [of "last xs"] dk(1) by (simp add: link_after_nth)
    qed (use d(3) ch nx lt dk in auto)
    moreover have m: "map (id_in ?its) (xs @ ys) = map (id_in its) (xs @ ys)" using same lt dk by auto
    have "distinct (map (id_in ?its) (xs @ ys))" unfolding m using d(2) ch by auto
    moreover have "\<forall>j \<in> set (xs @ ys). unat (id_in ?its j) mod B = b"
    proof
      fix j
      assume j: "j \<in> set (xs @ ys)"
      then have "id_in ?its j = id_in its j" using lt dk by (intro same) auto
      then show "unat (id_in ?its j) mod B = b" using d(4) [of j] j ch by auto
    qed
    moreover have "set (xs @ ys) \<inter> set (fi @ [k]) = {}" using d(5) ch dk by auto
    moreover have "?bs ! c = (if xs = [] then ?n else buckets ! b)" using True bl by simp
    ultimately show ?thesis using True by (simp only: fun_upd_same length_link_after length_list_update)
  next
    case False
    note e = items_okD [OF I c]
    have lx: "xs \<noteq> [] \<Longrightarrow> last xs \<in> set (ch b)" using ch by simp
    have j: "j \<noteq> k" "xs \<noteq> [] \<Longrightarrow> j \<noteq> last xs" "j < length its" if "j \<in> set (ch c)" for j
      using items_ok_apart [OF I b c] kin lx that False e(6) by auto
    have m: "map (id_in ?its) (ch c) = map (id_in its) (ch c)" using same j by auto
    have "linked (\<lambda>k. ci_nextIndex (?its ! k)) 0 (length its) (buckets ! c) (ch c)"
      by (rule linked_cong [OF _ _ e(1)]) (use nx j in auto)
    moreover have "distinct (map (id_in ?its) (ch c))" unfolding m by (rule e(2))
    moreover have "\<forall>j \<in> set (ch c). unat (id_in ?its j) mod B = c" using e(4) same j by auto
    moreover have "set (ch c) \<inter> set (fi @ [k]) = {}" using e(5) j by auto
    moreover have "?bs ! c = buckets ! c" using False by simp
    moreover have "(ch(b := xs @ ys)) c = ch c" using False by simp
    ultimately show ?thesis by (simp only: length_link_after length_list_update simp_thms)
  qed
  then show ?thesis using I dfi klt unfolding items_ok_def by auto
qed

text \<open>A new entry is put behind the last one of its bucket.\<close>

lemma items_ok_link:
  assumes I: "items_ok its B buckets ch fi" and b: "b < B" and "k \<notin> owners B ch" "k \<notin> set fi" "0 < k" "k < length its"
    and "ci_nextIndex (its ! k) = 0" "unat (id_in its k) mod B = b" "id_in its k \<notin> id_in its ` set (ch b)"
  shows "items_ok (link_after (ch b) (int k) its) B (if ch b = [] then buckets[b := int k] else buckets) (ch(b := ch b @ [k])) fi"
proof -
  let ?its = "link_after (ch b) (int k) its" and ?bs = "if ch b = [] then buckets[b := int k] else buckets"
  note d = items_okD [OF I b]
  have bl: "b < length buckets" using I b by (auto simp: items_ok_def)
  have kn: "k \<notin> set (ch c)" if "c < B" for c using assms(3) that by (auto simp: owners_def)
  have same: "id_in ?its j = id_in its j" if "j < length its" for j using that by (simp add: link_after_nth)
  have nx: "ci_nextIndex (?its ! j) = ci_nextIndex (its ! j)" if "j < length its" "ch b \<noteq> [] \<Longrightarrow> j \<noteq> last (ch b)" for j
    using that by (auto simp: link_after_nth)
  have "linked (\<lambda>k. ci_nextIndex (?its ! k)) 0 (length ?its) (?bs ! c) ((ch(b := ch b @ [k])) c) \<and> distinct (map (id_in ?its) ((ch(b := ch b @ [k])) c)) \<and>
       (\<forall>k \<in> set ((ch(b := ch b @ [k])) c). unat (id_in ?its k) mod B = c) \<and> set ((ch(b := ch b @ [k])) c) \<inter> set fi = {}" if c: "c < B" for c
  proof (cases "c = b")
    case True
    have "linked (\<lambda>k. ci_nextIndex (?its ! k)) 0 (length its) (if ch b = [] then int k else buckets ! b) (ch b @ [k])"
    proof (rule linked_snoc [OF d(1,3)])
      show "ci_nextIndex (?its ! k) = 0" using kn [OF b] assms(6,7) last_in_set [of "ch b"] by (auto simp: link_after_nth)
      show "ch b \<noteq> [] \<Longrightarrow> ci_nextIndex (?its ! last (ch b)) = int k" using d(6) [of "last (ch b)"] by (simp add: link_after_nth)
    qed (use kn [OF b] assms(5,6) nx d(6) in auto)
    moreover have m: "map (id_in ?its) (ch b @ [k]) = map (id_in its) (ch b @ [k])" using same d(6) assms(6) by auto
    have "distinct (map (id_in ?its) (ch b @ [k]))" unfolding m using d(2) assms(9) by simp
    moreover have "\<forall>j \<in> set (ch b @ [k]). unat (id_in ?its j) mod B = b" using d(4,6) same assms(6,8) by auto
    moreover have "set (ch b @ [k]) \<inter> set fi = {}" using d(5) assms(4) by auto
    moreover have "?bs ! c = (if ch b = [] then int k else buckets ! b)" using True bl by simp
    ultimately show ?thesis using True by (simp only: fun_upd_same length_link_after)
  next
    case False
    note e = items_okD [OF I c]
    have j: "ch b \<noteq> [] \<Longrightarrow> j \<noteq> last (ch b)" "j < length its" if "j \<in> set (ch c)" for j
      using items_ok_apart [OF I b c last_in_set] that False e(6) by auto
    have m: "map (id_in ?its) (ch c) = map (id_in its) (ch c)" using same j by auto
    have "linked (\<lambda>k. ci_nextIndex (?its ! k)) 0 (length its) (buckets ! c) (ch c)"
      by (rule linked_cong [OF _ _ e(1)]) (use nx j in auto)
    moreover have "distinct (map (id_in ?its) (ch c))" unfolding m by (rule e(2))
    moreover have "\<forall>j \<in> set (ch c). unat (id_in ?its j) mod B = c" using e(4) same j by auto
    moreover have "?bs ! c = buckets ! c" using False by simp
    moreover have "(ch(b := ch b @ [k])) c = ch c" using False by simp
    ultimately show ?thesis using e(5) by (simp only: length_link_after simp_thms)
  qed
  then show ?thesis using I unfolding items_ok_def by auto
qed

end
