(* ===== verification/Clay_Text_Cache.thy ===== *)
theory Clay_Text_Cache
  imports Clay_Text_Ok
begin

text \<open>
  The invariant of the cache of measured texts, and that the walk along a bucket keeps it: it finds an entry that is
  there, and throws out entries on its way, but none that was asked for in the last two frames.
\<close>

section \<open>The invariant\<close>

abbreviation its_of :: "'f text_cache \<Rightarrow> 'f cache_item list" where
  "its_of c \<equiv> values_of (tx_items c)"

abbreviation ws_of :: "'f text_cache \<Rightarrow> 'f measured_word list" where
  "ws_of c \<equiv> values_of (tx_words c)"

definition cache_shape :: "'f text_cache \<Rightarrow> bool" where
  "cache_shape c \<longleftrightarrow> array_ok (tx_words c) \<and> array_ok (tx_wordsFree c) \<and> array_ok (tx_items c) \<and> array_ok (tx_itemsFree c) \<and>
     ca_capacity (tx_words c) \<le> ca_capacity (tx_wordsFree c) \<and> ca_capacity (tx_items c) \<le> ca_capacity (tx_itemsFree c) \<and>
     0 < ca_length (tx_items c) \<and> ca_length (tx_items c) < ca_capacity (tx_items c)"

text \<open>\<open>ch\<close> the entries of each bucket, \<open>wch\<close> the words of each entry, \<open>fi\<close> and \<open>fw\<close> the free entries and words.\<close>

definition cache_ok :: "'f text_cache \<Rightarrow> (nat \<Rightarrow> nat list) \<Rightarrow> (nat \<Rightarrow> nat list) \<Rightarrow> nat list \<Rightarrow> nat list \<Rightarrow> bool" where
  "cache_ok c ch wch fi fw \<longleftrightarrow> cache_shape c \<and> values_of (tx_itemsFree c) = map int fi \<and> values_of (tx_wordsFree c) = map int fw \<and>
     items_ok (its_of c) (bucket_count c) (tx_buckets c) ch fi \<and>
     words_ok (ws_of c) fw (owners (bucket_count c) ch) (\<lambda>k. ci_start (its_of c ! k)) wch"

lemma cache_okD:
  assumes "cache_ok c ch wch fi fw"
  shows "cache_shape c" "values_of (tx_itemsFree c) = map int fi" "values_of (tx_wordsFree c) = map int fw"
    "items_ok (its_of c) (bucket_count c) (tx_buckets c) ch fi"
    "words_ok (ws_of c) fw (owners (bucket_count c) ch) (\<lambda>k. ci_start (its_of c ! k)) wch"
  using assms by (auto simp: cache_ok_def)

section \<open>Operations on the arrays\<close>

lemma cell_of_value: "array_ok a \<Longrightarrow> k < length (values_of a) \<Longrightarrow> int k < ca_length a \<and> ca_cells a ! k = values_of a ! k"
  by (auto simp: array_ok_def values_of_def)

lemma get_item_in: "cache_shape c \<Longrightarrow> k < length (its_of c) \<Longrightarrow> get_item (int k) c = (Some k, c)"
  using cell_of_value [of "tx_items c" k] by (simp add: cache_shape_def get_item_def Array_Get_in)

lemma item_of_ptr_in: "cache_shape c \<Longrightarrow> k < length (its_of c) \<Longrightarrow> item_of_ptr c (Some k) = its_of c ! k"
  using cell_of_value [of "tx_items c" k] by (simp add: cache_shape_def item_of_ptr_def)

lemma get_word_in: "cache_shape c \<Longrightarrow> w < length (ws_of c) \<Longrightarrow> get_word (int w) c = (Some w, c)"
  using cell_of_value [of "tx_words c" w] by (simp add: cache_shape_def get_word_def Array_Get_in)

lemma word_of_ptr_in: "cache_shape c \<Longrightarrow> w < length (ws_of c) \<Longrightarrow> word_of_ptr c (Some w) = ws_of c ! w"
  using cell_of_value [of "tx_words c" w] by (simp add: cache_shape_def word_of_ptr_def)

text \<open>Writing an entry.\<close>

definition with_item :: "nat \<Rightarrow> 'f cache_item \<Rightarrow> 'f text_cache \<Rightarrow> 'f text_cache" where
  "with_item k it c = c\<lparr>tx_items := (tx_items c)\<lparr>ca_cells := (ca_cells (tx_items c))[k := it]\<rparr>\<rparr>"

lemma with_item_frame [simp]:
  "tx_words (with_item k it c) = tx_words c" "tx_wordsFree (with_item k it c) = tx_wordsFree c"
  "tx_itemsFree (with_item k it c) = tx_itemsFree c" "tx_buckets (with_item k it c) = tx_buckets c"
  "tx_maxWords (with_item k it c) = tx_maxWords c" "tx_generation (with_item k it c) = tx_generation c"
  "tx_log (with_item k it c) = tx_log c" "tx_exceeded (with_item k it c) = tx_exceeded c" "bucket_count (with_item k it c) = bucket_count c"
  "ca_length (tx_items (with_item k it c)) = ca_length (tx_items c)"
  "length (ca_cells (tx_items (with_item k it c))) = length (ca_cells (tx_items c))"
  "array_ok (tx_items (with_item k it c)) \<longleftrightarrow> array_ok (tx_items c)" "its_of (with_item k it c) = (its_of c)[k := it]" "cache_shape (with_item k it c) \<longleftrightarrow> cache_shape c"
  by (simp_all add: with_item_def bucket_count_def values_of_update array_ok_update cache_shape_def)

lemma put_item_in: "cache_shape c \<Longrightarrow> k < length (its_of c) \<Longrightarrow> put_item (Some k) g c = with_item k (g (its_of c ! k)) c"
  using item_of_ptr_in [of c k] by (simp add: put_item_def with_item_def item_of_ptr_def)

lemma set_cache_item_in: "cache_shape c \<Longrightarrow> k < length (its_of c) \<Longrightarrow> set_cache_item (int k) it c = with_item k it c"
  using cell_of_value [of "tx_items c" k]
  by (auto simp: cache_shape_def array_ok_def set_cache_item_def with_item_def Array_Set_def Clay__Array_RangeCheck_def)

text \<open>A word and an entry become free.\<close>

lemma free_word_ok:
  assumes "cache_shape c" and "ca_length (tx_wordsFree c) < ca_capacity (tx_wordsFree c)"
  shows "\<exists>a. free_word i c = c\<lparr>tx_wordsFree := a\<rparr> \<and> cache_shape (c\<lparr>tx_wordsFree := a\<rparr>) \<and> values_of a = values_of (tx_wordsFree c) @ [i] \<and>
    ca_length a = ca_length (tx_wordsFree c) + 1 \<and> ca_capacity a = ca_capacity (tx_wordsFree c)"
  using assms Array_Add_ok [of "tx_wordsFree c" i "tx_log c"] by (auto simp: cache_shape_def free_word_def)

lemma free_item_ok:
  assumes "cache_shape c" and "ca_length (tx_itemsFree c) < ca_capacity (tx_itemsFree c)"
  shows "\<exists>a. free_item i c = c\<lparr>tx_itemsFree := a\<rparr> \<and> cache_shape (c\<lparr>tx_itemsFree := a\<rparr>) \<and> values_of a = values_of (tx_itemsFree c) @ [i]"
  using assms Array_Add_ok [of "tx_itemsFree c" i "tx_log c"] by (auto simp: cache_shape_def free_item_def)

lemma free_words_ok:
  assumes "cache_shape c" and "linked (\<lambda>w. mw_next (ws_of c ! w)) (-1) (length (ws_of c)) i ws"
    and "ca_length (tx_wordsFree c) + int (length ws) \<le> ca_capacity (tx_wordsFree c)"
  shows "\<exists>a. free_words i c = Some (c\<lparr>tx_wordsFree := a\<rparr>) \<and> cache_shape (c\<lparr>tx_wordsFree := a\<rparr>) \<and>
    values_of a = values_of (tx_wordsFree c) @ map int ws"
  using assms
proof (induction ws arbitrary: i c)
  case Nil
  then show ?case by (intro exI [of _ "tx_wordsFree c"]) (simp add: free_words.simps)
next
  case (Cons w ws)
  have w: "i = int w" "w < length (ws_of c)" "linked (\<lambda>w. mw_next (ws_of c ! w)) (-1) (length (ws_of c)) (mw_next (ws_of c ! w)) ws"
    using Cons.prems(2) by simp_all
  have "ca_length (tx_wordsFree c) < ca_capacity (tx_wordsFree c)" using Cons.prems(3) by simp
  with free_word_ok [OF Cons.prems(1), of i] obtain a where a: "free_word i c = c\<lparr>tx_wordsFree := a\<rparr>" "cache_shape (c\<lparr>tx_wordsFree := a\<rparr>)"
    "values_of a = values_of (tx_wordsFree c) @ [i]" "ca_length a = ca_length (tx_wordsFree c) + 1" "ca_capacity a = ca_capacity (tx_wordsFree c)"
    by blast
  let ?d = "c\<lparr>tx_wordsFree := a\<rparr>"
  have "\<exists>a'. free_words (mw_next (ws_of c ! w)) ?d = Some (?d\<lparr>tx_wordsFree := a'\<rparr>) \<and> cache_shape (?d\<lparr>tx_wordsFree := a'\<rparr>) \<and>
      values_of a' = values_of (tx_wordsFree ?d) @ map int ws"
    using w(3) a Cons.prems(3) by (intro Cons.IH) simp_all
  moreover have "free_words i c = free_words (mw_next (ws_of c ! w)) ?d"
    using w a(1) get_word_in [OF Cons.prems(1) w(2)] word_of_ptr_in [OF a(2), of w] by (subst free_words.simps) (simp add: Let_def)
  ultimately show ?case using a(3) w(1) by auto
qed

section \<open>Throwing out an entry\<close>

lemma cache_lengths:
  assumes "cache_shape c"
  shows "int (length (ws_of c)) = ca_length (tx_words c)" "int (length (its_of c)) = ca_length (tx_items c)"
    "ca_length (tx_words c) \<le> ca_capacity (tx_wordsFree c)" "ca_length (tx_items c) \<le> ca_capacity (tx_itemsFree c)"
    "array_ok (tx_wordsFree c)" "array_ok (tx_itemsFree c)"
  using assms length_values_of [of "tx_words c"] length_values_of [of "tx_items c"] unfolding cache_shape_def by (auto simp: array_ok_def)

lemma length_free:
  "array_ok a \<Longrightarrow> values_of a = map int ks \<Longrightarrow> ca_length a = int (length ks)"
  using length_values_of [of a] by (simp add: array_ok_def)

lemma room_for_words:
  assumes "cache_ok c ch wch fi fw" and "k \<in> owners (bucket_count c) ch"
  shows "ca_length (tx_wordsFree c) + int (length (wch k)) \<le> ca_capacity (tx_wordsFree c)"
proof -
  note i = cache_okD [OF assms(1)]
  have w: "words_ok (ws_of c) (fw @ wch k) (owners (bucket_count c) ch - {k}) (\<lambda>k. ci_start (its_of c ! k)) wch"
    by (rule words_ok_free [OF i(5) assms(2)])
  then have "length (fw @ wch k) \<le> length (ws_of c)" by (intro distinct_below) (auto simp: words_ok_def)
  moreover have "int (length (ws_of c)) \<le> ca_capacity (tx_wordsFree c)" "ca_length (tx_wordsFree c) = int (length fw)"
    using cache_lengths [OF i(1)] length_free [OF _ i(3)] by simp_all
  ultimately show ?thesis by simp
qed

lemma room_for_item:
  assumes "cache_ok c ch wch fi fw" and "k \<in> owners (bucket_count c) ch"
  shows "ca_length (tx_itemsFree c) < ca_capacity (tx_itemsFree c)"
proof -
  note i = cache_okD [OF assms(1)]
  obtain b where b: "b < bucket_count c" "k \<in> set (ch b)" using assms(2) by (auto simp: owners_def)
  have "length (k # fi) \<le> length (its_of c)"
    using items_okD(5,6) [OF i(4) b(1)] b(2) i(4) by (intro distinct_below) (auto simp: items_ok_def)
  moreover have "int (length (its_of c)) \<le> ca_capacity (tx_itemsFree c)" "ca_length (tx_itemsFree c) = int (length fi)"
    using cache_lengths [OF i(1)] length_free [OF _ i(2)] by simp_all
  ultimately show ?thesis by simp
qed

text \<open>What the walk leaves alone.\<close>

definition walked :: "'f text_cache \<Rightarrow> 'f text_cache \<Rightarrow> bool" where
  "walked c c' \<longleftrightarrow> tx_words c' = tx_words c \<and> ca_length (tx_items c') = ca_length (tx_items c) \<and> ca_capacity (tx_items c') = ca_capacity (tx_items c) \<and>
     tx_maxWords c' = tx_maxWords c \<and> tx_generation c' = tx_generation c \<and> tx_log c' = tx_log c \<and> tx_exceeded c' = tx_exceeded c"

lemma walked_refl: "walked c c" and walked_trans: "walked c d \<Longrightarrow> walked d e \<Longrightarrow> walked c e"
  by (simp_all add: walked_def)

lemma walked_buckets: "walked c c' \<Longrightarrow> bucket_count c' = bucket_count c"
  by (simp add: walked_def bucket_count_def)

definition index_before :: "nat list \<Rightarrow> int" where
  "index_before xs = (if xs = [] then 0 else int (last xs))"

definition index_of_first :: "nat list \<Rightarrow> int" where
  "index_of_first ys = (if ys = [] then 0 else int (hd ys))"

lemma index_simps [simp]: "index_before [] = 0" "index_before (xs @ [k]) = int k" "index_of_first [] = 0" "index_of_first (k # ys) = int k"
  by (simp_all add: index_before_def index_of_first_def)

lemma unlink_eq:
  assumes "cache_shape c" and "\<And>k. k \<in> set xs \<Longrightarrow> 0 < k \<and> k < length (its_of c)"
  shows "unlink b (index_before xs) next c =
    (if xs = [] then c\<lparr>tx_buckets := (tx_buckets c)[b := next]\<rparr> else with_item (last xs) ((its_of c ! last xs)\<lparr>ci_nextIndex := next\<rparr>) c)"
proof (cases "xs = []")
  case False
  then have "0 < last xs" "last xs < length (its_of c)" using assms(2) by simp_all
  then show ?thesis using False get_item_in [OF assms(1), of "last xs"] put_item_in [OF assms(1), of "last xs"] by (simp add: unlink_def index_before_def)
qed (simp add: unlink_def)

lemma owners_remove:
  assumes "b < B" and "ch b = xs @ k # ys" and "distinct (ch b)" and "\<And>c. c < B \<Longrightarrow> c \<noteq> b \<Longrightarrow> k \<notin> set (ch c)"
  shows "owners B (ch(b := xs @ ys)) = owners B ch - {k}"
proof -
  have "set (ch b) - {k} = set (xs @ ys)" using assms(2,3) by auto
  then have "set ((ch(b := xs @ ys)) c) = set (ch c) - {k}" if "c < B" for c using assms(4) [OF that] by auto
  then show ?thesis by (auto simp: owners_def)
qed

definition evict :: "'f cache_item \<Rightarrow> nat \<Rightarrow> int \<Rightarrow> nat \<Rightarrow> 'f text_cache \<Rightarrow> 'f text_cache" where
  "evict z b prev k c = unlink b prev (ci_nextIndex (its_of c ! k)) (free_item (int k) (set_cache_item (int k) z c))"

lemma evict_ok:
  fixes z :: "'f cache_item" and c :: "'f text_cache"
  assumes I: "cache_ok c ch wch fi fw" and b: "b < bucket_count c" and ch: "ch b = xs @ k # ys"
  defines "e \<equiv> evict z b (index_before xs) k"
  shows "\<exists>d. free_words (ci_start (its_of c ! k)) c = Some d \<and> its_of d = its_of c \<and> cache_shape d \<and> walked c (e d) \<and>
    cache_ok (e d) (ch(b := xs @ ys)) wch (fi @ [k]) (fw @ wch k) \<and>
    its_of (e d) = link_after xs (ci_nextIndex (its_of c ! k)) ((its_of c)[k := z])"
proof -
  note i = cache_okD [OF I]
  note d = items_okD [OF i(4) b]
  let ?n = "ci_nextIndex (its_of c ! k)"
  have k: "k \<in> owners (bucket_count c) ch" "k < length (its_of c)" "0 < k" using d(6) [of k] b ch by (auto simp: owners_def intro!: bexI [of _ b])
  have "linked (\<lambda>w. mw_next (ws_of c ! w)) (-1) (length (ws_of c)) (ci_start (its_of c ! k)) (wch k)"
    using i(5) k(1) by (simp add: words_ok_def)
  from free_words_ok [OF i(1) this room_for_words [OF I k(1)]] obtain a where
    a: "free_words (ci_start (its_of c ! k)) c = Some (c\<lparr>tx_wordsFree := a\<rparr>)" "cache_shape (c\<lparr>tx_wordsFree := a\<rparr>)" "values_of a = map int (fw @ wch k)"
    using i(3) by auto
  define d1 where "d1 = with_item k z (c\<lparr>tx_wordsFree := a\<rparr>)"
  have s1: "cache_shape d1" "tx_itemsFree d1 = tx_itemsFree c" "its_of d1 = (its_of c)[k := z]" "tx_buckets d1 = tx_buckets c" "tx_words d1 = tx_words c"
    "values_of (tx_wordsFree d1) = map int (fw @ wch k)" "walked c d1" using a by (simp_all add: d1_def walked_def)
  have "ca_length (tx_itemsFree d1) < ca_capacity (tx_itemsFree d1)" using room_for_item [OF I k(1)] s1(2) by simp
  from free_item_ok [OF s1(1) this, of "int k"] obtain f where
    f: "free_item (int k) d1 = d1\<lparr>tx_itemsFree := f\<rparr>" "cache_shape (d1\<lparr>tx_itemsFree := f\<rparr>)" "values_of f = map int (fi @ [k])" using i(2) s1(2) by auto
  define d2 where "d2 = d1\<lparr>tx_itemsFree := f\<rparr>"
  have xs: "0 < j \<and> j < length (its_of d2)" if "j \<in> set xs" for j using d(6) [of j] that ch by (simp add: d2_def s1(3))
  have e: "e (c\<lparr>tx_wordsFree := a\<rparr>) = (if xs = [] then d2\<lparr>tx_buckets := (tx_buckets c)[b := ?n]\<rparr> else with_item (last xs) ((its_of d2 ! last xs)\<lparr>ci_nextIndex := ?n\<rparr>) d2)"
    using unlink_eq [of d2 xs b ?n] f(1,2) xs s1(4) k(2) set_cache_item_in [OF a(2), of k z]
    by (simp add: e_def evict_def d2_def d1_def [symmetric])
  have w: "walked c (e (c\<lparr>tx_wordsFree := a\<rparr>))" unfolding e using s1(7) by (auto simp: walked_def d2_def)
  have its: "its_of (e (c\<lparr>tx_wordsFree := a\<rparr>)) = link_after xs ?n ((its_of c)[k := z])"
    unfolding e using s1(3) by (simp add: link_after_def d2_def)
  have "tx_buckets (e (c\<lparr>tx_wordsFree := a\<rparr>)) = (if xs = [] then (tx_buckets c)[b := ?n] else tx_buckets c)"
    unfolding e using s1(4) by (simp add: d2_def)
  then have it: "items_ok (its_of (e (c\<lparr>tx_wordsFree := a\<rparr>))) (bucket_count c) (tx_buckets (e (c\<lparr>tx_wordsFree := a\<rparr>))) (ch(b := xs @ ys)) (fi @ [k])"
    using items_ok_evict [OF i(4) b ch, of z] its by simp
  have apart: "k \<notin> set (ch c')" if "c' < bucket_count c" "c' \<noteq> b" for c' using items_ok_apart [OF i(4) b that(1), of k] ch that(2) by auto
  have o: "owners (bucket_count c) (ch(b := xs @ ys)) = owners (bucket_count c) ch - {k}"
    by (rule owners_remove [of b _ ch, OF b ch d(3) apart])
  have st: "ci_start (its_of (e (c\<lparr>tx_wordsFree := a\<rparr>)) ! j) = ci_start (its_of c ! j)" if "j \<in> owners (bucket_count c) ch - {k}" for j
  proof -
    have "j < length (its_of c)" using that items_okD(6) [OF i(4)] by (auto simp: owners_def)
    then show ?thesis using that by (simp add: its link_after_nth)
  qed
  have "words_ok (ws_of c) (fw @ wch k) (owners (bucket_count c) ch - {k}) (\<lambda>j. ci_start (its_of (e (c\<lparr>tx_wordsFree := a\<rparr>)) ! j)) wch"
    by (rule words_ok_cong [OF words_ok_free [OF i(5) k(1)]]) (simp_all add: st)
  moreover have "cache_shape (e (c\<lparr>tx_wordsFree := a\<rparr>))" "values_of (tx_itemsFree (e (c\<lparr>tx_wordsFree := a\<rparr>))) = map int (fi @ [k])"
    "values_of (tx_wordsFree (e (c\<lparr>tx_wordsFree := a\<rparr>))) = map int (fw @ wch k)"
    unfolding e using f(2,3) s1(6) by (auto simp: d2_def cache_shape_def)
  ultimately have "cache_ok (e (c\<lparr>tx_wordsFree := a\<rparr>)) (ch(b := xs @ ys)) wch (fi @ [k]) (fw @ wch k)"
    using it w o by (simp add: cache_ok_def walked_buckets [OF w] walked_def)
  then show ?thesis using a(1,2) w its by (intro exI [of _ "c\<lparr>tx_wordsFree := a\<rparr>"]) simp
qed

section \<open>The walk along a bucket\<close>

text \<open>Nothing but the generation and the chaining of an entry is changed.\<close>

lemma cache_ok_item:
  assumes I: "cache_ok c ch wch fi fw" and "ci_nextIndex it = ci_nextIndex (its_of c ! k)" "ci_id it = id_in (its_of c) k" "ci_start it = ci_start (its_of c ! k)"
  shows "cache_ok (with_item k it c) ch wch fi fw"
proof -
  note i = cache_okD [OF I]
  have n: "ci_nextIndex ((its_of c)[k := it] ! j) = ci_nextIndex (its_of c ! j)" "id_in ((its_of c)[k := it]) j = id_in (its_of c) j"
    "ci_start ((its_of c)[k := it] ! j) = ci_start (its_of c ! j)" for j
    using assms(2-4) by (cases "k < length (its_of c)"; simp add: nth_list_update list_update_beyond)+
  have "items_ok ((its_of c)[k := it]) (bucket_count c) (tx_buckets c) ch fi"
    using i(4) by (intro items_ok_cong [OF i(4)]) (simp_all add: n items_ok_def)
  then show ?thesis using i by (simp add: cache_ok_def n)
qed

text \<open>What happens to the entries there were.\<close>

definition recent :: "'f text_cache \<Rightarrow> nat \<Rightarrow> bool" where
  "recent c k \<longleftrightarrow> tx_generation c - ci_generation (its_of c ! k) \<le> 2"

definition survive :: "'f text_cache \<Rightarrow> (nat \<Rightarrow> nat list) \<Rightarrow> 'f text_cache \<Rightarrow> (nat \<Rightarrow> nat list) \<Rightarrow> bool" where
  "survive c ch c' ch' \<longleftrightarrow>
     (\<forall>k \<in> owners (bucket_count c) ch'. k \<in> owners (bucket_count c) ch \<and> id_in (its_of c') k = id_in (its_of c) k \<and>
        ci_start (its_of c' ! k) = ci_start (its_of c ! k)) \<and>
     (\<forall>k \<in> owners (bucket_count c) ch. recent c k \<longrightarrow> k \<in> owners (bucket_count c) ch')"

lemma survive_refl: "survive c ch c ch"
  by (simp add: survive_def)

lemma survive_trans:
  assumes "survive c ch d ch'" and "survive d ch' e ch''" and "bucket_count d = bucket_count c"
    and "\<And>k. k \<in> owners (bucket_count c) ch' \<Longrightarrow> recent c k \<Longrightarrow> recent d k"
  shows "survive c ch e ch''"
proof -
  let ?B = "bucket_count c"
  have "k \<in> owners ?B ch \<and> id_in (its_of e) k = id_in (its_of c) k \<and> ci_start (its_of e ! k) = ci_start (its_of c ! k)"
    if "k \<in> owners ?B ch''" for k using assms(1,2) that unfolding survive_def assms(3) by metis
  moreover have "k \<in> owners ?B ch''" if "k \<in> owners ?B ch" "recent c k" for k
    using assms(1,2,4) that unfolding survive_def assms(3) by blast
  ultimately show ?thesis by (simp add: survive_def)
qed

lemma evict_survive:
  assumes I: "cache_ok c ch wch fi fw" and b: "b < bucket_count c" and ch: "ch b = xs @ k # ys" and "\<not> recent c k"
    and its: "its_of e = link_after xs n ((its_of c)[k := z])" and "tx_generation e = tx_generation c"
  shows "survive c ch e (ch(b := xs @ ys))"
    "\<And>j. j \<in> owners (bucket_count c) (ch(b := xs @ ys)) \<Longrightarrow> recent e j = recent c j \<and> id_in (its_of e) j = id_in (its_of c) j"
proof -
  note i = cache_okD [OF I]
  have apart: "k \<notin> set (ch c')" if "c' < bucket_count c" "c' \<noteq> b" for c' using items_ok_apart [OF i(4) b that(1), of k] ch that(2) by auto
  have o: "owners (bucket_count c) (ch(b := xs @ ys)) = owners (bucket_count c) ch - {k}"
    by (rule owners_remove [of b _ ch, OF b ch items_okD(3) [OF i(4) b] apart])
  have same: "id_in (its_of e) j = id_in (its_of c) j \<and> ci_start (its_of e ! j) = ci_start (its_of c ! j) \<and>
      ci_generation (its_of e ! j) = ci_generation (its_of c ! j)" if "j \<in> owners (bucket_count c) ch - {k}" for j
  proof -
    have "j < length (its_of c)" using that items_okD(6) [OF i(4)] by (auto simp: owners_def)
    then show ?thesis using that by (simp add: its link_after_nth)
  qed
  then show "survive c ch e (ch(b := xs @ ys))" using assms(4) unfolding survive_def o by auto
  show "\<And>j. j \<in> owners (bucket_count c) (ch(b := xs @ ys)) \<Longrightarrow> recent e j = recent c j \<and> id_in (its_of e) j = id_in (its_of c) j"
    using same assms(6) unfolding o by (simp add: recent_def)
qed

text \<open>What the walk answers, where \<open>ys\<close> is what it has before it.\<close>

definition walk_answers :: "nat \<Rightarrow> 32 word \<Rightarrow> 'f text_cache \<Rightarrow> nat list \<Rightarrow> nat option + int \<Rightarrow> 'f text_cache \<Rightarrow> (nat \<Rightarrow> nat list) \<Rightarrow> bool" where
  "walk_answers b i c ys r c' ch' =
     (case List.find (\<lambda>k. id_in (its_of c) k = i) ys of
        Some k \<Rightarrow> r = Inl (Some k) \<and> k \<in> set (ch' b)
      | None \<Rightarrow> r = Inr (index_before (ch' b)) \<and> (\<forall>k \<in> set (ch' b). id_in (its_of c') k \<noteq> i))"

lemma walk_answers_cong: "(\<And>k. k \<in> set ys \<Longrightarrow> id_in (its_of d) k = id_in (its_of c) k) \<Longrightarrow> walk_answers b i d ys r c' ch' = walk_answers b i c ys r c' ch'"
  using find_cong [of ys ys "\<lambda>k. id_in (its_of d) k = i" "\<lambda>k. id_in (its_of c) k = i"] by (simp add: walk_answers_def)

lemma linked_next: "linked nxt 0 n i (xs @ k # ys) \<Longrightarrow> nxt k = index_of_first ys"
  by (induction xs arbitrary: i) (cases ys; auto simp: index_of_first_def)+

lemma cache_walk_step:
  assumes "cache_shape c" and "k < length (its_of c)" and "0 < k"
  shows "cache_walk F b i prev (int k) c =
    (let it = its_of c ! k in
     if ci_id it = i then Some (Inl (Some k), with_item k (it\<lparr>ci_generation := tx_generation c\<rparr>) c)
     else if \<not> recent c k
     then (case free_words (ci_start it) c of None \<Rightarrow> None
           | Some d \<Rightarrow> let next = ci_nextIndex (item_of_ptr d (Some k))
               in cache_walk F b i prev next (unlink b prev next (free_item (int k) (set_cache_item (int k) ((zero_item F)\<lparr>ci_start := -1\<rparr>) d))))
     else cache_walk F b i (int k) (ci_nextIndex it) c)"
  using assms get_item_in [OF assms(1,2)] item_of_ptr_in [OF assms(1,2)] put_item_in [OF assms(1,2)]
  by (subst cache_walk.simps) (simp add: recent_def not_le Let_def cong: option.case_cong)

lemma cache_walk_ok:
  assumes "cache_ok c ch wch fi fw" and "b < bucket_count c" and "ch b = xs @ ys" and "\<forall>k \<in> set xs. id_in (its_of c) k \<noteq> i"
  shows "\<exists>r c' ch' fi' fw'. cache_walk F b i (index_before xs) (index_of_first ys) c = Some (r, c') \<and>
    cache_ok c' ch' wch fi' fw' \<and> walked c c' \<and> survive c ch c' ch' \<and>
    walk_answers b i c ys r c' ch'"
  using assms
proof (induction ys arbitrary: c ch xs fi fw)
  case Nil
  then show ?case
    by (intro exI [of _ "Inr (index_before xs)"] exI [of _ c] exI [of _ ch] exI [of _ fi] exI [of _ fw])
      (simp add: cache_walk.simps walked_refl survive_refl walk_answers_def)
next
  case (Cons k ys)
  note I = Cons.prems(1) and b = Cons.prems(2) and ch = Cons.prems(3)
  note inv = cache_okD [OF I]
  note d = items_okD [OF inv(4) b]
  have k: "k \<in> set (ch b)" "0 < k" "k < length (its_of c)" using d(6) [of k] ch by auto
  let ?it = "its_of c ! k"
  have nx: "ci_nextIndex ?it = index_of_first ys" using linked_next [OF d(1) [unfolded ch]] .
  note walk = cache_walk_step [OF inv(1) k(3,2), of F b i "index_before xs"]
  consider "ci_id ?it = i" | "ci_id ?it \<noteq> i" "\<not> recent c k" | "ci_id ?it \<noteq> i" "recent c k" by blast
  then show ?case
  proof cases
    case 1
    let ?d = "with_item k (?it\<lparr>ci_generation := tx_generation c\<rparr>) c"
    have "cache_ok ?d ch wch fi fw" by (rule cache_ok_item [OF I]) simp_all
    moreover have "id_in (its_of ?d) j = id_in (its_of c) j" "ci_start (its_of ?d ! j) = ci_start (its_of c ! j)" for j
      using k(3) by (simp_all add: nth_list_update)
    then have "survive c ch ?d ch" by (simp add: survive_def)
    ultimately show ?thesis using walk 1 k(1)
      by (intro exI [of _ "Inl (Some k)"] exI [of _ ?d] exI [of _ ch] exI [of _ fi] exI [of _ fw]) (simp add: walked_def walk_answers_def Let_def)
  next
    case 2
    let ?z = "(zero_item F)\<lparr>ci_start := -1\<rparr>" and ?ch = "ch(b := xs @ ys)"
    obtain d where e: "free_words (ci_start ?it) c = Some d" "its_of d = its_of c" "cache_shape d" "walked c (evict ?z b (index_before xs) k d)"
      "cache_ok (evict ?z b (index_before xs) k d) ?ch wch (fi @ [k]) (fw @ wch k)"
      "its_of (evict ?z b (index_before xs) k d) = link_after xs (ci_nextIndex ?it) ((its_of c)[k := ?z])"
      using evict_ok [OF I b ch, of ?z] by blast
    let ?e = "evict ?z b (index_before xs) k d"
    have g: "tx_generation ?e = tx_generation c" using e(4) by (simp add: walked_def)
    note sv = evict_survive [OF I b ch 2(2) e(6) g]
    have bc: "bucket_count ?e = bucket_count c" by (rule walked_buckets [OF e(4)])
    have own: "j \<in> owners (bucket_count c) ?ch" if "j \<in> set (xs @ ys)" for j using that b by (auto simp: owners_def intro!: bexI [of _ b])
    have ids: "id_in (its_of ?e) j = id_in (its_of c) j" if "j \<in> set (xs @ ys)" for j using sv(2) [OF own [OF that]] by simp
    have "\<exists>r c' ch' fi' fw'. cache_walk F b i (index_before xs) (index_of_first ys) ?e = Some (r, c') \<and>
      cache_ok c' ch' wch fi' fw' \<and> walked ?e c' \<and> survive ?e ?ch c' ch' \<and>
      walk_answers b i ?e ys r c' ch'"
      by (rule Cons.IH [OF e(5)]) (use b bc ids Cons.prems(4) in simp_all)
    then obtain r c' ch' fi' fw' where r: "cache_walk F b i (index_before xs) (index_of_first ys) ?e = Some (r, c')"
      "cache_ok c' ch' wch fi' fw'" "walked ?e c'" "survive ?e ?ch c' ch'"
      "walk_answers b i ?e ys r c' ch'" by blast
    have f: "walk_answers b i c ys r c' ch'" using r(5) walk_answers_cong [of ys ?e c] ids by simp
    have "survive c ch c' ch'" using sv bc by (intro survive_trans [OF sv(1) r(4)]) auto
    moreover have "item_of_ptr d (Some k) = ?it" using item_of_ptr_in [OF e(3), of k] e(2) k(3) by simp
    ultimately show ?thesis using walk 2 e(1,2) r walked_trans [OF e(4) r(3)] f nx
      by (intro exI [of _ r] exI [of _ c'] exI [of _ ch'] exI [of _ fi'] exI [of _ fw']) (simp add: evict_def walk_answers_def Let_def)
  next
    case 3
    have "\<exists>r c' ch' fi' fw'. cache_walk F b i (index_before (xs @ [k])) (index_of_first ys) c = Some (r, c') \<and>
      cache_ok c' ch' wch fi' fw' \<and> walked c c' \<and> survive c ch c' ch' \<and>
      walk_answers b i c ys r c' ch'"
      using Cons.prems 3 by (intro Cons.IH) auto
    then show ?thesis using walk 3 nx by (simp add: walk_answers_def Let_def)
  qed
qed

end
