(* ===== verification/Clay_Text_Scan.thy ===== *)
theory Clay_Text_Scan
  imports Clay_Text_Cache
begin

text \<open>
  Cutting a text into words (modules/clay/clay.h, \<open>Clay__AddMeasuredWord\<close> and the loop of \<open>Clay__MeasureTextCached\<close>): the
  words of the text are chained in order, in places nobody else has.
\<close>

section \<open>One more word\<close>

definition word_data :: "'f measured_word list \<Rightarrow> nat \<Rightarrow> int \<times> int \<times> 'f" where
  "word_data ws w = (mw_startOffset (ws ! w), mw_length (ws ! w), mw_width (ws ! w))"

text \<open>
  The state in the middle of a text: entry \<open>k\<close> is neither free nor in a bucket, and the words \<open>ps\<close> made so far belong to nobody.
\<close>

definition scanning :: "nat \<Rightarrow> (nat \<Rightarrow> nat list) \<Rightarrow> (nat \<Rightarrow> nat list) \<Rightarrow> nat list \<Rightarrow> nat list \<Rightarrow> nat list \<Rightarrow> 'f text_cache \<Rightarrow> int \<Rightarrow> word_ptr \<Rightarrow> bool" where
  "scanning k ch wch fi fw ps c temp prev \<longleftrightarrow> cache_ok c ch wch fi fw \<and> part_ok (ws_of c) fw (owners (bucket_count c) ch) wch temp ps \<and>
     prev = (if ps = [] then Temp else Word (Some (last ps))) \<and> k \<notin> owners (bucket_count c) ch \<and> k \<notin> set fi \<and> 0 < k \<and> k < length (its_of c)"

text \<open>What adding words leaves alone.\<close>

definition added :: "(nat \<Rightarrow> nat list) \<Rightarrow> nat set \<Rightarrow> 'f text_cache \<Rightarrow> 'f text_cache \<Rightarrow> bool" where
  "added wch L c c' \<longleftrightarrow> tx_itemsFree c' = tx_itemsFree c \<and> tx_buckets c' = tx_buckets c \<and> tx_maxWords c' = tx_maxWords c \<and>
     tx_generation c' = tx_generation c \<and> tx_log c' = tx_log c \<and> tx_exceeded c' = tx_exceeded c \<and>
     ca_capacity (tx_words c') = ca_capacity (tx_words c) \<and> ca_length (tx_items c') = ca_length (tx_items c) \<and>
     ca_capacity (tx_items c') = ca_capacity (tx_items c) \<and>
     (\<forall>j \<in> L. \<forall>w \<in> set (wch j). word_data (ws_of c') w = word_data (ws_of c) w)"

lemma added_refl: "added wch L c c" and added_trans: "added wch L c d \<Longrightarrow> added wch L d e \<Longrightarrow> added wch L c e"
  by (simp_all add: added_def)

lemma added_buckets: "added wch L c c' \<Longrightarrow> bucket_count c' = bucket_count c"
  by (simp add: added_def bucket_count_def)

text \<open>Writing a word, and the pointer of the word before it.\<close>

definition with_word :: "nat \<Rightarrow> 'f measured_word \<Rightarrow> 'f measured_word carray \<Rightarrow> 'f measured_word carray" where
  "with_word w x a = a\<lparr>ca_cells := (ca_cells a)[w := x]\<rparr>"

lemma with_word_simps [simp]:
  "values_of (with_word w x a) = (values_of a)[w := x]" "array_ok (with_word w x a) \<longleftrightarrow> array_ok a" "ca_length (with_word w x a) = ca_length a"
  "length (ca_cells (with_word w x a)) = length (ca_cells a)"
  by (simp_all add: with_word_def values_of_update array_ok_update)

definition relinked :: "nat list \<Rightarrow> nat \<Rightarrow> 'f measured_word carray \<Rightarrow> 'f measured_word carray" where
  "relinked ps w a = (if ps = [] then a else with_word (last ps) ((values_of a ! last ps)\<lparr>mw_next := int w\<rparr>) a)"

lemma relinked_simps [simp]:
  "values_of (relinked ps w a) = relink ps w (values_of a)" "array_ok (relinked ps w a) \<longleftrightarrow> array_ok a"
  "ca_length (relinked ps w a) = ca_length a" "length (ca_cells (relinked ps w a)) = length (ca_cells a)"
  by (simp_all add: relinked_def relink_def)

lemma set_next_eq:
  assumes "array_ok (tx_words c)" and "\<And>v. v \<in> set ps \<Longrightarrow> v < length (ws_of c)"
  shows "set_next (if ps = [] then Temp else Word (Some (last ps))) (int w) (c, temp) =
    (c\<lparr>tx_words := relinked ps w (tx_words c)\<rparr>, if ps = [] then int w else temp)"
  using assms cell_of_value [OF assms(1), of "last ps"] by (simp add: set_next_def relinked_def put_word_def with_word_def)

lemma relink_data: "w' < length ws \<Longrightarrow> word_data (relink ps w ws) w' = word_data ws w'"
  by (simp add: word_data_def relink_nth)

lemma Array_Set_in:
  "array_ok a \<Longrightarrow> w < length (values_of a) \<Longrightarrow> Array_Set a (int w) x E = (with_word w x a, E)"
  using cell_of_value [of a w] by (auto simp: Array_Set_def Clay__Array_RangeCheck_def with_word_def array_ok_def)

text \<open>The last free word is taken off its list.\<close>

lemma take_free:
  assumes "array_ok a" and "values_of a = map int (ks @ [w])"
  shows "0 < ca_length a" "Array_GetValue d a (ca_length a - 1) E = (int w, E)" "array_ok (a\<lparr>ca_length := ca_length a - 1\<rparr>)"
    "values_of (a\<lparr>ca_length := ca_length a - 1\<rparr>) = map int ks"
proof -
  have n: "ca_length a = int (length ks) + 1" using length_free [OF assms] by simp
  then show "0 < ca_length a" and "array_ok (a\<lparr>ca_length := ca_length a - 1\<rparr>)" using assms(1) by (auto simp: array_ok_def)
  have "length ks < length (values_of a)" using assms(2) by simp
  then have "ca_cells a ! length ks = int w" using cell_of_value [OF assms(1), of "length ks"] assms(2) by (simp add: nth_append)
  then show "Array_GetValue d a (ca_length a - 1) E = (int w, E)" using n by (simp add: Array_GetValue_in)
  have "values_of (a\<lparr>ca_length := ca_length a - 1\<rparr>) = take (length ks) (values_of a)" using n by (simp add: values_of_def min_def)
  then show "values_of (a\<lparr>ca_length := ca_length a - 1\<rparr>) = map int ks" using assms(2) by (simp add: take_map)
qed

lemma scanningD:
  assumes "scanning k ch wch fi fw ps c temp prev"
  shows "cache_ok c ch wch fi fw" "part_ok (ws_of c) fw (owners (bucket_count c) ch) wch temp ps"
    "prev = (if ps = [] then Temp else Word (Some (last ps)))" "k \<notin> owners (bucket_count c) ch" "k \<notin> set fi" "0 < k" "k < length (its_of c)"
  using assms by (simp_all add: scanning_def)

text \<open>
  The common part: the words are \<open>vs\<close> with \<open>x\<close> at the place \<open>w\<close>, which nobody had.
\<close>

lemma scanning_add:
  assumes S: "scanning k ch wch fi fw ps c temp prev" and x: "mw_next x = -1"
    and "set fw' \<subseteq> set fw" "distinct fw'" "w \<notin> set fw'" "w \<notin> set ps" "\<And>j. j \<in> owners (bucket_count c) ch \<Longrightarrow> w \<notin> set (wch j)"
    and "length (ws_of c) \<le> length vs" "w < length vs" "vs ! w = x" "\<And>v. v < length (ws_of c) \<Longrightarrow> v \<noteq> w \<Longrightarrow> vs ! v = ws_of c ! v"
    and c': "c' = c\<lparr>tx_words := a, tx_wordsFree := f\<rparr>" "values_of a = relink ps w vs" "values_of f = map int fw'" "cache_shape c'"
      "ca_capacity a = ca_capacity (tx_words c)"
  shows "scanning k ch wch fi fw' (ps @ [w]) c' (if ps = [] then int w else temp) (Word (Some w)) \<and> added wch (owners (bucket_count c) ch) c c' \<and>
    map (word_data (ws_of c')) (ps @ [w]) = map (word_data (ws_of c)) ps @ [(mw_startOffset x, mw_length x, mw_width x)]"
proof -
  note s = scanningD [OF S]
  note i = cache_okD [OF s(1)]
  let ?L = "owners (bucket_count c) ch"
  have p: "words_ok (relink ps w vs) fw' ?L (\<lambda>k. ci_start (its_of c ! k)) wch \<and> part_ok (relink ps w vs) fw' ?L wch (if ps = [] then int w else temp) (ps @ [w])"
    by (rule part_ok_add [OF i(5) s(2) assms(3-10) x assms(11)])
  have bc: "bucket_count c' = bucket_count c" by (simp add: c'(1) bucket_count_def)
  have ws: "ws_of c' = relink ps w vs" using c'(1,2) by simp
  have "cache_ok c' ch wch fi fw'" unfolding cache_ok_def bc using i p c' ws by simp
  then have "scanning k ch wch fi fw' (ps @ [w]) c' (if ps = [] then int w else temp) (Word (Some w))"
    unfolding scanning_def bc using p s ws c'(1) by simp
  moreover have d: "word_data (ws_of c') v = word_data (ws_of c) v" if "v < length (ws_of c)" "v \<noteq> w" for v
    using that assms(8,11) unfolding ws by (simp add: relink_data) (simp add: word_data_def)
  have "v < length (ws_of c)" if "j \<in> ?L" "v \<in> set (wch j)" for j v using i(5) that linked_less unfolding words_ok_def by blast
  then have "added wch ?L c c'" unfolding added_def using d assms(7) c'(1,5) by auto
  moreover have "v < length (ws_of c)" if "v \<in> set ps" for v using s(2) that linked_less unfolding part_ok_def by blast
  then have "map (word_data (ws_of c')) ps = map (word_data (ws_of c)) ps" using d assms(6) by auto
  moreover have "word_data (ws_of c') w = (mw_startOffset x, mw_length x, mw_width x)"
    using assms(9,10) unfolding ws by (simp add: relink_data) (simp add: word_data_def)
  ultimately show ?thesis by simp
qed

lemma add_measured_word:
  assumes S: "scanning k ch wch fi fw ps c temp prev" and x: "mw_next x = -1"
    and room: "ca_length (tx_words c) < ca_capacity (tx_words c)"
  shows "\<exists>p' c' temp' fw' w. Clay__AddMeasuredWord x prev (c, temp) = (p', c', temp') \<and>
    scanning k ch wch fi fw' (ps @ [w]) c' temp' p' \<and> added wch (owners (bucket_count c) ch) c c' \<and> tx_items c' = tx_items c \<and>
    ca_length (tx_words c') \<le> ca_length (tx_words c) + 1 \<and>
    map (word_data (ws_of c')) (ps @ [w]) = map (word_data (ws_of c)) ps @ [(mw_startOffset x, mw_length x, mw_width x)]"
proof -
  note s = scanningD [OF S]
  note i = cache_okD [OF s(1)]
  have ok: "array_ok (tx_words c)" "array_ok (tx_wordsFree c)" using i(1) by (simp_all add: cache_shape_def)
  have pl: "v < length (ws_of c)" if "v \<in> set ps" for v using s(2) that linked_less unfolding part_ok_def by blast
  have ol: "v < length (ws_of c)" if "j \<in> owners (bucket_count c) ch" "v \<in> set (wch j)" for j v using i(5) that linked_less unfolding words_ok_def by blast
  have n: "int (length (ws_of c)) = ca_length (tx_words c)" by (rule cache_lengths [OF i(1)])
  show ?thesis
  proof (cases fw rule: rev_cases)
    case Nil
    let ?w = "length (ws_of c)"
    have l0: "\<not> 0 < ca_length (tx_wordsFree c)" using length_free [OF ok(2) i(3)] Nil by simp
    have "array_ok (relinked ps ?w (tx_words c))" "ca_length (relinked ps ?w (tx_words c)) < ca_capacity (relinked ps ?w (tx_words c))"
      using ok room by simp_all
    from Array_Add_ok [OF this, of x "tx_log c"] obtain a where a: "Array_Add (relinked ps ?w (tx_words c)) x (tx_log c) = (Some ?w, a, tx_log c)" "array_ok a"
      "values_of a = relink ps ?w (ws_of c) @ [x]" "ca_length a = ca_length (tx_words c) + 1" "ca_capacity a = ca_capacity (tx_words c)"
      using n by auto
    let ?c = "c\<lparr>tx_words := a, tx_wordsFree := tx_wordsFree c\<rparr>"
    have r: "relink ps ?w (ws_of c) @ [x] = relink ps ?w (ws_of c @ [x])"
      using pl [of "last ps"] by (simp add: relink_def nth_append list_update_append)
    have "Clay__AddMeasuredWord x prev (c, temp) = (Word (Some ?w), ?c, if ps = [] then int ?w else temp)"
      using l0 a(1) set_next_eq [OF ok(1) pl, of ps ?w temp] n s(3) by (simp add: Clay__AddMeasuredWord_def)
    moreover have "scanning k ch wch fi [] (ps @ [?w]) ?c (if ps = [] then int ?w else temp) (Word (Some ?w)) \<and> added wch (owners (bucket_count c) ch) c ?c \<and>
        map (word_data (ws_of ?c)) (ps @ [?w]) = map (word_data (ws_of c)) ps @ [(mw_startOffset x, mw_length x, mw_width x)]"
      using pl ol a i Nil by (intro scanning_add [OF S x, where vs = "ws_of c @ [x]" and a = a]) (auto simp: r nth_append cache_shape_def)
    ultimately show ?thesis using a(4)
      by (intro exI [of _ "Word (Some ?w)"] exI [of _ ?c] exI [of _ "if ps = [] then int ?w else temp"] exI [of _ "[]"] exI [of _ ?w]) simp
  next
    case (snoc fs w)
    note t = take_free [OF ok(2) i(3) [unfolded snoc]]
    have w: "w < length (ws_of c)" "w \<notin> set fs" "distinct fs" "w \<notin> set ps" "\<And>j. j \<in> owners (bucket_count c) ch \<Longrightarrow> w \<notin> set (wch j)"
      using i(5) s(2) snoc by (auto simp: words_ok_def part_ok_def)
    let ?a = "relinked ps w (with_word w x (tx_words c))" and ?f = "(tx_wordsFree c)\<lparr>ca_length := ca_length (tx_wordsFree c) - 1\<rparr>"
    let ?c = "c\<lparr>tx_words := ?a, tx_wordsFree := ?f\<rparr>"
    have cs: "cache_shape ?c" using i(1) t(3) by (simp add: cache_shape_def)
    have "set_next prev (int w) (c\<lparr>tx_wordsFree := ?f, tx_words := with_word w x (tx_words c)\<rparr>, temp) = (?c, if ps = [] then int w else temp)"
      using set_next_eq [of "c\<lparr>tx_wordsFree := ?f, tx_words := with_word w x (tx_words c)\<rparr>" ps w temp] ok(1) pl s(3) by simp
    then have "Clay__AddMeasuredWord x prev (c, temp) = (Word (Some w), ?c, if ps = [] then int w else temp)"
      using t(1,2) Array_Set_in [OF ok(1) w(1)] get_word_in [OF cs, of w] w(1) by (simp add: Clay__AddMeasuredWord_def)
    moreover have "scanning k ch wch fi fs (ps @ [w]) ?c (if ps = [] then int w else temp) (Word (Some w)) \<and> added wch (owners (bucket_count c) ch) c ?c \<and>
        map (word_data (ws_of ?c)) (ps @ [w]) = map (word_data (ws_of c)) ps @ [(mw_startOffset x, mw_length x, mw_width x)]"
      using w t(4) snoc cs by (intro scanning_add [OF S x, where vs = "(ws_of c)[w := x]" and a = ?a and f = ?f]) auto
    ultimately show ?thesis
      by (intro exI [of _ "Word (Some w)"] exI [of _ ?c] exI [of _ "if ps = [] then int w else temp"] exI [of _ fs] exI [of _ w]) simp
  qed
qed

section \<open>Cutting a text\<close>

text \<open>
  The words of a text, each with its place, its length and its width: a word takes the space behind it, a newline is a word of
  no length. \<open>W\<close> measures.
\<close>

definition break_words :: "'f f32 \<Rightarrow> (byte list \<Rightarrow> 'f) \<Rightarrow> byte list \<Rightarrow> int \<Rightarrow> int \<Rightarrow> byte \<Rightarrow> (int \<times> int \<times> 'f) list" where
  "break_words F W text start pos x =
     (let w = W (slice text start (pos - start))
      in if x = 32 then [(start, pos - start + 1, add32 F w (W [32]))]
         else (if start < pos then [(start, pos - start, w)] else []) @ [(pos + 1, 0, z32 F)])"

primrec pieces :: "'f f32 \<Rightarrow> (byte list \<Rightarrow> 'f) \<Rightarrow> byte list \<Rightarrow> int \<Rightarrow> int \<Rightarrow> byte list \<Rightarrow> (int \<times> int \<times> 'f) list" where
  "pieces F W text start pos [] = (if start < pos then [(start, pos - start, W (slice text start (pos - start)))] else [])"
| "pieces F W text start pos (x # xs) =
     (if x = 32 \<or> x = 10 then break_words F W text start pos x @ pieces F W text (pos + 1) (pos + 1) xs
      else pieces F W text start (pos + 1) xs)"

definition width_of :: "'f measure \<Rightarrow> clay_text_config \<Rightarrow> byte list \<Rightarrow> 'f" where
  "width_of mf config bs = fst (mf bs config)"

text \<open>While entry \<open>k\<close> is being made it is changed, but not chained.\<close>

lemma cache_ok_other:
  assumes I: "cache_ok c ch wch fi fw" and k: "k \<notin> owners (bucket_count c) ch"
  shows "cache_ok (with_item k it c) ch wch fi fw"
proof -
  note i = cache_okD [OF I]
  have n: "(its_of c)[k := it] ! j = its_of c ! j" if "j \<in> owners (bucket_count c) ch" for j using that k by (cases "j = k") simp_all
  have "items_ok ((its_of c)[k := it]) (bucket_count c) (tx_buckets c) ch fi"
    using i(4) by (intro items_ok_cong [OF i(4)]) (simp_all add: n items_ok_def)
  moreover have "words_ok (ws_of c) fw (owners (bucket_count c) ch) (\<lambda>j. ci_start ((its_of c)[k := it] ! j)) wch"
    by (rule words_ok_cong [OF i(5)]) (simp_all add: n)
  ultimately show ?thesis using i by (simp add: cache_ok_def)
qed

definition same_items :: "nat \<Rightarrow> 'f text_cache \<Rightarrow> 'f text_cache \<Rightarrow> bool" where
  "same_items k c c' \<longleftrightarrow> (\<forall>j. j \<noteq> k \<longrightarrow> its_of c' ! j = its_of c ! j) \<and> id_in (its_of c') k = id_in (its_of c) k \<and>
     ci_nextIndex (its_of c' ! k) = ci_nextIndex (its_of c ! k) \<and> ci_generation (its_of c' ! k) = ci_generation (its_of c ! k)"

text \<open>The words \<open>ds\<close> have been made since \<open>c0\<close>.\<close>

definition progress :: "nat \<Rightarrow> (nat \<Rightarrow> nat list) \<Rightarrow> (nat \<Rightarrow> nat list) \<Rightarrow> nat list \<Rightarrow> 'f text_cache \<Rightarrow> (int \<times> int \<times> 'f) list \<Rightarrow> 'f scan \<Rightarrow> bool" where
  "progress k ch wch fi c0 ds s \<longleftrightarrow> (\<exists>fw ps. scanning k ch wch fi fw ps (sn_cache s) (sn_temp s) (sn_prev s) \<and>
     map (word_data (ws_of (sn_cache s))) ps = ds \<and> added wch (owners (bucket_count c0) ch) c0 (sn_cache s) \<and> same_items k c0 (sn_cache s))"

lemma progress_update [simp]:
  "progress k ch wch fi c0 ds (s\<lparr>sn_start := i\<rparr>) = progress k ch wch fi c0 ds s" "progress k ch wch fi c0 ds (s\<lparr>sn_end := i\<rparr>) = progress k ch wch fi c0 ds s"
  "progress k ch wch fi c0 ds (s\<lparr>sn_line := x\<rparr>) = progress k ch wch fi c0 ds s" "progress k ch wch fi c0 ds (s\<lparr>sn_width := x\<rparr>) = progress k ch wch fi c0 ds s"
  "progress k ch wch fi c0 ds (s\<lparr>sn_height := x\<rparr>) = progress k ch wch fi c0 ds s"
  by (simp_all add: progress_def)

abbreviation used :: "'f scan \<Rightarrow> int" where
  "used s \<equiv> ca_length (tx_words (sn_cache s))"

lemma progress_capacity: "progress k ch wch fi c0 ds s \<Longrightarrow> ca_capacity (tx_words (sn_cache s)) = ca_capacity (tx_words c0)"
  by (auto simp: progress_def added_def)

lemma progress_item:
  assumes "progress k ch wch fi c0 ds s"
    and "\<And>it. ci_id (g it) = ci_id it \<and> ci_nextIndex (g it) = ci_nextIndex it \<and> ci_generation (g it) = ci_generation it"
  shows "progress k ch wch fi c0 ds (s\<lparr>sn_cache := put_item (Some k) g (sn_cache s)\<rparr>)"
    "tx_words (put_item (Some k) g (sn_cache s)) = tx_words (sn_cache s)"
proof -
  obtain fw ps where S: "scanning k ch wch fi fw ps (sn_cache s) (sn_temp s) (sn_prev s)" and d: "map (word_data (ws_of (sn_cache s))) ps = ds"
    and a: "added wch (owners (bucket_count c0) ch) c0 (sn_cache s)" and i: "same_items k c0 (sn_cache s)"
    using assms(1) by (auto simp: progress_def)
  note sc = scanningD [OF S]
  let ?c = "with_item k (g (its_of (sn_cache s) ! k)) (sn_cache s)"
  have p: "put_item (Some k) g (sn_cache s) = ?c" using put_item_in [OF cache_okD(1) [OF sc(1)] sc(7)] .
  have "scanning k ch wch fi fw ps ?c (sn_temp s) (sn_prev s)"
    using sc cache_ok_other [OF sc(1,4)] unfolding scanning_def by simp
  moreover have "added wch (owners (bucket_count c0) ch) c0 ?c" using a by (simp add: added_def)
  moreover have "same_items k c0 ?c" using i assms(2) sc(7) by (simp add: same_items_def nth_list_update)
  ultimately show "progress k ch wch fi c0 ds (s\<lparr>sn_cache := put_item (Some k) g (sn_cache s)\<rparr>)" using d p
    by (auto simp: progress_def)
  show "tx_words (put_item (Some k) g (sn_cache s)) = tx_words (sn_cache s)" by (simp add: p)
qed

lemma progress_add:
  assumes "progress k ch wch fi c0 ds s" and "used s < ca_capacity (tx_words c0)"
  shows "progress k ch wch fi c0 (ds @ [(st, len, wd)]) (add_word st len wd s)" "used (add_word st len wd s) \<le> used s + 1"
proof -
  obtain fw ps where S: "scanning k ch wch fi fw ps (sn_cache s) (sn_temp s) (sn_prev s)" and d: "map (word_data (ws_of (sn_cache s))) ps = ds"
    and a: "added wch (owners (bucket_count c0) ch) c0 (sn_cache s)" and i: "same_items k c0 (sn_cache s)"
    using assms(1) by (auto simp: progress_def)
  let ?x = "\<lparr>mw_startOffset = st, mw_length = len, mw_width = wd, mw_next = -1\<rparr>"
  have bc: "bucket_count (sn_cache s) = bucket_count c0" by (rule added_buckets [OF a])
  obtain p' c' temp' fw' w where r: "Clay__AddMeasuredWord ?x (sn_prev s) (sn_cache s, sn_temp s) = (p', c', temp')"
    "scanning k ch wch fi fw' (ps @ [w]) c' temp' p'" "added wch (owners (bucket_count c0) ch) (sn_cache s) c'" "tx_items c' = tx_items (sn_cache s)"
    "ca_length (tx_words c') \<le> used s + 1" "map (word_data (ws_of c')) (ps @ [w]) = ds @ [(st, len, wd)]"
    using add_measured_word [OF S, of ?x] assms(2) progress_capacity [OF assms(1)] d bc by auto
  have "same_items k c0 c'" using i r(4) by (simp add: same_items_def)
  moreover have e: "add_word st len wd s = s\<lparr>sn_cache := c', sn_temp := temp', sn_prev := p'\<rparr>" using r(1) by (simp add: add_word_def)
  ultimately show "progress k ch wch fi c0 (ds @ [(st, len, wd)]) (add_word st len wd s)"
    unfolding progress_def using r(2,6) added_trans [OF a r(3)] by (intro exI [of _ fw'] exI [of _ "ps @ [w]"]) simp
  show "used (add_word st len wd s) \<le> used s + 1" using r(5) by (simp add: e)
qed

lemma add_word_frame [simp]:
  "sn_start (add_word st len wd s) = sn_start s" "sn_end (add_word st len wd s) = sn_end s"
  by (simp_all add: add_word_def split: prod.split)

text \<open>The end of a word makes two words at most.\<close>

lemma scan_break_ok:
  fixes F :: "'f f32"
  assumes P: "progress k ch wch fi c0 ds s" and room: "used s + 1 < ca_capacity (tx_words c0)" and "current = 32 \<or> current = 10"
    and s': "s' = scan_break F mf config text (Some k) (width_of mf config [32]) current s"
  shows "progress k ch wch fi c0 (ds @ break_words F (width_of mf config) text (sn_start s) (sn_end s) current) s' \<and>
    used s' \<le> used s + 2 \<and> sn_start s' = sn_end s + 1 \<and> sn_end s' = sn_end s"
proof -
  let ?len = "sn_end s - sn_start s"
  obtain w h where m: "mf (slice text (sn_start s) ?len) config = (w, h)" by (cases "mf (slice text (sn_start s) ?len) config")
  let ?g = "\<lambda>it. it\<lparr>ci_minWidth := CLAY__MAX F w (ci_minWidth it)\<rparr>"
  define s1 where "s1 = s\<lparr>sn_cache := put_item (Some k) ?g (sn_cache s), sn_height := CLAY__MAX F (sn_height s) h\<rparr>"
  have p1: "progress k ch wch fi c0 ds s1" "used s1 = used s" "sn_start s1 = sn_start s" "sn_end s1 = sn_end s"
    using progress_item [OF P, of ?g] by (simp_all add: s1_def)
  show ?thesis
  proof (cases "current = 32")
    case True
    let ?w = "add32 F w (width_of mf config [32])"
    have a: "progress k ch wch fi c0 (ds @ [(sn_start s1, ?len + 1, ?w)]) (add_word (sn_start s1) (?len + 1) ?w s1)"
      "used (add_word (sn_start s1) (?len + 1) ?w s1) \<le> used s1 + 1"
      using progress_add [OF p1(1), of "sn_start s1" "?len + 1" ?w] room p1(2) by simp_all
    have "s' = (add_word (sn_start s1) (?len + 1) ?w s1)\<lparr>sn_line := add32 F (sn_line (add_word (sn_start s1) (?len + 1) ?w s1)) ?w, sn_start := sn_end s + 1\<rparr>"
      using True m p1(3,4) by (simp add: s' scan_break_def Let_def s1_def [symmetric])
    then show ?thesis using a p1 True m by (simp add: break_words_def width_of_def Let_def)
  next
    case False
    then have c: "current = 10" using assms(3) by simp
    define s2 where "s2 = (if 0 < ?len then add_word (sn_start s1) ?len w s1 else s1)"
    have p2: "progress k ch wch fi c0 (ds @ (if sn_start s < sn_end s then [(sn_start s, ?len, w)] else [])) s2" "used s2 \<le> used s + 1"
      "sn_start s2 = sn_start s" "sn_end s2 = sn_end s"
      using progress_add [OF p1(1), of "sn_start s1" ?len w] room p1 by (auto simp: s2_def)
    define s3 where "s3 = add_word (sn_end s2 + 1) 0 (z32 F) s2"
    have p3: "progress k ch wch fi c0 ((ds @ (if sn_start s < sn_end s then [(sn_start s, ?len, w)] else [])) @ [(sn_end s + 1, 0, z32 F)]) s3" "used s3 \<le> used s + 2"
      "sn_end s3 = sn_end s"
      using progress_add [OF p2(1), of "sn_end s + 1" 0 "z32 F"] room p2 by (auto simp: s3_def)
    let ?n = "\<lambda>it. it\<lparr>ci_newlines := True\<rparr>"
    have "s' = s3\<lparr>sn_line := z32 F, sn_width := CLAY__MAX F (add32 F (sn_line s3) w) (sn_width s3),
        sn_cache := put_item (Some k) ?n (sn_cache s3), sn_start := sn_end s + 1\<rparr>"
      using False c m p3(3) p1(3,4) by (simp add: s' scan_break_def Let_def s1_def [symmetric] s2_def s3_def)
    moreover have "progress k ch wch fi c0 ((ds @ (if sn_start s < sn_end s then [(sn_start s, ?len, w)] else [])) @ [(sn_end s + 1, 0, z32 F)])
        (s3\<lparr>sn_cache := put_item (Some k) ?n (sn_cache s3)\<rparr>)" "tx_words (put_item (Some k) ?n (sn_cache s3)) = tx_words (sn_cache s3)"
      by (rule progress_item [OF p3(1)]; simp)+
    ultimately show ?thesis using p3 False m by (simp add: progress_def break_words_def width_of_def Let_def)
  qed
qed

lemma scan_last_ok:
  assumes P: "progress k ch wch fi c0 ds s" and room: "used s < ca_capacity (tx_words c0)" and s': "s' = scan_last F mf config text (Some k) s"
  shows "progress k ch wch fi c0 (ds @ pieces F (width_of mf config) text (sn_start s) (sn_end s) []) s' \<and> used s' \<le> used s + 1"
proof (cases "sn_start s < sn_end s")
  case True
  let ?len = "sn_end s - sn_start s"
  obtain w h where m: "mf (slice text (sn_start s) ?len) config = (w, h)" by (cases "mf (slice text (sn_start s) ?len) config")
  let ?a = "add_word (sn_start s) ?len w s" and ?g = "\<lambda>it. it\<lparr>ci_minWidth := CLAY__MAX F w (ci_minWidth it)\<rparr>"
  have a: "progress k ch wch fi c0 (ds @ [(sn_start s, ?len, w)]) ?a" "used ?a \<le> used s + 1" by (rule progress_add [OF P room])+
  have "progress k ch wch fi c0 (ds @ [(sn_start s, ?len, w)]) (?a\<lparr>sn_cache := put_item (Some k) ?g (sn_cache ?a)\<rparr>)"
    "tx_words (put_item (Some k) ?g (sn_cache ?a)) = tx_words (sn_cache ?a)"
    by (rule progress_item [OF a(1)]; simp)+
  moreover have "s' = ?a\<lparr>sn_line := add32 F (sn_line ?a) w, sn_height := CLAY__MAX F (sn_height ?a) h, sn_cache := put_item (Some k) ?g (sn_cache ?a)\<rparr>"
    using True m by (simp add: s' scan_last_def Let_def)
  ultimately show ?thesis using True m a(2) by (simp add: progress_def width_of_def)
qed (use P in \<open>simp add: s' scan_last_def\<close>)

text \<open>The whole text, when there is room for two words for each of its characters.\<close>

lemma scan_ok:
  assumes "progress k ch wch fi c0 ds s" and "used s + 2 * int (length rest) < ca_capacity (tx_words c0) - 1"
  shows "\<exists>t. scan_loop F mf config text (Some k) (width_of mf config [32]) rest s = Inr t \<and>
    progress k ch wch fi c0 (ds @ pieces F (width_of mf config) text (sn_start s) (sn_end s) rest) (scan_last F mf config text (Some k) t) \<and>
    used (scan_last F mf config text (Some k) t) \<le> used s + 2 * int (length rest) + 1"
  using assms
proof (induction rest arbitrary: s ds)
  case Nil
  then show ?case using scan_last_ok [OF Nil(1) _ refl] by simp
next
  case (Cons x rest)
  define t where "t = (if x = 32 \<or> x = 10 then scan_break F mf config text (Some k) (width_of mf config [32]) x s else s)"
  let ?ds = "ds @ (if x = 32 \<or> x = 10 then break_words F (width_of mf config) text (sn_start s) (sn_end s) x else [])"
  have t: "progress k ch wch fi c0 ?ds t" "used t \<le> used s + 2" "sn_end t = sn_end s"
    "sn_start t = (if x = 32 \<or> x = 10 then sn_end s + 1 else sn_start s)"
    using scan_break_ok [OF Cons.prems(1), of x t F mf config "text"] Cons.prems by (auto simp: t_def)
  let ?t = "t\<lparr>sn_end := sn_end t + 1\<rparr>"
  have "\<exists>u. scan_loop F mf config text (Some k) (width_of mf config [32]) rest ?t = Inr u \<and>
      progress k ch wch fi c0 (?ds @ pieces F (width_of mf config) text (sn_start ?t) (sn_end ?t) rest) (scan_last F mf config text (Some k) u) \<and>
      used (scan_last F mf config text (Some k) u) \<le> used ?t + 2 * int (length rest) + 1"
    using t(1,2) Cons.prems(2) by (intro Cons.IH) simp_all
  moreover have "ca_length (tx_words (sn_cache s)) \<noteq> ca_capacity (tx_words (sn_cache s)) - 1"
    using Cons.prems progress_capacity [OF Cons.prems(1)] by simp
  then have "scan_loop F mf config text (Some k) (width_of mf config [32]) (x # rest) s =
      scan_loop F mf config text (Some k) (width_of mf config [32]) rest ?t"
    by (simp add: t_def Let_def)
  ultimately show ?case using t(2-4) by auto
qed

end
