(* ===== verification/Clay_Text_Measure.thy ===== *)
theory Clay_Text_Measure
  imports Clay_Text_Scan
begin

text \<open>
  \<open>Clay__MeasureTextCached\<close> as a whole (modules/clay/clay.h): it always returns, what it returns holds the words of the text,
  and the cache stays good through measuring, new frames and resets.
\<close>

section \<open>The words make up the text\<close>

lemma slice_snoc: "0 \<le> s \<Longrightarrow> s \<le> p \<Longrightarrow> drop (nat p) bs = x # r \<Longrightarrow> slice bs s (p - s + 1) = slice bs s (p - s) @ [x]"
proof -
  assume a: "0 \<le> s" "s \<le> p" "drop (nat p) bs = x # r"
  have l: "nat p < length bs" using a(3) by (metis drop_all linorder_not_less list.distinct(1))
  have "nat (p - s + 1) = Suc (nat (p - s))" using a(2) by simp
  moreover have "bs ! nat p = x" using a(3) l by (metis hd_drop_conv_nth list.sel(1))
  moreover have "nat s + nat (p - s) = nat p" using a(1,2) by simp
  ultimately show ?thesis using l by (simp add: slice_def take_Suc_conv_app_nth nth_drop)
qed

lemma slice_none: "slice bs s 0 = []"
  by (simp add: slice_def)

lemma pieces_join:
  "0 \<le> s \<Longrightarrow> s \<le> p \<Longrightarrow> drop (nat p) bs = rest \<Longrightarrow>
   concat (map (\<lambda>(s, l, w). slice bs s l) (pieces F W bs s p rest)) = slice bs s (p - s) @ filter (\<lambda>x. x \<noteq> 10) rest"
proof (induction rest arbitrary: s p)
  case Nil
  then show ?case by (cases "s = p") (simp_all add: slice_none)
next
  case (Cons x rest)
  have d: "drop (nat (p + 1)) bs = rest" using Cons.prems by (simp add: nat_add_distrib drop_Suc flip: tl_drop)
  note ih = Cons.IH [OF _ _ d]
  show ?case
  proof (cases "x = 32 \<or> x = 10")
    case True
    then show ?thesis using ih [of "p + 1"] Cons.prems slice_snoc [OF Cons.prems] by (cases "s = p") (auto simp: break_words_def Let_def slice_none)
  next
    case False
    then show ?thesis using ih [of s] Cons.prems slice_snoc [OF Cons.prems] by (simp add: diff_add_eq)
  qed
qed

section \<open>A new entry\<close>

lemma new_cache_entry_ok:
  fixes F :: "'f f32" and c :: "'f text_cache" and i :: "32 word"
  assumes I: "cache_ok c ch wch fi fw"
  defines "new \<equiv> (zero_item F)\<lparr>ci_start := -1, ci_id := i, ci_generation := tx_generation c\<rparr>"
  shows "new_cache_entry F i c = (None, exceeded CLAY_ERROR_TYPE_ELEMENTS_CAPACITY_EXCEEDED c) \<and> ca_length (tx_items c) = ca_capacity (tx_items c) - 1 \<or>
    (\<exists>k c' fi'. new_cache_entry F i c = (Some (Some k, int k), c') \<and> scanning k ch wch fi' fw [] c' (-1) Temp \<and> its_of c' ! k = new \<and>
      (\<forall>j < length (its_of c). j \<noteq> k \<longrightarrow> its_of c' ! j = its_of c ! j) \<and> tx_words c' = tx_words c \<and> tx_log c' = tx_log c \<and>
      bucket_count c' = bucket_count c \<and> length (its_of c) \<le> length (its_of c'))"
proof (cases fi rule: rev_cases)
  case Nil
  note i = cache_okD [OF I]
  have l0: "\<not> 0 < ca_length (tx_itemsFree c)" using length_free [OF _ i(2)] i(1) Nil by (simp add: cache_shape_def)
  show ?thesis
  proof (cases "ca_length (tx_items c) = ca_capacity (tx_items c) - 1")
    case True
    then show ?thesis using l0 by (simp add: new_cache_entry_def Let_def)
  next
    case False
    let ?k = "length (its_of c)"
    have ok: "array_ok (tx_items c)" "ca_length (tx_items c) < ca_capacity (tx_items c)" and n: "int ?k = ca_length (tx_items c)"
      using i(1) cache_lengths [OF i(1)] by (simp_all add: cache_shape_def)
    obtain a where a: "Array_Add (tx_items c) new (tx_log c) = (Some ?k, a, tx_log c)" "array_ok a" "values_of a = its_of c @ [new]"
      "ca_length a = ca_length (tx_items c) + 1" "ca_capacity a = ca_capacity (tx_items c)"
      using Array_Add_ok [OF ok, of new "tx_log c"] n by auto
    let ?c = "c\<lparr>tx_items := a\<rparr>"
    have "new_cache_entry F i c = (Some (Some ?k, int ?k), ?c)"
      using l0 False a(1,4) n by (simp add: new_cache_entry_def Let_def new_def [symmetric])
    moreover have cs: "cache_shape ?c" using i(1) a(2,4,5) False by (simp add: cache_shape_def)
    have bc: "bucket_count ?c = bucket_count c" by (simp add: bucket_count_def)
    have ol: "j < length (its_of c)" if "j \<in> owners (bucket_count c) ch" for j using that items_okD(6) [OF i(4)] by (auto simp: owners_def)
    have "items_ok (its_of ?c) (bucket_count c) (tx_buckets c) ch fi"
      using i(4) ol by (intro items_ok_cong [OF i(4)]) (auto simp: a(3) nth_append items_ok_def)
    moreover have "words_ok (ws_of c) fw (owners (bucket_count c) ch) (\<lambda>j. ci_start (its_of ?c ! j)) wch"
      by (rule words_ok_cong [OF i(5)]) (use ol in \<open>auto simp: a(3) nth_append\<close>)
    ultimately have "cache_ok ?c ch wch fi fw" using i(2,3) cs by (simp add: cache_ok_def bc)
    then have "scanning ?k ch wch fi fw [] ?c (-1) Temp"
      using ol n i(1) Nil by (auto simp: scanning_def part_ok_def bc a(3) cache_shape_def)
    then show ?thesis using \<open>new_cache_entry F i c = _\<close> a(3) bc by (intro disjI2 exI [of _ ?k] exI [of _ ?c] exI [of _ fi]) (simp add: nth_append a(3))
  qed
next
  case (snoc fs k)
  note i = cache_okD [OF I]
  have af: "array_ok (tx_itemsFree c)" using i(1) by (simp add: cache_shape_def)
  note t = take_free [OF af i(2) [unfolded snoc]]
  have k: "0 < k" "k < length (its_of c)" "k \<notin> set fs" "distinct fs" "set fs \<subseteq> set fi" "k \<in> set fi" using i(4) snoc by (auto simp: items_ok_def)
  then have ko: "k \<notin> owners (bucket_count c) ch" using items_okD(5) [OF i(4)] by (auto simp: owners_def)
  define d where "d = c\<lparr>tx_itemsFree := (tx_itemsFree c)\<lparr>ca_length := ca_length (tx_itemsFree c) - 1\<rparr>\<rparr>"
  have bc: "bucket_count d = bucket_count c" by (simp add: d_def bucket_count_def)
  have cs: "cache_shape d" using i(1) t(3) by (simp add: d_def cache_shape_def)
  have "items_ok (its_of d) (bucket_count d) (tx_buckets d) ch fs"
    using i(4) k(4,5) unfolding bc by (intro items_ok_cong [OF _ _ _ k(4,5)]) (simp_all add: d_def)
  then have I': "cache_ok d ch wch fs fw" using i(3,5) t(4) cs by (simp add: cache_ok_def bc) (simp add: d_def)
  let ?c = "with_item k new d"
  have "cache_ok ?c ch wch fs fw" using cache_ok_other [OF I'] ko bc by simp
  then have "scanning k ch wch fs fw [] ?c (-1) Temp" using k ko by (simp add: scanning_def part_ok_def bc) (simp add: d_def)
  moreover have "new_cache_entry F i c = (Some (Some k, int k), ?c)"
    using t(1,2) set_cache_item_in [OF cs, of k new] get_item_in [of ?c k] cs k(2)
    by (simp add: new_cache_entry_def Let_def new_def [symmetric] d_def)
  ultimately show ?thesis using k(2) by (intro disjI2 exI [of _ k] exI [of _ ?c] exI [of _ fs]) (simp add: d_def bucket_count_def)
qed

section \<open>The new entry is chained\<close>

lemma link_entry_unlink: "link_entry b prev k c = unlink b prev k c"
  by (simp add: link_entry_def unlink_def)

lemma owners_add: "b < B \<Longrightarrow> owners B (ch(b := ch b @ [k])) = insert k (owners B ch)"
  by (auto simp: owners_def split: if_splits)

lemma link_entry_ok:
  assumes S: "scanning k ch wch fi fw ps c temp prev" and b: "b < bucket_count c" and "unat (id_in (its_of c) k) mod bucket_count c = b"
    and "ci_nextIndex (its_of c ! k) = 0" "\<forall>j \<in> set (ch b). id_in (its_of c) j \<noteq> id_in (its_of c) k"
    and "ci_start it = temp" "ci_id it = id_in (its_of c) k" "ci_nextIndex it = ci_nextIndex (its_of c ! k)"
    and e: "e = link_entry b (index_before (ch b)) (int k) (with_item k it c)"
  shows "cache_ok e (ch(b := ch b @ [k])) (wch(k := ps)) fi fw" and "its_of e = link_after (ch b) (int k) ((its_of c)[k := it])"
    and "tx_words e = tx_words c" "tx_log e = tx_log c" "bucket_count e = bucket_count c" "tx_generation e = tx_generation c"
proof -
  note s = scanningD [OF S]
  define d where "d = with_item k it c"
  have D: "cache_ok d ch wch fi fw" unfolding d_def by (rule cache_ok_other [OF s(1,4)])
  have bc: "bucket_count d = bucket_count c" by (simp add: d_def)
  have its: "its_of d = (its_of c)[k := it]" "its_of d ! k = it" using s(7) by (simp_all add: d_def)
  note i = cache_okD [OF D, unfolded bc]
  have ch: "0 < j \<and> j < length (its_of d)" if "j \<in> set (ch b)" for j by (rule items_okD(6) [OF i(4) b that])
  have eq: "e = (if ch b = [] then d\<lparr>tx_buckets := (tx_buckets d)[b := int k]\<rparr> else with_item (last (ch b)) ((its_of d ! last (ch b))\<lparr>ci_nextIndex := int k\<rparr>) d)"
    unfolding e link_entry_unlink d_def [symmetric] by (rule unlink_eq [OF i(1) ch])
  show E: "its_of e = link_after (ch b) (int k) ((its_of c)[k := it])" unfolding eq its(1) [symmetric] by (simp add: link_after_def)
  show w: "tx_words e = tx_words c" "tx_log e = tx_log c" and bce: "bucket_count e = bucket_count c" and "tx_generation e = tx_generation c"
    unfolding eq by (simp_all add: d_def bucket_count_def)
  have kb: "j \<noteq> k" if "j \<in> set (ch b)" for j using s(4) b that by (auto simp: owners_def)
  have "items_ok (its_of e) (bucket_count c) (tx_buckets e) (ch(b := ch b @ [k])) fi"
  proof -
    have "id_in (its_of d) j = id_in (its_of c) j" if "j \<in> set (ch b)" for j using kb [OF that] by (simp add: its(1))
    then have "id_in (its_of d) k \<notin> id_in (its_of d) ` set (ch b)" using assms(5,7) its(2) by auto
    then have "items_ok (link_after (ch b) (int k) (its_of d)) (bucket_count c) (if ch b = [] then (tx_buckets d)[b := int k] else tx_buckets d) (ch(b := ch b @ [k])) fi"
      using items_ok_link [OF i(4) b s(4,5,6)] s(7) its assms(3,4,7,8) by simp
    moreover have "tx_buckets e = (if ch b = [] then (tx_buckets d)[b := int k] else tx_buckets d)" unfolding eq by simp
    ultimately show ?thesis by (simp only: E its(1))
  qed
  moreover have "words_ok (ws_of c) fw (insert k (owners (bucket_count c) ch)) (\<lambda>j. ci_start (its_of e ! j)) (wch(k := ps))"
  proof (rule words_ok_cong [OF words_ok_own [OF _ s(2,4)], of "\<lambda>j. ci_start (its_of c ! j)"])
    show "words_ok (ws_of c) fw (owners (bucket_count c) ch) (\<lambda>j. ci_start (its_of c ! j)) wch" by (rule cache_okD(5) [OF s(1)])
    fix j
    assume "j \<in> insert k (owners (bucket_count c) ch)"
    then have "j < length (its_of c)" using s(7) items_okD(6) [OF cache_okD(4) [OF s(1)]] by (auto simp: owners_def)
    then show "ci_start (its_of e ! j) = ((\<lambda>j. ci_start (its_of c ! j))(k := temp)) j \<and> (wch(k := ps)) j = (wch(k := ps)) j"
      using assms(6) by (simp add: E link_after_nth nth_list_update)
  qed simp
  moreover have "cache_shape e" "values_of (tx_itemsFree e) = map int fi" "values_of (tx_wordsFree e) = map int fw"
    unfolding eq using i(1-3) by (auto simp: cache_shape_def)
  ultimately show "cache_ok e (ch(b := ch b @ [k])) (wch(k := ps)) fi fw"
    by (simp add: cache_ok_def bce owners_add [OF b] w)
qed

section \<open>What the cache holds\<close>

text \<open>
  Entry \<open>k\<close> has the words \<open>ds\<close>; it is the entry of the identifier \<open>i\<close>; the cache holds \<open>ds\<close> for \<open>i\<close>.
\<close>

definition entry_holds :: "'f text_cache \<Rightarrow> nat \<Rightarrow> (int \<times> int \<times> 'f) list \<Rightarrow> bool" where
  "entry_holds c k ds \<longleftrightarrow> (\<exists>ps. linked (\<lambda>w. mw_next (ws_of c ! w)) (-1) (length (ws_of c)) (ci_start (its_of c ! k)) ps \<and>
     map (word_data (ws_of c)) ps = ds)"

definition entry_of :: "'f text_cache \<Rightarrow> 32 word \<Rightarrow> nat \<Rightarrow> bool" where
  "entry_of c i k \<longleftrightarrow> id_in (its_of c) k = i \<and> (\<exists>xs. k \<in> set xs \<and>
     linked (\<lambda>k. ci_nextIndex (its_of c ! k)) 0 (length (its_of c)) (tx_buckets c ! (unat i mod bucket_count c)) xs)"

definition holds :: "'f text_cache \<Rightarrow> 32 word \<Rightarrow> (int \<times> int \<times> 'f) list \<Rightarrow> bool" where
  "holds c i ds \<longleftrightarrow> (\<exists>k. entry_of c i k \<and> entry_holds c k ds)"

lemma linked_inject: "linked nxt e n i xs \<Longrightarrow> linked nxt e n i ys \<Longrightarrow> xs = ys"
proof (induction xs arbitrary: i ys)
  case Nil
  then show ?case by (cases ys) auto
next
  case (Cons x xs)
  then show ?case by (cases ys) auto
qed

lemma bucket_in_range: "cache_ok c ch wch fi fw \<Longrightarrow> unat (i :: 32 word) mod bucket_count c < bucket_count c"
  by (simp add: cache_ok_def items_ok_def)

lemma entry_of_iff:
  assumes "cache_ok c ch wch fi fw"
  shows "entry_of c i k \<longleftrightarrow> k \<in> set (ch (unat i mod bucket_count c)) \<and> id_in (its_of c) k = i"
proof -
  have l: "linked (\<lambda>k. ci_nextIndex (its_of c ! k)) 0 (length (its_of c)) (tx_buckets c ! (unat i mod bucket_count c)) (ch (unat i mod bucket_count c))"
    by (rule items_okD(1) [OF cache_okD(4) [OF assms] bucket_in_range [OF assms]])
  show ?thesis unfolding entry_of_def using l linked_inject [OF l] by blast
qed

lemma entry_holds_iff:
  assumes "cache_ok c ch wch fi fw" and "k \<in> owners (bucket_count c) ch"
  shows "entry_holds c k ds \<longleftrightarrow> ds = map (word_data (ws_of c)) (wch k)"
proof -
  have l: "linked (\<lambda>w. mw_next (ws_of c ! w)) (-1) (length (ws_of c)) (ci_start (its_of c ! k)) (wch k)"
    using cache_okD(5) [OF assms(1)] assms(2) by (simp add: words_ok_def)
  show ?thesis unfolding entry_holds_def using l linked_inject [OF l] by blast
qed

lemma owner_iff:
  assumes "cache_ok c ch wch fi fw"
  shows "k \<in> owners (bucket_count c) ch \<longleftrightarrow> entry_of c (id_in (its_of c) k) k"
proof -
  have "k \<in> set (ch b) \<Longrightarrow> b < bucket_count c \<Longrightarrow> unat (id_in (its_of c) k) mod bucket_count c = b" for b
    using items_okD(4) [OF cache_okD(4) [OF assms]] by blast
  then show ?thesis unfolding entry_of_iff [OF assms] owners_def using bucket_in_range [OF assms] by auto
qed

text \<open>From one cache to a later one: nothing is invented, and nothing that was asked for lately is lost.\<close>

definition later :: "32 word \<Rightarrow> 'f text_cache \<Rightarrow> 'f text_cache \<Rightarrow> bool" where
  "later i c c' \<longleftrightarrow> (\<forall>j ds. j \<noteq> i \<longrightarrow> holds c' j ds \<longrightarrow> holds c j ds) \<and>
     (\<forall>j k ds. entry_of c j k \<and> recent c k \<and> entry_holds c k ds \<longrightarrow> entry_of c' j k \<and> entry_holds c' k ds)"

lemma laterI:
  assumes I: "cache_ok c ch wch fi fw" and I': "cache_ok c' ch' wch' fi' fw'" and bc: "bucket_count c' = bucket_count c"
    and old: "\<And>k. k \<in> owners (bucket_count c) ch' \<Longrightarrow> id_in (its_of c') k \<noteq> i \<Longrightarrow> k \<in> owners (bucket_count c) ch \<and>
      id_in (its_of c') k = id_in (its_of c) k \<and> map (word_data (ws_of c')) (wch' k) = map (word_data (ws_of c)) (wch k)"
    and keep: "\<And>k. k \<in> owners (bucket_count c) ch \<Longrightarrow> recent c k \<Longrightarrow> k \<in> owners (bucket_count c) ch' \<and>
      id_in (its_of c') k = id_in (its_of c) k \<and> map (word_data (ws_of c')) (wch' k) = map (word_data (ws_of c)) (wch k)"
  shows "later i c c'"
proof -
  note o = owner_iff [OF I] and o' = owner_iff [OF I', unfolded bc]
  have e: "entry_of c j k \<Longrightarrow> id_in (its_of c) k = j" "entry_of c' j k \<Longrightarrow> id_in (its_of c') k = j" for j k by (simp_all add: entry_of_def)
  have "holds c j ds" if ne: "j \<noteq> i" and h: "holds c' j ds" for j ds
  proof -
    obtain k where k: "entry_of c' j k" "entry_holds c' k ds" using h by (auto simp: holds_def)
    then have ow: "k \<in> owners (bucket_count c) ch'" using o' e(2) by blast
    have "id_in (its_of c') k \<noteq> i" using e(2) [OF k(1)] ne by simp
    note p = old [OF ow this]
    have "ds = map (word_data (ws_of c)) (wch k)" using entry_holds_iff [OF I', unfolded bc, OF ow] k(2) p by simp
    then have "entry_holds c k ds" using entry_holds_iff [OF I, of k] p by simp
    moreover have "entry_of c j k" using o p e(2) [OF k(1)] by simp
    ultimately show ?thesis by (auto simp: holds_def)
  qed
  moreover have "entry_of c' j k \<and> entry_holds c' k ds" if "entry_of c j k" "recent c k" "entry_holds c k ds" for j k ds
  proof -
    have ow: "k \<in> owners (bucket_count c) ch" using o that(1) e(1) by blast
    note p = keep [OF ow that(2)]
    have "ds = map (word_data (ws_of c')) (wch' k)" using entry_holds_iff [OF I ow] that(3) p by simp
    then have "entry_holds c' k ds" using entry_holds_iff [OF I', unfolded bc, of k] p by simp
    moreover have "entry_of c' j k" using o' [of k] p e(1) [OF that(1)] by auto
    ultimately show ?thesis by blast
  qed
  ultimately show ?thesis unfolding later_def by blast
qed

lemma exceeded_frame [simp]: "cache_ok (exceeded e c) ch wch fi fw \<longleftrightarrow> cache_ok c ch wch fi fw" "bucket_count (exceeded e c) = bucket_count c"
  "its_of (exceeded e c) = its_of c" "tx_words (exceeded e c) = tx_words c" "tx_buckets (exceeded e c) = tx_buckets c"
  by (simp_all add: exceeded_def cache_ok_def cache_shape_def bucket_count_def)

lemma later_exceeded [simp]: "later i c (exceeded e c') = later i c c'"
  by (simp add: later_def holds_def entry_of_def entry_holds_def)

section \<open>Measuring a text that is not there\<close>

definition words_grow :: "int \<Rightarrow> 'f text_cache \<Rightarrow> 'f text_cache \<Rightarrow> bool" where
  "words_grow n c c' \<longleftrightarrow> ca_length (tx_words c') \<le> ca_length (tx_words c) + n \<and> ca_capacity (tx_words c') = ca_capacity (tx_words c)"

lemma measure_new_ok:
  fixes F :: "'f f32"
  assumes I: "cache_ok c ch wch fi fw" and b: "b = unat i mod bucket_count c" and new: "\<forall>j \<in> set (ch b). id_in (its_of c) j \<noteq> i"
    and room: "ca_length (tx_words c) + 2 * int (length bs) < ca_capacity (tx_words c) - 1"
  shows "measure_new F mf bs config b i (index_before (ch b)) c = (None, exceeded CLAY_ERROR_TYPE_ELEMENTS_CAPACITY_EXCEEDED c) \<and>
      ca_length (tx_items c) = ca_capacity (tx_items c) - 1 \<or>
    (\<exists>k e wch' fi' fw'. measure_new F mf bs config b i (index_before (ch b)) c = (Some k, e) \<and> cache_ok e (ch(b := ch b @ [k])) wch' fi' fw' \<and>
      bucket_count e = bucket_count c \<and> tx_log e = tx_log c \<and> words_grow (2 * int (length bs) + 1) c e \<and>
      k \<notin> owners (bucket_count c) ch \<and> id_in (its_of e) k = i \<and>
      map (word_data (ws_of e)) (wch' k) = pieces F (width_of mf config) bs 0 0 bs \<and>
      (\<forall>j \<in> owners (bucket_count c) ch. id_in (its_of e) j = id_in (its_of c) j \<and> map (word_data (ws_of e)) (wch' j) = map (word_data (ws_of c)) (wch j)))"
  using new_cache_entry_ok [OF I, of F i]
proof (elim disjE exE conjE)
  assume "new_cache_entry F i c = (None, exceeded CLAY_ERROR_TYPE_ELEMENTS_CAPACITY_EXCEEDED c)" "ca_length (tx_items c) = ca_capacity (tx_items c) - 1"
  then show ?thesis by (simp add: measure_new_def)
next
  fix k c1 fi1
  let ?new = "(zero_item F)\<lparr>ci_start := -1, ci_id := i, ci_generation := tx_generation c\<rparr>"
  assume n: "new_cache_entry F i c = (Some (Some k, int k), c1)" and S: "scanning k ch wch fi1 fw [] c1 (-1) Temp" and k1: "its_of c1 ! k = ?new"
    and other: "\<forall>j < length (its_of c). j \<noteq> k \<longrightarrow> its_of c1 ! j = its_of c ! j" and w1: "tx_words c1 = tx_words c" and l1: "tx_log c1 = tx_log c"
    and bc1: "bucket_count c1 = bucket_count c" and le1: "length (its_of c) \<le> length (its_of c1)"
  define s where "s = \<lparr>sn_cache = c1, sn_temp = -1, sn_prev = Temp, sn_start = 0, sn_end = 0, sn_line = z32 F, sn_width = z32 F, sn_height = z32 F\<rparr>"
  have "progress k ch wch fi1 c1 [] s" 
    unfolding progress_def using S by (intro exI [of _ fw] exI [of _ "[]"]) (simp add: s_def added_refl same_items_def)
  moreover have "used s + 2 * int (length bs) < ca_capacity (tx_words c1) - 1" using room w1 by (simp add: s_def)
  ultimately obtain t where t: "scan_loop F mf config bs (Some k) (width_of mf config [32]) bs s = Inr t"
    "progress k ch wch fi1 c1 ([] @ pieces F (width_of mf config) bs (sn_start s) (sn_end s) bs) (scan_last F mf config bs (Some k) t)"
    "used (scan_last F mf config bs (Some k) t) \<le> used s + 2 * int (length bs) + 1"
    using scan_ok by blast
  define u where "u = scan_last F mf config bs (Some k) t"
  obtain fw2 ps where S2: "scanning k ch wch fi1 fw2 ps (sn_cache u) (sn_temp u) (sn_prev u)"
    and ds: "map (word_data (ws_of (sn_cache u))) ps = pieces F (width_of mf config) bs 0 0 bs"
    and a: "added wch (owners (bucket_count c) ch) c1 (sn_cache u)" and si: "same_items k c1 (sn_cache u)"
    using t(2) unfolding progress_def u_def [symmetric] bc1 s_def by auto
  note s2 = scanningD [OF S2]
  have bc2: "bucket_count (sn_cache u) = bucket_count c" using added_buckets [OF a] bc1 by simp
  let ?g = "\<lambda>it. it\<lparr>ci_start := sn_temp u, ci_width := sub32 F (CLAY__MAX F (sn_line u) (sn_width u)) (of16 F (tc_letterSpacing config)), ci_height := sn_height u\<rparr>"
  let ?it = "?g (its_of (sn_cache u) ! k)"
  define e where "e = link_entry b (index_before (ch b)) (int k) (with_item k ?it (sn_cache u))"
  have "measure_new F mf bs config b i (index_before (ch b)) c = (Some k, e)"
    using n t(1) put_item_in [OF cache_okD(1) [OF s2(1)] s2(7), of ?g] by (simp add: measure_new_def Let_def s_def width_of_def e_def u_def)
  moreover have idk: "id_in (its_of (sn_cache u)) k = i" "ci_nextIndex (its_of (sn_cache u) ! k) = 0" using si k1 by (simp_all add: same_items_def zero_item_def)
  have ol: "j < length (its_of c) \<and> j \<noteq> k" if "j \<in> owners (bucket_count c) ch" for j
    using that s2(4) bc2 items_okD(6) [OF cache_okD(4) [OF I]] by (auto simp: owners_def)
  then have same: "its_of (sn_cache u) ! j = its_of c ! j" if "j \<in> owners (bucket_count c) ch" for j
    using that si other by (auto simp: same_items_def)
  have bl: "b < bucket_count c" using b bucket_in_range [OF I] by simp
  have cb: "j \<in> owners (bucket_count c) ch" if "j \<in> set (ch b)" for j using that bl by (auto simp: owners_def)
  note le = link_entry_ok [OF S2, of b ?it e, unfolded bc2]
  have L: "cache_ok e (ch(b := ch b @ [k])) (wch(k := ps)) fi1 fw2" "its_of e = link_after (ch b) (int k) ((its_of (sn_cache u))[k := ?it])"
    "tx_words e = tx_words (sn_cache u)" "tx_log e = tx_log (sn_cache u)" "bucket_count e = bucket_count c"
    using le bl b idk new same cb by (simp_all add: e_def)
  have lu: "length (its_of (sn_cache u)) = length (its_of c1)"
    using a cache_lengths(2) [OF cache_okD(1) [OF s2(1)]] cache_lengths(2) [OF cache_okD(1) [OF scanningD(1) [OF S]]] by (simp add: added_def)
  have "id_in (its_of e) k = i" using idk s2(7) by (auto simp: L(2) link_after_nth)
  moreover have "id_in (its_of e) j = id_in (its_of c) j \<and> map (word_data (ws_of e)) ((wch(k := ps)) j) = map (word_data (ws_of c)) (wch j)"
    if "j \<in> owners (bucket_count c) ch" for j
  proof -
    have "j < length (its_of (sn_cache u))" using ol [OF that] lu le1 by simp
    then have "id_in (its_of e) j = id_in (its_of c) j" using same [OF that] ol [OF that] by (auto simp: L(2) link_after_nth)
    moreover have "map (word_data (ws_of e)) (wch j) = map (word_data (ws_of c)) (wch j)" using a that w1 by (simp add: added_def L(3))
    ultimately show ?thesis using ol [OF that] by simp
  qed
  moreover have "words_grow (2 * int (length bs) + 1) c e"
    using t(3) a L(3) w1 by (simp add: words_grow_def added_def u_def [symmetric] s_def)
  ultimately show ?thesis using L s2(4) bc2 ds a l1
    by (intro disjI2 exI [of _ k] exI [of _ e] exI [of _ "wch(k := ps)"] exI [of _ fi1] exI [of _ fw2]) (simp add: added_def)
qed

section \<open>The whole call\<close>

definition text_id :: "simd \<Rightarrow> clay_string \<Rightarrow> clay_text_config \<Rightarrow> 32 word" where
  "text_id build str config = Clay__HashStringContentsWithConfig build str config"

definition words_room :: "'f text_cache \<Rightarrow> clay_string \<Rightarrow> bool" where
  "words_room c str \<longleftrightarrow> ca_length (tx_words c) + 2 * int (length (st_chars str)) < ca_capacity (tx_words c) - 1"

definition cache_good :: "'f text_cache \<Rightarrow> bool" where
  "cache_good c \<longleftrightarrow> (\<exists>ch wch fi fw. cache_ok c ch wch fi fw)"

lemma cache_goodI: "cache_ok c ch wch fi fw \<Longrightarrow> cache_good c"
  by (auto simp: cache_good_def)

lemma cache_good_exceeded [simp]: "cache_good (exceeded e c) = cache_good c"
  by (simp add: cache_good_def)

lemma find_in_bucket:
  assumes I: "cache_ok c ch wch fi fw"
  shows "(\<exists>ds. holds c i ds) \<longleftrightarrow> List.find (\<lambda>k. id_in (its_of c) k = i) (ch (unat i mod bucket_count c)) \<noteq> None"
proof -
  let ?b = "unat i mod bucket_count c"
  have "(\<exists>ds. holds c i ds) \<longleftrightarrow> (\<exists>k. entry_of c i k)"
  proof
    assume "\<exists>k. entry_of c i k"
    then obtain k where k: "entry_of c i k" by blast
    then have "k \<in> owners (bucket_count c) ch" using owner_iff [OF I, of k] by (simp add: entry_of_def)
    then show "\<exists>ds. holds c i ds" using k entry_holds_iff [OF I] by (auto simp: holds_def)
  qed (auto simp: holds_def)
  then show ?thesis unfolding entry_of_iff [OF I] by (auto simp: find_None_iff)
qed

lemma survive_later:
  assumes I: "cache_ok c ch wch fi fw" and I': "cache_ok c' ch' wch fi' fw'" and w: "walked c c'" and s: "survive c ch c' ch'"
  shows "later i c c'"
proof (rule laterI [OF I I' walked_buckets [OF w]])
  have t: "tx_words c' = tx_words c" using w by (simp add: walked_def)
  show "\<And>k. k \<in> owners (bucket_count c) ch' \<Longrightarrow> k \<in> owners (bucket_count c) ch \<and>
      id_in (its_of c') k = id_in (its_of c) k \<and> map (word_data (ws_of c')) (wch k) = map (word_data (ws_of c)) (wch k)"
    using s by (simp add: survive_def t)
  show "\<And>k. k \<in> owners (bucket_count c) ch \<Longrightarrow> recent c k \<Longrightarrow> k \<in> owners (bucket_count c) ch' \<and>
      id_in (its_of c') k = id_in (its_of c) k \<and> map (word_data (ws_of c')) (wch k) = map (word_data (ws_of c)) (wch k)"
    using s by (simp add: survive_def t)
qed

lemma Clay__MeasureTextCached_ok:
  assumes "cache_good c" and room: "words_room c str" and i: "i = text_id build str config"
  shows "\<exists>p c'. Clay__MeasureTextCached build F (Some mf) str config c = Some (p, c') \<and> cache_good c' \<and> later i c c' \<and>
    words_grow (2 * int (length (st_chars str)) + 1) c c' \<and>
    (case p of
       None \<Rightarrow> (\<nexists>ds. holds c i ds) \<and> ca_length (tx_items c) = ca_capacity (tx_items c) - 1
     | Some k \<Rightarrow> tx_log c' = tx_log c \<and> entry_of c' i k \<and>
         (if \<exists>ds. holds c i ds then \<forall>ds. holds c i ds \<longrightarrow> entry_holds c' k ds
          else entry_holds c' k (pieces F (width_of mf config) (st_chars str) 0 0 (st_chars str))))"
proof -
  obtain ch wch fi fw where I: "cache_ok c ch wch fi fw" using assms(1) by (auto simp: cache_good_def)
  let ?b = "unat i mod bucket_count c"
  have b: "?b < bucket_count c" by (rule bucket_in_range [OF I])
  have first: "tx_buckets c ! ?b = index_of_first (ch ?b)"
    using items_okD(1) [OF cache_okD(4) [OF I] b] by (cases "ch ?b") simp_all
  obtain r c1 ch1 fi1 fw1 where w: "cache_walk F ?b i (index_before []) (index_of_first (ch ?b)) c = Some (r, c1)" "cache_ok c1 ch1 wch fi1 fw1"
    "walked c c1" "survive c ch c1 ch1" "walk_answers ?b i c (ch ?b) r c1 ch1"
    using cache_walk_ok [OF I b, of "[]" "ch ?b" i F] by auto
  have bc1: "bucket_count c1 = bucket_count c" by (rule walked_buckets [OF w(3)])
  have l1: "later i c c1" by (rule survive_later [OF I w(2-4)])
  have call: "Clay__MeasureTextCached build F (Some mf) str config c = (case r of Inl p \<Rightarrow> Some (p, c1)
      | Inr prev \<Rightarrow> Some (measure_new F mf (st_chars str) config ?b i prev c1))"
    using w(1) first i by (simp add: Clay__MeasureTextCached_def text_id_def Let_def split: sum.split)
  show ?thesis
  proof (cases "List.find (\<lambda>k. id_in (its_of c) k = i) (ch ?b)")
    case (Some k)
    have r: "r = Inl (Some k)" "k \<in> set (ch1 ?b)" using w(5) Some by (simp_all add: walk_answers_def)
    have ids: "id_in (its_of c) k = i" "k \<in> set (ch ?b)" using Some by (auto simp: find_Some_iff)
    have ow: "k \<in> owners (bucket_count c) ch1" "k \<in> owners (bucket_count c) ch" using r(2) ids(2) b by (auto simp: owners_def)
    have "entry_of c1 i k" unfolding entry_of_iff [OF w(2)] bc1 using r(2) w(4) ow(1) ids(1) by (simp add: survive_def)
    moreover have "entry_holds c1 k ds" if h: "holds c i ds" for ds
    proof -
      obtain j where j: "entry_of c i j" "entry_holds c j ds" using h by (auto simp: holds_def)
      then have "j \<in> set (ch ?b)" "id_in (its_of c) j = i" by (simp_all add: entry_of_iff [OF I])
      then have "j = k" using ids items_okD(2) [OF cache_okD(4) [OF I] b] by (auto simp: distinct_map inj_on_def)
      then have "ds = map (word_data (ws_of c)) (wch k)" using j(2) entry_holds_iff [OF I ow(2)] by simp
      then show ?thesis using entry_holds_iff [OF w(2), unfolded bc1, OF ow(1)] w(3) by (simp add: walked_def)
    qed
    ultimately show ?thesis using call r(1) cache_goodI [OF w(2)] w(3) l1 find_in_bucket [OF I, of i] Some
      by (auto simp: walked_def words_grow_def)
  next
    case None
    have r: "r = Inr (index_before (ch1 ?b))" "\<forall>j \<in> set (ch1 ?b). id_in (its_of c1) j \<noteq> i" using w(5) None by (simp_all add: walk_answers_def)
    have nh: "\<nexists>ds. holds c i ds" using find_in_bucket [OF I, of i] None by simp
    have room1: "ca_length (tx_words c1) + 2 * int (length (st_chars str)) < ca_capacity (tx_words c1) - 1" using room w(3) by (simp add: words_room_def walked_def)
    from measure_new_ok [OF w(2) _ r(2) room1, of F mf config, unfolded bc1, OF refl] show ?thesis
    proof (elim disjE exE conjE)
      assume "measure_new F mf (st_chars str) config ?b i (index_before (ch1 ?b)) c1 = (None, exceeded CLAY_ERROR_TYPE_ELEMENTS_CAPACITY_EXCEEDED c1)"
        "ca_length (tx_items c1) = ca_capacity (tx_items c1) - 1"
      then show ?thesis using call r(1) cache_goodI [OF w(2)] w(3) l1 nh by (auto simp: walked_def words_grow_def)
    next
      fix k e wch2 fi2 fw2
      assume m: "measure_new F mf (st_chars str) config ?b i (index_before (ch1 ?b)) c1 = (Some k, e)"
        and E: "cache_ok e (ch1(?b := ch1 ?b @ [k])) wch2 fi2 fw2" and bce: "bucket_count e = bucket_count c" and le: "tx_log e = tx_log c1"
        and wg: "words_grow (2 * int (length (st_chars str)) + 1) c1 e" and k: "k \<notin> owners (bucket_count c) ch1" "id_in (its_of e) k = i"
        and ds: "map (word_data (ws_of e)) (wch2 k) = pieces F (width_of mf config) (st_chars str) 0 0 (st_chars str)"
        and old: "\<forall>j \<in> owners (bucket_count c) ch1. id_in (its_of e) j = id_in (its_of c1) j \<and> map (word_data (ws_of e)) (wch2 j) = map (word_data (ws_of c1)) (wch j)"
      have ow: "owners (bucket_count c) (ch1(?b := ch1 ?b @ [k])) = insert k (owners (bucket_count c) ch1)" by (rule owners_add [OF b])
      have tw: "tx_words c1 = tx_words c" using w(3) by (simp add: walked_def)
      have "later i c e"
      proof (rule laterI [OF I E bce])
        fix j
        assume "j \<in> owners (bucket_count c) (ch1(?b := ch1 ?b @ [k]))" "id_in (its_of e) j \<noteq> i"
        then have "j \<in> owners (bucket_count c) ch1" using k(2) unfolding ow by auto
        then show "j \<in> owners (bucket_count c) ch \<and> id_in (its_of e) j = id_in (its_of c) j \<and> map (word_data (ws_of e)) (wch2 j) = map (word_data (ws_of c)) (wch j)"
          using old w(4) tw by (simp add: survive_def)
      next
        fix j
        assume "j \<in> owners (bucket_count c) ch" "recent c j"
        then have "j \<in> owners (bucket_count c) ch1" using w(4) by (simp add: survive_def)
        then show "j \<in> owners (bucket_count c) (ch1(?b := ch1 ?b @ [k])) \<and> id_in (its_of e) j = id_in (its_of c) j \<and>
            map (word_data (ws_of e)) (wch2 j) = map (word_data (ws_of c)) (wch j)"
          unfolding ow using old w(4) tw by (simp add: survive_def)
      qed
      moreover have "entry_of e i k" unfolding entry_of_iff [OF E] bce using k(2) by simp
      moreover have "entry_holds e k (pieces F (width_of mf config) (st_chars str) 0 0 (st_chars str))"
        using entry_holds_iff [OF E, unfolded bce ow, of k] ds by simp
      ultimately show ?thesis using call r(1) m cache_goodI [OF E] nh le w(3) wg by (auto simp: walked_def words_grow_def)
    qed
  qed
qed

section \<open>Caches that come to be\<close>

text \<open>The cache as \<open>Clay_Initialize\<close> leaves it, whatever the memory held.\<close>

definition empty_cache ::
    "'f measured_word list \<Rightarrow> 'f measured_word \<Rightarrow> int list \<Rightarrow> 'f cache_item list \<Rightarrow> 'f cache_item \<Rightarrow> int list \<Rightarrow> int \<Rightarrow> 'f text_cache" where
  "empty_cache ws wd wfree its itd ifree maxWords = \<lparr>tx_words = \<lparr>ca_length = 0, ca_cells = ws\<rparr>, tx_dfltWord = wd, tx_wordsFree = \<lparr>ca_length = 0, ca_cells = wfree\<rparr>,
     tx_items = \<lparr>ca_length = 1, ca_cells = its\<rparr>, tx_dfltItem = itd, tx_itemsFree = \<lparr>ca_length = 0, ca_cells = ifree\<rparr>,
     tx_buckets = replicate (length its) 0, tx_maxWords = maxWords, tx_generation = 0, tx_notSet = False, tx_exceeded = False, tx_log = []\<rparr>"

text \<open>
  It is made, a text is measured, a frame begins (\<open>Clay_BeginLayout\<close>), the cache is reset. There are buckets, and no more of
  them than places for them; a text is measured only while there is room for its words.
\<close>

inductive text_reached :: "'f text_cache \<Rightarrow> bool" where
  made: "length ws \<le> length wfree \<Longrightarrow> length its \<le> length ifree \<Longrightarrow> 2 \<le> length its \<Longrightarrow> 32 \<le> maxWords \<Longrightarrow> nat (maxWords div 32) \<le> length its \<Longrightarrow>
    text_reached (empty_cache ws wd wfree its itd ifree maxWords)"
| measured: "text_reached c \<Longrightarrow> words_room c str \<Longrightarrow> Clay__MeasureTextCached build F (Some mf) str config c = Some (p, c') \<Longrightarrow> text_reached c'"
| unset: "text_reached c \<Longrightarrow> Clay__MeasureTextCached build F None str config c = Some (p, c') \<Longrightarrow> text_reached c'"
| frame: "text_reached c \<Longrightarrow> text_reached (c\<lparr>tx_generation := tx_generation c + 1, tx_notSet := False, tx_exceeded := False\<rparr>)"
| reset: "text_reached c \<Longrightarrow> text_reached (Clay_ResetMeasureTextCache c)"

lemma cache_good_flags [simp]: "cache_good (c\<lparr>tx_generation := g, tx_notSet := n, tx_exceeded := x\<rparr>) \<longleftrightarrow> cache_good c"
  "cache_good (c\<lparr>tx_notSet := n, tx_log := l\<rparr>) \<longleftrightarrow> cache_good c"
  by (simp_all add: cache_good_def cache_ok_def cache_shape_def bucket_count_def)

text \<open>Without entries in its buckets a cache is good.\<close>

lemma cache_ok_empty:
  assumes "cache_shape c" and "ca_length (tx_itemsFree c) = 0" "ca_length (tx_wordsFree c) = 0" and "0 < bucket_count c" "bucket_count c \<le> length (tx_buckets c)"
    and "\<And>b. b < bucket_count c \<Longrightarrow> tx_buckets c ! b = 0"
  shows "cache_ok c (\<lambda>_. []) wch [] []"
  using assms by (auto simp: cache_ok_def items_ok_def words_ok_def owners_def values_of_def)

lemma text_reached_good: "text_reached c \<Longrightarrow> cache_good c"
proof (induction rule: text_reached.induct)
  case (made ws wfree its ifree maxWords wd itd)
  have "cache_ok (empty_cache ws wd wfree its itd ifree maxWords) (\<lambda>_. []) (\<lambda>_. []) [] []"
    by (rule cache_ok_empty) (use made in \<open>auto simp: empty_cache_def cache_shape_def array_ok_def bucket_count_def\<close>)
  then show ?case by (rule cache_goodI)
next
  case (measured c str build F mf config p c')
  then show ?case using Clay__MeasureTextCached_ok [OF measured.IH measured.hyps(2) refl, of build F mf config] by auto
next
  case (unset c build F str config p c')
  then show ?case by (auto simp: Clay__MeasureTextCached_def split: if_splits)
next
  case (frame c)
  then show ?case by simp
next
  case (reset c)
  then obtain ch wch fi fw where I: "cache_ok c ch wch fi fw" by (auto simp: cache_good_def)
  have "cache_ok (Clay_ResetMeasureTextCache c) (\<lambda>_. []) (\<lambda>_. []) [] []"
    by (rule cache_ok_empty) (use I in \<open>auto simp: Clay_ResetMeasureTextCache_def cache_ok_def items_ok_def cache_shape_def array_ok_def bucket_count_def\<close>)
  then show ?case by (rule cache_goodI)
qed

end
