(* ===== verification/Clay_Build.thy ===== *)
theory Clay_Build
  imports Clay_Tree Clay_Text_Measure
begin

text \<open>
  That the calls of the layout library which declare a layout do to the tree of elements what the view of it says, as long as there
  is room: so every user interface gets its tree.
\<close>

section \<open>The view of a context\<close>

definition node_of :: "'f layout_element \<Rightarrow> node" where
  "node_of e = \<lparr>nd_at = (case ln_content e of CHILDREN k \<Rightarrow> Some k | _ \<Rightarrow> None), nd_count = ln_count e, nd_first = ln_configs e,
     nd_kinds = ln_configCount e, nd_bare = (ln_layoutConfig e = LC_NULL)\<rparr>"

definition view_of :: "('f, 'h) clay_context \<Rightarrow> tree_view" where
  "view_of s = \<lparr>tv_nodes = map node_of (values_of (cx_elements s)), tv_stack = values_of (cx_stack s), tv_children = values_of (cx_children s),
     tv_buffer = values_of (cx_buffer s), tv_clips = ca_length (cx_clipStack s), tv_kinds = map type_of (values_of (cx_configs s))\<rparr>"

definition limits_in :: "('f, 'h) clay_context \<Rightarrow> tree_limits" where
  "limits_in s = \<lparr>tl_elements = ca_capacity (cx_elements s), tl_stack = ca_capacity (cx_stack s), tl_children = ca_capacity (cx_children s),
     tl_buffer = ca_capacity (cx_buffer s), tl_clips = ca_capacity (cx_clipStack s), tl_kinds = ca_capacity (cx_configs s)\<rparr>"

definition arrays_ok :: "('f, 'h) clay_context \<Rightarrow> bool" where
  "arrays_ok s \<longleftrightarrow> array_ok (cx_elements s) \<and> array_ok (cx_stack s) \<and> array_ok (cx_children s) \<and> array_ok (cx_buffer s) \<and>
     array_ok (cx_clipStack s) \<and> array_ok (cx_configs s)"

definition spare_words :: "nat \<Rightarrow> 'f text_cache \<Rightarrow> bool" where
  "spare_words b c \<longleftrightarrow> ca_length (tx_words c) + int b < ca_capacity (tx_words c) - 1"

definition building :: "'f host \<Rightarrow> nat \<Rightarrow> ('f, 'h) clay_context \<Rightarrow> bool" where
  "building H b s \<longleftrightarrow> arrays_ok s \<and> map_ok (cx_map s) \<and> cache_good (cx_text s) \<and> spare_words b (cx_text s) \<and> \<not> cx_maxExceeded s \<and>
     (cx_external s \<longrightarrow> ho_query H \<noteq> None)"

text \<open>What a call comes to.\<close>

definition makes :: "'f host \<Rightarrow> nat \<Rightarrow> ('f, 'h) clay_context \<Rightarrow> tree_view \<Rightarrow> ('f, 'h) clay_context \<Rightarrow> bool" where
  "makes H b s v s' \<longleftrightarrow> building H b s' \<and> limits_in s' = limits_in s \<and> view_of s' = v"

lemma makes_trans: "makes H b s v s' \<Longrightarrow> makes H b s' w s'' \<Longrightarrow> makes H b s w s''"
  by (simp add: makes_def)

section \<open>Calls that change nothing of it\<close>

definition quiet :: "('f, 'h) clay_context \<Rightarrow> ('f, 'h) clay_context \<Rightarrow> bool" where
  "quiet s s' \<longleftrightarrow> cx_elements s' = cx_elements s \<and> cx_stack s' = cx_stack s \<and> cx_children s' = cx_children s \<and> cx_buffer s' = cx_buffer s \<and>
     cx_clipStack s' = cx_clipStack s \<and> cx_configs s' = cx_configs s \<and> cx_map s' = cx_map s \<and> cx_text s' = cx_text s \<and>
     cx_maxExceeded s' = cx_maxExceeded s \<and> cx_external s' = cx_external s"

lemma quiet_refl [simp]: "quiet s s" and quiet_trans: "quiet s t \<Longrightarrow> quiet t u \<Longrightarrow> quiet s u"
  by (simp_all add: quiet_def)

lemma quiet_view: "quiet s s' \<Longrightarrow> view_of s' = view_of s \<and> limits_in s' = limits_in s \<and> building H b s' = building H b s"
  by (simp add: quiet_def view_of_def limits_in_def building_def arrays_ok_def)

lemma quiet_makes: "building H b s \<Longrightarrow> quiet s s' \<Longrightarrow> makes H b s (view_of s) s'"
  using quiet_view [of s s' H b] by (simp add: makes_def)

lemma makes_quiet: "makes H b s v s' \<Longrightarrow> quiet s' s'' \<Longrightarrow> makes H b s v s''"
  using quiet_view [of s' s'' H b] by (simp add: makes_def)

lemma quiet_adds:
  "quiet s (snd (add_in cx_layoutConfigs cx_layoutConfigs_update x1 s))" "quiet s (snd (add_in cx_shared cx_shared_update x2 s))"
  "quiet s (snd (add_in cx_aspects cx_aspects_update x3 s))" "quiet s (snd (add_in cx_images cx_images_update x4 s))"
  "quiet s (snd (add_in cx_floatings cx_floatings_update x5 s))" "quiet s (snd (add_in cx_customs cx_customs_update x6 s))"
  "quiet s (snd (add_in cx_clips cx_clips_update x7 s))" "quiet s (snd (add_in cx_borders cx_borders_update x8 s))"
  "quiet s (snd (add_in cx_idStrings cx_idStrings_update x9 s))" "quiet s (snd (add_in cx_textData cx_textData_update x10 s))"
  "quiet s (snd (add_in cx_aspectIndexes cx_aspectIndexes_update x11 s))" "quiet s (snd (add_in cx_roots cx_roots_update x12 s))"
  "quiet s (snd (add_in cx_scrolls cx_scrolls_update x13 s))"
  by (simp_all add: quiet_def add_in_def split: prod.split)

lemma quiet_sets:
  "quiet s (set_in cx_clipIds cx_clipIds_update i x1 s)" "quiet s (set_in cx_idStrings cx_idStrings_update i x2 s)"
  by (simp_all add: quiet_def set_in_def split: prod.split)

lemma quiet_gets: "quiet s (snd (value_in fld i s))" "quiet s (snd (get_element i s))" "quiet s (log_error e s)"
  by (simp_all add: quiet_def value_in_def get_element_def log_error_def split: prod.split)

lemma quiet_parent: "quiet s (snd (parent_element s))"
proof -
  obtain i s1 where i: "value_in cx_stack (ca_length (cx_stack s) - 2) s = (i, s1)" by fastforce
  have "quiet s s1" using quiet_gets(1) [of s cx_stack "ca_length (cx_stack s) - 2"] i by simp
  then show ?thesis using quiet_trans quiet_gets(2) by (fastforce simp: parent_element_def i)
qed

lemma quiet_puts: "quiet s (put_shared p g s)" "quiet s (put_scroll p h s)" "quiet s (put_layout l c s)"
  by (simp_all add: quiet_def put_shared_def put_scroll_def put_layout_def split: option.split layout_ptr.split)

lemma quiet_stores:
  "quiet s (snd (Clay__StoreLayoutConfig x1 s))" "quiet s (snd (Clay__StoreSharedElementConfig x2 s))" "quiet s (snd (Clay__StoreAspectRatioElementConfig x3 s))"
  "quiet s (snd (Clay__StoreImageElementConfig x4 s))" "quiet s (snd (Clay__StoreFloatingElementConfig x5 s))" "quiet s (snd (Clay__StoreCustomElementConfig x6 s))"
  "quiet s (snd (Clay__StoreClipElementConfig x7 s))" "quiet s (snd (Clay__StoreBorderElementConfig x8 s))"
proof -
  show "quiet s (snd (Clay__StoreLayoutConfig x1 s))"
    using quiet_adds(1) [of s x1] by (auto simp: Clay__StoreLayoutConfig_def split: prod.split option.split)
qed (simp_all add: Clay__StoreSharedElementConfig_def Clay__StoreAspectRatioElementConfig_def Clay__StoreImageElementConfig_def Clay__StoreFloatingElementConfig_def
    Clay__StoreCustomElementConfig_def Clay__StoreClipElementConfig_def Clay__StoreBorderElementConfig_def store_in_def quiet_adds)

lemma quiet_inherit: "quiet s (inherit_clip s)"
proof -
  obtain v s1 where v: "value_in cx_clipStack (ca_length (cx_clipStack s) - 1) s = (v, s1)" by fastforce
  have "quiet s s1" using quiet_gets(1) [of s cx_clipStack "ca_length (cx_clipStack s) - 1"] v by simp
  then show ?thesis using quiet_trans quiet_sets(1) by (fastforce simp: inherit_clip_def v)
qed

section \<open>Elements\<close>

lemma building_length:
  "building H b s \<Longrightarrow> length (tv_nodes (view_of s)) = nat (ca_length (cx_elements s)) \<and> length (tv_stack (view_of s)) = nat (ca_length (cx_stack s)) \<and>
     length (tv_children (view_of s)) = nat (ca_length (cx_children s)) \<and> length (tv_buffer (view_of s)) = nat (ca_length (cx_buffer s)) \<and>
     length (tv_kinds (view_of s)) = nat (ca_length (cx_configs s))"
  by (simp add: view_of_def building_def arrays_ok_def length_values_of)

lemma array_okD: "array_ok a \<Longrightarrow> 0 \<le> ca_length a \<and> ca_length a \<le> ca_capacity a"
  by (simp add: array_ok_def)

lemma last_value: "array_ok a \<Longrightarrow> values_of a \<noteq> [] \<Longrightarrow> 0 < ca_length a \<and> ca_cells a ! nat (ca_length a - 1) = last (values_of a)"
  using length_values_of [of a] values_of_nth [of a "nat (ca_length a - 1)"]
  by (cases "ca_length a = 0") (auto simp: array_ok_def last_conv_nth nat_diff_distrib)

lemma open_element:
  assumes "building H b s" and "stack_ok (view_of s)"
  shows "Clay__GetOpenLayoutElement s = (Some (tv_top (view_of s)), s)"
proof -
  have a: "array_ok (cx_stack s)" "array_ok (cx_elements s)" using assms(1) by (simp_all add: building_def arrays_ok_def)
  have n: "tv_stack (view_of s) = values_of (cx_stack s)" by (simp add: view_of_def)
  then have "values_of (cx_stack s) \<noteq> []" using assms(2) by (simp add: stack_ok_def)
  then have l: "0 < ca_length (cx_stack s)" "ca_cells (cx_stack s) ! nat (ca_length (cx_stack s) - 1) = int (tv_top (view_of s))"
    using last_value [OF a(1)] stack_ok_top [OF assms(2)] n by auto
  have "int (tv_top (view_of s)) < ca_length (cx_elements s)" using stack_ok_top [OF assms(2)] building_length [OF assms(1)] array_okD [OF a(2)] by linarith
  then show ?thesis using l by (simp add: Clay__GetOpenLayoutElement_def value_in_def get_element_def Array_GetValue_in Array_Get_in)
qed

lemma put_element_makes:
  assumes "building H b s" and "k < length (tv_nodes (view_of s))" and "\<And>e. node_of (g e) = h (node_of e)"
  shows "makes H b s (upd_node k h (view_of s)) (put_element (Some k) g s)"
proof -
  have a: "array_ok (cx_elements s)" and k: "k < nat (ca_length (cx_elements s))"
    using assms(1,2) building_length [OF assms(1)] by (simp_all add: building_def arrays_ok_def)
  have "ca_cells (cx_elements s) ! k = values_of (cx_elements s) ! k" by (rule values_of_nth [OF a k, symmetric])
  moreover have "k < length (values_of (cx_elements s))" using k length_values_of [OF a] by simp
  ultimately show ?thesis using assms(1,3)
    by (simp add: makes_def put_element_def view_of_def limits_in_def building_def arrays_ok_def array_ok_update values_of_update upd_node_def map_update)
qed

lemma upd_node_id [simp]: "upd_node k (\<lambda>n. n) v = v"
  by (simp add: upd_node_def)

section \<open>Growing arrays\<close>

lemma array_add:
  assumes "array_ok a" and "int (length (values_of a)) < ca_capacity a"
  shows "\<exists>a'. Array_Add a x E = (Some (length (values_of a)), a', E) \<and> array_ok a' \<and> values_of a' = values_of a @ [x] \<and>
    ca_length a' = ca_length a + 1 \<and> ca_capacity a' = ca_capacity a"
  using Array_Add_ok [OF assms(1), of x E] assms(2) array_okD [OF assms(1)] length_values_of [OF assms(1)] by auto

lemma add_config:
  assumes "building H b s" and "int (length (tv_kinds (view_of s))) < tl_kinds (limits_in s)"
  shows "fst (add_in cx_configs cx_configs_update c s) = Some (length (tv_kinds (view_of s))) \<and>
      makes H b s ((view_of s)\<lparr>tv_kinds := tv_kinds (view_of s) @ [type_of c]\<rparr>) (snd (add_in cx_configs cx_configs_update c s))"
proof -
  have "array_ok (cx_configs s)" "int (length (values_of (cx_configs s))) < ca_capacity (cx_configs s)"
    using assms by (simp_all add: building_def arrays_ok_def view_of_def limits_in_def)
  from array_add [OF this, of c "cx_log s"] obtain a where "Array_Add (cx_configs s) c (cx_log s) = (Some (length (values_of (cx_configs s))), a, cx_log s)" "array_ok a"
    "values_of a = values_of (cx_configs s) @ [c]" "ca_length a = ca_length (cx_configs s) + 1" "ca_capacity a = ca_capacity (cx_configs s)" by blast
  then show ?thesis using assms(1) by (simp add: makes_def building_def arrays_ok_def add_in_def view_of_def limits_in_def)
qed

lemma add_element:
  assumes "building H b s" and "int (length (tv_nodes (view_of s))) < tl_elements (limits_in s)"
  shows "fst (add_in cx_elements cx_elements_update e s) = Some (length (tv_nodes (view_of s))) \<and>
      makes H b s ((view_of s)\<lparr>tv_nodes := tv_nodes (view_of s) @ [node_of e]\<rparr>) (snd (add_in cx_elements cx_elements_update e s))"
proof -
  have "array_ok (cx_elements s)" "int (length (values_of (cx_elements s))) < ca_capacity (cx_elements s)"
    using assms by (simp_all add: building_def arrays_ok_def view_of_def limits_in_def)
  from array_add [OF this, of e "cx_log s"] obtain a where "Array_Add (cx_elements s) e (cx_log s) = (Some (length (values_of (cx_elements s))), a, cx_log s)" "array_ok a"
    "values_of a = values_of (cx_elements s) @ [e]" "ca_length a = ca_length (cx_elements s) + 1" "ca_capacity a = ca_capacity (cx_elements s)" by blast
  then show ?thesis using assms(1) by (simp add: makes_def building_def arrays_ok_def add_in_def view_of_def limits_in_def)
qed

lemma add_stack:
  assumes "building H b s" and "int (length (tv_stack (view_of s))) < tl_stack (limits_in s)"
  shows "makes H b s ((view_of s)\<lparr>tv_stack := tv_stack (view_of s) @ [i]\<rparr>) (snd (add_in cx_stack cx_stack_update i s))"
proof -
  have "array_ok (cx_stack s)" "int (length (values_of (cx_stack s))) < ca_capacity (cx_stack s)"
    using assms by (simp_all add: building_def arrays_ok_def view_of_def limits_in_def)
  from array_add [OF this, of i "cx_log s"] obtain a where "Array_Add (cx_stack s) i (cx_log s) = (Some (length (values_of (cx_stack s))), a, cx_log s)" "array_ok a"
    "values_of a = values_of (cx_stack s) @ [i]" "ca_length a = ca_length (cx_stack s) + 1" "ca_capacity a = ca_capacity (cx_stack s)" by blast
  then show ?thesis using assms(1) by (simp add: makes_def building_def arrays_ok_def add_in_def view_of_def limits_in_def)
qed

lemma add_children:
  assumes "building H b s" and "int (length (tv_children (view_of s))) < tl_children (limits_in s)"
  shows "makes H b s ((view_of s)\<lparr>tv_children := tv_children (view_of s) @ [i]\<rparr>) (snd (add_in cx_children cx_children_update i s))"
proof -
  have "array_ok (cx_children s)" "int (length (values_of (cx_children s))) < ca_capacity (cx_children s)"
    using assms by (simp_all add: building_def arrays_ok_def view_of_def limits_in_def)
  from array_add [OF this, of i "cx_log s"] obtain a where "Array_Add (cx_children s) i (cx_log s) = (Some (length (values_of (cx_children s))), a, cx_log s)" "array_ok a"
    "values_of a = values_of (cx_children s) @ [i]" "ca_length a = ca_length (cx_children s) + 1" "ca_capacity a = ca_capacity (cx_children s)" by blast
  then show ?thesis using assms(1) by (simp add: makes_def building_def arrays_ok_def add_in_def view_of_def limits_in_def)
qed

lemma add_buffer:
  assumes "building H b s" and "int (length (tv_buffer (view_of s))) < tl_buffer (limits_in s)"
  shows "makes H b s ((view_of s)\<lparr>tv_buffer := tv_buffer (view_of s) @ [i]\<rparr>) (snd (add_in cx_buffer cx_buffer_update i s))"
proof -
  have "array_ok (cx_buffer s)" "int (length (values_of (cx_buffer s))) < ca_capacity (cx_buffer s)"
    using assms by (simp_all add: building_def arrays_ok_def view_of_def limits_in_def)
  from array_add [OF this, of i "cx_log s"] obtain a where "Array_Add (cx_buffer s) i (cx_log s) = (Some (length (values_of (cx_buffer s))), a, cx_log s)" "array_ok a"
    "values_of a = values_of (cx_buffer s) @ [i]" "ca_length a = ca_length (cx_buffer s) + 1" "ca_capacity a = ca_capacity (cx_buffer s)" by blast
  then show ?thesis using assms(1) by (simp add: makes_def building_def arrays_ok_def add_in_def view_of_def limits_in_def)
qed

lemma add_clip:
  assumes "building H b s" and "tv_clips (view_of s) < tl_clips (limits_in s)"
  shows "makes H b s ((view_of s)\<lparr>tv_clips := tv_clips (view_of s) + 1\<rparr>) (snd (add_in cx_clipStack cx_clipStack_update i s))"
proof -
  have "array_ok (cx_clipStack s)" "int (length (values_of (cx_clipStack s))) < ca_capacity (cx_clipStack s)"
    using assms  by (simp_all add: building_def arrays_ok_def view_of_def limits_in_def length_values_of array_ok_def)
  from array_add [OF this, of i "cx_log s"] obtain a where "Array_Add (cx_clipStack s) i (cx_log s) = (Some (length (values_of (cx_clipStack s))), a, cx_log s)" "array_ok a"
    "values_of a = values_of (cx_clipStack s) @ [i]" "ca_length a = ca_length (cx_clipStack s) + 1" "ca_capacity a = ca_capacity (cx_clipStack s)" by blast
  then show ?thesis using assms(1) by (simp add: makes_def building_def arrays_ok_def add_in_def view_of_def limits_in_def)
qed

lemma makes_building: "makes H b s v s' \<Longrightarrow> building H b s'" and makes_view: "makes H b s v s' \<Longrightarrow> view_of s' = v"
  and makes_limits: "makes H b s v s' \<Longrightarrow> limits_in s' = limits_in s"
  by (simp_all add: makes_def)

section \<open>Opening\<close>

lemma node_of_zero: "node_of (zero_element F) = new_node"
  by (simp add: node_of_def zero_element_def new_node_def)

lemma elements_not_full:
  assumes "building H b s" and "int (length (tv_nodes (view_of s))) + 1 < tl_elements (limits_in s)"
  shows "\<not> elements_full s" "int (length (tv_nodes (view_of s))) < tl_elements (limits_in s)"
proof -
  have "0 \<le> ca_length (cx_elements s)" "\<not> cx_maxExceeded s" using assms(1) by (auto simp: building_def arrays_ok_def array_ok_def)
  then show "\<not> elements_full s" using assms(2) building_length [OF assms(1)] by (auto simp: elements_full_def limits_in_def)
  show "int (length (tv_nodes (view_of s))) < tl_elements (limits_in s)" using assms(2) by simp
qed

lemma element_count: "building H b s \<Longrightarrow> ca_length (cx_elements s) = int (length (tv_nodes (view_of s)))"
  using building_length [of H b s] by (simp add: building_def arrays_ok_def array_ok_def)

lemma Clay__OpenElement_makes:
  assumes "building H b s" and "can_open (limits_in s) (view_of s)"
  shows "makes H b s (tv_open (view_of s)) (Clay__OpenElement H s)"
proof -
  define s1 where "s1 = snd (add_in cx_elements cx_elements_update (zero_element (ho_f32 H)) s)"
  have r: "int (length (tv_nodes (view_of s))) + 1 < tl_elements (limits_in s)" "int (length (tv_stack (view_of s))) < tl_stack (limits_in s)"
    using assms(2) by (simp_all add: can_open_def)
  have m1: "makes H b s ((view_of s)\<lparr>tv_nodes := tv_nodes (view_of s) @ [new_node]\<rparr>) s1"
    using add_element [OF assms(1), where e = "zero_element (ho_f32 H)"] elements_not_full(2) [OF assms(1) r(1)] by (simp add: s1_def node_of_zero)
  note b1 = makes_building [OF m1]
  have "ca_length (cx_elements s1) - 1 = int (length (tv_nodes (view_of s)))" using element_count [OF b1] makes_view [OF m1] by simp
  then have "makes H b s1 (tv_open (view_of s)) (snd (add_in cx_stack cx_stack_update (ca_length (cx_elements s1) - 1) s1))"
    using add_stack [OF b1, where i = "ca_length (cx_elements s1) - 1"] r(2) makes_view [OF m1] makes_limits [OF m1] by (simp add: tv_open_def)
  then show ?thesis using makes_trans [OF m1] makes_quiet quiet_inherit elements_not_full(1) [OF assms(1) r(1)]
    by (simp add: Clay__OpenElement_def s1_def [symmetric] Let_def) blast
qed

section \<open>Configuring\<close>

lemma tv_attach_simps [simp]:
  "tv_stack (tv_attach ks v) = tv_stack v" "tv_clips (tv_attach ks v) = tv_clips v" "tv_kinds (tv_attach ks v) = tv_kinds v @ ks"
  "length (tv_nodes (tv_attach ks v)) = length (tv_nodes v)" "tv_top (tv_attach ks v) = tv_top v"
  by (simp_all add: tv_attach_def tv_top_def)

lemma tv_attach_append: "stack_ok v \<Longrightarrow> tv_attach ls (tv_attach ks v) = tv_attach (ks @ ls) v"
  using stack_ok_top [of v] by (simp add: tv_attach_def tv_top_def upd_node_def add.assoc)

lemma tv_attach_none: "tv_attach [] v = v"
  by (simp add: tv_attach_def upd_node_def)

lemma tv_attach_clips: "(tv_attach ks v)\<lparr>tv_clips := tv_clips v\<rparr> = tv_attach ks v"
  by (rule tree_view.equality) (simp_all add: tv_attach_def)

lemma stack_ok_attach [simp]: "stack_ok (tv_attach ks v) = stack_ok v"
  by (simp add: stack_ok_def)

text \<open>A stage of the configuration attaches configurations of the types \<open>ks\<close> and opens clip elements.\<close>

definition attaches :: "'f host \<Rightarrow> nat \<Rightarrow> config_type list \<Rightarrow> int \<Rightarrow> ('f, 'h) clay_context \<Rightarrow> ('f, 'h) clay_context \<Rightarrow> bool" where
  "attaches H b ks c s s' \<longleftrightarrow> makes H b s ((tv_attach ks (view_of s))\<lparr>tv_clips := tv_clips (view_of s) + c\<rparr>) s'"

lemma attaches_quiet: "building H b s \<Longrightarrow> quiet s s' \<Longrightarrow> attaches H b [] 0 s s'"
  using quiet_makes [of H b s s'] by (simp add: attaches_def tv_attach_none)

lemma attaches_trans: "attaches H b ks c s t \<Longrightarrow> attaches H b ls d t u \<Longrightarrow> stack_ok (view_of s) \<Longrightarrow> attaches H b (ks @ ls) (c + d) s u"
proof -
  assume st: "attaches H b ks c s t" "attaches H b ls d t u" "stack_ok (view_of s)"
  have v: "view_of t = (tv_attach ks (view_of s))\<lparr>tv_clips := tv_clips (view_of s) + c\<rparr>" using st(1) by (simp add: attaches_def makes_def)
  have "tv_attach ls (view_of t) = (tv_attach (ks @ ls) (view_of s))\<lparr>tv_clips := tv_clips (view_of s) + c\<rparr>"
    unfolding tv_attach_append [OF st(3), symmetric] v by (simp add: tv_attach_def tv_top_def upd_node_def)
  then show ?thesis using makes_trans st(1,2) v unfolding attaches_def by (fastforce simp: add.assoc)
qed

lemma attachesD:
  "attaches H b ks c s s' \<Longrightarrow> building H b s' \<and> limits_in s' = limits_in s \<and> tv_top (view_of s') = tv_top (view_of s) \<and>
    stack_ok (view_of s') = stack_ok (view_of s) \<and> tv_clips (view_of s') = tv_clips (view_of s) + c \<and>
    length (tv_kinds (view_of s')) = length (tv_kinds (view_of s)) + length ks \<and> length (tv_nodes (view_of s')) = length (tv_nodes (view_of s))"
  by (auto simp: attaches_def makes_def tv_top_def stack_ok_def)

lemma Clay__AttachElementConfig_attaches:
  assumes "building H b s" and "stack_ok (view_of s)" and "int (length (tv_kinds (view_of s))) < tl_kinds (limits_in s)"
  shows "attaches H b [type_of c] 0 s (Clay__AttachElementConfig c s)"
proof -
  let ?g = "\<lambda>e. e\<lparr>ln_configCount := ln_configCount e + 1\<rparr>" and ?h = "\<lambda>n. n\<lparr>nd_kinds := nd_kinds n + 1\<rparr>"
  have m: "makes H b s (upd_node (tv_top (view_of s)) ?h (view_of s)) (put_element (Some (tv_top (view_of s))) ?g s)"
    using stack_ok_top [OF assms(2)] by (intro put_element_makes [OF assms(1)]) (simp_all add: node_of_def)
  have "makes H b s (tv_attach [type_of c] (view_of s)) (Clay__AttachElementConfig c s)"
    using add_config [OF makes_building [OF m], where c = c] makes_view [OF m] makes_limits [OF m] assms makes_trans [OF m] open_element [OF assms(1,2)]
    by (simp add: Clay__AttachElementConfig_def tv_attach_def building_def)
  then show ?thesis by (simp add: attaches_def tv_attach_clips)
qed

text \<open>The stages of the configuration, one after the other.\<close>

lemma attaches_clip:
  assumes "building H b s" and "tv_clips (view_of s) < tl_clips (limits_in s)"
  shows "attaches H b [] 1 s (snd (add_in cx_clipStack cx_clipStack_update i s))"
  using add_clip [OF assms, of i] by (simp add: attaches_def tv_attach_none)

lemma attaches_more: "attaches H b ks c s t \<Longrightarrow> stack_ok (view_of s) \<Longrightarrow> quiet t u \<Longrightarrow> attaches H b ks c s u"
  using attaches_trans [of H b ks c s t "[]" 0 u] attaches_quiet [of H b t u] attachesD [of H b ks c s t] by simp

lemma upd_node_twice: "k < length (tv_nodes v) \<Longrightarrow> upd_node k g (upd_node k h v) = upd_node k (\<lambda>n. g (h n)) v"
  by (simp add: upd_node_def)

lemma configure_layout_makes:
  assumes "building H b s" and "stack_ok (view_of s)"
  shows "fst (configure_layout H d s) = Some (tv_top (view_of s)) \<and> makes H b s (tv_layout (view_of s)) (snd (configure_layout H d s))"
proof -
  let ?v = "view_of s" and ?k = "tv_top (view_of s)"
  obtain l s1 where l: "Clay__StoreLayoutConfig (dc_layout d) s = (l, s1)" by fastforce
  have q: "quiet s s1" using quiet_stores(1) [of s "dc_layout d"] l by simp
  have ln: "l \<noteq> LC_NULL" using l by (auto simp: Clay__StoreLayoutConfig_def split: if_splits prod.splits option.splits)
  note k = stack_ok_top [OF assms(2)]
  have v1: "view_of s1 = ?v" "building H b s1" "limits_in s1 = limits_in s" using quiet_view [OF q, of H b] assms(1) by simp_all
  define s2 where "s2 = put_element (Some ?k) (\<lambda>e. e\<lparr>ln_layoutConfig := l\<rparr>) s1"
  have m2: "makes H b s1 (upd_node ?k (\<lambda>n. n\<lparr>nd_bare := False\<rparr>) ?v) s2"
    unfolding s2_def v1(1) [symmetric] using k ln v1(1) by (intro put_element_makes [OF v1(2)]) (simp_all add: node_of_def)
  define s3 where "s3 = (if over_1 (ho_f32 H) (lc_width (dc_layout d)) \<or> over_1 (ho_f32 H) (lc_height (dc_layout d))
      then log_error CLAY_ERROR_TYPE_PERCENTAGE_OVER_1 s2 else s2)"
  have m3: "makes H b s1 (upd_node ?k (\<lambda>n. n\<lparr>nd_bare := False\<rparr>) ?v) s3" using m2 makes_quiet [OF m2 quiet_gets(3)] by (simp add: s3_def)
  note b3 = makes_building [OF m3] and v3 = makes_view [OF m3]
  have c: "nat (ca_length (cx_configs s3)) = length (tv_kinds ?v)" using building_length [OF b3] v3 by simp
  have "makes H b s3 (upd_node ?k (\<lambda>n. n\<lparr>nd_first := Some (length (tv_kinds ?v))\<rparr>) (view_of s3)) (put_element (Some ?k) (\<lambda>e. e\<lparr>ln_configs := Some (nat (ca_length (cx_configs s3)))\<rparr>) s3)"
    using k v3 by (intro put_element_makes [OF b3]) (simp_all add: node_of_def c)
  moreover have "upd_node ?k (\<lambda>n. n\<lparr>nd_first := Some (length (tv_kinds ?v))\<rparr>) (view_of s3) = tv_layout ?v"
    using k by (simp add: v3 upd_node_twice tv_layout_def)
  ultimately have "makes H b s (tv_layout ?v) (put_element (Some ?k) (\<lambda>e. e\<lparr>ln_configs := Some (nat (ca_length (cx_configs s3)))\<rparr>) s3)"
    using m3 v1(3) by (simp add: makes_def)
  moreover have "configure_layout H d s = (Some ?k, put_element (Some ?k) (\<lambda>e. e\<lparr>ln_configs := Some (nat (ca_length (cx_configs s3)))\<rparr>) s3)"
    unfolding s3_def s2_def using open_element [OF assms] l by (simp add: configure_layout_def Let_def)
  ultimately show ?thesis by simp
qed

definition opt_kind :: "bool \<Rightarrow> config_type \<Rightarrow> config_type list" where
  "opt_kind c t = (if c then [t] else [])"

lemma share_attaches:
  assumes "building H b s" and "stack_ok (view_of s)" and "wanted \<Longrightarrow> sh = None \<Longrightarrow> int (length (tv_kinds (view_of s))) < tl_kinds (limits_in s)"
  shows "\<exists>sh' s'. share H wanted g (sh, s) = (sh', s') \<and> (sh' = None \<longleftrightarrow> sh = None \<and> \<not> wanted) \<and>
    attaches H b (opt_kind (wanted \<and> sh = None) CLAY__ELEMENT_CONFIG_TYPE_SHARED) 0 s s'"
proof (cases "wanted \<and> sh = None")
  case True
  obtain p s1 where p: "Clay__StoreSharedElementConfig (g (zero_shared (ho_f32 H))) s = (p, s1)" by fastforce
  have q: "quiet s s1" using quiet_stores(2) [of s "g (zero_shared (ho_f32 H))"] p by simp
  have "attaches H b [type_of (EC_SHARED p)] 0 s1 (Clay__AttachElementConfig (EC_SHARED p) s1)"
    using quiet_view [OF q, of H b] assms True by (intro Clay__AttachElementConfig_attaches) auto
  then show ?thesis using True p attaches_trans [OF attaches_quiet [OF assms(1) q] _ assms(2)] by (fastforce simp: share_def opt_kind_def)
next
  case False
  then show ?thesis using attaches_quiet [OF assms(1)] quiet_puts(1) by (cases sh) (auto simp: share_def opt_kind_def)
qed

lemma configure_shared_attaches:
  assumes "building H b s" and "stack_ok (view_of s)"
    and "int (length (tv_kinds (view_of s))) + int (length (opt_kind (has_colour H d \<or> has_corners H d \<or> dc_userData d \<noteq> 0) CLAY__ELEMENT_CONFIG_TYPE_SHARED)) \<le> tl_kinds (limits_in s)"
  shows "attaches H b (opt_kind (has_colour H d \<or> has_corners H d \<or> dc_userData d \<noteq> 0) CLAY__ELEMENT_CONFIG_TYPE_SHARED) 0 s (configure_shared H d s)"
proof -
  have room: "int (length (tv_kinds (view_of s))) < tl_kinds (limits_in s)" if "has_colour H d \<or> has_corners H d \<or> dc_userData d \<noteq> 0"
    using that assms(3) by (simp add: opt_kind_def split: if_splits)
  obtain sh1 s1 where 1: "share H (has_colour H d) (\<lambda>c. c\<lparr>sh_backgroundColor := dc_backgroundColor d\<rparr>) (None, s) = (sh1, s1)"
    "sh1 = None \<longleftrightarrow> \<not> has_colour H d" "attaches H b (opt_kind (has_colour H d) CLAY__ELEMENT_CONFIG_TYPE_SHARED) 0 s s1"
    using share_attaches [OF assms(1,2), of "has_colour H d" None "\<lambda>c. c\<lparr>sh_backgroundColor := dc_backgroundColor d\<rparr>"] room by auto
  note d1 = attachesD [OF 1(3)]
  obtain sh2 s2 where 2: "share H (has_corners H d) (\<lambda>c. c\<lparr>sh_cornerRadius := dc_cornerRadius d\<rparr>) (sh1, s1) = (sh2, s2)"
    "sh2 = None \<longleftrightarrow> \<not> has_colour H d \<and> \<not> has_corners H d" "attaches H b (opt_kind (has_corners H d \<and> \<not> has_colour H d) CLAY__ELEMENT_CONFIG_TYPE_SHARED) 0 s1 s2"
    using share_attaches [of H b s1 "has_corners H d" sh1 "\<lambda>c. c\<lparr>sh_cornerRadius := dc_cornerRadius d\<rparr>"] d1 assms(2) room 1(2)
    by (auto simp: opt_kind_def)
  note d2 = attachesD [OF 2(3)]
  obtain sh3 s3 where 3: "share H (dc_userData d \<noteq> 0) (\<lambda>c. c\<lparr>sh_userData := dc_userData d\<rparr>) (sh2, s2) = (sh3, s3)"
    "attaches H b (opt_kind (dc_userData d \<noteq> 0 \<and> \<not> has_colour H d \<and> \<not> has_corners H d) CLAY__ELEMENT_CONFIG_TYPE_SHARED) 0 s2 s3"
    using share_attaches [of H b s2 "dc_userData d \<noteq> 0" sh2 "\<lambda>c. c\<lparr>sh_userData := dc_userData d\<rparr>"] d1 d2 assms(2) room 2(2)
    by (auto simp: opt_kind_def)
  have "attaches H b (opt_kind (has_colour H d) CLAY__ELEMENT_CONFIG_TYPE_SHARED @ opt_kind (has_corners H d \<and> \<not> has_colour H d) CLAY__ELEMENT_CONFIG_TYPE_SHARED @
      opt_kind (dc_userData d \<noteq> 0 \<and> \<not> has_colour H d \<and> \<not> has_corners H d) CLAY__ELEMENT_CONFIG_TYPE_SHARED) (0 + (0 + 0)) s s3"
    using d1 assms(2) by (intro attaches_trans [OF 1(3)] attaches_trans [OF 2(3) 3(2)]) simp_all
  moreover have "configure_shared H d s = s3" using 1(1) 2(1) 3(1) by (simp add: configure_shared_def Let_def)
  ultimately show ?thesis by (auto simp: opt_kind_def split: if_splits)
qed

text \<open>Storing a configuration and attaching it.\<close>

lemma store_attach:
  assumes "building H b s" and "stack_ok (view_of s)" and "int (length (tv_kinds (view_of s))) < tl_kinds (limits_in s)" and "quiet s s1"
  shows "attaches H b [type_of c] 0 s (Clay__AttachElementConfig c s1)"
proof -
  have "attaches H b [type_of c] 0 s1 (Clay__AttachElementConfig c s1)"
    using quiet_view [OF assms(4), of H b] assms by (intro Clay__AttachElementConfig_attaches) auto
  from attaches_trans [OF attaches_quiet [OF assms(1,4)] this assms(2)] show ?thesis by simp
qed

lemma configure_image_attaches:
  assumes "building H b s" and "stack_ok (view_of s)" and "int (length (tv_kinds (view_of s))) + int (length (opt_kind (dc_imageData d \<noteq> 0) CLAY__ELEMENT_CONFIG_TYPE_IMAGE)) \<le> tl_kinds (limits_in s)"
  shows "attaches H b (opt_kind (dc_imageData d \<noteq> 0) CLAY__ELEMENT_CONFIG_TYPE_IMAGE) 0 s (configure_image d s)"
proof (cases "dc_imageData d = 0")
  case False
  obtain p s1 where p: "Clay__StoreImageElementConfig (dc_imageData d) s = (p, s1)" by fastforce
  then have "quiet s s1" using quiet_stores(4) [of s "dc_imageData d"] by simp
  then show ?thesis using store_attach [OF assms(1,2), of s1 "EC_IMAGE p"] assms(3) False p by (simp add: configure_image_def opt_kind_def)
qed (use assms in \<open>simp add: configure_image_def opt_kind_def attaches_quiet\<close>)

lemma configure_custom_attaches:
  assumes "building H b s" and "stack_ok (view_of s)" and "int (length (tv_kinds (view_of s))) + int (length (opt_kind (dc_customData d \<noteq> 0) CLAY__ELEMENT_CONFIG_TYPE_CUSTOM)) \<le> tl_kinds (limits_in s)"
  shows "attaches H b (opt_kind (dc_customData d \<noteq> 0) CLAY__ELEMENT_CONFIG_TYPE_CUSTOM) 0 s (configure_custom d s)"
proof (cases "dc_customData d = 0")
  case False
  obtain p s1 where p: "Clay__StoreCustomElementConfig (dc_customData d) s = (p, s1)" by fastforce
  then have "quiet s s1" using quiet_stores(6) [of s "dc_customData d"] by simp
  then show ?thesis using store_attach [OF assms(1,2), of s1 "EC_CUSTOM p"] assms(3) False p by (simp add: configure_custom_def opt_kind_def)
qed (use assms in \<open>simp add: configure_custom_def opt_kind_def attaches_quiet\<close>)

lemma configure_border_attaches:
  assumes "building H b s" and "stack_ok (view_of s)" and "int (length (tv_kinds (view_of s))) + int (length (opt_kind (has_border H d) CLAY__ELEMENT_CONFIG_TYPE_BORDER)) \<le> tl_kinds (limits_in s)"
  shows "attaches H b (opt_kind (has_border H d) CLAY__ELEMENT_CONFIG_TYPE_BORDER) 0 s (configure_border H d s)"
proof (cases "has_border H d")
  case True
  obtain p s1 where p: "Clay__StoreBorderElementConfig (dc_border d) s = (p, s1)" by fastforce
  then have "quiet s s1" using quiet_stores(8) [of s "dc_border d"] by simp
  then show ?thesis using store_attach [OF assms(1,2), of s1 "EC_BORDER p"] assms(3) True p by (simp add: configure_border_def opt_kind_def)
qed (use assms in \<open>simp add: configure_border_def opt_kind_def attaches_quiet\<close>)

lemma configure_aspect_attaches:
  assumes "building H b s" and "stack_ok (view_of s)" and "int (length (tv_kinds (view_of s))) + int (length (opt_kind (has_aspect H d) CLAY__ELEMENT_CONFIG_TYPE_ASPECT)) \<le> tl_kinds (limits_in s)"
  shows "attaches H b (opt_kind (has_aspect H d) CLAY__ELEMENT_CONFIG_TYPE_ASPECT) 0 s (configure_aspect H d s)"
proof (cases "has_aspect H d")
  case True
  obtain p s1 where p: "Clay__StoreAspectRatioElementConfig (dc_aspectRatio d) s = (p, s1)" by fastforce
  then have "quiet s s1" using quiet_stores(3) [of s "dc_aspectRatio d"] by simp
  then have "attaches H b [CLAY__ELEMENT_CONFIG_TYPE_ASPECT] 0 s (Clay__AttachElementConfig (EC_ASPECT p) s1)"
    using store_attach [OF assms(1,2), of s1 "EC_ASPECT p"] assms(3) True by (simp add: opt_kind_def)
  from attaches_more [OF this assms(2) quiet_adds(11)] show ?thesis using True p by (simp add: configure_aspect_def opt_kind_def Let_def)
qed (use assms in \<open>simp add: configure_aspect_def opt_kind_def attaches_quiet\<close>)

lemma map_ok_log [simp]: "map_ok (m\<lparr>hm_log := l\<rparr>) = map_ok m"
  by (simp add: map_ok_def)

lemma cache_good_log [simp]: "cache_good (c\<lparr>tx_log := l\<rparr>) = cache_good c" "cache_good (c\<lparr>tx_notSet := n\<rparr>) = cache_good c"
  by (simp_all add: cache_good_def cache_ok_def cache_shape_def bucket_count_def)

text \<open>The table of elements takes what it is given.\<close>

lemma other_map_makes:
  assumes "building H b s" and "map_ok m"
  shows "makes H b s (view_of s) (s\<lparr>cx_map := m, cx_log := l\<rparr>)"
  using assms by (simp add: makes_def building_def arrays_ok_def view_of_def limits_in_def)

lemma declare_id_makes:
  assumes "building H b s"
  shows "\<exists>s'. declare_id e (Some k) al s = Some s' \<and> makes H b s (view_of s) s'"
proof -
  have "map_ok ((cx_map s)\<lparr>hm_log := cx_log s\<rparr>)" using assms by (simp add: building_def)
  then obtain r m where "Clay__AddHashMapItem e k al ((cx_map s)\<lparr>hm_log := cx_log s\<rparr>) = Some (r, m)" "map_ok m"
    using Clay__AddHashMapItem_ok by blast
  then show ?thesis using other_map_makes [OF assms] by (simp add: declare_id_def with_map_def)
qed

lemma makes_attaches: "makes H b s (view_of s) s' \<Longrightarrow> attaches H b [] 0 s s'"
  by (simp add: attaches_def tv_attach_none)

lemma attaches_none: "attaches H b [] 0 s t \<Longrightarrow> attaches H b [] 0 t u \<Longrightarrow> attaches H b [] 0 s u"
  by (simp add: attaches_def tv_attach_none makes_def)

lemma put_id_attaches:
  assumes "building H b s" and "k < length (tv_nodes (view_of s))"
  shows "attaches H b [] 0 s (put_element (Some k) (\<lambda>x. x\<lparr>ln_id := i\<rparr>) s)"
  using put_element_makes [OF assms, of "\<lambda>x. x\<lparr>ln_id := i\<rparr>" "\<lambda>n. n"] by (simp add: node_of_def makes_attaches)

lemma named:
  assumes "building H b s" and "k < length (tv_nodes (view_of s))"
  shows "\<exists>s'. declare_id e (Some k) al (put_element (Some k) (\<lambda>x. x\<lparr>ln_id := i\<rparr>) s) = Some s' \<and> attaches H b [] 0 s s'"
proof -
  note p = put_id_attaches [OF assms, of i]
  obtain s' where "declare_id e (Some k) al (put_element (Some k) (\<lambda>x. x\<lparr>ln_id := i\<rparr>) s) = Some s'"
    "makes H b (put_element (Some k) (\<lambda>x. x\<lparr>ln_id := i\<rparr>) s) (view_of (put_element (Some k) (\<lambda>x. x\<lparr>ln_id := i\<rparr>) s)) s'"
    using declare_id_makes attachesD [OF p] by blast
  then show ?thesis using attaches_none [OF p makes_attaches] by blast
qed

lemma configure_id_attaches:
  assumes "building H b s" and "stack_ok (view_of s)"
  shows "\<exists>s'. configure_id (Some (tv_top (view_of s))) e s = Some s' \<and> attaches H b [] 0 s s'"
proof -
  let ?k = "tv_top (view_of s)"
  have k: "?k < length (tv_nodes (view_of s))" using stack_ok_top [OF assms(2)] by simp
  consider "eid_id e \<noteq> 0" | "eid_id e = 0" "ln_id (element_at s (Some ?k)) \<noteq> 0" | "eid_id e = 0" "ln_id (element_at s (Some ?k)) = 0" by blast
  then show ?thesis
  proof cases
    case 1
    obtain s' where "declare_id e (Some ?k) (ln_id (element_at s (Some ?k))) (put_element (Some ?k) (\<lambda>x. x\<lparr>ln_id := eid_id e\<rparr>) s) = Some s'" "attaches H b [] 0 s s'"
      using named [OF assms(1) k] by blast
    then show ?thesis using 1 assms attaches_more [OF _ assms(2) quiet_sets(2)] open_element [OF assms]
      by (auto simp: configure_id_def Clay__AttachId_def building_def)
  next
    case 2
    then show ?thesis using attaches_quiet [OF assms(1)] by (simp add: configure_id_def)
  next
    case 3
    obtain q s1 where q: "parent_element s = (q, s1)" by fastforce
    have q1: "quiet s s1" using quiet_parent [of s] q by simp
    then have b1: "building H b s1" "view_of s1 = view_of s" using quiet_view [OF q1, of H b] assms(1) by simp_all
    let ?e = "Clay__HashNumber (ucast (ln_count (element_at s1 q))) (ln_id (element_at s1 q))"
    obtain s2 where s2: "declare_id ?e (Some ?k) 0 (put_element (Some ?k) (\<lambda>x. x\<lparr>ln_id := eid_id ?e\<rparr>) s1) = Some s2" "attaches H b [] 0 s1 s2"
      using named [OF b1(1)] k b1(2) by metis
    then show ?thesis using 3 q attaches_more [OF attaches_none [OF attaches_quiet [OF assms(1) q1] s2(2)] assms(2) quiet_adds(9)]
      by (auto simp: configure_id_def Clay__GenerateIdForAnonymousElement_def Let_def)
  qed
qed

lemma floating_parent_attaches:
  assumes "building H b s"
  shows "\<exists>i c s'. floating_parent H f q s = Some (i, c, s') \<and> attaches H b [] 0 s s'"
proof (cases "fl_attachTo f")
  case CLAY_ATTACH_TO_PARENT
  obtain v s1 where v: "value_in cx_clipStack (ca_length (cx_clipStack s) - 1) s = (v, s1)" by fastforce
  have "quiet s s1" using quiet_gets(1) [of s cx_clipStack "ca_length (cx_clipStack s) - 1"] v by simp
  then show ?thesis using CLAY_ATTACH_TO_PARENT v attaches_quiet [OF assms] by (auto simp: floating_parent_def)
next
  case CLAY_ATTACH_TO_ELEMENT_WITH_ID
  let ?m = "(cx_map s)\<lparr>hm_log := cx_log s\<rparr>"
  have m: "map_ok ?m" using assms by (simp add: building_def)
  obtain p where p: "with_map (Clay__GetHashMapItem (fl_parentId f)) s = Some (p, s\<lparr>cx_map := ?m, cx_log := cx_log s\<rparr>)"
    using Clay__GetHashMapItem_ok [OF m] by (simp add: with_map_def)
  let ?s = "s\<lparr>cx_map := ?m, cx_log := cx_log s\<rparr>"
  have a: "attaches H b [] 0 s ?s" using other_map_makes [OF assms m] by (rule makes_attaches)
  then have n: "quiet ?s t \<Longrightarrow> attaches H b [] 0 s t" for t using attaches_none [OF a attaches_quiet] attachesD [OF a] by blast
  show ?thesis
  proof (cases p)
    case None
    then show ?thesis using CLAY_ATTACH_TO_ELEMENT_WITH_ID p n [OF quiet_gets(3)] by (auto simp: floating_parent_def)
  next
    case (Some k)
    obtain v s1 where v: "value_in cx_clipIds (int (hi_layoutElement (item_of (cx_map ?s) (Some k)))) ?s = (v, s1)" by fastforce
    have "quiet ?s s1" using quiet_gets(1) [of ?s cx_clipIds "int (hi_layoutElement (item_of (cx_map ?s) (Some k)))"] v by simp
    then show ?thesis using CLAY_ATTACH_TO_ELEMENT_WITH_ID p Some v n by (auto simp: floating_parent_def)
  qed
qed (use attaches_quiet [OF assms] in \<open>auto simp: floating_parent_def\<close>)

abbreviation (input) floats :: "'f declaration_of \<Rightarrow> bool" where
  "floats d \<equiv> fl_attachTo (dc_floating d) \<noteq> CLAY_ATTACH_TO_NONE"

lemma configure_floating_attaches:
  assumes "building H b s" and "stack_ok (view_of s)"
    and "floats d \<Longrightarrow> int (length (tv_kinds (view_of s))) < tl_kinds (limits_in s) \<and> tv_clips (view_of s) < tl_clips (limits_in s)"
  shows "\<exists>e' s'. configure_floating H d e s = Some (e', s') \<and>
    attaches H b (opt_kind (floats d) CLAY__ELEMENT_CONFIG_TYPE_FLOATING) (if floats d then 1 else 0) s s'"
proof (cases "floats d")
  case True
  obtain q s1 where q: "parent_element s = (q, s1)" by fastforce
  have q1: "attaches H b [] 0 s s1" using quiet_parent [of s] q attaches_quiet [OF assms(1)] by simp
  obtain i c s2 where f: "floating_parent H (dc_floating d) q s1 = Some (i, c, s2)" "attaches H b [] 0 s1 s2"
    using floating_parent_attaches [of H b s1] attachesD [OF q1] by blast
  let ?c = "if fl_clipTo (dc_floating d) = CLAY_CLIP_TO_NONE then 0 else c"
  obtain k s3 where k: "value_in cx_stack (ca_length (cx_stack s2) - 1) s2 = (k, s3)" by fastforce
  let ?s4 = "set_in cx_clipIds cx_clipIds_update k (sint ?c) s3"
  have "quiet s2 s3" using quiet_gets(1) [of s2 cx_stack "ca_length (cx_stack s2) - 1"] k by simp
  then have q4: "quiet s2 ?s4" using quiet_trans quiet_sets(1) by blast
  have a4: "attaches H b [] 0 s ?s4"
    using attaches_none [OF attaches_none [OF q1 f(2)] attaches_quiet [OF _ q4]] attachesD [OF f(2)] by blast
  obtain p5 s5 where s5: "add_in cx_clipStack cx_clipStack_update (sint ?c) ?s4 = (p5, s5)" by fastforce
  have a5: "attaches H b [] 1 s s5"
    using attaches_trans [OF a4 attaches_clip, of "sint ?c"] attachesD [OF a4] assms(2,3) True s5 by simp
  obtain k6 s6 where s6: "value_in cx_stack (ca_length (cx_stack s5) - 1) s5 = (k6, s6)" by fastforce
  let ?r = "\<lparr>tr_layoutElementIndex = k6, tr_parentId = i, tr_clipElementId = ?c, tr_zIndex = fl_zIndex (dc_floating d),
      tr_pointerOffset = (z32 (ho_f32 H), z32 (ho_f32 H))\<rparr>"
  obtain p7 s7 where s7: "add_in cx_roots cx_roots_update ?r s6 = (p7, s7)" by fastforce
  obtain p8 s8 where s8: "Clay__StoreFloatingElementConfig ((dc_floating d)\<lparr>fl_parentId := i\<rparr>) s7 = (p8, s8)" by fastforce
  have "quiet s5 s6" "quiet s6 s7" "quiet s7 s8"
    using quiet_gets(1) [of s5 cx_stack "ca_length (cx_stack s5) - 1"] s6 quiet_adds(12) [of s6 ?r] s7 quiet_stores(5) [of s7 "(dc_floating d)\<lparr>fl_parentId := i\<rparr>"] s8 by simp_all
  then have "quiet s5 s8" using quiet_trans by blast
  then have "attaches H b [type_of (EC_FLOATING p8)] 0 s5 (Clay__AttachElementConfig (EC_FLOATING p8) s8)"
    using attachesD [OF a5] assms(2,3) True by (intro store_attach) simp_all
  from attaches_trans [OF a5 this assms(2)] show ?thesis
    using True q f(1) k s5 s6 s7 s8 by (simp add: configure_floating_def opt_kind_def)
next
  case False
  then show ?thesis using attaches_quiet [OF assms(1)] by (simp add: configure_floating_def opt_kind_def)
qed

abbreviation (input) clips :: "'f declaration_of \<Rightarrow> bool" where
  "clips d \<equiv> cl_horizontal (dc_clip d) \<or> cl_vertical (dc_clip d)"

lemma quiet_marks: "quiet s (snd (fold (mark_scroll p) is (m, s)))"
proof (induction "is" arbitrary: m s)
  case (Cons i "is")
  obtain m' s' where s': "mark_scroll p i (m, s) = (m', s')" by fastforce
  have "quiet s s'" using s' quiet_puts(2)
    by (auto simp: mark_scroll_def Let_def quiet_def put_scroll_def split: prod.splits if_splits option.splits)
  then show ?case using quiet_trans [OF _ Cons.IH] s' by simp
qed simp

lemma configure_clip_attaches:
  assumes "building H b s" and "stack_ok (view_of s)"
    and "clips d \<Longrightarrow> int (length (tv_kinds (view_of s))) < tl_kinds (limits_in s) \<and> tv_clips (view_of s) < tl_clips (limits_in s)"
  shows "\<exists>s'. configure_clip H d p s = Some s' \<and> attaches H b (opt_kind (clips d) CLAY__ELEMENT_CONFIG_TYPE_CLIP) (if clips d then 1 else 0) s s'"
proof (cases "clips d")
  case True
  obtain c s1 where s1: "Clay__StoreClipElementConfig (dc_clip d) s = (c, s1)" by fastforce
  have "quiet s s1" using quiet_stores(7) [of s "dc_clip d"] s1 by simp
  then have a2: "attaches H b [CLAY__ELEMENT_CONFIG_TYPE_CLIP] 0 s (Clay__AttachElementConfig (EC_CLIP c) s1)"
    using store_attach [OF assms(1,2), of s1 "EC_CLIP c"] assms(3) True by simp
  let ?s2 = "Clay__AttachElementConfig (EC_CLIP c) s1"
  obtain p3 s3 where s3: "add_in cx_clipStack cx_clipStack_update (sint (ln_id (element_at ?s2 p))) ?s2 = (p3, s3)" by fastforce
  have a3: "attaches H b [CLAY__ELEMENT_CONFIG_TYPE_CLIP] 1 s s3"
    using attaches_trans [OF a2 attaches_clip, of "sint (ln_id (element_at ?s2 p))"] attachesD [OF a2] assms(2,3) True s3 by simp
  obtain m4 s4 where s4: "fold (mark_scroll p) [0..<nat (ca_length (cx_scrolls s3))] (None, s3) = (m4, s4)" by fastforce
  have q4: "quiet s3 s4" using quiet_marks [of s3 p "[0..<nat (ca_length (cx_scrolls s3))]" None] s4 by simp
  obtain m5 s5 where s5: "(case m4 of Some m \<Rightarrow> (m, s4) | None \<Rightarrow> add_in cx_scrolls cx_scrolls_update (new_scroll (ho_f32 H) p (ln_id (element_at s4 p))) s4) = (m5, s5)" by fastforce
  have "quiet s4 s5" using s5 quiet_adds(13) [of s4 "new_scroll (ho_f32 H) p (ln_id (element_at s4 p))"] by (auto split: option.splits)
  then have a5: "attaches H b [CLAY__ELEMENT_CONFIG_TYPE_CLIP] 1 s s5" using attaches_more [OF a3 assms(2)] quiet_trans [OF q4] by blast
  have "cx_external s5 \<longrightarrow> ho_query H \<noteq> None" using attachesD [OF a5] by (auto simp: building_def)
  then show ?thesis using True s1 s3 s4 s5 a5 attaches_more [OF a5 assms(2) quiet_puts(2)]
    by (auto simp: configure_clip_def opt_kind_def)
next
  case False
  then show ?thesis using attaches_quiet [OF assms(1)] by (simp add: configure_clip_def opt_kind_def)
qed

section \<open>The whole configuration\<close>

definition kinds_in :: "'f host \<Rightarrow> 'f kinds" where
  "kinds_in H d =
     opt_kind (has_colour H d \<or> has_corners H d \<or> dc_userData d \<noteq> 0) CLAY__ELEMENT_CONFIG_TYPE_SHARED @
     opt_kind (dc_imageData d \<noteq> 0) CLAY__ELEMENT_CONFIG_TYPE_IMAGE @
     opt_kind (has_aspect H d) CLAY__ELEMENT_CONFIG_TYPE_ASPECT @
     opt_kind (fl_attachTo (dc_floating d) \<noteq> CLAY_ATTACH_TO_NONE) CLAY__ELEMENT_CONFIG_TYPE_FLOATING @
     opt_kind (dc_customData d \<noteq> 0) CLAY__ELEMENT_CONFIG_TYPE_CUSTOM @
     opt_kind (cl_horizontal (dc_clip d) \<or> cl_vertical (dc_clip d)) CLAY__ELEMENT_CONFIG_TYPE_CLIP @
     opt_kind (has_border H d) CLAY__ELEMENT_CONFIG_TYPE_BORDER"

lemma clip_pops_kinds: "clip_pops (kinds_in H d) = (if floats d then 1 else 0) + (if clips d then 1 else 0)"
proof -
  have none: "clip_pops (opt_kind c t @ ks) = clip_pops ks" if "t \<noteq> CLAY__ELEMENT_CONFIG_TYPE_CLIP" "t \<noteq> CLAY__ELEMENT_CONFIG_TYPE_FLOATING" for c t ks
    using that by (cases t) (auto simp: opt_kind_def)
  have "clip_pops (opt_kind c CLAY__ELEMENT_CONFIG_TYPE_BORDER) = 0" for c by (simp add: opt_kind_def)
  then show ?thesis by (simp add: kinds_in_def none) (simp add: opt_kind_def none)
qed

lemma layout_simps [simp]:
  "tv_stack (tv_layout v) = tv_stack v" "tv_clips (tv_layout v) = tv_clips v" "tv_kinds (tv_layout v) = tv_kinds v"
  "length (tv_nodes (tv_layout v)) = length (tv_nodes v)" "tv_top (tv_layout v) = tv_top v" "stack_ok (tv_layout v) = stack_ok v"
  by (simp_all add: tv_layout_def tv_top_def stack_ok_def)

lemma length_opt_kind: "length (opt_kind c t) = (if c then 1 else 0)"
  by (simp add: opt_kind_def)

text \<open>What comes before the floating and clip elements.\<close>

lemma configure_plain_attaches:
  fixes d :: "'f declaration_of" and H :: "'f host"
  defines "ks \<equiv> opt_kind (has_colour H d \<or> has_corners H d \<or> dc_userData d \<noteq> 0) CLAY__ELEMENT_CONFIG_TYPE_SHARED @
    opt_kind (dc_imageData d \<noteq> 0) CLAY__ELEMENT_CONFIG_TYPE_IMAGE @ opt_kind (has_aspect H d) CLAY__ELEMENT_CONFIG_TYPE_ASPECT"
  assumes "building H b s" and "stack_ok (view_of s)" and "int (length (tv_kinds (view_of s))) + int (length ks) \<le> tl_kinds (limits_in s)"
  shows "attaches H b ks 0 s (configure_aspect H d (configure_image d (configure_shared H d s)))"
proof -
  have a2: "attaches H b (opt_kind (has_colour H d \<or> has_corners H d \<or> dc_userData d \<noteq> 0) CLAY__ELEMENT_CONFIG_TYPE_SHARED) 0 s (configure_shared H d s)"
    using assms(4) by (intro configure_shared_attaches [OF assms(2,3)]) (simp add: ks_def)
  let ?s2 = "configure_shared H d s"
  note d2 = attachesD [OF a2]
  have "attaches H b (opt_kind (dc_imageData d \<noteq> 0) CLAY__ELEMENT_CONFIG_TYPE_IMAGE) 0 ?s2 (configure_image d ?s2)"
    using assms(3,4) d2 by (intro configure_image_attaches) (simp_all add: ks_def)
  note a3 = attaches_trans [OF a2 this assms(3)]
  let ?s3 = "configure_image d ?s2"
  note d3 = attachesD [OF a3]
  have "attaches H b (opt_kind (has_aspect H d) CLAY__ELEMENT_CONFIG_TYPE_ASPECT) 0 ?s3 (configure_aspect H d ?s3)"
    using assms(3,4) d3 by (intro configure_aspect_attaches) (simp_all add: ks_def)
  from attaches_trans [OF a3 this assms(3)] show ?thesis by (simp add: ks_def)
qed

lemma Clay__ConfigureOpenElementPtr_makes:
  assumes "building H b s" and "can_configure (kinds_in H d) (limits_in s) (view_of s)"
  shows "\<exists>s'. Clay__ConfigureOpenElementPtr H d s = Some s' \<and> makes H b s (tv_configure (kinds_in H d) (view_of s)) s'"
proof -
  let ?k = "tv_top (view_of s)"
  have st: "stack_ok (view_of s)" and len: "int (length (tv_kinds (view_of s))) + int (length (kinds_in H d)) \<le> tl_kinds (limits_in s)"
    and cl: "tv_clips (view_of s) + clip_pops (kinds_in H d) \<le> tl_clips (limits_in s)" using assms(2) by (simp_all add: can_configure_def)
  obtain s1 where s1: "configure_layout H d s = (Some ?k, s1)" and m1: "makes H b s (tv_layout (view_of s)) s1"
    using configure_layout_makes [OF assms(1) st, of d] by (cases "configure_layout H d s") auto
  note b1 = makes_building [OF m1] and v1 = makes_view [OF m1] and l1 = makes_limits [OF m1]
  have st1: "stack_ok (view_of s1)" using st v1 by simp
  note room = len [unfolded kinds_in_def] cl [unfolded clip_pops_kinds]
  let ?s4 = "configure_aspect H d (configure_image d (configure_shared H d s1))"
  have a4: "attaches H b (opt_kind (has_colour H d \<or> has_corners H d \<or> dc_userData d \<noteq> 0) CLAY__ELEMENT_CONFIG_TYPE_SHARED @
      opt_kind (dc_imageData d \<noteq> 0) CLAY__ELEMENT_CONFIG_TYPE_IMAGE @ opt_kind (has_aspect H d) CLAY__ELEMENT_CONFIG_TYPE_ASPECT) 0 s1 ?s4"
    using room(1) v1 l1 by (intro configure_plain_attaches [OF b1 st1]) simp
  note d4 = attachesD [OF a4]
  have fr: "floats d \<Longrightarrow> int (length (tv_kinds (view_of ?s4))) < tl_kinds (limits_in ?s4) \<and> tv_clips (view_of ?s4) < tl_clips (limits_in ?s4)"
    using room d4 v1 l1 by (simp add: opt_kind_def [of True] split: if_splits)
  obtain e5 s5 where s5: "configure_floating H d (dc_id d) ?s4 = Some (e5, s5)"
    "attaches H b (opt_kind (floats d) CLAY__ELEMENT_CONFIG_TYPE_FLOATING) (if floats d then 1 else 0) ?s4 s5"
    using configure_floating_attaches [of H b ?s4 d "dc_id d"] fr d4 st1 by blast
  note a5 = attaches_trans [OF a4 s5(2) st1]
  note d5 = attachesD [OF a5]
  have "attaches H b (opt_kind (dc_customData d \<noteq> 0) CLAY__ELEMENT_CONFIG_TYPE_CUSTOM) 0 s5 (configure_custom d s5)"
    using room(1) d5 st1 v1 l1 by (intro configure_custom_attaches) simp_all
  note a6 = attaches_trans [OF a5 this st1]
  note d6 = attachesD [OF a6]
  obtain s7 where s7: "configure_id (Some ?k) e5 (configure_custom d s5) = Some s7" "attaches H b [] 0 (configure_custom d s5) s7"
    using configure_id_attaches [of H b "configure_custom d s5" e5] d6 st1 v1 by auto
  note a7 = attaches_trans [OF a6 s7(2) st1]
  note d7 = attachesD [OF a7]
  have cr: "clips d \<Longrightarrow> int (length (tv_kinds (view_of s7))) < tl_kinds (limits_in s7) \<and> tv_clips (view_of s7) < tl_clips (limits_in s7)"
    using room d7 v1 l1 by (simp add: opt_kind_def [of True])
  obtain s8 where s8: "configure_clip H d (Some ?k) s7 = Some s8"
    "attaches H b (opt_kind (clips d) CLAY__ELEMENT_CONFIG_TYPE_CLIP) (if clips d then 1 else 0) s7 s8"
    using configure_clip_attaches [of H b s7 d "Some ?k"] cr d7 st1 by blast
  note a8 = attaches_trans [OF a7 s8(2) st1]
  note d8 = attachesD [OF a8]
  have "attaches H b (opt_kind (has_border H d) CLAY__ELEMENT_CONFIG_TYPE_BORDER) 0 s8 (configure_border H d s8)"
    using room(1) d8 st1 v1 l1 by (intro configure_border_attaches) simp_all
  from attaches_trans [OF a8 this st1] have "attaches H b (kinds_in H d) (clip_pops (kinds_in H d)) s1 (configure_border H d s8)"
    unfolding clip_pops_kinds by (simp add: kinds_in_def)
  then have "makes H b s (tv_configure (kinds_in H d) (view_of s)) (configure_border H d s8)"
    using makes_trans [OF m1] v1 by (simp add: attaches_def tv_configure_def)
  then show ?thesis using s1 s5(1) s7(1) s8(1) by (simp add: Clay__ConfigureOpenElementPtr_def Let_def)
qed

section \<open>Texts\<close>

definition word_need :: "clay_string \<Rightarrow> nat" where
  "word_need x = 2 * length (st_chars x) + 1"

lemma measured_makes:
  assumes "building H (word_need x + b) s"
  shows "\<exists>m s'. with_text (Clay__MeasureTextCached (ho_build H) (ho_f32 H) (ho_measure H) x c) s = Some (m, s') \<and> makes H b s (view_of s) s'"
proof -
  let ?c = "(cx_text s)\<lparr>tx_log := cx_log s\<rparr>"
  have g: "cache_good ?c" "words_room ?c x" using assms by (simp_all add: building_def words_room_def spare_words_def word_need_def)
  have "\<exists>m c'. Clay__MeasureTextCached (ho_build H) (ho_f32 H) (ho_measure H) x c ?c = Some (m, c') \<and> cache_good c' \<and> words_grow (int (word_need x)) ?c c'"
  proof (cases "ho_measure H")
    case None
    then show ?thesis using g(1) by (simp add: Clay__MeasureTextCached_def words_grow_def)
  next
    case (Some mf)
    then show ?thesis using Clay__MeasureTextCached_ok [OF g refl, of "ho_build H" "ho_f32 H" mf c] by (auto simp: word_need_def add.commute [of 1])
  qed
  then show ?thesis using assms
    by (auto simp: with_text_def makes_def building_def arrays_ok_def view_of_def limits_in_def words_grow_def spare_words_def)
qed

lemma building_less: "building H (n + b) s \<Longrightarrow> building H b s"
  by (auto simp: building_def spare_words_def)

lemma makes_put:
  assumes "makes H b s v s'" and "k < length (tv_nodes v)" and "\<And>e. node_of (g e) = h (node_of e)"
  shows "makes H b s (upd_node k h v) (put_element (Some k) g s')"
  using put_element_makes [OF makes_building [OF assms(1)], of k g h] assms by (simp add: makes_def)

lemma makes_still: "makes H b s v s' \<Longrightarrow> attaches H b [] 0 s' s'' \<Longrightarrow> makes H b s v s''"
  by (simp add: attaches_def tv_attach_none makes_def)

text \<open>What is filled in after the text is measured.\<close>

lemma text_filled:
  fixes s :: "('f, 'h) clay_context"
  assumes "building H b s" and "t < length (tv_nodes (view_of s))" "p < length (tv_nodes (view_of s))" and "tv_nodes (view_of s) ! t = new_node"
    and "t \<noteq> p" and "int (length (tv_kinds (view_of s))) < tl_kinds (limits_in s)"
    and ds: "s2 = put_element (Some t) (\<lambda>x. x\<lparr>ln_dimensions := dim, ln_minDimensions := mdim\<rparr>) s"
    and td: "add_in cx_textData cx_textData_update y s2 = (td, s3)"
    and s4: "s4 = put_element (Some t) (\<lambda>x. x\<lparr>ln_content := TEXT_DATA td\<rparr>) s3"
    and c: "add_in cx_configs cx_configs_update (EC_TEXT config) s4 = (c, s5)"
  shows "makes H b s (one_more p ((view_of s)\<lparr>tv_nodes := (tv_nodes (view_of s))[t := text_node (length (tv_kinds (view_of s)))],
      tv_kinds := tv_kinds (view_of s) @ [CLAY__ELEMENT_CONFIG_TYPE_TEXT]\<rparr>))
    (put_element (Some p) (\<lambda>x. x\<lparr>ln_count := ln_count x + 1\<rparr>)
      (put_element (Some t) (\<lambda>x. x\<lparr>ln_configs := c, ln_configCount := 1, ln_layoutConfig := LC_DEFAULT\<rparr>) s5))"
proof -
  let ?v = "view_of s"
  have v: "makes H b s ?v s" using assms(1) by (simp add: makes_def)
  have m2: "makes H b s ?v s2" unfolding ds using makes_put [OF v assms(2), of _ "\<lambda>n. n"] by (simp add: node_of_def)
  have "quiet s2 s3" using quiet_adds(10) [of s2 y] td by simp
  then have m3: "makes H b s ?v s3" by (rule makes_quiet [OF m2])
  have m4: "makes H b s (upd_node t (\<lambda>n. n\<lparr>nd_at := None\<rparr>) ?v) s4" unfolding s4 using assms(2) by (intro makes_put [OF m3]) (simp_all add: node_of_def)
  have up: "upd_node t (\<lambda>n. n\<lparr>nd_at := None\<rparr>) ?v = ?v"
    using assms(2,4) by (simp add: upd_node_def new_node_def list_update_same_conv)
  have b4: "building H b s4" "view_of s4 = ?v" "limits_in s4 = limits_in s" using m4 up by (simp_all add: makes_def)
  have ca: "c = Some (length (tv_kinds ?v))" "makes H b s (?v\<lparr>tv_kinds := tv_kinds ?v @ [CLAY__ELEMENT_CONFIG_TYPE_TEXT]\<rparr>) s5"
    using add_config [OF b4(1), where c = "EC_TEXT config"] b4 assms(6) c by (simp_all add: makes_def)
  let ?w = "?v\<lparr>tv_kinds := tv_kinds ?v @ [CLAY__ELEMENT_CONFIG_TYPE_TEXT]\<rparr>"
  have "makes H b s (upd_node t (\<lambda>n. n\<lparr>nd_first := Some (length (tv_kinds ?v)), nd_kinds := 1, nd_bare := False\<rparr>) ?w)
      (put_element (Some t) (\<lambda>x. x\<lparr>ln_configs := c, ln_configCount := 1, ln_layoutConfig := LC_DEFAULT\<rparr>) s5)"
    using assms(2) by (intro makes_put [OF ca(2)]) (simp_all add: node_of_def ca(1))
  moreover have "upd_node t (\<lambda>n. n\<lparr>nd_first := Some (length (tv_kinds ?v)), nd_kinds := 1, nd_bare := False\<rparr>) ?w =
      ?v\<lparr>tv_nodes := (tv_nodes ?v)[t := text_node (length (tv_kinds ?v))], tv_kinds := tv_kinds ?v @ [CLAY__ELEMENT_CONFIG_TYPE_TEXT]\<rparr>" (is "_ = ?x")
    using assms(4) by (simp add: upd_node_def new_node_def text_node_def)
  ultimately have "makes H b s ?x (put_element (Some t) (\<lambda>x. x\<lparr>ln_configs := c, ln_configCount := 1, ln_layoutConfig := LC_DEFAULT\<rparr>) s5)" by simp
  then show ?thesis unfolding one_more_def using assms(3) by (intro makes_put) (simp_all add: node_of_def)
qed

lemma Clay__OpenTextElement_makes:
  assumes "building H (word_need x + b) s" and "can_text (limits_in s) (view_of s)"
  shows "\<exists>s'. Clay__OpenTextElement H x config s = Some s' \<and> makes H b s (tv_text (view_of s)) s'"
proof -
  let ?v = "view_of s" and ?n = "length (tv_nodes (view_of s))" and ?p = "tv_top (view_of s)" and ?b = "word_need x + b"
  have r: "int ?n + 1 < tl_elements (limits_in s)" "int (length (tv_buffer ?v)) < tl_buffer (limits_in s)" "int (length (tv_kinds ?v)) < tl_kinds (limits_in s)"
    "stack_ok ?v" using assms(2) by (simp_all add: can_text_def)
  note p = stack_ok_top [OF r(4)]
  obtain s1 where s1: "add_in cx_elements cx_elements_update (zero_element (ho_f32 H)) s = (Some ?n, s1)" "makes H ?b s (?v\<lparr>tv_nodes := tv_nodes ?v @ [new_node]\<rparr>) s1"
    using add_element [OF assms(1), where e = "zero_element (ho_f32 H)"] r(1) by (cases "add_in cx_elements cx_elements_update (zero_element (ho_f32 H)) s") (auto simp: node_of_zero)
  have m2: "makes H ?b s (?v\<lparr>tv_nodes := tv_nodes ?v @ [new_node]\<rparr>) (inherit_clip s1)" by (rule makes_quiet [OF s1(2) quiet_inherit])
  note b2 = makes_building [OF m2] and v2 = makes_view [OF m2] and l2 = makes_limits [OF m2]
  have n: "ca_length (cx_elements (inherit_clip s1)) - 1 = int ?n" using element_count [OF b2] v2 by simp
  obtain q3 s3 where s3: "add_in cx_buffer cx_buffer_update (int ?n) (inherit_clip s1) = (q3, s3)" by fastforce
  let ?w = "?v\<lparr>tv_nodes := tv_nodes ?v @ [new_node], tv_buffer := tv_buffer ?v @ [int ?n]\<rparr>"
  have m3: "makes H ?b s ?w s3" using makes_trans [OF m2 add_buffer [OF b2, of "int ?n"]] v2 l2 r(2) s3 by simp
  obtain m s4 where s4: "with_text (Clay__MeasureTextCached (ho_build H) (ho_f32 H) (ho_measure H) x config) s3 = Some (m, s4)" "makes H b s3 ?w s4"
    using measured_makes [OF makes_building [OF m3], of config] makes_view [OF m3] by auto
  have m4: "makes H b s ?w s4" using s4(2) makes_limits [OF m3] by (simp add: makes_def)
  let ?e = "Clay__HashNumber (ucast (ln_count (element_at s4 (Some ?p)))) (ln_id (element_at s4 (Some ?p)))"
  obtain s5 where s5: "declare_id ?e (Some ?n) 0 (put_element (Some ?n) (\<lambda>x. x\<lparr>ln_id := eid_id ?e\<rparr>) s4) = Some s5" "attaches H b [] 0 s4 s5"
    using named [OF makes_building [OF m4], of ?n ?e 0 "eid_id ?e"] makes_view [OF m4] by auto
  obtain q6 s6 where s6: "add_in cx_idStrings cx_idStrings_update (eid_stringId ?e) s5 = (q6, s6)" by fastforce
  have m6: "makes H b s ?w s6" using makes_quiet [OF makes_still [OF m4 s5(2)] quiet_adds(9)] s6 by (metis snd_conv)
  note b6 = makes_building [OF m6] and v6 = makes_view [OF m6] and l6 = makes_limits [OF m6]
  have "\<exists>s'. Clay__OpenTextElement H x config s = Some s' \<and>
      makes H b s6 (one_more ?p (?w\<lparr>tv_nodes := (tv_nodes ?w)[?n := text_node (length (tv_kinds ?w))], tv_kinds := tv_kinds ?w @ [CLAY__ELEMENT_CONFIG_TYPE_TEXT]\<rparr>)) s'"
    using text_filled [OF b6 _ _ _ _ _ refl _ refl, of ?n ?p, unfolded v6] r(3) l6 p s1(1) s3 s4(1) s5(1) s6 n open_element [OF assms(1) r(4)] elements_not_full(1) [OF assms(1) r(1)]
    by (simp add: Clay__OpenTextElement_def Let_def split: prod.splits)
  moreover have "one_more ?p (?w\<lparr>tv_nodes := (tv_nodes ?w)[?n := text_node (length (tv_kinds ?w))], tv_kinds := tv_kinds ?w @ [CLAY__ELEMENT_CONFIG_TYPE_TEXT]\<rparr>) = tv_text ?v"
    by (rule tree_view.equality) (simp_all add: tv_text_def one_more_def list_update_append)
  ultimately show ?thesis using makes_trans [OF m6] by auto
qed

section \<open>Closing\<close>

lemma shorter:
  assumes "array_ok a" and "0 \<le> m" and "m \<le> ca_length a"
  shows "array_ok (a\<lparr>ca_length := m\<rparr>) \<and> values_of (a\<lparr>ca_length := m\<rparr>) = take (nat m) (values_of a)"
  using assms by (simp add: array_ok_def values_of_def min_absorb1 nat_mono)

lemma pop_last:
  assumes "array_ok a" and "values_of a \<noteq> []"
  shows "Array_RemoveSwapback d a (ca_length a - 1) E = (last (values_of a), a\<lparr>ca_length := ca_length a - 1\<rparr>, E)"
proof -
  have "(ca_cells a)[nat (ca_length a - 1) := ca_cells a ! nat (ca_length a - 1)] = ca_cells a" by (rule list_update_id)
  then show ?thesis using last_value [OF assms] by (simp add: array_defs)
qed

lemma close_clips_eq: "n \<le> length cs \<Longrightarrow> \<exists>c. close_clips n cs pops = Some (pops + clip_pops (map type_of (take n cs)), c)"
proof (induction n arbitrary: cs pops)
  case (Suc n)
  then obtain c cs' where cs: "cs = c # cs'" "n \<le> length cs'" by (cases cs) auto
  show ?case using Suc.IH [OF cs(2), of pops] Suc.IH [OF cs(2), of "pops + 1"] by (cases c) (auto simp: cs(1) add.assoc)
qed simp

lemma find_config_eq: "n \<le> length cs \<Longrightarrow> find_config t n cs = Some (List.find (\<lambda>c. type_of c = t) (take n cs))"
proof (induction n arbitrary: cs)
  case (Suc n)
  then obtain c cs' where "cs = c # cs'" "n \<le> length cs'" by (cases cs) auto
  then show ?case using Suc.IH by simp
qed simp

lemma element_node:
  assumes "building H b s" and "k < length (tv_nodes (view_of s))"
  shows "node_of (element_at s (Some k)) = tv_nodes (view_of s) ! k"
proof -
  have a: "array_ok (cx_elements s)" "k < nat (ca_length (cx_elements s))" using assms building_length [OF assms(1)] by (simp_all add: building_def arrays_ok_def)
  then show ?thesis using values_of_nth [OF a] length_values_of [OF a(1)] by (simp add: element_at_def view_of_def)
qed

text \<open>The configurations of an element are what the view says.\<close>

lemma own_configs:
  assumes "building H b s" and "k < length (tv_nodes (view_of s))"
    and "nd_first (tv_nodes (view_of s) ! k) = Some j" and "j + nd_kinds (tv_nodes (view_of s) ! k) \<le> length (tv_kinds (view_of s))"
  shows "ln_configCount (element_at s (Some k)) \<le> length (configs_from s (Some k))"
    and "map type_of (take (ln_configCount (element_at s (Some k))) (configs_from s (Some k))) = kinds_of_node (view_of s) k"
proof -
  let ?n = "ln_configCount (element_at s (Some k))"
  have n: "nd_first (tv_nodes (view_of s) ! k) = ln_configs (element_at s (Some k))" "nd_kinds (tv_nodes (view_of s) ! k) = ?n"
    using element_node [OF assms(1,2)] by (simp_all add: node_of_def flip: element_node [OF assms(1,2)])
  have a: "array_ok (cx_configs s)" using assms(1) by (simp add: building_def arrays_ok_def)
  have "ln_configs (element_at s (Some k)) = Some j" using n(1) assms(3) by simp
  then have c: "configs_from s (Some k) = drop j (ca_cells (cx_configs s))" by (simp add: configs_from_def)
  have l: "j + ?n \<le> nat (ca_length (cx_configs s))" using assms(4) n(2) building_length [OF assms(1)] by simp
  then show "?n \<le> length (configs_from s (Some k))" using array_okD [OF a] by (simp add: c) linarith
  have "take ?n (drop j (ca_cells (cx_configs s))) = take ?n (drop j (values_of (cx_configs s)))" using l by (simp add: values_of_def take_drop min_def)
  then show "map type_of (take ?n (configs_from s (Some k))) = kinds_of_node (view_of s) k"
    using n assms(3) by (simp add: c kinds_of_node_def view_of_def take_map drop_map)
qed

lemma grow_node [simp]:
  "node_of (grow_by_child F dir axes lr tb c e) = node_of e" "node_of (add_gaps F dir gap e) = node_of e" "node_of (clamp_axes F l e) = node_of e"
  "node_of (begin_size F dir lr tb e) = node_of e"
  by (simp_all add: node_of_def grow_by_child_def add_gaps_def clamp_axes_def begin_size_def Let_def split: layout_direction.split)

text \<open>The children move over one by one.\<close>

lemma makes_same: "makes H b s v s' \<Longrightarrow> k < length (tv_nodes v) \<Longrightarrow> (\<And>e. node_of (g e) = node_of e) \<Longrightarrow> makes H b s v (put_element (Some k) g s')"
  using makes_put [of H b s v s' k g "\<lambda>n. n"] by simp

lemma buffer_value:
  assumes "building H b s" and "p < length (tv_nodes (view_of s))" and "n = unat (nd_count (tv_nodes (view_of s) ! p))" and "n \<le> length (tv_buffer (view_of s))" "i < n"
  shows "value_in cx_buffer (ca_length (cx_buffer s) - uint (ln_count (element_at s (Some p))) + int i) s = (tv_buffer (view_of s) ! (length (tv_buffer (view_of s)) - n + i), s)"
proof -
  let ?v = "view_of s"
  define j where "j = length (tv_buffer ?v) - n + i"
  have jl: "j < length (tv_buffer ?v)" using assms(4,5) by (simp add: j_def)
  have a: "array_ok (cx_buffer s)" using assms(1) by (simp add: building_def arrays_ok_def)
  have lc: "ln_count (element_at s (Some p)) = nd_count (tv_nodes ?v ! p)" using element_node [OF assms(1,2), symmetric] by (simp add: node_of_def)
  have u: "uint (ln_count (element_at s (Some p))) = int n" by (simp only: lc assms(3) uint_nat)
  have l: "ca_length (cx_buffer s) = int (length (tv_buffer ?v))" using building_length [OF assms(1)] array_okD [OF a] by simp
  have ix: "ca_length (cx_buffer s) - uint (ln_count (element_at s (Some p))) + int i = int j" using u l assms(4) by (simp add: j_def)
  have "ca_cells (cx_buffer s) ! j = tv_buffer ?v ! j" using values_of_nth [OF a, of j] l jl by (simp add: view_of_def)
  then have "value_in cx_buffer (int j) s = (tv_buffer ?v ! j, s)" using l jl by (simp add: value_in_def Array_GetValue_in)
  then show ?thesis unfolding ix j_def .
qed

lemma attach_child_makes:
  assumes "building H b s" and "p < length (tv_nodes (view_of s))" and "n = unat (nd_count (tv_nodes (view_of s) ! p))" and "n \<le> length (tv_buffer (view_of s))" "i < n"
    and "int (length (tv_children (view_of s))) < tl_children (limits_in s)"
  shows "makes H b s ((view_of s)\<lparr>tv_children := tv_children (view_of s) @ [tv_buffer (view_of s) ! (length (tv_buffer (view_of s)) - n + i)]\<rparr>)
    (attach_child F dir axes lr tb (Some p) i s)"
proof -
  let ?v = "view_of s"
  let ?x = "tv_buffer ?v ! (length (tv_buffer ?v) - n + i)"
  note g = buffer_value [OF assms(1-5)]
  obtain c s1 where c: "get_element ?x s = (c, s1)" by fastforce
  have q: "quiet s s1" using quiet_gets(2) [of s ?x] c by simp
  let ?s2 = "put_element (Some p) (grow_by_child F dir axes lr tb (element_at s1 c)) s1"
  have m2: "makes H b s ?v ?s2" using makes_same [OF quiet_makes [OF assms(1) q]] assms(2) by simp
  have "makes H b ?s2 (?v\<lparr>tv_children := tv_children ?v @ [?x]\<rparr>) (snd (add_in cx_children cx_children_update ?x ?s2))"
    using add_children [OF makes_building [OF m2], of ?x] makes_view [OF m2] makes_limits [OF m2] assms(6) by simp
  then show ?thesis using makes_trans [OF m2] by (simp add: attach_child_def g c)
qed

lemma attach_children_makes:
  assumes "building H b s" and "p < length (tv_nodes (view_of s))" and n: "n = unat (nd_count (tv_nodes (view_of s) ! p))" and "n \<le> length (tv_buffer (view_of s))"
    and "int (length (tv_children (view_of s))) + int n \<le> tl_children (limits_in s)" and "i \<le> n"
  shows "makes H b s ((view_of s)\<lparr>tv_children := tv_children (view_of s) @ take i (drop (length (tv_buffer (view_of s)) - n) (tv_buffer (view_of s)))\<rparr>)
    (fold (attach_child F dir axes lr tb (Some p)) [0..<i] s)"
  using assms(6)
proof (induction i)
  case 0
  then show ?case using assms(1) by (simp add: makes_def)
next
  case (Suc i)
  let ?B = "tv_buffer (view_of s)" and ?s = "fold (attach_child F dir axes lr tb (Some p)) [0..<i] s"
  have m: "makes H b s ((view_of s)\<lparr>tv_children := tv_children (view_of s) @ take i (drop (length ?B - n) ?B)\<rparr>) ?s" using Suc by simp
  note v = makes_view [OF m] and l = makes_limits [OF m]
  have "makes H b ?s ((view_of ?s)\<lparr>tv_children := tv_children (view_of ?s) @ [tv_buffer (view_of ?s) ! (length (tv_buffer (view_of ?s)) - n + i)]\<rparr>)
      (attach_child F dir axes lr tb (Some p) i ?s)"
  proof (rule attach_child_makes [OF makes_building [OF m]])
    show "n = unat (nd_count (tv_nodes (view_of ?s) ! p))" using n by (simp add: v)
    show "int (length (tv_children (view_of ?s))) < tl_children (limits_in ?s)" using assms(5) Suc(2) by (simp add: v l)
  qed (use assms(2,4) Suc(2) in \<open>simp_all add: v\<close>)
  moreover have "take (Suc i) (drop (length ?B - n) ?B) = take i (drop (length ?B - n) ?B) @ [?B ! (length ?B - n + i)]"
    using Suc(2) assms(4) by (simp add: take_Suc_conv_app_nth)
  ultimately show ?case using makes_trans [OF m] v by (simp add: add.assoc)
qed

lemma fewer_clips:
  assumes "building H b s" and "0 \<le> c" and "c \<le> tv_clips (view_of s)"
  shows "makes H b s ((view_of s)\<lparr>tv_clips := tv_clips (view_of s) - c\<rparr>) (s\<lparr>cx_clipStack := (cx_clipStack s)\<lparr>ca_length := ca_length (cx_clipStack s) - c\<rparr>\<rparr>)"
proof -
  have "array_ok ((cx_clipStack s)\<lparr>ca_length := ca_length (cx_clipStack s) - c\<rparr>)"
    using assms by (auto simp: building_def arrays_ok_def array_ok_def view_of_def)
  then show ?thesis using assms(1) by (simp add: makes_def building_def arrays_ok_def view_of_def limits_in_def)
qed

lemma shorter_buffer:
  assumes "building H b s" and "n \<le> length (tv_buffer (view_of s))"
  shows "makes H b s ((view_of s)\<lparr>tv_buffer := take (length (tv_buffer (view_of s)) - n) (tv_buffer (view_of s))\<rparr>)
    (s\<lparr>cx_buffer := (cx_buffer s)\<lparr>ca_length := ca_length (cx_buffer s) - int n\<rparr>\<rparr>)"
proof -
  have a: "array_ok (cx_buffer s)" using assms(1) by (simp add: building_def arrays_ok_def)
  have l: "ca_length (cx_buffer s) = int (length (values_of (cx_buffer s)))" using length_values_of [OF a] array_okD [OF a] by simp
  then have "nat (ca_length (cx_buffer s) - int n) = length (values_of (cx_buffer s)) - n" by simp
  then show ?thesis using assms shorter [OF a, of "ca_length (cx_buffer s) - int n"] l
    by (simp add: makes_def building_def arrays_ok_def view_of_def limits_in_def)
qed

lemma aspect_box_makes:
  assumes "makes H b s v s'" and "p < length (tv_nodes v)" and "nd_first (tv_nodes v ! p) = Some j" and "j + nd_kinds (tv_nodes v ! p) \<le> length (tv_kinds v)"
  shows "\<exists>s''. Clay__UpdateAspectRatioBox F (Some p) s' = Some s'' \<and> makes H b s v s''"
proof -
  have v: "view_of s' = v" "building H b s'" using assms(1) by (simp_all add: makes_def)
  have f: "find_config t (ln_configCount (element_at s' (Some p))) (configs_from s' (Some p)) =
      Some (List.find (\<lambda>c. type_of c = t) (take (ln_configCount (element_at s' (Some p))) (configs_from s' (Some p))))" for t
    using own_configs(1) [OF v(2)] assms(2-4) v(1) by (intro find_config_eq) auto
  have "makes H b s v (put_element (Some p) (\<lambda>e. e\<lparr>ln_dimensions := g e\<rparr>) s')" for g
    by (rule makes_same [OF assms(1,2)]) (simp add: node_of_def)
  then show ?thesis using assms(1) by (auto simp: Clay__UpdateAspectRatioBox_def f Let_def split: option.split element_config.split)
qed

text \<open>The children move from the buffer to their array, and the element knows where they are.\<close>

lemma adopt_makes:
  fixes s :: "('f, 'h) clay_context"
  assumes "building H b s" and "p < length (tv_nodes (view_of s))" and n: "n = unat (nd_count (tv_nodes (view_of s) ! p))" and "n \<le> length (tv_buffer (view_of s))"
    and "int (length (tv_children (view_of s))) + int n \<le> tl_children (limits_in s)"
    and s2: "s2 = put_element (Some p) (\<lambda>e. begin_size F dir lr tb (e\<lparr>ln_content := CHILDREN (nat (ca_length (cx_children s)))\<rparr>)) s"
    and s4: "s4 = put_element (Some p) (add_gaps F dir gap) (fold (attach_child F dir axes lr tb (Some p)) [0..<n] s2)"
  shows "makes H b s ((upd_node p (\<lambda>n. n\<lparr>nd_at := Some (length (tv_children (view_of s)))\<rparr>) (view_of s))
      \<lparr>tv_children := tv_children (view_of s) @ drop (length (tv_buffer (view_of s)) - n) (tv_buffer (view_of s)),
       tv_buffer := take (length (tv_buffer (view_of s)) - n) (tv_buffer (view_of s))\<rparr>)
    (s4\<lparr>cx_buffer := (cx_buffer s4)\<lparr>ca_length := ca_length (cx_buffer s4) - int n\<rparr>\<rparr>)"
proof -
  let ?v = "view_of s" and ?B = "tv_buffer (view_of s)"
  have v: "makes H b s ?v s" using assms(1) by (simp add: makes_def)
  have ch: "nat (ca_length (cx_children s)) = length (tv_children ?v)" using building_length [OF assms(1)] by simp
  let ?v2 = "upd_node p (\<lambda>n. n\<lparr>nd_at := Some (length (tv_children ?v))\<rparr>) ?v"
  have m2: "makes H b s ?v2 s2" unfolding s2 using assms(2) by (intro makes_put [OF v]) (simp_all, simp add: node_of_def ch)
  note b2 = makes_building [OF m2] and w2 = makes_view [OF m2] and l2 = makes_limits [OF m2]
  let ?s3 = "fold (attach_child F dir axes lr tb (Some p)) [0..<n] s2"
  have n2: "n = unat (nd_count (tv_nodes (view_of s2) ! p))" using assms(2) n by (simp add: w2)
  have "makes H b s2 ((view_of s2)\<lparr>tv_children := tv_children (view_of s2) @ take n (drop (length (tv_buffer (view_of s2)) - n) (tv_buffer (view_of s2)))\<rparr>) ?s3"
    by (rule attach_children_makes [OF b2 _ n2]) (use assms(2,4,5) in \<open>simp_all add: w2 l2\<close>)
  then have m3: "makes H b s (?v2\<lparr>tv_children := tv_children ?v @ drop (length ?B - n) ?B\<rparr>) ?s3" using m2 assms(4) by (simp add: makes_def)
  then have m4: "makes H b s (?v2\<lparr>tv_children := tv_children ?v @ drop (length ?B - n) ?B\<rparr>) s4" unfolding s4 using assms(2) by (intro makes_same) simp_all
  show ?thesis using makes_trans [OF m4 shorter_buffer [OF makes_building [OF m4], of n]] makes_view [OF m4] assms(4) by simp
qed

text \<open>The steps of closing an element, once its clip elements and its layout are known.\<close>

definition adopted :: "'f f32 \<Rightarrow> 'f layout_config \<Rightarrow> bool \<times> bool \<Rightarrow> nat \<Rightarrow> nat \<Rightarrow> ('f, 'h) clay_context \<Rightarrow> ('f, 'h) clay_context" where
  "adopted F lay axes p n s =
     (let lr = int32 F (uint (lc_left lay) + uint (lc_right lay)); tb = int32 F (uint (lc_top lay) + uint (lc_bottom lay)); dir = lc_layoutDirection lay;
          s2 = put_element (Some p) (\<lambda>e. begin_size F dir lr tb (e\<lparr>ln_content := CHILDREN (nat (ca_length (cx_children s)))\<rparr>)) s;
          s4 = put_element (Some p) (add_gaps F dir (lc_childGap lay)) (fold (attach_child F dir axes lr tb (Some p)) [0..<n] s2)
      in s4\<lparr>cx_buffer := (cx_buffer s4)\<lparr>ca_length := ca_length (cx_buffer s4) - int n\<rparr>\<rparr>)"

definition limited :: "'f f32 \<Rightarrow> 'f layout_config \<Rightarrow> 'f layout_config" where
  "limited F lay = lay\<lparr>lc_width := limit_axis F (lc_width lay), lc_height := limit_axis F (lc_height lay)\<rparr>"

definition without_clips :: "int \<Rightarrow> ('f, 'h) clay_context \<Rightarrow> ('f, 'h) clay_context" where
  "without_clips c s = s\<lparr>cx_clipStack := (cx_clipStack s)\<lparr>ca_length := ca_length (cx_clipStack s) - c\<rparr>\<rparr>"

definition closing :: "'f f32 \<Rightarrow> 'f layout_config \<Rightarrow> bool \<times> bool \<Rightarrow> nat \<Rightarrow> nat \<Rightarrow> ('f, 'h) clay_context \<Rightarrow> ('f, 'h) clay_context" where
  "closing F lay axes p n s =
     put_element (Some p) (clamp_axes F (limited F lay)) (put_layout (ln_layoutConfig (element_at s (Some p))) (limited F lay) (adopted F lay axes p n s))"

lemma can_closeE:
  assumes "can_close l v"
  obtains j where "stack_ok v" "1 < length (tv_stack v)" "tv_top v < length (tv_nodes v)" "\<not> nd_bare (tv_nodes v ! tv_top v)"
    "unat (nd_count (tv_nodes v ! tv_top v)) \<le> length (tv_buffer v)"
    "int (length (tv_children v)) + int (unat (nd_count (tv_nodes v ! tv_top v))) \<le> tl_children l"
    "int (length (tv_buffer v)) - int (unat (nd_count (tv_nodes v ! tv_top v))) < tl_buffer l"
    "nd_first (tv_nodes v ! tv_top v) = Some j" "j + nd_kinds (tv_nodes v ! tv_top v) \<le> length (tv_kinds v)"
    "clip_pops (kinds_of_node v (tv_top v)) \<le> tv_clips v"
  using assms stack_ok_top [of v] unfolding can_close_def Let_def by blast

lemma close_size_eq:
  assumes "building H b s" and "can_close (limits_in s) (view_of s)"
  shows "\<exists>lay axes. layout_at s (ln_layoutConfig (element_at s (Some (tv_top (view_of s))))) = Some lay \<and>
    close_size H (Some (tv_top (view_of s))) s =
      Clay__UpdateAspectRatioBox (ho_f32 H) (Some (tv_top (view_of s)))
        (closing (ho_f32 H) lay axes (tv_top (view_of s)) (unat (nd_count (tv_nodes (view_of s) ! tv_top (view_of s))))
          (without_clips (clip_pops (kinds_of_node (view_of s) (tv_top (view_of s)))) s))"
proof -
  let ?v = "view_of s" and ?p = "tv_top (view_of s)"
  let ?x = "tv_nodes ?v ! ?p" and ?ks = "kinds_of_node ?v ?p"
  obtain j where p: "?p < length (tv_nodes ?v)" and x: "\<not> nd_bare ?x" "nd_first ?x = Some j" "j + nd_kinds ?x \<le> length (tv_kinds ?v)"
    using can_closeE [OF assms(2)] by metis
  obtain c where c: "close_clips (ln_configCount (element_at s (Some ?p))) (configs_from s (Some ?p)) 0 = Some (clip_pops ?ks, c)"
    using close_clips_eq [OF own_configs(1) [OF assms(1) p x(2,3)], of 0] own_configs(2) [OF assms(1) p x(2,3)] by auto
  have e: "node_of (element_at s (Some ?p)) = ?x" by (rule element_node [OF assms(1) p])
  have w: "element_at (without_clips i s) q = element_at s q" "layout_at (without_clips i s) l = layout_at s l" for i q l
    by (simp_all add: without_clips_def element_at_def layout_at_def split: option.split layout_ptr.split)
  let ?l = "ln_layoutConfig (element_at s (Some ?p))"
  have "?l \<noteq> LC_NULL" using x(1) arg_cong [OF e, of nd_bare] by (simp add: node_of_def)
  then obtain lay where lay: "layout_at s ?l = Some lay" by (cases ?l) (auto simp: layout_at_def)
  have cnt: "ln_count (element_at s (Some ?p)) = nd_count ?x" using arg_cong [OF e, of nd_count] by (simp add: node_of_def)
  have "close_size H (Some ?p) s = Clay__UpdateAspectRatioBox (ho_f32 H) (Some ?p)
      (closing (ho_f32 H) lay (scroll_axes s c) ?p (unat (nd_count ?x)) (without_clips (clip_pops ?ks) s))"
    using c lay by (simp add: close_size_def Let_def closing_def adopted_def limited_def w cnt flip: without_clips_def)
  then show ?thesis using lay by blast
qed

lemma closing_makes:
  assumes "building H b s" and "can_close (limits_in s) (view_of s)"
  shows "makes H b s (tv_adopt (view_of s)) (closing F lay axes (tv_top (view_of s)) (unat (nd_count (tv_nodes (view_of s) ! tv_top (view_of s))))
    (without_clips (clip_pops (kinds_of_node (view_of s) (tv_top (view_of s)))) s))"
proof -
  let ?v = "view_of s" and ?p = "tv_top (view_of s)"
  let ?ks = "kinds_of_node ?v ?p"
  define n where "n = unat (nd_count (tv_nodes ?v ! ?p))"
  have p: "?p < length (tv_nodes ?v)" and x: "n \<le> length (tv_buffer ?v)" "int (length (tv_children ?v)) + int n \<le> tl_children (limits_in s)" "clip_pops ?ks \<le> tv_clips ?v"
    using can_closeE [OF assms(2)] unfolding n_def by metis+
  have m1: "makes H b s (?v\<lparr>tv_clips := tv_clips ?v - clip_pops ?ks\<rparr>) (without_clips (clip_pops ?ks) s)"
    unfolding without_clips_def by (rule fewer_clips [OF assms(1) clip_pops_nonneg x(3)])
  let ?s1 = "without_clips (clip_pops ?ks) s"
  note b1 = makes_building [OF m1] and v1 = makes_view [OF m1] and l1 = makes_limits [OF m1]
  have "makes H b ?s1 (tv_adopt ?v) (adopted F lay axes ?p n ?s1)" unfolding adopted_def Let_def
    by (rule back_subst [where P = "\<lambda>v. makes H b ?s1 v _", OF adopt_makes [OF b1 _ _ _ _ refl refl, unfolded v1 l1]], use p x(1,2) in \<open>simp_all add: n_def del: of_nat_unat\<close>)
      (rule tree_view.equality, simp_all add: tv_adopt_def Let_def n_def)
  note m5 = makes_trans [OF m1 this]
  have "length (tv_nodes (tv_adopt ?v)) = length (tv_nodes ?v)" by (simp add: tv_adopt_def Let_def)
  then show ?thesis unfolding closing_def n_def [symmetric] using p by (intro makes_same makes_quiet [OF m5] quiet_puts(3)) simp_all
qed

lemma close_size_makes:
  assumes "building H b s" and "can_close (limits_in s) (view_of s)"
  shows "\<exists>s'. close_size H (Some (tv_top (view_of s))) s = Some s' \<and> makes H b s (tv_adopt (view_of s)) s'"
proof -
  let ?v = "view_of s" and ?p = "tv_top (view_of s)"
  obtain j where p: "?p < length (tv_nodes ?v)" and x: "nd_first (tv_nodes ?v ! ?p) = Some j" "j + nd_kinds (tv_nodes ?v ! ?p) \<le> length (tv_kinds ?v)"
    using can_closeE [OF assms(2)] by metis
  have a: "tv_nodes (tv_adopt ?v) ! ?p = (tv_nodes ?v ! ?p)\<lparr>nd_at := Some (length (tv_children ?v))\<rparr>" "length (tv_nodes (tv_adopt ?v)) = length (tv_nodes ?v)" "tv_kinds (tv_adopt ?v) = tv_kinds ?v"
    using p by (simp_all add: tv_adopt_def Let_def)
  show ?thesis using close_size_eq [OF assms] aspect_box_makes [OF closing_makes [OF assms], of ?p j "ho_f32 H"] p x a by fastforce
qed

lemma find_type: "List.find (\<lambda>c. type_of c = t) cs \<noteq> None \<longleftrightarrow> t \<in> set (map type_of cs)"
  by (induction cs) auto

lemma has_config:
  assumes "building H b s" and "k < length (tv_nodes (view_of s))"
    and "nd_first (tv_nodes (view_of s) ! k) = Some j" and "j + nd_kinds (tv_nodes (view_of s) ! k) \<le> length (tv_kinds (view_of s))"
  shows "Clay__ElementHasConfig (Some k) t s = Some (t \<in> set (kinds_of_node (view_of s) k))"
  unfolding Clay__ElementHasConfig_def find_config_eq [OF own_configs(1) [OF assms]] own_configs(2) [OF assms, symmetric]
  by (simp only: find_type option.map)

lemma popped_makes:
  assumes "building H b s" and "tv_stack (view_of s) \<noteq> []"
  shows "Array_RemoveSwapback 0 (cx_stack s) (ca_length (cx_stack s) - 1) (cx_log s) = (last (tv_stack (view_of s)), (cx_stack s)\<lparr>ca_length := ca_length (cx_stack s) - 1\<rparr>, cx_log s)"
    and "makes H b s ((view_of s)\<lparr>tv_stack := butlast (tv_stack (view_of s))\<rparr>) (s\<lparr>cx_stack := (cx_stack s)\<lparr>ca_length := ca_length (cx_stack s) - 1\<rparr>\<rparr>)"
proof -
  have a: "array_ok (cx_stack s)" and st: "tv_stack (view_of s) = values_of (cx_stack s)" using assms(1) by (simp_all add: building_def arrays_ok_def view_of_def)
  then show "Array_RemoveSwapback 0 (cx_stack s) (ca_length (cx_stack s) - 1) (cx_log s) =
      (last (tv_stack (view_of s)), (cx_stack s)\<lparr>ca_length := ca_length (cx_stack s) - 1\<rparr>, cx_log s)" using assms(2) pop_last by simp
  have "0 < ca_length (cx_stack s)" using last_value [OF a] assms(2) st by simp
  then have "values_of ((cx_stack s)\<lparr>ca_length := ca_length (cx_stack s) - 1\<rparr>) = butlast (values_of (cx_stack s))" "array_ok ((cx_stack s)\<lparr>ca_length := ca_length (cx_stack s) - 1\<rparr>)"
    using shorter [OF a, of "ca_length (cx_stack s) - 1"] length_values_of [OF a] by (simp_all add: butlast_conv_take nat_diff_distrib)
  then show "makes H b s ((view_of s)\<lparr>tv_stack := butlast (tv_stack (view_of s))\<rparr>) (s\<lparr>cx_stack := (cx_stack s)\<lparr>ca_length := ca_length (cx_stack s) - 1\<rparr>\<rparr>)"
    using assms(1) by (simp add: makes_def building_def arrays_ok_def view_of_def limits_in_def)
qed

lemma Clay__CloseElement_makes:
  assumes "building H b s" and "can_close (limits_in s) (view_of s)"
  shows "\<exists>s'. Clay__CloseElement H s = Some s' \<and> makes H b s (tv_close (view_of s)) s'"
proof -
  let ?v = "view_of s" and ?p = "tv_top (view_of s)"
  let ?x = "tv_nodes ?v ! ?p"
  obtain j where st: "stack_ok ?v" "1 < length (tv_stack ?v)" and x: "nd_first ?x = Some j" "j + nd_kinds ?x \<le> length (tv_kinds ?v)"
    and room: "int (length (tv_buffer ?v)) - int (unat (nd_count ?x)) < tl_buffer (limits_in s)" "unat (nd_count ?x) \<le> length (tv_buffer ?v)"
    using assms(2) by (auto simp only: can_close_def Let_def)
  have p: "?p < length (tv_nodes ?v)" using stack_ok_top [OF st(1)] by simp
  obtain s1 where s1: "close_size H (Some ?p) s = Some s1" "makes H b s (tv_adopt ?v) s1" using close_size_makes [OF assms] by blast
  note b1 = makes_building [OF s1(2)] and v1 = makes_view [OF s1(2)] and l1 = makes_limits [OF s1(2)]
  have a: "tv_nodes (tv_adopt ?v) = (tv_nodes ?v)[?p := ?x\<lparr>nd_at := Some (length (tv_children ?v))\<rparr>]" "tv_kinds (tv_adopt ?v) = tv_kinds ?v" "tv_stack (tv_adopt ?v) = tv_stack ?v"
    "int (length (tv_buffer (tv_adopt ?v))) < tl_buffer (limits_in s)" using room by (simp_all add: tv_adopt_def Let_def del: of_nat_unat)
  have "kinds_of_node (tv_adopt ?v) ?p = kinds_of_node ?v ?p" using p x(1) by (simp add: kinds_of_node_def a)
  then have fl: "Clay__ElementHasConfig (Some ?p) CLAY__ELEMENT_CONFIG_TYPE_FLOATING s1 = Some (CLAY__ELEMENT_CONFIG_TYPE_FLOATING \<in> set (kinds_of_node ?v ?p))" (is "_ = Some ?f")
    using has_config [OF b1, of ?p j] p x by (simp add: v1 a)
  have ne: "tv_stack (view_of s1) \<noteq> []" using st(2) by (auto simp: v1 a)
  note pop = popped_makes [OF b1 ne]
  let ?s2 = "s1\<lparr>cx_stack := (cx_stack s1)\<lparr>ca_length := ca_length (cx_stack s1) - 1\<rparr>\<rparr>"
  let ?v2 = "(tv_adopt ?v)\<lparr>tv_stack := butlast (tv_stack ?v)\<rparr>"
  have m2: "makes H b s ?v2 ?s2" using makes_trans [OF s1(2) pop(2)] by (simp add: v1 a)
  note b2 = makes_building [OF m2] and v2 = makes_view [OF m2] and l2 = makes_limits [OF m2]
  have st2: "stack_ok ?v2" using st by (cases "tv_stack ?v" rule: rev_cases) (auto simp: stack_ok_def a)
  have o: "Clay__GetOpenLayoutElement ?s2 = (Some (tv_top ?v2), ?s2)" using open_element [OF b2] st2 by (simp add: v2)
  have len: "1 < ca_length (cx_stack ?s2) \<longleftrightarrow> 1 < length (butlast (tv_stack ?v))"
    using building_length [OF b2] b2 by (auto simp: v2 building_def arrays_ok_def array_ok_def)
  let ?s3 = "put_element (Some (tv_top ?v2)) (\<lambda>e. e\<lparr>ln_count := ln_count e + 1\<rparr>) ?s2"
  have m3: "makes H b s (one_more (tv_top ?v2) ?v2) ?s3" unfolding one_more_def using stack_ok_top [OF st2]
    by (intro makes_put [OF m2]) (simp_all add: node_of_def)
  have "makes H b s ((one_more (tv_top ?v2) ?v2)\<lparr>tv_buffer := tv_buffer (tv_adopt ?v) @ [last (tv_stack ?v)]\<rparr>) (snd (add_in cx_buffer cx_buffer_update (last (tv_stack ?v)) ?s3))"
    using makes_trans [OF m3 add_buffer [OF makes_building [OF m3], of "last (tv_stack ?v)"]] a(4) by (simp add: makes_view [OF m3] makes_limits [OF m3] one_more_def)
  moreover have "(one_more (tv_top ?v2) ?v2)\<lparr>tv_buffer := tv_buffer (tv_adopt ?v) @ [last (tv_stack ?v)]\<rparr> =
      one_more (tv_top ?v2) (?v2\<lparr>tv_buffer := tv_buffer (tv_adopt ?v) @ [last (tv_stack ?v)]\<rparr>)" by (rule tree_view.equality) (simp_all add: one_more_def)
  ultimately show ?thesis using s1(1) fl pop(1) o len m2 assms(1) open_element [OF assms(1) st(1)]
    by (simp add: Clay__CloseElement_def v1 a tv_close_def tv_leave_def Let_def building_def [of H b s])
qed

section \<open>The library is an implementation\<close>

interpretation clay: tree_builder "building H" view_of limits_in "kinds_in H" word_need "Clay__OpenElement H" "Clay__ConfigureOpenElementPtr H" "Clay__OpenTextElement H"
  "Clay__CloseElement H" "declare_ui H" "declare_all H" for H
proof unfold_locales
  fix b and s :: "('a, 'b) clay_context"
  assume "building H b s" "can_open (limits_in s) (view_of s)"
  then show "building H b (Clay__OpenElement H s) \<and> limits_in (Clay__OpenElement H s) = limits_in s \<and> view_of (Clay__OpenElement H s) = tv_open (view_of s)"
    using Clay__OpenElement_makes by (auto simp: makes_def)
next
  fix b d and s :: "('a, 'b) clay_context"
  assume "building H b s" "can_configure (kinds_in H d) (limits_in s) (view_of s)"
  then show "\<exists>s'. Clay__ConfigureOpenElementPtr H d s = Some s' \<and> building H b s' \<and> limits_in s' = limits_in s \<and> view_of s' = tv_configure (kinds_in H d) (view_of s)"
    using Clay__ConfigureOpenElementPtr_makes by (fastforce simp: makes_def)
next
  fix x b c and s :: "('a, 'b) clay_context"
  assume "building H (word_need x + b) s" "can_text (limits_in s) (view_of s)"
  then show "\<exists>s'. Clay__OpenTextElement H x c s = Some s' \<and> building H b s' \<and> limits_in s' = limits_in s \<and> view_of s' = tv_text (view_of s)"
    using Clay__OpenTextElement_makes by (fastforce simp: makes_def)
next
  fix b and s :: "('a, 'b) clay_context"
  assume "building H b s" "can_close (limits_in s) (view_of s)"
  then show "\<exists>s'. Clay__CloseElement H s = Some s' \<and> building H b s' \<and> limits_in s' = limits_in s \<and> view_of s' = tv_close (view_of s)"
    using Clay__CloseElement_makes by (fastforce simp: makes_def)
qed (simp_all split: option.split Option.bind_split)

end
