(* ===== verification/Clay_Frame.thy ===== *)
theory Clay_Frame
  imports Clay_Build
begin

text \<open>
  A frame from \<open>Clay_BeginLayout\<close> to the closing of the root in \<open>Clay_EndLayout\<close>: the tree of a whole user interface.
\<close>

section \<open>The start\<close>

text \<open>Every array of a frame has place for \<open>N\<close> values, the maximum of elements.\<close>

definition sized :: "nat \<Rightarrow> ('f, 'h) clay_context \<Rightarrow> bool" where
  "sized N s \<longleftrightarrow> limits_in s = \<lparr>tl_elements = int N, tl_stack = int N, tl_children = int N, tl_buffer = int N, tl_clips = int N, tl_kinds = int N\<rparr>"

definition empty_view :: tree_view where
  "empty_view = \<lparr>tv_nodes = [], tv_stack = [], tv_children = [], tv_buffer = [], tv_clips = 0, tv_kinds = []\<rparr>"

definition ready :: "'f host \<Rightarrow> nat \<Rightarrow> ('f, 'h) clay_context \<Rightarrow> bool" where
  "ready H b s \<longleftrightarrow> map_ok (cx_map s) \<and> cache_good (cx_text s) \<and> spare_words b (cx_text s) \<and> (cx_external s \<longrightarrow> ho_query H \<noteq> None)"

definition root_kinds :: "'f host \<Rightarrow> 'f vec2 \<Rightarrow> config_type list" where
  "root_kinds H wh = kinds_in H (root_declaration H wh)"

lemma map_ok_generation [simp]: "map_ok (m\<lparr>hm_generation := g\<rparr>) = map_ok m"
  by (simp add: map_ok_def)

lemma floats_iff: "CLAY__ELEMENT_CONFIG_TYPE_FLOATING \<in> set (kinds_in H d) \<longleftrightarrow> fl_attachTo (dc_floating d) \<noteq> CLAY_ATTACH_TO_NONE"
  by (simp add: kinds_in_def opt_kind_def)

lemma root_kinds_facts: "length (root_kinds H wh) \<le> 2" "clip_pops (root_kinds H wh) = 0" "CLAY__ELEMENT_CONFIG_TYPE_FLOATING \<notin> set (root_kinds H wh)"
proof -
  let ?d = "root_declaration H wh"
  have d: "dc_border ?d = \<lparr>bo_color = (z32 (ho_f32 H), z32 (ho_f32 H), z32 (ho_f32 H), z32 (ho_f32 H)), bo_width = \<lparr>bw_left = 0, bw_right = 0, bw_top = 0, bw_bottom = 0, bw_betweenChildren = 0\<rparr>\<rparr>"
    "dc_imageData ?d = 0" "dc_customData ?d = 0" "fl_attachTo (dc_floating ?d) = CLAY_ATTACH_TO_NONE" "\<not> cl_horizontal (dc_clip ?d)" "\<not> cl_vertical (dc_clip ?d)"
    by (simp_all add: root_declaration_def zero_declaration_def Let_def)
  have "\<not> has_border H ?d"
    using Clay__MemCmp_iff [of 10 "concat (map half_bytes (border_widths (bo_width (dc_border ?d))))" "replicate 10 0" "ho_build H"]
    by (simp add: has_border_def d border_widths_def half_bytes_def numeral_eq_Suc)
  then show "length (root_kinds H wh) \<le> 2" by (simp add: root_kinds_def kinds_in_def length_opt_kind d)
  show "clip_pops (root_kinds H wh) = 0" by (simp add: root_kinds_def clip_pops_kinds d)
  show "CLAY__ELEMENT_CONFIG_TYPE_FLOATING \<notin> set (root_kinds H wh)" by (simp add: root_kinds_def floats_iff d)
qed

definition root_node :: "nat \<Rightarrow> node" where
  "root_node k = \<lparr>nd_at = None, nd_count = 0, nd_first = Some 0, nd_kinds = k, nd_bare = False\<rparr>"

text \<open>The frame begins with the root open, twice on the stack.\<close>

definition first_view :: "config_type list \<Rightarrow> tree_view" where
  "first_view ks = \<lparr>tv_nodes = [root_node (length ks)], tv_stack = [0, 0], tv_children = [], tv_buffer = [], tv_clips = 0, tv_kinds = ks\<rparr>"

lemma first_view_simps [simp]:
  "tv_stack (first_view ks) = [0, 0]" "tv_children (first_view ks) = []" "tv_buffer (first_view ks) = []" "tv_clips (first_view ks) = 0"
  "tv_kinds (first_view ks) = ks" "length (tv_nodes (first_view ks)) = 1" "tv_top (first_view ks) = 0"
  by (simp_all add: first_view_def tv_top_def)

lemma reset_makes:
  assumes "ready H b s" and "sized N s"
    and "t = (reset_frame s)\<lparr>cx_map := (cx_map s)\<lparr>hm_generation := g\<rparr>, cx_text := (cx_text s)\<lparr>tx_generation := g', tx_notSet := False, tx_exceeded := False\<rparr>, cx_maxExceeded := False\<rparr>"
  shows "building H b t \<and> sized N t \<and> view_of t = empty_view"
  using assms by (simp add: ready_def building_def arrays_ok_def sized_def limits_in_def view_of_def empty_view_def reset_frame_def emptied_def array_ok_def values_of_def spare_words_def)

lemma Clay_BeginLayout_makes:
  assumes "ready H b s" and "sized N s" and "2 \<le> N"
  shows "\<exists>s' wh. Clay_BeginLayout H s = Some s' \<and> building H b s' \<and> sized N s' \<and> view_of s' = first_view (root_kinds H wh)"
proof -
  define t where "t = (reset_frame s)\<lparr>cx_map := (cx_map s)\<lparr>hm_generation := hm_generation (cx_map s) + 1\<rparr>,
      cx_text := (cx_text s)\<lparr>tx_generation := tx_generation (cx_text s) + 1, tx_notSet := False, tx_exceeded := False\<rparr>, cx_maxExceeded := False\<rparr>"
  have t: "building H b t" "sized N t" "view_of t = empty_view" using reset_makes [OF assms(1,2) t_def] by simp_all
  define wh where "wh = (if hm_debugMode (cx_map t) then sub32 (ho_f32 H) (fst (cx_layoutDimensions t)) (int32 (ho_f32 H) Clay__debugViewWidth) else fst (cx_layoutDimensions t), snd (cx_layoutDimensions t))"
  have "can_open (limits_in t) (view_of t)" using t(2,3) assms(3) by (simp add: can_open_def sized_def empty_view_def)
  then have m1: "makes H b t (tv_open empty_view) (Clay__OpenElement H t)" using Clay__OpenElement_makes [OF t(1)] t(3) by simp
  have "can_configure (root_kinds H wh) (limits_in t) (tv_open empty_view)"
    using t(2) assms(3) root_kinds_facts [of H wh] by (auto simp: can_configure_def sized_def tv_open_def empty_view_def stack_ok_def)
  then obtain s1 where s1: "Clay__ConfigureOpenElementPtr H (root_declaration H wh) (Clay__OpenElement H t) = Some s1"
    "makes H b t (tv_configure (root_kinds H wh) (tv_open empty_view)) s1"
    using Clay__ConfigureOpenElementPtr_makes [OF makes_building [OF m1], of "root_declaration H wh"] makes_view [OF m1] makes_limits [OF m1] makes_trans [OF m1]
    by (auto simp: root_kinds_def)
  note b1 = makes_building [OF s1(2)]
  have v1: "view_of s1 = (first_view (root_kinds H wh))\<lparr>tv_stack := [0]\<rparr>"
    using makes_view [OF s1(2)] root_kinds_facts(2) [of H wh] by (simp add: configured_open empty_view_def first_view_def root_node_def)
  have l1: "limits_in s1 = limits_in t" by (rule makes_limits [OF s1(2)])
  obtain p2 s2 where s2: "add_in cx_stack cx_stack_update 0 s1 = (p2, s2)" by fastforce
  have m2: "makes H b s1 (first_view (root_kinds H wh)) s2"
    using add_stack [OF b1, of 0] t(2) assms(3) s2 by (simp add: v1 l1 sized_def first_view_def)
  let ?r = "\<lparr>tr_layoutElementIndex = 0, tr_parentId = 0, tr_clipElementId = 0, tr_zIndex = 0, tr_pointerOffset = (z32 (ho_f32 H), z32 (ho_f32 H))\<rparr>"
  obtain p3 s3 where s3: "add_in cx_roots cx_roots_update ?r s2 = (p3, s3)" by fastforce
  have "quiet s2 s3" using quiet_adds(12) [of s2 ?r] s3 by simp
  then have "makes H b s1 (first_view (root_kinds H wh)) s3" by (rule makes_quiet [OF m2])
  moreover have "Clay_BeginLayout H s = Some s3"
    using s1(1) s2 s3 by (cases "hm_debugMode (cx_map s)") (simp_all add: Clay_BeginLayout_def Let_def wh_def t_def reset_frame_def)
  ultimately show ?thesis using t(2) l1 by (intro exI [of _ s3] exI [of _ wh]) (simp add: makes_def sized_def)
qed

section \<open>The whole frame\<close>

definition children_of :: "('f, 'h) clay_context \<Rightarrow> 'f layout_element \<Rightarrow> int list" where
  "children_of s e = (case ln_content e of CHILDREN a \<Rightarrow> take (unat (ln_count e)) (drop a (values_of (cx_children s))) | _ \<Rightarrow> [])"

lemma children_of_kids: "map (children_of s) (values_of (cx_elements s)) = map (kids (tv_children (view_of s))) (tv_nodes (view_of s))"
  by (simp add: view_of_def children_of_def kids_def node_of_def split: content_ptr.split)

lemma root_grown:
  fixes ks :: "'f kinds"
  defines "v rk ts \<equiv> grown ks ts (first_view rk)"
  assumes "length ts < 2 ^ 16" and "ui_narrows ts" and "CLAY__ELEMENT_CONFIG_TYPE_FLOATING \<notin> set rk" and "clip_pops rk = 0"
  shows "unat (nd_count (tv_nodes (v rk ts) ! 0)) = length (child_indices ks 1 ts)" "kinds_of_node (v rk ts) 0 = rk"
    "\<not> nd_bare (tv_nodes (v rk ts) ! 0)" "nd_first (tv_nodes (v rk ts) ! 0) = Some 0" "nd_kinds (tv_nodes (v rk ts) ! 0) = length rk"
    "tv_stack (tv_close (v rk ts)) = [0]" "tv_buffer (tv_close (v rk ts)) = []" "tv_clips (tv_close (v rk ts)) = 0"
    "map (kids (tv_children (tv_close (v rk ts)))) (tv_nodes (tv_close (v rk ts))) = child_indices ks 1 ts # ui_childrens ks 1 ts"
proof -
  let ?c = "length (child_indices ks 1 ts)"
  have c: "unat (of_nat ?c :: 16 word) = ?c" using child_indices_length [of ks 1 ts] assms(2) by (simp add: unat_of_nat)
  have n: "tv_nodes (v rk ts) = (root_node (length rk))\<lparr>nd_count := of_nat ?c\<rparr> # ui_nodess ks 1 0 (length rk) ts"
    by (simp add: v_def grown_def Let_def first_view_def tv_top_def root_node_def)
  have top: "tv_top (v rk ts) = 0" by (simp add: v_def)
  show "unat (nd_count (tv_nodes (v rk ts) ! 0)) = ?c" "\<not> nd_bare (tv_nodes (v rk ts) ! 0)" "nd_first (tv_nodes (v rk ts) ! 0) = Some 0" "nd_kinds (tv_nodes (v rk ts) ! 0) = length rk"
    using c by (simp_all add: n root_node_def)
  show k: "kinds_of_node (v rk ts) 0 = rk" by (simp add: kinds_of_node_def n root_node_def) (simp add: v_def)
  have cl: "tv_close (v rk ts) = (tv_adopt (v rk ts))\<lparr>tv_stack := [0]\<rparr>"
    by (simp add: tv_close_def top k assms(4) tv_leave_def tv_adopt_def Let_def) (simp add: v_def)
  have ad: "tv_adopt (v rk ts) = (upd_node 0 (\<lambda>n. n\<lparr>nd_at := Some (length (ui_slotss ks 1 ts))\<rparr>) (v rk ts))
      \<lparr>tv_children := ui_slotss ks 1 ts @ child_indices ks 1 ts, tv_buffer := [], tv_clips := 0\<rparr>"
    by (simp add: tv_adopt_def top Let_def k assms(5) n root_node_def) (simp add: v_def c [unfolded One_nat_def])
  show "tv_stack (tv_close (v rk ts)) = [0]" "tv_buffer (tv_close (v rk ts)) = []" "tv_clips (tv_close (v rk ts)) = 0"
    by (simp_all add: cl ad)
  show "map (kids (tv_children (tv_close (v rk ts)))) (tv_nodes (tv_close (v rk ts))) = child_indices ks 1 ts # ui_childrens ks 1 ts"
    using kids_of_nodes(2) [OF assms(3), of "[]" ks 1 "child_indices ks 1 ts" "length rk"] c
    by (simp add: cl ad n root_node_def kids_eq)
qed

lemma declare_frame_makes:
  assumes "ready H (ui_texts word_need ts) s" and "sized N s" and "length ts < 2 ^ 16" "ui_narrows ts" and "1 + ui_sizes ts < N"
    and "2 + length (ui_kindss (kinds_in H) ts) \<le> N" and "clip_depths (kinds_in H) ts \<le> int N"
  shows "\<exists>s'. declare_frame H ts s = Some s' \<and> building H 0 s' \<and> values_of (cx_stack s') = [0] \<and> values_of (cx_buffer s') = [] \<and> ca_length (cx_clipStack s') = 0 \<and>
    map (children_of s') (values_of (cx_elements s')) = child_indices (kinds_in H) 1 ts # ui_childrens (kinds_in H) 1 ts"
proof -
  obtain s1 wh where s1: "Clay_BeginLayout H s = Some s1" "building H (ui_texts word_need ts + 0) s1" "sized N s1" "view_of s1 = first_view (root_kinds H wh)"
    using Clay_BeginLayout_makes [OF assms(1,2)] assms(5) by auto
  let ?rk = "root_kinds H wh" and ?ks = "kinds_in H :: 'a kinds"
  note rk = root_kinds_facts [of H wh]
  have "ui_room (ui_sizes ts) (length (ui_kindss ?ks ts)) (clip_depths ?ks ts) (limits_in s1) (view_of s1)"
    using s1(3) assms(5-7) rk(1) by (simp add: ui_room_def s1(4) first_view_def sized_def stack_ok_def)
  then obtain s2 where s2: "declare_all H ts s1 = Some s2" "building H 0 s2" "limits_in s2 = limits_in s1" "view_of s2 = grown ?ks ts (first_view ?rk)"
    using clay.declares(2) [OF s1(2) assms(4)] s1(4) by auto
  note g = root_grown [OF assms(3,4) rk(3,2), of ?ks]
  have "can_close (limits_in s2) (view_of s2)"
    using s2(3) s1(3) assms(5) rk(2) slots_length(2) [of ?ks 1 ts] child_indices_length [of ?ks 1 ts] ui_sizes_length [of ts]
    by (simp add: can_close_def Let_def s2(4) g(1-5) [unfolded One_nat_def] sized_def stack_ok_def del: of_nat_unat)
  then obtain s3 where s3: "Clay__CloseElement H s2 = Some s3" "makes H 0 s2 (tv_close (grown ?ks ts (first_view ?rk))) s3"
    using Clay__CloseElement_makes [OF s2(2)] s2(4) by auto
  have v: "view_of s3 = tv_close (grown ?ks ts (first_view ?rk))" by (rule makes_view [OF s3(2)])
  have "map (children_of s3) (values_of (cx_elements s3)) = child_indices ?ks 1 ts # ui_childrens ?ks 1 ts"
    unfolding children_of_kids v by (rule g(9))
  moreover have "values_of (cx_stack s3) = [0]" "values_of (cx_buffer s3) = []" "ca_length (cx_clipStack s3) = 0"
    using g(6-8) arg_cong [OF v, of tv_stack] arg_cong [OF v, of tv_buffer] arg_cong [OF v, of tv_clips] by (simp_all add: view_of_def)
  ultimately show ?thesis using s1(1) s2(1) s3(1) makes_building [OF s3(2)] by (simp add: declare_frame_def)
qed

end
