(* ===== verification/Clay_Fit.thy ===== *)
theory Clay_Fit
  imports Clay_Frame
begin

text \<open>
  The size \<open>Clay__CloseElement\<close> gives an element: along the axis of its layout the padding, the sizes of its children and the gaps between
  them, across it the largest child with the padding, both within the limits of the layout.
\<close>

section \<open>The size of an element\<close>

definition along :: "'f f32 \<Rightarrow> 'f \<Rightarrow> 'f \<Rightarrow> 'f list \<Rightarrow> 'f" where
  "along F padding gaps sizes = add32 F (foldl (add32 F) padding sizes) gaps"

definition across :: "'f f32 \<Rightarrow> 'f \<Rightarrow> 'f \<Rightarrow> 'f list \<Rightarrow> 'f" where
  "across F padding start sizes = foldl (\<lambda>m x. if gt32 F m (add32 F x padding) then m else add32 F x padding) start sizes"

text \<open>Brought up to the minimum, then down to the maximum; a maximum of zero or less is none.\<close>

definition within :: "'f f32 \<Rightarrow> 'f sizing_axis \<Rightarrow> 'f \<Rightarrow> 'f" where
  "within F a x =
     (if sa_type a = CLAY__SIZING_TYPE_PERCENT then z32 F
      else let least = (if gt32 F x (sa_min a) then x else sa_min a);
               most = (if le32 F (sa_max a) (z32 F) then max32 F else sa_max a)
           in if gt32 F most least then least else most)"

definition fit_size :: "'f f32 \<Rightarrow> 'f layout_config \<Rightarrow> 'f vec2 list \<Rightarrow> 'f vec2 \<Rightarrow> 'f vec2" where
  "fit_size F lay cs start =
     (let lr = int32 F (uint (lc_left lay) + uint (lc_right lay)); tb = int32 F (uint (lc_top lay) + uint (lc_bottom lay));
          gaps = int32 F (max (int (length cs) - 1) 0 * uint (lc_childGap lay))
      in case lc_layoutDirection lay of
           CLAY_LEFT_TO_RIGHT \<Rightarrow> (within F (lc_width lay) (along F lr gaps (map fst cs)), within F (lc_height lay) (across F tb (snd start) (map snd cs)))
         | CLAY_TOP_TO_BOTTOM \<Rightarrow> (within F (lc_width lay) (across F lr (fst start) (map fst cs)), within F (lc_height lay) (along F tb gaps (map snd cs))))"

lemma grown_dimensions:
  "ln_dimensions (fold (grow_by_child F dir axes lr tb) cs e) =
     (case dir of
        CLAY_LEFT_TO_RIGHT \<Rightarrow> (foldl (add32 F) (fst (ln_dimensions e)) (map (\<lambda>c. fst (ln_dimensions c)) cs), across F tb (snd (ln_dimensions e)) (map (\<lambda>c. snd (ln_dimensions c)) cs))
      | CLAY_TOP_TO_BOTTOM \<Rightarrow> (across F lr (fst (ln_dimensions e)) (map (\<lambda>c. fst (ln_dimensions c)) cs), foldl (add32 F) (snd (ln_dimensions e)) (map (\<lambda>c. snd (ln_dimensions c)) cs)))"
  by (induction cs arbitrary: e) (simp_all add: grow_by_child_def across_def CLAY__MAX_def split: layout_direction.split)

lemma grown_count: "ln_count (fold (grow_by_child F dir axes lr tb) cs e) = ln_count e"
  by (induction cs arbitrary: e) (simp_all add: grow_by_child_def split: layout_direction.split)

definition fitted :: "'f f32 \<Rightarrow> 'f layout_config \<Rightarrow> bool \<times> bool \<Rightarrow> 'f layout_element list \<Rightarrow> 'f layout_element \<Rightarrow> 'f layout_element" where
  "fitted F lay axes cs e =
     (let lr = int32 F (uint (lc_left lay) + uint (lc_right lay)); tb = int32 F (uint (lc_top lay) + uint (lc_bottom lay)); dir = lc_layoutDirection lay
      in clamp_axes F (limited F lay) (add_gaps F dir (lc_childGap lay) (fold (grow_by_child F dir axes lr tb) cs (begin_size F dir lr tb e))))"

lemma fitted_size:
  assumes "unat (ln_count e) = length cs"
  shows "ln_dimensions (fitted F lay axes cs e) = fit_size F lay (map ln_dimensions cs) (ln_dimensions e)"
proof -
  have u: "uint (ln_count e) = int (length cs)" using assms by (simp only: uint_nat)
  have t: "sa_type (limit_axis F a) = sa_type a" for a by (simp add: limit_axis_def)
  have w: "(if sa_type a = CLAY__SIZING_TYPE_PERCENT then z32 F else clamp F (limit_axis F a) x) = within F a x" for a x
    by (simp add: within_def clamp_def limit_axis_def CLAY__MAX_def CLAY__MIN_def Let_def)
  show ?thesis
    by (cases "lc_layoutDirection lay")
      (simp_all add: fitted_def fit_size_def Let_def clamp_axes_def add_gaps_def grown_dimensions grown_count begin_size_def limited_def along_def u t w comp_def)
qed

section \<open>What happens to the elements\<close>

lemma element_cell:
  assumes "building H b s" and "p < length (tv_nodes (view_of s))"
  shows "p < length (ca_cells (cx_elements s))"
proof -
  have "array_ok (cx_elements s)" "p < nat (ca_length (cx_elements s))" using assms building_length [OF assms(1)] by (simp_all add: building_def arrays_ok_def)
  then show ?thesis using array_okD [of "cx_elements s"] by linarith
qed

lemma element_put:
  assumes "building H b s" and "p < length (tv_nodes (view_of s))"
  shows "element_at (put_element (Some p) g s) (Some k) = (if k = p then g (element_at s (Some p)) else element_at s (Some k))"
  using element_cell [OF assms] by (simp add: element_at_def put_element_def)

lemma element_same: "cx_elements s' = cx_elements s \<Longrightarrow> element_at s' (Some k) = element_at s (Some k)"
  by (simp add: element_at_def)

lemma element_adds [simp]:
  "cx_elements (snd (add_in cx_children cx_children_update x s)) = cx_elements s" "cx_elements (snd (add_in cx_buffer cx_buffer_update y s)) = cx_elements s"
  by (simp_all add: add_in_def split: prod.split)

lemma valid_child: "0 \<le> x \<Longrightarrow> x < ca_length (cx_elements s) \<Longrightarrow> get_element x s = (Some (nat x), s)"
  by (simp add: get_element_def Array_Get_in)

text \<open>What the loop over the children makes of the elements.\<close>

lemma attach_child_elements:
  assumes "building H b s" and "p < length (tv_nodes (view_of s))" and "n = unat (nd_count (tv_nodes (view_of s) ! p))" and "n \<le> length (tv_buffer (view_of s))" "i < n"
    and "x = tv_buffer (view_of s) ! (length (tv_buffer (view_of s)) - n + i)" and "0 \<le> x" "x < ca_length (cx_elements s)"
  shows "element_at (attach_child F dir axes lr tb (Some p) i s) (Some k) =
    (if k = p then grow_by_child F dir axes lr tb (element_at s (Some (nat x))) (element_at s (Some p)) else element_at s (Some k))"
proof -
  have g: "value_in cx_buffer (ca_length (cx_buffer s) - uint (ln_count (element_at s (Some p))) + int i) s = (x, s)"
    using buffer_value [OF assms(1-5)] assms(6) by simp
  show ?thesis unfolding element_put [OF assms(1,2), symmetric]
    by (rule element_same) (simp add: attach_child_def g valid_child [OF assms(7,8)])
qed

lemma attach_children_elements:
  assumes "building H b s" and "p < length (tv_nodes (view_of s))" and n: "n = unat (nd_count (tv_nodes (view_of s) ! p))" and "n \<le> length (tv_buffer (view_of s))"
    and "int (length (tv_children (view_of s))) + int n \<le> tl_children (limits_in s)"
    and ks: "ks = drop (length (tv_buffer (view_of s)) - n) (tv_buffer (view_of s))" and "\<forall>x \<in> set ks. 0 \<le> x \<and> x < ca_length (cx_elements s) \<and> x \<noteq> int p" and "i \<le> n"
  shows "element_at (fold (attach_child F dir axes lr tb (Some p)) [0..<i] s) (Some k) =
    (if k = p then fold (grow_by_child F dir axes lr tb) (map (\<lambda>x. element_at s (Some (nat x))) (take i ks)) (element_at s (Some p)) else element_at s (Some k))"
  using assms(8)
proof (induction i arbitrary: k)
  case (Suc i)
  let ?s = "fold (attach_child F dir axes lr tb (Some p)) [0..<i] s" and ?x = "ks ! i"
  have m: "makes H b s ((view_of s)\<lparr>tv_children := tv_children (view_of s) @ take i ks\<rparr>) ?s"
    unfolding ks using attach_children_makes [OF assms(1-5)] Suc(2) by simp
  note b = makes_building [OF m] and v = makes_view [OF m]
  have i: "i < length ks" using Suc(2) assms(4) by (simp add: ks)
  then have x: "0 \<le> ?x" "?x < ca_length (cx_elements s)" "?x \<noteq> int p" using assms(7) by auto
  have "element_at (attach_child F dir axes lr tb (Some p) i ?s) (Some k) =
      (if k = p then grow_by_child F dir axes lr tb (element_at ?s (Some (nat ?x))) (element_at ?s (Some p)) else element_at ?s (Some k))"
  proof (rule attach_child_elements [OF b])
    show "n = unat (nd_count (tv_nodes (view_of ?s) ! p))" using n by (simp add: v)
    show "?x = tv_buffer (view_of ?s) ! (length (tv_buffer (view_of ?s)) - n + i)" using i by (simp add: v ks)
    show "?x < ca_length (cx_elements ?s)" using x(2) element_count [OF b] element_count [OF assms(1)] by (simp add: v)
  qed (use assms(2,4) Suc(2) x(1) in \<open>simp_all add: v\<close>)
  moreover have "nat ?x \<noteq> p" using x by auto
  ultimately show ?case using Suc.IH Suc(2) i by (simp add: take_Suc_conv_app_nth)
qed simp

lemma adopted_element:
  fixes s :: "('f, 'h) clay_context"
  assumes "building H b s" and "p < length (tv_nodes (view_of s))" and n: "n = unat (nd_count (tv_nodes (view_of s) ! p))" and "n \<le> length (tv_buffer (view_of s))"
    and "int (length (tv_children (view_of s))) + int n \<le> tl_children (limits_in s)"
    and ks: "ks = drop (length (tv_buffer (view_of s)) - n) (tv_buffer (view_of s))" and "\<forall>x \<in> set ks. 0 \<le> x \<and> x < ca_length (cx_elements s) \<and> x \<noteq> int p"
  shows "\<exists>c. clamp_axes F (limited F lay) (element_at (adopted F lay axes p n s) (Some p)) =
    fitted F lay axes (map (\<lambda>x. element_at s (Some (nat x))) ks) ((element_at s (Some p))\<lparr>ln_content := c\<rparr>)"
proof -
  let ?lr = "int32 F (uint (lc_left lay) + uint (lc_right lay))" and ?tb = "int32 F (uint (lc_top lay) + uint (lc_bottom lay))" and ?dir = "lc_layoutDirection lay"
  let ?c = "CHILDREN (nat (ca_length (cx_children s)))"
  let ?g = "\<lambda>e. begin_size F ?dir ?lr ?tb (e\<lparr>ln_content := ?c\<rparr>)"
  define s2 where "s2 = put_element (Some p) ?g s"
  have m2: "makes H b s (upd_node p (\<lambda>n. n\<lparr>nd_at := Some (nat (ca_length (cx_children s)))\<rparr>) (view_of s)) s2"
    unfolding s2_def using assms(2) by (intro put_element_makes [OF assms(1)]) (simp_all, simp add: node_of_def)
  note b2 = makes_building [OF m2] and v2 = makes_view [OF m2] and l2 = makes_limits [OF m2]
  have e2: "element_at s2 (Some k) = (if k = p then ?g (element_at s (Some p)) else element_at s (Some k))" for k
    using element_put [OF assms(1,2), of ?g k] by (simp add: s2_def)
  then have e2p: "element_at s2 (Some p) = ?g (element_at s (Some p))" by simp
  from e2 have cs: "map (\<lambda>x. element_at s2 (Some (nat x))) ks = map (\<lambda>x. element_at s (Some (nat x))) ks" using assms(7) by auto
  let ?s3 = "fold (attach_child F ?dir axes ?lr ?tb (Some p)) [0..<n] s2"
  have n2: "n = unat (nd_count (tv_nodes (view_of s2) ! p))" using assms(2) n by (simp add: v2)
  have ks2: "ks = drop (length (tv_buffer (view_of s2)) - n) (tv_buffer (view_of s2))" by (simp add: v2 ks)
  have val: "\<forall>x \<in> set ks. 0 \<le> x \<and> x < ca_length (cx_elements s2) \<and> x \<noteq> int p"
    using assms(7) element_count [OF b2] element_count [OF assms(1)] by (simp add: v2)
  have r: "p < length (tv_nodes (view_of s2))" "n \<le> length (tv_buffer (view_of s2))" "int (length (tv_children (view_of s2))) + int n \<le> tl_children (limits_in s2)"
    using assms(2,4,5) by (simp_all add: v2 l2)
  have tk: "take n ks = ks" using assms(4) by (simp add: ks)
  have e3: "element_at ?s3 (Some p) = fold (grow_by_child F ?dir axes ?lr ?tb) (map (\<lambda>x. element_at s (Some (nat x))) ks) (?g (element_at s (Some p)))"
    using attach_children_elements [OF b2 r(1) n2 r(2,3) ks2 val le_refl, of F ?dir axes ?lr ?tb p] by (simp only: simp_thms if_True tk cs e2p)
  note m3 = attach_children_makes [OF b2 r(1) n2 r(2,3) le_refl, of F ?dir axes ?lr ?tb]
  have p3: "p < length (tv_nodes (view_of ?s3))" using assms(2) by (simp add: makes_view [OF m3] v2)
  have "element_at (adopted F lay axes p n s) (Some p) = add_gaps F ?dir (lc_childGap lay) (element_at ?s3 (Some p))"
    using element_put [OF makes_building [OF m3] p3, of "add_gaps F ?dir (lc_childGap lay)" p]
    by (simp add: adopted_def Let_def s2_def [symmetric] element_at_def)
  then show ?thesis by (intro exI [of _ ?c]) (simp add: e3 fitted_def Let_def)
qed

lemma closing_element:
  assumes "building H b s" and "can_close (limits_in s) (view_of s)" and p: "p = tv_top (view_of s)"
    and ks: "ks = drop (length (tv_buffer (view_of s)) - unat (nd_count (tv_nodes (view_of s) ! p))) (tv_buffer (view_of s))"
    and "\<forall>x \<in> set ks. 0 \<le> x \<and> x < ca_length (cx_elements s) \<and> x \<noteq> int p"
  shows "\<exists>c. element_at (closing F lay axes p (unat (nd_count (tv_nodes (view_of s) ! p))) (without_clips (clip_pops (kinds_of_node (view_of s) p)) s)) (Some p) =
    fitted F lay axes (map (\<lambda>x. element_at s (Some (nat x))) ks) ((element_at s (Some p))\<lparr>ln_content := c\<rparr>)"
proof -
  let ?v = "view_of s" and ?s1 = "without_clips (clip_pops (kinds_of_node (view_of s) p)) s"
  define n where "n = unat (nd_count (tv_nodes ?v ! p))"
  have pl: "p < length (tv_nodes ?v)" and x: "n \<le> length (tv_buffer ?v)" "int (length (tv_children ?v)) + int n \<le> tl_children (limits_in s)" "clip_pops (kinds_of_node ?v p) \<le> tv_clips ?v"
    using can_closeE [OF assms(2)] unfolding n_def p by metis+
  have m1: "makes H b s (?v\<lparr>tv_clips := tv_clips ?v - clip_pops (kinds_of_node ?v p)\<rparr>) ?s1"
    unfolding without_clips_def by (rule fewer_clips [OF assms(1) clip_pops_nonneg x(3)])
  note b1 = makes_building [OF m1] and v1 = makes_view [OF m1] and l1 = makes_limits [OF m1]
  have e1: "element_at ?s1 (Some k) = element_at s (Some k)" "cx_elements ?s1 = cx_elements s" for k by (simp_all add: without_clips_def element_at_def)
  have cl: "makes H b s (tv_adopt ?v) (closing F lay axes p n ?s1)" using closing_makes [OF assms(1,2), of F lay axes] by (simp add: p n_def)
  have "\<exists>c. clamp_axes F (limited F lay) (element_at (adopted F lay axes p n ?s1) (Some p)) =
      fitted F lay axes (map (\<lambda>x. element_at ?s1 (Some (nat x))) ks) ((element_at ?s1 (Some p))\<lparr>ln_content := c\<rparr>)"
    by (rule adopted_element [OF b1]) (use pl x(1,2) assms(5) in \<open>simp_all add: v1 l1 e1 n_def ks del: of_nat_unat\<close>)
  moreover have "element_at (closing F lay axes p n ?s1) (Some p) = clamp_axes F (limited F lay) (element_at (adopted F lay axes p n ?s1) (Some p))"
  proof -
    let ?t = "put_layout (ln_layoutConfig (element_at ?s1 (Some p))) (limited F lay) (adopted F lay axes p n ?s1)"
    have t: "cx_elements ?t = cx_elements (adopted F lay axes p n ?s1)" by (simp add: put_layout_def split: layout_ptr.split)
    have "length (ca_cells (cx_elements (closing F lay axes p n ?s1))) = length (ca_cells (cx_elements ?t))" by (simp add: closing_def put_element_def)
    moreover have "p < length (ca_cells (cx_elements (closing F lay axes p n ?s1)))" 
      using element_cell [OF makes_building [OF cl]] pl by (simp add: makes_view [OF cl] tv_adopt_def Let_def)
    ultimately have "p < length (ca_cells (cx_elements ?t))" by simp
    then show ?thesis unfolding closing_def using t by (simp add: element_at_def put_element_def)
  qed
  ultimately show ?thesis by (simp add: n_def [symmetric] e1)
qed

section \<open>Closing\<close>

lemma no_aspect_box:
  assumes "building H b s" and "p < length (tv_nodes (view_of s))" and "nd_first (tv_nodes (view_of s) ! p) = Some j" and "j + nd_kinds (tv_nodes (view_of s) ! p) \<le> length (tv_kinds (view_of s))"
    and "CLAY__ELEMENT_CONFIG_TYPE_ASPECT \<notin> set (kinds_of_node (view_of s) p)"
  shows "Clay__UpdateAspectRatioBox F (Some p) s = Some s"
proof -
  note c = own_configs [OF assms(1-4)]
  have "List.find (\<lambda>c. type_of c = CLAY__ELEMENT_CONFIG_TYPE_ASPECT) (take (ln_configCount (element_at s (Some p))) (configs_from s (Some p))) = None"
    using find_type [of CLAY__ELEMENT_CONFIG_TYPE_ASPECT "take (ln_configCount (element_at s (Some p))) (configs_from s (Some p))"] assms(5) by (simp only: c(2)) blast
  then show ?thesis by (simp add: Clay__UpdateAspectRatioBox_def find_config_eq [OF c(1)])
qed

lemma counted_dimensions:
  "k < length (ca_cells (cx_elements s)) \<Longrightarrow>
    ln_dimensions (element_at (put_element q (\<lambda>e. e\<lparr>ln_count := ln_count e + 1\<rparr>) s) (Some k)) = ln_dimensions (element_at s (Some k))"
proof (cases q)
  case (Some a)
  then show "k < length (ca_cells (cx_elements s)) \<Longrightarrow> ?thesis" by (cases "k = a") (simp_all add: element_at_def put_element_def)
qed (simp add: element_at_def put_element_def)

lemma open_element_elements: "cx_elements (snd (Clay__GetOpenLayoutElement t)) = cx_elements t"
  by (simp add: Clay__GetOpenLayoutElement_def value_in_def get_element_def split: prod.splits)

lemma close_keeps_size:
  assumes "Clay__CloseElement H s = Some s'" and "\<not> cx_maxExceeded s" and "Clay__GetOpenLayoutElement s = (p, s)" and "close_size H p s = Some s1"
    and "k < length (ca_cells (cx_elements s1))"
  shows "ln_dimensions (element_at s' (Some k)) = ln_dimensions (element_at s1 (Some k))"
proof -
  obtain i stack E where r: "Array_RemoveSwapback 0 (cx_stack s1) (ca_length (cx_stack s1) - 1) (cx_log s1) = (i, stack, E)" by (metis prod_cases3)
  obtain q s2 where o: "Clay__GetOpenLayoutElement (s1\<lparr>cx_stack := stack, cx_log := E\<rparr>) = (q, s2)" by fastforce
  have c: "cx_elements s2 = cx_elements s1" using open_element_elements [of "s1\<lparr>cx_stack := stack, cx_log := E\<rparr>"] o by simp
  have e2: "element_at s2 (Some k) = element_at s1 (Some k)" by (rule element_same [OF c])
  define s3 where "s3 = put_element q (\<lambda>e. e\<lparr>ln_count := ln_count e + 1\<rparr>) s2"
  have d: "ln_dimensions (element_at s3 (Some k)) = ln_dimensions (element_at s2 (Some k))" unfolding s3_def using assms(5) c by (intro counted_dimensions) simp
  have a: "element_at (snd (add_in cx_buffer cx_buffer_update i s3)) (Some k) = element_at s3 (Some k)" by (rule element_same) simp
  have "Clay__CloseElement H s = map_option (\<lambda>f. if \<not> f \<and> 1 < ca_length (cx_stack s2) then snd (add_in cx_buffer cx_buffer_update i s3) else s2)
      (Clay__ElementHasConfig p CLAY__ELEMENT_CONFIG_TYPE_FLOATING s1)"
    unfolding Clay__CloseElement_def s3_def using assms(2) by (cases "Clay__ElementHasConfig p CLAY__ELEMENT_CONFIG_TYPE_FLOATING s1") (simp_all add: Let_def assms(3,4) r o)
  then have "s' = s2 \<or> s' = snd (add_in cx_buffer cx_buffer_update i s3)" using assms(1)
    by (cases "Clay__ElementHasConfig p CLAY__ELEMENT_CONFIG_TYPE_FLOATING s1") (auto split: if_splits)
  then show ?thesis using e2 d a by auto
qed

text \<open>The children that wait for the open element.\<close>

definition waiting :: "('f, 'h) clay_context \<Rightarrow> nat list" where
  "waiting s = map nat (let v = view_of s in drop (length (tv_buffer v) - unat (nd_count (tv_nodes v ! tv_top v))) (tv_buffer v))"

definition waiting_ok :: "('f, 'h) clay_context \<Rightarrow> bool" where
  "waiting_ok s \<longleftrightarrow> (\<forall>x \<in> set (tv_buffer (view_of s)). 0 \<le> x \<and> x < ca_length (cx_elements s) \<and> x \<noteq> int (tv_top (view_of s)))"

lemma Clay__CloseElement_size:
  fixes s :: "('f, 'h) clay_context"
  assumes "building H b s" and "can_close (limits_in s) (view_of s)" and p: "p = tv_top (view_of s)"
    and lay: "layout_at s (ln_layoutConfig (element_at s (Some p))) = Some lay" and "CLAY__ELEMENT_CONFIG_TYPE_ASPECT \<notin> set (kinds_of_node (view_of s) p)" and "waiting_ok s"
  shows "\<exists>s'. Clay__CloseElement H s = Some s' \<and> ln_dimensions (element_at s' (Some p)) =
    fit_size (ho_f32 H) lay (map (\<lambda>k. ln_dimensions (element_at s (Some k))) (waiting s)) (ln_dimensions (element_at s (Some p)))"
proof -
  let ?v = "view_of s" and ?F = "ho_f32 H"
  let ?x = "tv_nodes ?v ! p"
  define n where "n = unat (nd_count ?x)"
  define ks where "ks = drop (length (tv_buffer ?v) - n) (tv_buffer ?v)"
  obtain j where st: "stack_ok ?v" and pl: "p < length (tv_nodes ?v)" and x: "n \<le> length (tv_buffer ?v)" "nd_first ?x = Some j" "j + nd_kinds ?x \<le> length (tv_kinds ?v)"
    using can_closeE [OF assms(2)] unfolding p n_def by metis
  obtain axes where cs: "close_size H (Some p) s = Clay__UpdateAspectRatioBox ?F (Some p) (closing ?F lay axes p n (without_clips (clip_pops (kinds_of_node ?v p)) s))"
    using close_size_eq [OF assms(1,2)] lay by (auto simp: p n_def)
  define s1 where "s1 = closing ?F lay axes p n (without_clips (clip_pops (kinds_of_node ?v p)) s)"
  have m: "makes H b s (tv_adopt ?v) s1" using closing_makes [OF assms(1,2), of ?F lay axes] by (simp add: s1_def p n_def)
  have a: "tv_nodes (tv_adopt ?v) = (tv_nodes ?v)[p := ?x\<lparr>nd_at := Some (length (tv_children ?v))\<rparr>]" "tv_kinds (tv_adopt ?v) = tv_kinds ?v"
    by (simp_all add: tv_adopt_def Let_def p upd_node_def)
  have "kinds_of_node (tv_adopt ?v) p = kinds_of_node ?v p" using pl x(2) by (simp add: kinds_of_node_def a)
  then have "close_size H (Some p) s = Some s1"
    unfolding cs s1_def [symmetric] using no_aspect_box [OF makes_building [OF m], of p j ?F] assms(5) pl x(2,3) by (simp add: makes_view [OF m] a)
  moreover obtain s' where s': "Clay__CloseElement H s = Some s'" using Clay__CloseElement_makes [OF assms(1,2)] by blast
  moreover have "\<not> cx_maxExceeded s" using assms(1) by (simp add: building_def)
  moreover have "p < length (ca_cells (cx_elements s1))" using element_cell [OF makes_building [OF m], of p] pl by (simp add: makes_view [OF m] a)
  ultimately have "ln_dimensions (element_at s' (Some p)) = ln_dimensions (element_at s1 (Some p))"
    using close_keeps_size open_element [OF assms(1) st] unfolding p by blast
  moreover obtain c where "element_at s1 (Some p) = fitted ?F lay axes (map (\<lambda>x. element_at s (Some (nat x))) ks) ((element_at s (Some p))\<lparr>ln_content := c\<rparr>)"
    using closing_element [OF assms(1,2) p, of ks ?F lay axes] assms(6) set_drop_subset [of _ "tv_buffer ?v"] by (fastforce simp: s1_def n_def ks_def waiting_ok_def p)
  moreover have "unat (ln_count (element_at s (Some p))) = length ks"
    using element_node [OF assms(1) pl] x(1) by (simp add: ks_def n_def node_of_def flip: element_node [OF assms(1) pl])
  moreover have "waiting s = map nat ks" by (simp add: waiting_def ks_def n_def p Let_def)
  ultimately show ?thesis using s' by (simp add: fitted_size comp_def)
qed

end
