(* ===== verification/Clay_Properties.thy ===== *)
theory Clay_Properties
  imports Clay_Arena Clay_Map Clay_Order Clay_Fit
begin

text \<open>
  What the layout library (modules/clay/clay.h) promises: the memory it asks for is enough, its table of elements is a
  map from identifiers, a text is measured once and its words are the text, a frame builds the tree that was declared, a closed element has the size of what is in it, its comparison of memory is the same in all
  builds, and its trees are drawn in the order of their z-index.
\<close>

section \<open>Memory\<close>

text \<open>Where all the bytes there are, with 64 more for each array, are fewer than 4 GB, no product wraps.\<close>

definition array_requests :: "clay_limits \<Rightarrow> request list" where
  "array_requests l = persistent_arrays (fst (limits l)) (snd (limits l)) @ ephemeral_arrays (fst (limits l))"

definition array_bytes :: "clay_sizes \<Rightarrow> request \<Rightarrow> nat" where
  "array_bytes sz r = nat (fst (snd r)) * sz (snd (snd r))"

lemma request_bytes_sum:
  assumes "\<forall>r \<in> set rs. 0 \<le> fst (snd r)" and "(\<Sum>r \<leftarrow> rs. 64 + array_bytes sz r) < 2 ^ 32" and "r \<in> set rs"
  shows "request_bytes sz r = array_bytes sz r"
proof -
  have "array_bytes sz r \<le> (\<Sum>r \<leftarrow> rs. 64 + array_bytes sz r)" using member_le_sum_list [of "64 + array_bytes sz r" "map (\<lambda>r. 64 + array_bytes sz r) rs"] assms(3) by simp
  then show ?thesis using assms request_bytes_exact [of "fst (snd r)" sz "snd (snd r)" "fst r"] by (simp add: array_bytes_def)
qed

lemma next_after_sum: "next_after sz rs n \<le> n + (\<Sum>r \<leftarrow> rs. 64 + request_bytes sz r)"
proof (induction rs arbitrary: n)
  case (Cons r rs)
  have "aligned_after n \<le> n + 64" by (simp add: aligned_after_def)
  then show ?case using Cons.IH [of "aligned_after n + request_bytes sz r"] by simp
qed simp

lemma requests_nonnegative: "0 \<le> fst (limits l) \<Longrightarrow> 0 \<le> snd (limits l) \<Longrightarrow> \<forall>r \<in> set (array_requests l). 0 \<le> fst (snd r)"
  by (simp add: array_requests_def persistent_arrays_def ephemeral_arrays_def)

text \<open>What the context declares each array to be: an array of so many elements of such a type. The array of warnings is
  left out of the types: its elements are two strings each, and the room cut for it is one string each.\<close>

definition array_item :: "clay_field \<Rightarrow> clay_item" where
  "array_item f = (case f of
      scrollContainerDatas \<Rightarrow> T_ScrollContainerDataInternal | layoutElementsHashMapInternal \<Rightarrow> T_LayoutElementHashMapItem
    | measureTextHashMapInternal \<Rightarrow> T_MeasureTextCacheItem | measuredWords \<Rightarrow> T_MeasuredWord | pointerOverIds \<Rightarrow> T_ElementId
    | debugElementData \<Rightarrow> T_DebugElementData | layoutElements \<Rightarrow> T_LayoutElement | layoutConfigs \<Rightarrow> T_LayoutConfig
    | elementConfigs \<Rightarrow> T_ElementConfig | textElementConfigs \<Rightarrow> T_TextElementConfig
    | aspectRatioElementConfigs \<Rightarrow> T_AspectRatioElementConfig | imageElementConfigs \<Rightarrow> T_ImageElementConfig
    | floatingElementConfigs \<Rightarrow> T_FloatingElementConfig | clipElementConfigs \<Rightarrow> T_ClipElementConfig
    | customElementConfigs \<Rightarrow> T_CustomElementConfig | borderElementConfigs \<Rightarrow> T_BorderElementConfig
    | sharedElementConfigs \<Rightarrow> T_SharedElementConfig | layoutElementIdStrings \<Rightarrow> T_String | wrappedTextLines \<Rightarrow> T_WrappedTextLine
    | layoutElementTreeNodeArray1 \<Rightarrow> T_LayoutElementTreeNode | layoutElementTreeRoots \<Rightarrow> T_LayoutElementTreeRoot
    | textElementData \<Rightarrow> T_TextElementData | renderCommands \<Rightarrow> T_RenderCommand | treeNodeVisited \<Rightarrow> T_bool
    | dynamicStringData \<Rightarrow> T_char | _ \<Rightarrow> T_int32)"

definition array_count :: "clay_limits \<Rightarrow> clay_field \<Rightarrow> nat" where
  "array_count l f =
     (if f = scrollContainerDatas then 10
      else if f = measuredWords \<or> f = measuredWordsFreeList then nat (snd (limits l)) else nat (fst (limits l)))"

definition array_room :: "clay_sizes \<Rightarrow> clay_limits \<Rightarrow> clay_field \<Rightarrow> nat" where
  "array_room sz l f = (if f = warnings then 100 * sz T_String else array_count l f * sz (array_item f))"

lemma requested_room: "\<forall>r \<in> set (array_requests l). array_bytes sz r = array_room sz l (fst r)"
  by (simp add: array_requests_def array_bytes_def persistent_arrays_def ephemeral_arrays_def array_room_def array_count_def array_item_def)

lemma all_requested: "set (map fst (array_requests l)) = UNIV"
proof -
  have "f \<in> set (map fst (array_requests l))" for f
    by (cases f) (simp_all add: array_requests_def persistent_arrays_def ephemeral_arrays_def)
  then show ?thesis by blast
qed

lemma requested_once: "distinct (map fst (array_requests l))"
  by (simp add: array_requests_def persistent_arrays_def ephemeral_arrays_def)

text \<open>C35. The memory the library asks for is enough. Whatever the limits, the sizes of its structures and the address the
  host brings, as long as all of it together stays below 4 GB, the range of the answer: an arena of the size \<open>Clay_MinMemorySize\<close>
  answers is initialised without an error, and in it lie the context and behind it all the arrays of a context, each once and
  apart from each other. Each but one has the room its elements need; the exception is the array of warnings, which is cut with
  the size of a string for each of its 100 elements, half of what they are.\<close>

theorem min_memory_is_enough:
  assumes "0 \<le> fst (limits l)" and "0 \<le> snd (limits l)"
    and "sz T_Context + (\<Sum>r \<leftarrow> array_requests l. 64 + array_bytes sz r) + 128 < 2 ^ 32"
  shows "\<exists>p m fs. Clay_Initialize sz l (Clay_CreateArenaWithCapacityAndMemory (unat (Clay_MinMemorySize sz l)) addr) = Some (p, m) \<and>
    cm_log m = [] \<and> addr \<le> p \<and> set fs = UNIV \<and> distinct fs \<and>
    laid_out (cm_at m) (p + sz T_Context) (map (\<lambda>f. (f, array_room sz l f)) fs) (addr + unat (Clay_MinMemorySize sz l))"
proof -
  let ?rs = "array_requests l"
  have b: "request_bytes sz r = array_bytes sz r" if "r \<in> set ?rs" for r
    using requests_nonnegative [OF assms(1,2)] assms(3) that by (intro request_bytes_sum [of ?rs]) simp_all
  then have "(\<Sum>r \<leftarrow> ?rs. 64 + request_bytes sz r) = (\<Sum>r \<leftarrow> ?rs. 64 + array_bytes sz r)"
    by (intro arg_cong [of _ _ sum_list] map_cong) simp_all
  then have "next_after sz ?rs (sz T_Context) + 128 < 2 ^ 32" using assms(3) next_after_sum [of sz ?rs "sz T_Context"] by linarith
  moreover have "blocks sz ?rs = map (\<lambda>f. (f, array_room sz l f)) (map fst ?rs)" using b requested_room [of l sz] by (simp add: blocks_def)
  ultimately show ?thesis using min_memory_enough [of sz l addr] all_requested [of l] requested_once [of l]
    unfolding array_requests_def by (metis (no_types, lifting))
qed

definition default_limits :: clay_limits where
  "default_limits = \<lparr>li_current = None, li_defaultMaxElementCount = 8192, li_defaultMaxMeasureTextWordCacheCount = 16384\<rparr>"

theorem min_memory_is_enough_witness:
  "\<exists>p m. Clay_Initialize (\<lambda>_. 8) default_limits (Clay_CreateArenaWithCapacityAndMemory (unat (Clay_MinMemorySize (\<lambda>_. 8) default_limits)) 12345) = Some (p, m) \<and>
    cm_log m = []"
proof -
  have l: "limits default_limits = (8192, 16384)" by (simp add: default_limits_def limits_def)
  have "(\<Sum>r \<leftarrow> array_requests default_limits. 64 + array_bytes (\<lambda>_. 8) r) < 2 ^ 31"
    by (simp add: l array_requests_def array_bytes_def persistent_arrays_def ephemeral_arrays_def)
  then show ?thesis using min_memory_is_enough [of default_limits "\<lambda>_. 8" 12345] by (simp add: l) blast
qed

section \<open>Elements\<close>

text \<open>C36. The table of elements is a map. In every table that declarations, lookups and frames lead to, a lookup comes to an
  end and changes nothing; a declaration comes to an end and is the update of the map at its identifier, but for two cases:
  an identifier declared before in the same frame is reported and its element kept, and a full table answers NULL.\<close>

theorem element_table_is_a_map:
  assumes "map_reached m"
  shows "Clay__GetHashMapItem i m = Some (found m i, m) \<and>
    (\<exists>r m'. Clay__AddHashMapItem e le al m = Some (r, m') \<and> map_reached m' \<and>
      (if table_full m then r = Inl () \<and> m' = m
       else if \<exists>x a g. declared m (eid_id e) = Some (x, a, g) \<and> hm_generation m < g
       then declared m' = declared m \<and> hm_log m' = hm_log m @ [CLAY_ERROR_TYPE_DUPLICATE_ID]
       else declared m' = (declared m)(eid_id e \<mapsto> (le, al, hm_generation m + 1)) \<and> hm_log m' = hm_log m))"
proof
  show "Clay__GetHashMapItem i m = Some (found m i, m)" by (rule Clay__GetHashMapItem_ok [OF map_reached_ok [OF assms]])
next
  show "\<exists>r m'. Clay__AddHashMapItem e le al m = Some (r, m') \<and> map_reached m' \<and> (if table_full m then r = Inl () \<and> m' = m
       else if \<exists>x a g. declared m (eid_id e) = Some (x, a, g) \<and> hm_generation m < g
       then declared m' = declared m \<and> hm_log m' = hm_log m @ [CLAY_ERROR_TYPE_DUPLICATE_ID]
       else declared m' = (declared m)(eid_id e \<mapsto> (le, al, hm_generation m + 1)) \<and> hm_log m' = hm_log m)"
    using Clay__AddHashMapItem_ok [OF map_reached_ok [OF assms], of e le al] map_reached.declared [OF assms] by meson
qed

definition root_id :: clay_element_id where
  "root_id = Clay__HashNumber 7 0"

definition small_map :: "unit hash_map" where
  "small_map = (let it = \<lparr>hi_elementId = root_id, hi_layoutElement = 0, hi_onHover = None, hi_nextIndex = 0, hi_generation = 0,
       hi_idAlias = 0, hi_debugData = None\<rparr>; d = \<lparr>dd_collision = False, dd_collapsed = False\<rparr>
     in empty_map (replicate 4 it) it (replicate 4 d) d)"

lemma small_map_facts:
  "map_reached small_map" "declared small_map i = None" "free_items small_map = 3" "\<not> table_full small_map"
  unfolding small_map_def Let_def
  by (rule map_reached.made [of _ 4], simp_all add: empty_map_ok(2) [of _ 4])
    (simp_all add: empty_map_def free_items_def table_full_def)

theorem element_table_is_a_map_witness:
  "\<exists>r m'. Clay__AddHashMapItem root_id 5 0 small_map = Some (r, m') \<and> declared m' (eid_id root_id) = Some (5, 0, hm_generation small_map + 1)"
  using element_table_is_a_map [OF small_map_facts(1), of 0 root_id 5 0] small_map_facts(2,4) by auto

text \<open>The elements of a frame are found. When there is room and no two of them have the same identifier, after the
  declarations of a frame, in whatever order, every identifier leads to its element and its alias, what was not declared is as
  it was, and nothing is reported.\<close>

theorem elements_of_a_frame_are_found:
  assumes "map_reached m" and "length ds \<le> free_items m" and "distinct (map (\<lambda>d. eid_id (fst d)) ds)"
    and "\<forall>d \<in> set ds. undeclared m (eid_id (fst d))"
  shows "element_of (fold declare_element ds m) = element_of m ++ map_of (map (\<lambda>d. (eid_id (fst d), snd d)) ds) \<and>
    hm_log (fold declare_element ds m) = hm_log m"
  using elements.declare_all [OF map_reached_ok [OF assms(1)] assms(2,3)] assms(4) by blast

theorem elements_of_a_frame_are_found_witness:
  "element_of (fold declare_element [(root_id, 5, 0), (Clay__HashNumber 8 0, 6, 1)] small_map) (eid_id root_id) = Some (5, 0)"
proof -
  have ne: "eid_id root_id \<noteq> eid_id (Clay__HashNumber 8 0)" by code_simp
  have "undeclared small_map i" for i by (simp add: undeclared_def small_map_facts)
  then show ?thesis
    using elements_of_a_frame_are_found [OF small_map_facts(1), of "[(root_id, 5, 0), (Clay__HashNumber 8 0, 6, 1)]"] ne
    by (auto simp: small_map_facts map_add_def)
qed

section \<open>Texts\<close>

text \<open>C37. A measured text is cut into words that make it up, once. In every cache that measuring, frames and resets lead to,
  and as long as there is room for the words of the text, \<open>Clay__MeasureTextCached\<close> comes to an end. A text that is in the
  cache is answered with the words it has there. One that is not is answered with a new entry whose words, in order, are
  the text without its newlines, each measured as the host measures it, and nothing is reported; only when all entries are in
  use the default entry is the answer. Nothing else comes into the cache, and nothing asked for in the last two frames is
  lost.\<close>

theorem measured_text_is_cached:
  assumes "text_reached c" and "words_room c str" and "i = text_id build str config"
  shows "\<exists>p c'. Clay__MeasureTextCached build F (Some mf) str config c = Some (p, c') \<and> text_reached c' \<and> later i c c' \<and>
    (case p of
       None \<Rightarrow> (\<nexists>ds. holds c i ds) \<and> ca_length (tx_items c) = ca_capacity (tx_items c) - 1
     | Some k \<Rightarrow> tx_log c' = tx_log c \<and> entry_of c' i k \<and>
         (if \<exists>ds. holds c i ds then \<forall>ds. holds c i ds \<longrightarrow> entry_holds c' k ds
          else \<exists>ds. entry_holds c' k ds \<and> ds = pieces F (width_of mf config) (st_chars str) 0 0 (st_chars str) \<and>
            concat (map (\<lambda>(s, l, w). slice (st_chars str) s l) ds) = filter (\<lambda>x. x \<noteq> 10) (st_chars str)))"
proof -
  have j: "concat (map (\<lambda>(s, l, w). slice (st_chars str) s l) (pieces F (width_of mf config) (st_chars str) 0 0 (st_chars str))) =
      filter (\<lambda>x. x \<noteq> 10) (st_chars str)"
    using pieces_join [of 0 0 "st_chars str" "st_chars str" F "width_of mf config"] by (simp add: slice_none)
  obtain p c' where r: "Clay__MeasureTextCached build F (Some mf) str config c = Some (p, c')" "later i c c'"
    "case p of None \<Rightarrow> (\<nexists>ds. holds c i ds) \<and> ca_length (tx_items c) = ca_capacity (tx_items c) - 1
     | Some k \<Rightarrow> tx_log c' = tx_log c \<and> entry_of c' i k \<and>
         (if \<exists>ds. holds c i ds then \<forall>ds. holds c i ds \<longrightarrow> entry_holds c' k ds
          else entry_holds c' k (pieces F (width_of mf config) (st_chars str) 0 0 (st_chars str)))"
    using Clay__MeasureTextCached_ok [OF text_reached_good [OF assms(1)] assms(2,3), of F mf] by blast
  moreover have "text_reached c'" by (rule text_reached.measured [OF assms(1,2) r(1)])
  ultimately show ?thesis using j by (intro exI [of _ p] exI [of _ c']) (auto split: option.splits)
qed

text \<open>A cache of 64 words, and a font in which every character has the width 1.\<close>

definition counting_f32 :: "int f32" where
  "counting_f32 = \<lparr>z32 = 0, add32 = (+), sub32 = (-), gt32 = (\<lambda>x y. y < x), of16 = uint, mul32 = (*), div32 = (div),
     le32 = (\<le>), eq32 = (=), int32 = id, max32 = 2 ^ 128, bytes32 = (\<lambda>x. [word_of_int x, 0, 0, 0])\<rparr>"

definition small_cache :: "int text_cache" where
  "small_cache = empty_cache (replicate 64 \<lparr>mw_startOffset = 0, mw_length = 0, mw_width = 0, mw_next = 0\<rparr>) \<lparr>mw_startOffset = 0, mw_length = 0, mw_width = 0, mw_next = 0\<rparr>
     (replicate 64 0) (replicate 4 (zero_item counting_f32)) (zero_item counting_f32) (replicate 4 0) 64"

definition hello_world :: clay_string where
  "hello_world = \<lparr>st_static = False, st_at = 0, st_chars = [104, 105, 32, 121, 111]\<rparr>"

theorem measured_text_is_cached_witness:
  "\<exists>k c'. Clay__MeasureTextCached No_simd counting_f32 (Some (\<lambda>bs _. (int (length bs), 1))) hello_world \<lparr>tc_fontId = 0, tc_fontSize = 1, tc_letterSpacing = 0, tc_lineHeight = 0\<rparr> small_cache =
     Some (Some k, c') \<and> entry_holds c' k [(0, 3, 3), (3, 2, 2)]"
proof -
  let ?config = "\<lparr>tc_fontId = 0, tc_fontSize = 1, tc_letterSpacing = 0, tc_lineHeight = 0\<rparr>" and ?mf = "\<lambda>bs _. (int (length bs), 1)"
  have r: "text_reached small_cache" unfolding small_cache_def by (rule text_reached.made) simp_all
  have w: "words_room small_cache hello_world" by (simp add: words_room_def small_cache_def empty_cache_def hello_world_def)
  have n: "\<not> holds small_cache i ds" for i ds
  proof -
    have "unat i mod 2 < 4" by (rule less_trans [of _ 2]) simp_all
    then have "tx_buckets small_cache ! (unat i mod bucket_count small_cache) = 0"
      by (simp add: small_cache_def empty_cache_def bucket_count_def)
    moreover have e: "linked nxt 0 m 0 xs \<longleftrightarrow> xs = []" for nxt m xs by (cases xs) auto
    ultimately show ?thesis unfolding holds_def entry_of_def by (auto simp: e)
  qed
  have p: "pieces counting_f32 (width_of ?mf ?config) (st_chars hello_world) 0 0 (st_chars hello_world) = [(0, 3, 3), (3, 2, 2)]"
    by (simp add: hello_world_def break_words_def width_of_def slice_def counting_f32_def)
  show ?thesis using measured_text_is_cached [where build = No_simd and config = ?config and F = counting_f32 and mf = ?mf, OF r w refl] n p
    by (auto simp: small_cache_def empty_cache_def split: option.splits)
qed

section \<open>The tree of a layout\<close>

text \<open>C38. A frame builds the tree that was declared. For every user interface, whatever it is made of, for which the arrays have
  place: from \<open>Clay_BeginLayout\<close> over the nested \<open>CLAY(...) { ... }\<close> and \<open>CLAY_TEXT(...)\<close> to the closing of the root all calls come
  to an end, the elements are numbered in the order in which they are opened, and each has in its part of the one array of
  children exactly the elements declared directly in its body that do not float, in order. In the end nothing waits in the
  buffer, no clip element is open, and only the root is on the stack.\<close>

theorem frame_builds_the_tree:
  assumes "map_reached (cx_map s)" and "text_reached (cx_text s)" and "cx_external s \<longrightarrow> ho_query H \<noteq> None"
    and "sized N s" and "1 + ui_sizes ts < N" and "2 + length (ui_kindss (kinds_in H) ts) \<le> N" and "clip_depths (kinds_in H) ts \<le> int N"
    and "length ts < 2 ^ 16" and "ui_narrows ts" and "spare_words (ui_texts word_need ts) (cx_text s)"
  shows "\<exists>s'. declare_frame H ts s = Some s' \<and> \<not> cx_maxExceeded s' \<and>
    map (children_of s') (values_of (cx_elements s')) = child_indices (kinds_in H) 1 ts # ui_childrens (kinds_in H) 1 ts \<and>
    values_of (cx_buffer s') = [] \<and> ca_length (cx_clipStack s') = 0 \<and> values_of (cx_stack s') = [0]"
proof -
  have "ready H (ui_texts word_need ts) s"
    using map_reached_ok [OF assms(1)] text_reached_good [OF assms(2)] assms(3,10) by (simp add: ready_def)
  then show ?thesis using declare_frame_makes [OF _ assms(4,8,9,5-7)] by (auto simp: building_def)
qed

text \<open>A context for 64 elements, and a box with a text, a floating box and a box in it.\<close>

definition empty_array :: "nat \<Rightarrow> 'a \<Rightarrow> 'a carray" where
  "empty_array n x = \<lparr>ca_length = 0, ca_cells = replicate n x\<rparr>"

definition counting_host :: "int host" where
  "counting_host = \<lparr>ho_f32 = counting_f32, ho_build = No_simd, ho_charSigned = True, ho_literalAt = (\<lambda>_. 4096),
     ho_measure = Some (\<lambda>bs _. (int (length bs), 1)), ho_query = None\<rparr>"

definition plain_box :: "int declaration_of" where
  "plain_box = zero_declaration counting_f32"

definition floating_box :: "int declaration_of" where
  "floating_box = plain_box\<lparr>dc_floating := (dc_floating plain_box)\<lparr>fl_attachTo := CLAY_ATTACH_TO_PARENT\<rparr>\<rparr>"

definition small_context :: "(int, unit) clay_context" where
  "small_context = (let e = zero_element counting_f32; l = zero_layout counting_f32; sh = zero_shared counting_f32; sc = new_scroll counting_f32 None 0 in
     \<lparr>cx_elements = empty_array 64 e, cx_dfltElement = e, cx_stack = empty_array 64 0, cx_children = empty_array 64 0, cx_buffer = empty_array 64 0,
      cx_clipIds = empty_array 64 0, cx_clipStack = empty_array 64 0, cx_configs = empty_array 64 EC_NONE, cx_layoutConfigs = empty_array 64 l,
      cx_layoutDefault = l, cx_layoutDummy = l, cx_shared = empty_array 64 sh, cx_dfltShared = sh, cx_textConfigs = empty_array 64 \<lparr>tc_fontId = 0, tc_fontSize = 0, tc_letterSpacing = 0, tc_lineHeight = 0\<rparr>, cx_aspects = empty_array 64 0, cx_images = empty_array 64 0,
      cx_floatings = empty_array 64 (dc_floating plain_box), cx_customs = empty_array 64 0, cx_clips = empty_array 64 (dc_clip plain_box),
      cx_dfltClip = dc_clip plain_box, cx_borders = empty_array 64 (dc_border plain_box), cx_idStrings = empty_array 64 CLAY__STRING_DEFAULT,
      cx_textData = empty_array 64 \<lparr>td_text = CLAY__STRING_DEFAULT, td_preferred = (0, 0), td_elementIndex = 0\<rparr>, cx_aspectIndexes = empty_array 64 0,
      cx_roots = empty_array 64 \<lparr>tr_layoutElementIndex = 0, tr_parentId = 0, tr_clipElementId = 0, tr_zIndex = 0, tr_pointerOffset = (0, 0)\<rparr>,
      cx_scrolls = empty_array 10 sc, cx_dfltScroll = sc, cx_map = small_map, cx_text = small_cache, cx_maxExceeded = False, cx_external = False,
      cx_layoutDimensions = (640, 480), cx_log = []\<rparr>)"

definition small_ui :: "int ui list" where
  "small_ui = [CLAY plain_box [CLAY_TEXT hello_world \<lparr>tc_fontId = 0, tc_fontSize = 1, tc_letterSpacing = 0, tc_lineHeight = 0\<rparr>,
     CLAY floating_box [], CLAY plain_box []]]"

theorem frame_builds_the_tree_witness:
  "\<exists>s'. declare_frame counting_host small_ui small_context = Some s' \<and> \<not> cx_maxExceeded s' \<and>
    map (children_of s') (values_of (cx_elements s')) = [[1], [2, 4], [], [], []]"
proof -
  have k: "length (kinds_in counting_host d) \<le> 7" for d by (simp add: kinds_in_def length_opt_kind)
  have b: "length (ui_kindss (kinds_in counting_host) small_ui) \<le> 22" using k [of plain_box] k [of floating_box] by (simp add: small_ui_def)
  have f: "CLAY__ELEMENT_CONFIG_TYPE_FLOATING \<notin> set (kinds_in counting_host plain_box)" "CLAY__ELEMENT_CONFIG_TYPE_FLOATING \<in> set (kinds_in counting_host floating_box)"
    by (simp_all add: floats_iff floating_box_def plain_box_def zero_declaration_def Let_def)
  have "clip_pops (kinds_in counting_host d) \<le> 2" for d by (simp add: clip_pops_kinds)
  from this [of plain_box] this [of floating_box] have c: "clip_depths (kinds_in counting_host) small_ui \<le> 64" by (simp add: small_ui_def)
  have t: "text_reached small_cache" unfolding small_cache_def by (rule text_reached.made) simp_all
  have m: "map_reached (cx_map small_context)" "text_reached (cx_text small_context)" "\<not> cx_external small_context" "sized 64 small_context"
    "spare_words (ui_texts word_need small_ui) (cx_text small_context)"
    using small_map_facts(1) t by (simp_all add: small_context_def Let_def sized_def limits_in_def empty_array_def spare_words_def small_ui_def word_need_def hello_world_def small_cache_def empty_cache_def)
  have u: "ui_narrows small_ui" "ui_sizes small_ui = 4" "length small_ui = 1" "child_indices (kinds_in counting_host) 1 small_ui = [1]"
    "ui_childrens (kinds_in counting_host) 1 small_ui = [[2, 4], [], [], []]"
    using f by (simp_all add: small_ui_def ui_floats_def)
  show ?thesis using frame_builds_the_tree [OF m(1,2) _ m(4) _ _ _ _ u(1) m(5), of counting_host] m(3) b c u(2-) by auto
qed







section \<open>Comparisons and order\<close>

text \<open>The comparison of memory is the same in all builds. With the instructions of SSE2, with those of NEON, and without
  either, \<open>Clay__MemCmp\<close> tells whether the first \<open>n\<close> bytes agree.\<close>

theorem memcmp_is_equality:
  assumes "n \<le> length s1" and "n \<le> length s2"
  shows "Clay__MemCmp build s1 s2 n \<longleftrightarrow> take n s1 = take n s2"
  by (rule Clay__MemCmp_iff [OF assms])

theorem memcmp_is_equality_witness:
  "\<not> Clay__MemCmp Sse2 (replicate 20 1) (replicate 19 1 @ [2]) 20 \<and> Clay__MemCmp Neon (replicate 20 1) (replicate 19 1 @ [2]) 19"
  using memcmp_is_equality [of 20 "replicate 20 1" "replicate 19 1 @ [2]" Sse2] memcmp_is_equality [of 19 "replicate 20 1" "replicate 19 1 @ [2]" Neon]
  by (simp add: numeral_eq_Suc)

text \<open>C40. The trees of a layout are sorted by their z-index, and trees with the same index keep the order in which they were
  declared: the bubble sort is the stable sort.\<close>

theorem roots_are_stably_sorted: "sort_roots rs = sort_key z_of rs"
  by (rule sort_roots_eq)

end
