(* ===== verification/Spec2Isabelle.thy ===== *)
theory Spec2Isabelle
  imports Zg_Calls Zeytun_Http Pil_Properties Tf_Properties Clay_Properties "HOL-Library.Multiset"
begin

text \<open>
  A verification of the C sources of Cocolog, a Prolog system: the clients of the two servers it
  keeps knowledge in (client/zigurat.c, client/zeytun.c, client/tls.c), the back end of
  library(tensorflow) (modules/tensorflow/backend.c), the resampler of library(opencv)
  (modules/opencv/pil) and the data structures of the layout library Clay (modules/clay/clay.h). Paths are relative to src/.

  \<^bold>\<open>The program and its parts.\<close>

  \<^item> A \<^emph>\<open>Zigurat connection\<close> (client/zigurat.c) speaks a binary protocol over a socket, plain or through TLS
    (client/tls.c), or calls an engine linked into the same process, one session per thread. Writes are
    gathered in a buffer which is flushed before every read; reads go through a read-ahead buffer. The
    processes of one knowledge base take turns by a lock file: a verb takes the turn, commit and
    rollback give it back.
  \<^item> A \<^emph>\<open>Zeytun page\<close> (client/zeytun.c) is one HTTP GET, through the same TLS, whose body is then unescaped in place.
  \<^item> The \<^emph>\<open>TensorFlow back end\<close> keeps tensors in a table of slots. A slot has a value on the device, a recipe
    (an operation and the slots it reads), or both; slots are counted by their readers. What a tensor rests on is
    its closure, compiled once per key into a function and called as one.
  \<^item> The \<^emph>\<open>resampler\<close> scales a picture in two passes, with the coefficients of a filter converted to fixed point in
    the buffer in which they were computed as doubles.
  \<^item> \<^emph>\<open>Clay\<close> lays out a user interface declared anew in every frame. All its arrays are cut from one arena the host brings; a
    table finds an element by its identifier across frames, and a cache keeps the measured words of texts. Elements are opened,
    configured and closed in the order of the declaration; closed children wait in a buffer until their parent is closed.

  The clients and the modules do not call one another; their callers are written in Cicili and Prolog.

  \<^bold>\<open>Which theory models what.\<close>

  \<^item> \<open>Coco_Prelude\<close>: C strings and \<open>snprintf\<close>; calls that answer 0 or 1 over a state, or wait for ever
    (\<open>outcome\<close>); the rules by which invariants go through such calls; the interfaces \<open>duplex\<close> (a transport) and
    \<open>codec\<close> (a field over a transport) as locales. \<open>Byte_Order\<close>: \<open>reorder\<close>, host and network byte order.
  \<^item> \<open>Tls_Client\<close>: client/tls.c, with a log of what is allocated and freed.
  \<^item> \<open>Zg_State\<close> (struct zg_conn, the globals, errors), \<open>Zg_Turn\<close> (take_turn, give_turn, zg_serialise, with the lock the
    kernel keeps and the time slept in the state), \<open>Zg_Socket\<close> (wr, wr_now, flush_out, rd, skip, lost; \<open>duplex\<close> is interpreted
    here), \<open>Zg_Wire\<close> (integers, String and Text), \<open>Zg_Session\<close> (ce_of, ce_forget, the key's destructor, the branch of an
    embedded connection; threads as a step relation), \<open>Zg_Open\<close> (dial, zg_open, zg_reopen, zg_close), \<open>Zg_Verbs\<close> (verb,
    zg_result and every verb), \<open>Zg_Fields\<close> (the writers, readers, zg_skip_field, zg_drain), \<open>Zg_Codec\<close> (one
    interpretation of \<open>codec\<close> for each type of field and one for rows of unknown types), \<open>Zg_Calls\<close> (the calls of a client on its
    connection, and processes over one lock file, as step relations).
  \<^item> \<open>Zeytun_Text\<close> (zt_unescape, zt_urlencode) and \<open>Zeytun_Http\<close> (slurp, zt_get2).
  \<^item> \<open>Tf_State\<close> (the static variables, OpSpec, TfSlot, Closure, Entry, tfb_init, tfb_attach), \<open>Tf_Slots\<close> (slot_new, unref,
    really_free, tfb_free, tensors from data, the cache of scalars), \<open>Tf_Closure\<close> (visit, closure_of, entry_find,
    entry_compile), \<open>Tf_Run\<close> (entry_function, call_entry, run_closure, tfb_force, tfb_values, tfb_shape, shape_rule,
    run_spec), \<open>Tf_Ops\<close> (every other tfb_ function). Over them: \<open>Tf_Table\<close> and \<open>Tf_Topo\<close> (the table, the order of
    a closure), \<open>Tf_Keys\<close> (what a key says), \<open>Tf_Calls\<close> (a calculus of calls that keep the table good), \<open>Tf_Exec\<close>,
    \<open>Tf_Safe\<close>, \<open>Tf_Shape\<close>, \<open>Tf_Ok\<close>, \<open>Tf_Api\<close> (each operation is one of them), \<open>Tf_Program\<close> (whole programs; the
    locale \<open>handle_machine\<close>, interpreted on the back end) and \<open>Tf_Properties\<close>.
  \<^item> \<open>Pil_Image\<close> (Imaging.h, the allocation of images in pil-resample.c; every block has an identity, and what is given to
    \<open>free\<close> is kept as a multiset of blocks), \<open>Pil_Resample\<close> (Resample.c and pil_resample_8u),
    \<open>Pil_Correct\<close> and \<open>Pil_Properties\<close>.
  \<^item> \<open>Clay_Array\<close> (the arrays of CLAY__ARRAY_DEFINE), \<open>Clay_Arena\<close> (the arena, Clay_MinMemorySize, Clay_Initialize), \<open>Clay_Hash\<close>
    (identifiers, hashes, Clay__MemCmp), \<open>Clay_Map\<close> (the table of elements; the locale \<open>declaration_store\<close> is interpreted on
    it), \<open>Clay_Order\<close> (the sort of the trees, numbers as text, the pointer), \<open>Clay_Text\<close> (the cache of measured
    texts), \<open>Clay_Text_Ok\<close> (its chains), \<open>Clay_Text_Cache\<close> (the walk along a bucket), \<open>Clay_Text_Scan\<close> (cutting a text),
    \<open>Clay_Text_Measure\<close> (the whole call, and caches that come to be), \<open>Clay_Layout\<close> (the context, Clay_BeginLayout,
    Clay__OpenElement, Clay__ConfigureOpenElementPtr, Clay__OpenTextElement, Clay__CloseElement), \<open>Clay_Tree\<close> (the tree of a user
    interface in closed form; the locale \<open>tree_builder\<close>), \<open>Clay_Build\<close> (the library interprets it), \<open>Clay_Frame\<close> (whole
    frames), \<open>Clay_Fit\<close> (the size of a closed element), \<open>Clay_Properties\<close>.

  State is passed explicitly. A function that answers 0 or 1 is a function from a state to \<open>Zero t\<close>, \<open>One v t\<close> or
  \<open>Waits t\<close>; the message of a failure is a field of the state, cut as \<open>snprintf\<close> cuts it. Integers are kept at their
  width where the code depends on it (the wire, hashes, sums in fixed point), wrap where they are computed in C
  (\<open>c_int\<close> for the time a turn is waited for and the sizes of images, \<open>c_long\<close> for the number of values of a tensor) and are \<open>int\<close> or \<open>nat\<close> elsewhere.

  \<^bold>\<open>What is not under src/ is a parameter.\<close> The kernel's answers are lists of events in the state (bytes that
  arrive, sends that take a part or fail, EINTR, a lock that is busy); OpenSSL is the record \<open>ossl\<close>, the embedded
  engine the record \<open>engine\<close>, the TensorFlow C library the record \<open>tf\<close> over a state of its own, floating-point
  arithmetic the records \<open>fp\<close> and \<open>f32\<close>, the sizes of Clay's structures a function. Theorems hold for all their instances unless a hypothesis says otherwise: \<open>fresh_sessions\<close>
  (the engine never gives out a live session), \<open>flock_allows\<close> (the kernel gives an exclusive lock to a process only when no
  other has it; whether the code then takes or leaves the turn is the code's own), \<open>cells_ok\<close> (a double is two 32-bit cells), \<open>coeffs_fit\<close> and
  \<open>weights_fit\<close> (the rows of coefficients fit the buffer and the sum fits 32 bits). Each such hypothesis is met by
  a concrete instance in a witness.

  \<^bold>\<open>What the theorems show.\<close>

  \<^item> Zigurat, in this theory: the socket layer delivers exactly the stream, and reads only with everything sent;
    failures close the connection and give the turn back; buffers never overflow, whatever calls are made in whatever order;
    one process at a time has the turn, and a busy turn is given up after the bound, with the time slept until then exactly
    known; every type of value survives the wire; skipping and draining leave the stream in step and come to an end; TLS
    that was asked for is never dropped; sessions are never shared between threads.
  \<^item> Zeytun, in this theory: a page is fetched to its Content-Length with the request written out line by line, a call for
    https puts nothing on the wire in plain text however it ends, unescaping and encoding are exact.
  \<^item> TensorFlow: reference counts are exact and recipes acyclic in every reachable state; handles last until freed; the
    back end refines an allocator of handles; closures are in order and compiled once; shapes by rule are TensorFlow's;
    a permutation is one.
  \<^item> Resampling: a pass is the rounded, saturated weighted sum, its weights the coefficients rounded to 22 bits; the same size is
    the identity; every block is freed once; the table saturates.
  \<^item> Clay: the memory asked for is enough and the arrays lie apart, each with the room its elements need but for the array of
    warnings, which the code cuts half as large; the table of elements refines a map, and the elements of a
    frame are found; a text is measured once, its words make it up, and the cache of texts stays good; a frame builds the tree of elements that was declared;
    a closed element has the size of what is in it, within its limits; memory is compared alike in all builds; trees are sorted stably.

  \<^bold>\<open>Bounds and fuel.\<close> No loop has fuel. The wait for a turn is bounded by \<open>lockwait * 1000\<close>, an \<open>int\<close>: the theorem on a busy
  turn asks for a bound of at most 2147483 seconds, above which the product wraps. The memory of Clay has to stay below 4 GB. Loops over answers of the kernel end with the list of answers (\<open>Waits\<close> is a read
  for which no answer comes); zg_drain is a \<open>partial_function\<close> into \<open>option\<close>, proved to return on a socket, and so are the walks along
  chains of indices in Clay, proved to return in every table and cache that comes to be. The
  recursions over recipes (\<open>unref\<close>, \<open>visit\<close>) are worklists with a measure, proved equal to the recursion of the code where
  recipes are acyclic. The theorems on programs over tensors have the hypothesis \<open>fits\<close>: no compiled key has filled its
  buffer of a megabyte, because the code cuts a longer key without a word and can then take one closure for another. The theorem on measured texts
  has the hypothesis \<open>words_room\<close>: two more words for each character fit the array, because the code's test for a full array
  can be stepped over. The one on frames asks for room in the arrays of a frame, among them one for configurations that an
  element counts even when the array is full, and for fewer than 65536 children each, the range of the count.

  \<^bold>\<open>Not modelled.\<close> The profile of the TensorFlow back end, printed at exit; client/probe.c and
  embed/smoke.c, programs that exercise the clients against a live server and print; the gesture stub of library(ray),
  which does nothing; of
  modules/clay/clay.h the sizing, the final layout, scrolling, hit tests and the debug view; and everything written in Cicili or Prolog: the engine, the knowledge-base back ends, the
  library modules.
\<close>

section \<open>Concrete connections\<close>

text \<open>An engine that is not linked, and a connection in the middle of a conversation: descriptor 3,
  no lock, on a little-endian host, with the given answers of the kernel.\<close>

definition no_engine :: "unit engine" where
  "no_engine = \<lparr>ce_linked = False, ce_page_size = (\<lambda>_. 0), ce_engine_open = (\<lambda>_ e. (None, e)), ce_engine_close = id,
     ce_session_new = (\<lambda>e. (None, e)), ce_session_free = (\<lambda>_. id), ce_error = (\<lambda>_ _. ''no session''),
     ce_call = (\<lambda>_ _ e. (True, e)), ce_write_num = (\<lambda>_ _ _ e. (True, e)), ce_write_str = (\<lambda>_ _ _ e. (True, e)),
     ce_write_dvector = (\<lambda>_ _ e. (True, e)), ce_read_dvector = (\<lambda>_ _ e. (None, e)), ce_result = (\<lambda>_ e. (None, e)),
     ce_columns = (\<lambda>_ _ e. (None, e)), ce_read_num = (\<lambda>_ e. (None, e)), ce_read_str = (\<lambda>_ _ e. (None, e)),
     ce_read_str_alloc = (\<lambda>_ e. (None, e)), ce_skip = (\<lambda>_ e. (True, e)), ce_commit = (\<lambda>_ e. (True, e)),
     ce_rollback = (\<lambda>_ e. (True, e)), ce_isolate = (\<lambda>_ _ e. (True, e)), ce_reset = (\<lambda>_ e. (True, e))\<rparr>"

definition no_tls_options :: coco_tls_options where
  "no_tls_options = \<lparr>o_cacert = None, o_capath = None, o_cert = None, o_key = None, o_key_pass = None, o_insecure = False\<rparr>"

definition conn_at :: "'e \<Rightarrow> recv_ev list \<Rightarrow> 'e zsys" where
  "conn_at e evs = \<lparr>w_big = False, w_errno = E_NONE, w_recv = evs, w_send = [], w_sslr = [], w_sslw = [], w_sent = [],
     w_flock = [], w_locked = False, w_slept = 0, w_dials = [], w_mallocs = [], w_closed = [], w_eng = e, t_self = 0, t_slots = [], t_key = [],
     g_tls = no_tls_options, g_tls_on = False, c_id = 1, c_fd = 3, c_tls = None, c_embed = False, c_owner = 0,
     c_tid = 0, c_err = '''', c_lockfd = -1, c_held = False, c_lockwait = 0, c_out = [], c_in = [], c_pin = 0\<rparr>"

lemmas conn_defs = conn_at_def line_ok_def inbound_def emitted_def verb_ok_def turn_ok_def

lemma conn_at_facts [simp]:
  "line_ok (conn_at e evs)" "verb_ok (conn_at e evs)" "inbound (conn_at e evs) = recv_stream evs"
  "emitted (conn_at e evs) = []" "\<not> c_embed (conn_at e evs)"
  by (simp_all add: conn_defs)

lemma evaluated_bytes:
  "be_bytes 4 258 = [0, 0, 1, 2]" "be_bytes 4 5 = [0, 0, 0, 5]" "be_bytes 4 (Suc 0) = [0, 0, 0, 1]"
  "be_bytes 8 3 = [0, 0, 0, 0, 0, 0, 0, 3]"
  by code_simp+

section \<open>The socket layer\<close>

text \<open>C1. Reading. Whatever way the stream is cut into segments, interrupted or buffered ahead, and over
  plain TCP or TLS, \<open>rd n\<close> hands over exactly the next \<open>n\<close> bytes of it and leaves the rest, and it loses none of
  the bytes this end still has to send.\<close>

theorem rd_delivers_stream:
  assumes "line_ok s" and "inbound s = bs @ rest" and "length bs = n"
  shows "\<exists>t. rd n s = One bs t \<and> line_ok t \<and> inbound t = rest \<and> emitted t = emitted s"
  using talksD [OF rd_ok [OF assms(3)] assms(1,2)] by auto

theorem rd_delivers_stream_witness:
  "\<exists>t. rd 3 (conn_at () [RData [1], RErr E_INTR, RData [2, 3, 4]]) = One [1, 2, 3] t \<and> line_ok t \<and> inbound t = [4] \<and>
     emitted t = emitted (conn_at () [RData [1], RErr E_INTR, RData [2, 3, 4]])"
  by (rule rd_delivers_stream) (simp_all add: conn_defs)

text \<open>C2. Writing. On a line whose sends are at most cut up or interrupted, \<open>wr\<close> puts its bytes behind
  everything written before, in order, whether it buffers, flushes or sends directly.\<close>

theorem wr_appends:
  assumes "line_ok s"
  shows "\<exists>t. wr bs s = One () t \<and> line_ok t \<and> emitted t = emitted s @ bs \<and> inbound t = inbound s"
  using talksD [OF wr_ok assms, of "inbound s" bs] by auto

theorem wr_appends_witness:
  "\<exists>t. wr [7, 8] (conn_at () [RData [1]]) = One () t \<and> line_ok t \<and>
     emitted t = emitted (conn_at () [RData [1]]) @ [7, 8] \<and> inbound t = inbound (conn_at () [RData [1]])"
  by (rule wr_appends) (simp add: conn_defs)

text \<open>C3. A read that waits for the server waits with nothing held back: the out buffer is empty and
  every byte written so far has been accepted by the socket, so the two ends never wait for each other on
  account of the buffering.\<close>

theorem rd_waits_with_everything_sent:
  assumes "rd n s = Waits t"
  shows "c_out t = [] \<and> w_sent t = emitted s"
  using assms by (rule rd_Waits)

theorem rd_waits_with_everything_sent_witness:
  "c_out ((conn_at () [])\<lparr>w_sent := [9, 5]\<rparr>) = [] \<and>
     w_sent ((conn_at () [])\<lparr>w_sent := [9, 5]\<rparr>) = emitted ((conn_at () [])\<lparr>w_sent := [9], c_out := [5]\<rparr>)"
  by (rule rd_waits_with_everything_sent [of 1])
    (simp add: rd_def rd_loop.simps flush_out_def wr_now_def wr_now_loop.simps transport_send_def os_send_def
      transport_recv_def os_recv_def conn_at_def)

text \<open>C4. A transfer that fails on an open connection ends it: the descriptor is closed, nothing stays
  read ahead, and the turn goes back.\<close>

theorem failed_transfer_ends:
  assumes "c_fd s \<ge> 0"
  shows "(\<forall>t. rd n s = Zero t \<longrightarrow> ended t) \<and> (\<forall>t. wr bs s = Zero t \<longrightarrow> ended t)"
  using assms by (auto dest: rd_Zero wr_Zero)

theorem failed_transfer_ends_witness:
  "ended (final (rd 1 (conn_at () [RData []])))"
proof -
  have fd: "c_fd (conn_at () [RData []]) \<ge> 0" by (simp add: conn_at_def)
  obtain t where t: "rd 1 (conn_at () [RData []]) = Zero t"
    by (auto simp: rd_def rd_loop.simps flush_out_def transport_recv_def os_recv_def coco_client_tls_why_def
        lost_def Let_def say_def conn_at_def ZG_IN_SIZE_def)
  show ?thesis using failed_transfer_ends [OF fd, of 1 "[]"] t by simp
qed

text \<open>However a write comes out, the bytes that reached the peer are the front of what had been
  written: none is reordered, repeated or skipped.\<close>

theorem wr_sends_a_prefix:
  "\<exists>p. prefix p (c_out s @ bs) \<and> w_sent (final (wr bs s)) = w_sent s @ p"
  by (rule wr_prefix)

text \<open>C5. The two buffers of a connection never overflow and the read position stays inside what has
  been filled, through any sequence of calls of the client, however each of them ends: opening, closing, serialising, every verb, every
  writer, every reader, skipping and draining.\<close>

theorem buffers_never_overflow:
  assumes "(client_call E B)\<^sup>*\<^sup>* s t" and "bufs_ok s"
  shows "length (c_out t) \<le> ZG_OUT_SIZE \<and> length (c_in t) \<le> ZG_IN_SIZE \<and> c_pin t \<le> length (c_in t)"
proof -
  from assms have "bufs_ok t" by (induction rule: rtranclp_induct) (auto intro: bufs_ok_call)
  then show ?thesis by (simp add: bufs_ok_def)
qed

theorem buffers_never_overflow_witness:
  "\<exists>r. zg_drain no_engine 2 (conn_at () [RData [3, 0]]) = Some r \<and> length (c_in (final r)) \<le> ZG_IN_SIZE"
proof -
  obtain r where r: "zg_drain no_engine 2 (conn_at () [RData [3, 0]]) = Some r" using zg_drain_returns [of "conn_at () [RData [3, 0]]" no_engine 2] by auto
  then have "(client_call no_engine Tls_absent)\<^sup>*\<^sup>* (conn_at () [RData [3, 0]]) (final r)" by (blast intro: client_call.drain)
  from buffers_never_overflow [OF this] show ?thesis using r by (simp add: bufs_ok_def conn_at_def)
qed

section \<open>Taking turns\<close>

text \<open>C6. Mutual exclusion. Whatever the processes that share a file of turns do, in any order, no two of them believe to hold the turn
  at once. Of the kernel it is used only that it does not give its lock to two open files (\<open>flock_allows\<close>): that a process believes
  to hold the turn exactly when it was given the lock and has not yet released it is the work of the code.\<close>

theorem turn_is_exclusive:
  assumes "turn_reachable E T" and "c_held (T p)" and "c_held (T q)"
  shows "p = q"
  using turn_reachable_agree [OF assms(1)] assms(2,3) by (auto simp: turns_agree_def turn_backed_def)

definition two_workers :: "nat \<Rightarrow> unit zsys" where
  "two_workers = (\<lambda>p. (conn_at () [])\<lparr>c_lockfd := 4, w_flock := if p = 1 then [FErr E_INTR, FGot] else []\<rparr>)"

theorem turn_is_exclusive_witness:
  "c_held (final (take_turn (two_workers 1))) \<and> \<not> c_held ((two_workers(1 := final (take_turn (two_workers 1)))) 2)"
proof -
  have s: "turn_reachable no_engine two_workers" by (rule turn_reachable.start) (simp add: two_workers_def conn_at_def)
  have t: "c_held (final (take_turn (two_workers 1)))"
    by (simp add: two_workers_def take_turn_def take_turn_poll_cases conn_at_def)
  have "turn_step no_engine two_workers (two_workers(1 := final (take_turn (two_workers 1))))"
    by (rule turn_step.takes) (simp add: flock_allows_def two_workers_def conn_at_def)
  with s have r: "turn_reachable no_engine (two_workers(1 := final (take_turn (two_workers 1))))" by (rule turn_reachable.step)
  show ?thesis using turn_is_exclusive [OF r, of 1 2] t by auto
qed

text \<open>C7. The wait for the turn is bounded. Against a lock that stays busy, a connection with a bound of
  \<open>c_lockwait\<close> seconds, at most 2147483, tries once, sleeps two milliseconds before each further try, and gives up with the time-out message
  when it has slept for exactly \<open>c_lockwait\<close> seconds, without the turn. A larger bound overflows the 32 bits of the product in milliseconds.\<close>

theorem busy_turn_times_out:
  assumes "c_lockfd s \<ge> 0" and "\<not> c_held s" and "c_lockwait s > 0" and "c_lockwait s \<le> 2147483"
    and "w_flock s = replicate (Suc (nat (c_lockwait s * 500))) (FErr E_AGAIN) @ rest"
  shows "take_turn s = Zero (s\<lparr>w_flock := rest, w_errno := E_AGAIN, w_slept := w_slept s + 1000000 * nat (c_lockwait s),
    c_err := ''timed out waiting for another cocolog process''\<rparr>)"
proof -
  have "2000 * nat (c_lockwait s * 500) = 1000000 * nat (c_lockwait s)" using assms(3) by (simp add: nat_mult_distrib)
  then show ?thesis using take_turn_poll_busy [OF assms(3) _ assms(5), of 0] assms(1-4) by (simp add: take_turn_def)
qed

theorem busy_turn_times_out_witness:
  "take_turn ((conn_at () [])\<lparr>c_lockfd := 4, c_lockwait := 1, w_flock := replicate 501 (FErr E_AGAIN)\<rparr>) =
     Zero ((conn_at () [])\<lparr>c_lockfd := 4, c_lockwait := 1, w_flock := [], w_errno := E_AGAIN, w_slept := 1000000,
       c_err := ''timed out waiting for another cocolog process''\<rparr>)"
  using busy_turn_times_out [of "(conn_at () [])\<lparr>c_lockfd := 4, c_lockwait := 1, w_flock := replicate 501 (FErr E_AGAIN)\<rparr>" "[]"]
  by (simp add: conn_at_def)

text \<open>C8. Commit and rollback give the turn back. Once the server has taken the verb, the connection does
  not hold the turn when the call is over, whether it succeeded or was refused.\<close>

theorem commit_gives_turn_back:
  assumes "\<not> c_embed s" and "verb E ''commit'' s = One v t"
    and "zg_commit E s = One w u \<or> zg_commit E s = Zero u"
  shows "\<not> (c_lockfd u \<ge> 0 \<and> c_held u)"
  using simple_verb_frees [OF assms(2), of w u] assms(1,3) by (simp add: zg_commit_def)

definition serialised_conn :: "recv_ev list \<Rightarrow> unit zsys" where
  "serialised_conn evs = (conn_at () evs)\<lparr>c_lockfd := 4\<rparr>"

theorem commit_gives_turn_back_witness:
  "\<exists>u. zg_commit no_engine (serialised_conn [RData [0, 0]]) = One () u \<and> \<not> (c_lockfd u \<ge> 0 \<and> c_held u)"
proof -
  let ?s = "serialised_conn [RData [0, 0]]"
  have ok: "verb_ok ?s" "inbound ?s = [0] @ [0]" by (simp_all add: conn_defs serialised_conn_def)
  obtain t where v: "verb no_engine ''commit'' ?s = One () t"
    using talksD [OF verb_talks [of "''commit''" no_engine] ok] by auto
  have e: "\<not> c_embed ?s" by (simp add: conn_at_def serialised_conn_def)
  obtain u where u: "zg_commit no_engine ?s = One () u"
    using simple_verb_ok [of "''commit''" ?s "[]" no_engine] ok e by (auto simp: zg_commit_def)
  then show ?thesis using commit_gives_turn_back [OF e v, of "()" u] by blast
qed

section \<open>The wire\<close>

text \<open>Byte order. On a host of either byte order, what a value of up to 16 bytes leaves on the wire is
  its big-endian form.\<close>

theorem wire_is_big_endian:
  assumes "line_ok s" and "n \<le> 16"
  shows "\<exists>t. wr_be n v s = One () t \<and> emitted t = emitted s @ be_bytes n v \<and> inbound t = inbound s"
  using talksD [OF wr_be_ok [OF assms(2)] assms(1), of "inbound s" v] by auto

text \<open>C9. A row of values survives the wire. What the typed writers put on one connection, the reader that
  is not told any type reads back on another, value by value and in order, with nothing left over; the two hosts
  need not have the same byte order.\<close>

theorem row_round_trip:
  assumes "list_all (cell_fits cap) cells" and "line_ok s" and "line_ok r"
    and "inbound r = drop (length (emitted s)) (emitted (final (for_each cells (write_cell E) s))) @ rest"
  shows "\<exists>t u. for_each cells (write_cell E) s = One () t \<and> line_ok t \<and>
    times (length cells) (zg_read_field E cap) r = One (map cell_val cells) u \<and> line_ok u \<and> inbound u = rest"
  using assms by (rule row.round_trip)

text \<open>The two ends of the witness: an Int and a String cross from a little-endian to a big-endian host.\<close>

definition row_cells :: "cell list" where
  "row_cells = [CInt 5, CString ''ab'']"

definition row_bytes :: "byte list" where
  "row_bytes = [0x0B, 0, 0, 0, 5, 0x29, 2, 0x61, 0x62]"

lemma row_cells_bytes: "concat (map enc_cell row_cells) = row_bytes"
  by (simp add: row_cells_def row_bytes_def enc_cell_def enc_int_def enc_scalar_def enc_string_def str_bytes_def str_val_def
      bytes_of_def cstr_def tdb_defs evaluated_bytes)

theorem row_round_trip_witness:
  "\<exists>t u. for_each row_cells (write_cell no_engine) (conn_at () []) = One () t \<and> line_ok t \<and>
     times 2 (zg_read_field no_engine 16) ((conn_at () [RData row_bytes])\<lparr>w_big := True\<rparr>) =
       One [ZG_F_LONG 5, ZG_F_TEXT [0x61, 0x62]] u \<and> line_ok u \<and> inbound u = []"
proof -
  let ?s = "conn_at () []" and ?r = "(conn_at () [RData row_bytes])\<lparr>w_big := True\<rparr>"
  have ok: "list_all (cell_fits 16) row_cells" "line_ok ?s" "line_ok ?r" "row_bytes \<noteq> []"
    by (simp_all add: row_cells_def row_bytes_def cell_fits_def string_fits_def strlen_def cstr_def ZG_MAX_STRING_def conn_defs)
  obtain t where "for_each row_cells (write_cell no_engine) ?s = One () t" "emitted t = emitted ?s @ row_bytes"
    using talksD [OF row.put_all [OF ok(1)] ok(2), of "[]" no_engine] row_cells_bytes by (auto simp: conn_defs)
  then have "inbound ?r = drop (length (emitted ?s)) (emitted (final (for_each row_cells (write_cell no_engine) ?s))) @ []"
    using ok(4) by (simp add: conn_defs)
  from row_round_trip [OF ok(1-3) this] show ?thesis
    by (simp add: row_cells_def cell_val_def str_val_def bytes_of_def cstr_def numeral_2_eq_2)
qed

text \<open>A vector of doubles survives the wire: what \<open>zg_write_dvector\<close> puts on one connection,
  \<open>zg_read_dvector\<close> reads back on another, bit for bit, when the caller's buffer is wide enough.\<close>

theorem dvector_round_trip:
  assumes "list_all (dvector_fits cap) vss" and "line_ok s" and "line_ok r"
    and "inbound r = drop (length (emitted s)) (emitted (final (for_each vss (zg_write_dvector E) s))) @ rest"
  shows "\<exists>t u. for_each vss (zg_write_dvector E) s = One () t \<and> line_ok t \<and>
    times (length vss) (zg_read_dvector E cap) r = One (map Some vss) u \<and> line_ok u \<and> inbound u = rest"
  using assms by (rule dvector_field.round_trip)

text \<open>The typed readers read what the typed writers wrote: an Int, a Long, a Bool, a Double, a String and
  a Text each come back as they went, from a connection whose next field is the one written.\<close>

theorem typed_readers_agree:
  assumes "line_ok s" and "string_fits cap x" and "text_fits cap y"
  shows "(inbound s = enc_int i @ rest \<longrightarrow> (\<exists>t. zg_read_int E s = One (Some i) t \<and> inbound t = rest)) \<and>
    (inbound s = enc_long l @ rest \<longrightarrow> (\<exists>t. zg_read_long E s = One (Some l) t \<and> inbound t = rest)) \<and>
    (inbound s = enc_bool b @ rest \<longrightarrow> (\<exists>t. zg_read_bool s = One (Some b) t \<and> inbound t = rest)) \<and>
    (inbound s = enc_double d @ rest \<longrightarrow> (\<exists>t. zg_read_double s = One (Some d) t \<and> inbound t = rest)) \<and>
    (inbound s = enc_string x @ rest \<longrightarrow> (\<exists>t. zg_read_string E cap s = One (Some (str_val x)) t \<and> inbound t = rest)) \<and>
    (inbound s = enc_text y @ rest \<longrightarrow> (\<exists>t. zg_read_text E cap s = One (Some (str_val y)) t \<and> inbound t = rest))"
  using talksD [OF int_field.get_exact assms(1), of i rest E] talksD [OF long_field.get_exact assms(1), of l rest E]
    talksD [OF bool_field.get_exact assms(1), of b rest] talksD [OF double_field.get_exact assms(1), of d rest]
    talksD [OF string_field.get_exact [OF assms(2)] assms(1), of rest E] talksD [OF text_field.get_exact [OF assms(3)] assms(1), of rest E]
  by blast

text \<open>C10. Skipping a field of any type, nested vectors included, takes exactly that field off the stream:
  the descriptor byte is enough to know how many bytes follow.\<close>

theorem skip_takes_one_field:
  assumes "line_ok s" and "field_ok f" and "inbound s = enc_field f @ rest"
  shows "\<exists>t. zg_skip_field E s = One () t \<and> line_ok t \<and> inbound t = rest \<and> emitted t = emitted s"
  using talksD [OF zg_skip_field_ok [OF assms(2)] assms(1,3)] by auto

theorem skip_takes_one_field_witness:
  "\<exists>t. zg_skip_field no_engine (conn_at () [RData [0x6B, 0, 0], RData [0, 1, 0x29, 2, 5, 6, 7]]) = One () t \<and> line_ok t \<and>
     inbound t = [7] \<and> emitted t = []"
proof -
  have "field_ok (Vec 0x6B [Run8 TDB_STRING 2 [5, 6]])" by (simp add: tdb_esize_def tdb_defs)
  then show ?thesis
    using skip_takes_one_field [of "conn_at () [RData [0x6B, 0, 0], RData [0, 1, 0x29, 2, 5, 6, 7]]"
        "Vec 0x6B [Run8 TDB_STRING 2 [5, 6]]" "[7]" no_engine]
    by (simp add: evaluated_bytes TDB_STRING_def)
qed

text \<open>What a parameter writer puts on the wire is one field to the skip: written and then arriving, each
  value is skipped whole.\<close>

theorem written_values_are_fields:
  assumes "line_ok s" and "line_ok r" and "cell_fits cap c"
    and "inbound r = drop (length (emitted s)) (emitted (final (write_cell E c s))) @ rest"
  shows "\<exists>t. zg_skip_field E r = One () t \<and> inbound t = rest"
proof -
  obtain t where "write_cell E c s = One () t" "emitted t = emitted s @ enc_cell c"
    using talksD [OF write_cell_ok [OF assms(3)] assms(1), of "inbound s" E] by auto
  then have "inbound r = enc_field (field_of_cell c) @ rest" using assms(4) by (simp add: enc_field_of_cell)
  then show ?thesis using talksD [OF zg_skip_field_ok [OF field_of_cell_ok [OF assms(3)]] assms(2)] by blast
qed

text \<open>C11. A drain leaves the stream in step: behind any sequence of cursor openings, rows, closings and return
  values it takes up to the byte that ends the call, and nothing behind it.\<close>

theorem drain_leaves_stream_in_step:
  assumes "line_ok s" and "list_all (answer_ok n) answers"
    and "inbound s = concat (map enc_answer answers) @ 0 # rest"
  shows "\<exists>t. zg_drain E n s = Some (One () t) \<and> line_ok t \<and> inbound t = rest \<and> emitted t = emitted s"
  using zg_drain_ok [OF assms(2,1,3)] by blast

theorem drain_leaves_stream_in_step_witness:
  "\<exists>t. zg_drain no_engine 1 (conn_at () [RData [1, 1, 65, 2, 0x0B, 0, 0, 0, 5, 3, 0, 9]]) = Some (One () t) \<and> line_ok t \<and>
     inbound t = [9] \<and> emitted t = []"
  using drain_leaves_stream_in_step [of "conn_at () [RData [1, 1, 65, 2, 0x0B, 0, 0, 0, 5, 3, 0, 9]]" 1
      "[Cursor [65], Row [Atom TDB_INT [0, 0, 0, 5]], Cursor_end]" "[9]" no_engine]
  by (simp add: ZG_MAX_STRING_def str_bytes_def TDB_INT_def tdb_esize_def tdb_defs)

text \<open>C12. A drain of a socket always comes to an end: it returns, fails, or waits for the server.\<close>

theorem drain_of_a_socket_returns:
  assumes "\<not> c_embed s"
  shows "\<exists>r. zg_drain E n s = Some r"
  using assms by (rule zg_drain_returns)

theorem drain_of_a_socket_returns_witness: "\<exists>r. zg_drain no_engine 1 (conn_at () [RData [3, 3, 3]]) = Some r"
  by (rule drain_of_a_socket_returns) simp

section \<open>Verbs\<close>

text \<open>C13. Pipelining. Sending \<open>n\<close> calls and then waiting for all of them is the same conversation as making
  them one after the other: the same bytes go out and the same two acknowledgements a call come in.\<close>

theorem pipelined_calls_are_calls:
  assumes "verb_ok s" and "list_all name_ok ps" and "inbound s = acks ps @ rest"
  shows "\<exists>t u. for_each ps (zg_call E) s = One () t \<and>
    andthen (for_each ps (zg_call_send E)) (\<lambda>_. for_each ps (zg_call_wait E)) s = One () u \<and>
    emitted t = emitted s @ concat (map call_bytes ps) \<and> emitted u = emitted t \<and> inbound t = rest \<and> inbound u = rest"
  using talksD [OF calls_one_by_one [OF assms(2)] assms(1,3), of E] talksD [OF calls_pipelined [OF assms(2)] assms(1,3), of E]
  by auto

theorem pipelined_calls_are_calls_witness:
  "\<exists>t u. for_each [''p'', ''q''] (zg_call no_engine) (conn_at () [RData [0, 0, 0, 0]]) = One () t \<and>
     andthen (for_each [''p'', ''q''] (zg_call_send no_engine)) (\<lambda>_. for_each [''p'', ''q''] (zg_call_wait no_engine))
       (conn_at () [RData [0, 0, 0, 0]]) = One () u \<and>
     emitted t = concat (map call_bytes [''p'', ''q'']) \<and> emitted u = emitted t \<and> inbound t = [] \<and> inbound u = []"
  using pipelined_calls_are_calls [of "conn_at () [RData [0, 0, 0, 0]]" "[''p'', ''q'']" "[]" no_engine]
  by (simp add: acks_def name_ok_def strlen_def cstr_def ZG_MAX_STRING_def)

text \<open>The verbs as conversations: compile, echo and isolate each send their name and their argument and
  take the server's acknowledgements, and answer 1.\<close>

theorem verbs_converse:
  assumes "verb_ok s"
  shows "(strlen txt \<le> ZG_MAX_TEXT \<and> inbound s = [0, 0] @ rest \<longrightarrow>
      (\<exists>t. zg_compile E txt s = One () t \<and> inbound t = rest \<and>
           emitted t = emitted s @ name_bytes ''compile'' @ text_bytes (bytes_of (cstr txt)))) \<and>
    (name_ok txt \<and> length bs < cap \<and> length bs \<le> ZG_MAX_STRING \<and> inbound s = (0 # str_bytes bs) @ rest \<longrightarrow>
      (\<exists>t. zg_echo E txt cap s = One bs t \<and> inbound t = rest \<and>
           emitted t = emitted s @ name_bytes ''echo'' @ name_bytes txt)) \<and>
    (inbound s = [0, 0] @ rest \<longrightarrow>
      (\<exists>t. zg_isolate E level s = One () t \<and> inbound t = rest \<and>
           emitted t = emitted s @ name_bytes ''isolate'' @ [word_of_nat level]))"
  using talksD [OF zg_compile_talks assms] talksD [OF zg_echo_talks assms] talksD [OF zg_isolate_talks assms]
  by (intro conjI impI) (blast, blast, blast)



text \<open>C15. A value that is too long is refused before anything happens: no verb is named, no turn is taken, no
  byte is sent, and the connection is as it was but for the message.\<close>

theorem too_long_is_refused_first:
  "(strlen x > ZG_MAX_STRING \<longrightarrow>
      zg_echo E x cap s = Zero (s\<lparr>c_err := ''a String is limited to 255 bytes''\<rparr>) \<and>
      zg_call E x s = Zero (s\<lparr>c_err := ''a String is limited to 255 bytes''\<rparr>) \<and>
      zg_call_send E x s = Zero (s\<lparr>c_err := ''a String is limited to 255 bytes''\<rparr>) \<and>
      zg_write_string E x s = Zero (s\<lparr>c_err := ''a String is limited to 255 bytes''\<rparr>)) \<and>
   (strlen x > ZG_MAX_TEXT \<longrightarrow>
      zg_compile E x s = Zero (s\<lparr>c_err := ''a Text is limited to 65535 bytes''\<rparr>) \<and>
      zg_write_text E x s = Zero (s\<lparr>c_err := ''a Text is limited to 65535 bytes''\<rparr>))"
  by (simp add: too_long_string too_long_suite too_long_parameter)

theorem too_long_is_refused_first_witness:
  "zg_call no_engine (replicate 256 CHR ''x'') (conn_at () []) =
     Zero ((conn_at () [])\<lparr>c_err := ''a String is limited to 255 bytes''\<rparr>)"
proof -
  have "strlen (replicate 256 CHR ''x'') = 256" by (simp add: strlen_def cstr_def takeWhile_replicate)
  then show ?thesis
    using too_long_is_refused_first [of "replicate 256 CHR ''x''" no_engine 1 "conn_at () []"] by (simp add: ZG_MAX_STRING_def)
qed

text \<open>An answer that does not fit the caller's buffer is refused with its bytes off the wire, so the next
  call reads the next answer.\<close>

theorem too_wide_is_off_the_wire:
  assumes "line_ok s" and "cap \<le> length bs" and "length bs \<le> ZG_MAX_STRING" and "cap \<le> strlen x" and "strlen x \<le> ZG_MAX_TEXT"
  shows "(inbound s = str_bytes bs @ rest \<longrightarrow>
      (\<exists>t. rd_std_string cap s = Zero t \<and> line_ok t \<and> inbound t = rest \<and> emitted t = emitted s)) \<and>
    (inbound s = enc_text x @ rest \<longrightarrow>
      (\<exists>t. zg_read_text E cap s = Zero t \<and> line_ok t \<and> inbound t = rest \<and> emitted t = emitted s))"
  using rd_std_string_wide [OF assms(2,3,1)] zg_read_text_wide [OF assms(4,5,1), of rest E] by blast

text \<open>A null of any type is one byte to every reader.\<close>

theorem null_is_one_byte:
  assumes "line_ok s" and "tdb AND TDB_IS_NULL \<noteq> 0" and "inbound s = tdb # rest"
  shows "(\<exists>t. zg_read_int E s = One None t \<and> inbound t = rest) \<and> (\<exists>t. zg_read_long E s = One None t \<and> inbound t = rest) \<and>
    (\<exists>t. zg_read_bool s = One None t \<and> inbound t = rest) \<and> (\<exists>t. zg_read_double s = One None t \<and> inbound t = rest) \<and>
    (\<exists>t. zg_read_string E cap s = One None t \<and> inbound t = rest) \<and> (\<exists>t. zg_read_text E cap s = One None t \<and> inbound t = rest) \<and>
    (\<exists>t. zg_read_text_alloc E s = One None t \<and> inbound t = rest) \<and> (\<exists>t. zg_read_dvector E cap s = One None t \<and> inbound t = rest) \<and>
    (\<exists>t. zg_read_field E cap s = One ZG_F_NULL t \<and> inbound t = rest) \<and> (\<exists>t. zg_skip_field E s = One () t \<and> inbound t = rest)"
proof -
  have s: "inbound s = [tdb] @ rest" using assms(3) by simp
  note n = null_readers [OF assms(2), THEN talksD, OF assms(1) s]
  show ?thesis using n(1) n(2) [of E] n(3) [of E] n(4) n(5) [of E cap] n(6) [of E cap] n(7) [of E] n(8) [of E cap]
      n(9) [of E cap] n(10) [of E] by blast
qed

section \<open>Opening and closing\<close>

text \<open>C16. A dial starts afresh. Whatever the old connection had read ahead, held back or held of the turn, after a
  successful dial the new socket has been read up to the end of its greeting and no further, nothing has been written
  to it, the transaction is the one the server named, and the turn is free.\<close>

theorem reopen_starts_afresh:
  assumes "\<not> c_embed s" and "w_dials s = Addresses as L # r" and "first_up as = Some a"
    and "answers_with B host L a (be_bytes 8 (unat tid) @ rest) s"
  shows "\<exists>t. zg_reopen E B host s = One () t \<and> line_ok t \<and> inbound t = rest \<and> emitted t = [] \<and> c_tid t = tid \<and>
    c_err t = '''' \<and> \<not> (c_lockfd t \<ge> 0 \<and> c_held t)"
  using dial_ok [OF assms(2,3,1,4)] assms(1) by (auto simp: zg_reopen_def)

definition ossl_fine :: ossl where
  "ossl_fine = \<lparr>a_calloc = True, a_ctx_new = True, a_load_verify = (\<lambda>_ _. True), a_default_paths = True,
     a_use_cert = (\<lambda>_ _. True), a_use_key = (\<lambda>_ _ _. True), a_check_key = (\<lambda>_ _. True), a_ssl_new = True,
     a_set1_host = (\<lambda>_. True), a_set_fd = (\<lambda>_. True), a_connect = (\<lambda>_. True), a_verify_result = (\<lambda>_. None),
     a_err_queue = None\<rparr>"

definition addr_down :: addr_try where
  "addr_down = \<lparr>ad_fd = 6, ad_connects = False, ad_errno = E_OTHER ''refused'', ad_recv = [], ad_send = [], ad_sslr = [],
     ad_sslw = []\<rparr>"

definition addr_up :: "recv_ev list \<Rightarrow> addr_try" where
  "addr_up evs = \<lparr>ad_fd = 7, ad_connects = True, ad_errno = E_NONE, ad_recv = evs, ad_send = [], ad_sslr = [], ad_sslw = []\<rparr>"

definition stale_conn :: "unit zsys" where
  "stale_conn = (conn_at () [])\<lparr>c_in := [1, 2], c_out := [3], c_lockfd := 4, c_held := True,
     w_dials := [Addresses [addr_down, addr_up [RData [0, 0, 0], RData [0, 0, 0, 0, 3, 42]]] ossl_fine]\<rparr>"

theorem reopen_starts_afresh_witness:
  "\<exists>t. zg_reopen no_engine Tls_absent ''db'' stale_conn = One () t \<and> line_ok t \<and> inbound t = [42] \<and> emitted t = [] \<and>
     c_tid t = 3 \<and> c_err t = '''' \<and> \<not> (c_lockfd t \<ge> 0 \<and> c_held t)"
proof -
  let ?a = "addr_up [RData [0, 0, 0], RData [0, 0, 0, 0, 3, 42]]"
  have "\<not> c_embed stale_conn" "w_dials stale_conn = Addresses [addr_down, ?a] ossl_fine # []"
    "first_up [addr_down, ?a] = Some ?a"
    "answers_with Tls_absent ''db'' ossl_fine ?a (be_bytes 8 (unat (3 :: 64 word)) @ [42]) stale_conn"
    by (simp_all add: stale_conn_def conn_at_def addr_up_def addr_down_def answers_with_def evaluated_bytes)
  from reopen_starts_afresh [OF this, of no_engine] show ?thesis .
qed

text \<open>A dial that fails leaves the connection closed, with nothing read ahead and the turn free.\<close>

theorem failed_dial_leaves_closed:
  assumes "dial B host s = Zero t"
  shows "ended t"
  using assms by (rule dial_fails_closed)

text \<open>C17. With TLS asked for, there is no plain-text connection: a dial succeeds only behind a handshake
  that the TLS library completed on the socket of one of the addresses dialled, and the connection has its TLS session from then on.\<close>

theorem tls_is_never_dropped:
  assumes "dial B host s = One v t" and "g_tls_on s"
  shows "B = Tls_openssl \<and> c_tls t \<noteq> None \<and>
    (\<exists>as L r fd cf evs_log. w_dials s = Addresses as L # r \<and> fd \<in> ad_fd ` set as \<and>
       coco_client_tls_open L fd host (g_tls s) 512 = Opened cf evs_log)"
  using assms by (rule dial_tls_on)

definition tls_conn :: "unit zsys" where
  "tls_conn = (conn_at () [])\<lparr>g_tls_on := True, w_dials := [Addresses
     [(addr_up [])\<lparr>ad_sslr := [SslRead 0 [0, 0, 0, 0, 0, 0, 3]]\<rparr>] ossl_fine]\<rparr>"

theorem tls_is_never_dropped_witness:
  "\<exists>t. dial Tls_openssl ''db'' tls_conn = One () t \<and> c_tls t \<noteq> None"
proof -
  let ?a = "(addr_up [])\<lparr>ad_sslr := [SslRead 0 [0, 0, 0, 0, 0, 0, 3]]\<rparr>"
  have "w_dials tls_conn = Addresses [?a] ossl_fine # []" "first_up [?a] = Some ?a" "\<not> c_embed tls_conn"
    "answers_with Tls_openssl ''db'' ossl_fine ?a (be_bytes 8 (unat (3 :: 64 word)) @ []) tls_conn"
    by (simp_all add: answers_with_def tls_conn_def conn_at_def addr_up_def evaluated_bytes coco_client_tls_open_def ossl_fine_def
        tls_load_authority_def no_tls_options_def tls_load_cert_def tls_set_host_def tls_connect_def Let_def)
  from dial_ok [OF this] obtain t where t: "dial Tls_openssl ''db'' tls_conn = One () t" by blast
  then show ?thesis using tls_is_never_dropped [OF t] by (simp add: tls_conn_def)
qed

text \<open>Closing a socket connection closes its descriptor and its lock file, once each, and gives the turn
  back.\<close>

theorem close_releases_everything:
  assumes "\<not> c_embed s"
  shows "c_fd (zg_close E s) = -1 \<and> c_lockfd (zg_close E s) = -1 \<and> c_tls (zg_close E s) = None \<and>
    mset (w_closed (zg_close E s)) =
      mset (w_closed s) + mset (filter (\<lambda>fd. fd \<ge> 0) [c_lockfd s, c_fd s]) \<and>
    (c_lockfd s \<ge> 0 \<longrightarrow> \<not> c_held (zg_close E s))"
  using assms by (auto simp: zg_close_def close_lockfd_def Let_def close_fd_def give_turn_def)

section \<open>Embedded sessions\<close>

text \<open>C18. A session belongs to one thread and one connection. However the threads of a process use, forget and
  end, no session is ever in the slots of two threads, or twice in one.\<close>

theorem sessions_are_never_shared:
  assumes "fresh_sessions E engine_live" and "ce_linked E" and "session_reachable E engine_live p"
    and "(c, ce) \<in> set (p_slots p i)" and "(d, ce) \<in> set (p_slots p j)"
  shows "i = j \<and> c = d"
  using sessions_apartD(4) [OF session_reachable_apart [OF assms(1-3)] assms(4,5)] by simp

text \<open>An engine that numbers its sessions: its state is the next number and the live ones.\<close>

definition counting_engine :: "(nat \<times> nat list) engine" where
  "counting_engine = \<lparr>ce_linked = True, ce_page_size = (\<lambda>_. 0), ce_engine_open = (\<lambda>_ e. (None, e)), ce_engine_close = id,
     ce_session_new = (\<lambda>(n, l). (Some n, (Suc n, n # l))), ce_session_free = (\<lambda>ce (n, l). (n, removeAll ce l)),
     ce_error = (\<lambda>_ _. ''''),
     ce_call = (\<lambda>_ _ e. (True, e)), ce_write_num = (\<lambda>_ _ _ e. (True, e)), ce_write_str = (\<lambda>_ _ _ e. (True, e)),
     ce_write_dvector = (\<lambda>_ _ e. (True, e)), ce_read_dvector = (\<lambda>_ _ e. (None, e)), ce_result = (\<lambda>_ e. (None, e)),
     ce_columns = (\<lambda>_ _ e. (None, e)), ce_read_num = (\<lambda>_ e. (None, e)), ce_read_str = (\<lambda>_ _ e. (None, e)),
     ce_read_str_alloc = (\<lambda>_ e. (None, e)), ce_skip = (\<lambda>_ e. (True, e)), ce_commit = (\<lambda>_ e. (True, e)),
     ce_rollback = (\<lambda>_ e. (True, e)), ce_isolate = (\<lambda>_ _ e. (True, e)), ce_reset = (\<lambda>_ e. (True, e))\<rparr>"

text \<open>The sessions of that engine: the live ones, and every number not given out yet is not among them.\<close>

definition counting_live :: "nat \<times> nat list \<Rightarrow> nat set" where
  "counting_live e = {ce \<in> set (snd e). ce < fst e}"

lemma counting_fresh: "fresh_sessions counting_engine counting_live"
  by (auto simp: fresh_sessions_def counting_engine_def counting_live_def)

text \<open>Two threads that have both used connection 1.\<close>

definition empty_process :: "(nat \<times> nat list) process" where
  "empty_process = \<lparr>p_eng = (0, []), p_slots = (\<lambda>_. []), p_key = (\<lambda>_. [])\<rparr>"

definition two_threads :: "(nat \<times> nat list) process" where
  "two_threads = \<lparr>p_eng = (2, [1, 0]), p_slots = (\<lambda>_. [])(0 := [(1, 0)], 1 := [(1, 1)]), p_key = (\<lambda>_. [])(0 := [(1, 0)], 1 := [(1, 1)])\<rparr>"

lemma two_threads_reachable: "session_reachable counting_engine counting_live two_threads"
proof -
  let ?s = "conn_at (0, []) []" and ?p = "\<lparr>p_eng = (1, [0]), p_slots = (\<lambda>_. [])(0 := [(1, 0)]), p_key = (\<lambda>_. [])(0 := [(1, 0)])\<rparr>"
  have a: "session_reachable counting_engine counting_live empty_process"
    by (rule session_reachable.start) (simp add: session_start_def empty_process_def)
  have "session_step counting_engine counting_live empty_process
      (came_back empty_process 0 (snd (ce_of counting_engine (as_thread empty_process 0 ?s))))"
    by (rule session_step.uses [where r = "fst (ce_of counting_engine (as_thread empty_process 0 ?s))"]) (rule prod.collapse [symmetric])
  moreover have "came_back empty_process 0 (snd (ce_of counting_engine (as_thread empty_process 0 ?s))) = ?p"
    by (simp add: came_back_def as_thread_def empty_process_def ce_of_def take_malloc_def counting_engine_def conn_at_def Let_def)
  ultimately have b: "session_reachable counting_engine counting_live ?p" using session_reachable.step [OF a] by simp
  have "session_step counting_engine counting_live ?p
      (came_back ?p 1 (snd (ce_of counting_engine (as_thread ?p 1 ?s))))"
    by (rule session_step.uses [where r = "fst (ce_of counting_engine (as_thread ?p 1 ?s))"]) (rule prod.collapse [symmetric])
  moreover have "came_back ?p 1 (snd (ce_of counting_engine (as_thread ?p 1 ?s))) = two_threads"
    by (simp add: came_back_def as_thread_def two_threads_def ce_of_def take_malloc_def counting_engine_def conn_at_def Let_def)
  ultimately show ?thesis using session_reachable.step [OF b] by simp
qed

lemma counting_linked: "ce_linked counting_engine"
  by (simp add: counting_engine_def)

theorem sessions_are_never_shared_witness:
  "(1, 1) \<in> set (p_slots two_threads 1) \<and> (2, 1) \<notin> set (p_slots two_threads 0)"
  using sessions_are_never_shared [OF counting_fresh counting_linked two_threads_reachable, of 1 1 1 2 0]
  by (simp add: two_threads_def)

text \<open>A thread's sessions die with the thread: what the key's destructor frees when a thread ends is every
  session the thread had.\<close>

theorem thread_end_frees_its_sessions:
  assumes "fresh_sessions E engine_live" and "ce_linked E" and "session_reachable E engine_live p" and "(c, ce) \<in> set (p_slots p i)"
  shows "ce \<notin> engine_live (ce_thread_slots_free E (p_key p i) (p_eng p))"
  using assms by (rule thread_exit_frees)

text \<open>A session once made is the one every later use of the connection on that thread gets, and getting
  it again changes nothing.\<close>

theorem session_is_stable:
  assumes "ce_of E s = (Some ce, t)"
  shows "ce_of E t = (Some ce, t)"
  using assms by (rule ce_of_again)

section \<open>TLS\<close>

text \<open>C19. What a handshake that succeeded was asked for: TLS 1.2 or better, an authority, the server's name in the
  ClientHello, and, unless the caller asked for an insecure connection, verification of the peer against that same
  name; and this end's certificate exactly when the caller named one.\<close>

theorem handshake_verifies_the_host:
  assumes "coco_client_tls_open L fd host opts cap = Opened cf evs_log"
  shows "t_min_tls12 cf \<and> t_authority cf \<noteq> No_authority \<and> t_sni cf = Some host \<and> t_fd cf = Some fd \<and> a_connect L cf \<and>
    (\<not> o_insecure opts \<longrightarrow> t_check_host cf = Some host \<and> t_verify_peer cf) \<and>
    (t_cert cf = None \<longleftrightarrow> o_cert opts = None) \<and> (o_cert opts = None \<longleftrightarrow> o_key opts = None)"
proof -
  obtain cf1 cf2 cf3 where c: "tls_load_authority L opts cap (conf0\<lparr>t_min_tls12 := True\<rparr>) = Inr cf1"
      "tls_load_cert L opts cap cf1 = Inr cf2" "tls_set_host L opts cap host cf2 = Inr cf3" "tls_connect L cap fd cf3 = Inr cf"
    using assms by (rule coco_client_tls_open_Opened)
  have n: "t_cert cf1 = None" using c(1) by (auto simp: tls_load_authority_def conf0_def split: if_splits)
  show ?thesis
    using tls_load_authority_keeps [OF c(1)] tls_load_cert_keeps [OF c(2)] tls_load_cert_both [OF c(2) n]
      tls_set_host_keeps [OF c(3)] tls_connect_asked [OF c(4)]
    by (auto split: option.splits)
qed

theorem handshake_verifies_the_host_witness:
  "\<exists>cf evs_log. coco_client_tls_open ossl_fine 7 ''db'' no_tls_options 512 = Opened cf evs_log \<and> t_check_host cf = Some ''db'' \<and> t_verify_peer cf"
proof -
  obtain cf evs_log where o: "coco_client_tls_open ossl_fine 7 ''db'' no_tls_options 512 = Opened cf evs_log"
    by (simp add: coco_client_tls_open_def ossl_fine_def tls_load_authority_def no_tls_options_def tls_load_cert_def
        tls_set_host_def tls_connect_def Let_def)
  then show ?thesis using handshake_verifies_the_host [OF o] by (simp add: no_tls_options_def)
qed

text \<open>C20. A handshake that is refused at any step leaves nothing behind: every handle, context and connection it
  made is freed, each once.\<close>

theorem refused_handshake_frees_everything:
  assumes "coco_client_tls_open L fd host opts cap = Refused e evs_log"
  shows "mset (freed_in evs_log) = mset (held_after evs_log)"
  using assms
  by (auto simp: coco_client_tls_open_def tls_bad_def split: if_splits sum.splits)

theorem refused_handshake_frees_everything_witness:
  "\<exists>e evs_log. coco_client_tls_open (ossl_fine\<lparr>a_connect := (\<lambda>_. False)\<rparr>) 7 ''db'' no_tls_options 512 = Refused e evs_log \<and>
     mset (freed_in evs_log) = mset (held_after evs_log)"
proof -
  obtain e evs_log where o: "coco_client_tls_open (ossl_fine\<lparr>a_connect := (\<lambda>_. False)\<rparr>) 7 ''db'' no_tls_options 512 = Refused e evs_log"
    by (simp add: coco_client_tls_open_def ossl_fine_def tls_load_authority_def no_tls_options_def tls_load_cert_def
        tls_set_host_def tls_connect_def Let_def)
  then show ?thesis using refused_handshake_frees_everything [OF o] by blast
qed

section \<open>Zeytun pages\<close>

text \<open>C21. A page is fetched whole and without waiting. From a server that keeps the connection alive, over plain TCP
  or TLS, a response with a Content-Length, cut up and interrupted in any way, is read to the last byte of its body and
  no further; its body is handed over, and the request that went out is, line by line, the GET of HTTP/1.1 for the page, which
  names the host, with the port unless it is the usual one, and asks to close.\<close>

definition http_lines :: "string list \<Rightarrow> string" where
  "http_lines ls = concat (map (\<lambda>l. l @ [CHR 0x0D, CHR 0x0A]) ls)"

definition get_lines :: "string \<Rightarrow> string \<Rightarrow> string \<Rightarrow> string list" where
  "get_lines path host service =
     [''GET '' @ path @ '' HTTP/1.1'', ''Host: '' @ host @ (if service \<in> {''80'', ''443'', ''http'', ''https''} then [] else '':'' @ service),
      ''User-Agent: cocolog/1'', ''Accept: text/plain'', ''Connection: close'', []]"

lemma request_lines: "zt_request path host service = http_lines (get_lines path host service)"
  by (simp add: zt_request_def http_lines_def get_lines_def default_port_def crlf_def crlf2_def)

theorem page_is_fetched:
  assumes "length (http_lines (get_lines path host service)) < 2048" and "h_mallocs s = []"
    and "h_dials s = Addresses as L # r" and "first_up as = Some a"
    and "page_from Bd host L tls errcap a (bytes_of (H @ B))"
    and "http_head H (length B)" and "prefix ''HTTP/1.'' H" and "strstr '' 200 '' H = Some 8"
  shows "\<exists>t. zt_get2 Bd host service path tls errcap s = One B t \<and>
    h_sent t = bytes_of (http_lines (get_lines path host service)) \<and> h_fd t = -1 \<and> ad_fd a \<in> set (h_closed t)"
  using zt_get2_ok [OF _ assms(2-)] assms(1) by (simp add: request_lines)

definition page_head :: string where
  "page_head = ''HTTP/1.1 200 OK'' @ crlf @ ''Content-Length: 2'' @ crlf2"

definition http_conn :: "addr_try \<Rightarrow> zt_sys" where
  "http_conn a = \<lparr>h_errno = E_NONE, h_recv = [], h_send = [], h_sslr = [], h_sslw = [], h_sent = [], h_plain = [],
     h_dials = [Addresses [a] ossl_fine], h_mallocs = [], h_closed = [], h_fd = -1, h_tls = None, h_err = '''',
     h_g_tls = no_tls_options, h_g_tls_on = False\<rparr>"

definition page_events :: "recv_ev list" where
  "page_events = [RData (take 20 (bytes_of (page_head @ ''hi''))), RErr E_INTR, RData (drop 20 (bytes_of (page_head @ ''hi'')))]"

lemma page_head_facts: "CHR 0x00 \<notin> set page_head" "strstr crlf2 page_head = Some 34"
  "strstr (crlf @ ''Content-Length:'') page_head = Some 15" "drop 32 page_head = [CHR '' '', CHR ''2'', CHR 0x0D, CHR 0x0A, CHR 0x0D, CHR 0x0A]"
  "length page_head = 38" "prefix ''HTTP/1.'' page_head" "strstr '' 200 '' page_head = Some 8"
  by (simp_all add: page_head_def crlf_def crlf2_def)

lemma page_head_ok: "http_head page_head (length ''hi'')"
  by (simp add: http_head_def page_head_facts Let_def is_digit_def dec_val_def)

lemma page_request_short: "length (zt_request ''/p'' ''db'' ''2190'') < 2048"
  by (simp add: zt_request_def default_port_def crlf_def crlf2_def)

theorem page_is_fetched_witness:
  "\<exists>t. zt_get2 Tls_absent ''db'' ''2190'' ''/p'' None 64 (http_conn (addr_up page_events)) = One ''hi'' t \<and>
     h_sent t = bytes_of (http_lines [''GET /p HTTP/1.1'', ''Host: db:2190'', ''User-Agent: cocolog/1'', ''Accept: text/plain'', ''Connection: close'', []]) \<and>
     h_fd t = -1 \<and> ad_fd (addr_up page_events) \<in> set (h_closed t)"
proof -
  have "take 20 (bytes_of (page_head @ ''hi'')) \<noteq> []" "drop 20 (bytes_of (page_head @ ''hi'')) \<noteq> []"
    by (simp_all add: page_head_facts flip: length_greater_0_conv)
  then have p: "page_from Tls_absent ''db'' ossl_fine None 64 (addr_up page_events) (bytes_of (page_head @ ''hi''))"
    by (simp add: page_from_def addr_up_def page_events_def del: bytes_of_append take_append drop_append)
  have g: "get_lines ''/p'' ''db'' ''2190'' = [''GET /p HTTP/1.1'', ''Host: db:2190'', ''User-Agent: cocolog/1'', ''Accept: text/plain'', ''Connection: close'', []]"
    by (simp add: get_lines_def)
  have u: "h_mallocs (http_conn (addr_up page_events)) = []" "h_dials (http_conn (addr_up page_events)) = Addresses [addr_up page_events] ossl_fine # []"
    "first_up [addr_up page_events] = Some (addr_up page_events)" by (simp_all add: http_conn_def addr_up_def)
  show ?thesis using page_is_fetched [OF _ u p page_head_ok page_head_facts(6,7), of "''/p''" "''2190''"] page_request_short
    by (simp add: g request_lines del: bytes_of_append)
qed

text \<open>C22. A page asked for over TLS is never fetched in plain text. However the call ends, it sends nothing in plain text; and a page
  comes back only behind a handshake that the TLS library completed, with the options of the call, on the socket of the first address that
  connected, and nothing was read from that socket past the library.\<close>

theorem https_is_never_plain:
  "h_plain (final (zt_get2 B host service path (Some opts) errcap s)) = h_plain s \<and>
   (\<forall>body t. zt_get2 B host service path (Some opts) errcap s = One body t \<longrightarrow>
      B = Tls_openssl \<and> (\<exists>as L ds a cf evs_log. h_dials s = Addresses as L # ds \<and> first_up as = Some a \<and>
        coco_client_tls_open L (ad_fd a) host opts errcap = Opened cf evs_log \<and> h_recv t = ad_recv a))"
  by (rule conjI [OF zt_get2_tls(1) [OF refl]], intro allI impI, rule zt_get2_tls(2) [OF refl])

definition tls_page :: addr_try where
  "tls_page = (addr_up [])\<lparr>ad_sslr := [SslRead (hd (bytes_of (page_head @ ''hi''))) (tl (bytes_of (page_head @ ''hi'')))]\<rparr>"

theorem https_is_never_plain_witness:
  "\<exists>t. zt_get2 Tls_openssl ''db'' ''2190'' ''/p'' (Some no_tls_options) 64 (http_conn tls_page) = One ''hi'' t \<and> h_plain t = [] \<and>
     (\<exists>cf evs_log. coco_client_tls_open ossl_fine (ad_fd tls_page) ''db'' no_tls_options 64 = Opened cf evs_log)"
proof -
  have "page_from Tls_openssl ''db'' ossl_fine (Some no_tls_options) 64 tls_page (bytes_of (page_head @ ''hi''))"
    by (simp add: page_from_def tls_page_def addr_up_def coco_client_tls_open_def ossl_fine_def tls_load_authority_def
        no_tls_options_def tls_load_cert_def tls_set_host_def tls_connect_def Let_def del: bytes_of_append)
  then obtain t where t: "zt_get2 Tls_openssl ''db'' ''2190'' ''/p'' (Some no_tls_options) 64 (http_conn tls_page) = One ''hi'' t"
    using zt_get2_ok [of "''/p''" "''db''" "''2190''" "http_conn tls_page" "[tls_page]" ossl_fine "[]" tls_page Tls_openssl
        "Some no_tls_options" 64 page_head "''hi''"] page_request_short page_head_ok page_head_facts
    by (auto simp: http_conn_def tls_page_def addr_up_def)
  have "first_up [tls_page] = Some tls_page" by (simp add: tls_page_def addr_up_def)
  then show ?thesis
    using https_is_never_plain [of Tls_openssl "''db''" "''2190''" "''/p''" no_tls_options 64 "http_conn tls_page"] t
    by (auto simp: http_conn_def)
qed

text \<open>C23. Unescaping in place is the inverse of the escaper: a page that Zeytun escaped comes back as it was, in
  the same buffer, and the answer is its length.\<close>

theorem unescape_inverts_escape:
  assumes "CHR 0x00 \<notin> set s"
  shows "\<exists>t. zt_unescape (escape s @ CHR 0x00 # junk) = (t, length s) \<and> cstr t = s \<and>
    length t = length (escape s @ CHR 0x00 # junk)"
proof -
  have "CHR 0x00 \<notin> set (escape s)" using assms by (auto simp: escape_def escape_char_def)
  then have c: "cstr (escape s @ CHR 0x00 # junk) = escape s" by (simp add: cstr_append_no_NUL) (simp add: cstr_def)
  obtain t n where tn: "zt_unescape (escape s @ CHR 0x00 # junk) = (t, n)" by fastforce
  show ?thesis using zt_unescape_spec [OF _ tn] tn c unescape_escape by simp
qed

theorem unescape_inverts_escape_witness:
  "\<exists>t. zt_unescape (''a&lt;b'' @ CHR 0x00 # ''xyz'') = (t, 3) \<and> cstr t = ''a<b''"
  using unescape_inverts_escape [of "''a<b''" "''xyz''"] by (auto simp: escape_def escape_char_def)

text \<open>C24. URL encoding is percent-encoding (RFC 3986): it writes the letters, digits and \<open>-._~\<close> as they are and every other byte as a
  percent sign and two hexadecimal digits. It answers 1 exactly when that and its NUL fit the buffer; what it writes decodes to the value, and
  holds nothing but those characters and percent signs, so no value can end the request line.\<close>

theorem urlencode_is_exact:
  "zt_urlencode s cap = (if length (urlencode (cstr s)) + 1 \<le> cap then Some (urlencode (cstr s)) else None) \<and>
   urldecode (urlencode (cstr s)) = cstr s \<and>
   set (urlencode (cstr s)) \<subseteq> set ''ABCDEFGHIJKLMNOPQRSTUVWXYZabcdefghijklmnopqrstuvwxyz0123456789-._~%''"
proof -
  have "set (urlencode (cstr s)) \<subseteq> insert CHR ''%'' (set unreserved)" using urlencode_safe by blast
  then have "set (urlencode (cstr s)) \<subseteq> set (unreserved @ ''%'')" by simp
  then show ?thesis by (simp only: zt_urlencode_eq urldecode_urlencode unreserved_def append.simps simp_thms)
qed

theorem urlencode_is_exact_witness:
  "zt_urlencode ''a b'' 6 = Some ''a%20b'' \<and> zt_urlencode ''a b'' 5 = None \<and> urldecode ''a%20b'' = ''a b''"
proof -
  have o: "zt_urlencode ''a b'' 6 = Some ''a%20b''" and n: "cstr ''a b'' = ''a b''" and l: "length (urlencode (cstr ''a b'')) = 5" by code_simp+
  show ?thesis using urlencode_is_exact [of "''a b''" 6] urlencode_is_exact [of "''a b''" 5] o n l by simp
qed

end
